(* ===== verification/Prelude.thy ===== *)
theory Prelude
  imports Main "HOL-Library.Word" "HOL-Library.Sublist" "HOL-Library.Product_Lexorder"
begin

text \<open>
  What every component shares: the machine types, the byte encodings Rust's
  \<open>to_le_bytes\<close> and \<open>from_le_bytes\<close> give, slices with their bounds checks, decimal
  numerals as Rust's formatter writes them and \<open>str::parse\<close> reads them, and the
  operations that return a result together with the state they leave behind, on
  their error paths too.

  Lengths, offsets and counters that the code keeps in \<open>usize\<close> or \<open>u64\<close> and that no
  input can push to their limit are \<open>nat\<close>; wherever a width matters (a cast, a
  wrap-around, a saturating or checked operation) the width is written out.
\<close>

named_theorems rust_simps \<open>rewrite rules for the Rust helpers\<close>
named_theorems bytes_simps \<open>lengths and round trips of byte encodings\<close>

subsection \<open>Machine types\<close>

type_synonym u8 = "8 word"
type_synonym u32 = "32 word"
type_synonym u64 = "64 word"
type_synonym bytes = "u8 list"

subsection \<open>Little-endian bytes\<close>

text \<open>
  \<open>le_nat n k\<close> is the \<open>n\<close> low bytes of \<open>k\<close>, lowest first: \<open>(k as u32).to_le_bytes()\<close> is
  \<open>le_nat 4 k\<close>, the truncation of the cast included.
\<close>

fun le_nat :: "nat \<Rightarrow> nat \<Rightarrow> bytes" where
  "le_nat 0 k = []"
| "le_nat (Suc n) k = word_of_nat (k mod 256) # le_nat n (k div 256)"

fun nat_of_le :: "bytes \<Rightarrow> nat" where
  "nat_of_le [] = 0"
| "nat_of_le (b # bs) = unat b + 256 * nat_of_le bs"

lemma length_le_nat [simp, bytes_simps]: "length (le_nat n k) = n"
  by (induction n arbitrary: k) auto

lemma unat_u8_mod [simp]: "unat (word_of_nat (k mod 256) :: u8) = k mod 256"
  by (simp add: unat_of_nat)

lemma unat_u8_lt: "unat (b :: u8) < 256"
  using unsigned_less [of b] by simp

lemma nat_of_le_le_nat: "nat_of_le (le_nat n k) = k mod 256 ^ n"
proof (induction n arbitrary: k)
  case 0
  then show ?case by simp
next
  case (Suc n)
  have "k mod (256 * 256 ^ n) = 256 * (k div 256 mod 256 ^ n) + k mod 256"
    by (rule mod_mult2_eq)
  with Suc show ?case by simp
qed

lemma nat_of_le_le_nat_id [bytes_simps]: "k < 256 ^ n \<Longrightarrow> nat_of_le (le_nat n k) = k"
  by (simp add: nat_of_le_le_nat)

lemma nat_of_le_lt: "nat_of_le bs < 256 ^ length bs"
proof (induction bs)
  case Nil
  then show ?case by simp
next
  case (Cons b bs)
  have "unat b < 256" by (rule unat_u8_lt)
  with Cons show ?case by simp
qed

lemma le_nat_nat_of_le [bytes_simps]: "le_nat (length bs) (nat_of_le bs) = bs"
proof (induction bs)
  case Nil
  then show ?case by simp
next
  case (Cons b bs)
  have "unat b < 256" by (rule unat_u8_lt)
  then have "nat_of_le (b # bs) mod 256 = unat b" and "nat_of_le (b # bs) div 256 = nat_of_le bs"
    by simp_all
  with Cons show ?case by simp
qed

lemma le_nat_inj: "le_nat n a = le_nat n b \<Longrightarrow> a < 256 ^ n \<Longrightarrow> b < 256 ^ n \<Longrightarrow> a = b"
  by (metis nat_of_le_le_nat_id)

lemma word_of_nat_nat_of_le_le_nat [bytes_simps]:
  "word_of_nat (nat_of_le (le_nat 4 (unat (w :: u32)))) = w"
  "word_of_nat (nat_of_le (le_nat 8 (unat (v :: u64)))) = v"
proof -
  have "unat w < 256 ^ 4" and "unat v < 256 ^ 8"
    using unsigned_less [of w] unsigned_less [of v] by simp_all
  then show "word_of_nat (nat_of_le (le_nat 4 (unat w))) = w"
    and "word_of_nat (nat_of_le (le_nat 8 (unat v))) = v"
    by (simp_all add: nat_of_le_le_nat_id)
qed

subsection \<open>Slices\<close>

text \<open>\<open>slice.get(a..b)\<close>: \<open>None\<close> where the range leaves the slice.\<close>

definition get_range :: "'a list \<Rightarrow> nat \<Rightarrow> nat \<Rightarrow> 'a list option" where
  "get_range xs a b = (if a \<le> b \<and> b \<le> length xs then Some (take (b - a) (drop a xs)) else None)"

lemma get_range_Some_iff:
  "get_range xs a b = Some ys \<longleftrightarrow> a \<le> b \<and> b \<le> length xs \<and> ys = take (b - a) (drop a xs)"
  by (auto simp: get_range_def)

lemma get_range_None_iff: "get_range xs a b = None \<longleftrightarrow> \<not> (a \<le> b \<and> b \<le> length xs)"
  by (simp add: get_range_def)

lemma get_range_length: "get_range xs a b = Some ys \<Longrightarrow> length ys = b - a"
  by (auto simp: get_range_def split: if_splits)

lemma get_range_append_left [rust_simps]:
  "get_range (xs @ ys) (length xs) (length xs + n) = get_range ys 0 n"
  by (auto simp: get_range_def)

definition starts_with :: "'a list \<Rightarrow> 'a list \<Rightarrow> bool" where
  "starts_with xs p \<longleftrightarrow> take (length p) xs = p"

lemma starts_with_append [rust_simps]: "starts_with (p @ xs) p"
  by (simp add: starts_with_def)

definition strip_suffix :: "'a list \<Rightarrow> 'a list \<Rightarrow> 'a list option" where
  "strip_suffix xs s =
     (if length s \<le> length xs \<and> drop (length xs - length s) xs = s
      then Some (take (length xs - length s) xs) else None)"

lemma strip_suffix_append [simp, rust_simps]: "strip_suffix (xs @ s) s = Some xs"
  by (simp add: strip_suffix_def)

lemma strip_suffix_Some: "strip_suffix xs s = Some ys \<Longrightarrow> xs = ys @ s"
  by (auto simp: strip_suffix_def split: if_splits) (metis append_take_drop_id)

subsection \<open>Checked and saturating arithmetic\<close>

definition u64_max :: nat where
  "u64_max = 2 ^ 64 - 1"

definition saturating_add_u64 :: "nat \<Rightarrow> nat \<Rightarrow> nat" where
  "saturating_add_u64 a b = min (a + b) u64_max"

definition checked_add_u64 :: "nat \<Rightarrow> nat \<Rightarrow> nat option" where
  "checked_add_u64 a b = (if a + b \<le> u64_max then Some (a + b) else None)"

definition checked_mul_u64 :: "nat \<Rightarrow> nat \<Rightarrow> nat option" where
  "checked_mul_u64 a b = (if a * b \<le> u64_max then Some (a * b) else None)"

lemma saturating_add_u64_le: "saturating_add_u64 a b \<le> u64_max"
  by (simp add: saturating_add_u64_def)

lemma saturating_add_u64_id: "a + b \<le> u64_max \<Longrightarrow> saturating_add_u64 a b = a + b"
  by (simp add: saturating_add_u64_def)

subsection \<open>Decimal numerals\<close>

definition digit_char :: "nat \<Rightarrow> char" where
  "digit_char d = char_of (48 + d)"

definition digit_val :: "char \<Rightarrow> nat option" where
  "digit_val c = (if 48 \<le> (of_char c :: nat) \<and> (of_char c :: nat) \<le> 57 then Some (of_char c - 48) else None)"

lemma digit_val_char [simp]: "d < 10 \<Longrightarrow> digit_val (digit_char d) = Some d"
  by (simp add: digit_val_def digit_char_def of_char_of)

fun show_nat :: "nat \<Rightarrow> string" where
  "show_nat n = (if n < 10 then [digit_char n] else show_nat (n div 10) @ [digit_char (n mod 10)])"

declare show_nat.simps [simp del]

text \<open>\<open>digits.parse::<u64>()\<close>: an optional \<open>+\<close>, at least one digit, at most \<open>u64::MAX\<close>.\<close>

fun digits_val :: "nat \<Rightarrow> string \<Rightarrow> nat option" where
  "digits_val acc [] = Some acc"
| "digits_val acc (c # cs) =
     (case digit_val c of None \<Rightarrow> None
      | Some d \<Rightarrow> if 10 * acc + d \<le> u64_max then digits_val (10 * acc + d) cs else None)"

definition parse_u64 :: "string \<Rightarrow> nat option" where
  "parse_u64 s =
     (case s of
        [] \<Rightarrow> None
      | c # cs \<Rightarrow> if c = CHR ''+'' then (if cs = [] then None else digits_val 0 cs)
                 else digits_val 0 (c # cs))"

definition pad20 :: "string \<Rightarrow> string" where
  "pad20 s = replicate (20 - length s) CHR ''0'' @ s"

lemma digits_val_append:
  "digits_val a (xs @ ys) = (case digits_val a xs of None \<Rightarrow> None | Some b \<Rightarrow> digits_val b ys)"
  by (induction xs arbitrary: a) (auto split: option.splits)

lemma digits_val_show_nat: "n \<le> u64_max \<Longrightarrow> digits_val 0 (show_nat n) = Some n"
proof (induction n rule: show_nat.induct)
  case (1 n)
  show ?case
  proof (cases "n < 10")
    case True
    with "1.prems" show ?thesis by (subst show_nat.simps) simp
  next
    case False
    then have "digits_val 0 (show_nat (n div 10)) = Some (n div 10)"
      using "1.IH" "1.prems" by (meson div_le_dividend le_trans)
    moreover have "10 * (n div 10) + n mod 10 = n" by simp
    ultimately show ?thesis
      using False "1.prems" by (subst show_nat.simps) (simp add: digits_val_append)
  qed
qed

lemma digits_val_zeros: "digits_val 0 (replicate k CHR ''0'' @ s) = digits_val 0 s"
proof -
  have zero: "digit_val (CHR ''0'') = Some 0" by (simp add: digit_val_def)
  show ?thesis by (induction k) (simp_all add: zero)
qed

lemma show_nat_hd: "hd (show_nat n) \<noteq> CHR ''+'' \<and> show_nat n \<noteq> []"
proof (induction n rule: show_nat.induct)
  case (1 n)
  have plus: "digit_val (CHR ''+'') = None" by (simp add: digit_val_def)
  show ?case
  proof (cases "n < 10")
    case True
    then have "digit_char n \<noteq> CHR ''+''" using plus digit_val_char [OF True] by force
    with True show ?thesis by (simp add: show_nat.simps [of n])
  next
    case False
    with 1 show ?thesis by (simp add: show_nat.simps [of n])
  qed
qed

lemma parse_u64_eq_digits: "s \<noteq> [] \<Longrightarrow> hd s \<noteq> CHR ''+'' \<Longrightarrow> parse_u64 s = digits_val 0 s"
  by (cases s) (auto simp: parse_u64_def)

lemma parse_u64_show_nat: "n \<le> u64_max \<Longrightarrow> parse_u64 (show_nat n) = Some n"
  using show_nat_hd [of n] by (simp add: parse_u64_eq_digits digits_val_show_nat)

lemma parse_u64_pad20: "n \<le> u64_max \<Longrightarrow> parse_u64 (pad20 (show_nat n)) = Some n"
proof -
  assume n: "n \<le> u64_max"
  let ?s = "pad20 (show_nat n)"
  have "?s \<noteq> []" and "hd ?s \<noteq> CHR ''+''"
    using show_nat_hd [of n] by (cases "20 - length (show_nat n)"; simp add: pad20_def)+
  then have "parse_u64 ?s = digits_val 0 ?s" by (rule parse_u64_eq_digits)
  with n show ?thesis by (simp add: pad20_def digits_val_zeros digits_val_show_nat)
qed

lemma digits_val_bound: "digits_val a s = Some n \<Longrightarrow> a \<le> u64_max \<Longrightarrow> n \<le> u64_max"
  by (induction s arbitrary: a) (auto split: option.splits if_splits)

lemma parse_u64_bound: "parse_u64 s = Some n \<Longrightarrow> n \<le> u64_max"
  using digits_val_bound [of 0]
  by (auto simp: parse_u64_def simp del: digits_val.simps split: list.splits if_splits)

text \<open>The value of a numeral with no bound on it: two numbers never share a name.\<close>

definition digit_sum :: "string \<Rightarrow> nat" where
  "digit_sum s = foldl (\<lambda>a c. 10 * a + (of_char c - 48)) 0 s"

lemma digit_sum_show_nat: "digit_sum (show_nat n) = n"
proof (induction n rule: show_nat.induct)
  case (1 n)
  have d: "of_char (digit_char d) - 48 = d" if "d < 10" for d :: nat
    using that by (simp add: digit_char_def of_char_of)
  show ?case
  proof (cases "n < 10")
    case True
    then show ?thesis using d [of n] by (simp add: show_nat.simps [of n] digit_sum_def)
  next
    case False
    then show ?thesis
      using 1 d [of "n mod 10"] by (simp add: show_nat.simps [of n] digit_sum_def)
  qed
qed

lemma digit_sum_zeros: "digit_sum (replicate k CHR ''0'' @ s) = digit_sum s"
  by (induction k) (simp_all add: digit_sum_def)

lemma pad20_show_nat_inj: "pad20 (show_nat a) = pad20 (show_nat b) \<Longrightarrow> a = b"
  by (metis digit_sum_show_nat digit_sum_zeros pad20_def)

subsection \<open>Operations that return a result and leave a state\<close>

text \<open>
  A Rust method on \<open>&mut self\<close> that returns a \<open>Result\<close> leaves its mutations behind when
  it returns an error, so an operation is a function from the state to the result and
  the state it leaves.
\<close>

type_synonym ('s, 'e, 'a) op = "'s \<Rightarrow> ('e + 'a) \<times> 's"

definition op_ok :: "'a \<Rightarrow> ('s, 'e, 'a) op" where
  "op_ok x s = (Inr x, s)"

definition op_then :: "('s, 'e, 'a) op \<Rightarrow> ('a \<Rightarrow> ('s, 'e, 'b) op) \<Rightarrow> ('s, 'e, 'b) op" where
  "op_then m k s = (case m s of (Inl e, s') \<Rightarrow> (Inl e, s') | (Inr x, s') \<Rightarrow> k x s')"

fun op_each :: "('a \<Rightarrow> ('s, 'e, unit) op) \<Rightarrow> 'a list \<Rightarrow> ('s, 'e, unit) op" where
  "op_each f [] s = (Inr (), s)"
| "op_each f (x # xs) s = (case f x s of (Inl e, s') \<Rightarrow> (Inl e, s') | (Inr _, s') \<Rightarrow> op_each f xs s')"

text \<open>What every step of a loop keeps, the loop keeps, whether or not it ends early.\<close>

lemma op_each_invariant:
  assumes "\<And>x s. x \<in> set xs \<Longrightarrow> P s \<Longrightarrow> P (snd (f x s))" and "P s"
  shows "P (snd (op_each f xs s))"
  using assms
proof (induction xs arbitrary: s)
  case Nil
  then show ?case by simp
next
  case (Cons x xs)
  then show ?case
    by (cases "f x s") (fastforce split: sum.splits)
qed

lemma op_each_ok:
  assumes "\<And>x s. x \<in> set xs \<Longrightarrow> P s \<Longrightarrow> fst (f x s) = Inr () \<and> P (snd (f x s))" and "P s"
  shows "fst (op_each f xs s) = Inr () \<and> P (snd (op_each f xs s))"
  using assms
proof (induction xs arbitrary: s)
  case Nil
  then show ?case by simp
next
  case (Cons x xs)
  have "fst (f x s) = Inr ()" and "P (snd (f x s))"
    using Cons.prems by simp_all
  moreover from this obtain s' where "f x s = (Inr (), s')" by (metis prod.collapse)
  ultimately show ?case using Cons by simp
qed

text \<open>
  A family of operations that succeed on an invariant, keep it, and are seen through an
  abstraction as functions: a loop over them is the fold of the functions.
\<close>

locale refined_ops =
  fixes f :: "'x \<Rightarrow> ('s, 'e, unit) op" and P :: "'s \<Rightarrow> bool" and A :: "'s \<Rightarrow> 'a"
    and g :: "'x \<Rightarrow> 'a \<Rightarrow> 'a"
  assumes step_ok: "P s \<Longrightarrow> fst (f x s) = Inr ()"
    and step_keeps: "P s \<Longrightarrow> P (snd (f x s))"
    and step_refines: "P s \<Longrightarrow> A (snd (f x s)) = g x (A s)"
begin

lemma each_refines:
  assumes "P s"
  shows "fst (op_each f xs s) = Inr () \<and> P (snd (op_each f xs s))
    \<and> A (snd (op_each f xs s)) = fold g xs (A s)"
  using assms
proof (induction xs arbitrary: s)
  case Nil
  then show ?case by simp
next
  case (Cons x xs)
  then obtain s' where "f x s = (Inr (), s')" using step_ok by (metis prod.collapse)
  with Cons step_keeps [of s x] step_refines [of s x] show ?case by simp
qed

end

lemma op_then_ok [rust_simps]: "m s = (Inr x, s') \<Longrightarrow> op_then m k s = k x s'"
  by (simp add: op_then_def)

lemma op_then_err [rust_simps]: "m s = (Inl e, s') \<Longrightarrow> op_then m k s = (Inl e, s')"
  by (simp add: op_then_def)

subsection \<open>Lists\<close>

lemma take_take_prefix: "prefix xs ys \<Longrightarrow> n \<le> length xs \<Longrightarrow> take n ys = take n xs"
  by (auto simp: prefix_def)

lemma sum_list_butlast_last:
  "xs \<noteq> [] \<Longrightarrow> sum_list (map f xs) = sum_list (map f (butlast xs)) + (f (last xs) :: nat)"
  by (induction xs) auto

end
