(* ===== verification/Sink.thy ===== *)
theory Sink
  imports Prelude "HOL-Library.Product_Lexorder"
begin

text \<open>
  \<open>signy/src/part/sink.rs\<close>: where a scan puts the rows it reads. A sink takes rows one at a time and
  tells the scan its frontier, the timestamp a row must beat to enter the result. \<open>TopKRows\<close> is the sink
  of a query with a limit; the locale states what the scans rely on of any sink.
\<close>

subsection \<open>Rows and the frontier\<close>

record log_entry =
  le_ts :: int
  le_line :: string
  le_metadata :: "(string \<times> string) list"

type_synonym labels = "(string \<times> string) list"

type_synonym found = "labels \<times> log_entry"

definition beyond_frontier :: "int option \<Rightarrow> bool \<Rightarrow> int \<Rightarrow> bool" where
  "beyond_frontier frontier forward ts =
     (case frontier of None \<Rightarrow> False | Some f \<Rightarrow> if forward then ts \<ge> f else ts \<le> f)"

definition span_beyond_frontier :: "int option \<Rightarrow> bool \<Rightarrow> int \<Rightarrow> int \<Rightarrow> bool" where
  "span_beyond_frontier frontier forward min_ts max_ts = beyond_frontier frontier forward (if forward then min_ts else max_ts)"

text \<open>The operations of a sink, as the scans call them. A scan that has the fields of the line already
  hands them along.\<close>

record 's row_sink =
  rs_accept :: "labels \<Rightarrow> log_entry \<Rightarrow> 's \<Rightarrow> string + 's"
  rs_accept_extracted :: "labels \<Rightarrow> log_entry \<Rightarrow> (string \<times> string) list option \<Rightarrow> 's \<Rightarrow> string + 's"
  rs_frontier :: "'s \<Rightarrow> int option"
  rs_remaining :: "'s \<Rightarrow> nat option"
  rs_closed :: "'s \<Rightarrow> bool"

subsection \<open>The rows nearest the direction of the query\<close>

record ranked_row =
  rk_ts :: int
  rk_arrived :: nat
  rk_forward :: bool
  rk_found :: found

definition rank :: "ranked_row \<Rightarrow> int \<times> nat" where
  "rank r = (if rk_forward r then rk_ts r else - rk_ts r, rk_arrived r)"

text \<open>A heap is kept as the list of its rows, the best first: its root, the worst, is the last.\<close>

datatype topk_held = Growing "found list" | Bounded "ranked_row list"

record topk =
  tk_limit :: nat
  tk_forward :: bool
  tk_held :: topk_held
  tk_arrived :: nat

definition topk_new :: "nat \<Rightarrow> bool \<Rightarrow> topk" where
  "topk_new limit forward = \<lparr>tk_limit = limit, tk_forward = forward, tk_held = Growing [], tk_arrived = 0\<rparr>"

definition ranked :: "bool \<Rightarrow> nat \<Rightarrow> found \<Rightarrow> ranked_row" where
  "ranked forward arrived f = \<lparr>rk_ts = le_ts (snd f), rk_arrived = arrived, rk_forward = forward, rk_found = f\<rparr>"

definition topk_offer :: "labels \<Rightarrow> log_entry \<Rightarrow> topk \<Rightarrow> topk" where
  "topk_offer labels entry t =
     (if tk_limit t = 0 then t
      else
        (let t1 = t\<lparr>tk_arrived := saturating_add_u64 (tk_arrived t) 1\<rparr> in
         case tk_held t of
           Growing rows \<Rightarrow>
             (let rows = rows @ [(labels, entry)] in
              if length rows = tk_limit t
              then t1\<lparr>tk_held := Bounded (sort_key rank (map (\<lambda>(i, f). ranked (tk_forward t) i f) (enumerate 0 rows)))\<rparr>
              else t1\<lparr>tk_held := Growing rows\<rparr>)
         | Bounded heap \<Rightarrow>
             (let row = ranked (tk_forward t) (tk_arrived t) (labels, entry) in
              if heap \<noteq> [] \<and> rank row < rank (last heap)
              then t1\<lparr>tk_held := Bounded (insort_key rank row (butlast heap))\<rparr> else t1)))"

definition topk_frontier :: "topk \<Rightarrow> int option" where
  "topk_frontier t =
     (case tk_held t of Growing rows \<Rightarrow> None | Bounded heap \<Rightarrow> if heap = [] then None else Some (rk_ts (last heap)))"

definition topk_len :: "topk \<Rightarrow> nat" where
  "topk_len t = (case tk_held t of Growing rows \<Rightarrow> length rows | Bounded heap \<Rightarrow> length heap)"

definition topk_remaining :: "topk \<Rightarrow> nat option" where
  "topk_remaining t = (if tk_limit t \<noteq> 2 ^ 64 - 1 then Some (tk_limit t - topk_len t) else None)"

definition topk_closed :: "topk \<Rightarrow> bool" where
  "topk_closed t = (tk_limit t = 0)"

text \<open>\<open>into_rows\<close>.\<close>

definition topk_rows :: "topk \<Rightarrow> found list" where
  "topk_rows t =
     (case tk_held t of
        Growing rows \<Rightarrow> if tk_forward t then sort_key (\<lambda>f. le_ts (snd f)) rows else sort_key (\<lambda>f. - le_ts (snd f)) rows
      | Bounded heap \<Rightarrow> map rk_found heap)"

definition topk_sink :: "topk row_sink" where
  "topk_sink = \<lparr>rs_accept = (\<lambda>labels entry t. Inr (topk_offer labels entry t)),
     rs_accept_extracted = (\<lambda>labels entry _ t. Inr (topk_offer labels entry t)), rs_frontier = topk_frontier,
     rs_remaining = topk_remaining, rs_closed = topk_closed\<rparr>"

subsection \<open>A stable sort, one row at a time\<close>

text \<open>The place a row takes behind the rows that are not further.\<close>

fun settle :: "('a \<Rightarrow> 'k :: linorder) \<Rightarrow> 'a \<Rightarrow> 'a list \<Rightarrow> 'a list" where
  "settle key x [] = [x]"
| "settle key x (y # ys) = (if key y \<le> key x then y # settle key x ys else x # y # ys)"

lemma insort_settle: "insort_key key a (settle key x ys) = settle key x (insort_key key a ys)"
  by (induction ys) auto

lemma sort_key_snoc: "sort_key key (xs @ [x]) = settle key x (sort_key key xs)"
  by (induction xs) (simp_all add: insort_settle)

lemma settle_simps [simp]: "length (settle key x ys) = Suc (length ys)" "set (settle key x ys) = insert x (set ys)"
  by (induction ys) auto

lemma take_settle: "take k (settle key x (take k ys)) = take k (settle key x ys)"
proof (induction ys arbitrary: k)
  case (Cons y ys)
  then show ?case by (cases k) (auto simp: take_Cons')
qed simp

lemma settle_last: "\<forall>y \<in> set ys. key y \<le> key x \<Longrightarrow> settle key x ys = ys @ [x]"
  by (induction ys) auto

text \<open>The best \<open>k\<close> of some rows, as a sort of all of them gives it.\<close>

definition nearest :: "bool \<Rightarrow> found \<Rightarrow> int" where
  "nearest forward f = (if forward then le_ts (snd f) else - le_ts (snd f))"

definition best :: "bool \<Rightarrow> nat \<Rightarrow> found list \<Rightarrow> found list" where
  "best forward k rows = take k (sort_key (nearest forward) rows)"

lemma best_snoc: "best forward k (rows @ [f]) = take k (settle (nearest forward) f (best forward k rows))"
  by (simp add: best_def sort_key_snoc take_settle)

lemma sorted_best: "sorted (map (nearest forward) (best forward k rows))"
  by (simp add: best_def sorted_wrt_take flip: take_map)

lemma best_best: "best forward k (best forward k rows @ [f]) = best forward k (rows @ [f])"
proof -
  have "sort_key (nearest forward) (best forward k rows) = best forward k rows"
    by (rule sort_key_id_if_sorted) (rule sorted_best)
  then show ?thesis unfolding best_snoc by (simp add: best_def)
qed

subsection \<open>The bounded sink keeps the best\<close>

definition topk_ok :: "topk \<Rightarrow> bool" where
  "topk_ok t \<longleftrightarrow>
     (case tk_held t of
        Growing rows \<Rightarrow> length rows < tk_limit t \<or> rows = [] \<and> tk_limit t = 0
      | Bounded heap \<Rightarrow> length heap = tk_limit t \<and> heap \<noteq> [] \<and> sorted (map rank heap) \<and>
          (\<forall>r \<in> set heap. r = ranked (tk_forward t) (rk_arrived r) (rk_found r) \<and> rk_arrived r < tk_arrived t)) \<and>
     (\<forall>rows. tk_held t = Growing rows \<longrightarrow> length rows \<le> tk_arrived t)"

lemma ranked_simps [simp]:
  "rk_ts (ranked w i f) = le_ts (snd f)" "rk_arrived (ranked w i f) = i" "rk_forward (ranked w i f) = w" "rk_found (ranked w i f) = f"
  by (simp_all add: ranked_def)

lemma rank_ranked: "rank (ranked w i f) = (nearest w f, i)"
  by (simp add: rank_def nearest_def)

lemma topk_rows_Growing: "tk_held t = Growing rows \<Longrightarrow> topk_rows t = sort_key (nearest (tk_forward t)) rows"
proof -
  have "nearest True = (\<lambda>f. le_ts (snd f))" "nearest False = (\<lambda>f. - le_ts (snd f))" by (auto simp: nearest_def)
  then show "tk_held t = Growing rows \<Longrightarrow> ?thesis" by (cases "tk_forward t") (simp_all add: topk_rows_def)
qed

lemma settle_ranked:
  assumes "\<forall>r \<in> set rs. r = ranked w (rk_arrived r) (rk_found r) \<and> rk_arrived r < i"
  shows "map rk_found (settle rank (ranked w i f) rs) = settle (nearest w) f (map rk_found rs)"
  using assms
proof (induction rs)
  case (Cons r rs)
  then have "rank r = (nearest w (rk_found r), rk_arrived r)" "rk_arrived r < i" by (metis list.set_intros(1) rank_ranked)+
  then have "rank r \<le> rank (ranked w i f) \<longleftrightarrow> nearest w (rk_found r) \<le> nearest w f"
    by (auto simp: rank_ranked less_eq_prod_def)
  then show ?case using Cons by simp
qed simp

lemma insort_ranked:
  assumes "\<forall>r \<in> set rs. r = ranked w (rk_arrived r) (rk_found r) \<and> rk_arrived r < i"
  shows "insort_key rank (ranked w i f) rs = settle rank (ranked w i f) rs"
  using assms
proof (induction rs)
  case (Cons r rs)
  then have "rank r \<noteq> rank (ranked w i f)" by (metis less_irrefl list.set_intros(1) rank_ranked snd_conv)
  then show ?case using Cons by auto
qed simp

text \<open>The ranking of the rows that filled the sink.\<close>

lemma sort_ranked:
  "map rk_found (sort_key rank (map (\<lambda>(i, f). ranked w i f) (enumerate 0 rows))) = sort_key (nearest w) rows \<and>
   (\<forall>r \<in> set (map (\<lambda>(i, f). ranked w i f) (enumerate 0 rows)). r = ranked w (rk_arrived r) (rk_found r) \<and> rk_arrived r < length rows)"
proof (induction rows rule: rev_induct)
  case (snoc f rows)
  define R where "R = map (\<lambda>(i, f). ranked w i f) (enumerate 0 rows)"
  have e: "map (\<lambda>(i, f). ranked w i f) (enumerate 0 (rows @ [f])) = R @ [ranked w (length rows) f]"
    by (simp add: R_def enumerate_append_eq)
  have "\<forall>r \<in> set R. r = ranked w (rk_arrived r) (rk_found r) \<and> rk_arrived r < length rows" using snoc by (simp add: R_def)
  moreover from this have "\<forall>r \<in> set (sort_key rank R). r = ranked w (rk_arrived r) (rk_found r) \<and> rk_arrived r < length rows" by simp
  from settle_ranked [OF this] have
    "map rk_found (sort_key rank (R @ [ranked w (length rows) f])) = sort_key (nearest w) (rows @ [f])"
    using snoc by (simp add: sort_key_snoc R_def)
  ultimately show ?case unfolding e by (auto simp: less_Suc_eq)
qed simp

lemma butlast_settle:
  assumes "sorted (map key ys)" and "ys \<noteq> []"
  shows "butlast (settle key x ys) = (if key x < key (last ys) then settle key x (butlast ys) else ys)"
  using assms
proof (induction ys)
  case (Cons y ys)
  show ?case
  proof (cases ys)
    case Nil
    then show ?thesis by auto
  next
    case (Cons z zs)
    have "\<forall>v \<in> set ys. key y \<le> key v" using Cons.prems(1) by simp
    then have "key y \<le> key (last ys)" using last_in_set [of ys] Cons by blast
    have lb: "last (y # ys) = last ys" "butlast (y # ys) = y # butlast ys" "ys \<noteq> []" using Cons by simp_all
    have ne: "settle key x ys \<noteq> []" by (metis list.size(3) nat.distinct(1) settle_simps(1))
    have i: "butlast (settle key x ys) = (if key x < key (last ys) then settle key x (butlast ys) else ys)"
      using Cons.IH Cons.prems(1) lb(3) by simp
    show ?thesis
    proof (cases "key y \<le> key x")
      case True
      then show ?thesis using ne i unfolding lb by simp
    next
      case False
      then have "settle key x (y # ys) = x # y # ys" "key x < key (last ys)" using \<open>key y \<le> key (last ys)\<close> by auto
      then show ?thesis using False unfolding lb by (simp add: lb(3))
    qed
  qed
qed simp

lemma topk_offer_best:
  assumes "topk_ok t" and "tk_arrived t < u64_max"
  shows "topk_ok (topk_offer labels entry t) \<and>
    topk_rows (topk_offer labels entry t) = best (tk_forward t) (tk_limit t) (topk_rows t @ [(labels, entry)])"
proof -
  define f where "f = (labels, entry)"
  have a: "saturating_add_u64 (tk_arrived t) 1 = tk_arrived t + 1" using assms(2) by (simp add: saturating_add_u64_def u64_max_def)
  consider (closed) "tk_limit t = 0" | (grows) rows where "tk_limit t > 0" "tk_held t = Growing rows"
    | (bounded) heap where "tk_limit t > 0" "tk_held t = Bounded heap" by (cases "tk_held t") auto
  then show ?thesis
  proof cases
    case closed
    then have "topk_rows t = []" using assms(1) by (auto simp: topk_ok_def topk_rows_def split: topk_held.splits)
    then show ?thesis using closed assms(1) by (simp add: topk_offer_def best_def)
  next
    case (grows rows)
    have r: "topk_rows t = sort_key (nearest (tk_forward t)) rows" by (rule topk_rows_Growing [OF grows(2)])
    have l: "length rows < tk_limit t" "length rows \<le> tk_arrived t" using assms(1) grows by (auto simp: topk_ok_def)
    have s: "sort_key (nearest (tk_forward t)) (topk_rows t @ [f]) = sort_key (nearest (tk_forward t)) (rows @ [f])"
      unfolding sort_key_snoc r by (simp add: sort_key_id_if_sorted)
    show ?thesis
    proof (cases "length (rows @ [f]) = tk_limit t")
      case True
      note q = sort_ranked [of "tk_forward t" "rows @ [f]"]
      define heap where "heap = sort_key rank (map (\<lambda>(i, f). ranked (tk_forward t) i f) (enumerate 0 (rows @ [f])))"
      have o: "topk_offer labels entry t = t\<lparr>tk_arrived := tk_arrived t + 1, tk_held := Bounded heap\<rparr>"
        using True grows a unfolding f_def heap_def by (simp add: topk_offer_def Let_def)
      have h: "length heap = tk_limit t" "sorted (map rank heap)" using True by (simp_all add: heap_def)
      have "\<forall>r \<in> set heap. r = ranked (tk_forward t) (rk_arrived r) (rk_found r) \<and> rk_arrived r < tk_arrived t + 1"
        using q l(2) unfolding heap_def set_sort by fastforce
      then have "topk_ok (topk_offer labels entry t)" using h grows(1) unfolding o by (auto simp: topk_ok_def)
      moreover have "topk_rows (topk_offer labels entry t) = sort_key (nearest (tk_forward t)) (rows @ [f])"
        using q unfolding o heap_def by (simp add: topk_rows_def)
      ultimately show ?thesis using s True unfolding f_def by (simp add: best_def)
    next
      case False
      then have "topk_offer labels entry t = t\<lparr>tk_arrived := tk_arrived t + 1, tk_held := Growing (rows @ [f])\<rparr>"
        using grows a unfolding f_def by (simp add: topk_offer_def Let_def)
      moreover have "topk_rows (t\<lparr>tk_arrived := tk_arrived t + 1, tk_held := Growing (rows @ [f])\<rparr>) =
          sort_key (nearest (tk_forward t)) (rows @ [f])"
        by (subst topk_rows_Growing) simp_all
      moreover have "length (rows @ [f]) < tk_limit t" using False l(1) by simp
      ultimately show ?thesis using l s unfolding f_def by (auto simp: topk_ok_def best_def r)
    qed
  next
    case (bounded heap)
    have h: "length heap = tk_limit t" "heap \<noteq> []" "sorted (map rank heap)"
      "\<forall>r \<in> set heap. r = ranked (tk_forward t) (rk_arrived r) (rk_found r) \<and> rk_arrived r < tk_arrived t"
      using assms(1) bounded by (auto simp: topk_ok_def)
    define row where "row = ranked (tk_forward t) (tk_arrived t) f"
    have r: "topk_rows t = map rk_found heap" using bounded by (simp add: topk_rows_def)
    have rb: "rank r = (nearest (tk_forward t) (rk_found r), rk_arrived r)" if "r \<in> set heap" for r
      using h(4) that by (metis rank_ranked)
    have n: "nearest (tk_forward t) (rk_found x) \<le> nearest (tk_forward t) (rk_found y)"
      if "x \<in> set heap" "y \<in> set heap" "rank x \<le> rank y" for x y
      using that(3) unfolding rb [OF that(1)] rb [OF that(2)] by (auto simp: less_eq_prod_def)
    have "sorted_wrt (\<lambda>x y. rank x \<le> rank y) heap" using h(3) by (simp only: sorted_wrt_map)
    from sorted_wrt_mono_rel [OF n this]
    have "sorted (map (nearest (tk_forward t)) (map rk_found heap))" by (simp only: sorted_wrt_map)
    then have "sort_key (nearest (tk_forward t)) (map rk_found heap) = map rk_found heap" by (rule sort_key_id_if_sorted)
    then have b: "best (tk_forward t) (tk_limit t) (topk_rows t @ [f]) = map rk_found (butlast (settle rank row heap))"
      using settle_ranked [OF h(4), of f, symmetric] h(1)
      by (simp add: best_def sort_key_snoc r row_def butlast_conv_take take_map)
    have bl: "\<forall>r \<in> set (butlast heap). r = ranked (tk_forward t) (rk_arrived r) (rk_found r) \<and> rk_arrived r < tk_arrived t"
      using h(4) by (meson in_set_butlastD)
    define heap' where "heap' = (if rank row < rank (last heap) then insort_key rank row (butlast heap) else heap)"
    have e: "heap' = butlast (settle rank row heap)"
      using butlast_settle [OF h(3,2), of row] insort_ranked [OF bl, of f] by (simp add: heap'_def row_def)
    have o: "topk_offer labels entry t = t\<lparr>tk_arrived := tk_arrived t + 1, tk_held := Bounded heap'\<rparr>"
      using bounded a h(2) unfolding heap'_def row_def f_def by (simp add: topk_offer_def Let_def)
    have "sorted (map rank (butlast heap))" unfolding map_butlast by (rule sorted_butlast) (use h in simp_all)
    then have "sorted (map rank heap')" using h(3) by (simp add: heap'_def sorted_insort_key)
    moreover have "length heap' = tk_limit t" using h(1,2) by (simp add: e)
    moreover have "set heap' \<subseteq> insert row (set heap)" unfolding e by (auto dest: in_set_butlastD)
    moreover have "r = ranked (tk_forward t) (rk_arrived r) (rk_found r) \<and> rk_arrived r < tk_arrived t + 1"
      if "r \<in> insert row (set heap)" for r
    proof (cases "r = row")
      case False
      then show ?thesis using that h(4) by (metis add.commute insertE less_SucI plus_1_eq_Suc)
    qed (simp add: row_def)
    ultimately have "\<forall>r \<in> set heap'. r = ranked (tk_forward t) (rk_arrived r) (rk_found r) \<and> rk_arrived r < tk_arrived t + 1"
      "sorted (map rank heap')" "length heap' = tk_limit t" by blast+
    then have "topk_ok (topk_offer labels entry t)" using bounded(1) unfolding o topk_ok_def by auto
    then show ?thesis using b e unfolding o f_def by (simp add: topk_rows_def)
  qed
qed

lemma topk_new_ok: "topk_ok (topk_new limit forward)" and topk_new_rows: "topk_rows (topk_new limit forward) = []"
  by (auto simp: topk_ok_def topk_new_def topk_rows_def)

lemma topk_offer_simps [simp]:
  "tk_limit (topk_offer labels entry t) = tk_limit t" "tk_forward (topk_offer labels entry t) = tk_forward t"
  "tk_arrived (topk_offer labels entry t) \<le> Suc (tk_arrived t)"
  by (auto simp: topk_offer_def Let_def saturating_add_u64_def split: topk_held.splits)

lemma topk_offers_best:
  assumes "length rows < u64_max"
  shows "topk_ok (fold (\<lambda>(l, e). topk_offer l e) rows (topk_new k w)) \<and>
    tk_limit (fold (\<lambda>(l, e). topk_offer l e) rows (topk_new k w)) = k \<and> tk_forward (fold (\<lambda>(l, e). topk_offer l e) rows (topk_new k w)) = w \<and>
    tk_arrived (fold (\<lambda>(l, e). topk_offer l e) rows (topk_new k w)) \<le> length rows \<and>
    topk_rows (fold (\<lambda>(l, e). topk_offer l e) rows (topk_new k w)) = best w k rows"
  using assms
proof (induction rows rule: rev_induct)
  case Nil
  then show ?case by (simp add: topk_new_ok topk_new_rows best_def) (simp add: topk_new_def)
next
  case (snoc f rows)
  obtain l e where f: "f = (l, e)" by (cases f)
  define t where "t = fold (\<lambda>(l, e). topk_offer l e) rows (topk_new k w)"
  have i: "topk_ok t" "tk_limit t = k" "tk_forward t = w" "tk_arrived t \<le> length rows" "topk_rows t = best w k rows"
    using snoc by (simp_all add: t_def)
  then have "tk_arrived t < u64_max" using snoc.prems by simp
  from topk_offer_best [OF i(1) this, of l e] i
  have "topk_ok (topk_offer l e t)" "topk_rows (topk_offer l e t) = best w k (rows @ [f])" by (simp_all add: best_best f)
  moreover have "tk_arrived (topk_offer l e t) \<le> length (rows @ [f])"
    using i(4) topk_offer_simps(3) [of l e t] by (simp del: topk_offer_simps(3))
  ultimately show ?case using i by (simp add: f t_def [symmetric])
qed

text \<open>C14: the bounded sink is a sort cut short: offered any rows in any order it holds, in the direction of
  the query, exactly the rows a stable sort by time of all of them and a cut at the limit gives, with
  equal times in order of arrival.\<close>

theorem topk_is_sorted_prefix:
  assumes "length rows < u64_max"
  shows "topk_rows (fold (\<lambda>(labels, entry). topk_offer labels entry) rows (topk_new limit forward)) =
    take limit (sort_key (\<lambda>(_, e). if forward then le_ts e else - le_ts e) rows)"
  using topk_offers_best [OF assms, of limit forward]
  by (simp add: best_def nearest_def [abs_def] case_prod_unfold)

definition sample_entry :: "int \<Rightarrow> string \<Rightarrow> log_entry" where
  "sample_entry ts line = \<lparr>le_ts = ts, le_line = line, le_metadata = []\<rparr>"

theorem topk_is_sorted_prefix_witness:
  "topk_rows (fold (\<lambda>(labels, entry). topk_offer labels entry)
      [([], sample_entry 2 ''a''), ([], sample_entry 7 ''b''), ([], sample_entry 7 ''c''), ([], sample_entry 9 ''d'')] (topk_new 2 False)) =
    [([], sample_entry 9 ''d''), ([], sample_entry 7 ''b'')]"
  by (subst topk_is_sorted_prefix) (simp_all add: u64_max_def sample_entry_def)

subsection \<open>What a scan relies on\<close>

text \<open>A sink holds what it was given as a view of it. A row behind the frontier leaves the view as it
  is, so a scan may leave it out: it may only spare an error.\<close>

locale sink =
  fixes ops :: "'s row_sink" and forward :: bool
    and good :: "nat \<Rightarrow> 's \<Rightarrow> bool"
    and view :: "'s \<Rightarrow> 'v"
    and takes :: "found \<Rightarrow> 'v \<Rightarrow> 'v"
    and extraction :: "string \<Rightarrow> (string \<times> string) list option"
  assumes accept_good: "good (Suc n) s \<Longrightarrow> rs_accept ops l e s = Inr s' \<Longrightarrow> good n s' \<and> view s' = takes (l, e) (view s)"
    and extracted_good: "good (Suc n) s \<Longrightarrow> pre = None \<or> pre = extraction (le_line e) \<Longrightarrow> rs_accept_extracted ops l e pre s = Inr s' \<Longrightarrow>
      good n s' \<and> view s' = takes (l, e) (view s)"
    and good_less: "good (Suc n) s \<Longrightarrow> good n s"
    and beyond_idle: "good n s \<Longrightarrow> beyond_frontier (rs_frontier ops s) forward (le_ts e) \<Longrightarrow> takes (l, e) (view s) = view s"
    and closed_idle: "good n s \<Longrightarrow> rs_closed ops s \<Longrightarrow> takes (l, e) (view s) = view s"
begin

lemma good_anti: "m \<le> n \<Longrightarrow> good n s \<Longrightarrow> good m s"
  by (induction n) (auto simp: le_Suc_eq dest: good_less)

lemma closed_all: "good n s \<Longrightarrow> rs_closed ops s \<Longrightarrow> fold takes rows (view s) = view s"
proof (induction rows)
  case (Cons r rows)
  then show ?case using closed_idle [of n s "fst r" "snd r"] by simp
qed simp

lemma beyond_all:
  "good n s \<Longrightarrow> (\<And>l e. (l, e) \<in> set rows \<Longrightarrow> beyond_frontier (rs_frontier ops s) forward (le_ts e)) \<Longrightarrow>
   fold takes rows (view s) = view s"
proof (induction rows)
  case (Cons r rows)
  obtain l e where r: "r = (l, e)" by (cases r)
  have "beyond_frontier (rs_frontier ops s) forward (le_ts e)" using Cons.prems(2) [of l e] by (simp add: r)
  then have "takes (l, e) (view s) = view s" by (rule beyond_idle [OF Cons.prems(1)])
  moreover have "fold takes rows (view s) = view s" using Cons by (metis list.set_intros(2))
  ultimately show ?case by (simp add: r)
qed simp

end

lemma beyond_mono:
  "beyond_frontier f forward ts \<Longrightarrow> (if forward then ts \<le> ts' else ts' \<le> ts) \<Longrightarrow> beyond_frontier f forward ts'"
  by (auto simp: beyond_frontier_def split: option.splits if_splits)

lemma span_beyond:
  "span_beyond_frontier f forward lo hi \<Longrightarrow> lo \<le> ts \<Longrightarrow> ts \<le> hi \<Longrightarrow> beyond_frontier f forward ts"
  by (auto simp: span_beyond_frontier_def intro: beyond_mono)

text \<open>The bounded sink is one.\<close>

lemma settle_beyond:
  assumes "length ys = k" and "0 < k" and "sorted (map key ys)" and "key (last ys) \<le> key x"
  shows "take k (settle key x ys) = ys"
proof -
  have "key y \<le> key x" if "y \<in> set ys" for y
  proof -
    obtain zs where zs: "ys = zs @ [last ys]" using assms(1,2) by (metis append_butlast_last_id length_greater_0_conv)
    then have "sorted (map key zs @ [key (last ys)])" using assms(3) by (metis list.simps(8,9) map_append)
    then have "\<forall>y \<in> set zs. key y \<le> key (last ys)" by (auto simp: sorted_append)
    then show ?thesis using that zs assms(4) by (metis in_set_conv_decomp order.trans rotate1.simps(2) set_ConsD set_rotate1)
  qed
  then show ?thesis using assms(1) by (simp add: settle_last)
qed

definition topk_good :: "nat \<Rightarrow> bool \<Rightarrow> nat \<Rightarrow> topk \<Rightarrow> bool" where
  "topk_good k forward n t \<longleftrightarrow> topk_ok t \<and> tk_limit t = k \<and> tk_forward t = forward \<and> tk_arrived t + n \<le> u64_max \<and>
     topk_rows t = best forward k (topk_rows t)"

lemma topk_beyond:
  assumes "topk_good k forward n t" and "beyond_frontier (topk_frontier t) forward (le_ts e)"
  shows "best forward k (topk_rows t @ [(l, e)]) = topk_rows t"
proof -
  have t: "topk_ok t" "tk_limit t = k" "tk_forward t = forward" "topk_rows t = best forward k (topk_rows t)"
    using assms(1) by (simp_all add: topk_good_def)
  obtain heap where h: "tk_held t = Bounded heap" "heap \<noteq> []" "beyond_frontier (Some (rk_ts (last heap))) forward (le_ts e)"
    using assms(2) by (auto simp: topk_frontier_def beyond_frontier_def split: topk_held.splits if_splits)
  have r: "topk_rows t = map rk_found heap" "length heap = k" "last heap = ranked forward (rk_arrived (last heap)) (rk_found (last heap))"
    using t h last_in_set [OF h(2)] by (auto simp: topk_rows_def topk_ok_def)
  then have "rk_ts (last heap) = le_ts (snd (rk_found (last heap)))" by (metis ranked_simps(1))
  then have "nearest forward (last (topk_rows t)) \<le> nearest forward (l, e)"
    using h(2,3) by (auto simp: r(1) last_map nearest_def beyond_frontier_def split: if_splits)
  moreover have "length (topk_rows t) = k" "0 < k" using r h(2) by auto
  moreover have "sorted (map (nearest forward) (topk_rows t))" using sorted_best t(4) by metis
  ultimately have "take k (settle (nearest forward) (l, e) (topk_rows t)) = topk_rows t" by (intro settle_beyond)
  then show ?thesis using t(4) best_snoc by metis
qed

lemma topk_accept_good:
  assumes "topk_good k forward (Suc n) s"
  shows "topk_good k forward n (topk_offer l e s) \<and> topk_rows (topk_offer l e s) = best forward k (topk_rows s @ [(l, e)])"
proof -
  have s: "topk_ok s" "tk_limit s = k" "tk_forward s = forward" "tk_arrived s < u64_max" using assms by (auto simp: topk_good_def)
  have "best forward k (best forward k (topk_rows s @ [(l, e)])) = best forward k (topk_rows s @ [(l, e)])"
    by (simp add: best_def sort_key_id_if_sorted sorted_best [unfolded best_def])
  moreover have "tk_arrived (topk_offer l e s) + n \<le> u64_max" using assms topk_offer_simps(3) [of l e s] unfolding topk_good_def by linarith
  ultimately show ?thesis using topk_offer_best [OF s(1,4), of l e] s by (simp add: topk_good_def)
qed

lemma topk_closed_rows: "topk_good k forward n s \<Longrightarrow> topk_closed s \<Longrightarrow> best forward k (topk_rows s @ [f]) = topk_rows s"
  by (simp add: topk_good_def topk_closed_def best_def)

interpretation topk: sink topk_sink forward "topk_good k forward" topk_rows "\<lambda>f rows. best forward k (rows @ [f])" "\<lambda>_. None"
proof
  show "topk_good k forward n s' \<and> topk_rows s' = best forward k (topk_rows s @ [(l, e)])"
    if "topk_good k forward (Suc n) s" "rs_accept topk_sink l e s = Inr s'" for n s l e s'
    using topk_accept_good [OF that(1), of l e] that(2) by (auto simp: topk_sink_def)
  show "topk_good k forward n s' \<and> topk_rows s' = best forward k (topk_rows s @ [(l, e)])"
    if "topk_good k forward (Suc n) s" "pre = None \<or> pre = None" "rs_accept_extracted topk_sink l e pre s = Inr s'" for n s l e s' pre
    using topk_accept_good [OF that(1), of l e] that(3) by (auto simp: topk_sink_def)
  show "topk_good k forward n s" if "topk_good k forward (Suc n) s" for n s using that by (simp add: topk_good_def)
  show "best forward k (topk_rows s @ [(l, e)]) = topk_rows s"
    if "topk_good k forward n s" "beyond_frontier (rs_frontier topk_sink s) forward (le_ts e)" for n s e l
    using topk_beyond [OF that(1)] that(2) by (simp add: topk_sink_def)
  show "best forward k (topk_rows s @ [(l, e)]) = topk_rows s" if "topk_good k forward n s" "rs_closed topk_sink s" for n s l e
    using topk_closed_rows [OF that(1)] that(2) by (simp add: topk_sink_def)
qed

end
