(* ===== verification/Gorilla.thy ===== *)
theory Gorilla
  imports Prelude
begin

unbundle bit_operations_syntax

text \<open>
  \<open>signy/src/gorilla.rs\<close>: the compression of one series' samples. A sample is a timestamp and
  the bits of a double; the timestamp is the 64-bit word the signed integer wraps in, read
  signed where the code compares it.
\<close>

subsection \<open>Bits out\<close>

record bit_writer =
  bw_bytes :: bytes
  bw_free :: nat

definition bit_writer_new :: bit_writer where
  "bit_writer_new = \<lparr>bw_bytes = [], bw_free = 0\<rparr>"

definition write_bit :: "bool \<Rightarrow> bit_writer \<Rightarrow> bit_writer" where
  "write_bit b w =
     (let w1 = (if bw_free w = 0 then \<lparr>bw_bytes = bw_bytes w @ [0], bw_free = 8\<rparr> else w);
          final = last (bw_bytes w1);
          final1 = (if b then final OR push_bit (bw_free w1 - 1) 1 else final)
      in \<lparr>bw_bytes = butlast (bw_bytes w1) @ [final1], bw_free = bw_free w1 - 1\<rparr>)"

definition write_bits :: "u64 \<Rightarrow> nat \<Rightarrow> bit_writer \<Rightarrow> bit_writer" where
  "write_bits value n w = fold (\<lambda>i. write_bit (bit value i)) (rev [0..<n]) w"

subsection \<open>Bits in\<close>

datatype chunk_error = ChunkShort | EndsMidRecord | Overflows

record bit_reader =
  br_bytes :: bytes
  br_position :: nat

definition bit_reader_new :: "bytes \<Rightarrow> bit_reader" where
  "bit_reader_new bs = \<lparr>br_bytes = bs, br_position = 32\<rparr>"

definition read_bit :: "bit_reader \<Rightarrow> chunk_error + bool \<times> bit_reader" where
  "read_bit r =
     (let p = br_position r in
      if p div 8 < length (br_bytes r)
      then Inr (bit (br_bytes r ! (p div 8)) (7 - p mod 8), r\<lparr>br_position := p + 1\<rparr>)
      else Inl EndsMidRecord)"

fun read_loop :: "nat \<Rightarrow> u64 \<Rightarrow> bit_reader \<Rightarrow> chunk_error + u64 \<times> bit_reader" where
  "read_loop 0 value r = Inr (value, r)"
| "read_loop (Suc n) value r =
     (case read_bit r of
        Inl e \<Rightarrow> Inl e
      | Inr (b, r1) \<Rightarrow> read_loop n (push_bit 1 value OR of_bool b) r1)"

definition read_bits :: "nat \<Rightarrow> bit_reader \<Rightarrow> chunk_error + u64 \<times> bit_reader" where
  "read_bits n r = read_loop n 0 r"

subsection \<open>Signed numbers\<close>

definition zigzag :: "u64 \<Rightarrow> u64" where
  "zigzag v = push_bit 1 v XOR signed_drop_bit 63 v"

definition unzigzag :: "u64 \<Rightarrow> u64" where
  "unzigzag v = drop_bit 1 v XOR - (v AND 1)"

text \<open>Prefix, its length, payload length, offset.\<close>

definition dod_buckets :: "(u64 \<times> nat \<times> nat \<times> int) list" where
  "dod_buckets = [(2, 2, 14, 8191), (6, 3, 17, 65535), (14, 4, 20, 524287)]"

definition leading_zeros :: "u64 \<Rightarrow> nat" where
  "leading_zeros x = length (takeWhile (\<lambda>i. \<not> bit x i) (rev [0..<64]))"

definition trailing_zeros :: "u64 \<Rightarrow> nat" where
  "trailing_zeros x = length (takeWhile (\<lambda>i. \<not> bit x i) [0..<64])"

subsection \<open>The encoder\<close>

record encoder =
  en_writer :: bit_writer
  en_count :: nat
  en_prev_ts :: u64
  en_prev_delta :: u64
  en_prev_bits :: u64
  en_leading :: nat
  en_trailing :: nat
  en_window_set :: bool

definition encoder_new :: encoder where
  "encoder_new =
     \<lparr>en_writer = bit_writer_new, en_count = 0, en_prev_ts = 0, en_prev_delta = 0, en_prev_bits = 0,
      en_leading = 0, en_trailing = 0, en_window_set = False\<rparr>"

definition byte_len :: "encoder \<Rightarrow> nat" where
  "byte_len e = 4 + length (bw_bytes (en_writer e))"

fun write_dod :: "(u64 \<times> nat \<times> nat \<times> int) list \<Rightarrow> u64 \<Rightarrow> bit_writer \<Rightarrow> bit_writer" where
  "write_dod [] dod w = write_bits (zigzag dod) 64 (write_bits 15 4 w)"
| "write_dod ((pre, pre_bits, payload_bits, offset) # rest) dod w =
     (if - offset \<le> sint dod \<and> sint dod \<le> offset + 1
      then write_bits (dod + word_of_int offset) payload_bits (write_bits pre pre_bits w)
      else write_dod rest dod w)"

definition append_value :: "u64 \<Rightarrow> encoder \<Rightarrow> encoder" where
  "append_value bits e =
     (let x = bits XOR en_prev_bits e in
      if x = 0 then e\<lparr>en_writer := write_bit False (en_writer e)\<rparr>
      else
        (let w = write_bit True (en_writer e);
             leading = min (leading_zeros x) 31;
             trailing = trailing_zeros x
         in if en_window_set e \<and> leading \<ge> en_leading e \<and> trailing \<ge> en_trailing e
            then (let significant = 64 - en_leading e - en_trailing e
                  in e\<lparr>en_writer := write_bits (drop_bit (en_trailing e) x) significant (write_bit False w)\<rparr>)
            else (let significant = 64 - leading - trailing
                  in e\<lparr>en_writer := write_bits (drop_bit trailing x) significant
                         (write_bits (word_of_nat significant AND 63) 6
                           (write_bits (word_of_nat leading) 5 (write_bit True w))),
                       en_leading := leading, en_trailing := trailing, en_window_set := True\<rparr>)))"

definition encoder_append :: "u64 \<Rightarrow> u64 \<Rightarrow> encoder \<Rightarrow> encoder" where
  "encoder_append ts bits e =
     (let e1 =
        (if en_count e = 0 then
           e\<lparr>en_writer := write_bits bits 64 (write_bits ts 64 (en_writer e))\<rparr>
         else if en_count e = 1 then
           (let delta = ts - en_prev_ts e in
            append_value bits (e\<lparr>en_writer := write_bits (zigzag delta) 64 (en_writer e), en_prev_delta := delta\<rparr>))
         else
           (let delta = ts - en_prev_ts e; dod = delta - en_prev_delta e in
            append_value bits
              (e\<lparr>en_writer := (if dod = 0 then write_bit False (en_writer e)
                               else write_dod dod_buckets dod (en_writer e)),
                 en_prev_delta := delta\<rparr>)))
      in e1\<lparr>en_prev_ts := ts, en_prev_bits := bits, en_count := en_count e + 1\<rparr>)"

definition encoder_close :: "encoder \<Rightarrow> bytes" where
  "encoder_close e = le_nat 4 (en_count e) @ bw_bytes (en_writer e)"

subsection \<open>The decoder\<close>

record decoder_state =
  de_reader :: bit_reader
  de_remaining :: nat
  de_total :: nat
  de_prev_ts :: u64
  de_prev_delta :: u64
  de_prev_bits :: u64
  de_leading :: nat
  de_trailing :: nat

definition chunk_decoder_new :: "bytes \<Rightarrow> chunk_error + decoder_state" where
  "chunk_decoder_new chunk =
     (if length chunk < 4 then Inl ChunkShort
      else (let n = nat_of_le (take 4 chunk)
            in Inr \<lparr>de_reader = bit_reader_new chunk, de_remaining = n, de_total = n, de_prev_ts = 0,
                     de_prev_delta = 0, de_prev_bits = 0, de_leading = 0, de_trailing = 0\<rparr>))"

definition read_dod :: "bit_reader \<Rightarrow> chunk_error + u64 \<times> bit_reader" where
  "read_dod r =
     (case read_bit r of
        Inl e \<Rightarrow> Inl e
      | Inr (b0, r0) \<Rightarrow> if \<not> b0 then Inr (0, r0) else
     (case read_bit r0 of
        Inl e \<Rightarrow> Inl e
      | Inr (b1, r1) \<Rightarrow> if \<not> b1 then
          (case read_bits 14 r1 of Inl e \<Rightarrow> Inl e | Inr (v, r') \<Rightarrow> Inr (v - 8191, r')) else
     (case read_bit r1 of
        Inl e \<Rightarrow> Inl e
      | Inr (b2, r2) \<Rightarrow> if \<not> b2 then
          (case read_bits 17 r2 of Inl e \<Rightarrow> Inl e | Inr (v, r') \<Rightarrow> Inr (v - 65535, r')) else
     (case read_bit r2 of
        Inl e \<Rightarrow> Inl e
      | Inr (b3, r3) \<Rightarrow> if \<not> b3 then
          (case read_bits 20 r3 of Inl e \<Rightarrow> Inl e | Inr (v, r') \<Rightarrow> Inr (v - 524287, r'))
        else (case read_bits 64 r3 of Inl e \<Rightarrow> Inl e | Inr (v, r') \<Rightarrow> Inr (unzigzag v, r'))))))"

text \<open>The timestamp: the state with the reader moved and the delta kept, and the timestamp.\<close>

definition next_ts :: "nat \<Rightarrow> decoder_state \<Rightarrow> chunk_error + u64 \<times> decoder_state" where
  "next_ts index d =
     (if index = 0 then
        (case read_bits 64 (de_reader d) of Inl e \<Rightarrow> Inl e | Inr (ts, r) \<Rightarrow> Inr (ts, d\<lparr>de_reader := r\<rparr>))
      else if index = 1 then
        (case read_bits 64 (de_reader d) of
           Inl e \<Rightarrow> Inl e
         | Inr (v, r) \<Rightarrow>
             (let delta = unzigzag v in Inr (de_prev_ts d + delta, d\<lparr>de_reader := r, de_prev_delta := delta\<rparr>)))
      else
        (case read_dod (de_reader d) of
           Inl e \<Rightarrow> Inl e
         | Inr (dod, r) \<Rightarrow>
             (let delta = de_prev_delta d + dod
              in Inr (de_prev_ts d + delta, d\<lparr>de_reader := r, de_prev_delta := delta\<rparr>))))"

text \<open>The window of a value: the new one that is announced, or the one in force. A window of more
  than 64 bits is a subtraction below zero.\<close>

definition next_window :: "decoder_state \<Rightarrow> chunk_error + decoder_state" where
  "next_window d =
     (case read_bit (de_reader d) of
        Inl e \<Rightarrow> Inl e
      | Inr (b, r) \<Rightarrow>
          if \<not> b then Inr (d\<lparr>de_reader := r\<rparr>)
          else
            (case read_bits 5 r of
               Inl e \<Rightarrow> Inl e
             | Inr (l, r1) \<Rightarrow>
                 (case read_bits 6 r1 of
                    Inl e \<Rightarrow> Inl e
                  | Inr (s, r2) \<Rightarrow>
                      (let leading = unat l; significant = (if s = 0 then 64 else unat s)
                       in if leading + significant > 64 then Inl Overflows
                          else Inr (d\<lparr>de_reader := r2, de_leading := leading,
                                      de_trailing := 64 - leading - significant\<rparr>)))))"

definition next_value :: "nat \<Rightarrow> decoder_state \<Rightarrow> chunk_error + u64 \<times> decoder_state" where
  "next_value index d =
     (if index = 0 then
        (case read_bits 64 (de_reader d) of Inl e \<Rightarrow> Inl e | Inr (v, r) \<Rightarrow> Inr (v, d\<lparr>de_reader := r\<rparr>))
      else
        (case read_bit (de_reader d) of
           Inl e \<Rightarrow> Inl e
         | Inr (b, r) \<Rightarrow>
             if \<not> b then Inr (de_prev_bits d, d\<lparr>de_reader := r\<rparr>)
             else
               (case next_window (d\<lparr>de_reader := r\<rparr>) of
                  Inl e \<Rightarrow> Inl e
                | Inr d1 \<Rightarrow>
                    (case read_bits (64 - de_leading d1 - de_trailing d1) (de_reader d1) of
                       Inl e \<Rightarrow> Inl e
                     | Inr (meaningful, r1) \<Rightarrow>
                         Inr (de_prev_bits d1 XOR push_bit (de_trailing d1) meaningful, d1\<lparr>de_reader := r1\<rparr>)))))"

definition next_sample :: "nat \<Rightarrow> decoder_state \<Rightarrow> chunk_error + (u64 \<times> u64) \<times> decoder_state" where
  "next_sample index d =
     (case next_ts index d of
        Inl e \<Rightarrow> Inl e
      | Inr (ts, d1) \<Rightarrow>
          (case next_value index d1 of
             Inl e \<Rightarrow> Inl e
           | Inr (bits, d2) \<Rightarrow> Inr ((ts, bits), d2\<lparr>de_prev_ts := ts, de_prev_bits := bits\<rparr>)))"

text \<open>The iterator until its first error; \<open>collect\<close> gives that error.\<close>

fun decode_loop :: "nat \<Rightarrow> decoder_state \<Rightarrow> chunk_error + (u64 \<times> u64) list" where
  "decode_loop 0 d = Inr []"
| "decode_loop (Suc remaining) d =
     (case next_sample (de_total d - Suc remaining) (d\<lparr>de_remaining := remaining\<rparr>) of
        Inl e \<Rightarrow> Inl e
      | Inr (s, d1) \<Rightarrow> (case decode_loop remaining d1 of Inl e \<Rightarrow> Inl e | Inr ss \<Rightarrow> Inr (s # ss)))"

definition decode_all :: "bytes \<Rightarrow> chunk_error + (u64 \<times> u64) list" where
  "decode_all chunk = (case chunk_decoder_new chunk of Inl e \<Rightarrow> Inl e | Inr d \<Rightarrow> decode_loop (de_remaining d) d)"

subsection \<open>A writer is the bits it was given\<close>

definition byte_bits :: "u8 \<Rightarrow> bool list" where
  "byte_bits b = map (\<lambda>i. bit b (7 - i)) [0..<8]"

definition stream_bits :: "bytes \<Rightarrow> bool list" where
  "stream_bits bs = concat (map byte_bits bs)"

definition bits_of :: "u64 \<Rightarrow> nat \<Rightarrow> bool list" where
  "bits_of v n = map (bit v) (rev [0..<n])"

lemma length_byte_bits [simp]: "length (byte_bits b) = 8"
  by (simp add: byte_bits_def)

lemma length_stream_bits [simp]: "length (stream_bits bs) = 8 * length bs"
  by (induction bs) (simp_all add: stream_bits_def)

lemma stream_bits_append [simp]: "stream_bits (a @ b) = stream_bits a @ stream_bits b"
  by (simp add: stream_bits_def)

lemma nth_stream_bits:
  "p div 8 < length bs \<Longrightarrow> stream_bits bs ! p = bit (bs ! (p div 8)) (7 - p mod 8)"
proof (induction bs arbitrary: p)
  case Nil
  then show ?case by simp
next
  case (Cons b bs)
  show ?case
  proof (cases "p < 8")
    case True
    then show ?thesis by (simp add: stream_bits_def nth_append byte_bits_def)
  next
    case False
    then obtain k where k: "p = k + 8" by (metis le_add_diff_inverse2 not_less)
    have d: "(k + 8) div 8 = Suc (k div 8)" by simp
    show ?thesis using Cons k by (simp add: stream_bits_def nth_append d)
  qed
qed

text \<open>What was written, and the padding behind it, which is zeros.\<close>

definition writer_is :: "bit_writer \<Rightarrow> bool list \<Rightarrow> bool" where
  "writer_is w bs \<longleftrightarrow> stream_bits (bw_bytes w) = bs @ replicate (bw_free w) False \<and> bw_free w < 8"

lemma writer_is_new: "writer_is bit_writer_new []"
  by (simp add: writer_is_def bit_writer_new_def stream_bits_def)

lemma byte_bits_set:
  assumes "0 < f" and "f \<le> 8"
  shows "byte_bits (l OR push_bit (f - 1) 1) = (byte_bits l)[8 - f := True]"
proof (rule nth_equalityI)
  fix i
  assume "i < length (byte_bits (l OR push_bit (f - 1) 1))"
  then have i: "i < 8" by simp
  have "7 - i = f - 1 \<longleftrightarrow> 8 - f = i" using i assms by arith
  moreover have "bit (push_bit (f - 1) (1 :: u8)) (7 - i) \<longleftrightarrow> 7 - i = f - 1"
    using i assms by (auto simp: bit_push_bit_iff bit_1_iff simp del: push_bit_of_1)
  ultimately show "byte_bits (l OR push_bit (f - 1) 1) ! i = (byte_bits l)[8 - f := True] ! i"
    using i assms by (simp add: byte_bits_def nth_list_update bit_or_iff)
qed simp

lemma write_last_bit:
  assumes "stream_bits (xs @ [l]) = bs @ replicate f False" and "0 < f" and "f \<le> 8"
  shows "stream_bits (xs @ [if b then l OR push_bit (f - 1) 1 else l]) = (bs @ [b]) @ replicate (f - 1) False"
proof -
  have len: "length bs = 8 * length xs + (8 - f)"
    using assms(3) arg_cong [OF assms(1), of length] by simp
  have r: "replicate f False = False # replicate (f - 1) False"
    using assms(2) by (cases f) simp_all
  show ?thesis
  proof (cases b)
    case True
    have "stream_bits (xs @ [l OR push_bit (f - 1) 1]) = stream_bits xs @ (byte_bits l)[8 - f := True]"
      using byte_bits_set [OF assms(2,3)] by (simp add: stream_bits_def)
    also have "\<dots> = (stream_bits xs @ byte_bits l)[length bs := True]"
      by (simp add: len list_update_append)
    also have "stream_bits xs @ byte_bits l = bs @ False # replicate (f - 1) False"
      using assms(1) r by (simp add: stream_bits_def)
    finally show ?thesis using True by simp
  next
    case False
    then show ?thesis using assms(1) r by simp
  qed
qed

lemma writer_is_write_bit:
  assumes "writer_is w bs"
  shows "writer_is (write_bit b w) (bs @ [b])"
proof -
  let ?w1 = "if bw_free w = 0 then \<lparr>bw_bytes = bw_bytes w @ [0], bw_free = 8\<rparr> else w"
  have z: "byte_bits 0 = replicate 8 False" by (simp add: byte_bits_def map_replicate_const)
  have s: "stream_bits (bw_bytes ?w1) = bs @ replicate (bw_free ?w1) False" "0 < bw_free ?w1" "bw_free ?w1 \<le> 8"
    using assms z by (auto simp: writer_is_def stream_bits_def)
  then have "bw_bytes ?w1 \<noteq> []" by (auto simp: stream_bits_def)
  then obtain xs l where x: "bw_bytes ?w1 = xs @ [l]" by (metis append_butlast_last_id)
  have "write_bit b w = \<lparr>bw_bytes = xs @ [if b then l OR push_bit (bw_free ?w1 - 1) 1 else l], bw_free = bw_free ?w1 - 1\<rparr>"
    unfolding write_bit_def Let_def x by simp
  then show ?thesis
    using write_last_bit [of xs l bs "bw_free ?w1" b] s x by (simp add: writer_is_def)
qed

lemma writer_is_write_bits: "writer_is w bs \<Longrightarrow> writer_is (write_bits v n w) (bs @ bits_of v n)"
proof -
  have "writer_is w bs \<Longrightarrow> writer_is (fold (\<lambda>i. write_bit (bit v i)) is w) (bs @ map (bit v) is)" for "is"
    by (induction "is" arbitrary: w bs) (use writer_is_write_bit in fastforce)+
  then show "writer_is w bs \<Longrightarrow> ?thesis" by (simp add: write_bits_def bits_of_def)
qed

subsection \<open>A reader takes them back\<close>

text \<open>What is left to read.\<close>

definition reader_at :: "bit_reader \<Rightarrow> bool list \<Rightarrow> bool" where
  "reader_at r bs \<longleftrightarrow> drop (br_position r) (stream_bits (br_bytes r)) = bs"

lemma read_bit_at:
  assumes "reader_at r (b # bs)"
  shows "\<exists>r'. read_bit r = Inr (b, r') \<and> reader_at r' bs"
proof -
  let ?p = "br_position r" and ?s = "stream_bits (br_bytes r)"
  have d: "drop ?p ?s = b # bs" using assms by (simp add: reader_at_def)
  then have lt: "?p < length ?s" by (metis drop_all list.distinct(1) not_less)
  then have p: "?p div 8 < length (br_bytes r)" by simp
  have "?s ! ?p = b" and "drop (Suc ?p) ?s = bs" using d lt by (simp_all add: Cons_nth_drop_Suc [symmetric])
  then show ?thesis using p nth_stream_bits [OF p] by (simp add: read_bit_def Let_def reader_at_def)
qed

lemma bits_of_Suc: "bits_of v (Suc n) = bit v n # bits_of v n"
  by (simp add: bits_of_def)

lemma read_loop_at:
  assumes "reader_at r (bits_of v n @ bs)" and "n + k \<le> 64"
  shows "\<exists>r'. read_loop n (take_bit k a) r = Inr (push_bit n (take_bit k a) OR take_bit n v, r') \<and> reader_at r' bs"
  using assms
proof (induction n arbitrary: r a k)
  case 0
  then show ?case by (simp add: bits_of_def)
next
  case (Suc n)
  obtain r1 where r1: "read_bit r = Inr (bit v n, r1)" "reader_at r1 (bits_of v n @ bs)"
    using read_bit_at [of r "bit v n"] Suc.prems(1) by (auto simp: bits_of_Suc)
  let ?a = "push_bit 1 (take_bit k a) OR of_bool (bit v n)"
  have a: "take_bit (Suc k) ?a = ?a"
    using Suc.prems(2) by (intro bit_word_eqI) (auto simp: bit_simps simp del: push_bit_Suc)
  obtain r' where r': "read_loop n (take_bit (Suc k) ?a) r1 = Inr (push_bit n (take_bit (Suc k) ?a) OR take_bit n v, r')"
    "reader_at r' bs"
    using Suc.IH [OF r1(2), of "Suc k" ?a] Suc.prems(2) by (metis add_Suc_shift)
  have "push_bit n ?a OR take_bit n v = push_bit (Suc n) (take_bit k a) OR take_bit (Suc n) v"
    using Suc.prems(2) by (intro bit_word_eqI) (auto simp: bit_simps less_Suc_eq simp del: push_bit_Suc)
  then have "read_loop (Suc n) (take_bit k a) r = Inr (push_bit (Suc n) (take_bit k a) OR take_bit (Suc n) v, r')"
    using r'(1) by (simp only: read_loop.simps r1(1) sum.case prod.case a)
  with r'(2) show ?case by blast
qed

lemma read_bits_at:
  assumes "reader_at r (bits_of v n @ bs)" and "n \<le> 64"
  shows "\<exists>r'. read_bits n r = Inr (take_bit n v, r') \<and> reader_at r' bs"
  using read_loop_at [OF assms(1), of 0 0] assms(2) by (simp add: read_bits_def)

subsection \<open>Numbers\<close>

lemma unzigzag_zigzag: "unzigzag (zigzag v) = v"
proof -
  have "zigzag v AND 1 = of_bool (bit v 63)"
    by (rule bit_word_eqI, rename_tac n, case_tac n) (auto simp: zigzag_def bit_simps simp del: push_bit_Suc)
  then have m: "- (zigzag v AND 1) = (if bit v 63 then - 1 else 0)" by simp
  show ?thesis
    unfolding unzigzag_def m
    by (rule bit_word_eqI, rename_tac n, case_tac "n = 63")
      (auto simp: zigzag_def bit_simps less_Suc_eq dest: bit_imp_le_length simp del: push_bit_Suc drop_bit_Suc)
qed

lemma dod_offset:
  fixes d :: u64
  assumes "- off \<le> sint d" and "sint d \<le> off + 1" and "2 * off + 1 < 2 ^ k" and "k \<le> 20"
  shows "take_bit k (d + word_of_int off) - word_of_int off = d"
proof -
  have "(2 :: int) ^ k \<le> 2 ^ 20" using assms(4) by (intro power_increasing) simp_all
  then have b: "0 \<le> sint d + off" "sint d + off < 2 ^ k" "sint d + off < 2 ^ 64" using assms(1-3) by simp_all
  have "d + word_of_int off = word_of_int (sint d + off)" by simp
  moreover have "uint (word_of_int m :: u64) = m" if "0 \<le> m" "m < 2 ^ 64" for m
    using that by (simp add: uint_word_of_int)
  ultimately have u: "uint (d + word_of_int off) = sint d + off" using b by metis
  have "take_bit k (d + word_of_int off) = d + word_of_int off"
    by (rule word_uint_eqI) (use b u in \<open>simp add: unsigned_take_bit_eq take_bit_int_eq_self\<close>)
  then show ?thesis by simp
qed

lemma leading_zeros_bits: "64 - leading_zeros x \<le> i \<Longrightarrow> \<not> bit x i"
proof (cases "i < 64")
  case True
  assume le: "64 - leading_zeros x \<le> i"
  let ?t = "takeWhile (\<lambda>i. \<not> bit x i) (rev [0..<64])"
  have "63 - i < length ?t" using True le by (simp add: leading_zeros_def)
  then have "?t ! (63 - i) \<in> set ?t" by simp
  moreover have "?t ! (63 - i) = rev [0..<64] ! (63 - i)" using \<open>63 - i < length ?t\<close> by (rule takeWhile_nth)
  moreover have "rev [0..<64] ! (63 - i) = i" using True by (subst rev_nth) simp_all
  ultimately show ?thesis by (auto dest: set_takeWhileD)
next
  case False
  then show ?thesis by (simp add: impossible_bit)
qed

lemma trailing_zeros_bits: "i < trailing_zeros x \<Longrightarrow> \<not> bit x i"
proof -
  let ?t = "takeWhile (\<lambda>i. \<not> bit x i) [0..<64]"
  assume i: "i < trailing_zeros x"
  then have l: "i < length ?t" by (simp add: trailing_zeros_def)
  moreover have "length ?t \<le> 64" by (metis length_takeWhile_le length_upt diff_zero)
  ultimately have "?t ! i = i" using takeWhile_nth [OF l] by simp
  then show ?thesis using l nth_mem [OF l] by (auto dest: set_takeWhileD)
qed

lemma zeros_window:
  assumes "x \<noteq> 0"
  shows "leading_zeros x + trailing_zeros x \<le> 63"
proof -
  obtain i where i: "i < 64" "bit x i" using assms by (auto simp: bit_eq_iff bit_simps dest: bit_imp_le_length)
  have "\<not> 64 - leading_zeros x \<le> i" and "\<not> i < trailing_zeros x"
    using leading_zeros_bits trailing_zeros_bits i(2) by blast+
  then show ?thesis by simp
qed

text \<open>A window that leaves out zeros only loses nothing.\<close>

lemma window_keeps:
  fixes x :: u64
  assumes "l \<le> leading_zeros x" and "t \<le> trailing_zeros x" and "l + t \<le> 64"
  shows "push_bit t (take_bit (64 - l - t) (drop_bit t x)) = x"
proof (rule bit_word_eqI)
  fix n
  assume n: "n < LENGTH(64)"
  show "bit (push_bit t (take_bit (64 - l - t) (drop_bit t x))) n \<longleftrightarrow> bit x n"
  proof (cases "t \<le> n")
    case True
    moreover have "bit x n \<Longrightarrow> n < 64 - l" using leading_zeros_bits [of x n] assms(1) by linarith
    ultimately show ?thesis using n by (auto simp: bit_push_bit_iff bit_take_bit_iff bit_drop_bit_eq)
  next
    case False
    then show ?thesis using trailing_zeros_bits [of n x] assms(2) by (auto simp: bit_push_bit_iff)
  qed
qed

subsection \<open>What the encoder writes the decoder reads\<close>

text \<open>A text of bits the writer gains and a reader gives back as \<open>v\<close>, whatever follows.\<close>

definition writes_text :: "bit_writer \<Rightarrow> bit_writer \<Rightarrow> bool list \<Rightarrow> bool" where
  "writes_text w w' t \<longleftrightarrow> (\<forall>bs. writer_is w bs \<longrightarrow> writer_is w' (bs @ t))"

definition reads_text :: "(bit_reader \<Rightarrow> chunk_error + 'v \<times> bit_reader) \<Rightarrow> bool list \<Rightarrow> 'v \<Rightarrow> bool" where
  "reads_text f t v \<longleftrightarrow> (\<forall>r rest. reader_at r (t @ rest) \<longrightarrow> (\<exists>r'. f r = Inr (v, r') \<and> reader_at r' rest))"

lemma writes_bit: "writes_text w w1 t \<Longrightarrow> writes_text w (write_bit b w1) (t @ [b])"
  using writer_is_write_bit unfolding writes_text_def by (metis append_assoc)

lemma writes_bits: "writes_text w w1 t \<Longrightarrow> writes_text w (write_bits v n w1) (t @ bits_of v n)"
  using writer_is_write_bits unfolding writes_text_def by (metis append_assoc)

lemma writes_nothing: "writes_text w w []"
  by (simp add: writes_text_def)

lemma reads_textE:
  assumes "reads_text f t v" and "reader_at r (t @ rest)"
  obtains r' where "f r = Inr (v, r')" and "reader_at r' rest"
  using assms by (auto simp: reads_text_def)

lemma reads_bits: "n \<le> 64 \<Longrightarrow> reads_text (read_bits n) (bits_of v n) (take_bit n v)"
  using read_bits_at by (simp add: reads_text_def)

lemma take_bit_64 [simp]: "take_bit 64 (v :: u64) = v"
  by (rule bit_word_eqI) (simp add: bit_simps)

text \<open>The prefixes of the buckets, as bits.\<close>

lemma bucket_prefixes:
  "bits_of 2 2 = [True, False]" "bits_of 6 3 = [True, True, False]"
  "bits_of 14 4 = [True, True, True, False]" "bits_of 15 4 = [True, True, True, True]"
  by code_simp+

lemma read_dod_text:
  assumes "reader_at r (p @ t @ rest)" and "reads_text (read_bits k) t v"
    and "(p, k, f) \<in> {([True, False], 14, \<lambda>v. v - 8191), ([True, True, False], 17, \<lambda>v. v - 65535),
      ([True, True, True, False], 20, \<lambda>v. v - 524287), ([True, True, True, True], 64, unzigzag)}"
  shows "\<exists>r'. read_dod r = Inr (f v, r') \<and> reader_at r' rest"
proof -
  obtain ps where p: "p = True # ps" using assms(3) by auto
  obtain r1 where r1: "read_bit r = Inr (True, r1)" "reader_at r1 (ps @ t @ rest)"
    using read_bit_at assms(1) p by fastforce
  obtain b qs where q: "ps = b # qs" using assms(3) p by auto
  obtain r2 where r2: "read_bit r1 = Inr (b, r2)" "reader_at r2 (qs @ t @ rest)"
    using read_bit_at r1(2) q by fastforce
  show ?thesis
  proof (cases b)
    case False
    then have "qs = []" "k = 14" "f = (\<lambda>v. v - 8191)" using assms(3) p q by auto
    then show ?thesis using assms(2) r1 r2 False by (auto simp: read_dod_def elim!: reads_textE)
  next
    case True
    obtain c us where u: "qs = c # us" using assms(3) p q True by auto
    obtain r3 where r3: "read_bit r2 = Inr (c, r3)" "reader_at r3 (us @ t @ rest)"
      using read_bit_at r2(2) u by fastforce
    show ?thesis
    proof (cases c)
      case False
      then have "us = []" "k = 17" "f = (\<lambda>v. v - 65535)" using assms(3) p q u by auto
      then show ?thesis using assms(2) r1 r2 r3 True False by (auto simp: read_dod_def elim!: reads_textE)
    next
      case c: True
      then obtain d where d: "us = [d]" using assms(3) p q u by auto
      obtain r4 where r4: "read_bit r3 = Inr (d, r4)" "reader_at r4 (t @ rest)"
        using read_bit_at r3(2) d by fastforce
      have "if d then k = 64 \<and> f = unzigzag else k = 20 \<and> f = (\<lambda>v. v - 524287)" using assms(3) p q u d c by auto
      then show ?thesis using assms(2) r1 r2 r3 r4 True c
        by (cases d) (auto simp: read_dod_def elim!: reads_textE)
    qed
  qed
qed

lemma read_dod_reads:
  assumes "reads_text (read_bits k) t v"
    and "(p, k, f) \<in> {([True, False], 14, \<lambda>v. v - 8191), ([True, True, False], 17, \<lambda>v. v - 65535),
      ([True, True, True, False], 20, \<lambda>v. v - 524287), ([True, True, True, True], 64, unzigzag)}"
  shows "reads_text read_dod (p @ t) (f v)"
  unfolding reads_text_def
proof (intro allI impI)
  fix r rest
  assume "reader_at r ((p @ t) @ rest)"
  then show "\<exists>r'. read_dod r = Inr (f v, r') \<and> reader_at r' rest"
    using read_dod_text [OF _ assms, of r rest] by simp
qed

lemma dod_text:
  "\<exists>t. writes_text w (if dod = 0 then write_bit False w else write_dod dod_buckets dod w) t \<and> reads_text read_dod t dod"
proof (cases "dod = 0")
  case True
  have "reads_text read_dod [False] 0"
    using read_bit_at by (fastforce simp: reads_text_def read_dod_def)
  then show ?thesis using True writes_bit [OF writes_nothing] by fastforce
next
  case False
  have bucket: "\<exists>t. writes_text w (write_bits (dod + word_of_int off) k (write_bits pre n w)) t \<and> reads_text read_dod t dod"
    if "- off \<le> sint dod" "sint dod \<le> off + 1" "2 * off + 1 < 2 ^ k" "k \<le> 20"
      and "(bits_of pre n, k, f) \<in> {([True, False], 14, \<lambda>v. v - 8191), ([True, True, False], 17, \<lambda>v. v - 65535),
        ([True, True, True, False], 20, \<lambda>v. v - 524287), ([True, True, True, True], 64, unzigzag)}"
      and "f = (\<lambda>v. v - word_of_int off)" for off k pre n f
  proof (intro exI conjI)
    show "writes_text w (write_bits (dod + word_of_int off) k (write_bits pre n w))
        (([] @ bits_of pre n) @ bits_of (dod + word_of_int off) k)"
      by (intro writes_bits writes_nothing)
    have v: "f (take_bit k (dod + word_of_int off)) = dod" using dod_offset that by simp
    have "reads_text (read_bits k) (bits_of (dod + word_of_int off) k) (take_bit k (dod + word_of_int off))"
      using that(4) by (intro reads_bits) simp
    from read_dod_reads [OF this that(5)]
    show "reads_text read_dod (([] @ bits_of pre n) @ bits_of (dod + word_of_int off) k) dod"
      unfolding v append_Nil .
  qed
  consider "- 8191 \<le> sint dod" "sint dod \<le> 8191 + 1"
    | "\<not> (- 8191 \<le> sint dod \<and> sint dod \<le> 8191 + 1)" "- 65535 \<le> sint dod" "sint dod \<le> 65535 + 1"
    | "\<not> (- 8191 \<le> sint dod \<and> sint dod \<le> 8191 + 1)" "\<not> (- 65535 \<le> sint dod \<and> sint dod \<le> 65535 + 1)"
      "- 524287 \<le> sint dod" "sint dod \<le> 524287 + 1"
    | "\<not> (- 8191 \<le> sint dod \<and> sint dod \<le> 8191 + 1)" "\<not> (- 65535 \<le> sint dod \<and> sint dod \<le> 65535 + 1)"
      "\<not> (- 524287 \<le> sint dod \<and> sint dod \<le> 524287 + 1)"
    by blast
  then show ?thesis
  proof cases
    case 1
    then have "write_dod dod_buckets dod w = write_bits (dod + word_of_int 8191) 14 (write_bits 2 2 w)"
      unfolding dod_buckets_def by (simp only: write_dod.simps if_False if_True simp_thms)
    moreover have "\<exists>t. writes_text w (write_bits (dod + word_of_int 8191) 14 (write_bits 2 2 w)) t \<and>
        reads_text read_dod t dod"
      by (rule bucket [where f = "\<lambda>v. v - 8191"]) (use 1 in \<open>simp_all add: bucket_prefixes\<close>)
    ultimately show ?thesis using False by simp
  next
    case 2
    then have "write_dod dod_buckets dod w = write_bits (dod + word_of_int 65535) 17 (write_bits 6 3 w)"
      unfolding dod_buckets_def by (simp only: write_dod.simps if_False if_True simp_thms)
    moreover have "\<exists>t. writes_text w (write_bits (dod + word_of_int 65535) 17 (write_bits 6 3 w)) t \<and>
        reads_text read_dod t dod"
      by (rule bucket [where f = "\<lambda>v. v - 65535"]) (use 2 in \<open>simp_all add: bucket_prefixes\<close>)
    ultimately show ?thesis using False by simp
  next
    case 3
    then have "write_dod dod_buckets dod w = write_bits (dod + word_of_int 524287) 20 (write_bits 14 4 w)"
      unfolding dod_buckets_def by (simp only: write_dod.simps if_False if_True simp_thms)
    moreover have "\<exists>t. writes_text w (write_bits (dod + word_of_int 524287) 20 (write_bits 14 4 w)) t \<and>
        reads_text read_dod t dod"
      by (rule bucket [where f = "\<lambda>v. v - 524287"]) (use 3 in \<open>simp_all add: bucket_prefixes\<close>)
    ultimately show ?thesis using False by simp
  next
    case 4
    then have e: "write_dod dod_buckets dod w = write_bits (zigzag dod) 64 (write_bits 15 4 w)"
      unfolding dod_buckets_def by (simp only: write_dod.simps if_False)
    have "reads_text (read_bits 64) (bits_of (zigzag dod) 64) (zigzag dod)"
      using reads_bits [of 64 "zigzag dod"] by simp
    then have "reads_text read_dod ([True, True, True, True] @ bits_of (zigzag dod) 64) (unzigzag (zigzag dod))"
      by (rule read_dod_reads) simp
    then have "reads_text read_dod (([] @ bits_of 15 4) @ bits_of (zigzag dod) 64) dod"
      unfolding unzigzag_zigzag bucket_prefixes by simp
    moreover have "writes_text w (write_bits (zigzag dod) 64 (write_bits 15 4 w)) (([] @ bits_of 15 4) @ bits_of (zigzag dod) 64)"
      by (intro writes_bits writes_nothing)
    ultimately show ?thesis using e False by auto
  qed
qed

text \<open>One value, with the windows of the two sides in step.\<close>

definition in_step :: "encoder \<Rightarrow> decoder_state \<Rightarrow> bool" where
  "in_step e d \<longleftrightarrow>
     de_prev_ts d = en_prev_ts e \<and> de_prev_delta d = en_prev_delta e \<and> de_prev_bits d = en_prev_bits e \<and>
     de_leading d = en_leading e \<and> de_trailing d = en_trailing e"

definition window_ok :: "encoder \<Rightarrow> bool" where
  "window_ok e \<longleftrightarrow> en_leading e + en_trailing e \<le> 63"

lemma small_take_bit:
  assumes "s \<le> 64"
  shows "unat (take_bit k (word_of_nat s :: u64)) = take_bit k s"
proof -
  have "unat (word_of_nat s :: u64) = s" using assms by (simp add: unat_of_nat)
  then show ?thesis by (simp only: unsigned_take_bit_eq)
qed

lemma take_bit_6_significant:
  assumes "s \<le> 64" and "0 < s"
  shows "(if take_bit 6 (word_of_nat s AND 63 :: u64) = 0 then 64 else unat (take_bit 6 (word_of_nat s AND 63 :: u64))) = s"
proof -
  have m: "word_of_nat s AND (63 :: u64) = take_bit 6 (word_of_nat s)"
    by (simp add: take_bit_eq_mask mask_numeral)
  have "unat (take_bit 6 (word_of_nat s :: u64)) = s mod 64"
    using assms small_take_bit [of s 6] by (simp add: take_bit_eq_mod)
  moreover have "take_bit 6 (word_of_nat s :: u64) = 0 \<longleftrightarrow> unat (take_bit 6 (word_of_nat s :: u64)) = 0"
    by (rule unat_eq_0 [symmetric])
  ultimately show ?thesis unfolding m take_bit_take_bit min.idem using assms by (cases "s = 64") simp_all
qed

lemma take_bit_5_leading: "l \<le> 31 \<Longrightarrow> unat (take_bit 5 (word_of_nat l :: u64)) = l"
  using small_take_bit [of l 5] by (simp add: take_bit_eq_mod)

lemma append_value_writer:
  "append_value bits (e\<lparr>en_writer := w, en_prev_delta := x\<rparr>) =
     (append_value bits (e\<lparr>en_writer := w\<rparr>))\<lparr>en_prev_delta := x\<rparr>"
  by (simp add: append_value_def Let_def)

lemma en_writer_updates:
  "en_writer (e\<lparr>en_writer := w\<rparr>) = w"
  "en_writer (e\<lparr>en_writer := w, en_leading := l, en_trailing := t, en_window_set := b\<rparr>) = w"
  by simp_all

lemma next_window_new:
  assumes "read_bit r = Inr (True, r1)" and "read_bits 5 r1 = Inr (lw, r2)" and "read_bits 6 r2 = Inr (sw, r3)"
    and "unat lw = l" and "(if sw = 0 then 64 else unat sw) = s" and "l + s \<le> 64"
  shows "next_window (d\<lparr>de_reader := r\<rparr>) = Inr (d\<lparr>de_reader := r3, de_leading := l, de_trailing := 64 - l - s\<rparr>)"
  using assms(1-3,6) unfolding next_window_def Let_def assms(4,5) [symmetric] by simp

lemma value_text:
  assumes "window_ok e" and "0 < index"
  shows "\<exists>t. writes_text (en_writer e) (en_writer (append_value v e)) t \<and>
    (\<forall>d rest. in_step e d \<longrightarrow> reader_at (de_reader d) (t @ rest) \<longrightarrow>
       (\<exists>d'. next_value index d = Inr (v, d') \<and> reader_at (de_reader d') rest \<and> de_total d' = de_total d \<and>
          in_step (append_value v e) d'))"
proof -
  define x where "x = v XOR en_prev_bits e"
  have wok: "en_leading e + en_trailing e \<le> 63" using assms(1) by (simp add: window_ok_def)
  have undo: "en_prev_bits e XOR x = v" by (simp add: x_def xor.left_commute)
  show ?thesis
  proof (cases "x = 0")
    case True
    then have v: "v = en_prev_bits e" using undo by simp
    have "\<exists>d'. next_value index d = Inr (v, d') \<and> reader_at (de_reader d') rest \<and> de_total d' = de_total d \<and>
        in_step (append_value v e) d'" if stp: "in_step e d" and r: "reader_at (de_reader d) ([False] @ rest)" for d rest
    proof -
      obtain r1 where "read_bit (de_reader d) = Inr (False, r1)" "reader_at r1 rest" using read_bit_at r by fastforce
      then show ?thesis using assms stp v undo by (simp add: next_value_def append_value_def in_step_def)
    qed
    moreover have "writes_text (en_writer e) (en_writer (append_value v e)) ([] @ [False])"
      using True writes_bit [OF writes_nothing] by (simp add: append_value_def x_def)
    ultimately show ?thesis by auto
  next
    case False
    let ?l = "min (leading_zeros x) 31" and ?t = "trailing_zeros x"
    have wnd: "?l + ?t \<le> 63" using zeros_window [OF False] by simp
    show ?thesis
    proof (cases "en_window_set e \<and> ?l \<ge> en_leading e \<and> ?t \<ge> en_trailing e")
      case True
      let ?s = "64 - en_leading e - en_trailing e"
      let ?txt = "(([] @ [True]) @ [False]) @ bits_of (drop_bit (en_trailing e) x) ?s"
      have e': "append_value v e = e\<lparr>en_writer := write_bits (drop_bit (en_trailing e) x) ?s
          (write_bit False (write_bit True (en_writer e)))\<rparr>"
        using True False unfolding append_value_def Let_def x_def [symmetric] by simp
      have keep: "push_bit (en_trailing e) (take_bit ?s (drop_bit (en_trailing e) x)) = x"
        using True wok by (intro window_keeps) auto
      have "\<exists>d'. next_value index d = Inr (v, d') \<and> reader_at (de_reader d') rest \<and> de_total d' = de_total d \<and>
          in_step (append_value v e) d'" if stp: "in_step e d" and r: "reader_at (de_reader d) (?txt @ rest)" for d rest
      proof -
        obtain r1 where r1: "read_bit (de_reader d) = Inr (True, r1)"
          "reader_at r1 (False # bits_of (drop_bit (en_trailing e) x) ?s @ rest)" using read_bit_at r by fastforce
        obtain r2 where r2: "read_bit r1 = Inr (False, r2)"
          "reader_at r2 (bits_of (drop_bit (en_trailing e) x) ?s @ rest)" using read_bit_at r1(2) by fastforce
        obtain r3 where r3: "read_bits ?s r2 = Inr (take_bit ?s (drop_bit (en_trailing e) x), r3)" "reader_at r3 rest"
          using read_bits_at [OF r2(2)] by auto
        have "next_value index d = Inr (v, d\<lparr>de_reader := r3\<rparr>)"
          using r1(1) r2(1) r3(1) stp assms(2) by (simp add: next_value_def next_window_def in_step_def keep [unfolded diff_diff_left] undo)
        then show ?thesis using r3(2) stp e' by (simp add: in_step_def)
      qed
      moreover have "writes_text (en_writer e) (en_writer (append_value v e)) ?txt"
        unfolding e' en_writer_updates by (intro writes_bits writes_bit writes_nothing)
      ultimately show ?thesis by blast
    next
      case nw: False
      define l t where "l = ?l" and "t = ?t"
      have lt: "l + t \<le> 63" "l \<le> leading_zeros x" "l \<le> 31" "t \<le> trailing_zeros x" using wnd by (simp_all add: l_def t_def)
      let ?s = "64 - l - t"
      let ?txt = "(((([] @ [True]) @ [True]) @ bits_of (word_of_nat l) 5) @ bits_of (word_of_nat ?s AND 63) 6) @
          bits_of (drop_bit t x) ?s"
      have e': "append_value v e = e\<lparr>en_writer := write_bits (drop_bit t x) ?s
          (write_bits (word_of_nat ?s AND 63) 6 (write_bits (word_of_nat l) 5 (write_bit True (write_bit True (en_writer e))))),
          en_leading := l, en_trailing := t, en_window_set := True\<rparr>"
        using nw False unfolding append_value_def Let_def x_def [symmetric] l_def [symmetric] t_def [symmetric] by auto
      have keep: "push_bit t (take_bit ?s (drop_bit t x)) = x"
        using lt by (intro window_keeps) auto
      have s: "?s \<le> 64" "0 < ?s" "l + ?s \<le> 64" "64 - l - ?s = t" using lt by auto
      have "\<exists>d'. next_value index d = Inr (v, d') \<and> reader_at (de_reader d') rest \<and> de_total d' = de_total d \<and>
          in_step (append_value v e) d'" if stp: "in_step e d" and r: "reader_at (de_reader d) (?txt @ rest)" for d rest
      proof -
        obtain r1 where r1: "read_bit (de_reader d) = Inr (True, r1)" "reader_at r1 (True # bits_of (word_of_nat l) 5 @
            bits_of (word_of_nat ?s AND 63) 6 @ bits_of (drop_bit t x) ?s @ rest)" using read_bit_at r by fastforce
        obtain r2 where r2: "read_bit r1 = Inr (True, r2)" "reader_at r2 (bits_of (word_of_nat l) 5 @
            bits_of (word_of_nat ?s AND 63) 6 @ bits_of (drop_bit t x) ?s @ rest)" using read_bit_at r1(2) by fastforce
        obtain r3 where r3: "read_bits 5 r2 = Inr (take_bit 5 (word_of_nat l), r3)" "reader_at r3 (
            bits_of (word_of_nat ?s AND 63) 6 @ bits_of (drop_bit t x) ?s @ rest)" using read_bits_at [OF r2(2)] by auto
        obtain r4 where r4: "read_bits 6 r3 = Inr (take_bit 6 (word_of_nat ?s AND 63), r4)"
            "reader_at r4 (bits_of (drop_bit t x) ?s @ rest)" using read_bits_at [OF r3(2)] by auto
        obtain r5 where r5: "read_bits ?s r4 = Inr (take_bit ?s (drop_bit t x), r5)" "reader_at r5 rest"
          using read_bits_at [OF r4(2)] by auto
        have "next_window (d\<lparr>de_reader := r1\<rparr>) = Inr (d\<lparr>de_reader := r4, de_leading := l, de_trailing := t\<rparr>)"
          using next_window_new [OF r2(1) r3(1) r4(1) take_bit_5_leading [OF lt(3)] take_bit_6_significant [OF s(1,2)] s(3)]
          by (simp only: s(4))
        then have "next_value index d = Inr (v, d\<lparr>de_reader := r5, de_leading := l, de_trailing := t\<rparr>)"
          using r1(1) r5(1) stp assms(2) by (simp add: next_value_def in_step_def keep [unfolded diff_diff_left] undo)
        then show ?thesis using r5(2) stp e' by (simp add: in_step_def)
      qed
      moreover have "writes_text (en_writer e) (en_writer (append_value v e)) ?txt"
        unfolding e' en_writer_updates by (intro writes_bits writes_bit writes_nothing)
      ultimately show ?thesis by blast
    qed
  qed
qed

text \<open>The timestamp of the sample behind \<open>e\<close>, and the encoder that has written it.\<close>

definition append_ts :: "u64 \<Rightarrow> encoder \<Rightarrow> encoder" where
  "append_ts ts e =
     (let delta = ts - en_prev_ts e; dod = delta - en_prev_delta e in
      e\<lparr>en_writer := (if en_count e = 1 then write_bits (zigzag delta) 64 (en_writer e)
                     else if dod = 0 then write_bit False (en_writer e)
                     else write_dod dod_buckets dod (en_writer e)),
        en_prev_delta := delta\<rparr>)"

lemma encoder_append_later:
  "0 < en_count e \<Longrightarrow> encoder_append ts bits e =
     (append_value bits (append_ts ts e))\<lparr>en_prev_ts := ts, en_prev_bits := bits, en_count := en_count e + 1\<rparr>"
  by (simp add: encoder_append_def append_ts_def Let_def)

lemma ts_text:
  assumes "0 < en_count e"
  shows "\<exists>t. writes_text (en_writer e) (en_writer (append_ts ts e)) t \<and>
    (\<forall>d rest. in_step e d \<longrightarrow> reader_at (de_reader d) (t @ rest) \<longrightarrow>
       (\<exists>d'. next_ts (en_count e) d = Inr (ts, d') \<and> reader_at (de_reader d') rest \<and> de_total d' = de_total d \<and>
          in_step (append_ts ts e) d'))"
proof -
  let ?delta = "ts - en_prev_ts e"
  show ?thesis
  proof (cases "en_count e = 1")
    case True
    have r: "reads_text (read_bits 64) (bits_of (zigzag ?delta) 64) (zigzag ?delta)"
      using reads_bits [of 64 "zigzag ?delta"] by simp
    have "\<exists>d'. next_ts (en_count e) d = Inr (ts, d') \<and> reader_at (de_reader d') rest \<and> de_total d' = de_total d \<and>
        in_step (append_ts ts e) d'" if stp: "in_step e d" and at: "reader_at (de_reader d) (bits_of (zigzag ?delta) 64 @ rest)" for d rest
      using r at
    proof (rule reads_textE)
      fix r'
      assume "read_bits 64 (de_reader d) = Inr (zigzag ?delta, r')" and "reader_at r' rest"
      then show ?thesis
        using True stp by (simp add: next_ts_def unzigzag_zigzag in_step_def append_ts_def Let_def)
    qed
    moreover have "writes_text (en_writer e) (en_writer (append_ts ts e)) (bits_of (zigzag ?delta) 64)"
      using True writes_bits [OF writes_nothing] by (force simp: append_ts_def Let_def)
    ultimately show ?thesis by blast
  next
    case False
    let ?dod = "?delta - en_prev_delta e"
    obtain t where t: "writes_text (en_writer e) (if ?dod = 0 then write_bit False (en_writer e)
        else write_dod dod_buckets ?dod (en_writer e)) t" "reads_text read_dod t ?dod"
      using dod_text by blast
    have "\<exists>d'. next_ts (en_count e) d = Inr (ts, d') \<and> reader_at (de_reader d') rest \<and> de_total d' = de_total d \<and>
        in_step (append_ts ts e) d'" if stp: "in_step e d" and at: "reader_at (de_reader d) (t @ rest)" for d rest
      using t(2) at
    proof (rule reads_textE)
      fix r'
      assume "read_dod (de_reader d) = Inr (?dod, r')" and "reader_at r' rest"
      then show ?thesis
        using False assms stp by (simp add: next_ts_def in_step_def append_ts_def Let_def)
    qed
    moreover have "writes_text (en_writer e) (en_writer (append_ts ts e)) t"
      using False t(1) by (simp add: append_ts_def Let_def)
    ultimately show ?thesis by blast
  qed
qed

lemma writes_text_trans: "writes_text a b s \<Longrightarrow> writes_text b c t \<Longrightarrow> writes_text a c (s @ t)"
  unfolding writes_text_def by (metis append_assoc)

lemma in_step_remaining [simp]: "in_step e (d\<lparr>de_remaining := n\<rparr>) = in_step e d"
  by (simp add: in_step_def)

lemma append_value_count [simp]:
  "en_count (append_value v e) = en_count e" "en_prev_ts (append_value v e) = en_prev_ts e"
  by (simp_all add: append_value_def Let_def)

lemma append_ts_count [simp]: "en_count (append_ts ts e) = en_count e"
  by (simp add: append_ts_def Let_def)

lemma sample_text:
  assumes "window_ok e"
  shows "\<exists>t. writes_text (en_writer e) (en_writer (encoder_append ts v e)) t \<and>
    (\<forall>d rest. in_step e d \<longrightarrow> reader_at (de_reader d) (t @ rest) \<longrightarrow>
       (\<exists>d'. next_sample (en_count e) d = Inr ((ts, v), d') \<and> reader_at (de_reader d') rest \<and>
          de_total d' = de_total d \<and> in_step (encoder_append ts v e) d'))"
proof (cases "en_count e = 0")
  case True
  let ?t = "([] @ bits_of ts 64) @ bits_of v 64"
  have "\<exists>d'. next_sample (en_count e) d = Inr ((ts, v), d') \<and> reader_at (de_reader d') rest \<and>
      de_total d' = de_total d \<and> in_step (encoder_append ts v e) d'"
    if stp: "in_step e d" and at: "reader_at (de_reader d) (?t @ rest)" for d rest
  proof -
    obtain r1 where r1: "read_bits 64 (de_reader d) = Inr (ts, r1)" "reader_at r1 (bits_of v 64 @ rest)"
      using read_bits_at [of "de_reader d" ts 64] at by auto
    obtain r2 where r2: "read_bits 64 r1 = Inr (v, r2)" "reader_at r2 rest"
      using read_bits_at [OF r1(2)] by auto
    show ?thesis
      using True r1 r2 stp
      by (simp add: next_sample_def next_ts_def next_value_def in_step_def encoder_append_def Let_def)
  qed
  moreover have "writes_text (en_writer e) (write_bits v 64 (write_bits ts 64 (en_writer e))) ?t"
    by (intro writes_bits writes_nothing)
  then have "writes_text (en_writer e) (en_writer (encoder_append ts v e)) ?t"
    using True by (simp add: encoder_append_def Let_def)
  ultimately show ?thesis by blast
next
  case False
  let ?e1 = "append_ts ts e"
  obtain t1 where t1: "writes_text (en_writer e) (en_writer ?e1) t1"
    "\<And>d rest. in_step e d \<Longrightarrow> reader_at (de_reader d) (t1 @ rest) \<Longrightarrow>
       (\<exists>d'. next_ts (en_count e) d = Inr (ts, d') \<and> reader_at (de_reader d') rest \<and> de_total d' = de_total d \<and>
          in_step ?e1 d')"
    using ts_text False by blast
  have "window_ok ?e1" using assms by (simp add: window_ok_def append_ts_def Let_def)
  then obtain t2 where t2: "writes_text (en_writer ?e1) (en_writer (append_value v ?e1)) t2"
    "\<And>d rest. in_step ?e1 d \<Longrightarrow> reader_at (de_reader d) (t2 @ rest) \<Longrightarrow>
       (\<exists>d'. next_value (en_count e) d = Inr (v, d') \<and> reader_at (de_reader d') rest \<and> de_total d' = de_total d \<and>
          in_step (append_value v ?e1) d')"
    using value_text [of ?e1 "en_count e"] False by blast
  have e': "encoder_append ts v e = (append_value v ?e1)\<lparr>en_prev_ts := ts, en_prev_bits := v, en_count := en_count e + 1\<rparr>"
    using False by (simp add: encoder_append_later)
  have "\<exists>d'. next_sample (en_count e) d = Inr ((ts, v), d') \<and> reader_at (de_reader d') rest \<and>
      de_total d' = de_total d \<and> in_step (encoder_append ts v e) d'"
    if stp: "in_step e d" and at: "reader_at (de_reader d) ((t1 @ t2) @ rest)" for d rest
  proof -
    obtain d1 where d1: "next_ts (en_count e) d = Inr (ts, d1)" "reader_at (de_reader d1) (t2 @ rest)"
      "de_total d1 = de_total d" "in_step ?e1 d1" using t1(2) [OF stp, of "t2 @ rest"] at by auto
    obtain d2 where "next_value (en_count e) d1 = Inr (v, d2)" "reader_at (de_reader d2) rest" "de_total d2 = de_total d1"
      "in_step (append_value v ?e1) d2" using t2(2) [OF d1(4,2)] by blast
    then show ?thesis using d1 e' by (simp add: next_sample_def in_step_def)
  qed
  moreover have "writes_text (en_writer e) (en_writer (encoder_append ts v e)) (t1 @ t2)"
    using writes_text_trans [OF t1(1) t2(1)] e' by simp
  ultimately show ?thesis by blast
qed

lemma window_ok_append: "window_ok e \<Longrightarrow> window_ok (encoder_append ts v e)"
  using zeros_window [of "v XOR en_prev_bits e"]
  by (auto simp: window_ok_def encoder_append_def append_value_def Let_def)

definition encode :: "(u64 \<times> u64) list \<Rightarrow> encoder" where
  "encode ss = fold (\<lambda>(ts, v). encoder_append ts v) ss encoder_new"

lemma en_count_append [simp]: "en_count (encoder_append ts v e) = en_count e + 1"
  by (simp add: encoder_append_def Let_def)

lemma samples_text:
  assumes "window_ok e"
  shows "\<exists>t. writes_text (en_writer e) (en_writer (fold (\<lambda>(ts, v). encoder_append ts v) ss e)) t \<and>
    (\<forall>d rest. in_step e d \<longrightarrow> reader_at (de_reader d) (t @ rest) \<longrightarrow> de_total d = en_count e + length ss \<longrightarrow>
       decode_loop (length ss) d = Inr ss)"
  using assms
proof (induction ss arbitrary: e)
  case Nil
  then show ?case using writes_nothing by auto
next
  case (Cons s ss)
  obtain ts v where s: "s = (ts, v)" by fastforce
  let ?e = "encoder_append ts v e"
  obtain t1 where t1: "writes_text (en_writer e) (en_writer ?e) t1"
    "\<And>d rest. in_step e d \<Longrightarrow> reader_at (de_reader d) (t1 @ rest) \<Longrightarrow>
       (\<exists>d'. next_sample (en_count e) d = Inr ((ts, v), d') \<and> reader_at (de_reader d') rest \<and>
          de_total d' = de_total d \<and> in_step ?e d')"
    using sample_text [OF Cons.prems] by blast
  obtain t2 where t2: "writes_text (en_writer ?e) (en_writer (fold (\<lambda>(ts, v). encoder_append ts v) ss ?e)) t2"
    "\<And>d rest. in_step ?e d \<Longrightarrow> reader_at (de_reader d) (t2 @ rest) \<Longrightarrow> de_total d = en_count ?e + length ss \<Longrightarrow>
       decode_loop (length ss) d = Inr ss"
    using Cons.IH [OF window_ok_append [OF Cons.prems]] by blast
  have "decode_loop (length (s # ss)) d = Inr (s # ss)"
    if stp: "in_step e d" and at: "reader_at (de_reader d) ((t1 @ t2) @ rest)" and tot: "de_total d = en_count e + length (s # ss)"
    for d rest
  proof -
    let ?d = "d\<lparr>de_remaining := length ss\<rparr>"
    obtain d' where "next_sample (en_count e) ?d = Inr ((ts, v), d')" "reader_at (de_reader d') (t2 @ rest)"
      "de_total d' = de_total ?d" "in_step ?e d'" using t1(2) [of ?d "t2 @ rest"] stp at by auto
    then show ?thesis using t2(2) [of d' rest] tot s by simp
  qed
  moreover have "writes_text (en_writer e) (en_writer (fold (\<lambda>(ts, v). encoder_append ts v) (s # ss) e)) (t1 @ t2)"
    using writes_text_trans [OF t1(1) t2(1)] s by simp
  ultimately show ?case by blast
qed

lemma en_count_encode: "en_count (encode ss) = length ss"
proof -
  have "en_count (fold (\<lambda>(ts, v). encoder_append ts v) ss e) = en_count e + length ss" for e
    by (induction ss arbitrary: e) auto
  then show ?thesis by (simp add: encode_def encoder_new_def)
qed

lemma reader_at_chunk:
  assumes "writer_is w bs" and "length hdr = 4"
  shows "reader_at (bit_reader_new (hdr @ bw_bytes w)) (bs @ replicate (bw_free w) False)"
  using assms by (simp add: reader_at_def bit_reader_new_def writer_is_def)

text \<open>C34: a chunk gives back its samples: fewer than 2 ^ 32 of them, any timestamps in any order, any
  bits of any doubles, appended one by one and closed, decode to exactly that list.\<close>

theorem gorilla_roundtrip:
  assumes "length ss < 2 ^ 32"
  shows "decode_all (encoder_close (encode ss)) = Inr ss"
proof -
  have "window_ok encoder_new" by (simp add: window_ok_def encoder_new_def)
  then obtain t where t: "writes_text bit_writer_new (en_writer (encode ss)) t"
    "\<And>d rest. in_step encoder_new d \<Longrightarrow> reader_at (de_reader d) (t @ rest) \<Longrightarrow>
       de_total d = length ss \<Longrightarrow> decode_loop (length ss) d = Inr ss"
    using samples_text [of encoder_new ss] by (auto simp: encode_def encoder_new_def)
  have w: "writer_is (en_writer (encode ss)) ([] @ t)"
    using t(1) writer_is_new unfolding writes_text_def by blast
  let ?chunk = "encoder_close (encode ss)"
  have "nat_of_le (take 4 ?chunk) = length ss"
    using assms by (simp add: encoder_close_def en_count_encode nat_of_le_le_nat_id)
  moreover have "\<not> length ?chunk < 4" by (simp add: encoder_close_def)
  moreover have "reader_at (bit_reader_new ?chunk) (([] @ t) @ replicate (bw_free (en_writer (encode ss))) False)"
    unfolding encoder_close_def by (rule reader_at_chunk [OF w]) simp
  ultimately show ?thesis
    using t(2) by (simp add: decode_all_def chunk_decoder_new_def in_step_def encoder_new_def Let_def)
qed

theorem gorilla_roundtrip_witness:
  "decode_all (encoder_close (encode [(10, 7), (20, 7), (31, 9), (3, 0)])) = Inr [(10, 7), (20, 7), (31, 9), (3, 0)]"
  by (rule gorilla_roundtrip) simp

text \<open>A corrupt chunk can announce a window wider than a word: the decoder's subtraction goes
  below zero instead of the error a corrupt record is meant to give.\<close>

theorem gorilla_window_underflow:
  "decode_all (le_nat 4 2 @ replicate 24 0 @ [255, 240]) = Inl Overflows"
  by code_simp

end
