(* ===== verification/Bloom.thy ===== *)
theory Bloom
  imports Gorilla "HOL-Library.Sublist"
begin

text \<open>
  \<open>signy/src/bloom.rs\<close>: the filters a part carries, and the trigrams of its lines. Text is a list
  of code points; the tables of Unicode and the two logarithms that size a filter are parameters.
\<close>

subsection \<open>Text\<close>

type_synonym ustr = "nat list"

definition utf8 :: "nat \<Rightarrow> bytes" where
  "utf8 c =
     (if c < 0x80 then [word_of_nat c]
      else if c < 0x800 then [word_of_nat (0xC0 + c div 64), word_of_nat (0x80 + c mod 64)]
      else if c < 0x10000 then
        [word_of_nat (0xE0 + c div 4096), word_of_nat (0x80 + c div 64 mod 64), word_of_nat (0x80 + c mod 64)]
      else
        [word_of_nat (0xF0 + c div 262144), word_of_nat (0x80 + c div 4096 mod 64),
         word_of_nat (0x80 + c div 64 mod 64), word_of_nat (0x80 + c mod 64)])"

definition str_bytes :: "ustr \<Rightarrow> bytes" where
  "str_bytes s = concat (map utf8 s)"

definition is_ascii :: "ustr \<Rightarrow> bool" where
  "is_ascii s = list_all (\<lambda>c. c < 128) s"

definition byte_ascii_lower :: "u8 \<Rightarrow> u8" where
  "byte_ascii_lower b = (if 65 \<le> b \<and> b \<le> 90 then b + 32 else b)"

text \<open>The tables: \<open>char::to_lowercase\<close>, and the properties \<open>Cased\<close> and \<open>Case_Ignorable\<close>.\<close>

record unicode =
  un_lower :: "nat \<Rightarrow> nat list"
  un_cased :: "nat \<Rightarrow> bool"
  un_ignorable :: "nat \<Rightarrow> bool"

text \<open>\<open>str::to_lowercase\<close>: a capital sigma that ends a word is lowered to the final form.\<close>

definition case_ignorable_then_cased :: "unicode \<Rightarrow> ustr \<Rightarrow> bool" where
  "case_ignorable_then_cased u s = (case dropWhile (un_ignorable u) s of [] \<Rightarrow> False | c # _ \<Rightarrow> un_cased u c)"

definition capital_sigma :: nat where "capital_sigma = 0x3A3"

fun lower_from :: "unicode \<Rightarrow> ustr \<Rightarrow> ustr \<Rightarrow> ustr" where
  "lower_from u seen [] = []"
| "lower_from u seen (c # cs) =
     (if c = capital_sigma
      then [if case_ignorable_then_cased u seen \<and> \<not> case_ignorable_then_cased u cs then 0x3C2 else 0x3C3]
      else un_lower u c) @ lower_from u (c # seen) cs"

definition to_lowercase :: "unicode \<Rightarrow> ustr \<Rightarrow> ustr" where
  "to_lowercase u s = lower_from u [] s"

text \<open>What a table says of ASCII.\<close>

definition unicode_ok :: "unicode \<Rightarrow> bool" where
  "unicode_ok u \<longleftrightarrow> (\<forall>c < 128. un_lower u c = [if 65 \<le> c \<and> c \<le> 90 then c + 32 else c])"

subsection \<open>Hashes\<close>

definition fnv1a_64 :: "bytes \<Rightarrow> u64 \<Rightarrow> u64" where
  "fnv1a_64 data seed = fold (\<lambda>b h. (h XOR ucast b) * 0x100000001b3) data seed"

definition hash_pair :: "bytes \<Rightarrow> u64 \<times> u64" where
  "hash_pair data = (fnv1a_64 data 0xcbf29ce484222325, fnv1a_64 data 0x517cc1b727220a95)"

definition double_hash :: "u64 \<Rightarrow> u64 \<Rightarrow> nat \<Rightarrow> nat \<Rightarrow> nat" where
  "double_hash h1 h2 i m = unat (h1 + h2 * word_of_nat i) mod m"

subsection \<open>The filter\<close>

record bloom_filter =
  bf_bits :: bytes
  bf_num_bits :: nat
  bf_k :: nat

text \<open>\<open>None\<close> is the failed assertion.\<close>

definition bloom_new :: "nat \<Rightarrow> nat \<Rightarrow> bloom_filter option" where
  "bloom_new num_bits k =
     (if num_bits > 0 \<and> num_bits mod 8 = 0
      then Some \<lparr>bf_bits = replicate (num_bits div 8) 0, bf_num_bits = num_bits, bf_k = k\<rparr> else None)"

definition optimal_bits :: "(nat \<Rightarrow> nat) \<Rightarrow> nat \<Rightarrow> nat" where
  "optimal_bits ceiled n = (if n = 0 then 8192 else (max (ceiled n) 1024 + 7) div 8 * 8)"

definition optimal_k :: "(nat \<Rightarrow> nat \<Rightarrow> nat) \<Rightarrow> nat \<Rightarrow> nat \<Rightarrow> nat" where
  "optimal_k rounded m n = (if n = 0 then 4 else max 1 (min (rounded m n) 16))"

text \<open>The two float expressions: bits for so many items, rounded up, and bits per item times
  \<open>ln 2\<close>, rounded.\<close>

record float_sizes =
  fs_bits :: "nat \<Rightarrow> nat"
  fs_k :: "nat \<Rightarrow> nat \<Rightarrow> nat"

definition bloom_with_capacity :: "float_sizes \<Rightarrow> nat \<Rightarrow> bloom_filter option" where
  "bloom_with_capacity fl items =
     (let num_bits = optimal_bits (fs_bits fl) items; k = optimal_k (fs_k fl) num_bits items
      in bloom_new num_bits k)"

definition bloom_insert :: "bytes \<Rightarrow> bloom_filter \<Rightarrow> bloom_filter" where
  "bloom_insert data f =
     (let (h1, h2) = hash_pair data in
      fold (\<lambda>i f. let idx = double_hash h1 h2 i (bf_num_bits f)
                  in f\<lparr>bf_bits := (bf_bits f)[idx div 8 := (bf_bits f ! (idx div 8)) OR push_bit (idx mod 8) 1]\<rparr>)
        [0..<bf_k f] f)"

text \<open>\<open>None\<close> is an index out of range.\<close>

fun contain_loop :: "bytes \<Rightarrow> nat \<Rightarrow> u64 \<times> u64 \<Rightarrow> nat list \<Rightarrow> bool option" where
  "contain_loop bits num_bits h [] = Some True"
| "contain_loop bits num_bits h (i # is) =
     (let idx = double_hash (fst h) (snd h) i num_bits in
      if \<not> idx div 8 < length bits then None
      else if (bits ! (idx div 8)) AND push_bit (idx mod 8) 1 = 0 then Some False
      else contain_loop bits num_bits h is)"

definition bits_contain :: "bytes \<Rightarrow> nat \<Rightarrow> nat \<Rightarrow> bytes \<Rightarrow> bool option" where
  "bits_contain bits num_bits k data =
     (if num_bits = 0 \<and> k > 0 then None else contain_loop bits num_bits (hash_pair data) [0..<k])"

definition bloom_contains :: "bloom_filter \<Rightarrow> bytes \<Rightarrow> bool option" where
  "bloom_contains f data = bits_contain (bf_bits f) (bf_num_bits f) (bf_k f) data"

definition trigrams :: "unicode \<Rightarrow> ustr \<Rightarrow> bytes list" where
  "trigrams u s =
     (let bs = str_bytes (to_lowercase u s)
      in if length bs < 3 then [] else map (\<lambda>i. [bs ! i, bs ! (i + 1), bs ! (i + 2)]) [0..<length bs - 2])"

fun all_contained :: "bytes \<Rightarrow> nat \<Rightarrow> nat \<Rightarrow> bytes list \<Rightarrow> bool option" where
  "all_contained bits num_bits k [] = Some True"
| "all_contained bits num_bits k (t # ts) =
     (case bits_contain bits num_bits k t of
        None \<Rightarrow> None
      | Some False \<Rightarrow> Some False
      | Some True \<Rightarrow> all_contained bits num_bits k ts)"

definition bits_might_contain_substr :: "unicode \<Rightarrow> bytes \<Rightarrow> nat \<Rightarrow> nat \<Rightarrow> ustr \<Rightarrow> bool option" where
  "bits_might_contain_substr u bits num_bits k needle =
     (let tris = trigrams u needle in if tris = [] then Some True else all_contained bits num_bits k tris)"

definition might_contain_substr :: "unicode \<Rightarrow> bloom_filter \<Rightarrow> ustr \<Rightarrow> bool option" where
  "might_contain_substr u f needle = bits_might_contain_substr u (bf_bits f) (bf_num_bits f) (bf_k f) needle"

subsection \<open>The stored form\<close>

definition bloom_magic :: bytes where
  "bloom_magic = [0x42, 0x4C, 0x4D, 0x31]"

definition bloom_header_bytes :: nat where
  "bloom_header_bytes = 12"

definition bloom_encode :: "bloom_filter \<Rightarrow> bytes" where
  "bloom_encode f = bloom_magic @ le_nat 4 (bf_num_bits f) @ le_nat 4 (bf_k f) @ bf_bits f"

definition bloom_encoded_len :: "bloom_filter \<Rightarrow> nat" where
  "bloom_encoded_len f = 12 + length (bf_bits f)"

datatype bloom_error = BloomShort | BloomMagic | BloomNumBits nat | BloomLength nat nat

definition bloom_decode :: "bytes \<Rightarrow> bloom_error + bloom_filter" where
  "bloom_decode buf =
     (if length buf < 12 then Inl BloomShort
      else if take 4 buf \<noteq> bloom_magic then Inl BloomMagic
      else
        (let num_bits = nat_of_le (take 4 (drop 4 buf)); k = nat_of_le (take 4 (drop 8 buf)) in
         if num_bits = 0 \<or> num_bits mod 8 \<noteq> 0 then Inl (BloomNumBits num_bits)
         else
           (let bits_len = num_bits div 8 in
            if length buf \<noteq> 12 + bits_len then Inl (BloomLength (12 + bits_len) (length buf))
            else Inr \<lparr>bf_bits = drop 12 buf, bf_num_bits = num_bits, bf_k = k\<rparr>)))"

definition decode_bloom_header :: "bytes \<Rightarrow> bloom_error + nat \<times> nat" where
  "decode_bloom_header buf =
     (if length buf < bloom_header_bytes then Inl BloomShort
      else if take 4 buf \<noteq> bloom_magic then Inl BloomMagic
      else
        (let num_bits = nat_of_le (take 4 (drop 4 buf)); k = nat_of_le (take 4 (drop 8 buf)) in
         if num_bits = 0 \<or> num_bits mod 8 \<noteq> 0 then Inl (BloomNumBits num_bits)
         else
           (let bits_len = num_bits div 8 in
            if length buf \<noteq> bloom_header_bytes + bits_len
            then Inl (BloomLength (bloom_header_bytes + bits_len) (length buf))
            else Inr (num_bits, k))))"

record bloom_ref =
  br_bits :: bytes
  br_num_bits :: nat
  br_k :: nat

definition bloom_ref_parse :: "bytes \<Rightarrow> bloom_error + bloom_ref" where
  "bloom_ref_parse buf =
     (case decode_bloom_header buf of
        Inl e \<Rightarrow> Inl e
      | Inr (num_bits, k) \<Rightarrow>
          Inr \<lparr>br_bits = drop bloom_header_bytes buf, br_num_bits = num_bits, br_k = k\<rparr>)"

definition bloom_ref_contains :: "bloom_ref \<Rightarrow> bytes \<Rightarrow> bool option" where
  "bloom_ref_contains r data = bits_contain (br_bits r) (br_num_bits r) (br_k r) data"

definition bloom_ref_might_contain_substr :: "unicode \<Rightarrow> bloom_ref \<Rightarrow> ustr \<Rightarrow> bool option" where
  "bloom_ref_might_contain_substr u r needle = bits_might_contain_substr u (br_bits r) (br_num_bits r) (br_k r) needle"

subsection \<open>The trigrams of a row group\<close>

record trigram_set =
  ts_words :: "u64 list"
  ts_len :: nat
  ts_lowered :: bytes

definition trigram_words :: nat where
  "trigram_words = 2 ^ 24 div 64"

definition trigram_set_new :: trigram_set where
  "trigram_set_new = \<lparr>ts_words = replicate trigram_words 0, ts_len = 0, ts_lowered = []\<rparr>"

definition lowercase_into :: "unicode \<Rightarrow> ustr \<Rightarrow> bytes" where
  "lowercase_into u s =
     (if is_ascii s then map byte_ascii_lower (str_bytes s)
      else concat (map utf8 (concat (map (un_lower u) s))))"

definition trigram_index :: "bytes \<Rightarrow> u64" where
  "trigram_index t = push_bit 16 (ucast (t ! 0)) OR push_bit 8 (ucast (t ! 1)) OR ucast (t ! 2)"

definition trigram_of :: "u64 \<Rightarrow> bytes" where
  "trigram_of index = [ucast (drop_bit 16 index), ucast (drop_bit 8 index), ucast index]"

definition windows3 :: "bytes \<Rightarrow> bytes list" where
  "windows3 bs = map (\<lambda>i. take 3 (drop i bs)) [0..<length bs - 2]"

definition add_window :: "bytes \<Rightarrow> trigram_set \<Rightarrow> trigram_set" where
  "add_window w ts =
     (let index = trigram_index w;
          b = push_bit (unat (index AND 63)) 1;
          at = unat (drop_bit 6 index);
          word = ts_words ts ! at
      in if word AND b = 0 then ts\<lparr>ts_words := (ts_words ts)[at := word OR b], ts_len := ts_len ts + 1\<rparr> else ts)"

definition add_line :: "unicode \<Rightarrow> ustr \<Rightarrow> trigram_set \<Rightarrow> trigram_set" where
  "add_line u line ts =
     (let lowered = lowercase_into u line in fold add_window (windows3 lowered) (ts\<lparr>ts_lowered := lowered\<rparr>))"

lemma clear_lowest_less: "bits \<noteq> 0 \<Longrightarrow> unat (bits AND (bits - 1)) < unat (bits :: u64)"
  using word_and_le1 [of bits "bits - 1"] measure_unat [of bits]
  by (meson le_less_trans word_less_nat_alt word_le_nat_alt)

function insert_word :: "nat \<Rightarrow> u64 \<Rightarrow> bloom_filter \<Rightarrow> bloom_filter" where
  "insert_word word_index bits f =
     (if bits = 0 then f
      else
        (let index = push_bit 6 (word_of_nat word_index) OR word_of_nat (trailing_zeros bits)
         in insert_word word_index (bits AND (bits - 1)) (bloom_insert (trigram_of index) f)))"
  by pat_completeness auto
termination
  by (relation "measure (\<lambda>(_, bits, _). unat bits)") (simp_all add: clear_lowest_less)

declare insert_word.simps [simp del]

definition trigram_set_finish :: "float_sizes \<Rightarrow> trigram_set \<Rightarrow> bloom_filter option" where
  "trigram_set_finish fl ts =
     map_option (fold (\<lambda>(word_index, word). insert_word word_index word) (enumerate 0 (ts_words ts)))
       (bloom_with_capacity fl (max (ts_len ts) 1))"

definition line_bloom :: "unicode \<Rightarrow> float_sizes \<Rightarrow> ustr list \<Rightarrow> bloom_filter option" where
  "line_bloom u fl lines = trigram_set_finish fl (fold (add_line u) lines trigram_set_new)"

text \<open>\<open>PartReader::bloom_prune\<close>: whether a row group may hold a line with every literal.\<close>

fun bloom_prune :: "unicode \<Rightarrow> bloom_ref \<Rightarrow> ustr list \<Rightarrow> bool option" where
  "bloom_prune u line [] = Some True"
| "bloom_prune u line (l # ls) =
     (case bloom_ref_might_contain_substr u line l of
        None \<Rightarrow> None
      | Some False \<Rightarrow> Some False
      | Some True \<Rightarrow> bloom_prune u line ls)"

subsection \<open>What a filter holds\<close>

text \<open>A filter is the set of its bits: bit \<open>j\<close> of the whole is bit \<open>j mod 8\<close> of byte \<open>j div 8\<close>.\<close>

definition bloom_ok :: "bloom_filter \<Rightarrow> bool" where
  "bloom_ok f \<longleftrightarrow> bf_num_bits f = 8 * length (bf_bits f) \<and> bf_bits f \<noteq> []"

definition bit_at :: "bytes \<Rightarrow> nat \<Rightarrow> bool" where
  "bit_at bits j = bit (bits ! (j div 8)) (j mod 8)"

definition place :: "nat \<Rightarrow> bytes \<Rightarrow> nat \<Rightarrow> nat" where
  "place num_bits data i = double_hash (fst (hash_pair data)) (snd (hash_pair data)) i num_bits"

lemma place_less: "bloom_ok f \<Longrightarrow> place (bf_num_bits f) data i div 8 < length (bf_bits f)"
proof -
  assume ok: "bloom_ok f"
  then have "bf_num_bits f > 0" by (simp add: bloom_ok_def)
  then have "place (bf_num_bits f) data i < 8 * length (bf_bits f)"
    using ok by (simp add: place_def double_hash_def bloom_ok_def)
  then show ?thesis by simp
qed

lemma bit_or_push: "n < LENGTH('a) \<Longrightarrow> bit (x OR 2 ^ n) i \<longleftrightarrow> bit x i \<or> i = n" for x :: "'a::len word"
  by (auto simp: bit_simps)

definition set_place :: "bytes \<Rightarrow> nat \<Rightarrow> bloom_filter \<Rightarrow> bloom_filter" where
  "set_place data i f =
     (let p = place (bf_num_bits f) data i in f\<lparr>bf_bits := (bf_bits f)[p div 8 := (bf_bits f ! (p div 8)) OR push_bit (p mod 8) 1]\<rparr>)"

lemma bloom_insert_fold: "bloom_insert data f = fold (set_place data) [0..<bf_k f] f"
  by (simp add: bloom_insert_def set_place_def [abs_def] place_def Let_def split_beta)

lemma set_place_bits:
  assumes "bloom_ok f"
  shows "bloom_ok (set_place data i f)" and "bf_num_bits (set_place data i f) = bf_num_bits f"
    and "bf_k (set_place data i f) = bf_k f"
    and "bit_at (bf_bits (set_place data i f)) j \<longleftrightarrow> bit_at (bf_bits f) j \<or> j = place (bf_num_bits f) data i"
proof -
  define p where "p = place (bf_num_bits f) data i"
  have less: "p div 8 < length (bf_bits f)" using place_less [OF assms] by (simp add: p_def)
  have e: "set_place data i f = f\<lparr>bf_bits := (bf_bits f)[p div 8 := (bf_bits f ! (p div 8)) OR push_bit (p mod 8) 1]\<rparr>"
    by (simp add: set_place_def p_def Let_def)
  show "bloom_ok (set_place data i f)" "bf_num_bits (set_place data i f) = bf_num_bits f"
    "bf_k (set_place data i f) = bf_k f"
    using assms by (auto simp: e bloom_ok_def)
  show "bit_at (bf_bits (set_place data i f)) j \<longleftrightarrow> bit_at (bf_bits f) j \<or> j = place (bf_num_bits f) data i"
  proof (cases "j div 8 = p div 8")
    case True
    then have "j = p \<longleftrightarrow> j mod 8 = p mod 8" by (metis mult_div_mod_eq)
    then show ?thesis using True less unfolding p_def [symmetric] by (simp add: e bit_at_def bit_or_push)
  next
    case False
    then show ?thesis unfolding p_def [symmetric] by (auto simp: e bit_at_def)
  qed
qed

lemma set_places_bits:
  assumes "bloom_ok f"
  shows "bloom_ok (fold (set_place data) is f) \<and> bf_num_bits (fold (set_place data) is f) = bf_num_bits f \<and>
    bf_k (fold (set_place data) is f) = bf_k f \<and>
    (\<forall>j. bit_at (bf_bits (fold (set_place data) is f)) j \<longleftrightarrow>
       bit_at (bf_bits f) j \<or> j \<in> place (bf_num_bits f) data ` set is)"
  using assms
proof (induction "is" arbitrary: f)
  case (Cons i "is")
  show ?case using Cons.IH [OF set_place_bits(1) [OF Cons.prems]] set_place_bits(2-4) [OF Cons.prems] by auto
qed simp

lemma bloom_insert_bits:
  assumes "bloom_ok f"
  shows "bloom_ok (bloom_insert data f)"
    and "bf_num_bits (bloom_insert data f) = bf_num_bits f" and "bf_k (bloom_insert data f) = bf_k f"
    and "bit_at (bf_bits (bloom_insert data f)) j \<longleftrightarrow> bit_at (bf_bits f) j \<or> (\<exists>i < bf_k f. j = place (bf_num_bits f) data i)"
  using set_places_bits [OF assms, of data "[0..<bf_k f]"] unfolding bloom_insert_fold by auto

lemma contain_loop_iff:
  assumes "\<forall>i \<in> set is. double_hash (fst h) (snd h) i n div 8 < length bits"
  shows "contain_loop bits n h is = Some (\<forall>i \<in> set is. bit_at bits (double_hash (fst h) (snd h) i n))"
  using assms by (induction "is") (simp_all add: Let_def and_exp_eq_0_iff_not_bit bit_at_def)

lemma bits_contain_iff:
  assumes "bloom_ok f"
  shows "bits_contain (bf_bits f) (bf_num_bits f) (bf_k f) data
    = Some (\<forall>i < bf_k f. bit_at (bf_bits f) (place (bf_num_bits f) data i))"
proof -
  have "\<forall>i \<in> set [0..<bf_k f]. double_hash (fst (hash_pair data)) (snd (hash_pair data)) i (bf_num_bits f) div 8 < length (bf_bits f)"
    using place_less [OF assms] by (simp add: place_def)
  moreover have "bf_num_bits f \<noteq> 0" using assms by (simp add: bloom_ok_def)
  ultimately show ?thesis by (simp add: bits_contain_def contain_loop_iff place_def atLeast0LessThan Ball_def)
qed

text \<open>The contract of an approximate set: what was put in is found, and stays found.\<close>

locale approximate_set =
  fixes good :: "'s \<Rightarrow> bool" and put :: "'a \<Rightarrow> 's \<Rightarrow> 's" and found :: "'s \<Rightarrow> 'a \<Rightarrow> bool"
  assumes put_good: "good s \<Longrightarrow> good (put x s)"
    and put_found: "good s \<Longrightarrow> found (put x s) x"
    and put_keeps: "good s \<Longrightarrow> found s y \<Longrightarrow> found (put x s) y"
begin

lemma fold_good: "good s \<Longrightarrow> good (fold put xs s)"
  by (induction xs arbitrary: s) (simp_all add: put_good)

lemma fold_keeps: "good s \<Longrightarrow> found s y \<Longrightarrow> found (fold put xs s) y"
  by (induction xs arbitrary: s) (simp_all add: put_good put_keeps)

lemma fold_found: "good s \<Longrightarrow> x \<in> set xs \<Longrightarrow> found (fold put xs s) x"
  by (induction xs arbitrary: s) (auto simp: put_good put_found fold_keeps)

end

interpretation bloom: approximate_set bloom_ok bloom_insert "\<lambda>f data. bloom_contains f data = Some True"
proof unfold_locales
  fix f :: bloom_filter and x y
  assume ok: "bloom_ok f"
  show "bloom_ok (bloom_insert x f)" by (rule bloom_insert_bits [OF ok])
  show "bloom_contains (bloom_insert x f) x = Some True"
    unfolding bloom_contains_def bits_contain_iff [OF bloom_insert_bits(1) [OF ok]]
    using bloom_insert_bits(2-4) [OF ok] by auto
  assume "bloom_contains f y = Some True"
  then show "bloom_contains (bloom_insert x f) y = Some True"
    unfolding bloom_contains_def bits_contain_iff [OF bloom_insert_bits(1) [OF ok]] bits_contain_iff [OF ok]
    using bloom_insert_bits(2-4) [OF ok] by auto
qed

subsection \<open>What a trigram set holds\<close>

definition tri_no :: "bytes \<Rightarrow> nat" where
  "tri_no t = unat (trigram_index t)"

definition has_no :: "trigram_set \<Rightarrow> nat \<Rightarrow> bool" where
  "has_no ts n \<longleftrightarrow> bit (ts_words ts ! (n div 64)) (n mod 64)"

definition trigram_set_ok :: "trigram_set \<Rightarrow> bool" where
  "trigram_set_ok ts \<longleftrightarrow> length (ts_words ts) = trigram_words \<and> ts_len ts = card {n. n < 2 ^ 24 \<and> has_no ts n}"

lemma trigram_of_index: "length t = 3 \<Longrightarrow> trigram_of (trigram_index t) = t"
proof -
  assume "length t = 3"
  then obtain a b c where t: "t = [a, b, c]" by (auto simp: length_Suc_conv numeral_3_eq_3)
  show ?thesis
    unfolding t trigram_of_def trigram_index_def using bit_imp_le_length [of b] bit_imp_le_length [of c]
    by (auto intro!: bit_word_eqI simp: bit_simps simp del: push_bit_Suc drop_bit_Suc) force+
qed

lemma trigram_index_bits: "length t = 3 \<Longrightarrow> bit (trigram_index t) i \<Longrightarrow> i < 24"
  by (auto simp: trigram_index_def bit_simps simp del: push_bit_Suc dest: bit_imp_le_length)

lemma tri_no_less: "length t = 3 \<Longrightarrow> tri_no t < 2 ^ 24"
proof -
  assume "length t = 3"
  then have "take_bit 24 (trigram_index t) = trigram_index t"
    using trigram_index_bits by (auto intro!: bit_word_eqI simp: bit_take_bit_iff)
  then have "unat (trigram_index t) = take_bit 24 (unat (trigram_index t))" by (metis unsigned_take_bit_eq)
  then show ?thesis unfolding tri_no_def by (metis take_bit_nat_less_exp)
qed

lemma has_no_new: "n < 2 ^ 24 \<Longrightarrow> \<not> has_no trigram_set_new n"
  by (simp add: has_no_def trigram_set_new_def trigram_words_def less_mult_imp_div_less)

lemma trigram_set_new_ok: "trigram_set_ok trigram_set_new"
proof -
  have "{n. n < 2 ^ 24 \<and> has_no trigram_set_new n} = {}" using has_no_new by blast
  then show ?thesis unfolding trigram_set_ok_def by (simp only: card.empty) (simp add: trigram_set_new_def)
qed

lemma index_parts:
  "unat (drop_bit 6 (trigram_index w)) = tri_no w div 64" "unat (trigram_index w AND 63) = tri_no w mod 64"
proof -
  show "unat (drop_bit 6 (trigram_index w)) = tri_no w div 64"
    by (simp add: tri_no_def drop_bit_eq_div unat_div)
  have "trigram_index w AND 63 = take_bit 6 (trigram_index w)" by (simp add: take_bit_eq_mask mask_eq_exp_minus_1)
  then show "unat (trigram_index w AND 63) = tri_no w mod 64"
    by (simp add: tri_no_def take_bit_eq_mod unat_mod)
qed

lemma add_window_has:
  assumes "length (ts_words ts) = trigram_words" and "length w = 3"
  shows "has_no (add_window w ts) n \<longleftrightarrow> has_no ts n \<or> n = tri_no w"
    and "length (ts_words (add_window w ts)) = trigram_words"
    and "ts_len (add_window w ts) = (if has_no ts (tri_no w) then ts_len ts else ts_len ts + 1)"
proof -
  define m where "m = tri_no w"
  have less: "m div 64 < length (ts_words ts)"
    using tri_no_less [OF assms(2)] assms(1) by (simp add: m_def trigram_words_def less_mult_imp_div_less)
  have e: "add_window w ts = (if has_no ts m then ts
     else ts\<lparr>ts_words := (ts_words ts)[m div 64 := ts_words ts ! (m div 64) OR 2 ^ (m mod 64)], ts_len := ts_len ts + 1\<rparr>)"
    by (simp add: add_window_def index_parts Let_def has_no_def and_exp_eq_0_iff_not_bit m_def)
  show "length (ts_words (add_window w ts)) = trigram_words"
    "ts_len (add_window w ts) = (if has_no ts (tri_no w) then ts_len ts else ts_len ts + 1)"
    using assms(1) by (simp_all add: e m_def)
  show "has_no (add_window w ts) n \<longleftrightarrow> has_no ts n \<or> n = tri_no w"
  proof (cases "n div 64 = m div 64")
    case True
    then have "n = m \<longleftrightarrow> n mod 64 = m mod 64" by (metis mult_div_mod_eq)
    then show ?thesis using True less unfolding m_def [symmetric] by (auto simp: e has_no_def bit_or_push)
  next
    case False
    then show ?thesis unfolding m_def [symmetric] by (auto simp: e has_no_def)
  qed
qed

lemma add_window_ok: "trigram_set_ok ts \<Longrightarrow> length w = 3 \<Longrightarrow> trigram_set_ok (add_window w ts)"
proof -
  assume ok: "trigram_set_ok ts" and w: "length w = 3"
  note a = add_window_has [OF _ w, of ts]
  have l: "length (ts_words ts) = trigram_words" using ok by (simp add: trigram_set_ok_def)
  have "{n. n < 2 ^ 24 \<and> has_no (add_window w ts) n} = insert (tri_no w) {n. n < 2 ^ 24 \<and> has_no ts n}"
    using a(1) [OF l] tri_no_less [OF w] by auto
  moreover have "finite {n. n < 2 ^ 24 \<and> has_no ts n}" by (rule finite_subset [of _ "{..<2 ^ 24}"]) auto
  ultimately show ?thesis
    using ok a(2,3) [OF l] tri_no_less [OF w] by (auto simp: trigram_set_ok_def card_insert_if)
qed

lemma add_windows:
  "trigram_set_ok ts \<Longrightarrow> list_all (\<lambda>w. length w = 3) ws \<Longrightarrow>
     trigram_set_ok (fold add_window ws ts) \<and>
     (\<forall>n. has_no (fold add_window ws ts) n \<longleftrightarrow> has_no ts n \<or> n \<in> tri_no ` set ws)"
proof (induction ws arbitrary: ts)
  case (Cons w ws)
  then have "length (ts_words ts) = trigram_words" by (simp add: trigram_set_ok_def)
  then show ?case using Cons.IH [OF add_window_ok [of ts w]] Cons.prems add_window_has(1) [of ts w] by auto
qed simp

lemma windows3_length: "list_all (\<lambda>w. length w = 3) (windows3 bs)"
  by (auto simp: windows3_def list_all_iff)

lemma set_windows3: "set (windows3 bs) = {t. length t = 3 \<and> sublist t bs}"
proof (intro set_eqI iffI)
  fix t assume "t \<in> set (windows3 bs)"
  then obtain i where "i < length bs - 2" "t = take 3 (drop i bs)" by (auto simp: windows3_def)
  then show "t \<in> {t. length t = 3 \<and> sublist t bs}"
    by (auto intro: sublist_order.order_trans [OF sublist_take sublist_drop])
next
  fix t assume "t \<in> {t. length t = 3 \<and> sublist t bs}"
  then obtain a b where "length t = 3" "bs = a @ t @ b" by (auto simp: sublist_def)
  then show "t \<in> set (windows3 bs)"
    unfolding windows3_def by (auto intro!: image_eqI [of _ _ "length a"])
qed

lemma add_line_ok:
  assumes "trigram_set_ok ts"
  shows "trigram_set_ok (add_line u line ts)"
    and "has_no (add_line u line ts) n \<longleftrightarrow> has_no ts n \<or> n \<in> tri_no ` {t. length t = 3 \<and> sublist t (lowercase_into u line)}"
proof -
  have "trigram_set_ok (ts\<lparr>ts_lowered := l\<rparr>)" "has_no (ts\<lparr>ts_lowered := l\<rparr>) = has_no ts" for l
    using assms by (simp_all add: trigram_set_ok_def has_no_def [abs_def])
  then show "trigram_set_ok (add_line u line ts)"
    "has_no (add_line u line ts) n \<longleftrightarrow> has_no ts n \<or> n \<in> tri_no ` {t. length t = 3 \<and> sublist t (lowercase_into u line)}"
    using add_windows [OF _ windows3_length, of "ts\<lparr>ts_lowered := lowercase_into u line\<rparr>" "lowercase_into u line"]
    by (auto simp: add_line_def Let_def set_windows3)
qed

lemma add_lines_ok:
  "trigram_set_ok ts \<Longrightarrow>
     trigram_set_ok (fold (add_line u) lines ts) \<and>
     (\<forall>n. has_no (fold (add_line u) lines ts) n \<longleftrightarrow>
        has_no ts n \<or> (\<exists>line \<in> set lines. n \<in> tri_no ` {t. length t = 3 \<and> sublist t (lowercase_into u line)}))"
proof (induction lines arbitrary: ts)
  case (Cons l lines)
  show ?case using Cons.IH [OF add_line_ok(1) [OF Cons.prems]] add_line_ok(2) [OF Cons.prems] by (auto 4 3)
qed simp

subsection \<open>The words of a set, bit by bit\<close>

lemma trailing_zeros_low:
  assumes "bits \<noteq> 0"
  shows "trailing_zeros bits < 64" and "bit bits (trailing_zeros bits)" and "[0..<64] = [0..<trailing_zeros bits] @ trailing_zeros bits # [trailing_zeros bits + 1..<64]"
proof -
  have "\<exists>i < 64. bit bits i"
  proof (rule ccontr)
    assume "\<not> (\<exists>i < 64. bit bits i)"
    then have "bits = 0" by (auto intro!: bit_word_eqI)
    then show False using assms by simp
  qed
  then have ex: "\<exists>i \<in> set [0..<64]. bit bits i" by auto
  then show l: "trailing_zeros bits < 64"
    unfolding trailing_zeros_def
    by (metis (mono_tags) diff_zero length_takeWhile_le length_upt nless_le takeWhile_eq_all_conv takeWhile_eq_take take_all_iff)
  have "\<not> (\<not> bit bits ([0..<64] ! trailing_zeros bits))"
    unfolding trailing_zeros_def by (rule nth_length_takeWhile) (use l in \<open>simp add: trailing_zeros_def\<close>)
  then show "bit bits (trailing_zeros bits)" using l by simp
  show "[0..<64] = [0..<trailing_zeros bits] @ trailing_zeros bits # [trailing_zeros bits + 1..<64]"
    using l by (metis Suc_eq_plus1 less_imp_add_positive upt_add_eq_append upt_conv_Cons zero_le le_add1 add_0)
qed

lemma clear_lowest:
  assumes "bits \<noteq> 0"
  shows "bit (bits AND (bits - 1)) i \<longleftrightarrow> bit bits i \<and> i \<noteq> trailing_zeros bits"
proof -
  define t where "t = trailing_zeros bits"
  note tz = trailing_zeros_low [OF assms, folded t_def]
  define hi where "hi = bits AND NOT (mask (Suc t))"
  have hi: "bit hi i \<longleftrightarrow> bit bits i \<and> t < i" for i
    unfolding hi_def by (auto simp: bit_simps less_Suc_eq_le not_le dest: bit_imp_le_length)
  have "bits = hi OR 2 ^ t"
    using tz(1,2) trailing_zeros_bits [of _ bits] by (auto intro!: bit_word_eqI simp: bit_or_iff hi bit_exp_iff t_def) (metis linorder_neqE_nat)
  also have "\<dots> = hi + 2 ^ t" by (rule disjunctive_add_eq_or [symmetric], rule bit_word_eqI) (auto simp: bit_and_iff hi bit_exp_iff)
  finally have "bits - 1 = hi + mask t" by (simp add: mask_eq_exp_minus_1)
  also have "\<dots> = hi OR mask t" by (rule disjunctive_add_eq_or, rule bit_word_eqI) (auto simp: bit_and_iff hi bit_mask_iff)
  finally have "bit (bits - 1) i \<longleftrightarrow> bit hi i \<or> (i < t \<and> i < 64)" by (auto simp: bit_or_iff bit_mask_iff)
  then have "bit (bits AND (bits - 1)) i \<longleftrightarrow> bit bits i \<and> (bit hi i \<or> (i < t \<and> i < 64))" by (simp only: bit_and_iff)
  then show ?thesis
    using hi [of i] trailing_zeros_bits [of i bits] unfolding t_def [symmetric] by (metis nat_neq_iff)
qed

lemma set_bits_in_order:
  assumes "bits \<noteq> 0"
  shows "filter (bit bits) [0..<64] = trailing_zeros bits # filter (bit (bits AND (bits - 1))) [0..<64]"
proof -
  note tz = trailing_zeros_low [OF assms]
  define t where "t = trailing_zeros bits"
  define x where "x = bits AND (bits - 1)"
  have x: "bit x i \<longleftrightarrow> bit bits i \<and> i \<noteq> t" for i using clear_lowest [OF assms] by (simp add: x_def t_def)
  have "filter (bit bits) [0..<t] = []" "filter (bit x) [0..<t] = []"
    using trailing_zeros_bits [of _ bits] x by (auto simp: filter_empty_conv t_def)
  moreover have "filter (bit x) [t + 1..<64] = filter (bit bits) [t + 1..<64]" using x by (intro filter_cong) auto
  moreover have "bit bits t" "\<not> bit x t" using tz(2) x by (simp_all add: t_def)
  ultimately have "filter (bit bits) ([0..<t] @ t # [t + 1..<64]) = t # filter (bit x) ([0..<t] @ t # [t + 1..<64])"
    by (simp only: filter_append filter.simps if_True if_False append_Nil)
  then show ?thesis using tz(3) unfolding t_def [symmetric] x_def [symmetric] by simp
qed

lemma insert_word_bits:
  "insert_word wi bits f =
     fold bloom_insert (map (\<lambda>i. trigram_of (push_bit 6 (word_of_nat wi) OR word_of_nat i)) (filter (bit bits) [0..<64])) f"
proof (induction wi bits f rule: insert_word.induct)
  case (1 wi bits f)
  show ?case
  proof (cases "bits = 0")
    case False
    show ?thesis using "1.IH" [OF False refl] set_bits_in_order [OF False] False by (simp add: insert_word.simps [of wi bits f])
  qed (simp add: insert_word.simps)
qed

lemma index_number:
  assumes "wi < 2 ^ 18" and "i < 64"
  shows "push_bit 6 (word_of_nat wi) OR word_of_nat i = (word_of_nat (64 * wi + i) :: u64)"
proof -
  have "(word_of_nat i :: u64) AND push_bit 6 (word_of_nat wi) = 0"
  proof (rule bit_word_eqI)
    fix n
    assume "n < LENGTH(64)"
    have "take_bit 6 i = i" using assms(2) by (simp add: take_bit_nat_eq_self)
    then have "bit i n \<Longrightarrow> n < 6" by (metis bit_take_bit_iff)
    then have "bit (word_of_nat i :: u64) n \<Longrightarrow> n < 6" by (simp add: bit_of_nat_iff)
    then show "bit ((word_of_nat i :: u64) AND push_bit 6 (word_of_nat wi)) n \<longleftrightarrow> bit (0 :: u64) n"
      by (auto simp: bit_and_iff bit_push_bit_iff)
  qed
  then have "push_bit 6 (word_of_nat wi) OR word_of_nat i = (word_of_nat i + push_bit 6 (word_of_nat wi) :: u64)"
    by (simp add: disjunctive_add_eq_or or.commute)
  then show ?thesis by (simp add: push_bit_eq_mult)
qed

text \<open>A finished set: its trigrams put into a filter of its size, in some order.\<close>

lemma finish_words:
  "fold (\<lambda>(wi, word). insert_word wi word) (enumerate k ws) f =
     fold bloom_insert (concat (map (\<lambda>(wi, word).
       map (\<lambda>i. trigram_of (push_bit 6 (word_of_nat wi) OR word_of_nat i)) (filter (bit word) [0..<64])) (enumerate k ws))) f"
  by (induction ws arbitrary: k f) (simp_all add: insert_word_bits)

lemma trigram_set_finish_fold:
  assumes "trigram_set_ok ts"
  shows "\<exists>ls. trigram_set_finish fl ts = map_option (fold bloom_insert ls) (bloom_with_capacity fl (max (ts_len ts) 1)) \<and>
    set ls = (\<lambda>n. trigram_of (word_of_nat n)) ` {n. n < 2 ^ 24 \<and> has_no ts n}"
proof -
  define ls where "ls = concat (map (\<lambda>(wi, word).
    map (\<lambda>i. trigram_of (push_bit 6 (word_of_nat wi) OR word_of_nat i)) (filter (bit word) [0..<64])) (enumerate 0 (ts_words ts)))"
  have len: "length (ts_words ts) = 2 ^ 18" using assms by (simp add: trigram_set_ok_def trigram_words_def)
  have "set ls = (\<lambda>n. trigram_of (word_of_nat n)) ` {n. n < 2 ^ 24 \<and> has_no ts n}"
  proof (intro set_eqI iffI)
    fix t assume "t \<in> set ls"
    then obtain wi i where i: "wi < 2 ^ 18" "i < 64" "bit (ts_words ts ! wi) i"
      "t = trigram_of (push_bit 6 (word_of_nat wi) OR word_of_nat i)"
      using len by (auto simp: ls_def in_set_enumerate_eq)
    then have "has_no ts (64 * wi + i)" "64 * wi + i < 2 ^ 24" by (simp_all add: has_no_def)
    then show "t \<in> (\<lambda>n. trigram_of (word_of_nat n)) ` {n. n < 2 ^ 24 \<and> has_no ts n}"
      using i(4) index_number [OF i(1,2)] by (auto intro!: image_eqI [of _ _ "64 * wi + i"])
  next
    fix t assume "t \<in> (\<lambda>n. trigram_of (word_of_nat n)) ` {n. n < 2 ^ 24 \<and> has_no ts n}"
    then obtain n where n: "t = trigram_of (word_of_nat n)" "n < 2 ^ 24" "has_no ts n" by blast
    then have d: "n div 64 < 2 ^ 18" by (simp add: less_mult_imp_div_less)
    then have "(n div 64, ts_words ts ! (n div 64)) \<in> set (enumerate 0 (ts_words ts))" using len by (simp add: in_set_enumerate_eq)
    moreover have "n mod 64 \<in> set (filter (bit (ts_words ts ! (n div 64))) [0..<64])" using n(3) by (simp add: has_no_def)
    moreover have "t = trigram_of (push_bit 6 (word_of_nat (n div 64)) OR word_of_nat (n mod 64))"
      using index_number [OF d, of "n mod 64"] n(1) by simp
    ultimately show "t \<in> set ls" unfolding ls_def by fastforce
  qed
  moreover have "trigram_set_finish fl ts = map_option (fold bloom_insert ls) (bloom_with_capacity fl (max (ts_len ts) 1))"
    unfolding trigram_set_finish_def ls_def by (rule arg_cong [of _ _ "\<lambda>g. map_option g _"]) (rule ext, rule finish_words)
  ultimately show ?thesis by blast
qed

text \<open>What the two logarithms must come to: a filter whose length fits its header.\<close>

definition float_sizes_ok :: "float_sizes \<Rightarrow> bool" where
  "float_sizes_ok fl \<longleftrightarrow> (\<forall>n \<le> 2 ^ 24. fs_bits fl n + 7 < 2 ^ 32)"

lemma bloom_with_capacity_ok:
  assumes "float_sizes_ok fl" and "n \<le> 2 ^ 24"
  shows "\<exists>f. bloom_with_capacity fl n = Some f \<and> bloom_ok f \<and> bf_num_bits f < 2 ^ 32 \<and> bf_k f < 2 ^ 32 \<and>
    (\<forall>j. j < bf_num_bits f \<longrightarrow> \<not> bit_at (bf_bits f) j)"
proof -
  define b where "b = optimal_bits (fs_bits fl) n"
  define k where "k = optimal_k (fs_k fl) b n"
  have m: "b mod 8 = 0" "b > 0" by (auto simp: b_def optimal_bits_def)
  have "b < 2 ^ 32" using assms by (auto simp: b_def optimal_bits_def float_sizes_ok_def intro: le_less_trans [OF div_times_less_eq_dividend])
  moreover have "k \<le> 16" by (simp add: k_def optimal_k_def)
  ultimately show ?thesis
    using m by (auto simp: bloom_with_capacity_def b_def [symmetric] k_def [symmetric] Let_def bloom_new_def bloom_ok_def bit_at_def)
qed

lemma fold_insert_keeps:
  "bloom_ok f \<Longrightarrow> bf_num_bits (fold bloom_insert ls f) = bf_num_bits f \<and> bf_k (fold bloom_insert ls f) = bf_k f"
  by (induction ls arbitrary: f) (simp_all add: bloom_insert_bits)

lemma trigram_set_len: "trigram_set_ok ts \<Longrightarrow> ts_len ts \<le> 2 ^ 24"
proof -
  assume ok: "trigram_set_ok ts"
  have "card {n. n < 2 ^ 24 \<and> has_no ts n} \<le> card {..<2 ^ 24 :: nat}" by (rule card_mono) auto
  then show ?thesis using ok by (simp add: trigram_set_ok_def)
qed

lemma finish_found:
  assumes "trigram_set_ok ts" and "float_sizes_ok fl"
  shows "\<exists>f. trigram_set_finish fl ts = Some f \<and> bloom_ok f \<and> bf_num_bits f < 2 ^ 32 \<and> bf_k f < 2 ^ 32 \<and>
    (\<forall>t. length t = 3 \<and> has_no ts (tri_no t) \<longrightarrow> bloom_contains f t = Some True)"
proof -
  obtain ls where ls: "trigram_set_finish fl ts = map_option (fold bloom_insert ls) (bloom_with_capacity fl (max (ts_len ts) 1))"
    "set ls = (\<lambda>n. trigram_of (word_of_nat n)) ` {n. n < 2 ^ 24 \<and> has_no ts n}"
    using trigram_set_finish_fold [OF assms(1)] by blast
  have "max (ts_len ts) 1 \<le> 2 ^ 24" using trigram_set_len [OF assms(1)] by simp
  from bloom_with_capacity_ok [OF assms(2) this]
  obtain f where f: "bloom_with_capacity fl (max (ts_len ts) 1) = Some f" "bloom_ok f" "bf_num_bits f < 2 ^ 32" "bf_k f < 2 ^ 32"
    by blast
  have "bloom_contains (fold bloom_insert ls f) t = Some True" if "length t = 3" "has_no ts (tri_no t)" for t
  proof (rule bloom.fold_found [OF f(2)])
    have "t = trigram_of (word_of_nat (tri_no t))" using trigram_of_index [OF that(1)] by (simp add: tri_no_def)
    then show "t \<in> set ls" unfolding ls(2) using that(2) tri_no_less [OF that(1)] by blast
  qed
  then show ?thesis using ls(1) f bloom.fold_good [OF f(2)] fold_insert_keeps [OF f(2)] by auto
qed

subsection \<open>The stored form is read back\<close>

lemma bloom_stored:
  assumes "bloom_ok f" and "bf_num_bits f < 2 ^ 32" and "bf_k f < 2 ^ 32"
  shows "bloom_decode (bloom_encode f) = Inr f"
    and "bloom_ref_parse (bloom_encode f) = Inr \<lparr>br_bits = bf_bits f, br_num_bits = bf_num_bits f, br_k = bf_k f\<rparr>"
proof -
  have h: "take 4 (bloom_encode f) = bloom_magic" "take 4 (drop 4 (bloom_encode f)) = le_nat 4 (bf_num_bits f)"
    "take 4 (drop 8 (bloom_encode f)) = le_nat 4 (bf_k f)" "drop 12 (bloom_encode f) = bf_bits f"
    "length (bloom_encode f) = 12 + length (bf_bits f)"
    by (simp_all add: bloom_encode_def bloom_magic_def)
  have n: "nat_of_le (le_nat 4 (bf_num_bits f)) = bf_num_bits f" "nat_of_le (le_nat 4 (bf_k f)) = bf_k f"
    using assms(2,3) by (simp_all add: nat_of_le_le_nat_id)
  have l: "bf_num_bits f = 8 * length (bf_bits f)" "bf_bits f \<noteq> []" using assms(1) by (simp_all add: bloom_ok_def)
  note n [unfolded l(1)]
  then show "bloom_decode (bloom_encode f) = Inr f"
    "bloom_ref_parse (bloom_encode f) = Inr \<lparr>br_bits = bf_bits f, br_num_bits = bf_num_bits f, br_k = bf_k f\<rparr>"
    using l
    by (simp_all add: bloom_decode_def bloom_ref_parse_def decode_bloom_header_def bloom_header_bytes_def h Let_def)
qed

lemma parse_as_decode:
  "bloom_ref_parse buf = (case bloom_decode buf of Inl e \<Rightarrow> Inl e
     | Inr f \<Rightarrow> Inr \<lparr>br_bits = bf_bits f, br_num_bits = bf_num_bits f, br_k = bf_k f\<rparr>)"
  by (simp only: bloom_ref_parse_def decode_bloom_header_def bloom_decode_def bloom_header_bytes_def Let_def
      if_distrib [of "case_sum _ _"] sum.case prod.case bloom_filter.select_convs)

subsection \<open>Lowering a text and a part of it\<close>

lemma lower_from_plain: "capital_sigma \<notin> set s \<Longrightarrow> lower_from u seen s = concat (map (un_lower u) s)"
  by (induction s arbitrary: seen) auto

lemma lower_ascii_char:
  assumes "unicode_ok u" and "c < 128"
  shows "concat (map utf8 (un_lower u c)) = [byte_ascii_lower (word_of_nat c)]" and "utf8 c = [word_of_nat c]"
proof -
  have "unat (word_of_nat c :: u8) = c" using assms(2) by (simp add: unat_of_nat)
  then show "concat (map utf8 (un_lower u c)) = [byte_ascii_lower (word_of_nat c)]" "utf8 c = [word_of_nat c]"
    using assms by (auto simp: unicode_ok_def utf8_def byte_ascii_lower_def word_le_nat_alt)
qed

lemma lowercase_into_chars:
  assumes "unicode_ok u"
  shows "lowercase_into u s = str_bytes (concat (map (un_lower u) s))"
proof (cases "is_ascii s")
  case True
  then have "map byte_ascii_lower (str_bytes s) = str_bytes (concat (map (un_lower u) s))"
    using lower_ascii_char [OF assms] by (induction s) (simp_all add: str_bytes_def is_ascii_def)
  then show ?thesis using True by (simp add: lowercase_into_def)
qed (simp add: lowercase_into_def str_bytes_def)

lemma sublist_lowered:
  assumes "unicode_ok u" and "sublist needle line" and "capital_sigma \<notin> set needle"
  shows "sublist (str_bytes (to_lowercase u needle)) (lowercase_into u line)"
proof -
  obtain a b where "line = a @ needle @ b" using assms(2) by (auto simp: sublist_def)
  then show ?thesis
    using assms(3) unfolding lowercase_into_chars [OF assms(1)] to_lowercase_def
    by (simp add: lower_from_plain str_bytes_def sublist_appendI)
qed

lemma trigrams_windows: "trigrams u s = windows3 (str_bytes (to_lowercase u s))"
proof -
  have "[bs ! i, bs ! (i + 1), bs ! (i + 2)] = take 3 (drop i bs)" if "i < length bs - 2" for i and bs :: bytes
  proof -
    have "take 3 (drop i bs) = map (\<lambda>j. bs ! (i + j)) [0..<3]" using that by (intro nth_equalityI) auto
    then show ?thesis by (simp add: upt_rec)
  qed
  then show ?thesis by (auto simp: trigrams_def windows3_def Let_def)
qed

lemma all_contained_True:
  "\<forall>t \<in> set ts. bits_contain bits n k t = Some True \<Longrightarrow> all_contained bits n k ts = Some True"
  by (induction ts) simp_all

lemma bloom_prune_True:
  "\<forall>l \<in> set ls. bloom_ref_might_contain_substr u r l = Some True \<Longrightarrow> bloom_prune u r ls = Some True"
  by (induction ls) simp_all

subsection \<open>What a line filter promises\<close>

lemma line_filter_keeps:
  assumes "unicode_ok u" and "float_sizes_ok fl" and "line \<in> set lines"
    and "\<forall>l \<in> set literals. sublist l line \<and> capital_sigma \<notin> set l" and "line_bloom u fl lines = Some f"
  shows "bloom_prune u \<lparr>br_bits = bf_bits f, br_num_bits = bf_num_bits f, br_k = bf_k f\<rparr> literals = Some True"
proof -
  define ts where "ts = fold (add_line u) lines trigram_set_new"
  have ts: "trigram_set_ok ts"
    "\<And>n. has_no ts n \<longleftrightarrow> has_no trigram_set_new n \<or>
       (\<exists>line \<in> set lines. n \<in> tri_no ` {t. length t = 3 \<and> sublist t (lowercase_into u line)})"
    using add_lines_ok [OF trigram_set_new_ok, of u lines] by (auto simp: ts_def)
  have f: "\<And>t. length t = 3 \<Longrightarrow> has_no ts (tri_no t) \<Longrightarrow> bloom_contains f t = Some True"
    using finish_found [OF ts(1) assms(2)] assms(5) unfolding line_bloom_def ts_def by (metis option.inject)
  define r where "r = \<lparr>br_bits = bf_bits f, br_num_bits = bf_num_bits f, br_k = bf_k f\<rparr>"
  have "bloom_ref_might_contain_substr u r l = Some True" if "l \<in> set literals" for l
  proof -
    have "sublist (str_bytes (to_lowercase u l)) (lowercase_into u line)" using sublist_lowered assms(1,4) that by blast
    then have "bloom_contains f t = Some True" if "t \<in> set (trigrams u l)" for t
      using that f [of t] ts(2) [of "tri_no t"] assms(3) sublist_order.order_trans
      unfolding trigrams_windows set_windows3 by blast
    then show ?thesis
      by (simp add: bloom_ref_might_contain_substr_def bits_might_contain_substr_def Let_def r_def all_contained_True bloom_contains_def)
  qed
  then show ?thesis using bloom_prune_True [of literals u r] by (simp add: r_def)
qed

text \<open>C37: a row group is never passed over for a line it has: the filter of any lines, stored and
  parsed back, does not prune literals that are all parts of one of the lines, as long as no
  literal has a capital sigma.\<close>

theorem line_filter_never_hides:
  assumes "unicode_ok u" and "float_sizes_ok fl" and "line \<in> set lines"
    and "\<forall>l \<in> set literals. sublist l line \<and> capital_sigma \<notin> set l"
  shows "\<exists>f r. line_bloom u fl lines = Some f \<and> bloom_ref_parse (bloom_encode f) = Inr r \<and>
    bloom_prune u r literals = Some True"
proof -
  obtain f where f: "line_bloom u fl lines = Some f" "bloom_ok f" "bf_num_bits f < 2 ^ 32" "bf_k f < 2 ^ 32"
    using finish_found add_lines_ok [OF trigram_set_new_ok, of u lines] assms(2) unfolding line_bloom_def by metis
  then show ?thesis using bloom_stored(2) [OF f(2-4)] line_filter_keeps [OF assms f(1)] by blast
qed

text \<open>Latin and Greek letters, enough of the tables for the examples; the sizes are those of six trigrams.\<close>

definition greek :: unicode where
  "greek = \<lparr>un_lower = (\<lambda>c. [if 65 \<le> c \<and> c \<le> 90 \<or> 0x391 \<le> c \<and> c \<le> 0x3A9 then c + 32 else c]),
     un_cased = (\<lambda>c. 65 \<le> c \<and> c \<le> 90 \<or> 97 \<le> c \<and> c \<le> 122 \<or> 0x391 \<le> c \<and> c \<le> 0x3C9), un_ignorable = (\<lambda>c. c = 39)\<rparr>"

definition six_sizes :: float_sizes where
  "six_sizes = \<lparr>fs_bits = (\<lambda>_. 58), fs_k = (\<lambda>_ _. 118)\<rparr>"

lemma examples_ok: "unicode_ok greek" "float_sizes_ok six_sizes"
  by (simp_all add: unicode_ok_def greek_def float_sizes_ok_def six_sizes_def)

theorem line_filter_never_hides_witness:
  "\<exists>f r. line_bloom greek six_sizes [[927, 948, 972, 962], [71, 69, 84]] = Some f \<and>
    bloom_ref_parse (bloom_encode f) = Inr r \<and> bloom_prune greek r [[927, 948, 972], [948, 972, 962]] = Some True"
  by (rule line_filter_never_hides [OF examples_ok, of "[927, 948, 972, 962]"])
    (auto simp: capital_sigma_def sublist_def intro: exI [of _ "[]"] exI [of _ "[927]"])

lemma fold_insert_bits:
  "bloom_ok f \<Longrightarrow> bit_at (bf_bits (fold bloom_insert ls f)) j \<longleftrightarrow>
     bit_at (bf_bits f) j \<or> (\<exists>t \<in> set ls. \<exists>i < bf_k f. j = place (bf_num_bits f) t i)"
proof (induction ls arbitrary: f)
  case (Cons t ls)
  show ?case
    using Cons.IH [OF bloom_insert_bits(1) [OF Cons.prems], of t] bloom_insert_bits(2-4) [OF Cons.prems] by auto
qed simp

lemma line_bloom_bits:
  assumes "float_sizes_ok fl"
  shows "\<exists>f. line_bloom u fl lines = Some f \<and> bloom_ok f \<and>
    (\<exists>n \<ge> 1. bf_num_bits f = optimal_bits (fs_bits fl) n \<and> bf_k f = optimal_k (fs_k fl) (bf_num_bits f) n) \<and>
    (\<forall>j < bf_num_bits f. bit_at (bf_bits f) j \<longleftrightarrow>
       (\<exists>line \<in> set lines. \<exists>t \<in> set (windows3 (lowercase_into u line)). \<exists>i < bf_k f. j = place (bf_num_bits f) t i))"
proof -
  define ts where "ts = fold (add_line u) lines trigram_set_new"
  have ts: "trigram_set_ok ts"
    "\<And>n. n < 2 ^ 24 \<Longrightarrow> has_no ts n \<longleftrightarrow> (\<exists>line \<in> set lines. n \<in> tri_no ` set (windows3 (lowercase_into u line)))"
    using add_lines_ok [OF trigram_set_new_ok, of u lines] has_no_new by (auto simp: ts_def set_windows3)
  obtain ls where ls: "trigram_set_finish fl ts = map_option (fold bloom_insert ls) (bloom_with_capacity fl (max (ts_len ts) 1))"
    "set ls = (\<lambda>n. trigram_of (word_of_nat n)) ` {n. n < 2 ^ 24 \<and> has_no ts n}"
    using trigram_set_finish_fold [OF ts(1)] by blast
  have set: "set ls = (\<Union>line \<in> set lines. set (windows3 (lowercase_into u line)))"
  proof -
    have "trigram_of (word_of_nat (tri_no t)) = t \<and> tri_no t < 2 ^ 24" if "t \<in> set (windows3 bs)" for t bs
      using that trigram_of_index [of t] tri_no_less [of t] by (auto simp: set_windows3 tri_no_def)
    then show ?thesis unfolding ls(2) using ts(2) by (auto simp: image_iff) (metis, metis)
  qed
  define n where "n = max (ts_len ts) 1"
  have "n \<le> 2 ^ 24" using trigram_set_len [OF ts(1)] by (simp add: n_def)
  from bloom_with_capacity_ok [OF assms this]
  obtain g where g: "bloom_with_capacity fl n = Some g" "bloom_ok g" "\<And>j. j < bf_num_bits g \<Longrightarrow> \<not> bit_at (bf_bits g) j"
    by blast
  have "bf_num_bits g = optimal_bits (fs_bits fl) n" "bf_k g = optimal_k (fs_k fl) (bf_num_bits g) n"
    using g(1) by (auto simp: bloom_with_capacity_def bloom_new_def Let_def split: if_splits)
  then show ?thesis
    using ls(1) g fold_insert_bits [OF g(2), of ls] fold_insert_keeps [OF g(2), of ls] bloom.fold_good [OF g(2), of ls] set
    unfolding n_def [symmetric]
    by (intro exI [of _ "fold bloom_insert ls g"]) (auto simp: line_bloom_def ts_def intro!: exI [of _ n] simp: n_def)
qed

lemma sigma_hashes:
  "hash_pair [206, 191, 206] = (10265951073764367020, 16625239285207180892)"
  "hash_pair [191, 206, 180] = (14824065580439839356, 4661054136656572364)"
  "hash_pair [206, 180, 206] = (10257473839112563235, 16616762050555377107)"
  "hash_pair [180, 206, 191] = (9351657669821407320, 17635812512212924968)"
  "hash_pair [206, 191, 207] = (10265952173275995231, 16625240384718809103)"
  "hash_pair [191, 207, 131] = (14824750576184025584, 4662337266726505376)"
  "hash_pair [191, 207, 130] = (14824751675695653795, 4662338366238133587)"
  by (simp_all add: hash_pair_def fnv1a_64_def)

text \<open>A literal with a capital sigma can hide its line: the line is lowered letter by letter, the
  literal as a word, whose last sigma takes the final form, so the filter of a row group with the
  line itself tells a search for the line to pass it over.\<close>

theorem final_sigma_hides_line:
  "\<exists>f. line_bloom greek six_sizes [[927, 916, 927, 931]] = Some f \<and>
    might_contain_substr greek f [927, 916, 927, 931] = Some False"
proof -
  obtain f n where f: "line_bloom greek six_sizes [[927, 916, 927, 931]] = Some f" "bloom_ok f"
    "n \<ge> 1" "bf_num_bits f = optimal_bits (fs_bits six_sizes) n" "bf_k f = optimal_k (fs_k six_sizes) (bf_num_bits f) n"
    and bits: "\<And>j. j < bf_num_bits f \<Longrightarrow> bit_at (bf_bits f) j \<longleftrightarrow>
       (\<exists>t \<in> set (windows3 (lowercase_into greek [927, 916, 927, 931])). \<exists>i < bf_k f. j = place (bf_num_bits f) t i)"
    using line_bloom_bits [OF examples_ok(2), of greek "[[927, 916, 927, 931]]"] by auto
  have num: "bf_num_bits f = 1024" "bf_k f = 16" using f(3-5) by (simp_all add: optimal_bits_def optimal_k_def six_sizes_def)
  have "windows3 (lowercase_into greek [927, 916, 927, 931])
    = [[206, 191, 206], [191, 206, 180], [206, 180, 206], [180, 206, 191], [206, 191, 207], [191, 207, 131]]"
    by code_simp
  moreover have "[0..<16] = [0, 1, 2, 3, 4, 5, 6, 7, 8, 9, 10, 11, 12, 13, 14, 15]" by code_simp
  ultimately have "list_all (\<lambda>t. list_all (\<lambda>i. place 1024 t i \<noteq> 931) [0..<16]) (windows3 (lowercase_into greek [927, 916, 927, 931]))"
    by (simp add: place_def double_hash_def sigma_hashes)
  then have "\<not> bit_at (bf_bits f) 931" using bits [of 931] num by (auto simp: list_all_iff)
  moreover have "place 1024 [191, 207, 130] 0 = 931" by (simp add: place_def double_hash_def sigma_hashes)
  ultimately have "bits_contain (bf_bits f) 1024 16 [191, 207, 130] = Some False"
    using bits_contain_iff [OF f(2), of "[191, 207, 130]"] num by (auto intro!: exI [of _ 0])
  moreover have "trigrams greek [927, 916, 927, 931]
    = [[206, 191, 206], [191, 206, 180], [206, 180, 206], [180, 206, 191], [206, 191, 207], [191, 207, 130]]"
    by code_simp
  ultimately have "all_contained (bf_bits f) 1024 16 (trigrams greek [927, 916, 927, 931]) = Some False"
    using bits_contain_iff [OF f(2)] num by (auto split: option.splits bool.splits)
  moreover have "trigrams greek [927, 916, 927, 931] \<noteq> []" by code_simp
  ultimately show ?thesis
    using f(1) by (auto simp only: might_contain_substr_def bits_might_contain_substr_def Let_def num if_False)
qed

end
