(* ===== verification/Strings.thy ===== *)
theory Strings
  imports Prelude "HOL-Library.Sublist"
begin

text \<open>
  The operations of Rust's \<open>str\<close> the program uses, on ASCII text: trimming, searching, replacing
  every occurrence from left to right, and lowering the letters.
\<close>

definition is_space :: "char \<Rightarrow> bool" where
  "is_space c \<longleftrightarrow> (let n = of_char c :: nat in n = 32 \<or> 9 \<le> n \<and> n \<le> 13)"

definition trim_start :: "string \<Rightarrow> string" where
  "trim_start s = dropWhile is_space s"

definition trim :: "string \<Rightarrow> string" where
  "trim s = rev (trim_start (rev (trim_start s)))"

fun find_sub :: "string \<Rightarrow> string \<Rightarrow> nat option" where
  "find_sub [] pat = (if pat = [] then Some 0 else None)"
| "find_sub (c # cs) pat =
     (if starts_with (c # cs) pat then Some 0 else map_option Suc (find_sub cs pat))"

function replace_all :: "string \<Rightarrow> string \<Rightarrow> string \<Rightarrow> string" where
  "replace_all pat rep s =
     (if pat = [] \<or> s = [] then s
      else if starts_with s pat then rep @ replace_all pat rep (drop (length pat) s)
      else hd s # replace_all pat rep (tl s))"
  by pat_completeness auto
termination by (relation "measure (\<lambda>(_, _, s). length s)") auto

declare replace_all.simps [simp del]

definition ascii_lower :: "char \<Rightarrow> char" where
  "ascii_lower c = (let n = of_char c :: nat in if 65 \<le> n \<and> n \<le> 90 then char_of (n + 32) else c)"

subsection \<open>What a replacement leaves\<close>

text \<open>Text free of the marker's characters that is in the struck text was in the text.\<close>

lemma replace_all_Nil [simp]: "replace_all pat rep [] = []"
  by (simp add: replace_all.simps)

lemma prefix_replaced:
  "prefix p (replace_all pat rep s) \<Longrightarrow> set p \<inter> set rep = {} \<Longrightarrow> rep \<noteq> [] \<Longrightarrow> prefix p s"
proof (induction pat rep s arbitrary: p rule: replace_all.induct)
  case (1 pat rep s)
  consider "pat = [] \<or> s = []" | "pat \<noteq> []" "s \<noteq> []" "starts_with s pat" | "pat \<noteq> []" "s \<noteq> []" "\<not> starts_with s pat"
    by blast
  then show ?case
  proof cases
    case 1
    then show ?thesis using "1.prems" by (simp add: replace_all.simps [of pat rep s])
  next
    case 2
    then have "prefix p (rep @ replace_all pat rep (drop (length pat) s))" using "1.prems"(1) by (simp add: replace_all.simps [of pat rep s])
    then have "p = []" using "1.prems"(2,3) by (cases p; cases rep) auto
    then show ?thesis by simp
  next
    case 3
    then have pre: "prefix p (hd s # replace_all pat rep (tl s))" using "1.prems"(1) by (simp add: replace_all.simps [of pat rep s])
    show ?thesis
    proof (cases p)
      case (Cons c cs)
      then have "c = hd s" "prefix cs (replace_all pat rep (tl s))" using pre by auto
      moreover have "prefix cs (tl s)"
        using "1.IH"(2) [of cs] 3 calculation(2) "1.prems"(2,3) Cons by auto
      ultimately show ?thesis using 3 Cons by (cases s) auto
    qed simp
  qed
qed

lemma sublist_append_disjoint:
  assumes "sublist p (rep @ t)" and "set p \<inter> set rep = {}" and "p \<noteq> []"
  shows "sublist p t"
proof -
  from assms(1) obtain a b where e: "rep @ t = a @ p @ b" by (auto simp: sublist_def)
  have "length rep \<le> length a"
  proof (rule ccontr)
    assume "\<not> length rep \<le> length a"
    then have "(rep @ t) ! length a \<in> set rep" by (simp add: nth_append)
    moreover have "(rep @ t) ! length a \<in> set p" using e assms(3) by (simp add: nth_append)
    ultimately show False using assms(2) by auto
  qed
  then have a: "drop (length rep) (a @ p @ b) = drop (length rep) a @ p @ b" by simp
  have "t = drop (length rep) (rep @ t)" by simp
  also have "\<dots> = drop (length rep) a @ p @ b" unfolding e by (rule a)
  finally have "t = drop (length rep) a @ p @ b" .
  then show ?thesis by (auto simp: sublist_def)
qed

lemma sublist_replaced:
  "sublist p (replace_all pat rep s) \<Longrightarrow> set p \<inter> set rep = {} \<Longrightarrow> rep \<noteq> [] \<Longrightarrow> p \<noteq> [] \<Longrightarrow> sublist p s"
proof (induction pat rep s rule: replace_all.induct)
  case (1 pat rep s)
  consider "pat = [] \<or> s = []" | "pat \<noteq> []" "s \<noteq> []" "starts_with s pat" | "pat \<noteq> []" "s \<noteq> []" "\<not> starts_with s pat"
    by blast
  then show ?case
  proof cases
    case 1
    then show ?thesis using "1.prems" by (simp add: replace_all.simps [of pat rep s])
  next
    case 2
    then have "replace_all pat rep s = rep @ replace_all pat rep (drop (length pat) s)"
      by (simp add: replace_all.simps [of pat rep s])
    then have "sublist p (replace_all pat rep (drop (length pat) s))"
      using "1.prems" sublist_append_disjoint by metis
    then have "sublist p (drop (length pat) s)" using "1.IH"(1) 2 "1.prems" by blast
    then show ?thesis by (meson sublist_drop sublist_order.order_trans)
  next
    case 3
    then have e: "replace_all pat rep s = hd s # replace_all pat rep (tl s)" by (simp add: replace_all.simps [of pat rep s])
    show ?thesis
    proof (cases "prefix p (replace_all pat rep s)")
      case True
      then show ?thesis using prefix_replaced "1.prems"(2,3) prefix_imp_sublist by blast
    next
      case False
      then have "sublist p (replace_all pat rep (tl s))" using "1.prems"(1) e by (simp add: sublist_Cons_right)
      then have "sublist p (tl s)" using "1.IH"(2) 3 "1.prems" by blast
      then show ?thesis by (meson sublist_tl sublist_order.order_trans)
    qed
  qed
qed

lemma replace_all_strikes:
  "pat \<noteq> [] \<Longrightarrow> set pat \<inter> set rep = {} \<Longrightarrow> rep \<noteq> [] \<Longrightarrow> \<not> sublist pat (replace_all pat rep s)"
proof (induction pat rep s rule: replace_all.induct)
  case (1 pat rep s)
  consider "s = []" | "s \<noteq> []" "starts_with s pat" | "s \<noteq> []" "\<not> starts_with s pat" by blast
  then show ?case
  proof cases
    case 1
    then show ?thesis using "1.prems" by simp
  next
    case 2
    then have "\<not> sublist pat (replace_all pat rep (drop (length pat) s))" using "1.IH"(1) "1.prems" by blast
    then show ?thesis
      using sublist_append_disjoint [of pat rep] 2 "1.prems" by (auto simp: replace_all.simps [of pat rep s])
  next
    case 3
    then have e: "replace_all pat rep s = hd s # replace_all pat rep (tl s)" using "1.prems" by (simp add: replace_all.simps [of pat rep s])
    have "\<not> prefix pat s" using 3 by (auto simp: starts_with_def prefix_def)
    then have "\<not> prefix pat (replace_all pat rep s)" using prefix_replaced "1.prems"(2,3) by blast
    moreover have "\<not> sublist pat (replace_all pat rep (tl s))" using "1.IH"(2) 3 "1.prems" by blast
    ultimately show ?thesis using e by (simp add: sublist_Cons_right)
  qed
qed

end
