(* ===== verification/LogQL.thy ===== *)
theory LogQL
  imports Sink Bloom Strings "HOL-Library.AList" "HOL-Library.Char_ord" "HOL-Library.List_Lexorder"
begin

text \<open>
  \<open>signy/src/logql\<close>: the pipeline of a log query on one row, and the equalities it hands down to the
  storage for pruning. Text is the bytes of its UTF-8 form. A regular expression is its predicate; the
  parser of JSON is the parameter \<open>parse\<close>, with a number as the text the library prints for it. A
  \<open>BTreeMap\<close> is an association list, read in the order of its keys. The looks at the cancellation flag
  are the sink's (\<open>LogScan\<close>).
\<close>

text \<open>\<open>str::trim\<close>: the white space of Unicode, in UTF-8.\<close>

definition white_space :: "string list" where
  "white_space = map (map char_of) ([[9], [10], [11], [12], [13], [32], [0xC2, 0x85], [0xC2, 0xA0], [0xE1, 0x9A, 0x80],
     [0xE2, 0x80, 0xA8], [0xE2, 0x80, 0xA9], [0xE2, 0x80, 0xAF], [0xE2, 0x81, 0x9F], [0xE3, 0x80, 0x80]] @
     map (\<lambda>b. [0xE2, 0x80, b]) [0x80..<0x8B] :: nat list list)"

function strip_leading :: "string list \<Rightarrow> string \<Rightarrow> string" where
  "strip_leading ws s =
     (case find (\<lambda>w. w \<noteq> [] \<and> starts_with s w) ws of None \<Rightarrow> s | Some w \<Rightarrow> strip_leading ws (drop (length w) s))"
  by pat_completeness auto
termination
proof (relation "measure (\<lambda>(_, s). length s)", goal_cases)
  case (2 ws s w)
  then have "w \<noteq> []" "take (length w) s = w" by (auto simp: find_Some_iff starts_with_def)
  then have "0 < length w" "length w \<le> length s" by (simp, metis length_take min.cobounded2 min.commute)
  then show ?case by (simp del: length_greater_0_conv)
qed simp

declare strip_leading.simps [simp del]

definition trim_text :: "string \<Rightarrow> string" where
  "trim_text s = rev (strip_leading (map rev white_space) (rev (strip_leading white_space s)))"

subsection \<open>Decimals (field_filters.rs)\<close>

record decimal =
  dc_coefficient :: int
  dc_scale :: int

definition max_decimal_scale :: int where "max_decimal_scale = 1024"

definition is_digit :: "char \<Rightarrow> bool" where "is_digit c \<longleftrightarrow> digit_val c \<noteq> None"

definition parse_digits :: "nat \<Rightarrow> string \<Rightarrow> nat option" where
  "parse_digits bound s = (if s = [] \<or> \<not> list_all is_digit s \<or> digit_sum s > bound then None else Some (digit_sum s))"

definition parse_i64 :: "string \<Rightarrow> int option" where
  "parse_i64 s =
     (case s of
        [] \<Rightarrow> None
      | c # cs \<Rightarrow>
          if c = CHR ''-'' then map_option (\<lambda>n. - int n) (parse_digits (2 ^ 63) cs)
          else map_option int (parse_digits (2 ^ 63 - 1) (if c = CHR ''+'' then cs else s)))"

fun split_once :: "(char \<Rightarrow> bool) \<Rightarrow> string \<Rightarrow> (string \<times> string) option" where
  "split_once p [] = None"
| "split_once p (c # cs) = (if p c then Some ([], cs) else map_option (\<lambda>(a, b). (c # a, b)) (split_once p cs))"

function strip_tens :: "int \<Rightarrow> int \<Rightarrow> int \<times> int" where
  "strip_tens c s = (if c \<noteq> 0 \<and> c mod 10 = 0 then strip_tens (c div 10) (s - 1) else (c, s))"
  by pat_completeness auto
termination by (relation "measure (\<lambda>(c, s). nat \<bar>c\<bar>)") auto

declare strip_tens.simps [simp del]

text \<open>The sign, the digits before the point and the digits behind it.\<close>

definition split_decimal :: "string \<Rightarrow> (bool \<times> string \<times> string) option" where
  "split_decimal mantissa =
     (let (negative, m) = (case mantissa of
          [] \<Rightarrow> (False, [])
        | c # cs \<Rightarrow> if c = CHR ''-'' then (True, cs) else if c = CHR ''+'' then (False, cs) else (False, mantissa))
      in case split_once (\<lambda>c. c = CHR ''.'') m of
           None \<Rightarrow> if m = [] \<or> \<not> list_all is_digit m then None else Some (negative, m, [])
         | Some (i, f) \<Rightarrow>
             if CHR ''.'' \<in> set f \<or> i = [] \<and> f = [] \<or> \<not> list_all is_digit i \<or> \<not> list_all is_digit f then None
             else Some (negative, i, f))"

definition decimal_of :: "bool \<Rightarrow> string \<Rightarrow> string \<Rightarrow> int \<Rightarrow> decimal option" where
  "decimal_of negative i f exponent =
     (let digits = dropWhile (\<lambda>c. c = CHR ''0'') (i @ f)
      in if digits = [] then Some \<lparr>dc_coefficient = 0, dc_scale = 0\<rparr>
         else
           (case parse_digits (2 ^ 128 - 1) digits of
              None \<Rightarrow> None
            | Some magnitude \<Rightarrow>
                if magnitude > (if negative then 2 ^ 127 else 2 ^ 127 - 1) then None
                else
                  (let coefficient = (if negative then - int magnitude else int magnitude);
                       scale = int (length f) - exponent
                   in if scale < - (2 ^ 63) \<or> scale \<ge> 2 ^ 63 \<or> \<bar>scale\<bar> > max_decimal_scale then None
                      else
                        (case strip_tens coefficient scale of (coefficient, scale) \<Rightarrow>
                           if \<bar>scale\<bar> > max_decimal_scale then None
                           else Some \<lparr>dc_coefficient = coefficient, dc_scale = scale\<rparr>))))"

definition decimal_parse :: "string \<Rightarrow> decimal option" where
  "decimal_parse input =
     (let input = trim_text input; is_e = (\<lambda>c. c = CHR ''e'' \<or> c = CHR ''E'')
      in if input = [] then None
         else
           (case (case split_once is_e input of
                    None \<Rightarrow> Some (input, 0)
                  | Some (m, x) \<Rightarrow> if list_ex is_e x then None else map_option (Pair m) (parse_i64 x)) of
              None \<Rightarrow> None
            | Some (mantissa, exponent) \<Rightarrow>
                (case split_decimal mantissa of
                   None \<Rightarrow> None
                 | Some (negative, i, f) \<Rightarrow> decimal_of negative i f exponent)))"

definition canonical_string :: "decimal \<Rightarrow> string" where
  "canonical_string d =
     (if dc_coefficient d = 0 then ''0''
      else
        (let digits = show_nat (nat \<bar>dc_coefficient d\<bar>); scale = dc_scale d;
             output = (if scale \<le> 0 then digits @ replicate (nat (- scale)) CHR ''0''
                       else if nat scale \<ge> length digits then ''0.'' @ replicate (nat scale - length digits) CHR ''0'' @ digits
                       else (let split = length digits - nat scale in take split digits @ ''.'' @ drop split digits))
         in if dc_coefficient d < 0 then CHR ''-'' # output else output))"

datatype ordering = Less | Equal | Greater

definition compare_to :: "'a :: linorder \<Rightarrow> 'a \<Rightarrow> ordering" where
  "compare_to a b = (if a < b then Less else if a = b then Equal else Greater)"

fun reversed :: "ordering \<Rightarrow> ordering" where
  "reversed Less = Greater"
| "reversed Equal = Equal"
| "reversed Greater = Less"

text \<open>Two runs of digits from the left, the shorter filled up with zeros.\<close>

fun compare_padded :: "string \<Rightarrow> string \<Rightarrow> ordering" where
  "compare_padded [] [] = Equal"
| "compare_padded [] (b # bs) = (if CHR ''0'' = b then compare_padded [] bs else compare_to (CHR ''0'') b)"
| "compare_padded (a # as) [] = (if a = CHR ''0'' then compare_padded as [] else compare_to a (CHR ''0''))"
| "compare_padded (a # as) (b # bs) = (if a = b then compare_padded as bs else compare_to a b)"

definition decimal_cmp :: "decimal \<Rightarrow> decimal \<Rightarrow> ordering" where
  "decimal_cmp a b =
     (if dc_coefficient a = 0 \<or> dc_coefficient b = 0 then compare_to (dc_coefficient a) (dc_coefficient b)
      else if (dc_coefficient a < 0) \<noteq> (dc_coefficient b < 0) then reversed (compare_to (dc_coefficient a < 0) (dc_coefficient b < 0))
      else
        (let a_digits = show_nat (nat \<bar>dc_coefficient a\<bar>); b_digits = show_nat (nat \<bar>dc_coefficient b\<bar>);
             absolute = (case compare_to (int (length a_digits) - dc_scale a) (int (length b_digits) - dc_scale b) of
                           Equal \<Rightarrow> compare_padded a_digits b_digits | order \<Rightarrow> order)
         in if dc_coefficient a < 0 then reversed absolute else absolute))"

definition decimal_seconds_to_ns :: "string \<Rightarrow> int option" where
  "decimal_seconds_to_ns input =
     (case decimal_parse input of
        None \<Rightarrow> None
      | Some d \<Rightarrow>
          (let shift = 9 - dc_scale d; power = 10 ^ nat \<bar>shift\<bar> in
           if power \<ge> 2 ^ 127 then None
           else if shift \<ge> 0 then
             (let ns = dc_coefficient d * power in
              if ns < - (2 ^ 127) \<or> ns \<ge> 2 ^ 127 then None else if ns < - (2 ^ 63) \<or> ns \<ge> 2 ^ 63 then None else Some ns)
           else if dc_coefficient d mod power \<noteq> 0 then None
           else (let ns = dc_coefficient d div power in if ns < - (2 ^ 63) \<or> ns \<ge> 2 ^ 63 then None else Some ns)))"

subsection \<open>Durations (pipeline.rs)\<close>

datatype duration_error = EmptyDuration | InvalidDuration | DurationOutOfRange

definition duration_units_ns :: "(string \<times> nat) list" where
  "duration_units_ns =
     [(''ns'', 1), (''us'', 10 ^ 3), ([char_of (0xC2 :: nat), char_of (0xB5 :: nat), CHR ''s''], 10 ^ 3), (''ms'', 10 ^ 6), (''s'', 10 ^ 9),
      (''m'', 60 * 10 ^ 9), (''h'', 3600 * 10 ^ 9), (''d'', 86400 * 10 ^ 9), (''w'', 604800 * 10 ^ 9)]"

definition checked_u128 :: "nat \<Rightarrow> nat option" where
  "checked_u128 n = (if n < 2 ^ 128 then Some n else None)"

definition decimal_duration_component_ns :: "string \<Rightarrow> nat \<Rightarrow> duration_error + int" where
  "decimal_duration_component_ns number multiplier =
     (case (case split_once (\<lambda>c. c = CHR ''.'') number of None \<Rightarrow> Some (number, [])
            | Some (i, f) \<Rightarrow> if CHR ''.'' \<in> set f then None else Some (i, f)) of
        None \<Rightarrow> Inl InvalidDuration
      | Some (i, f) \<Rightarrow>
          if i = [] \<and> f = [] \<or> \<not> list_all is_digit i \<or> \<not> list_all is_digit f then Inl InvalidDuration
          else
            (let significant = rev (dropWhile (\<lambda>c. c = CHR ''0'') (rev f)) in
             case checked_u128 (10 ^ length significant) of
               None \<Rightarrow> Inl DurationOutOfRange
             | Some divisor \<Rightarrow>
                 (case (if i = [] then Some 0 else parse_digits (2 ^ 128 - 1) i) of
                    None \<Rightarrow> Inl DurationOutOfRange
                  | Some integer_value \<Rightarrow>
                      (case (if significant = [] then Some 0 else parse_digits (2 ^ 128 - 1) significant) of
                         None \<Rightarrow> Inl DurationOutOfRange
                       | Some fraction_value \<Rightarrow>
                           (case Option.bind (checked_u128 (integer_value * divisor)) (\<lambda>v. checked_u128 (v + fraction_value)) of
                              None \<Rightarrow> Inl DurationOutOfRange
                            | Some numerator \<Rightarrow>
                                (case checked_u128 (numerator * multiplier) of
                                   None \<Rightarrow> Inl DurationOutOfRange
                                 | Some scaled \<Rightarrow>
                                     if scaled div divisor < 2 ^ 63 then Inr (int (scaled div divisor)) else Inl DurationOutOfRange))))))"

function duration_loop :: "string \<Rightarrow> int \<Rightarrow> duration_error + int" where
  "duration_loop s total_ns =
     (if s = [] then Inr total_ns
      else
        (let number = takeWhile (\<lambda>c. is_digit c \<or> c = CHR ''.'') s; rest = dropWhile (\<lambda>c. is_digit c \<or> c = CHR ''.'') s in
         if number = [] then Inl InvalidDuration
         else
           (case find (\<lambda>(unit, _). starts_with rest unit) duration_units_ns of
              None \<Rightarrow> Inl InvalidDuration
            | Some (unit, multiplier) \<Rightarrow>
                (case decimal_duration_component_ns number multiplier of
                   Inl e \<Rightarrow> Inl e
                 | Inr component \<Rightarrow>
                     if total_ns + component \<ge> 2 ^ 63 then Inl DurationOutOfRange
                     else duration_loop (drop (length unit) rest) (total_ns + component)))))"
  by pat_completeness auto
termination
proof (relation "measure (\<lambda>(s, _). length s)", goal_cases)
  case (2 s total_ns number rest x unit multiplier c)
  have "length number + length rest = length s" using 2(2,3) by (metis length_append takeWhile_dropWhile_id)
  moreover have "0 < length number" using 2(4) by simp
  ultimately show ?case by (simp del: length_greater_0_conv)
qed simp

declare duration_loop.simps [simp del]

definition parse_duration_ns :: "string \<Rightarrow> duration_error + int" where
  "parse_duration_ns input = (let input = trim_text input in if input = [] then Inl EmptyDuration else duration_loop input 0)"

subsection \<open>Filters\<close>

datatype line_filter = Contains string | NotContains string | LineRegex "string \<Rightarrow> bool" "string list" | NotLineRegex "string \<Rightarrow> bool"

text \<open>The second argument of a regular expression is what \<open>required_regex_literals\<close> gives for it.\<close>

definition line_matches :: "line_filter \<Rightarrow> string \<Rightarrow> bool" where
  "line_matches f line =
     (case f of
        Contains s \<Rightarrow> find_sub line s \<noteq> None
      | NotContains s \<Rightarrow> find_sub line s = None
      | LineRegex re _ \<Rightarrow> re line
      | NotLineRegex re \<Rightarrow> \<not> re line)"

datatype field_op = OpEq | OpNeq | OpRegex | OpNotRegex | OpLt | OpLte | OpGt | OpGte

datatype field_value = StringValue string | RegexValue "string \<Rightarrow> bool" | NumberValue decimal | DurationValue int

record field_filter =
  ff_name :: string
  ff_op :: field_op
  ff_value :: field_value

type_synonym fields = "(string \<times> string) list"

definition by_order :: "ordering \<Rightarrow> field_op \<Rightarrow> bool" where
  "by_order order op =
     (case op of
        OpEq \<Rightarrow> order = Equal | OpNeq \<Rightarrow> order \<noteq> Equal | OpLt \<Rightarrow> order = Less | OpLte \<Rightarrow> order \<noteq> Greater
      | OpGt \<Rightarrow> order = Greater | OpGte \<Rightarrow> order \<noteq> Less | OpRegex \<Rightarrow> False | OpNotRegex \<Rightarrow> False)"

definition compare_decimal :: "decimal \<Rightarrow> decimal \<Rightarrow> field_op \<Rightarrow> bool" where
  "compare_decimal actual expected op = by_order (decimal_cmp actual expected) op"

definition compare_ordered :: "int \<Rightarrow> int \<Rightarrow> field_op \<Rightarrow> bool" where
  "compare_ordered actual expected op =
     (case op of
        OpEq \<Rightarrow> actual = expected | OpNeq \<Rightarrow> actual \<noteq> expected | OpLt \<Rightarrow> actual < expected | OpLte \<Rightarrow> actual \<le> expected
      | OpGt \<Rightarrow> actual > expected | OpGte \<Rightarrow> actual \<ge> expected | OpRegex \<Rightarrow> False | OpNotRegex \<Rightarrow> False)"

definition lookup_or_empty :: "fields \<Rightarrow> string \<Rightarrow> string" where
  "lookup_or_empty fs name = (case map_of fs name of None \<Rightarrow> [] | Some v \<Rightarrow> v)"

definition field_matches :: "field_filter \<Rightarrow> fields \<Rightarrow> bool" where
  "field_matches f fs =
     (let actual = lookup_or_empty fs (ff_name f) in
      case (ff_op f, ff_value f) of
        (OpEq, StringValue expected) \<Rightarrow> actual = expected
      | (OpNeq, StringValue expected) \<Rightarrow> actual \<noteq> expected
      | (OpRegex, RegexValue re) \<Rightarrow> re actual
      | (OpNotRegex, RegexValue re) \<Rightarrow> \<not> re actual
      | (op, NumberValue expected) \<Rightarrow> (case decimal_parse actual of None \<Rightarrow> False | Some d \<Rightarrow> compare_decimal d expected op)
      | (op, DurationValue expected) \<Rightarrow> (case parse_duration_ns actual of Inl _ \<Rightarrow> False | Inr d \<Rightarrow> compare_ordered d expected op)
      | _ \<Rightarrow> False)"

datatype matcher_op = MatchEq | MatchNeq | MatchRe "string \<Rightarrow> bool" | MatchNRe "string \<Rightarrow> bool"

record label_matcher =
  lm_name :: string
  lm_op :: matcher_op
  lm_value :: string

definition label_matches :: "label_matcher \<Rightarrow> fields \<Rightarrow> bool" where
  "label_matches m labels =
     (let actual = lookup_or_empty labels (lm_name m) in
      case lm_op m of
        MatchEq \<Rightarrow> actual = lm_value m
      | MatchNeq \<Rightarrow> actual \<noteq> lm_value m
      | MatchRe re \<Rightarrow> re actual
      | MatchNRe re \<Rightarrow> \<not> re actual)"

datatype pipeline_stage = LineStage line_filter | JsonStage | LogfmtStage | FieldStage field_filter

record log_query =
  lq_matchers :: "label_matcher list"
  lq_line_filters :: "line_filter list"
  lq_stages :: "pipeline_stage list"

subsection \<open>Extracted names\<close>

definition parser_error_field :: string where "parser_error_field = ''__error__''"

definition parser_error_details_field :: string where "parser_error_details_field = ''__error_details__''"

definition sanitize_field_name :: "string \<Rightarrow> string" where
  "sanitize_field_name name =
     (let letter = (\<lambda>c. (let n = of_char c :: nat in 48 \<le> n \<and> n \<le> 57 \<or> 65 \<le> n \<and> n \<le> 90 \<or> 97 \<le> n \<and> n \<le> 122 \<or> n = 95));
          follows = (\<lambda>c. (let n = of_char c :: nat in 128 \<le> n \<and> n < 192));
          output = map (\<lambda>c. if letter c then c else CHR ''_'') (filter (\<lambda>c. \<not> follows c) name)
      in case name of
           [] \<Rightarrow> ''_''
         | c # _ \<Rightarrow> if is_digit c then CHR ''_'' # output else if output = [] then ''_'' else output)"

text \<open>At the last occurrence of a pattern.\<close>

fun rsplit_once :: "string \<Rightarrow> string \<Rightarrow> (string \<times> string) option" where
  "rsplit_once pat [] = None"
| "rsplit_once pat (c # cs) =
     (case rsplit_once pat cs of
        Some (a, b) \<Rightarrow> Some (c # a, b)
      | None \<Rightarrow> if starts_with (c # cs) pat then Some ([], drop (length pat) (c # cs)) else None)"

type_synonym suffixes = "(string \<times> nat) list"

definition observe_extracted_name :: "string \<Rightarrow> suffixes \<Rightarrow> suffixes" where
  "observe_extracted_name name sfx =
     (case Option.bind (rsplit_once ''_extracted_'' name) (\<lambda>(base, k). map_option (Pair base) (parse_u64 k)) of
        Some (base, k) \<Rightarrow>
          (let base = base @ ''_extracted''; following = max (saturating_add_u64 k 1) 2 in
           AList.update base (case map_of sfx base of None \<Rightarrow> following | Some current \<Rightarrow> max current following) sfx)
      | None \<Rightarrow>
          if strip_suffix name ''_extracted'' \<noteq> None \<and> map_of sfx name = None then AList.update name 2 sfx else sfx)"

definition may_be_synthesized :: "string \<Rightarrow> bool" where
  "may_be_synthesized name \<longleftrightarrow>
     strip_suffix name ''_extracted'' \<noteq> None \<or>
     (case rsplit_once ''_extracted_'' name of None \<Rightarrow> False | Some (_, k) \<Rightarrow> k \<noteq> [] \<and> list_all is_digit k)"

subsection \<open>Extraction\<close>

definition suffixed :: "string \<Rightarrow> nat \<Rightarrow> string" where "suffixed base k = base @ ''_'' @ show_nat k"

lemma finite_suffixed: "finite {j. suffixed base j \<in> fst ` set fs}"
proof (rule finite_subset)
  show "{j. suffixed base j \<in> fst ` set fs} \<subseteq> (\<lambda>s. digit_sum (drop (length base + 1) s)) ` fst ` set fs"
  proof
    fix j assume "j \<in> {j. suffixed base j \<in> fst ` set fs}"
    moreover have "digit_sum (drop (length base + 1) (suffixed base j)) = j" by (simp add: suffixed_def digit_sum_show_nat)
    ultimately show "j \<in> (\<lambda>s. digit_sum (drop (length base + 1) s)) ` fst ` set fs" by (metis image_eqI mem_Collect_eq)
  qed
qed simp

text \<open>The saturation of the counter is left out: no map has that many names.\<close>

function first_free :: "fields \<Rightarrow> string \<Rightarrow> nat \<Rightarrow> string \<times> nat" where
  "first_free fs base k =
     (if suffixed base k \<in> fst ` set fs then first_free fs base (k + 1) else (suffixed base k, k + 1))"
  by pat_completeness auto
termination
proof (relation "measure (\<lambda>(fs, base, k). card {j. k \<le> j \<and> suffixed base j \<in> fst ` set fs})", goal_cases)
  case (2 fs base k)
  have "k \<in> {j. k \<le> j \<and> suffixed base j \<in> fst ` set fs}" "k \<notin> {j. k + 1 \<le> j \<and> suffixed base j \<in> fst ` set fs}" using 2 by simp_all
  moreover have "{j. k + 1 \<le> j \<and> suffixed base j \<in> fst ` set fs} \<subseteq> {j. k \<le> j \<and> suffixed base j \<in> fst ` set fs}" by auto
  ultimately have "{j. k + 1 \<le> j \<and> suffixed base j \<in> fst ` set fs} \<subset> {j. k \<le> j \<and> suffixed base j \<in> fst ` set fs}" by blast
  moreover have "finite {j. k \<le> j \<and> suffixed base j \<in> fst ` set fs}" by (rule finite_subset [OF _ finite_suffixed [of base fs]]) auto
  ultimately show ?case using psubset_card_mono unfolding in_measure prod.case by blast
qed simp

declare first_free.simps [simp del]

definition insert_extracted :: "string \<Rightarrow> string \<Rightarrow> fields \<times> suffixes \<Rightarrow> fields \<times> suffixes" where
  "insert_extracted name v acc =
     (case acc of (fs, sfx) \<Rightarrow>
        if map_of fs name = None then (AList.update name v fs, observe_extracted_name name sfx)
        else
          (let base = name @ ''_extracted''; k = (case map_of sfx base of None \<Rightarrow> 2 | Some k \<Rightarrow> k);
               (candidate, k') = (if base \<in> fst ` set fs then first_free fs base k else (base, k))
           in (AList.update candidate v fs, AList.update base k' sfx)))"

definition merge_extracted :: "string set \<Rightarrow> fields \<Rightarrow> fields \<times> suffixes \<Rightarrow> fields \<times> suffixes" where
  "merge_extracted shadowed extracted acc =
     fold (\<lambda>(name, v) acc. if name \<in> shadowed then acc else insert_extracted name v acc) (sort_key fst extracted) acc"

datatype json = JNull | JBool bool | JNumber string | JString string | JArray "json list" | JObject "(string \<times> json) list"

definition json_path :: "string \<Rightarrow> string \<Rightarrow> string" where
  "json_path path name = (if path = [] then name else path @ ''_'' @ name)"

lemma size_array: "(i, v) \<in> set (enumerate 0 items) \<Longrightarrow> size v < Suc (size_list size items)"
proof -
  assume "(i, v) \<in> set (enumerate 0 items)"
  then have "v \<in> set items" by (auto simp: in_set_enumerate_eq)
  from size_list_estimation' [OF this order_refl] show ?thesis by (simp add: less_Suc_eq_le)
qed

lemma size_object: "(n, v) \<in> set entries \<Longrightarrow> size v < Suc (size_list (size_prod (\<lambda>_. 0) size) entries)"
proof -
  assume "(n, v) \<in> set entries"
  from size_list_estimation' [OF this, of "size v" "size_prod (\<lambda>_. 0) size"] show ?thesis by simp
qed

function flatten_value :: "string \<Rightarrow> json \<Rightarrow> fields \<times> suffixes \<Rightarrow> fields \<times> suffixes" where
  "flatten_value path JNull acc = insert_extracted path [] acc"
| "flatten_value path (JBool b) acc = insert_extracted path (if b then ''true'' else ''false'') acc"
| "flatten_value path (JNumber n) acc = insert_extracted path n acc"
| "flatten_value path (JString s) acc = insert_extracted path s acc"
| "flatten_value path (JArray items) acc =
     fold (\<lambda>(i, v) acc. flatten_value (json_path path (show_nat i)) v acc) (enumerate 0 items) acc"
| "flatten_value path (JObject entries) acc =
     fold (\<lambda>(name, v) acc. flatten_value (json_path path (sanitize_field_name name)) v acc) (sort_key fst entries) acc"
  by pat_completeness auto
termination by (relation "measure (\<lambda>(_, v, _). size v)") (auto dest: size_array size_object)

definition extract_json :: "(string \<Rightarrow> json option) \<Rightarrow> string \<Rightarrow> fields option" where
  "extract_json parse line =
     (case parse line of
        Some (JObject entries) \<Rightarrow> Some (sort_key fst (fst (flatten_value [] (JObject entries) ([], []))))
      | Some (JArray items) \<Rightarrow> Some (sort_key fst (fst (flatten_value [] (JArray items) ([], []))))
      | _ \<Rightarrow> None)"

definition is_ascii_whitespace :: "char \<Rightarrow> bool" where
  "is_ascii_whitespace c \<longleftrightarrow> (of_char c :: nat) \<in> {32, 9, 10, 12, 13}"

definition radix_digit :: "nat \<Rightarrow> char \<Rightarrow> nat option" where
  "radix_digit radix c =
     (let n = of_char c :: nat;
          d = (if 48 \<le> n \<and> n \<le> 57 then n - 48 else if 97 \<le> n \<and> n \<le> 122 then n - 87 else if 65 \<le> n \<and> n \<le> 90 then n - 55 else 36)
      in if d < radix then Some d else None)"

definition from_str_radix :: "nat \<Rightarrow> string \<Rightarrow> nat option" where
  "from_str_radix radix s =
     (let ds = (case s of [] \<Rightarrow> [] | c # cs \<Rightarrow> if c = CHR ''+'' \<and> cs \<noteq> [] then cs else s)
      in if ds = [] then None
         else fold (\<lambda>c acc. Option.bind acc (\<lambda>a. map_option (\<lambda>d. a * radix + d) (radix_digit radix c))) ds (Some 0))"

definition parse_logfmt_escape_digits :: "string \<Rightarrow> nat \<Rightarrow> nat \<Rightarrow> (nat \<times> string) option" where
  "parse_logfmt_escape_digits s digits radix =
     (if length s < digits \<or> \<not> list_all (\<lambda>c. (of_char c :: nat) < 128) (take digits s) then None
      else map_option (\<lambda>n. (n, drop digits s)) (from_str_radix radix (take digits s)))"

definition push_char :: "nat \<Rightarrow> string option" where
  "push_char c = (if c < 0x110000 \<and> \<not> (0xD800 \<le> c \<and> c < 0xE000) then Some (map (\<lambda>b. char_of (unat b)) (utf8 c)) else None)"

definition coded_char :: "nat \<Rightarrow> (nat \<times> string) option \<Rightarrow> (string \<times> string) option" where
  "coded_char limit r =
     (case r of
        None \<Rightarrow> None
      | Some (n, rest) \<Rightarrow> if n > limit then None else map_option (\<lambda>t. (t, rest)) (push_char n))"

definition simple_escapes :: "(char \<times> nat) list" where
  "simple_escapes =
     [(CHR ''a'', 7), (CHR ''b'', 8), (CHR ''f'', 12), (CHR ''n'', 10), (CHR ''r'', 13), (CHR ''t'', 9), (CHR ''v'', 11),
      (CHR 0x22, 34), (CHR 0x5C, 92)]"

text \<open>What follows a backslash: the text it stands for and the rest.\<close>

definition logfmt_escape :: "string \<Rightarrow> (string \<times> string) option" where
  "logfmt_escape s =
     (case s of
        [] \<Rightarrow> None
      | c # cs \<Rightarrow>
          (case map_of simple_escapes c of
             Some n \<Rightarrow> Some ([char_of n], cs)
           | None \<Rightarrow>
               if c = CHR ''x'' then coded_char 255 (parse_logfmt_escape_digits cs 2 16)
               else if c = CHR ''u'' then coded_char (2 ^ 32) (parse_logfmt_escape_digits cs 4 16)
               else if c = CHR ''U'' then coded_char (2 ^ 32) (parse_logfmt_escape_digits cs 8 16)
               else if 48 \<le> (of_char c :: nat) \<and> (of_char c :: nat) \<le> 55 then coded_char 255 (parse_logfmt_escape_digits s 3 8)
               else None))"

lemma coded_char_shorter:
  "coded_char limit (parse_logfmt_escape_digits s n radix) = Some (t, rest) \<Longrightarrow> length rest = length s - n \<and> n \<le> length s"
  by (auto simp: coded_char_def parse_logfmt_escape_digits_def split: option.splits if_splits)

lemma logfmt_escape_shorter:
  assumes "logfmt_escape s = Some (t, rest)"
  shows "length rest < length s"
proof (cases s)
  case Nil
  then show ?thesis using assms by (simp add: logfmt_escape_def)
next
  case (Cons c cs)
  show ?thesis
  proof (cases "map_of simple_escapes c")
    case None
    then show ?thesis using assms unfolding logfmt_escape_def Cons
      by (simp split: if_splits) (drule coded_char_shorter; simp)+
  next
    case (Some n)
    then show ?thesis using assms unfolding logfmt_escape_def Cons by simp
  qed
qed

text \<open>Behind the opening quote: the value and what follows the closing one.\<close>

function parse_logfmt_quoted :: "string \<Rightarrow> (string \<times> string) option" where
  "parse_logfmt_quoted [] = None"
| "parse_logfmt_quoted (c # cs) =
     (if c = CHR 0x22 then Some ([], cs)
      else if c = CHR 0x5C then
        (case logfmt_escape cs of
           None \<Rightarrow> None
         | Some (t, rest) \<Rightarrow> map_option (\<lambda>(v, r). (t @ v, r)) (parse_logfmt_quoted rest))
      else map_option (\<lambda>(v, r). (c # v, r)) (parse_logfmt_quoted cs))"
  by pat_completeness auto
termination by (relation "measure length") (auto dest: logfmt_escape_shorter)

lemma parse_logfmt_quoted_shorter: "parse_logfmt_quoted s = Some (v, rest) \<Longrightarrow> length rest < length s"
proof (induction s arbitrary: v rest rule: parse_logfmt_quoted.induct)
  case (2 c cs)
  consider (quote) "c = CHR 0x22" | (escape) "c \<noteq> CHR 0x22" "c = CHR 0x5C"
    | (plain) "c \<noteq> CHR 0x22" "c \<noteq> CHR 0x5C" by blast
  then show ?case
  proof cases
    case quote
    then show ?thesis using 2(3) by simp
  next
    case escape
    then have "parse_logfmt_quoted (c # cs) =
        (case logfmt_escape cs of None \<Rightarrow> None | Some (t, rest) \<Rightarrow> map_option (\<lambda>(v, r). (t @ v, r)) (parse_logfmt_quoted rest))"
      by (simp only: parse_logfmt_quoted.simps(2) if_False if_True simp_thms)
    then obtain t r where tr: "logfmt_escape cs = Some (t, r)" "map_option (\<lambda>(v, r). (t @ v, r)) (parse_logfmt_quoted r) = Some (v, rest)"
      using 2(3) by (metis (no_types, lifting) case_prod_conv option.case_eq_if option.collapse option.distinct(1) surj_pair)
    then obtain v' where v': "parse_logfmt_quoted r = Some (v', rest)" by auto
    have "length rest < length r" by (rule 2(1) [OF escape tr(1) refl v'])
    then show ?thesis using logfmt_escape_shorter [OF tr(1)] by simp
  next
    case plain
    then have "parse_logfmt_quoted (c # cs) = map_option (\<lambda>(v, r). (c # v, r)) (parse_logfmt_quoted cs)"
      by (simp only: parse_logfmt_quoted.simps(2) if_False)
    then obtain v' where v': "parse_logfmt_quoted cs = Some (v', rest)" using 2(3) by auto
    show ?thesis using 2(2) [OF plain v'] by simp
  qed
qed simp

record logfmt_state =
  ls_fields :: fields
  ls_source_keys :: "(string \<times> string) list"
  ls_suffixes :: suffixes

definition logfmt_insert :: "string \<Rightarrow> string \<Rightarrow> logfmt_state \<Rightarrow> logfmt_state" where
  "logfmt_insert raw_key v st =
     (case map_of (ls_source_keys st) raw_key of
        Some storage_key \<Rightarrow> st\<lparr>ls_fields := AList.update storage_key v (ls_fields st)\<rparr>
      | None \<Rightarrow>
          (let key = sanitize_field_name raw_key;
               (storage_key, sfx) =
                 (if map_of (ls_fields st) key = None then (key, ls_suffixes st)
                  else
                    (let base = key @ ''_extracted''; k = (case map_of (ls_suffixes st) base of None \<Rightarrow> 2 | Some k \<Rightarrow> k)
                     in if map_of (ls_fields st) base \<noteq> None then (suffixed base k, AList.update base (k + 1) (ls_suffixes st))
                        else (base, AList.update base k (ls_suffixes st))))
           in st\<lparr>ls_source_keys := AList.update raw_key storage_key (ls_source_keys st),
                 ls_fields := AList.update storage_key v (ls_fields st), ls_suffixes := observe_extracted_name storage_key sfx\<rparr>))"

function extract_logfmt_loop :: "string \<Rightarrow> logfmt_state \<Rightarrow> fields option" where
  "extract_logfmt_loop line st =
     (let s = dropWhile is_ascii_whitespace line in
      if s = [] then Some (ls_fields st)
      else
        (let raw_key = takeWhile (\<lambda>c. \<not> is_ascii_whitespace c \<and> c \<noteq> CHR ''='') s;
             rest = dropWhile (\<lambda>c. \<not> is_ascii_whitespace c \<and> c \<noteq> CHR ''='') s
         in if raw_key = [] then None
            else
              (case rest of
                 [] \<Rightarrow> None
               | e # rest1 \<Rightarrow>
                   if e \<noteq> CHR ''='' then None
                   else if rest1 \<noteq> [] \<and> hd rest1 = CHR 0x22 then
                     (case parse_logfmt_quoted (tl rest1) of
                        None \<Rightarrow> None
                      | Some (v, rest2) \<Rightarrow>
                          if rest2 \<noteq> [] \<and> \<not> is_ascii_whitespace (hd rest2) then None
                          else extract_logfmt_loop rest2 (logfmt_insert raw_key v st))
                   else
                     extract_logfmt_loop (dropWhile (\<lambda>c. \<not> is_ascii_whitespace c) rest1)
                       (logfmt_insert raw_key (takeWhile (\<lambda>c. \<not> is_ascii_whitespace c) rest1) st))))"
  by pat_completeness auto
termination
proof (relation "measure (\<lambda>(s, _). length s)", goal_cases)
  case (2 line st s raw_key rest e rest1 p v rest2)
  have "length rest \<le> length s" "length s \<le> length line" unfolding 2(1,4) by (rule length_dropWhile_le)+
  moreover have "length rest2 < length (tl rest1)" using 2 parse_logfmt_quoted_shorter by blast
  ultimately show ?case using 2(6) by (simp add: 2(4) [symmetric])
next
  case (3 line st s raw_key rest e rest1)
  have "length rest \<le> length s" "length s \<le> length line" unfolding 3(1,4) by (rule length_dropWhile_le)+
  moreover have "length (dropWhile (\<lambda>c. \<not> is_ascii_whitespace c) rest1) \<le> length rest1" by (rule length_dropWhile_le)
  ultimately show ?case using 3(6) by (simp add: 3(4) [symmetric])
qed simp

declare extract_logfmt_loop.simps [simp del]

definition extract_logfmt :: "string \<Rightarrow> fields option" where
  "extract_logfmt line = extract_logfmt_loop line \<lparr>ls_fields = [], ls_source_keys = [], ls_suffixes = []\<rparr>"

subsection \<open>The pipeline on a row (ast.rs)\<close>

definition set_parser_error :: "string \<Rightarrow> string \<Rightarrow> log_entry \<times> fields \<Rightarrow> log_entry \<times> fields" where
  "set_parser_error err details acc =
     (case acc of (e, fs) \<Rightarrow>
       (e\<lparr>le_metadata := filter (\<lambda>(n, _). n \<noteq> parser_error_field \<and> n \<noteq> parser_error_details_field) (le_metadata e) @
            [(parser_error_field, err), (parser_error_details_field, details)]\<rparr>,
        AList.update parser_error_details_field details (AList.update parser_error_field err fs)))"

type_synonym pipeline_state = "log_entry \<times> fields \<times> suffixes"

text \<open>\<open>None\<close> rejects the row; \<open>pre\<close> is the extraction the caller already has.\<close>

definition pipeline_step ::
    "(string \<Rightarrow> json option) \<Rightarrow> fields option \<Rightarrow> string set \<Rightarrow> pipeline_stage \<Rightarrow> pipeline_state \<Rightarrow> pipeline_state option" where
  "pipeline_step parse pre shadowed stage st =
     (case st of (e, fs, sfx) \<Rightarrow>
        (case stage of
           LineStage f \<Rightarrow> if line_matches f (le_line e) then Some st else None
         | JsonStage \<Rightarrow>
             (case (case pre of Some extracted \<Rightarrow> Some extracted | None \<Rightarrow> extract_json parse (le_line e)) of
                Some extracted \<Rightarrow> Some (e, merge_extracted shadowed extracted (fs, sfx))
              | None \<Rightarrow> (case set_parser_error ''JSONParserErr'' ''line is not valid JSON'' (e, fs) of (e, fs) \<Rightarrow> Some (e, fs, sfx)))
         | LogfmtStage \<Rightarrow>
             (case extract_logfmt (le_line e) of
                Some extracted \<Rightarrow> Some (e, merge_extracted shadowed extracted (fs, sfx))
              | None \<Rightarrow> (case set_parser_error ''LogfmtParserErr'' ''line is not valid logfmt'' (e, fs) of (e, fs) \<Rightarrow> Some (e, fs, sfx)))
         | FieldStage f \<Rightarrow> if field_matches f fs then Some st else None))"

definition observe_label :: "string \<times> string \<Rightarrow> suffixes \<Rightarrow> suffixes" where
  "observe_label f sfx = observe_extracted_name (fst f) sfx"

definition add_metadata :: "string \<times> string \<Rightarrow> fields \<times> suffixes \<Rightarrow> fields \<times> suffixes" where
  "add_metadata p acc =
     (case acc of (fs, sfx) \<Rightarrow>
        (if map_of fs (fst p) = None then AList.update (fst p) (snd p) fs else fs, observe_extracted_name (fst p) sfx))"

fun run_stages ::
    "(string \<Rightarrow> json option) \<Rightarrow> fields option \<Rightarrow> string set \<Rightarrow> pipeline_stage list \<Rightarrow> pipeline_state \<Rightarrow> pipeline_state option" where
  "run_stages parse pre shadowed [] st = Some st"
| "run_stages parse pre shadowed (stage # stages) st =
     Option.bind (pipeline_step parse pre shadowed stage st) (run_stages parse pre shadowed stages)"

definition process_entry :: "(string \<Rightarrow> json option) \<Rightarrow> log_query \<Rightarrow> labels \<Rightarrow> fields option \<Rightarrow> log_entry \<Rightarrow> log_entry option" where
  "process_entry parse q labels pre e =
     (let sfx = fold observe_label (sort_key fst labels) [];
          shadowed = fst ` set (filter (\<lambda>(n, _). map_of labels n = None) (le_metadata e));
          (fs, sfx) = fold add_metadata (le_metadata e) (labels, sfx)
      in if \<not> list_all (\<lambda>m. label_matches m fs) (lq_matchers q) then None
         else
           (case run_stages parse pre shadowed (lq_stages q) (e, fs, sfx) of
              None \<Rightarrow> None
            | Some (e, fs, sfx) \<Rightarrow> Some (e\<lparr>le_metadata := filter (\<lambda>(n, v). map_of labels n \<noteq> Some v) (sort_key fst fs)\<rparr>)))"

subsection \<open>What is pushed down to the storage\<close>

record exact_field_predicate =
  ep_name :: string
  ep_value :: string
  ep_may_be_extracted :: bool
  ep_canonical :: bool
  ep_json_only :: bool

definition show_int :: "int \<Rightarrow> string" where
  "show_int i = (if i < 0 then CHR ''-'' # show_nat (nat (- i)) else show_nat (nat i))"

definition matcher_predicates :: "label_matcher list \<Rightarrow> exact_field_predicate list" where
  "matcher_predicates ms =
     List.map_filter (\<lambda>m. case lm_op m of
         MatchEq \<Rightarrow> if lm_value m \<noteq> [] then Some \<lparr>ep_name = lm_name m, ep_value = lm_value m, ep_may_be_extracted = False,
           ep_canonical = False, ep_json_only = False\<rparr> else None
       | _ \<Rightarrow> None) ms"

definition field_predicate :: "bool \<Rightarrow> bool \<Rightarrow> field_filter \<Rightarrow> exact_field_predicate option" where
  "field_predicate parser_seen json_only f =
     (if ff_op f = OpEq \<and> ff_name f \<noteq> parser_error_field \<and> ff_name f \<noteq> parser_error_details_field \<and>
         (\<not> parser_seen \<or> \<not> may_be_synthesized (ff_name f))
      then
        map_option (\<lambda>(v, canonical). \<lparr>ep_name = ff_name f, ep_value = v, ep_may_be_extracted = parser_seen, ep_canonical = canonical,
            ep_json_only = parser_seen \<and> json_only\<rparr>)
          (case ff_value f of
             StringValue v \<Rightarrow> Some (v, False)
           | NumberValue d \<Rightarrow> Some (canonical_string d, True)
           | DurationValue d \<Rightarrow> Some (show_int d, True)
           | RegexValue _ \<Rightarrow> None)
      else None)"

fun stage_predicates :: "bool \<Rightarrow> bool \<Rightarrow> pipeline_stage list \<Rightarrow> exact_field_predicate list" where
  "stage_predicates parser_seen json_only [] = []"
| "stage_predicates parser_seen json_only (stage # stages) =
     (case stage of
        JsonStage \<Rightarrow> stage_predicates True json_only stages
      | LogfmtStage \<Rightarrow> stage_predicates True False stages
      | FieldStage f \<Rightarrow>
          (case field_predicate parser_seen json_only f of
             None \<Rightarrow> stage_predicates parser_seen json_only stages
           | Some p \<Rightarrow> p # stage_predicates parser_seen json_only stages)
      | LineStage _ \<Rightarrow> stage_predicates parser_seen json_only stages)"

definition exact_field_predicates :: "log_query \<Rightarrow> exact_field_predicate list" where
  "exact_field_predicates q = matcher_predicates (lq_matchers q) @ stage_predicates False True (lq_stages q)"

text \<open>What the writer of a part indexes of a row (\<open>encode_group_blooms\<close> of \<open>part/format.rs\<close>).\<close>

definition canonical_index_values :: "string \<Rightarrow> string list" where
  "canonical_index_values v =
     remdups_adj (sort ([v] @ (case decimal_parse v of None \<Rightarrow> [] | Some d \<Rightarrow> [canonical_string d]) @
       (case parse_duration_ns v of Inl _ \<Rightarrow> [] | Inr d \<Rightarrow> [show_int d])))"

definition indexed_logfmt_fields :: "string \<Rightarrow> fields" where
  "indexed_logfmt_fields line =
     (if CHR ''='' \<in> set line then (case extract_logfmt line of None \<Rightarrow> [] | Some fs \<Rightarrow> fs) else [])"

definition indexed_tokens :: "(string \<Rightarrow> json option) \<Rightarrow> log_entry \<Rightarrow> (string \<times> string) list" where
  "indexed_tokens parse e =
     concat (map (\<lambda>(n, v). map (Pair n) (canonical_index_values v))
       (le_metadata e @ (case extract_json parse (le_line e) of None \<Rightarrow> [] | Some fs \<Rightarrow> fs) @ indexed_logfmt_fields (le_line e)))"

end
