(* ===== verification/Tenant.thy ===== *)
theory Tenant
  imports Prelude
begin

text \<open>
  \<open>signy/src/tenant.rs\<close>: tenant identifiers. A \<open>&str\<close> is the bytes of its UTF-8 text. What
  \<open>parse\<close> accepts is ASCII, so looking at bytes decides the same as looking at characters:
  every character outside ASCII has a byte of 128 or more, which is refused.
\<close>

type_synonym tenant_id = bytes

definition max_tenant_id_bytes :: nat where
  "max_tenant_id_bytes = 64"

datatype tenant_parse_error = EmptyTenant | LongTenant nat | UnsupportedCharacter

definition is_ascii_alphanumeric :: "u8 \<Rightarrow> bool" where
  "is_ascii_alphanumeric b \<longleftrightarrow>
     (let n = unat b in 48 \<le> n \<and> n \<le> 57 \<or> 65 \<le> n \<and> n \<le> 90 \<or> 97 \<le> n \<and> n \<le> 122)"

definition tenant_char :: "u8 \<Rightarrow> bool" where
  "tenant_char b \<longleftrightarrow> is_ascii_alphanumeric b \<or> b = 95 \<or> b = 45"

definition tenant_parse :: "bytes \<Rightarrow> tenant_parse_error + tenant_id" where
  "tenant_parse raw =
     (if raw = [] then Inl EmptyTenant
      else if length raw > max_tenant_id_bytes then Inl (LongTenant (length raw))
      else if find (\<lambda>b. \<not> tenant_char b) raw \<noteq> None then Inl UnsupportedCharacter
      else Inr raw)"

text \<open>What the rest of the engine assumes of every tenant.\<close>

definition is_tenant :: "tenant_id \<Rightarrow> bool" where
  "is_tenant t \<longleftrightarrow> t \<noteq> [] \<and> length t \<le> max_tenant_id_bytes \<and> list_all tenant_char t"

lemma tenant_parse_Inr_iff: "tenant_parse raw = Inr t \<longleftrightarrow> is_tenant raw \<and> t = raw"
  by (auto simp: tenant_parse_def is_tenant_def find_None_iff list_all_iff)

datatype tenant_error = MissingTenant | InvalidTenant tenant_parse_error | NotAllowed tenant_id

definition tenant_resolve ::
    "bytes option \<Rightarrow> tenant_id option \<Rightarrow> (tenant_id \<Rightarrow> bool) \<Rightarrow> tenant_error + tenant_id" where
  "tenant_resolve raw missing allowed =
     (case (case raw of
              Some v \<Rightarrow> (case tenant_parse v of Inl e \<Rightarrow> Inl (InvalidTenant e) | Inr t \<Rightarrow> Inr t)
            | None \<Rightarrow> (case missing of Some t \<Rightarrow> Inr t | None \<Rightarrow> Inl MissingTenant)) of
        Inl e \<Rightarrow> Inl e
      | Inr t \<Rightarrow> if \<not> allowed t then Inl (NotAllowed t) else Inr t)"

definition tenant_http_status :: "tenant_error \<Rightarrow> nat" where
  "tenant_http_status e = (case e of NotAllowed _ \<Rightarrow> 403 | MissingTenant \<Rightarrow> 400 | InvalidTenant _ \<Rightarrow> 400)"

lemma tenant_resolve_Inr:
  assumes "tenant_resolve raw missing allowed = Inr t"
  shows "allowed t \<and> (case raw of Some v \<Rightarrow> t = v \<and> is_tenant v | None \<Rightarrow> missing = Some t)"
  using assms by (auto simp: tenant_resolve_def tenant_parse_Inr_iff split: option.splits sum.splits if_splits)

end
