(* ===== verification/Memtable.thy ===== *)
theory Memtable
  imports LogQL Tenant "HOL-Library.Multiset"
begin

text \<open>
  \<open>signy/src/memtable.rs\<close>: the rows a tenant pushed that are not in a part yet, in the live buffer or in
  the snapshot a flush is writing, and the scan over both. A map by tenant is an association list. The
  byte counters are natural numbers: no process holds 2 ^ 64 bytes of rows.
\<close>

subsection \<open>Time windows (part/mod.rs)\<close>

record query_time_range =
  qr_start_ns :: int
  qr_end_ns :: int
  qr_include_end :: bool

definition half_open :: "int \<Rightarrow> int \<Rightarrow> query_time_range" where
  "half_open start_ns end_ns = \<lparr>qr_start_ns = start_ns, qr_end_ns = end_ns, qr_include_end = False\<rparr>"

definition closed_range :: "int \<Rightarrow> int \<Rightarrow> query_time_range" where
  "closed_range start_ns end_ns = \<lparr>qr_start_ns = start_ns, qr_end_ns = end_ns, qr_include_end = True\<rparr>"

definition unbounded_range :: query_time_range where "unbounded_range = closed_range (- (2 ^ 63)) (2 ^ 63 - 1)"

definition range_contains :: "query_time_range \<Rightarrow> int \<Rightarrow> bool" where
  "range_contains r ts \<longleftrightarrow> ts \<ge> qr_start_ns r \<and> (ts < qr_end_ns r \<or> qr_include_end r \<and> ts = qr_end_ns r)"

definition range_overlaps :: "query_time_range \<Rightarrow> int \<Rightarrow> int \<Rightarrow> bool" where
  "range_overlaps r min_ts max_ts \<longleftrightarrow> max_ts \<ge> qr_start_ns r \<and> (min_ts < qr_end_ns r \<or> qr_include_end r \<and> min_ts = qr_end_ns r)"

text \<open>Pruning is never tighter than the test of a row.\<close>

lemma overlaps_if_contains: "range_contains r ts \<Longrightarrow> lo \<le> ts \<Longrightarrow> ts \<le> hi \<Longrightarrow> range_overlaps r lo hi"
  by (auto simp: range_contains_def range_overlaps_def)

record metadata_window =
  mw_start_ns :: int
  mw_end_ns :: int

definition window_clamped_to :: "int option \<Rightarrow> metadata_window \<Rightarrow> metadata_window" where
  "window_clamped_to floor w = (case floor of Some f \<Rightarrow> w\<lparr>mw_start_ns := max (mw_start_ns w) f\<rparr> | None \<Rightarrow> w)"

definition window_is_empty :: "metadata_window \<Rightarrow> bool" where
  "window_is_empty w \<longleftrightarrow> mw_start_ns w > mw_end_ns w"

definition window_contains :: "metadata_window \<Rightarrow> int \<Rightarrow> bool" where
  "window_contains w ts \<longleftrightarrow> ts \<ge> mw_start_ns w \<and> ts \<le> mw_end_ns w"

definition window_overlaps :: "metadata_window \<Rightarrow> int \<Rightarrow> int \<Rightarrow> bool" where
  "window_overlaps w min_ts max_ts \<longleftrightarrow> max_ts \<ge> mw_start_ns w \<and> min_ts \<le> mw_end_ns w"

subsection \<open>The buffers\<close>

type_synonym snapshot = "(tenant_id \<times> log_entry list) list"

record memtable =
  mt_inner :: snapshot
  mt_flushing :: "snapshot option"
  mt_inner_bytes :: nat
  mt_flushing_bytes :: nat

definition memtable_new :: memtable where
  "memtable_new = \<lparr>mt_inner = [], mt_flushing = None, mt_inner_bytes = 0, mt_flushing_bytes = 0\<rparr>"

fun dedup_names :: "(string \<times> string) list \<Rightarrow> (string \<times> string) list" where
  "dedup_names (p # q # ps) = (if fst p = fst q then dedup_names (p # ps) else p # dedup_names (q # ps))"
| "dedup_names ps = ps"

definition canonicalize_structured_metadata :: "(string \<times> string) list \<Rightarrow> (string \<times> string) list" where
  "canonicalize_structured_metadata pairs =
     (if sorted_wrt (\<lambda>p q. fst p < fst q) pairs then pairs else dedup_names (sort_key fst pairs))"

definition canonical_entry :: "log_entry \<Rightarrow> log_entry" where
  "canonical_entry e = e\<lparr>le_metadata := canonicalize_structured_metadata (le_metadata e)\<rparr>"

definition entry_bytes :: "log_entry \<Rightarrow> nat" where
  "entry_bytes e = length (le_line e) + sum_list (map (\<lambda>(n, v). length n + length v) (le_metadata e))"

definition entries_bytes :: "log_entry list \<Rightarrow> nat" where "entries_bytes es = sum_list (map entry_bytes es)"

definition snapshot_bytes :: "snapshot \<Rightarrow> nat" where "snapshot_bytes s = sum_list (map (\<lambda>(_, es). entries_bytes es) s)"

definition entries_of :: "snapshot \<Rightarrow> tenant_id \<Rightarrow> log_entry list" where
  "entries_of s t = (case map_of s t of None \<Rightarrow> [] | Some es \<Rightarrow> es)"

definition merge_snapshot :: "snapshot \<Rightarrow> snapshot \<Rightarrow> snapshot" where
  "merge_snapshot to src = fold (\<lambda>(t, es) s. AList.update t (entries_of s t @ es) s) src to"

definition memtable_insert :: "tenant_id \<Rightarrow> log_entry list \<Rightarrow> memtable \<Rightarrow> memtable" where
  "memtable_insert t entries m =
     (let es = map canonical_entry entries; delta = entries_bytes es
      in m\<lparr>mt_inner := AList.update t (entries_of (mt_inner m) t @ es) (mt_inner m), mt_inner_bytes := mt_inner_bytes m + delta\<rparr>)"

definition begin_flush :: "memtable \<Rightarrow> snapshot \<times> memtable" where
  "begin_flush m =
     (let moved = mt_inner_bytes m;
          snap = (case mt_flushing m of None \<Rightarrow> mt_inner m | Some previous \<Rightarrow> merge_snapshot (mt_inner m) previous)
      in (snap, m\<lparr>mt_inner := [], mt_inner_bytes := 0, mt_flushing := Some snap, mt_flushing_bytes := mt_flushing_bytes m + moved\<rparr>))"

definition commit_flush :: "memtable \<Rightarrow> memtable" where
  "commit_flush m = m\<lparr>mt_flushing := None, mt_flushing_bytes := 0\<rparr>"

definition abort_flush :: "snapshot \<Rightarrow> memtable \<Rightarrow> memtable" where
  "abort_flush snap m =
     m\<lparr>mt_flushing := None, mt_inner := merge_snapshot (mt_inner m) snap, mt_flushing_bytes := 0,
       mt_inner_bytes := mt_inner_bytes m + mt_flushing_bytes m\<rparr>"

definition memtable_is_empty :: "memtable \<Rightarrow> bool" where
  "memtable_is_empty m \<longleftrightarrow>
     (if list_ex (\<lambda>(_, es). es \<noteq> []) (mt_inner m) then False
      else (case mt_flushing m of None \<Rightarrow> True | Some snap \<Rightarrow> list_all (\<lambda>(_, es). es = []) snap))"

definition buffers :: "memtable \<Rightarrow> snapshot list" where
  "buffers m = mt_inner m # (case mt_flushing m of None \<Rightarrow> [] | Some snap \<Rightarrow> [snap])"

definition memtable_tenants :: "memtable \<Rightarrow> tenant_id set" where
  "memtable_tenants m = fst ` set (concat (buffers m))"

definition approximate_size :: "memtable \<Rightarrow> nat" where
  "approximate_size m = saturating_add_u64 (mt_inner_bytes m) (mt_flushing_bytes m)"

text \<open>The rows of a tenant in both buffers, the live one first.\<close>

definition tenant_entries :: "memtable \<Rightarrow> tenant_id \<Rightarrow> log_entry list" where
  "tenant_entries m t = concat (map (\<lambda>s. entries_of s t) (buffers m))"

definition memtable_label_names :: "memtable \<Rightarrow> tenant_id \<Rightarrow> metadata_window \<Rightarrow> string list" where
  "memtable_label_names m t w =
     sort (remdups (concat (map (\<lambda>e. map fst (le_metadata e)) (filter (\<lambda>e. window_contains w (le_ts e)) (tenant_entries m t)))))"

definition memtable_label_values :: "memtable \<Rightarrow> tenant_id \<Rightarrow> string \<Rightarrow> metadata_window \<Rightarrow> string list" where
  "memtable_label_values m t name w =
     sort (remdups (concat (map (\<lambda>e. map snd (filter (\<lambda>(n, _). n = name) (le_metadata e)))
       (filter (\<lambda>e. window_contains w (le_ts e)) (tenant_entries m t)))))"

text \<open>The sets of attributes of the rows the matchers take, in the order of a \<open>BTreeSet\<close>.\<close>

definition attribute_set :: "log_entry \<Rightarrow> labels" where
  "attribute_set e = sort_key fst (fold (\<lambda>(n, v). AList.update n v) (le_metadata e) [])"

definition memtable_series :: "memtable \<Rightarrow> tenant_id \<Rightarrow> label_matcher list \<Rightarrow> metadata_window \<Rightarrow> labels list" where
  "memtable_series m t matchers w =
     sort (remdups (filter (\<lambda>s. list_all (\<lambda>lm. label_matches lm s) matchers)
       (map attribute_set (filter (\<lambda>e. window_contains w (le_ts e)) (tenant_entries m t)))))"

definition memtable_global_stats :: "memtable \<Rightarrow> nat \<times> nat" where
  "memtable_global_stats m =
     (let es = concat (map snd (concat (buffers m))) in (length es, sum_list (map (\<lambda>e. length (le_line e)) es)))"

definition memtable_stats :: "memtable \<Rightarrow> tenant_id \<Rightarrow> metadata_window \<Rightarrow> nat \<times> nat" where
  "memtable_stats m t w =
     (let es = filter (\<lambda>e. window_contains w (le_ts e)) (tenant_entries m t)
      in (length es, sum_list (map (\<lambda>e. length (le_line e)) es)))"

subsection \<open>The scan\<close>

text \<open>\<open>cancel n\<close> is what the flag reads before the row behind \<open>n\<close> visited ones; the number is the
  rows visited. A sink that refuses a row ends the query, so what it holds then is of no account.\<close>

fun scan_ordered ::
    "'s row_sink \<Rightarrow> (nat \<Rightarrow> bool) \<Rightarrow> query_time_range \<Rightarrow> line_filter list \<Rightarrow> bool \<Rightarrow> nat option \<Rightarrow> log_entry list \<Rightarrow> nat \<Rightarrow> 's \<Rightarrow>
     string + nat \<times> 's" where
  "scan_ordered ops cancel qr filters forward limit [] n s = Inr (n, s)"
| "scan_ordered ops cancel qr filters forward limit (e # es) n s =
     (if cancel n \<or> beyond_frontier (rs_frontier ops s) forward (le_ts e) \<or> (case limit of None \<Rightarrow> False | Some l \<Rightarrow> n \<ge> l)
      then Inr (n, s)
      else if range_contains qr (le_ts e) \<and> list_all (\<lambda>f. line_matches f (le_line e)) filters then
        (case rs_accept ops [] e s of
           Inl err \<Rightarrow> Inl err
         | Inr s' \<Rightarrow> scan_ordered ops cancel qr filters forward limit es (n + 1) s')
      else scan_ordered ops cancel qr filters forward limit es (n + 1) s)"

definition memtable_scan_into ::
    "'s row_sink \<Rightarrow> (nat \<Rightarrow> bool) \<Rightarrow> memtable \<Rightarrow> tenant_id \<Rightarrow> line_filter list \<Rightarrow> query_time_range \<Rightarrow> bool \<Rightarrow> nat option \<Rightarrow> 's \<Rightarrow>
     string + nat \<times> 's" where
  "memtable_scan_into ops cancel m t filters qr forward limit s =
     (if rs_closed ops s then Inr (0, s)
      else
        (let ordered = sort_key le_ts (tenant_entries m t)
         in scan_ordered ops cancel qr filters forward limit (if forward then ordered else rev ordered) 0 s))"

subsection \<open>What is buffered\<close>

text \<open>The rows of a tenant, as a bag.\<close>

definition buffered :: "memtable \<Rightarrow> tenant_id \<Rightarrow> log_entry multiset" where
  "buffered m t = mset (tenant_entries m t)"

definition memtable_ok :: "memtable \<Rightarrow> bool" where
  "memtable_ok m \<longleftrightarrow>
     (\<forall>s \<in> set (buffers m). distinct (map fst s)) \<and> mt_inner_bytes m = snapshot_bytes (mt_inner m) \<and>
     mt_flushing_bytes m = (case mt_flushing m of None \<Rightarrow> 0 | Some s \<Rightarrow> snapshot_bytes s)"

lemma snapshot_bytes_update:
  "distinct (map fst s) \<Longrightarrow>
   distinct (map fst (AList.update t es s)) \<and> snapshot_bytes (AList.update t es s) + entries_bytes (entries_of s t) = snapshot_bytes s + entries_bytes es"
proof (induction s)
  case Nil
  then show ?case by (simp add: snapshot_bytes_def entries_of_def entries_bytes_def)
next
  case (Cons p s)
  then show ?case by (cases p) (auto simp: snapshot_bytes_def entries_of_def distinct_update update_conv map_of_eq_None_iff [symmetric] split: option.splits)
qed

lemma entries_bytes_append [simp]: "entries_bytes (a @ b) = entries_bytes a + entries_bytes b"
  by (simp add: entries_bytes_def)

lemma entries_of_update: "entries_of (AList.update t es s) t' = (if t' = t then es else entries_of s t')"
  by (simp add: entries_of_def update_conv)

lemma append_entries:
  assumes "distinct (map fst s)"
  shows "distinct (map fst (AList.update t (entries_of s t @ es) s))"
    and "snapshot_bytes (AList.update t (entries_of s t @ es) s) = snapshot_bytes s + entries_bytes es"
  using snapshot_bytes_update [OF assms, of t "entries_of s t @ es"] by simp_all

lemma merge_snapshot_ok:
  assumes "distinct (map fst to)" and "distinct (map fst src)"
  shows "distinct (map fst (merge_snapshot to src)) \<and>
    snapshot_bytes (merge_snapshot to src) = snapshot_bytes to + snapshot_bytes src \<and>
    entries_of (merge_snapshot to src) t = entries_of to t @ entries_of src t"
  using assms unfolding merge_snapshot_def
proof (induction src arbitrary: to)
  case Nil
  then show ?case by (simp add: snapshot_bytes_def entries_of_def)
next
  case (Cons p src)
  obtain t' es where p: "p = (t', es)" by (cases p)
  note a = append_entries [OF Cons.prems(1), of t' es]
  have "t = t' \<Longrightarrow> entries_of src t = []" using Cons.prems(2) p by (simp add: entries_of_def map_of_eq_None_iff [symmetric])
  moreover have "entries_of (p # src) t = (if t = t' then es else entries_of src t)" by (simp add: entries_of_def p)
  ultimately show ?case using Cons.IH [OF a(1)] Cons.prems(2) a(2) p by (auto simp: entries_of_update snapshot_bytes_def)
qed

subsection \<open>Flushes\<close>

text \<open>Pushes and flush passes as they interleave. A pass takes the buffer, and either registers the parts it
  wrote and lets the snapshot go in one step (queries are locked out of it), or gives the snapshot back,
  or is dropped before it could do either. \<open>ms_stored\<close> stands for the rows of the snapshots whose parts were
  registered (a part keeps one of rows alike in all, \<open>RowMerge.sort_rows\<close>), \<open>ms_pushed\<close> for all that were
  ever pushed, as the memtable stores them.\<close>

record memtable_state =
  ms_memtable :: memtable
  ms_pending :: "snapshot option"
  ms_stored :: "tenant_id \<Rightarrow> log_entry multiset"
  ms_pushed :: "tenant_id \<Rightarrow> log_entry multiset"

definition memtable_start :: memtable_state where
  "memtable_start = \<lparr>ms_memtable = memtable_new, ms_pending = None, ms_stored = (\<lambda>_. {#}), ms_pushed = (\<lambda>_. {#})\<rparr>"

inductive memtable_step :: "memtable_state \<Rightarrow> memtable_state \<Rightarrow> bool" where
  push: "memtable_step st (st\<lparr>ms_memtable := memtable_insert t es (ms_memtable st),
     ms_pushed := (ms_pushed st)(t := ms_pushed st t + mset (map canonical_entry es))\<rparr>)"
| flush_begin: "begin_flush (ms_memtable st) = (snap, m) \<Longrightarrow> memtable_step st (st\<lparr>ms_memtable := m, ms_pending := Some snap\<rparr>)"
| flush_commit: "ms_pending st = Some snap \<Longrightarrow>
     memtable_step st (st\<lparr>ms_memtable := commit_flush (ms_memtable st), ms_pending := None,
       ms_stored := (\<lambda>t. ms_stored st t + mset (entries_of snap t))\<rparr>)"
| flush_abort: "ms_pending st = Some snap \<Longrightarrow>
     memtable_step st (st\<lparr>ms_memtable := abort_flush snap (ms_memtable st), ms_pending := None\<rparr>)"
| flush_dropped: "memtable_step st (st\<lparr>ms_pending := None\<rparr>)"

inductive memtable_reachable :: "memtable_state \<Rightarrow> bool" where
  start: "memtable_reachable memtable_start"
| step: "memtable_reachable st \<Longrightarrow> memtable_step st st' \<Longrightarrow> memtable_reachable st'"

inductive_cases memtable_stepE: "memtable_step st st'"

definition memtable_inv :: "memtable_state \<Rightarrow> bool" where
  "memtable_inv st \<longleftrightarrow>
     memtable_ok (ms_memtable st) \<and> (\<forall>t. buffered (ms_memtable st) t + ms_stored st t = ms_pushed st t) \<and>
     (\<forall>snap. ms_pending st = Some snap \<longrightarrow> mt_flushing (ms_memtable st) = Some snap)"

lemma buffers_simps [simp]:
  "mt_flushing m = None \<Longrightarrow> buffers m = [mt_inner m]"
  "mt_flushing m = Some s \<Longrightarrow> buffers m = [mt_inner m, s]"
  by (simp_all add: buffers_def)

lemma insert_ok:
  assumes "memtable_ok m"
  shows "memtable_ok (memtable_insert t es m) \<and>
    buffered (memtable_insert t es m) t' = buffered m t' + (if t' = t then mset (map canonical_entry es) else {#}) \<and>
    mt_flushing (memtable_insert t es m) = mt_flushing m"
proof -
  have d: "distinct (map fst (mt_inner m))" using assms by (auto simp: memtable_ok_def buffers_def)
  note a = append_entries [OF d, of t "map canonical_entry es"]
  show ?thesis using assms a
    by (cases "mt_flushing m") (auto simp: memtable_insert_def Let_def memtable_ok_def buffered_def tenant_entries_def entries_of_update)
qed

lemma begin_ok:
  assumes "memtable_ok m" and "begin_flush m = (snap, m')"
  shows "memtable_ok m' \<and> buffered m' t = buffered m t \<and> mt_flushing m' = Some snap"
proof (cases "mt_flushing m")
  case None
  then show ?thesis using assms
    by (auto simp: begin_flush_def Let_def memtable_ok_def buffered_def tenant_entries_def snapshot_bytes_def entries_of_def)
next
  case (Some previous)
  have d: "distinct (map fst (mt_inner m))" "distinct (map fst previous)" using assms(1) Some by (auto simp: memtable_ok_def)
  show ?thesis using assms Some merge_snapshot_ok [OF d, of t]
    by (auto simp: begin_flush_def Let_def memtable_ok_def buffered_def tenant_entries_def snapshot_bytes_def entries_of_def)
qed

lemma commit_ok:
  assumes "memtable_ok m" and "mt_flushing m = Some snap"
  shows "memtable_ok (commit_flush m) \<and> buffered (commit_flush m) t + mset (entries_of snap t) = buffered m t"
  using assms by (simp add: commit_flush_def memtable_ok_def buffered_def tenant_entries_def)

lemma abort_ok:
  assumes "memtable_ok m" and "mt_flushing m = Some snap"
  shows "memtable_ok (abort_flush snap m) \<and> buffered (abort_flush snap m) t = buffered m t"
proof -
  have d: "distinct (map fst (mt_inner m))" "distinct (map fst snap)" using assms by (auto simp: memtable_ok_def)
  show ?thesis using assms merge_snapshot_ok [OF d, of t]
    by (auto simp: abort_flush_def memtable_ok_def buffered_def tenant_entries_def)
qed

lemma memtable_step_inv:
  assumes "memtable_inv st" and "memtable_step st st'"
  shows "memtable_inv st'"
proof -
  have i: "memtable_ok (ms_memtable st)" "\<And>t. buffered (ms_memtable st) t + ms_stored st t = ms_pushed st t"
    "\<And>snap. ms_pending st = Some snap \<Longrightarrow> mt_flushing (ms_memtable st) = Some snap"
    using assms(1) by (auto simp: memtable_inv_def)
  from assms(2) show ?thesis
  proof cases
    case (push t es)
    then show ?thesis using i insert_ok [OF i(1), of t es] by (auto simp: memtable_inv_def add_ac i(2) [symmetric])
  next
    case (flush_begin snap m)
    then show ?thesis using i begin_ok [OF i(1) flush_begin(2)] by (auto simp: memtable_inv_def)
  next
    case (flush_commit snap)
    have "buffered (commit_flush (ms_memtable st)) t + (ms_stored st t + mset (entries_of snap t)) = ms_pushed st t" for t
      using commit_ok [OF i(1) i(3) [OF flush_commit(2)], of t] i(2) [of t] by (metis add.assoc add.commute)
    then show ?thesis using flush_commit commit_ok [OF i(1) i(3) [OF flush_commit(2)]] by (auto simp: memtable_inv_def)
  next
    case (flush_abort snap)
    then show ?thesis using i abort_ok [OF i(1) i(3) [OF flush_abort(2)]] by (auto simp: memtable_inv_def)
  next
    case flush_dropped
    then show ?thesis using i by (auto simp: memtable_inv_def)
  qed
qed

lemma memtable_reachable_inv: "memtable_reachable st \<Longrightarrow> memtable_inv st"
proof (induction rule: memtable_reachable.induct)
  case start
  then show ?case
    by (simp add: memtable_inv_def memtable_start_def memtable_new_def memtable_ok_def buffered_def tenant_entries_def entries_of_def snapshot_bytes_def)
qed (rule memtable_step_inv)

text \<open>C13: a pushed row is in exactly one place: however pushes and flush passes interleave, with passes
  that fail, give the snapshot back or are dropped, the rows of a tenant in the memtable and those of the
  snapshots written to parts are together exactly the rows it pushed, none lost and none twice, and the size reported is that of the rows.\<close>

theorem pushed_rows_kept_once:
  assumes "memtable_reachable st"
  shows "mset (tenant_entries (ms_memtable st) t) + ms_stored st t = ms_pushed st t \<and>
    approximate_size (ms_memtable st) = min u64_max (sum_list (map snapshot_bytes (buffers (ms_memtable st))))"
  using memtable_reachable_inv [OF assms]
  by (cases "mt_flushing (ms_memtable st)")
    (auto simp: memtable_inv_def buffered_def memtable_ok_def approximate_size_def saturating_add_u64_def min_def)

theorem pushed_rows_kept_once_witness:
  "\<exists>st :: memtable_state. ms_pushed st [1] = {#sample_entry 3 ''a'', sample_entry 4 ''b''#} \<and> ms_stored st [1] = {#sample_entry 3 ''a''#} \<and>
    mset (tenant_entries (ms_memtable st) [1]) + ms_stored st [1] = ms_pushed st [1]"
proof -
  define push1 where "push1 t es st = st\<lparr>ms_memtable := memtable_insert t es (ms_memtable st),
     ms_pushed := (ms_pushed st)(t := ms_pushed st t + mset (map canonical_entry es))\<rparr>" for t es and st :: memtable_state
  define s1 where "s1 = push1 [1] [sample_entry 3 ''a''] memtable_start"
  define s2 where "s2 = s1\<lparr>ms_memtable := snd (begin_flush (ms_memtable s1)), ms_pending := Some (fst (begin_flush (ms_memtable s1)))\<rparr>"
  define s3 where "s3 = push1 [1] [sample_entry 4 ''b''] s2"
  define s4 where "s4 = s3\<lparr>ms_memtable := commit_flush (ms_memtable s3), ms_pending := None,
       ms_stored := (\<lambda>t. ms_stored s3 t + mset (entries_of (fst (begin_flush (ms_memtable s1))) t))\<rparr>"
  have c: "canonical_entry (sample_entry 3 ''a'') = sample_entry 3 ''a''" "canonical_entry (sample_entry 4 ''b'') = sample_entry 4 ''b''"
    by (simp_all add: canonical_entry_def sample_entry_def canonicalize_structured_metadata_def)
  have "memtable_reachable s1" unfolding s1_def push1_def by (rule memtable_reachable.step [OF start push])
  then have "memtable_reachable s2" unfolding s2_def by (rule memtable_reachable.step) (rule flush_begin, simp)
  then have "memtable_reachable s3" unfolding s3_def push1_def by (rule memtable_reachable.step) (rule push)
  then have "memtable_reachable s4" unfolding s4_def
    by (rule memtable_reachable.step) (rule flush_commit, simp add: s3_def s2_def push1_def)
  from pushed_rows_kept_once [OF this, of "[1]"] c show ?thesis
    by (intro exI [of _ s4]) (simp add: s4_def s3_def s2_def s1_def push1_def memtable_start_def memtable_new_def begin_flush_def
      memtable_insert_def entries_of_def Let_def)
qed

text \<open>A scan with neither limit nor cancellation offers the sink every row of the window, in the order of time,
  or leaves out rows that could not enter.\<close>

definition in_scan :: "query_time_range \<Rightarrow> line_filter list \<Rightarrow> log_entry \<Rightarrow> bool" where
  "in_scan qr filters e \<longleftrightarrow> range_contains qr (le_ts e) \<and> list_all (\<lambda>f. line_matches f (le_line e)) filters"

context sink begin

lemma scan_ordered_all:
  assumes "scan_ordered ops (\<lambda>_. False) qr filters forward limit es n s = Inr (n', s')" and "good (length es + k) s"
    and "sorted_wrt (\<lambda>a b. if forward then le_ts a \<le> le_ts b else le_ts b \<le> le_ts a) es"
    and "\<And>l. limit = Some l \<Longrightarrow> n' < l"
  shows "good k s' \<and> view s' = fold takes (map (Pair []) (filter (in_scan qr filters) es)) (view s) \<and> n \<le> n'"
  using assms(1-3)
proof (induction es arbitrary: n s)
  case Nil
  then show ?case by simp
next
  case (Cons e es)
  show ?case
  proof (cases "beyond_frontier (rs_frontier ops s) forward (le_ts e)")
    case True
    then have e: "n' = n" "s' = s" using Cons.prems(1) by simp_all
    have "beyond_frontier (rs_frontier ops s) forward (le_ts x)" if "x \<in> set (e # es)" for x
      using beyond_mono [OF True, of "le_ts x"] that Cons.prems(3) by (auto split: if_splits)
    then have "fold takes (map (Pair []) (filter (in_scan qr filters) (e # es))) (view s) = view s"
      by (intro beyond_all [OF Cons.prems(2)]) (auto split: if_splits)
    then show ?thesis using e good_anti [OF _ Cons.prems(2)] by simp
  next
    case False
    show ?thesis
    proof (cases "case limit of None \<Rightarrow> False | Some l \<Rightarrow> n \<ge> l")
      case True
      then have "n' = n" using Cons.prems(1) False by simp
      then show ?thesis using True assms(4) by (auto split: option.splits)
    next
      case lim: False
      have g: "good (Suc (length es + k)) s" using Cons.prems(2) by simp
      show ?thesis
      proof (cases "in_scan qr filters e")
        case True
        then obtain s1 where s1: "rs_accept ops [] e s = Inr s1" "scan_ordered ops (\<lambda>_. False) qr filters forward limit es (n + 1) s1 = Inr (n', s')"
          using Cons.prems(1) False lim by (auto simp: in_scan_def split: sum.splits)
        note a = accept_good [OF g s1(1)]
        then show ?thesis using Cons.IH [OF s1(2)] Cons.prems(3) True by simp
      next
        case no: False
        then have "scan_ordered ops (\<lambda>_. False) qr filters forward limit es (n + 1) s = Inr (n', s')"
          using Cons.prems(1) False lim by (auto simp: in_scan_def)
        then show ?thesis using Cons.IH [of "n + 1" s] good_less [OF g] Cons.prems(3) no by simp
      qed
    qed
  qed
qed

end

end
