(* ===== verification/LogQLLaws.thy ===== *)
theory LogQLLaws
  imports LogQL
begin

text \<open>
  Every equality a query hands down to the storage holds of each row its pipeline accepts: the field it
  names has the value in the pushed metadata, or the parser takes it from the line, and the writer of a
  part indexes both. Decimals compare equal only when they are written the same in canonical form.
\<close>

subsection \<open>Decimals\<close>

definition decimal_ok :: "decimal \<Rightarrow> bool" where
  "decimal_ok d \<longleftrightarrow> (if dc_coefficient d = 0 then dc_scale d = 0 else dc_coefficient d mod 10 \<noteq> 0)"

lemma strip_tens_ok:
  "strip_tens c s = (c', s') \<Longrightarrow> c \<noteq> 0 \<Longrightarrow> c' \<noteq> 0 \<and> c' mod 10 \<noteq> 0"
proof (induction c s rule: strip_tens.induct)
  case (1 c s)
  then show ?case by (cases "c mod 10 = 0") (auto simp: strip_tens.simps [of c s])
qed

lemma digit_sum_mono: "foldl (\<lambda>a c. 10 * a + (of_char c - 48)) a s \<ge> (a :: nat)"
proof (induction s arbitrary: a)
  case (Cons c s)
  have "a \<le> 10 * a + (of_char c - 48)" by simp
  then show ?case using Cons [of "10 * a + (of_char c - 48)"] by (simp del: foldl_Cons add: foldl_Cons)
qed simp

lemma digit_above: "is_digit c \<Longrightarrow> c \<noteq> CHR ''0'' \<Longrightarrow> 48 < (of_char c :: nat)"
proof -
  assume a: "is_digit c" "c \<noteq> CHR ''0''"
  have "(of_char c :: nat) \<noteq> of_char (CHR ''0'')" using a(2) by (simp only: of_char_eq_iff not_False_eq_True)
  then have "(of_char c :: nat) \<noteq> 48" by simp
  then show ?thesis using a(1) by (auto simp: is_digit_def digit_val_def split: if_splits)
qed

lemma digit_sum_pos: "is_digit c \<Longrightarrow> c \<noteq> CHR ''0'' \<Longrightarrow> 0 < digit_sum (c # s)"
  using digit_sum_mono [of "of_char c - 48" s] digit_above [of c] by (simp add: digit_sum_def)

lemma decimal_of_ok:
  assumes "decimal_of negative i f exponent = Some d" and "list_all is_digit i" and "list_all is_digit f"
  shows "decimal_ok d"
proof -
  define digits where "digits = dropWhile (\<lambda>c. c = CHR ''0'') (i @ f)"
  show ?thesis
  proof (cases "digits = []")
    case True
    then show ?thesis using assms(1) unfolding decimal_of_def digits_def [symmetric] by (auto simp: decimal_ok_def)
  next
    case False
    then obtain c cs where c: "digits = c # cs" by (cases digits) auto
    have "c \<noteq> CHR ''0''" using hd_dropWhile [of "\<lambda>c. c = CHR ''0''" "i @ f"] False c by (simp add: digits_def [symmetric])
    moreover have "is_digit c" using assms(2,3) c set_dropWhileD [of c "\<lambda>c. c = CHR ''0''" "i @ f"]
      by (auto simp: digits_def [symmetric] list_all_iff)
    ultimately have "0 < digit_sum digits" unfolding c by (intro digit_sum_pos)
    then have m: "parse_digits (2 ^ 128 - 1) digits = Some m \<Longrightarrow> 0 < m" for m by (auto simp: parse_digits_def split: if_splits)
    show ?thesis
      using assms(1) False m unfolding decimal_of_def digits_def [symmetric] Let_def
      by (auto simp: decimal_ok_def split: option.splits if_splits prod.splits dest!: strip_tens_ok)
  qed
qed

lemma split_once_parts: "split_once p s = Some (a, b) \<Longrightarrow> \<exists>c. s = a @ c # b \<and> p c"
  by (induction s arbitrary: a) (auto split: if_splits)

lemma split_decimal_digits:
  assumes "split_decimal m = Some (negative, i, f)"
  shows "list_all is_digit i \<and> list_all is_digit f"
proof -
  obtain n t where "(case m of [] \<Rightarrow> (False, []) | c # cs \<Rightarrow>
      if c = CHR ''-'' then (True, cs) else if c = CHR ''+'' then (False, cs) else (False, m)) = (n, t)" by fastforce
  then show ?thesis using assms unfolding split_decimal_def by (auto split: option.splits if_splits)
qed

lemma decimal_parse_ok:
  assumes "decimal_parse s = Some d"
  shows "decimal_ok d"
proof -
  from assms obtain m x negative i f where "split_decimal m = Some (negative, i, f)" "decimal_of negative i f x = Some d"
    unfolding decimal_parse_def Let_def by (auto split: option.splits if_splits)
  then show ?thesis using decimal_of_ok split_decimal_digits by blast
qed

lemma abs_mod_10: "c mod 10 \<noteq> 0 \<Longrightarrow> nat \<bar>c\<bar> mod 10 \<noteq> 0"
proof -
  assume c: "c mod 10 \<noteq> 0"
  have "int (nat \<bar>c\<bar> mod 10) = \<bar>c\<bar> mod 10" by (simp add: zmod_int)
  moreover have "\<bar>c\<bar> mod 10 \<noteq> 0" using c by presburger
  ultimately show ?thesis by linarith
qed

lemma last_show_nat: "n mod 10 \<noteq> 0 \<Longrightarrow> last (show_nat n) \<noteq> CHR ''0''"
proof -
  assume a: "n mod 10 \<noteq> 0"
  have "digit_char (n mod 10) \<noteq> CHR ''0''"
  proof
    assume "digit_char (n mod 10) = CHR ''0''"
    then have "Some (n mod 10) = digit_val (CHR ''0'')" by (metis digit_val_char mod_less_divisor zero_less_numeral)
    then show False using a by (simp add: digit_val_def)
  qed
  then show ?thesis by (cases "n < 10") (simp_all add: show_nat.simps [of n])
qed

lemma compare_padded_Equal:
  "compare_padded a b = Equal \<Longrightarrow> (a \<noteq> [] \<Longrightarrow> last a \<noteq> CHR ''0'') \<Longrightarrow> (b \<noteq> [] \<Longrightarrow> last b \<noteq> CHR ''0'') \<Longrightarrow> a = b"
proof (induction a b rule: compare_padded.induct)
  case (2 b bs)
  then show ?case by (cases "bs = []") (auto simp: compare_to_def split: if_splits)
next
  case (3 a as)
  then show ?case by (cases "as = []") (auto simp: compare_to_def split: if_splits)
next
  case (4 a as b bs)
  then show ?case by (auto simp: compare_to_def split: if_splits)
qed simp

lemma compare_to_Equal: "compare_to a b = Equal \<longleftrightarrow> a = b"
  by (auto simp: compare_to_def)

lemma reversed_Equal: "reversed r = Equal \<longleftrightarrow> r = Equal"
  by (cases r) auto

lemma decimal_cmp_Equal:
  assumes "decimal_cmp a b = Equal" and "decimal_ok a" and "decimal_ok b"
  shows "a = b"
proof (cases "dc_coefficient a = 0 \<or> dc_coefficient b = 0")
  case True
  then show ?thesis using assms by (auto simp: decimal_cmp_def decimal_ok_def compare_to_Equal)
next
  case False
  define da where "da = show_nat (nat \<bar>dc_coefficient a\<bar>)"
  define db where "db = show_nat (nat \<bar>dc_coefficient b\<bar>)"
  have sg: "(dc_coefficient a < 0) = (dc_coefficient b < 0)"
    using assms(1) False by (auto simp: decimal_cmp_def compare_to_def split: if_splits)
  then have eq: "(case compare_to (int (length da) - dc_scale a) (int (length db) - dc_scale b) of
      Equal \<Rightarrow> compare_padded da db | order \<Rightarrow> order) = Equal"
    using assms(1) False unfolding decimal_cmp_def Let_def da_def db_def by (simp add: reversed_Equal split: if_splits)
  then have l: "int (length da) - dc_scale a = int (length db) - dc_scale b" "compare_padded da db = Equal"
    by (auto simp: compare_to_Equal split: ordering.splits)
  have "nat \<bar>dc_coefficient a\<bar> mod 10 \<noteq> 0" "nat \<bar>dc_coefficient b\<bar> mod 10 \<noteq> 0"
    using assms(2,3) False abs_mod_10 by (auto simp: decimal_ok_def)
  then have "da = db" using compare_padded_Equal [OF l(2)] last_show_nat unfolding da_def db_def by blast
  then have "nat \<bar>dc_coefficient a\<bar> = nat \<bar>dc_coefficient b\<bar>" unfolding da_def db_def by (metis digit_sum_show_nat)
  then have "dc_coefficient a = dc_coefficient b" using sg by linarith
  then show ?thesis using l(1) \<open>da = db\<close> by (simp add: decimal.equality)
qed

subsection \<open>Where the fields of a row come from\<close>

text \<open>Pushed metadata, or what a parser takes from the line when the metadata has no such name.\<close>

definition field_from :: "fields \<Rightarrow> fields \<Rightarrow> fields \<Rightarrow> string \<Rightarrow> string \<Rightarrow> bool" where
  "field_from md js lf n v \<longleftrightarrow>
     (case map_of md n of Some w \<Rightarrow> v = w | None \<Rightarrow> (n, v) \<in> set js \<or> (n, v) \<in> set lf)"

definition error_names :: "string set" where "error_names = {parser_error_field, parser_error_details_field}"

definition fields_ok :: "bool \<Rightarrow> fields \<Rightarrow> fields \<Rightarrow> fields \<Rightarrow> fields \<Rightarrow> bool" where
  "fields_ok seen md js lf fs \<longleftrightarrow>
     (\<forall>n v. map_of fs n = Some v \<longrightarrow> n \<in> error_names \<or> seen \<and> may_be_synthesized n \<or> field_from md js lf n v)"

lemma fields_ok_mono:
  "fields_ok seen md js lf fs \<Longrightarrow> set js \<subseteq> set js' \<Longrightarrow> set lf \<subseteq> set lf' \<Longrightarrow> (seen \<longrightarrow> seen') \<Longrightarrow> fields_ok seen' md js' lf' fs"
  unfolding fields_ok_def field_from_def by (fastforce split: option.splits)

lemma add_metadata_map:
  "map_of (fst (fold add_metadata ps (fs, sfx))) n = (case map_of fs n of Some v \<Rightarrow> Some v | None \<Rightarrow> map_of ps n)"
proof (induction ps arbitrary: fs sfx)
  case (Cons p ps)
  then show ?case by (cases p) (auto simp: add_metadata_def update_conv split: option.splits)
qed (simp split: option.splits)

lemma rsplit_tail: "rsplit_once pat b = Some r \<Longrightarrow> rsplit_once pat (x @ b) = Some (x @ fst r, snd r)"
  by (induction x) auto

lemma rsplit_digits: "list_all is_digit ds \<Longrightarrow> rsplit_once ''_extracted_'' ds = None"
proof (induction ds)
  case (Cons d ds)
  have "\<not> is_digit (CHR ''_'')" by (simp add: is_digit_def digit_val_def)
  then show ?case using Cons by (auto simp: starts_with_def)
qed simp

lemma rsplit_suffix:
  assumes "list_all is_digit ds"
  shows "rsplit_once ''_extracted_'' (''_extracted_'' @ ds) = Some ([], ds)"
proof -
  have "\<not> is_digit c" if "c \<in> set ''extracted_''" for c using that by (auto simp: is_digit_def digit_val_def)
  then have "take 1 ds \<noteq> ''e''" using assms by (cases ds) auto
  then have "\<not> starts_with (''_'' @ ds) ''_extracted_''" by (cases ds) (auto simp: starts_with_def)
  then show ?thesis using rsplit_digits [OF assms] by (simp add: starts_with_def)
qed

lemma is_digit_show_nat: "list_all is_digit (show_nat n)"
proof (induction n rule: show_nat.induct)
  case (1 n)
  have "is_digit (digit_char d)" if "d < 10" for d using that by (simp add: is_digit_def)
  then show ?case using 1 by (cases "n < 10") (simp_all add: show_nat.simps [of n])
qed

lemma strip_suffix_ends: "strip_suffix (t @ p) p \<noteq> None"
  using strip_suffix_append by auto

lemma synthesized: "may_be_synthesized (name @ ''_extracted'')" "may_be_synthesized (suffixed (name @ ''_extracted'') k)"
proof -
  show "may_be_synthesized (name @ ''_extracted'')" unfolding may_be_synthesized_def using strip_suffix_ends by blast
  have "suffixed (name @ ''_extracted'') k = name @ (''_extracted_'' @ show_nat k)" by (simp add: suffixed_def)
  then have "rsplit_once ''_extracted_'' (suffixed (name @ ''_extracted'') k) = Some (name, show_nat k)"
    using rsplit_tail [OF rsplit_suffix [OF is_digit_show_nat]] by simp
  then show "may_be_synthesized (suffixed (name @ ''_extracted'') k)"
    unfolding may_be_synthesized_def using is_digit_show_nat show_nat_hd by simp
qed

lemma first_free_suffixed: "\<exists>j. fst (first_free fs base k) = suffixed base j"
  by (induction fs base k rule: first_free.induct) (subst first_free.simps, auto)

lemma insert_extracted_cases:
  "(map_of fs name = None \<and> fst (insert_extracted name v (fs, sfx)) = AList.update name v fs) \<or>
   (\<exists>c. may_be_synthesized c \<and> map_of fs name \<noteq> None \<and> fst (insert_extracted name v (fs, sfx)) = AList.update c v fs)"
proof (cases "map_of fs name = None")
  case False
  define base where "base = name @ ''_extracted''"
  define k where "k = (case map_of sfx base of None \<Rightarrow> 2 | Some k \<Rightarrow> k)"
  define c where "c = (if base \<in> fst ` set fs then fst (first_free fs base k) else base)"
  have "may_be_synthesized c" using synthesized first_free_suffixed [of fs base k] by (auto simp: c_def base_def)
  moreover have "fst (insert_extracted name v (fs, sfx)) = AList.update c v fs"
    using False unfolding insert_extracted_def c_def k_def base_def by (auto simp: Let_def split: prod.splits)
  ultimately show ?thesis using False by blast
qed (simp add: insert_extracted_def)

lemma fields_ok_update:
  assumes "fields_ok seen md js lf fs" and "c \<in> error_names \<or> seen \<and> may_be_synthesized c \<or> field_from md js lf c v"
  shows "fields_ok seen md js lf (AList.update c v fs)"
  unfolding fields_ok_def update_conv using assms by (metis fields_ok_def fun_upd_apply option.inject)

lemma insert_extracted_ok:
  assumes "fields_ok True md js lf fs" and "map_of md name = None" and "(name, v) \<in> set js \<or> (name, v) \<in> set lf"
  shows "fields_ok True md js lf (fst (insert_extracted name v (fs, sfx)))"
proof -
  have "field_from md js lf name v" using assms(2,3) by (simp add: field_from_def)
  then show ?thesis using insert_extracted_cases [of fs name v sfx] fields_ok_update [OF assms(1)] by auto
qed

lemma merge_extracted_ok:
  assumes "fields_ok True md js lf fs" and "set xs \<subseteq> set js \<union> set lf"
  shows "fields_ok True md js lf (fst (merge_extracted (fst ` set md) xs (fs, sfx)))"
proof -
  have "fields_ok True md js lf (fst (fold (\<lambda>(name, v) acc. if name \<in> fst ` set md then acc else insert_extracted name v acc) ys acc))"
    if "fields_ok True md js lf (fst acc)" "set ys \<subseteq> set js \<union> set lf" for ys acc
    using that
  proof (induction ys arbitrary: acc)
    case (Cons y ys)
    obtain n v where y: "y = (n, v)" by (cases y)
    show ?case
    proof (cases "n \<in> fst ` set md")
      case False
      then have "map_of md n = None" by (simp add: map_of_eq_None_iff)
      then have "fields_ok True md js lf (fst (insert_extracted n v acc))"
        using insert_extracted_ok [of md js lf "fst acc" n v "snd acc"] Cons.prems y by auto
      then show ?thesis using Cons False y by simp
    qed (use Cons y in simp)
  qed simp
  from this [of "(fs, sfx)" "sort_key fst xs"] show ?thesis using assms by (simp add: merge_extracted_def)
qed

lemma logfmt_needs_equals:
  assumes "extract_logfmt line = Some fs" and "CHR ''='' \<notin> set line"
  shows "fs = []"
proof (cases "dropWhile is_ascii_whitespace line = []")
  case True
  then show ?thesis using assms(1) by (simp add: extract_logfmt_def extract_logfmt_loop.simps [of line])
next
  case False
  define s where "s = dropWhile is_ascii_whitespace line"
  define rest where "rest = dropWhile (\<lambda>c. \<not> is_ascii_whitespace c \<and> c \<noteq> CHR ''='') s"
  have "set rest \<subseteq> set line" unfolding rest_def s_def by (meson set_dropWhileD subsetI)
  then have "rest = [] \<or> hd rest \<noteq> CHR ''=''" using assms(2) by (cases rest) auto
  then have "extract_logfmt line = None"
    using False unfolding extract_logfmt_def extract_logfmt_loop.simps [of line] Let_def s_def [symmetric] rest_def [symmetric]
    by (cases rest) auto
  then show ?thesis using assms(1) by simp
qed

lemma set_parser_error_ok:
  assumes "set_parser_error err details (e, fs) = (e', fs')" and "fields_ok seen md js lf fs"
  shows "fields_ok seen md js lf fs' \<and> le_line e' = le_line e \<and> le_ts e' = le_ts e"
  using assms by (auto simp: set_parser_error_def error_names_def intro!: fields_ok_update)

definition json_fields :: "(string \<Rightarrow> json option) \<Rightarrow> string \<Rightarrow> fields" where
  "json_fields parse line = (case extract_json parse line of None \<Rightarrow> [] | Some fs \<Rightarrow> fs)"

definition logfmt_fields :: "string \<Rightarrow> fields" where
  "logfmt_fields line = (case extract_logfmt line of None \<Rightarrow> [] | Some fs \<Rightarrow> fs)"

lemma indexed_logfmt: "indexed_logfmt_fields line = logfmt_fields line"
  using logfmt_needs_equals [of line] by (auto simp: indexed_logfmt_fields_def logfmt_fields_def split: option.splits)

text \<open>What a predicate says of the row it was taken from.\<close>

definition predicate_holds :: "(string \<Rightarrow> json option) \<Rightarrow> log_entry \<Rightarrow> exact_field_predicate \<Rightarrow> bool" where
  "predicate_holds parse e p \<longleftrightarrow>
     (\<exists>v. field_from (le_metadata e) (if ep_may_be_extracted p then json_fields parse (le_line e) else [])
         (if ep_may_be_extracted p \<and> \<not> ep_json_only p then logfmt_fields (le_line e) else []) (ep_name p) v \<and>
       (if ep_canonical p then ep_value p \<in> set (canonical_index_values v) else v = ep_value p))"

lemma canonical_members:
  "v \<in> set (canonical_index_values v)"
  "decimal_parse v = Some d \<Longrightarrow> canonical_string d \<in> set (canonical_index_values v)"
  "parse_duration_ns v = Inr n \<Longrightarrow> show_int n \<in> set (canonical_index_values v)"
  by (simp_all add: canonical_index_values_def set_insort_key)

text \<open>A field filter that accepts and the predicate taken from it.\<close>

lemma lookup_Some: "lookup_or_empty fs n \<noteq> [] \<Longrightarrow> map_of fs n = Some (lookup_or_empty fs n)"
  by (auto simp: lookup_or_empty_def split: option.splits)

lemma parse_empty: "decimal_parse [] = None" "parse_duration_ns [] = Inl EmptyDuration"
proof -
  have "find (\<lambda>w. w \<noteq> [] \<and> starts_with [] w) ws = None" for ws :: "string list" by (auto simp: find_None_iff starts_with_def)
  then have "strip_leading ws [] = []" for ws by (simp add: strip_leading.simps [of ws])
  then have "trim_text [] = []" by (simp add: trim_text_def)
  then show "decimal_parse [] = None" "parse_duration_ns [] = Inl EmptyDuration"
    by (simp_all add: decimal_parse_def parse_duration_ns_def)
qed

lemma field_predicate_matches:
  assumes "field_predicate seen json_only f = Some p" and "field_matches f fs" and "ep_value p \<noteq> []"
    and "\<And>d. ff_value f = NumberValue d \<Longrightarrow> decimal_ok d"
  shows "map_of fs (ep_name p) = Some (lookup_or_empty fs (ff_name f)) \<and>
    (if ep_canonical p then ep_value p \<in> set (canonical_index_values (lookup_or_empty fs (ff_name f)))
     else lookup_or_empty fs (ff_name f) = ep_value p) \<and>
    ep_name p = ff_name f \<and> ep_may_be_extracted p = seen \<and> ep_json_only p = (seen \<and> json_only) \<and>
    ep_name p \<notin> error_names \<and> (seen \<longrightarrow> \<not> may_be_synthesized (ep_name p))"
proof -
  define actual where "actual = lookup_or_empty fs (ff_name f)"
  have p: "ff_op f = OpEq" "ep_name p = ff_name f" "ep_may_be_extracted p = seen" "ep_json_only p = (seen \<and> json_only)"
    "ep_name p \<notin> error_names" "seen \<longrightarrow> \<not> may_be_synthesized (ep_name p)"
    using assms(1) by (auto simp: field_predicate_def error_names_def split: if_splits)
  have "actual \<noteq> [] \<and> (if ep_canonical p then ep_value p \<in> set (canonical_index_values actual) else actual = ep_value p)"
  proof (cases "ff_value f")
    case (StringValue v)
    then have "ep_value p = v" "\<not> ep_canonical p" using assms(1) by (auto simp: field_predicate_def split: if_splits)
    then show ?thesis using assms(2,3) p(1) StringValue by (simp add: field_matches_def actual_def)
  next
    case (RegexValue re)
    then show ?thesis using assms(1) by (simp add: field_predicate_def split: if_splits)
  next
    case (NumberValue d)
    then have e: "ep_value p = canonical_string d" "ep_canonical p" using assms(1) by (auto simp: field_predicate_def split: if_splits)
    obtain d' where d': "decimal_parse actual = Some d'" "decimal_cmp d' d = Equal"
      using assms(2) p(1) NumberValue
      by (auto simp: field_matches_def actual_def compare_decimal_def by_order_def split: option.splits)
    then have "d' = d" using decimal_cmp_Equal decimal_parse_ok assms(4) [OF NumberValue] by blast
    moreover have "actual \<noteq> []" using d'(1) parse_empty by auto
    ultimately show ?thesis using canonical_members(2) d'(1) e by simp
  next
    case (DurationValue d)
    then have e: "ep_value p = show_int d" "ep_canonical p" using assms(1) by (auto simp: field_predicate_def split: if_splits)
    have d': "parse_duration_ns actual = Inr d"
      using assms(2) p(1) DurationValue by (auto simp: field_matches_def actual_def compare_ordered_def split: sum.splits)
    moreover have "actual \<noteq> []" using d' parse_empty by auto
    ultimately show ?thesis using canonical_members(3) e by simp
  qed
  moreover from this have "map_of fs (ff_name f) = Some actual" using lookup_Some by (simp add: actual_def)
  ultimately show ?thesis using p unfolding actual_def [symmetric] by simp
qed

lemma predicate_holds_field:
  assumes "fields_ok seen (le_metadata e) (if seen then json_fields parse (le_line e) else [])
      (if seen \<and> \<not> json_only then logfmt_fields (le_line e) else []) fs"
    and "field_predicate seen json_only f = Some p" and "field_matches f fs" and "ep_value p \<noteq> []"
    and "\<And>d. ff_value f = NumberValue d \<Longrightarrow> decimal_ok d"
  shows "predicate_holds parse e p"
proof -
  define v where "v = lookup_or_empty fs (ff_name f)"
  note p = field_predicate_matches [OF assms(2-5), folded v_def]
  have "field_from (le_metadata e) (if seen then json_fields parse (le_line e) else [])
      (if seen \<and> \<not> json_only then logfmt_fields (le_line e) else []) (ep_name p) v"
    using assms(1) p unfolding fields_ok_def by blast
  moreover have "ep_may_be_extracted p = seen" "(seen \<and> \<not> ep_json_only p) = (seen \<and> \<not> json_only)" using p by auto
  ultimately show ?thesis using p unfolding predicate_holds_def by (intro exI [of _ v]) simp
qed

definition numbers_parsed :: "pipeline_stage list \<Rightarrow> bool" where
  "numbers_parsed stages \<longleftrightarrow>
     list_all (\<lambda>stage. case stage of FieldStage f \<Rightarrow> (case ff_value f of NumberValue d \<Rightarrow> decimal_ok d | _ \<Rightarrow> True) | _ \<Rightarrow> True) stages"

lemma run_stages_predicates:
  assumes "run_stages parse pre (fst ` set (le_metadata row)) stages (e, fs, sfx) = Some out"
    and "le_line e = le_line row" and "pre = None \<or> pre = extract_json parse (le_line row)" and "numbers_parsed stages"
    and "fields_ok seen (le_metadata row) (if seen then json_fields parse (le_line row) else [])
      (if seen \<and> \<not> json_only then logfmt_fields (le_line row) else []) fs"
  shows "\<forall>p \<in> set (stage_predicates seen json_only stages). ep_value p \<noteq> [] \<longrightarrow> predicate_holds parse row p"
  using assms(1,2,4,5)
proof (induction stages arbitrary: e fs sfx seen json_only)
  case (Cons stage stages)
  define md js lf where "md = le_metadata row" and "js = json_fields parse (le_line row)" and "lf = logfmt_fields (le_line row)"
  obtain e1 fs1 sfx1 where step: "pipeline_step parse pre (fst ` set md) stage (e, fs, sfx) = Some (e1, fs1, sfx1)"
    and rest: "run_stages parse pre (fst ` set md) stages (e1, fs1, sfx1) = Some out"
    using Cons.prems(1) by (auto simp: bind_eq_Some_conv md_def)
  have nums: "numbers_parsed stages" using Cons.prems(3) by (simp add: numbers_parsed_def)
  note ok = Cons.prems(4) [folded md_def js_def lf_def]
  show ?case
  proof (cases stage)
    case (LineStage f)
    then show ?thesis using Cons.IH [OF rest [unfolded md_def] _ nums] step Cons.prems by (auto simp: pipeline_step_def split: if_splits)
  next
    case JsonStage
    have ok1: "fields_ok True md js (if \<not> json_only then lf else []) fs" by (rule fields_ok_mono [OF ok]) auto
    have "fields_ok True md js (if \<not> json_only then lf else []) fs1 \<and> le_line e1 = le_line row"
    proof (cases "extract_json parse (le_line row)")
      case None
      then show ?thesis using step JsonStage assms(3) Cons.prems(2) set_parser_error_ok [OF _ ok1]
        by (auto simp: pipeline_step_def split: option.splits prod.splits)
    next
      case (Some xs)
      then have "merge_extracted (fst ` set md) xs (fs, sfx) = (fs1, sfx1)" "e1 = e"
        using step JsonStage assms(3) Cons.prems(2) by (auto simp: pipeline_step_def split: option.splits)
      moreover have "xs = js" using Some by (simp add: js_def json_fields_def)
      ultimately show ?thesis using merge_extracted_ok [OF ok1, of xs sfx] Cons.prems(2) by auto
    qed
    then have k: "fields_ok True (le_metadata row) (json_fields parse (le_line row))
        (if \<not> json_only then logfmt_fields (le_line row) else []) fs1" "le_line e1 = le_line row"
      unfolding md_def js_def lf_def by blast+
    then show ?thesis using Cons.IH [OF rest [unfolded md_def] k(2) nums, of True json_only] JsonStage by simp
  next
    case LogfmtStage
    have ok1: "fields_ok True md js lf fs" by (rule fields_ok_mono [OF ok]) auto
    have "fields_ok True md js lf fs1 \<and> le_line e1 = le_line row"
    proof (cases "extract_logfmt (le_line row)")
      case None
      then show ?thesis using step LogfmtStage Cons.prems(2) set_parser_error_ok [OF _ ok1]
        by (auto simp: pipeline_step_def split: option.splits prod.splits)
    next
      case (Some xs)
      then have "merge_extracted (fst ` set md) xs (fs, sfx) = (fs1, sfx1)" "e1 = e"
        using step LogfmtStage Cons.prems(2) by (auto simp: pipeline_step_def split: option.splits)
      moreover have "xs = lf" using Some by (simp add: lf_def logfmt_fields_def)
      ultimately show ?thesis using merge_extracted_ok [OF ok1, of xs sfx] Cons.prems(2) by auto
    qed
    then show ?thesis using Cons.IH [OF rest [unfolded md_def] _ nums, of True False] LogfmtStage
      by (simp add: md_def js_def lf_def)
  next
    case (FieldStage f)
    have m: "field_matches f fs" "e1 = e" "fs1 = fs" using step FieldStage by (auto simp: pipeline_step_def split: if_splits)
    have d: "decimal_ok d" if "ff_value f = NumberValue d" for d using Cons.prems(3) FieldStage that by (simp add: numbers_parsed_def)
    have tl: "\<forall>p \<in> set (stage_predicates seen json_only stages). ep_value p \<noteq> [] \<longrightarrow> predicate_holds parse row p"
      using Cons.IH [OF rest [unfolded md_def] _ nums] Cons.prems(2,4) m by simp
    show ?thesis
      using tl FieldStage predicate_holds_field [OF Cons.prems(4) _ m(1) _ d] by (auto split: option.splits)
  qed
qed simp

lemma matcher_member:
  "p \<in> set (matcher_predicates ms) \<Longrightarrow> \<exists>m \<in> set ms. lm_op m = MatchEq \<and> lm_value m \<noteq> [] \<and>
     p = \<lparr>ep_name = lm_name m, ep_value = lm_value m, ep_may_be_extracted = False, ep_canonical = False, ep_json_only = False\<rparr>"
  by (induction ms) (auto simp: matcher_predicates_def split: matcher_op.splits if_splits)

lemma matcher_holds:
  assumes "list_all (\<lambda>m. label_matches m fs) ms" and "p \<in> set (matcher_predicates ms)" and "\<And>n. map_of fs n = map_of (le_metadata e) n"
  shows "predicate_holds parse e p"
proof -
  obtain m where m: "m \<in> set ms" "lm_op m = MatchEq" "lm_value m \<noteq> []"
    "p = \<lparr>ep_name = lm_name m, ep_value = lm_value m, ep_may_be_extracted = False, ep_canonical = False, ep_json_only = False\<rparr>"
    using matcher_member [OF assms(2)] by blast
  have "lookup_or_empty fs (lm_name m) = lm_value m" using assms(1) m by (auto simp: list_all_iff label_matches_def)
  then have "map_of fs (lm_name m) = Some (lm_value m)" using lookup_Some [of fs "lm_name m"] m(3) by simp
  then have "field_from (le_metadata e) [] [] (lm_name m) (lm_value m)" using assms(3) by (simp add: field_from_def)
  then show ?thesis by (simp add: predicate_holds_def m(4))
qed

lemma exact_predicates_hold:
  assumes "process_entry parse q [] pre e = Some e'" and "pre = None \<or> pre = extract_json parse (le_line e)"
    and "numbers_parsed (lq_stages q)" and "p \<in> set (exact_field_predicates q)" and "ep_value p \<noteq> []"
  shows "predicate_holds parse e p"
proof -
  obtain fs sfx where fs: "fold add_metadata (le_metadata e) ([], []) = (fs, sfx)" by fastforce
  have m: "map_of fs n = map_of (le_metadata e) n" for n using add_metadata_map [of "le_metadata e" "[]" "[]" n] fs by simp
  have sh: "fst ` set (filter (\<lambda>(n, _). map_of [] n = None) (le_metadata e)) = fst ` set (le_metadata e)" by force
  have r: "list_all (\<lambda>m. label_matches m fs) (lq_matchers q)"
    "run_stages parse pre (fst ` set (le_metadata e)) (lq_stages q) (e, fs, sfx) \<noteq> None"
    using assms(1) fs sh unfolding process_entry_def by (auto simp: Let_def split: if_splits option.splits)
  then obtain out where out: "run_stages parse pre (fst ` set (le_metadata e)) (lq_stages q) (e, fs, sfx) = Some out" by blast
  have ok: "fields_ok False (le_metadata e) [] [] fs" by (simp add: fields_ok_def field_from_def m)
  show ?thesis
    using assms(4) matcher_holds [OF r(1) _ m] run_stages_predicates [OF out refl assms(2,3), of False True] ok assms(5)
    by (auto simp: exact_field_predicates_def)
qed

lemma predicate_indexed:
  assumes "predicate_holds parse e p"
  shows "(ep_name p, ep_value p) \<in> set (indexed_tokens parse e)"
proof -
  obtain v where v: "field_from (le_metadata e) (json_fields parse (le_line e)) (logfmt_fields (le_line e)) (ep_name p) v"
    "ep_value p \<in> set (canonical_index_values v)"
    using assms canonical_members(1) unfolding predicate_holds_def field_from_def
    by (auto split: if_splits option.splits)
  have "(ep_name p, v) \<in> set (le_metadata e @ json_fields parse (le_line e) @ logfmt_fields (le_line e))"
    using v(1) by (auto simp: field_from_def dest: map_of_SomeD split: option.splits)
  then show ?thesis using v(2) unfolding indexed_tokens_def indexed_logfmt json_fields_def [symmetric] by force
qed

end
