(* ===== verification/Pushdown.thy ===== *)
theory Pushdown
  imports LogQLLaws
begin

text \<open>
  What a log part keeps for the equalities of a query, and how a scan uses it: the tokens of each window
  of rows as a filter in \<open>index.bin\<close> (\<open>part/format.rs\<close>, \<open>part/indexes.rs\<close>), the columns for frequent
  names, and the selection of rows by both (\<open>part/reader.rs\<close>). \<open>None\<close> is an error or a failed assertion.
\<close>

subsection \<open>Tokens and their windows\<close>

definition text_bytes :: "string \<Rightarrow> bytes" where "text_bytes s = map (\<lambda>c. word_of_nat (of_char c)) s"

definition exact_field_token_magic :: bytes where "exact_field_token_magic = [0x46, 0x45, 0x51, 0x31]"

definition exact_field_scalar_scope :: u8 where "exact_field_scalar_scope = 0"

definition bloom_window_rows :: nat where "bloom_window_rows = 1024"

definition max_exact_tokens_per_window :: nat where "max_exact_tokens_per_window = 65536"

definition saturated_window_sentinel :: nat where "saturated_window_sentinel = 2 ^ 32 - 1"

definition encode_exact_field_token :: "string \<Rightarrow> string \<Rightarrow> bytes option" where
  "encode_exact_field_token name v =
     (if length name \<ge> 2 ^ 32 \<or> length v \<ge> 2 ^ 32 then None
      else Some (exact_field_token_magic @ [exact_field_scalar_scope] @ le_nat 4 (length name) @ text_bytes name @
             le_nat 4 (length v) @ text_bytes v))"

definition div_ceil :: "nat \<Rightarrow> nat \<Rightarrow> nat" where "div_ceil a b = (a + b - 1) div b"

text \<open>The tokens of each window of a row group, row by row.\<close>

definition window_tokens :: "(string \<Rightarrow> json option) \<Rightarrow> log_entry list \<Rightarrow> bytes list list option" where
  "window_tokens parse rows =
     those (map (\<lambda>w. those (map (\<lambda>(n, v). encode_exact_field_token n v)
         (concat (map (indexed_tokens parse) (take bloom_window_rows (drop (w * bloom_window_rows) rows))))))
       [0..<div_ceil (length rows) bloom_window_rows])"

definition encode_window :: "float_sizes \<Rightarrow> bytes list \<Rightarrow> bytes option" where
  "encode_window fl tokens =
     (if tokens = [] then Some (le_nat 4 0)
      else if length tokens > max_exact_tokens_per_window then Some (le_nat 4 saturated_window_sentinel)
      else map_option (\<lambda>f. let bs = bloom_encode (fold bloom_insert tokens f) in le_nat 4 (length bs) @ bs)
             (bloom_with_capacity fl (length tokens)))"

text \<open>A line is read as its characters by \<open>chars\<close>. The sizes for the two rates are apart.\<close>

definition encode_group_blooms ::
    "unicode \<Rightarrow> (string \<Rightarrow> ustr) \<Rightarrow> float_sizes \<Rightarrow> float_sizes \<Rightarrow> (string \<Rightarrow> json option) \<Rightarrow> log_entry list \<Rightarrow> bytes option" where
  "encode_group_blooms u chars fl_line fl_exact parse rows =
     (case window_tokens parse rows of
        None \<Rightarrow> None
      | Some ws \<Rightarrow>
          (case line_bloom u fl_line (map (\<lambda>e. chars (le_line e)) rows) of
             None \<Rightarrow> None
           | Some f \<Rightarrow>
               (let line = bloom_encode f; head = le_nat 4 (length line) @ line
                in if list_all (\<lambda>w. w = []) ws then Some (head @ le_nat 4 0)
                   else map_option (\<lambda>slots. head @ le_nat 4 (length ws) @ concat slots) (those (map (encode_window fl_exact) ws)))))"

definition bloom_file_magic :: bytes where "bloom_file_magic = [0x42, 0x54, 0x46, 0x35]"

definition encode_blooms ::
    "unicode \<Rightarrow> (string \<Rightarrow> ustr) \<Rightarrow> float_sizes \<Rightarrow> float_sizes \<Rightarrow> (string \<Rightarrow> json option) \<Rightarrow> log_entry list list \<Rightarrow> bytes option" where
  "encode_blooms u chars fl_line fl_exact parse groups =
     map_option (\<lambda>gs. bloom_file_magic @ le_nat 4 (length groups) @ concat gs)
       (those (map (encode_group_blooms u chars fl_line fl_exact parse) groups))"

definition index_magic :: bytes where "index_magic = [0x4C, 0x54, 0x49, 0x58, 0x31]"

definition write_index_sections :: "bytes \<Rightarrow> bytes option" where
  "write_index_sections bloom = (if length bloom \<ge> 2 ^ 32 then None else Some (index_magic @ le_nat 4 (length bloom) @ bloom))"

subsection \<open>Reading the index\<close>

datatype bloom_index_error =
    IndexHeader | IndexTruncated | BloomsTooShort | BloomsMagic | GroupCountMismatch | LengthTruncated | PayloadTruncated
  | BadBloom bloom_error | WindowCountTruncated | WindowCountMismatch | TooManyWindows | TrailingBytes | IndexTooLarge

record bloom_location =
  bl_offset :: nat
  bl_len :: nat
  bl_num_bits :: nat
  bl_k :: nat

datatype window_bloom = AbsentWindow | SaturatedWindow | WindowFilter bloom_location

definition split_index :: "bytes \<Rightarrow> bloom_index_error + bytes" where
  "split_index buf =
     (if \<not> starts_with buf index_magic then Inl IndexHeader
      else
        (let rest = drop 5 buf in
         if length rest < 4 then Inl IndexTruncated
         else
           (let len = nat_of_le (take 4 rest); rest = drop 4 rest
            in if length rest < len then Inl IndexTruncated else Inr (take len rest))))"

definition locate_length_prefixed_bloom :: "bytes \<Rightarrow> nat \<Rightarrow> nat \<Rightarrow> bloom_index_error + (bloom_location \<times> nat)" where
  "locate_length_prefixed_bloom buf base pos =
     (if length buf < pos + 4 then Inl LengthTruncated
      else
        (let len = nat_of_le (take 4 (drop pos buf)); pos = pos + 4; payload_end = pos + len
         in if length buf < payload_end then Inl PayloadTruncated
            else
              (case decode_bloom_header (take len (drop pos buf)) of
                 Inl e \<Rightarrow> Inl (BadBloom e)
               | Inr (num_bits, k) \<Rightarrow>
                   (let bits_start = pos + bloom_header_bytes
                    in if base + bits_start \<ge> 2 ^ 32 \<or> payload_end - bits_start \<ge> 2 ^ 32 then Inl IndexTooLarge
                       else Inr (\<lparr>bl_offset = base + bits_start, bl_len = payload_end - bits_start, bl_num_bits = num_bits,
                              bl_k = k\<rparr>, payload_end)))))"

definition locate_window_bloom :: "bytes \<Rightarrow> nat \<Rightarrow> nat \<Rightarrow> bloom_index_error + (window_bloom \<times> nat)" where
  "locate_window_bloom buf base pos =
     (if pos + 4 \<le> length buf \<and> take 4 (drop pos buf) = le_nat 4 0 then Inr (AbsentWindow, pos + 4)
      else if pos + 4 \<le> length buf \<and> take 4 (drop pos buf) = le_nat 4 saturated_window_sentinel then Inr (SaturatedWindow, pos + 4)
      else
        (case locate_length_prefixed_bloom buf base pos of
           Inl e \<Rightarrow> Inl e
         | Inr (at, pos) \<Rightarrow> Inr (WindowFilter at, pos)))"

fun locate_windows :: "nat \<Rightarrow> bytes \<Rightarrow> nat \<Rightarrow> nat \<Rightarrow> bloom_index_error + (window_bloom list \<times> nat)" where
  "locate_windows 0 buf base pos = Inr ([], pos)"
| "locate_windows (Suc n) buf base pos =
     (case locate_window_bloom buf base pos of
        Inl e \<Rightarrow> Inl e
      | Inr (w, pos) \<Rightarrow>
          (case locate_windows n buf base pos of
             Inl e \<Rightarrow> Inl e
           | Inr (ws, pos) \<Rightarrow> Inr (w # ws, pos)))"

definition locate_group ::
    "bytes \<Rightarrow> nat \<Rightarrow> nat \<Rightarrow> nat \<Rightarrow> bloom_index_error + ((bloom_location \<times> window_bloom list) \<times> nat)" where
  "locate_group buf base rows pos =
     (case locate_length_prefixed_bloom buf base pos of
        Inl e \<Rightarrow> Inl e
      | Inr (line, pos) \<Rightarrow>
          if length buf < pos + 4 then Inl WindowCountTruncated
          else
            (let window_count = nat_of_le (take 4 (drop pos buf)); pos = pos + 4
             in if window_count \<noteq> 0 \<and> window_count \<noteq> div_ceil rows bloom_window_rows then Inl WindowCountMismatch
                else if window_count > 64 then Inl TooManyWindows
                else
                  (case locate_windows window_count buf base pos of
                     Inl e \<Rightarrow> Inl e
                   | Inr (ws, pos) \<Rightarrow> Inr ((line, ws), pos))))"

fun locate_groups ::
    "bytes \<Rightarrow> nat \<Rightarrow> nat list \<Rightarrow> nat \<Rightarrow> bloom_index_error + ((bloom_location \<times> window_bloom list) list \<times> nat)" where
  "locate_groups buf base [] pos = Inr ([], pos)"
| "locate_groups buf base (rows # later) pos =
     (case locate_group buf base rows pos of
        Inl e \<Rightarrow> Inl e
      | Inr (g, pos) \<Rightarrow>
          (case locate_groups buf base later pos of
             Inl e \<Rightarrow> Inl e
           | Inr (gs, pos) \<Rightarrow> Inr (g # gs, pos)))"

definition locate_blooms :: "bytes \<Rightarrow> nat \<Rightarrow> nat list \<Rightarrow> bloom_index_error + (bloom_location \<times> window_bloom list) list" where
  "locate_blooms buf base row_group_rows =
     (if length buf < 8 then Inl BloomsTooShort
      else if take 4 buf \<noteq> bloom_file_magic then Inl BloomsMagic
      else if nat_of_le (take 4 (drop 4 buf)) \<noteq> length row_group_rows then Inl GroupCountMismatch
      else
        (case locate_groups buf base row_group_rows 8 of
           Inl e \<Rightarrow> Inl e
         | Inr (gs, pos) \<Rightarrow> if pos \<noteq> length buf then Inl TrailingBytes else Inr gs))"

definition build_bloom_index :: "bytes \<Rightarrow> nat list \<Rightarrow> bloom_index_error + (bloom_location \<times> window_bloom list) list" where
  "build_bloom_index file row_group_rows =
     (case split_index file of Inl e \<Rightarrow> Inl e | Inr buf \<Rightarrow> locate_blooms buf (length index_magic + 4) row_group_rows)"

definition bloom_at :: "bytes \<Rightarrow> bloom_location \<Rightarrow> bloom_ref" where
  "bloom_at file at = \<lparr>br_bits = take (bl_len at) (drop (bl_offset at) file), br_num_bits = bl_num_bits at, br_k = bl_k at\<rparr>"

subsection \<open>The windows a query reads\<close>

definition window_admits :: "bytes \<Rightarrow> bytes \<Rightarrow> window_bloom \<Rightarrow> bool" where
  "window_admits file token w =
     (case w of AbsentWindow \<Rightarrow> False | SaturatedWindow \<Rightarrow> True | WindowFilter at \<Rightarrow> bloom_ref_contains (bloom_at file at) token = Some True)"

definition predicate_window_mask :: "bytes \<Rightarrow> window_bloom list \<Rightarrow> exact_field_predicate \<Rightarrow> u64 option" where
  "predicate_window_mask file windows p =
     (if ep_value p = [] then None
      else if windows = [] then Some 0
      else
        (case encode_exact_field_token (ep_name p) (ep_value p) of
           None \<Rightarrow> None
         | Some token \<Rightarrow>
             Some (fold (\<lambda>(i, w) m. if window_admits file token w then m OR push_bit i 1 else m) (enumerate 0 windows) 0)))"

fun window_mask_loop :: "bytes \<Rightarrow> window_bloom list \<Rightarrow> u64 option \<Rightarrow> exact_field_predicate list \<Rightarrow> u64 option" where
  "window_mask_loop file windows combined [] = combined"
| "window_mask_loop file windows combined (p # ps) =
     (case predicate_window_mask file windows p of
        None \<Rightarrow> window_mask_loop file windows combined ps
      | Some m \<Rightarrow>
          (let both = (case combined of Some existing \<Rightarrow> existing AND m | None \<Rightarrow> m)
           in if both = 0 then Some 0 else window_mask_loop file windows (Some both) ps))"

definition exact_field_window_mask :: "bytes \<Rightarrow> window_bloom list \<Rightarrow> exact_field_predicate list \<Rightarrow> u64 option" where
  "exact_field_window_mask file windows exact_fields = window_mask_loop file windows None exact_fields"

definition exact_field_bloom_prune :: "bytes \<Rightarrow> window_bloom list \<Rightarrow> exact_field_predicate list \<Rightarrow> bool" where
  "exact_field_bloom_prune file windows exact_fields \<longleftrightarrow> exact_field_window_mask file windows exact_fields \<noteq> Some 0"

text \<open>Which rows of a group a mask selects.\<close>

definition window_row_selection :: "u64 \<Rightarrow> nat \<Rightarrow> bool list" where
  "window_row_selection m group_rows = map (\<lambda>i. m AND push_bit (i div bloom_window_rows) 1 \<noteq> 0) [0..<group_rows]"

subsection \<open>Columns for frequent names\<close>

definition max_metadata_columns :: nat where "max_metadata_columns = 128"

definition metadata_column_counts :: "log_entry list \<Rightarrow> (string \<times> nat) list" where
  "metadata_column_counts rows =
     (let names = concat (map (\<lambda>e. map fst (le_metadata e)) rows) in map (\<lambda>n. (n, count_list names n)) (sort (remdups names)))"

definition parsed_column_counts :: "fields option list \<Rightarrow> (string \<times> nat) list" where
  "parsed_column_counts parsed =
     (let names = concat (map (\<lambda>p. case p of None \<Rightarrow> [] | Some fs \<Rightarrow> map fst fs) parsed)
      in map (\<lambda>n. (n, count_list names n)) (sort (remdups names)))"

definition parse_rows :: "(string \<Rightarrow> json option) \<Rightarrow> log_entry list \<Rightarrow> fields option list" where
  "parse_rows parse rows = map (\<lambda>e. extract_json parse (le_line e)) rows"

definition select_metadata_columns :: "(string \<times> nat) list \<Rightarrow> (string \<times> nat) list" where
  "select_metadata_columns counts =
     sort_key fst (take max_metadata_columns (sort_key (\<lambda>(n, c). - int c) (sort_key fst counts)))"

text \<open>The place of a name among the columns; the columns are sorted by it.\<close>

definition key_index :: "string list \<Rightarrow> string \<Rightarrow> nat option" where
  "key_index keys name = map_option fst (find (\<lambda>(_, k). k = name) (enumerate 0 keys))"

record definitive_column =
  df_value :: string
  df_sm_key :: "nat option"
  df_pf_key :: "nat option"
  df_extracted :: bool

text \<open>\<open>None\<close> says the part has no such row.\<close>

fun definitive_columns :: "string list \<Rightarrow> string list \<Rightarrow> exact_field_predicate list \<Rightarrow> definitive_column list option" where
  "definitive_columns metadata_keys parsed_keys [] = Some []"
| "definitive_columns metadata_keys parsed_keys (p # ps) =
     (let rest = definitive_columns metadata_keys parsed_keys ps in
      if ep_canonical p \<or> ep_value p = [] then rest
      else
        (let sm_key = key_index metadata_keys (ep_name p);
             sm_decidable = (sm_key \<noteq> None \<or> length metadata_keys < max_metadata_columns)
         in if \<not> ep_may_be_extracted p then
              (case sm_key of
                 Some key \<Rightarrow> map_option (Cons \<lparr>df_value = ep_value p, df_sm_key = Some key, df_pf_key = None, df_extracted = False\<rparr>) rest
               | None \<Rightarrow> if sm_decidable then None else rest)
            else if \<not> ep_json_only p then rest
            else
              (let pf_key = key_index parsed_keys (ep_name p);
                   pf_decidable = (pf_key \<noteq> None \<or> length parsed_keys < max_metadata_columns)
               in if \<not> (sm_decidable \<and> pf_decidable) then rest
                  else if sm_key = None \<and> pf_key = None then None
                  else map_option (Cons \<lparr>df_value = ep_value p, df_sm_key = sm_key, df_pf_key = pf_key, df_extracted = True\<rparr>) rest)))"

text \<open>The columns of a row, as \<open>row_group_batch\<close> fills them.\<close>

definition sm_column :: "string list \<Rightarrow> log_entry \<Rightarrow> nat \<Rightarrow> string option" where
  "sm_column metadata_keys e key = map_of (le_metadata e) (metadata_keys ! key)"

definition pf_column :: "(string \<Rightarrow> json option) \<Rightarrow> string list \<Rightarrow> log_entry \<Rightarrow> nat \<Rightarrow> string option" where
  "pf_column parse parsed_keys e key = Option.bind (extract_json parse (le_line e)) (\<lambda>fs. map_of fs (parsed_keys ! key))"

definition column_keeps ::
    "(string \<Rightarrow> json option) \<Rightarrow> string list \<Rightarrow> string list \<Rightarrow> log_entry \<Rightarrow> definitive_column \<Rightarrow> bool" where
  "column_keeps parse metadata_keys parsed_keys e def \<longleftrightarrow>
     (case Option.bind (df_sm_key def) (sm_column metadata_keys e) of
        Some v \<Rightarrow> Some v
      | None \<Rightarrow> if df_extracted def then Option.bind (df_pf_key def) (pf_column parse parsed_keys e) else None) = Some (df_value def)"

subsection \<open>The index is read back\<close>

definition filter_ok :: "bloom_filter \<Rightarrow> bool" where
  "filter_ok f \<longleftrightarrow> bloom_ok f \<and> bf_num_bits f < 2 ^ 32 \<and> bf_k f < 2 ^ 32"

definition ref_of :: "bloom_filter \<Rightarrow> bloom_ref" where
  "ref_of f = \<lparr>br_bits = bf_bits f, br_num_bits = bf_num_bits f, br_k = bf_k f\<rparr>"

lemma header_of_stored: "filter_ok f \<Longrightarrow> decode_bloom_header (bloom_encode f) = Inr (bf_num_bits f, bf_k f) \<and> drop 12 (bloom_encode f) = bf_bits f"
  using bloom_stored(2) [of f] unfolding filter_ok_def
  by (auto simp: bloom_ref_parse_def bloom_header_bytes_def bloom_encode_def bloom_magic_def split: sum.splits)

lemma length_bloom_encode: "length (bloom_encode f) = 12 + length (bf_bits f)"
  by (simp add: bloom_encode_def bloom_magic_def)

text \<open>The section a position looks at, in the file it is part of.\<close>

definition looking_at :: "bytes \<Rightarrow> bytes \<Rightarrow> nat \<Rightarrow> nat \<Rightarrow> bytes \<Rightarrow> bool" where
  "looking_at file buf base pos rest \<longleftrightarrow>
     drop base file = buf \<and> base \<le> length file \<and> length file < 2 ^ 32 \<and> drop pos buf = rest \<and> pos \<le> length buf"

lemma looking_on: "looking_at file buf base pos (x @ rest) \<Longrightarrow> looking_at file buf base (pos + length x) rest"
proof -
  assume l: "looking_at file buf base pos (x @ rest)"
  then have "length buf - pos = length x + length rest" by (metis length_append length_drop looking_at_def)
  then have "pos + length x \<le> length buf \<or> x = [] \<and> rest = []" using l by (auto simp: looking_at_def)
  moreover have "drop (pos + length x) buf = rest"
    using l by (metis add.commute append_eq_conv_conj drop_drop looking_at_def)
  ultimately show ?thesis using l by (auto simp: looking_at_def)
qed

lemma looking_length: "looking_at file buf base pos rest \<Longrightarrow> length buf = pos + length rest \<and> base + length buf < 2 ^ 32"
  by (auto simp: looking_at_def)

lemma locate_filter:
  assumes "looking_at file buf base pos (le_nat 4 (length (bloom_encode f)) @ bloom_encode f @ rest)" and "filter_ok f"
  shows "\<exists>at. locate_length_prefixed_bloom buf base pos = Inr (at, pos + 4 + length (bloom_encode f)) \<and> bloom_at file at = ref_of f"
proof -
  define len where "len = length (bloom_encode f)"
  note l = assms(1) [folded len_def]
  have lens: "length buf = pos + 4 + len + length rest" "base + length buf < 2 ^ 32" "len = 12 + length (bf_bits f)"
    using looking_length [OF l] by (simp_all add: len_def length_bloom_encode)
  have l4: "looking_at file buf base (pos + 4) (bloom_encode f @ rest)"
    using looking_on [OF l] by simp
  have b: "take 4 (drop pos buf) = le_nat 4 len" "drop (pos + 4) buf = bloom_encode f @ rest"
    using l l4 by (simp_all add: looking_at_def)
  have n: "nat_of_le (le_nat 4 len) = len" using lens by (simp add: nat_of_le_le_nat_id)
  note h = header_of_stored [OF assms(2)]
  define at where "at = \<lparr>bl_offset = base + (pos + 4 + 12), bl_len = pos + 4 + len - (pos + 4 + 12), bl_num_bits = bf_num_bits f, bl_k = bf_k f\<rparr>"
  have "locate_length_prefixed_bloom buf base pos = Inr (at, pos + 4 + len)"
    using lens unfolding locate_length_prefixed_bloom_def b Let_def n by (simp add: b h len_def [symmetric] bloom_header_bytes_def at_def)
  moreover have "bloom_at file at = ref_of f"
  proof -
    have "drop (base + (pos + 4 + 12)) file = drop 12 (drop (pos + 4) buf)"
      using l unfolding looking_at_def by (metis add.commute drop_drop)
    also have "\<dots> = bf_bits f @ rest" unfolding b using h lens(3) by (simp add: len_def)
    finally have "take (length (bf_bits f)) (drop (base + (pos + 4 + 12)) file) = bf_bits f" by simp
    then show ?thesis using lens(3) by (simp add: bloom_at_def ref_of_def at_def)
  qed
  ultimately show ?thesis by (simp add: len_def)
qed

lemma bloom_ref_contains_of: "bloom_ref_contains (ref_of f) token = bloom_contains f token"
  by (simp add: bloom_ref_contains_def ref_of_def bloom_contains_def)

lemma capacity_filter:
  assumes "float_sizes_ok fl" and "n \<le> 2 ^ 24"
  shows "\<exists>f. bloom_with_capacity fl n = Some f \<and> filter_ok (fold bloom_insert tokens f) \<and>
    (\<forall>t \<in> set tokens. bloom_contains (fold bloom_insert tokens f) t = Some True)"
proof -
  from bloom_with_capacity_ok [OF assms] obtain f where f: "bloom_with_capacity fl n = Some f" "bloom_ok f" "bf_num_bits f < 2 ^ 32" "bf_k f < 2 ^ 32"
    by blast
  then show ?thesis using bloom.fold_good [OF f(2)] bloom.fold_found [OF f(2)] fold_insert_keeps [OF f(2)] by (auto simp: filter_ok_def)
qed

lemma locate_window:
  assumes "encode_window fl tokens = Some bs" and "looking_at file buf base pos (bs @ rest)" and "float_sizes_ok fl"
  shows "\<exists>w. locate_window_bloom buf base pos = Inr (w, pos + length bs) \<and> (\<forall>t \<in> set tokens. window_admits file t w)"
proof -
  note len = looking_length [OF assms(2)]
  consider (none) "tokens = []" "bs = le_nat 4 0" | (full) "tokens \<noteq> []" "bs = le_nat 4 saturated_window_sentinel"
    | (filter) "tokens \<noteq> []" "length tokens \<le> 65536"
    using assms(1) by (auto simp: encode_window_def max_exact_tokens_per_window_def split: if_splits)
  then show ?thesis
  proof cases
    case none
    have "take 4 (drop pos buf) = le_nat 4 0" using assms(2) none by (simp add: looking_at_def)
    then show ?thesis using none len by (simp add: locate_window_bloom_def)
  next
    case full
    have "take 4 (drop pos buf) = le_nat 4 saturated_window_sentinel" using assms(2) full by (simp add: looking_at_def)
    moreover have "le_nat 4 saturated_window_sentinel \<noteq> le_nat 4 0" using le_nat_inj [of 4 saturated_window_sentinel 0] by (auto simp: saturated_window_sentinel_def)
    ultimately show ?thesis using full len by (simp add: locate_window_bloom_def window_admits_def)
  next
    case filter
    then have "length tokens \<le> 2 ^ 24" by simp
    from capacity_filter [OF assms(3) this, of tokens] obtain g where g: "bloom_with_capacity fl (length tokens) = Some g"
      "filter_ok (fold bloom_insert tokens g)" "\<forall>t \<in> set tokens. bloom_contains (fold bloom_insert tokens g) t = Some True" by blast
    define f where "f = fold bloom_insert tokens g"
    have bs: "bs = le_nat 4 (length (bloom_encode f)) @ bloom_encode f"
      using assms(1) filter g(1) by (auto simp: encode_window_def max_exact_tokens_per_window_def f_def Let_def)
    have n: "length (bloom_encode f) < 2 ^ 32 - 1" "0 < length (bloom_encode f)" using len by (simp_all add: bs length_bloom_encode)
    have d: "take 4 (drop pos buf) = le_nat 4 (length (bloom_encode f))" using assms(2) by (simp add: looking_at_def bs)
    have "le_nat 4 (length (bloom_encode f)) \<noteq> le_nat 4 0" "le_nat 4 (length (bloom_encode f)) \<noteq> le_nat 4 saturated_window_sentinel"
      using le_nat_inj [of 4 "length (bloom_encode f)" 0] le_nat_inj [of 4 "length (bloom_encode f)" saturated_window_sentinel] n
      by (auto simp: saturated_window_sentinel_def)
    then have "locate_window_bloom buf base pos = (case locate_length_prefixed_bloom buf base pos of
           Inl e \<Rightarrow> Inl e | Inr (at, pos) \<Rightarrow> Inr (WindowFilter at, pos))"
      unfolding locate_window_bloom_def d by simp
    moreover have "looking_at file buf base pos (le_nat 4 (length (bloom_encode f)) @ bloom_encode f @ rest)" using assms(2) by (simp add: bs)
    from locate_filter [OF this] g(2) obtain at where "locate_length_prefixed_bloom buf base pos = Inr (at, pos + 4 + length (bloom_encode f))"
      "bloom_at file at = ref_of f" by (auto simp: f_def)
    ultimately show ?thesis using g(3) by (simp add: bs window_admits_def bloom_ref_contains_of f_def)
  qed
qed

lemma locate_windows_all:
  assumes "those (map (encode_window fl) ws) = Some slots" and "looking_at file buf base pos (concat slots @ rest)" and "float_sizes_ok fl"
  shows "\<exists>bs. locate_windows (length ws) buf base pos = Inr (bs, pos + length (concat slots)) \<and>
    list_all2 (\<lambda>tokens w. \<forall>t \<in> set tokens. window_admits file t w) ws bs"
  using assms(1,2)
proof (induction ws arbitrary: slots pos)
  case (Cons tokens ws)
  then obtain s ss where s: "encode_window fl tokens = Some s" "those (map (encode_window fl) ws) = Some ss" "slots = s # ss"
    by (auto split: option.splits)
  have l: "looking_at file buf base pos (s @ (concat ss @ rest))" using Cons.prems(2) s(3) by simp
  from locate_window [OF s(1) l assms(3)] obtain w where "locate_window_bloom buf base pos = Inr (w, pos + length s)"
    "\<forall>t \<in> set tokens. window_admits file t w" by blast
  then show ?case using Cons.IH [OF s(2) looking_on [OF l]] s(3) by (auto simp: add.assoc)
qed simp

lemma those_nth: "those xs = Some ys \<Longrightarrow> length ys = length xs \<and> (\<forall>i < length xs. xs ! i = Some (ys ! i))"
proof (induction xs arbitrary: ys)
  case (Cons x xs)
  then obtain y zs where "x = Some y" "those xs = Some zs" "ys = y # zs" by (auto split: option.splits)
  then show ?case using Cons.IH by (auto simp: nth_Cons split: nat.splits)
qed simp

lemma div_ceil_bound: "n \<le> 65536 \<Longrightarrow> div_ceil n bloom_window_rows \<le> 64"
  by (simp add: div_ceil_def bloom_window_rows_def)

lemma line_bloom_ok: "float_sizes_ok fl \<Longrightarrow> \<exists>f. line_bloom u fl lines = Some f \<and> filter_ok f"
  using finish_found add_lines_ok [OF trigram_set_new_ok, of u lines] unfolding line_bloom_def filter_ok_def by metis

text \<open>What a group of the index says of the rows it was written for.\<close>

definition group_reads :: "bytes \<Rightarrow> bytes list list \<Rightarrow> window_bloom list \<Rightarrow> bool" where
  "group_reads file ws windows \<longleftrightarrow>
     (if windows = [] then list_all (\<lambda>w. w = []) ws
      else list_all2 (\<lambda>tokens w. \<forall>t \<in> set tokens. window_admits file t w) ws windows)"

text \<open>What was found for a group: its line filter and its windows.\<close>

definition group_found ::
    "bytes \<Rightarrow> unicode \<Rightarrow> (string \<Rightarrow> ustr) \<Rightarrow> float_sizes \<Rightarrow> (string \<Rightarrow> json option) \<Rightarrow> log_entry list \<Rightarrow>
     bloom_location \<times> window_bloom list \<Rightarrow> bool" where
  "group_found file u chars fl parse rows g \<longleftrightarrow>
     (\<exists>ws. window_tokens parse rows = Some ws \<and> group_reads file ws (snd g)) \<and>
     (\<exists>f. line_bloom u fl (map (\<lambda>e. chars (le_line e)) rows) = Some f \<and> bloom_at file (fst g) = ref_of f)"

lemma encode_group_shape:
  assumes "encode_group_blooms u chars fl_line fl_exact parse rows = Some bs"
  shows "\<exists>ws f n t. window_tokens parse rows = Some ws \<and> line_bloom u fl_line (map (\<lambda>e. chars (le_line e)) rows) = Some f \<and>
    bs = le_nat 4 (length (bloom_encode f)) @ bloom_encode f @ le_nat 4 n @ t \<and>
    (if list_all (\<lambda>w. w = []) ws then n = 0 \<and> t = []
     else n = length ws \<and> (\<exists>slots. those (map (encode_window fl_exact) ws) = Some slots \<and> t = concat slots))"
proof -
  obtain ws f where ws: "window_tokens parse rows = Some ws" and f: "line_bloom u fl_line (map (\<lambda>e. chars (le_line e)) rows) = Some f"
    using assms by (auto simp: encode_group_blooms_def split: option.splits)
  define tail where "tail = (if list_all (\<lambda>w. w = []) ws then Some [] else map_option concat (those (map (encode_window fl_exact) ws)))"
  define n where "n = (if list_all (\<lambda>w. w = []) ws then 0 else length ws)"
  have "Some bs = map_option (\<lambda>t. le_nat 4 (length (bloom_encode f)) @ bloom_encode f @ le_nat 4 n @ t) tail"
    using assms ws f unfolding encode_group_blooms_def tail_def n_def
    by (auto simp: Let_def option.map_comp comp_def)
  then obtain t where t: "tail = Some t" "bs = le_nat 4 (length (bloom_encode f)) @ bloom_encode f @ le_nat 4 n @ t" by (cases tail) auto
  then show ?thesis using ws f by (intro exI [of _ ws] exI [of _ f] exI [of _ n] exI [of _ t]) (auto simp: tail_def n_def split: if_splits)
qed

lemma locate_group_reads:
  assumes "encode_group_blooms u chars fl_line fl_exact parse rows = Some bs" and "looking_at file buf base pos (bs @ rest)"
    and "float_sizes_ok fl_line" and "float_sizes_ok fl_exact" and "length rows \<le> 65536"
  shows "\<exists>g. locate_group buf base (length rows) pos = Inr (g, pos + length bs) \<and> group_found file u chars fl_line parse rows g"
proof -
  from encode_group_shape [OF assms(1)] obtain ws f n t where ws: "window_tokens parse rows = Some ws"
    and f: "line_bloom u fl_line (map (\<lambda>e. chars (le_line e)) rows) = Some f"
    and bs: "bs = le_nat 4 (length (bloom_encode f)) @ bloom_encode f @ le_nat 4 n @ t"
    and t: "if list_all (\<lambda>w. w = []) ws then n = 0 \<and> t = []
      else n = length ws \<and> (\<exists>slots. those (map (encode_window fl_exact) ws) = Some slots \<and> t = concat slots)" by blast
  have fok: "filter_ok f" using line_bloom_ok [OF assms(3)] f by (metis option.inject)
  have wl: "length ws = div_ceil (length rows) bloom_window_rows"
    using those_nth [OF ws [unfolded window_tokens_def]] by simp
  define h where "h = pos + 4 + length (bloom_encode f)"
  have l: "looking_at file buf base pos (le_nat 4 (length (bloom_encode f)) @ bloom_encode f @ (le_nat 4 n @ t @ rest))"
    using assms(2) by (simp add: bs)
  from locate_filter [OF l fok] obtain at where
    at: "locate_length_prefixed_bloom buf base pos = Inr (at, h)" "bloom_at file at = ref_of f" by (auto simp: h_def)
  have l1: "looking_at file buf base h (le_nat 4 n @ t @ rest)" using looking_on [OF looking_on [OF l]] by (simp add: h_def)
  have l2: "looking_at file buf base (h + 4) (t @ rest)" using looking_on [OF l1] by simp
  have n64: "n \<le> 64" using div_ceil_bound [OF assms(5)] wl t by (auto split: if_splits)
  have c: "nat_of_le (take 4 (drop h buf)) = n" "\<not> length buf < h + 4"
    using l1 n64 looking_length [OF l1] by (auto simp: looking_at_def nat_of_le_le_nat_id)
  have "\<exists>windows. locate_windows n buf base (h + 4) = Inr (windows, h + 4 + length t) \<and> group_reads file ws windows"
  proof (cases "list_all (\<lambda>w. w = []) ws")
    case False
    then obtain slots where slots: "those (map (encode_window fl_exact) ws) = Some slots" "t = concat slots" "n = length ws" using t by auto
    from locate_windows_all [OF slots(1) l2 [unfolded slots(2)] assms(4)] obtain windows where
      "locate_windows (length ws) buf base (h + 4) = Inr (windows, h + 4 + length t)"
      "list_all2 (\<lambda>tokens w. \<forall>t \<in> set tokens. window_admits file t w) ws windows" by (auto simp: slots(2))
    moreover from this have "windows \<noteq> []" using False by auto
    ultimately show ?thesis by (simp add: slots(3) group_reads_def)
  qed (use t in \<open>simp add: group_reads_def\<close>)
  then obtain windows where "locate_windows n buf base (h + 4) = Inr (windows, h + 4 + length t)" "group_reads file ws windows" by blast
  moreover from this have "locate_group buf base (length rows) pos = Inr ((at, windows), pos + length bs)"
    using at(1) c n64 wl t by (auto simp: locate_group_def Let_def bs h_def split: if_splits)
  ultimately show ?thesis using ws f at(2) unfolding group_found_def by fastforce
qed

lemma locate_groups_reads:
  assumes "those (map (encode_group_blooms u chars fl_line fl_exact parse) groups) = Some bs"
    and "looking_at file buf base pos (concat bs @ rest)"
    and "float_sizes_ok fl_line" and "float_sizes_ok fl_exact" and "\<forall>rows \<in> set groups. length rows \<le> 65536"
  shows "\<exists>gs. locate_groups buf base (map length groups) pos = Inr (gs, pos + length (concat bs)) \<and>
    list_all2 (group_found file u chars fl_line parse) groups gs"
  using assms(1,2,5)
proof (induction groups arbitrary: bs pos)
  case (Cons rows groups)
  then obtain b bs' where b: "encode_group_blooms u chars fl_line fl_exact parse rows = Some b"
    "those (map (encode_group_blooms u chars fl_line fl_exact parse) groups) = Some bs'" "bs = b # bs'"
    by (auto split: option.splits)
  have l: "looking_at file buf base pos (b @ (concat bs' @ rest))" using Cons.prems(2) b(3) by simp
  have r: "length rows \<le> 65536" using Cons.prems(3) by simp
  from locate_group_reads [OF b(1) l assms(3,4) r] obtain g where
    "locate_group buf base (length rows) pos = Inr (g, pos + length b)" "group_found file u chars fl_line parse rows g" by blast
  then show ?case using Cons.IH [OF b(2) looking_on [OF l]] Cons.prems(3) b(3) by (auto simp: add.assoc)
qed simp

lemma length_concat_ge: "(\<And>b. b \<in> set bs \<Longrightarrow> 1 \<le> length b) \<Longrightarrow> length bs \<le> length (concat bs)"
proof (induction bs)
  case (Cons b bs)
  have "1 \<le> length b" "length bs \<le> length (concat bs)" using Cons by simp_all
  then show ?case by simp
qed simp

lemma index_reads:
  assumes "Option.bind (encode_blooms u chars fl_line fl_exact parse groups) write_index_sections = Some file"
    and "length file < 2 ^ 32"
    and "float_sizes_ok fl_line" and "float_sizes_ok fl_exact" and "\<forall>rows \<in> set groups. length rows \<le> 65536"
  shows "\<exists>gs. build_bloom_index file (map length groups) = Inr gs \<and>
    list_all2 (group_found file u chars fl_line parse) groups gs"
proof -
  obtain bs where bs: "those (map (encode_group_blooms u chars fl_line fl_exact parse) groups) = Some bs"
    "write_index_sections (bloom_file_magic @ le_nat 4 (length groups) @ concat bs) = Some file"
    using assms(1) by (auto simp: encode_blooms_def bind_eq_Some_conv)
  define buf where "buf = bloom_file_magic @ le_nat 4 (length groups) @ concat bs"
  have whole: "file = index_magic @ le_nat 4 (length buf) @ buf" "length buf < 2 ^ 32"
    using bs(2) by (auto simp: write_index_sections_def buf_def split: if_splits)
  have n: "nat_of_le (le_nat 4 (length buf)) = length buf" using whole(2) by (simp add: nat_of_le_le_nat_id)
  have sp: "split_index file = Inr buf"
    unfolding split_index_def whole(1) using n by (simp add: starts_with_def index_magic_def Let_def)
  have l: "looking_at file buf 9 8 (concat bs @ [])"
    using assms(2) unfolding whole(1) by (simp add: looking_at_def index_magic_def buf_def bloom_file_magic_def)
  from locate_groups_reads [OF bs(1) l assms(3-5)] obtain gs where
    gs: "locate_groups buf 9 (map length groups) 8 = Inr (gs, 8 + length (concat bs))"
    "list_all2 (group_found file u chars fl_line parse) groups gs" by blast
  have "length groups \<le> length (concat bs)"
  proof -
    have "length bs = length groups" using those_nth [OF bs(1)] by simp
    moreover have "1 \<le> length b" if b: "b \<in> set bs" for b
    proof -
      obtain i where i: "i < length bs" "bs ! i = b" using b unfolding in_set_conv_nth by blast
      then have "encode_group_blooms u chars fl_line fl_exact parse (groups ! i) = Some b" using those_nth [OF bs(1)] by auto
      from encode_group_shape [OF this] obtain f n t where "b = le_nat 4 (length (bloom_encode f)) @ bloom_encode f @ le_nat 4 n @ t"
        by blast
      then have "length b = 4 + (length (bloom_encode f) + (4 + length t))" by (simp only: length_append length_le_nat)
      then show ?thesis by simp
    qed
    then have "length bs \<le> length (concat bs)" by (rule length_concat_ge)
    ultimately show ?thesis by simp
  qed
  moreover have "length (concat bs) < 2 ^ 32" using whole(2) by (simp add: buf_def)
  ultimately have "nat_of_le (le_nat 4 (length groups)) = length groups" by (simp add: nat_of_le_le_nat_id)
  then have "locate_blooms buf 9 (map length groups) = Inr gs"
    using gs(1) unfolding locate_blooms_def by (simp add: buf_def bloom_file_magic_def)
  then show ?thesis using gs(2) sp by (simp add: build_bloom_index_def index_magic_def)
qed

subsection \<open>A row the pipeline keeps is read\<close>

lemma key_index_Some: "key_index keys n = Some k \<Longrightarrow> k < length keys \<and> keys ! k = n"
  by (auto simp: key_index_def find_Some_iff nth_enumerate_eq)

lemma key_index_member: "n \<in> set keys \<Longrightarrow> key_index keys n \<noteq> None"
proof -
  assume "n \<in> set keys"
  then obtain i where "i < length keys" "keys ! i = n" by (auto simp: in_set_conv_nth)
  then have "(i, n) \<in> set (enumerate 0 keys)" by (auto simp: in_set_enumerate_eq)
  then show ?thesis unfolding key_index_def by (auto simp: find_None_iff)
qed

lemma select_metadata_all:
  assumes "length (map fst (select_metadata_columns counts)) < max_metadata_columns"
  shows "set (select_metadata_columns counts) = set counts"
proof -
  have "length counts < max_metadata_columns" using assms by (simp add: select_metadata_columns_def)
  then show ?thesis by (simp add: select_metadata_columns_def)
qed

text \<open>The names of a part: all of them, when there is room.\<close>

definition keys_complete :: "string list \<Rightarrow> string set \<Rightarrow> bool" where
  "keys_complete keys names \<longleftrightarrow> (length keys < max_metadata_columns \<longrightarrow> names \<subseteq> set keys)"

lemma metadata_keys_complete:
  "e \<in> set rows \<Longrightarrow> keys_complete (map fst (select_metadata_columns (metadata_column_counts rows))) (fst ` set (le_metadata e))"
  unfolding keys_complete_def
proof
  assume e: "e \<in> set rows" and l: "length (map fst (select_metadata_columns (metadata_column_counts rows))) < max_metadata_columns"
  have "fst ` set (metadata_column_counts rows) = (\<Union>e \<in> set rows. fst ` set (le_metadata e))"
    by (simp add: metadata_column_counts_def Let_def image_image)
  then show "fst ` set (le_metadata e) \<subseteq> set (map fst (select_metadata_columns (metadata_column_counts rows)))"
    using e select_metadata_all [OF l] by auto
qed

lemma parsed_keys_complete:
  "e \<in> set rows \<Longrightarrow>
   keys_complete (map fst (select_metadata_columns (parsed_column_counts (parse_rows parse rows)))) (fst ` set (json_fields parse (le_line e)))"
  unfolding keys_complete_def
proof
  assume e: "e \<in> set rows"
    and l: "length (map fst (select_metadata_columns (parsed_column_counts (parse_rows parse rows)))) < max_metadata_columns"
  have "fst ` set (parsed_column_counts (parse_rows parse rows)) = (\<Union>e \<in> set rows. fst ` set (json_fields parse (le_line e)))"
  proof -
    have "set (case extract_json parse l of None \<Rightarrow> [] | Some fs \<Rightarrow> map fst fs) = fst ` set (json_fields parse l)" for l
      by (cases "extract_json parse l") (simp_all add: json_fields_def)
    then show ?thesis by (simp add: parsed_column_counts_def parse_rows_def Let_def image_image)
  qed
  then show "fst ` set (json_fields parse (le_line e)) \<subseteq> set (map fst (select_metadata_columns (parsed_column_counts (parse_rows parse rows))))"
    using e select_metadata_all [OF l] by auto
qed

lemma insert_extracted_distinct: "distinct (map fst (fst acc)) \<Longrightarrow> distinct (map fst (fst (insert_extracted n v acc)))"
  using insert_extracted_cases [of "fst acc" n v "snd acc"] by (auto simp: distinct_update)

lemma fold_distinct:
  assumes "\<And>x acc. x \<in> set xs \<Longrightarrow> distinct (map fst (fst acc)) \<Longrightarrow> distinct (map fst (fst (f x acc)))"
  shows "distinct (map fst (fst acc)) \<Longrightarrow> distinct (map fst (fst (fold f xs acc)))"
  using assms by (induction xs arbitrary: acc) simp_all

lemma flatten_distinct: "distinct (map fst (fst acc)) \<Longrightarrow> distinct (map fst (fst (flatten_value path v acc)))"
proof (induction path v acc rule: flatten_value.induct)
  case (5 path items acc)
  show ?case unfolding flatten_value.simps by (rule fold_distinct [OF _ 5(2)]) (use 5(1) in auto)
next
  case (6 path entries acc)
  show ?case unfolding flatten_value.simps by (rule fold_distinct [OF _ 6(2)]) (use 6(1) in auto)
qed (simp_all add: insert_extracted_distinct)

lemma distinct_sorted_fields: "distinct (map fst fs) \<Longrightarrow> distinct (map fst (sort_key fst fs))"
  by (metis distinct_map distinct_sort set_sort)

lemma json_fields_distinct: "distinct (map fst (json_fields parse line))"
  using distinct_sorted_fields [OF flatten_distinct [of "([], [])"]]
  by (auto simp: json_fields_def extract_json_def simp del: flatten_value.simps split: option.splits json.splits)

text \<open>The columns never drop a row for a predicate it fulfils.\<close>

lemma definitive_keep:
  assumes "\<forall>p \<in> set ps. ep_value p \<noteq> [] \<longrightarrow> predicate_holds parse e p"
    and "keys_complete md_keys (fst ` set (le_metadata e))" and "keys_complete pf_keys (fst ` set (json_fields parse (le_line e)))"
  shows "\<exists>ds. definitive_columns md_keys pf_keys ps = Some ds \<and> (\<forall>d \<in> set ds. column_keeps parse md_keys pf_keys e d)"
  using assms(1)
proof (induction ps)
  case (Cons p ps)
  then obtain ds where ds: "definitive_columns md_keys pf_keys ps = Some ds" "\<forall>d \<in> set ds. column_keeps parse md_keys pf_keys e d" by auto
  show ?case
  proof (cases "ep_canonical p \<or> ep_value p = []")
    case False
    define sm pf where "sm = key_index md_keys (ep_name p)" and "pf = key_index pf_keys (ep_name p)"
    have h: "field_from (le_metadata e) (if ep_may_be_extracted p then json_fields parse (le_line e) else [])
         (if ep_may_be_extracted p \<and> \<not> ep_json_only p then logfmt_fields (le_line e) else []) (ep_name p) (ep_value p)"
      using Cons.prems False by (auto simp: predicate_holds_def)
    have smk: "sm = Some k \<Longrightarrow> sm_column md_keys e k = map_of (le_metadata e) (ep_name p)" for k
      using key_index_Some by (auto simp: sm_def sm_column_def)
    have pfk: "pf = Some k \<Longrightarrow> pf_column parse pf_keys e k = map_of (json_fields parse (le_line e)) (ep_name p)" for k
      using key_index_Some by (auto simp: pf_def pf_column_def json_fields_def split: option.splits)
    have sn: "sm = None \<Longrightarrow> length md_keys < max_metadata_columns \<Longrightarrow> map_of (le_metadata e) (ep_name p) = None"
      using assms(2) key_index_member unfolding keys_complete_def sm_def by (metis map_of_eq_None_iff subsetD)
    have pn: "pf = None \<Longrightarrow> length pf_keys < max_metadata_columns \<Longrightarrow> map_of (json_fields parse (le_line e)) (ep_name p) = None"
      using assms(3) key_index_member unfolding keys_complete_def pf_def by (metis map_of_eq_None_iff subsetD)
    show ?thesis
    proof (cases "ep_may_be_extracted p")
      case False
      then have v: "map_of (le_metadata e) (ep_name p) = Some (ep_value p)" using h by (auto simp: field_from_def split: option.splits)
      show ?thesis
      proof (cases sm)
        case None
        then show ?thesis using sn v ds False \<open>\<not> (ep_canonical p \<or> ep_value p = [])\<close> by (auto simp: Let_def sm_def [symmetric])
      next
        case (Some k)
        then show ?thesis using smk [OF Some] v ds False \<open>\<not> (ep_canonical p \<or> ep_value p = [])\<close>
          by (auto simp: Let_def sm_def [symmetric] column_keeps_def)
      qed
    next
      case True
      show ?thesis
      proof (cases "ep_json_only p")
        case jo: True
        have v: "(case map_of (le_metadata e) (ep_name p) of Some v \<Rightarrow> Some v
            | None \<Rightarrow> map_of (json_fields parse (le_line e)) (ep_name p)) = Some (ep_value p)"
          using h True jo map_of_is_SomeI [OF json_fields_distinct] by (auto simp: field_from_def split: option.splits)
        show ?thesis
        proof (cases "(sm \<noteq> None \<or> length md_keys < max_metadata_columns) \<and> (pf \<noteq> None \<or> length pf_keys < max_metadata_columns)")
          case dec: True
          have c: "column_keeps parse md_keys pf_keys e \<lparr>df_value = ep_value p, df_sm_key = sm, df_pf_key = pf, df_extracted = True\<rparr>"
            using v smk pfk sn pn dec by (cases sm; cases pf) (auto simp: column_keeps_def split: option.splits)
          have "\<not> (sm = None \<and> pf = None)"
          proof
            assume "sm = None \<and> pf = None"
            then show False using v sn pn dec by simp
          qed
          then show ?thesis using c ds dec True jo False by (auto simp: Let_def sm_def [symmetric] pf_def [symmetric])
        qed (use ds True jo False in \<open>auto simp: Let_def sm_def [symmetric] pf_def [symmetric]\<close>)
      qed (use ds True False in \<open>auto simp: Let_def\<close>)
    qed
  qed (use ds in \<open>auto simp: Let_def\<close>)
qed simp

text \<open>Neither do the windows.\<close>

lemma window_fold_keeps:
  "bit m j \<Longrightarrow> bit (fold (\<lambda>(i, w) m. if A w then m OR push_bit i 1 else m) (enumerate k ws) m) j" for m :: u64
  by (induction ws arbitrary: k m) (auto simp: bit_or_iff)

lemma window_fold_hits:
  "j < length ws \<Longrightarrow> A (ws ! j) \<Longrightarrow> k + j < 64 \<Longrightarrow>
   bit (fold (\<lambda>(i, w) m. if A w then m OR push_bit i 1 else m) (enumerate k ws) m) (k + j)" for m :: u64
proof (induction ws arbitrary: k m j)
  case (Cons w ws)
  show ?case
  proof (cases j)
    case 0
    then have "bit (m OR push_bit k 1) (k + j)" using Cons.prems by (simp add: bit_or_iff bit_exp_iff)
    then show ?thesis using window_fold_keeps [of "m OR push_bit k 1" "k + j" A "Suc k" ws] Cons.prems 0 by simp
  next
    case (Suc i)
    then show ?thesis using Cons.IH [of i "Suc k" "if A w then m OR push_bit k 1 else m"] Cons.prems by simp
  qed
qed simp

lemma row_in_window:
  assumes "0 < n" and "i < length rows"
  shows "rows ! i \<in> set (take n (drop (i div n * n) rows))"
proof -
  have k: "i mod n < n" "i div n * n + i mod n = i" using assms(1) by simp_all
  then have l: "i mod n < length rows - i div n * n" using assms(2) by linarith
  have "take n (drop (i div n * n) rows) ! (i mod n) = drop (i div n * n) rows ! (i mod n)" by (rule nth_take [OF k(1)])
  also have "\<dots> = rows ! i" using k(2) l by (subst nth_drop) simp_all
  finally have "take n (drop (i div n * n) rows) ! (i mod n) = rows ! i" .
  moreover have "i mod n < length (take n (drop (i div n * n) rows))" using k(1) l by simp
  ultimately show ?thesis by (metis nth_mem)
qed

lemma window_token:
  assumes "window_tokens parse rows = Some ws" and "i < length rows" and "(n, v) \<in> set (indexed_tokens parse (rows ! i))"
  shows "i div bloom_window_rows < length ws \<and>
    (\<exists>t. encode_exact_field_token n v = Some t \<and> t \<in> set (ws ! (i div bloom_window_rows)))"
proof -
  define w where "w = i div bloom_window_rows"
  have wl: "w < div_ceil (length rows) bloom_window_rows" using assms(2) by (simp add: w_def div_ceil_def bloom_window_rows_def)
  note nth = those_nth [OF assms(1) [unfolded window_tokens_def]]
  have l: "length ws = div_ceil (length rows) bloom_window_rows" using nth by simp
  define toks where "toks = concat (map (indexed_tokens parse) (take bloom_window_rows (drop (w * bloom_window_rows) rows)))"
  have s: "those (map (\<lambda>(n, v). encode_exact_field_token n v) toks) = Some (ws ! w)" using nth wl by (simp add: toks_def)
  have "(n, v) \<in> set toks"
    using row_in_window [of bloom_window_rows i rows] assms(2,3) by (auto simp: toks_def w_def bloom_window_rows_def)
  then obtain j where j: "j < length toks" "toks ! j = (n, v)" by (auto simp: in_set_conv_nth)
  then have "encode_exact_field_token n v = Some (ws ! w ! j)" "j < length (ws ! w)" using those_nth [OF s] by auto
  then show ?thesis using wl l by (auto simp: w_def [symmetric])
qed

lemma predicate_mask_bit:
  assumes "group_reads file ws windows" and "window_tokens parse rows = Some ws" and "i < length rows" and "length rows \<le> 65536"
    and "predicate_holds parse (rows ! i) p" and "predicate_window_mask file windows p = Some m"
  shows "bit m (i div bloom_window_rows)"
proof -
  define w where "w = i div bloom_window_rows"
  from window_token [OF assms(2,3) predicate_indexed [OF assms(5)]] obtain t where
    t: "w < length ws" "encode_exact_field_token (ep_name p) (ep_value p) = Some t" "t \<in> set (ws ! w)" by (auto simp: w_def)
  have "windows \<noteq> []" using assms(1) t by (auto simp: group_reads_def list_all_length split: if_splits)
  then have a: "list_all2 (\<lambda>tokens w. \<forall>t \<in> set tokens. window_admits file t w) ws windows" using assms(1) by (simp add: group_reads_def)
  then have "w < length windows" "window_admits file t (windows ! w)" using t list_all2_nthD [OF a t(1)] by (auto dest: list_all2_lengthD)
  moreover have "w < 64" using assms(3,4) by (simp add: w_def bloom_window_rows_def)
  ultimately have "bit (fold (\<lambda>(i, w) m. if window_admits file t w then m OR push_bit i 1 else m) (enumerate 0 windows) (0 :: u64)) (0 + w)"
    by (intro window_fold_hits) simp_all
  then show ?thesis using assms(6) \<open>windows \<noteq> []\<close> t(2) by (auto simp: predicate_window_mask_def w_def split: if_splits)
qed

lemma mask_loop_bit:
  assumes "\<And>p m. p \<in> set ps \<Longrightarrow> predicate_window_mask file windows p = Some m \<Longrightarrow> bit m w"
    and "\<And>m. combined = Some m \<Longrightarrow> bit m w" and "window_mask_loop file windows combined ps = Some m"
  shows "bit m w"
  using assms
proof (induction ps arbitrary: combined)
  case (Cons p ps)
  show ?case
  proof (cases "predicate_window_mask file windows p")
    case None
    show ?thesis by (rule Cons.IH [of combined]) (use Cons.prems None in auto)
  next
    case (Some pm)
    define both where "both = (case combined of Some existing \<Rightarrow> existing AND pm | None \<Rightarrow> pm)"
    have b: "bit both w" using Cons.prems(1) [of p pm] Cons.prems(2) Some by (auto simp: both_def bit_and_iff split: option.splits)
    then have "both \<noteq> 0" by auto
    then show ?thesis by (intro Cons.IH [of "Some both"]) (use Cons.prems b Some in \<open>auto simp: both_def [symmetric]\<close>)
  qed
qed simp

lemma bit_selects: "bit (m :: u64) j \<Longrightarrow> m AND push_bit j 1 \<noteq> 0"
proof
  assume "bit m j" "m AND push_bit j 1 = 0"
  have "j < 64" using \<open>bit m j\<close> bit_imp_le_length by fastforce
  then have "bit (m AND push_bit j 1) j" using \<open>bit m j\<close> by (simp add: bit_and_iff bit_exp_iff)
  then show False using \<open>m AND push_bit j 1 = 0\<close> by simp
qed

lemma found_keeps:
  assumes "group_found file u chars fl parse rows g" and "i < length rows" and "length rows \<le> 65536"
    and holds: "\<forall>p \<in> set ps. ep_value p \<noteq> [] \<longrightarrow> predicate_holds parse (rows ! i) p"
  shows "exact_field_bloom_prune file (snd g) ps"
    and "exact_field_window_mask file (snd g) ps = Some m \<Longrightarrow> window_row_selection m (length rows) ! i"
proof -
  obtain ws where ws: "window_tokens parse rows = Some ws" "group_reads file ws (snd g)" using assms(1) by (auto simp: group_found_def)
  have bit: "bit m (i div bloom_window_rows)" if "exact_field_window_mask file (snd g) ps = Some m" for m
  proof (rule mask_loop_bit [OF _ _ that [unfolded exact_field_window_mask_def]])
    fix p m assume p: "p \<in> set ps" "predicate_window_mask file (snd g) p = Some m"
    then have "ep_value p \<noteq> []" by (auto simp: predicate_window_mask_def)
    then have "predicate_holds parse (rows ! i) p" using holds p(1) by simp
    then show "bit m (i div bloom_window_rows)" by (rule predicate_mask_bit [OF ws(2,1) assms(2,3) _ p(2)])
  qed simp
  then show "exact_field_bloom_prune file (snd g) ps" unfolding exact_field_bloom_prune_def by fastforce
  show "window_row_selection m (length rows) ! i" if "exact_field_window_mask file (snd g) ps = Some m"
    using bit [OF that] bit_selects assms(2) by (simp add: window_row_selection_def)
qed

text \<open>C12: pruning by equalities drops nothing a query would have kept. For any groups of rows of a part, the
  index written for them is read back, and a row the pipeline of a query accepts is never passed over: the
  filters of the row group admit the equalities taken from the query, the selection of windows has the row, and
  the columns of frequent names keep it. The pipeline may parse the line as JSON or logfmt, before the
  filter or not, and compare strings, numbers or durations.\<close>

theorem exact_pushdown_never_hides:
  assumes "Option.bind (encode_blooms u chars fl_line fl_exact parse groups) write_index_sections = Some file" and "length file < 2 ^ 32"
    and "float_sizes_ok fl_line" and "float_sizes_ok fl_exact" and "\<forall>rows \<in> set groups. length rows \<le> 65536"
    and "g < length groups" and "i < length (groups ! g)"
    and "process_entry parse q [] pre (groups ! g ! i) \<noteq> None" and "pre = None \<or> pre = extract_json parse (le_line (groups ! g ! i))"
    and "numbers_parsed (lq_stages q)"
  shows "\<exists>gs ds. build_bloom_index file (map length groups) = Inr gs \<and> length gs = length groups \<and>
    exact_field_bloom_prune file (snd (gs ! g)) (exact_field_predicates q) \<and>
    (case exact_field_window_mask file (snd (gs ! g)) (exact_field_predicates q) of None \<Rightarrow> True
     | Some m \<Rightarrow> window_row_selection m (length (groups ! g)) ! i) \<and>
    definitive_columns (map fst (select_metadata_columns (metadata_column_counts (concat groups))))
      (map fst (select_metadata_columns (parsed_column_counts (parse_rows parse (concat groups))))) (exact_field_predicates q) = Some ds \<and>
    list_all (column_keeps parse (map fst (select_metadata_columns (metadata_column_counts (concat groups))))
      (map fst (select_metadata_columns (parsed_column_counts (parse_rows parse (concat groups))))) (groups ! g ! i)) ds"
proof -
  define e where "e = groups ! g ! i"
  have rows: "e \<in> set (concat groups)" using assms(6,7) by (auto simp: e_def intro: nth_mem)
  from assms(8) obtain e' where e': "process_entry parse q [] pre e = Some e'" by (auto simp: e_def)
  have holds: "\<forall>p \<in> set (exact_field_predicates q). ep_value p \<noteq> [] \<longrightarrow> predicate_holds parse e p"
    using exact_predicates_hold [OF e' assms(9) [folded e_def] assms(10)] by blast
  from definitive_keep [OF holds metadata_keys_complete [OF rows] parsed_keys_complete [OF rows]]
  obtain ds where ds: "definitive_columns (map fst (select_metadata_columns (metadata_column_counts (concat groups))))
      (map fst (select_metadata_columns (parsed_column_counts (parse_rows parse (concat groups))))) (exact_field_predicates q) = Some ds"
    "list_all (column_keeps parse (map fst (select_metadata_columns (metadata_column_counts (concat groups))))
      (map fst (select_metadata_columns (parsed_column_counts (parse_rows parse (concat groups))))) e) ds"
    by (auto simp: list_all_iff)
  from index_reads [OF assms(1-5)] obtain gs where gs: "build_bloom_index file (map length groups) = Inr gs"
    "list_all2 (group_found file u chars fl_line parse) groups gs" by blast
  have len: "length (groups ! g) \<le> 65536" using assms(5,6) by simp
  note keeps = found_keeps [OF list_all2_nthD [OF gs(2) assms(6)] assms(7) len holds [unfolded e_def]]
  have "case exact_field_window_mask file (snd (gs ! g)) (exact_field_predicates q) of None \<Rightarrow> True
     | Some m \<Rightarrow> window_row_selection m (length (groups ! g)) ! i"
    using keeps(2) by (simp split: option.splits)
  moreover have "length gs = length groups" using gs(2) by (simp add: list_all2_lengthD)
  ultimately show ?thesis using keeps(1) gs(1) ds unfolding e_def by blast
qed

definition web_row :: log_entry where
  "web_row = \<lparr>le_ts = 5, le_line = ''hi'', le_metadata = [(''app'', ''web'')]\<rparr>"

definition web_query :: log_query where
  "web_query = \<lparr>lq_matchers = [\<lparr>lm_name = ''app'', lm_op = MatchEq, lm_value = ''web''\<rparr>], lq_line_filters = [],
     lq_stages = [LogfmtStage, FieldStage \<lparr>ff_name = ''app'', ff_op = OpEq, ff_value = StringValue ''web''\<rparr>]\<rparr>"

lemma strip_leading_id: "list_all (\<lambda>w. w = [] \<or> \<not> starts_with s w) ws \<Longrightarrow> strip_leading ws s = s"
proof -
  assume "list_all (\<lambda>w. w = [] \<or> \<not> starts_with s w) ws"
  then have "find (\<lambda>w. w \<noteq> [] \<and> starts_with s w) ws = None" by (auto simp: find_None_iff list_all_iff)
  then show ?thesis by (simp add: strip_leading.simps [of ws])
qed

lemma trim_web: "trim_text ''web'' = ''web''"
proof -
  have "strip_leading white_space ''web'' = ''web''"
    by (rule strip_leading_id) code_simp
  moreover have "strip_leading (map rev white_space) (rev ''web'') = rev ''web''"
    by (rule strip_leading_id) code_simp
  ultimately show ?thesis by (simp add: trim_text_def)
qed

lemma web_values: "canonical_index_values ''web'' = [''web'']"
proof -
  have d: "\<not> is_digit (CHR ''w'')" "\<not> is_digit (CHR ''b'')" by (simp_all add: is_digit_def digit_val_def)
  have "decimal_parse ''web'' = None" by (simp add: decimal_parse_def trim_web parse_i64_def parse_digits_def d)
  moreover have "parse_duration_ns ''web'' = Inl InvalidDuration"
    by (simp add: parse_duration_ns_def trim_web duration_loop.simps [of "''web''"] d)
  ultimately show ?thesis by (simp add: canonical_index_values_def)
qed

lemma hi_logfmt: "extract_logfmt ''hi'' = None"
  by (simp add: extract_logfmt_def extract_logfmt_loop.simps [of "''hi''"] is_ascii_whitespace_def)

lemma web_accepts: "process_entry (\<lambda>_. None) web_query [] None web_row \<noteq> None"
  by (simp add: process_entry_def web_query_def web_row_def add_metadata_def label_matches_def lookup_or_empty_def pipeline_step_def
      hi_logfmt set_parser_error_def field_matches_def parser_error_field_def parser_error_details_field_def)

lemma web_tokens: "\<exists>t. window_tokens (\<lambda>_. None) [web_row] = Some [[t]]"
  by (simp add: window_tokens_def div_ceil_def bloom_window_rows_def indexed_tokens_def extract_json_def indexed_logfmt_fields_def web_row_def
      web_values encode_exact_field_token_def upt_rec)

lemma web_index: "\<exists>file. Option.bind (encode_blooms greek (map of_char) six_sizes six_sizes (\<lambda>_. None) [[web_row]]) write_index_sections = Some file \<and>
  length file < 2 ^ 32"
proof -
  have size: "length (bloom_encode f) \<le> 12 + 2 ^ 29" if "filter_ok f" for f
    using that by (simp add: length_bloom_encode filter_ok_def bloom_ok_def)
  obtain t where t: "window_tokens (\<lambda>_. None) [web_row] = Some [[t]]" using web_tokens by blast
  obtain l where l: "line_bloom greek six_sizes (map (\<lambda>e. map of_char (le_line e)) [web_row]) = Some l" "filter_ok l"
    using line_bloom_ok [OF examples_ok(2)] by blast
  have "(1 :: nat) \<le> 2 ^ 24" by simp
  from capacity_filter [OF examples_ok(2) this, of "[t]"] obtain f where f: "bloom_with_capacity six_sizes 1 = Some f"
    "filter_ok (fold bloom_insert [t] f)" by blast
  have w: "encode_window six_sizes [t] = Some (le_nat 4 (length (bloom_encode (bloom_insert t f))) @ bloom_encode (bloom_insert t f))"
    using f(1) by (simp add: encode_window_def max_exact_tokens_per_window_def Let_def)
  define bs where "bs = bloom_file_magic @ le_nat 4 1 @ (le_nat 4 (length (bloom_encode l)) @ bloom_encode l) @ le_nat 4 1 @
    (le_nat 4 (length (bloom_encode (bloom_insert t f))) @ bloom_encode (bloom_insert t f))"
  have "encode_blooms greek (map of_char) six_sizes six_sizes (\<lambda>_. None) [[web_row]] = Some bs"
    using t l(1) w by (simp add: encode_blooms_def encode_group_blooms_def bs_def Let_def del: le_nat.simps)
  moreover have "length bs \<le> 20 + 2 * (12 + 2 ^ 29)"
    using size [OF l(2)] size [OF f(2)] by (simp add: bs_def bloom_file_magic_def)
  ultimately show ?thesis by (simp add: write_index_sections_def index_magic_def)
qed

theorem exact_pushdown_never_hides_witness:
  "\<exists>file gs. Option.bind (encode_blooms greek (map of_char) six_sizes six_sizes (\<lambda>_. None) [[web_row]]) write_index_sections = Some file \<and>
    build_bloom_index file [1] = Inr gs \<and> exact_field_bloom_prune file (snd (gs ! 0)) (exact_field_predicates web_query)"
proof -
  obtain whole where w: "Option.bind (encode_blooms greek (map of_char) six_sizes six_sizes (\<lambda>_. None) [[web_row]]) write_index_sections = Some whole"
    "length whole < 2 ^ 32" using web_index by blast
  have "numbers_parsed (lq_stages web_query)" by (simp add: numbers_parsed_def web_query_def)
  from exact_pushdown_never_hides [OF w examples_ok(2) examples_ok(2), of 0 0 web_query None] this web_accepts w(1)
  show ?thesis by auto
qed

end
