(* ===== verification/Policy.thy ===== *)
theory Policy
  imports Strings Tenant "HOL-Library.AList"
begin

text \<open>
  \<open>signy/src/tenant_policy.rs\<close>: what the control plane pushed for each tenant, the files it is
  kept in, and the cutoffs it comes to. A period is nanoseconds; the encoding of a document and
  the rendering of an instant are parameters (\<open>policy_codec\<close>). The store is the local one: a
  directory, with a fault of the device at any of its steps.
\<close>

subsection \<open>Periods and limits\<close>

datatype retention = Finite nat | Infinite

datatype policy_signal = PolicyLogs | PolicyTraces | PolicyMetrics

record signal_retention =
  sr_retention :: retention
  sr_raw :: string

record signal_retentions =
  ss_logs :: "signal_retention option"
  ss_traces :: "signal_retention option"
  ss_metrics :: "signal_retention option"

definition signal_retentions_get :: "signal_retentions \<Rightarrow> policy_signal \<Rightarrow> signal_retention option" where
  "signal_retentions_get ss sg =
     (case sg of PolicyLogs \<Rightarrow> ss_logs ss | PolicyTraces \<Rightarrow> ss_traces ss | PolicyMetrics \<Rightarrow> ss_metrics ss)"

definition signal_retentions_raw :: "signal_retentions \<Rightarrow> policy_signal \<Rightarrow> string option" where
  "signal_retentions_raw ss sg = map_option sr_raw (signal_retentions_get ss sg)"

record retention_request =
  rr_logs :: "string option"
  rr_traces :: "string option"
  rr_metrics :: "string option"

datatype storage_limit = Unlimited | Bytes nat

datatype policy_parse_error =
  NotADuration | NotANumber | DurationOverflow | DeletedTenant | LimitIsARate | NotASize | LimitOverflow

fun first_suffix :: "(string \<times> nat) list \<Rightarrow> string \<Rightarrow> (string \<times> nat) option" where
  "first_suffix [] v = None"
| "first_suffix ((s, u) # rest) v = (case strip_suffix v s of Some n \<Rightarrow> Some (n, u) | None \<Rightarrow> first_suffix rest v)"

definition duration_units :: "(string \<times> nat) list" where
  "duration_units =
     [(''ms'', 1000000), (''s'', 1000000000), (''m'', 60 * 1000000000), (''h'', 60 * 60 * 1000000000),
      (''d'', 24 * 60 * 60 * 1000000000), (''w'', 7 * 24 * 60 * 60 * 1000000000),
      (''y'', 365 * 24 * 60 * 60 * 1000000000)]"

definition parse_retention :: "string \<Rightarrow> policy_parse_error + retention" where
  "parse_retention raw =
     (let v = trim raw in
      if map ascii_lower v = ''infinite'' then Inr Infinite
      else if v = ''0'' then Inr (Finite 0)
      else
        (case first_suffix duration_units v of
           None \<Rightarrow> Inl NotADuration
         | Some (number, unit_nanos) \<Rightarrow>
             (case parse_u64 (trim number) of
                None \<Rightarrow> Inl NotANumber
              | Some n \<Rightarrow>
                  (case checked_mul_u64 n unit_nanos of
                     None \<Rightarrow> Inl DurationOverflow
                   | Some nanos \<Rightarrow> Inr (Finite nanos)))))"

definition parse_signal :: "bool \<Rightarrow> string option \<Rightarrow> policy_parse_error + signal_retention option" where
  "parse_signal tenant_is_deleted raw =
     (case raw of
        None \<Rightarrow> Inr None
      | Some raw \<Rightarrow>
          (case parse_retention raw of
             Inl e \<Rightarrow> Inl e
           | Inr r \<Rightarrow>
               (let keeps_data = (r \<noteq> Finite 0) in
                if tenant_is_deleted \<and> keeps_data then Inl DeletedTenant
                else Inr (Some \<lparr>sr_retention = r, sr_raw = trim raw\<rparr>))))"

definition parse_signal_retentions :: "retention \<Rightarrow> retention_request \<Rightarrow> policy_parse_error + signal_retentions" where
  "parse_signal_retentions r rq =
     (let deleted = (r = Finite 0) in
      case parse_signal deleted (rr_logs rq) of
        Inl e \<Rightarrow> Inl e
      | Inr logs \<Rightarrow>
     (case parse_signal deleted (rr_traces rq) of
        Inl e \<Rightarrow> Inl e
      | Inr traces \<Rightarrow>
     (case parse_signal deleted (rr_metrics rq) of
        Inl e \<Rightarrow> Inl e
      | Inr metrics \<Rightarrow> Inr \<lparr>ss_logs = logs, ss_traces = traces, ss_metrics = metrics\<rparr>)))"

definition limit_units :: "(string \<times> nat) list" where
  "limit_units = [(''KiB'', 1024), (''MiB'', 1024 * 1024), (''GiB'', 1024 * 1024 * 1024), (''B'', 1)]"

definition parse_storage_limit :: "string \<Rightarrow> policy_parse_error + storage_limit" where
  "parse_storage_limit raw =
     (let v = trim raw in
      if map ascii_lower v = ''unlimited'' then Inr Unlimited
      else if strip_suffix v ''/s'' \<noteq> None then Inl LimitIsARate
      else
        (let (number, u) = (case first_suffix limit_units v of Some p \<Rightarrow> p | None \<Rightarrow> (v, 1)) in
         case parse_u64 (trim number) of
           None \<Rightarrow> Inl NotASize
         | Some n \<Rightarrow> (case checked_mul_u64 n u of None \<Rightarrow> Inl LimitOverflow | Some bs \<Rightarrow> Inr (Bytes bs))))"

subsection \<open>Entries\<close>

record policy_entry =
  pe_revision :: nat
  pe_retention :: retention
  pe_raw :: string
  pe_max_stored_bytes :: "storage_limit option"
  pe_raw_max_stored_bytes :: "string option"
  pe_signals :: signal_retentions
  pe_updated_at :: nat

record policy_view =
  pv_revision :: nat
  pv_retention :: string
  pv_max_stored_bytes :: "string option"
  pv_log_retention :: "string option"
  pv_trace_retention :: "string option"
  pv_metric_retention :: "string option"
  pv_updated_at :: nat

definition policy_entry_view :: "policy_entry \<Rightarrow> policy_view" where
  "policy_entry_view e =
     \<lparr>pv_revision = pe_revision e, pv_retention = pe_raw e, pv_max_stored_bytes = pe_raw_max_stored_bytes e,
      pv_log_retention = signal_retentions_raw (pe_signals e) PolicyLogs,
      pv_trace_retention = signal_retentions_raw (pe_signals e) PolicyTraces,
      pv_metric_retention = signal_retentions_raw (pe_signals e) PolicyMetrics, pv_updated_at = pe_updated_at e\<rparr>"

definition retention_for :: "policy_entry \<Rightarrow> policy_signal \<Rightarrow> retention" where
  "retention_for e sg =
     (case signal_retentions_get (pe_signals e) sg of Some o' \<Rightarrow> sr_retention o' | None \<Rightarrow> pe_retention e)"

definition same_policy_document :: "policy_entry \<Rightarrow> string \<Rightarrow> string option \<Rightarrow> signal_retentions \<Rightarrow> bool" where
  "same_policy_document e raw raw_max ss \<longleftrightarrow>
     pe_raw e = raw \<and> pe_raw_max_stored_bytes e = raw_max \<and>
     list_all (\<lambda>sg. signal_retentions_raw (pe_signals e) sg = signal_retentions_raw ss sg)
       [PolicyLogs, PolicyTraces, PolicyMetrics]"

type_synonym policy_map = "tenant_id \<rightharpoonup> policy_entry"

definition policy_retention :: "policy_map \<Rightarrow> tenant_id \<Rightarrow> retention option" where
  "policy_retention ps t = map_option pe_retention (ps t)"

definition policy_signal_retention :: "policy_map \<Rightarrow> tenant_id \<Rightarrow> policy_signal \<Rightarrow> retention option" where
  "policy_signal_retention ps t sg = map_option (\<lambda>e. retention_for e sg) (ps t)"

definition policy_max_stored_bytes :: "policy_map \<Rightarrow> tenant_id \<Rightarrow> storage_limit option" where
  "policy_max_stored_bytes ps t = Option.bind (ps t) pe_max_stored_bytes"

definition policy_contains :: "policy_map \<Rightarrow> tenant_id \<Rightarrow> bool" where
  "policy_contains ps t \<longleftrightarrow> ps t \<noteq> None"

subsection \<open>The files\<close>

record policy_document =
  pd_revision :: nat
  pd_retention :: string
  pd_max_stored_bytes :: "string option"
  pd_log_retention :: "string option"
  pd_trace_retention :: "string option"
  pd_metric_retention :: "string option"
  pd_updated_at :: string

record policy_codec =
  pc_encode :: "policy_document \<Rightarrow> bytes"
  pc_decode :: "bytes \<Rightarrow> policy_document option"
  pc_format :: "nat \<Rightarrow> string"
  pc_parse :: "string \<Rightarrow> nat option"

definition policy_file_suffix :: bytes where
  "policy_file_suffix = map of_char ''.json''"

definition policy_temp_suffix :: bytes where
  "policy_temp_suffix = map of_char ''.json.tmp''"

type_synonym policy_files = "(bytes \<times> bytes) list"

text \<open>Where a write stops: before the temporary file, with so much of it written, or behind the
  rename, at the sync of the directory.\<close>

datatype write_fault = Works | StopsFirst | StopsWriting nat | StopsRenamed

definition write_local_policy :: "write_fault \<Rightarrow> bytes \<Rightarrow> bytes \<Rightarrow> bytes \<Rightarrow> policy_files \<Rightarrow> (unit + unit) \<times> policy_files" where
  "write_local_policy fault file_name temp_name body fs =
     (case fault of
        StopsFirst \<Rightarrow> (Inl (), fs)
      | StopsWriting n \<Rightarrow> (Inl (), AList.update temp_name (take n body) fs)
      | _ \<Rightarrow>
          (let fs1 = AList.delete temp_name fs; fs2 = AList.update file_name body fs1
           in (if fault = StopsRenamed then Inl () else Inr (), fs2)))"

definition policy_put :: "policy_codec \<Rightarrow> write_fault \<Rightarrow> tenant_id \<Rightarrow> policy_document \<Rightarrow> policy_files \<Rightarrow> (unit + unit) \<times> policy_files" where
  "policy_put pc fault t d fs =
     write_local_policy fault (t @ policy_file_suffix) (t @ policy_temp_suffix) (pc_encode pc d) fs"

text \<open>A removal stops before the file is gone or behind it.\<close>

definition policy_delete :: "write_fault \<Rightarrow> tenant_id \<Rightarrow> policy_files \<Rightarrow> (unit + unit) \<times> policy_files" where
  "policy_delete fault t fs =
     (if map_of fs (t @ policy_file_suffix) = None then (case fault of StopsFirst \<Rightarrow> (Inl (), fs) | _ \<Rightarrow> (Inr (), fs))
      else (case fault of
              Works \<Rightarrow> (Inr (), AList.delete (t @ policy_file_suffix) fs)
            | StopsRenamed \<Rightarrow> (Inl (), AList.delete (t @ policy_file_suffix) fs)
            | _ \<Rightarrow> (Inl (), fs)))"

datatype load_error =
  UnexpectedObject bytes | InvalidPolicyFile bytes | InvalidPolicy bytes | InvalidRetention bytes |
  InvalidLimit bytes | InvalidSignal bytes | InvalidTimestamp bytes

definition load_entry :: "policy_codec \<Rightarrow> bytes \<Rightarrow> bytes \<Rightarrow> load_error + tenant_id \<times> policy_entry" where
  "load_entry pc file_name body =
     (case strip_suffix file_name policy_file_suffix of
        None \<Rightarrow> Inl (UnexpectedObject file_name)
      | Some raw_tenant \<Rightarrow>
     (case tenant_parse raw_tenant of
        Inl _ \<Rightarrow> Inl (InvalidPolicyFile file_name)
      | Inr t \<Rightarrow>
     (case pc_decode pc body of
        None \<Rightarrow> Inl (InvalidPolicy file_name)
      | Some d \<Rightarrow>
     (case parse_retention (pd_retention d) of
        Inl _ \<Rightarrow> Inl (InvalidRetention file_name)
      | Inr r \<Rightarrow>
     (case (case pd_max_stored_bytes d of
              None \<Rightarrow> Inr None
            | Some raw \<Rightarrow> (case parse_storage_limit raw of Inl e \<Rightarrow> Inl e | Inr l \<Rightarrow> Inr (Some l))) of
        Inl _ \<Rightarrow> Inl (InvalidLimit file_name)
      | Inr limit \<Rightarrow>
     (case parse_signal_retentions r
             \<lparr>rr_logs = pd_log_retention d, rr_traces = pd_trace_retention d, rr_metrics = pd_metric_retention d\<rparr> of
        Inl _ \<Rightarrow> Inl (InvalidSignal file_name)
      | Inr ss \<Rightarrow>
     (case pc_parse pc (pd_updated_at d) of
        None \<Rightarrow> Inl (InvalidTimestamp file_name)
      | Some at \<Rightarrow>
          Inr (t, \<lparr>pe_revision = pd_revision d, pe_retention = r, pe_raw = pd_retention d, pe_max_stored_bytes = limit,
                   pe_raw_max_stored_bytes = pd_max_stored_bytes d, pe_signals = ss, pe_updated_at = at\<rparr>))))))))"

fun load_policies :: "policy_codec \<Rightarrow> policy_files \<Rightarrow> policy_map \<Rightarrow> load_error + policy_map" where
  "load_policies pc [] entries = Inr entries"
| "load_policies pc ((file_name, body) # fs) entries =
     (if strip_suffix file_name policy_temp_suffix \<noteq> None then load_policies pc fs entries
      else (case load_entry pc file_name body of
              Inl e \<Rightarrow> Inl e
            | Inr (t, e) \<Rightarrow> load_policies pc fs (entries(t \<mapsto> e))))"

definition load_all :: "policy_codec \<Rightarrow> policy_files \<Rightarrow> load_error + policy_map" where
  "load_all pc fs = load_policies pc fs (\<lambda>_. None)"

subsection \<open>The policy of an instance\<close>

record tenant_policy =
  tp_files :: policy_files
  tp_entries :: policy_map
  tp_accepted :: nat
  tp_rejected :: nat
  tp_persist_errors :: nat

datatype policy_error = InvalidPush policy_parse_error | PersistFailed | RevisionConflict nat

datatype push_result = Applied policy_view | Duplicate policy_view | Stale policy_view

definition push_with_signal_retentions ::
    "policy_codec \<Rightarrow> write_fault \<Rightarrow> nat \<Rightarrow> tenant_id \<Rightarrow> nat \<Rightarrow> string \<Rightarrow> string option \<Rightarrow> retention_request \<Rightarrow> tenant_policy
       \<Rightarrow> (policy_error + push_result) \<times> tenant_policy" where
  "push_with_signal_retentions pc fault now t revision raw raw_max rq tp =
     (let rejected = tp\<lparr>tp_rejected := tp_rejected tp + 1\<rparr> in
      case parse_retention raw of
        Inl e \<Rightarrow> (Inl (InvalidPush e), rejected)
      | Inr r \<Rightarrow>
     (case (case raw_max of
              None \<Rightarrow> Inr None
            | Some m \<Rightarrow> (case parse_storage_limit m of Inl e \<Rightarrow> Inl e | Inr l \<Rightarrow> Inr (Some l))) of
        Inl e \<Rightarrow> (Inl (InvalidPush e), rejected)
      | Inr limit \<Rightarrow>
     (case parse_signal_retentions r rq of
        Inl e \<Rightarrow> (Inl (InvalidPush e), rejected)
      | Inr ss \<Rightarrow>
          (let raw' = trim raw; raw_max' = map_option trim raw_max;
               entry = \<lparr>pe_revision = revision, pe_retention = r, pe_raw = raw', pe_max_stored_bytes = limit,
                        pe_raw_max_stored_bytes = raw_max', pe_signals = ss, pe_updated_at = now\<rparr>;
               document = \<lparr>pd_revision = revision, pd_retention = raw', pd_max_stored_bytes = raw_max',
                           pd_log_retention = signal_retentions_raw ss PolicyLogs,
                           pd_trace_retention = signal_retentions_raw ss PolicyTraces,
                           pd_metric_retention = signal_retentions_raw ss PolicyMetrics,
                           pd_updated_at = pc_format pc now\<rparr>;
               store = (case policy_put pc fault t document (tp_files tp) of
                  (Inl _, fs) \<Rightarrow>
                    (Inl PersistFailed, tp\<lparr>tp_files := fs, tp_persist_errors := tp_persist_errors tp + 1\<rparr>)
                | (Inr _, fs) \<Rightarrow>
                    (Inr (Applied (policy_entry_view entry)),
                     tp\<lparr>tp_files := fs, tp_entries := (tp_entries tp)(t \<mapsto> entry), tp_accepted := tp_accepted tp + 1\<rparr>))
           in case tp_entries tp t of
                Some current \<Rightarrow>
                  if revision < pe_revision current then (Inr (Stale (policy_entry_view current)), tp)
                  else if revision = pe_revision current then
                    (if same_policy_document current raw' raw_max' ss
                     then (Inr (Duplicate (policy_entry_view current)), tp)
                     else (Inl (RevisionConflict revision), tp))
                  else store
              | None \<Rightarrow> store))))"

definition policy_remove :: "write_fault \<Rightarrow> tenant_id \<Rightarrow> tenant_policy \<Rightarrow> (policy_error + unit) \<times> tenant_policy" where
  "policy_remove fault t tp =
     (case policy_delete fault t (tp_files tp) of
        (Inl _, fs) \<Rightarrow> (Inl PersistFailed, tp\<lparr>tp_files := fs, tp_persist_errors := tp_persist_errors tp + 1\<rparr>)
      | (Inr _, fs) \<Rightarrow>
          (Inr (), tp\<lparr>tp_files := fs, tp_entries := (tp_entries tp)(t := None), tp_accepted := tp_accepted tp + 1\<rparr>))"

definition policy_loaded :: "policy_codec \<Rightarrow> policy_files \<Rightarrow> load_error + tenant_policy" where
  "policy_loaded pc fs =
     (case load_all pc fs of
        Inl e \<Rightarrow> Inl e
      | Inr entries \<Rightarrow>
          Inr \<lparr>tp_files = fs, tp_entries = entries, tp_accepted = 0, tp_rejected = 0, tp_persist_errors = 0\<rparr>)"

definition is_tenant_allowed :: "tenant_policy \<Rightarrow> tenant_id \<Rightarrow> bool" where
  "is_tenant_allowed tp t = policy_contains (tp_entries tp) t"

subsection \<open>Cutoffs\<close>

record cutoffs =
  cu_policies :: policy_map
  cu_now :: int

definition i64_max :: int where "i64_max = 2 ^ 63 - 1"

definition i64_min :: int where "i64_min = - (2 ^ 63)"

definition saturating_sub_i64 :: "int \<Rightarrow> int \<Rightarrow> int" where
  "saturating_sub_i64 a b = max i64_min (min i64_max (a - b))"

definition cutoff_ns :: "cutoffs \<Rightarrow> tenant_id \<Rightarrow> policy_signal \<Rightarrow> int option" where
  "cutoff_ns cu t sg =
     (case policy_signal_retention (cu_policies cu) t sg of
        None \<Rightarrow> None
      | Some Infinite \<Rightarrow> None
      | Some (Finite period) \<Rightarrow> Some (saturating_sub_i64 (cu_now cu) (min (int period) i64_max)))"

definition is_expired :: "cutoffs \<Rightarrow> tenant_id \<Rightarrow> policy_signal \<Rightarrow> int \<Rightarrow> bool" where
  "is_expired cu t sg ts = (case cutoff_ns cu t sg of None \<Rightarrow> False | Some cutoff \<Rightarrow> ts < cutoff)"

subsection \<open>What is stored parses back\<close>

lemma trim_trim [simp]: "trim (trim s) = trim s"
proof -
  define u where "u = dropWhile is_space s"
  define v where "v = rev (dropWhile is_space (rev u))"
  have "u = [] \<or> \<not> is_space (hd u)" unfolding u_def using hd_dropWhile by blast
  moreover have "prefix v u"
    unfolding v_def using suffix_dropWhile [of is_space "rev u"] by (simp add: suffix_to_prefix)
  ultimately have "v = [] \<or> \<not> is_space (hd v)" by (cases v; cases u) auto
  then have "dropWhile is_space v = v" by (cases v) auto
  moreover have "dropWhile is_space (rev v) = rev v" by (simp add: v_def dropWhile_idem)
  ultimately show ?thesis by (simp add: trim_def trim_start_def flip: u_def v_def)
qed

lemma parse_trimmed [simp]:
  "parse_retention (trim raw) = parse_retention raw" "parse_storage_limit (trim raw) = parse_storage_limit raw"
  by (simp_all add: parse_retention_def parse_storage_limit_def)

lemma parse_signal_again:
  "parse_signal d raw = Inr x \<Longrightarrow> parse_signal d (map_option sr_raw x) = Inr x"
  by (auto simp: parse_signal_def Let_def split: option.splits sum.splits if_splits)

lemma parse_signal_retentions_again:
  assumes "parse_signal_retentions r rq = Inr ss"
  shows "parse_signal_retentions r
    \<lparr>rr_logs = signal_retentions_raw ss PolicyLogs, rr_traces = signal_retentions_raw ss PolicyTraces,
     rr_metrics = signal_retentions_raw ss PolicyMetrics\<rparr> = Inr ss"
proof -
  obtain l t m where p: "parse_signal (r = Finite 0) (rr_logs rq) = Inr l" "parse_signal (r = Finite 0) (rr_traces rq) = Inr t"
    "parse_signal (r = Finite 0) (rr_metrics rq) = Inr m" "ss = \<lparr>ss_logs = l, ss_traces = t, ss_metrics = m\<rparr>"
    using assms by (auto simp: parse_signal_retentions_def Let_def split: sum.splits)
  show ?thesis
    using p(4) parse_signal_again [OF p(1)] parse_signal_again [OF p(2)] parse_signal_again [OF p(3)]
    by (simp add: parse_signal_retentions_def Let_def signal_retentions_raw_def signal_retentions_get_def)
qed

text \<open>What the parameters must do: give back what was encoded.\<close>

definition codec_ok :: "policy_codec \<Rightarrow> bool" where
  "codec_ok pc \<longleftrightarrow> (\<forall>d. pc_decode pc (pc_encode pc d) = Some d) \<and> (\<forall>t. pc_parse pc (pc_format pc t) = Some t)"

lemma names_apart: "t @ policy_file_suffix \<noteq> u @ policy_temp_suffix"
proof
  assume "t @ policy_file_suffix = u @ policy_temp_suffix"
  then have "last (t @ policy_file_suffix) = last (u @ policy_temp_suffix)" by simp
  then show False by (simp add: policy_file_suffix_def policy_temp_suffix_def)
qed

lemma temp_names:
  "strip_suffix (t @ policy_temp_suffix) policy_temp_suffix = Some t"
  "strip_suffix (t @ policy_file_suffix) policy_temp_suffix = None"
  using names_apart [of t] strip_suffix_Some [of "t @ policy_file_suffix" policy_temp_suffix]
  by (auto intro: strip_suffix_append) (metis not_None_eq)

text \<open>A directory that holds exactly the entries in memory, beside temporary files.\<close>

definition stores :: "policy_codec \<Rightarrow> policy_files \<Rightarrow> policy_map \<Rightarrow> bool" where
  "stores pc fs entries \<longleftrightarrow>
     distinct (map fst fs) \<and>
     (\<forall>n b. map_of fs n = Some b \<longrightarrow> strip_suffix n policy_temp_suffix \<noteq> None \<or>
        (\<exists>t e. n = t @ policy_file_suffix \<and> load_entry pc n b = Inr (t, e) \<and> entries t = Some e)) \<and>
     (\<forall>t e. entries t = Some e \<longrightarrow> (\<exists>b. map_of fs (t @ policy_file_suffix) = Some b))"

lemma load_entry_name: "load_entry pc n b = Inr (t, e) \<Longrightarrow> n = t @ policy_file_suffix \<and> is_tenant t"
  by (auto simp: load_entry_def tenant_parse_Inr_iff dest!: strip_suffix_Some split: option.splits sum.splits)

lemma load_policies_stored:
  assumes "distinct (map fst fs)"
    and "\<And>n b. map_of fs n = Some b \<Longrightarrow> strip_suffix n policy_temp_suffix \<noteq> None \<or>
        (\<exists>t e. n = t @ policy_file_suffix \<and> load_entry pc n b = Inr (t, e) \<and> entries t = Some e)"
  shows "load_policies pc fs m = Inr (\<lambda>t. if map_of fs (t @ policy_file_suffix) \<noteq> None then entries t else m t)"
  using assms
proof (induction fs arbitrary: m)
  case (Cons f fs)
  obtain n b where f: "f = (n, b)" by fastforce
  have d: "distinct (map fst fs)" "n \<notin> fst ` set fs" using Cons.prems(1) by (auto simp: f)
  have rest: "strip_suffix n' policy_temp_suffix \<noteq> None \<or>
      (\<exists>t e. n' = t @ policy_file_suffix \<and> load_entry pc n' b' = Inr (t, e) \<and> entries t = Some e)"
    if "map_of fs n' = Some b'" for n' b'
  proof (rule Cons.prems(2))
    have "n' \<noteq> n" using that d(2) by (metis map_of_eq_None_iff option.distinct(1))
    then show "map_of (f # fs) n' = Some b'" using that by (simp add: f)
  qed
  note IH = Cons.IH [OF d(1) rest]
  show ?case
  proof (cases "strip_suffix n policy_temp_suffix")
    case None
    then obtain t e where t: "n = t @ policy_file_suffix" "load_entry pc n b = Inr (t, e)" "entries t = Some e"
      using Cons.prems(2) [of n b] by (auto simp: f)
    have "map_of fs (t @ policy_file_suffix) = None" using d(2) t(1) by (simp add: map_of_eq_None_iff)
    then show ?thesis using None t by (auto simp: f IH fun_eq_iff)
  next
    case (Some u)
    then have "t @ policy_file_suffix \<noteq> n" for t using temp_names(2) by force
    then show ?thesis using Some by (auto simp: f IH)
  qed
qed simp

lemma load_all_stored: "stores pc fs entries \<Longrightarrow> load_all pc fs = Inr entries"
proof -
  assume s: "stores pc fs entries"
  then have "load_all pc fs = Inr (\<lambda>t. if map_of fs (t @ policy_file_suffix) \<noteq> None then entries t else None)"
    unfolding load_all_def by (intro load_policies_stored) (auto simp: stores_def)
  moreover have "(\<lambda>t. if map_of fs (t @ policy_file_suffix) \<noteq> None then entries t else None) = entries"
  proof
    fix t
    have "map_of fs (t @ policy_file_suffix) \<noteq> None" if "entries t = Some e" for e using s that by (auto simp: stores_def)
    then show "(if map_of fs (t @ policy_file_suffix) \<noteq> None then entries t else None) = entries t"
      by (cases "entries t") auto
  qed
  ultimately show ?thesis by simp
qed

lemma load_policies_stores:
  assumes "distinct (map fst fs)" and "load_policies pc fs m = Inr entries"
  shows "(\<forall>n b. map_of fs n = Some b \<longrightarrow> strip_suffix n policy_temp_suffix \<noteq> None \<or>
        (\<exists>t e. n = t @ policy_file_suffix \<and> load_entry pc n b = Inr (t, e) \<and> entries t = Some e)) \<and>
    (\<forall>t. map_of fs (t @ policy_file_suffix) = None \<longrightarrow> entries t = m t)"
  using assms
proof (induction fs arbitrary: m)
  case (Cons f fs)
  obtain n b where f: "f = (n, b)" by fastforce
  have d: "distinct (map fst fs)" "n \<notin> fst ` set fs" using Cons.prems(1) by (auto simp: f)
  show ?case
  proof (cases "strip_suffix n policy_temp_suffix")
    case None
    then obtain t e where t: "load_entry pc n b = Inr (t, e)" "load_policies pc fs (m(t \<mapsto> e)) = Inr entries"
      using Cons.prems(2) by (auto simp: f split: sum.splits)
    then have n: "n = t @ policy_file_suffix" using load_entry_name by blast
    have "map_of fs n = None" using d(2) by (simp add: map_of_eq_None_iff)
    then show ?thesis using Cons.IH [OF d(1) t(2)] t(1) n by (auto simp: f)
  next
    case (Some u)
    then have "n \<noteq> t @ policy_file_suffix" for t using temp_names(2) by force
    moreover have "load_policies pc fs m = Inr entries" using Cons.prems(2) Some by (simp add: f)
    ultimately show ?thesis using Cons.IH [OF d(1)] Some by (auto simp: f)
  qed
qed simp

lemma policy_loaded_stores:
  assumes "distinct (map fst fs)" and "policy_loaded pc fs = Inr tp"
  shows "stores pc (tp_files tp) (tp_entries tp)"
proof -
  have l: "tp_files tp = fs" "load_policies pc fs (\<lambda>_. None) = Inr (tp_entries tp)"
    using assms(2) by (auto simp: policy_loaded_def load_all_def split: sum.splits)
  show ?thesis
    unfolding stores_def l(1) using load_policies_stores [OF assms(1) l(2)] assms(1) by (metis not_None_eq option.distinct(1))
qed

subsection \<open>Every operation keeps the directory\<close>

lemma map_of_update [simp]: "map_of (AList.update k v fs) = (map_of fs)(k \<mapsto> v)"
  by (simp add: update_conv')

lemma map_of_delete [simp]: "map_of (AList.delete k fs) = (map_of fs)(k := None)"
  by (simp add: delete_conv')

lemma temp_suffix_written: "t @ policy_file_suffix \<noteq> u @ policy_temp_suffix" "u @ policy_temp_suffix \<noteq> t @ policy_file_suffix"
  using names_apart by metis+

lemma stores_temp:
  "stores pc fs entries \<Longrightarrow> stores pc (AList.update (t @ policy_temp_suffix) b fs) entries"
  "stores pc fs entries \<Longrightarrow> stores pc (AList.delete (t @ policy_temp_suffix) fs) entries"
  unfolding stores_def
  by (auto simp: distinct_update temp_names temp_suffix_written distinct_delete)

lemma stores_put:
  assumes "stores pc fs entries" and "load_entry pc (t @ policy_file_suffix) b = Inr (t, e)"
  shows "stores pc (AList.update (t @ policy_file_suffix) b fs) (entries(t \<mapsto> e))"
  using assms unfolding stores_def by (auto simp: distinct_update) blast

lemma stores_removed:
  assumes "stores pc fs entries"
  shows "stores pc (AList.delete (t @ policy_file_suffix) fs) (entries(t := None))"
  using assms unfolding stores_def by (auto simp: distinct_delete) blast

lemma stores_absent:
  "stores pc fs entries \<Longrightarrow> map_of fs (t @ policy_file_suffix) = None \<Longrightarrow> entries(t := None) = entries"
  unfolding stores_def by (metis fun_upd_triv not_None_eq)

lemma pushed_entry_loads:
  assumes "codec_ok pc" and "is_tenant t" and "parse_retention raw = Inr r"
    and "(case raw_max of None \<Rightarrow> Inr None
          | Some m \<Rightarrow> (case parse_storage_limit m of Inl e \<Rightarrow> Inl e | Inr l \<Rightarrow> Inr (Some l))) = Inr limit"
    and "parse_signal_retentions r rq = Inr ss"
  shows "load_entry pc (t @ policy_file_suffix)
      (pc_encode pc \<lparr>pd_revision = revision, pd_retention = trim raw, pd_max_stored_bytes = map_option trim raw_max,
         pd_log_retention = signal_retentions_raw ss PolicyLogs, pd_trace_retention = signal_retentions_raw ss PolicyTraces,
         pd_metric_retention = signal_retentions_raw ss PolicyMetrics, pd_updated_at = pc_format pc now\<rparr>)
    = Inr (t, \<lparr>pe_revision = revision, pe_retention = r, pe_raw = trim raw, pe_max_stored_bytes = limit,
         pe_raw_max_stored_bytes = map_option trim raw_max, pe_signals = ss, pe_updated_at = now\<rparr>)"
proof -
  have "tenant_parse t = Inr t" using assms(2) by (simp add: tenant_parse_Inr_iff)
  then show ?thesis
    using assms parse_signal_retentions_again [OF assms(5)]
    by (cases raw_max) (auto simp: load_entry_def codec_ok_def split: sum.splits)
qed

definition quiet_fault :: "write_fault \<Rightarrow> bool" where
  "quiet_fault f \<longleftrightarrow> f \<noteq> StopsRenamed"

lemma push_stores:
  assumes "codec_ok pc" and "is_tenant t" and "quiet_fault fault" and "stores pc (tp_files tp) (tp_entries tp)"
    and "push_with_signal_retentions pc fault now t revision raw raw_max rq tp = (res, tp')"
  shows "stores pc (tp_files tp') (tp_entries tp')"
proof (cases "tp_files tp' = tp_files tp \<and> tp_entries tp' = tp_entries tp")
  case False
  obtain r limit ss where p: "parse_retention raw = Inr r"
    "(case raw_max of None \<Rightarrow> Inr None
      | Some m \<Rightarrow> (case parse_storage_limit m of Inl e \<Rightarrow> Inl e | Inr l \<Rightarrow> Inr (Some l))) = Inr limit"
    "parse_signal_retentions r rq = Inr ss"
    using assms(5) False by (auto simp: push_with_signal_retentions_def Let_def split: sum.splits)
  define body where "body = pc_encode pc \<lparr>pd_revision = revision, pd_retention = trim raw, pd_max_stored_bytes = map_option trim raw_max,
         pd_log_retention = signal_retentions_raw ss PolicyLogs, pd_trace_retention = signal_retentions_raw ss PolicyTraces,
         pd_metric_retention = signal_retentions_raw ss PolicyMetrics, pd_updated_at = pc_format pc now\<rparr>"
  define e where "e = \<lparr>pe_revision = revision, pe_retention = r, pe_raw = trim raw, pe_max_stored_bytes = limit,
         pe_raw_max_stored_bytes = map_option trim raw_max, pe_signals = ss, pe_updated_at = now\<rparr>"
  have loads: "load_entry pc (t @ policy_file_suffix) body = Inr (t, e)"
    unfolding body_def e_def by (rule pushed_entry_loads [OF assms(1,2) p])
  consider (temp) n where "tp_files tp' = AList.update (t @ policy_temp_suffix) (take n body) (tp_files tp)" "tp_entries tp' = tp_entries tp"
    | (stored) "tp_files tp' = AList.update (t @ policy_file_suffix) body (AList.delete (t @ policy_temp_suffix) (tp_files tp))"
        "tp_entries tp' = (tp_entries tp)(t \<mapsto> e)"
    using assms(3,5) False p
    by (cases fault) (auto simp: push_with_signal_retentions_def Let_def policy_put_def write_local_policy_def quiet_fault_def
        body_def e_def split: option.splits if_splits)
  then show ?thesis
  proof cases
    case temp
    then show ?thesis using stores_temp(1) [OF assms(4)] by simp
  next
    case stored
    then show ?thesis using stores_put [OF stores_temp(2) [OF assms(4)] loads] by simp
  qed
qed (use assms(4) in simp)

lemma remove_stores:
  assumes "quiet_fault fault" and "stores pc (tp_files tp) (tp_entries tp)" and "policy_remove fault t tp = (res, tp')"
  shows "stores pc (tp_files tp') (tp_entries tp')"
  using assms stores_removed [OF assms(2), of t] stores_absent [OF assms(2), of t]
  by (cases fault; cases "map_of (tp_files tp) (t @ policy_file_suffix)")
    (auto simp: policy_remove_def policy_delete_def quiet_fault_def)

datatype policy_op =
  Push write_fault nat tenant_id nat string "string option" retention_request
| Remove write_fault tenant_id

fun policy_op_run :: "policy_codec \<Rightarrow> policy_op \<Rightarrow> tenant_policy \<Rightarrow> tenant_policy" where
  "policy_op_run pc (Push fault now t revision raw raw_max rq) tp =
     snd (push_with_signal_retentions pc fault now t revision raw raw_max rq tp)"
| "policy_op_run pc (Remove fault t) tp = snd (policy_remove fault t tp)"

fun policy_op_quiet :: "policy_op \<Rightarrow> bool" where
  "policy_op_quiet (Push fault now t revision raw raw_max rq) \<longleftrightarrow> is_tenant t \<and> quiet_fault fault"
| "policy_op_quiet (Remove fault t) \<longleftrightarrow> quiet_fault fault"

lemma policy_ops_store:
  "codec_ok pc \<Longrightarrow> list_all policy_op_quiet ops \<Longrightarrow> stores pc (tp_files tp) (tp_entries tp) \<Longrightarrow>
     stores pc (tp_files (fold (policy_op_run pc) ops tp)) (tp_entries (fold (policy_op_run pc) ops tp))"
proof (induction ops arbitrary: tp)
  case (Cons op ops)
  have "stores pc (tp_files (policy_op_run pc op tp)) (tp_entries (policy_op_run pc op tp))"
  proof (cases op)
    case (Push fault now t revision raw raw_max rq)
    then show ?thesis
      using push_stores [OF Cons.prems(1) _ _ Cons.prems(3) prod.collapse [symmetric]] Cons.prems(2) by simp
  next
    case (Remove fault t)
    then show ?thesis using remove_stores [OF _ Cons.prems(3) prod.collapse [symmetric]] Cons.prems(2) by simp
  qed
  then show ?case using Cons.IH Cons.prems(1,2) by simp
qed simp

text \<open>A codec that does: numbers in unary, texts with their length in front.\<close>

definition plain_nat :: "nat \<Rightarrow> bytes" where
  "plain_nat n = replicate n 1 @ [0]"

definition plain_nat_read :: "bytes \<Rightarrow> nat \<times> bytes" where
  "plain_nat_read bs = (let n = length (takeWhile (\<lambda>b. b = 1) bs) in (n, drop (n + 1) bs))"

lemma of_char_u8_inverse: "char_of (unat (of_char c :: u8)) = c"
proof -
  have "(of_char c :: u8) = of_nat (of_char c)" by (cases c) (simp add: of_char_def)
  then have "unat (of_char c :: u8) = of_char c mod 256" by (simp only: unat_of_nat) simp
  then show ?thesis by simp
qed

lemma plain_nat_read [simp]: "plain_nat_read (plain_nat n @ rest) = (n, rest)"
proof -
  have "takeWhile (\<lambda>b. b = 1) (replicate n 1 @ 0 # rest) = (replicate n 1 :: bytes)"
    by (subst takeWhile_append2) auto
  then show ?thesis by (simp add: plain_nat_read_def plain_nat_def Let_def)
qed

definition plain_text :: "string \<Rightarrow> bytes" where
  "plain_text s = plain_nat (length s) @ map of_char s"

definition plain_text_read :: "bytes \<Rightarrow> string \<times> bytes" where
  "plain_text_read bs = (let (n, rest) = plain_nat_read bs in (map (\<lambda>b. char_of (unat b)) (take n rest), drop n rest))"

lemma plain_text_read [simp]: "plain_text_read (plain_text s @ rest) = (s, rest)"
  by (simp add: plain_text_read_def plain_text_def comp_def of_char_u8_inverse)

definition plain_opt :: "string option \<Rightarrow> bytes" where
  "plain_opt x = (case x of None \<Rightarrow> plain_nat 0 | Some s \<Rightarrow> plain_nat 1 @ plain_text s)"

definition plain_opt_read :: "bytes \<Rightarrow> string option \<times> bytes" where
  "plain_opt_read bs = (let (n, rest) = plain_nat_read bs in if n = 0 then (None, rest)
     else (let (s, rest) = plain_text_read rest in (Some s, rest)))"

lemma plain_opt_read [simp]: "plain_opt_read (plain_opt x @ rest) = (x, rest)"
  by (cases x) (simp_all add: plain_opt_read_def plain_opt_def)

definition plain_codec :: policy_codec where
  "plain_codec = \<lparr>
     pc_encode = (\<lambda>d. plain_nat (pd_revision d) @ plain_text (pd_retention d) @ plain_opt (pd_max_stored_bytes d) @
       plain_opt (pd_log_retention d) @ plain_opt (pd_trace_retention d) @ plain_opt (pd_metric_retention d) @
       plain_text (pd_updated_at d)),
     pc_decode = (\<lambda>bs.
       (let (rev, bs) = plain_nat_read bs; (ret, bs) = plain_text_read bs; (lim, bs) = plain_opt_read bs;
            (lg, bs) = plain_opt_read bs; (tr, bs) = plain_opt_read bs; (me, bs) = plain_opt_read bs;
            (at, bs) = plain_text_read bs
        in Some \<lparr>pd_revision = rev, pd_retention = ret, pd_max_stored_bytes = lim, pd_log_retention = lg,
             pd_trace_retention = tr, pd_metric_retention = me, pd_updated_at = at\<rparr>)),
     pc_format = (\<lambda>t. replicate t CHR ''x''), pc_parse = (\<lambda>s. Some (length s))\<rparr>"

lemma plain_codec_ok: "codec_ok plain_codec"
  using plain_text_read [of _ "[]"] by (simp add: codec_ok_def plain_codec_def)

text \<open>C39: a policy survives a restart: over any pushes and removals, with the device failing anywhere
  in front of a rename, what a start loads from the directory is what was in memory.\<close>

theorem policy_survives_restart:
  assumes "codec_ok pc" and "distinct (map fst fs)" and "policy_loaded pc fs = Inr tp" and "list_all policy_op_quiet ops"
  shows "load_all pc (tp_files (fold (policy_op_run pc) ops tp)) = Inr (tp_entries (fold (policy_op_run pc) ops tp))"
  using load_all_stored [OF policy_ops_store [OF assms(1,4) policy_loaded_stores [OF assms(2,3)]]] .

definition no_policies :: tenant_policy where
  "no_policies = \<lparr>tp_files = [], tp_entries = (\<lambda>_. None), tp_accepted = 0, tp_rejected = 0, tp_persist_errors = 0\<rparr>"

definition no_signals :: retention_request where
  "no_signals = \<lparr>rr_logs = None, rr_traces = None, rr_metrics = None\<rparr>"

theorem policy_survives_restart_witness:
  "load_all plain_codec (tp_files (fold (policy_op_run plain_codec)
      [Push Works 5 [97] 1 ''7d'' (Some ''10GiB'') no_signals, Push (StopsWriting 3) 6 [97] 2 ''0'' None no_signals, Remove StopsFirst [97]]
      no_policies))
    = Inr (tp_entries (fold (policy_op_run plain_codec)
      [Push Works 5 [97] 1 ''7d'' (Some ''10GiB'') no_signals, Push (StopsWriting 3) 6 [97] 2 ''0'' None no_signals, Remove StopsFirst [97]]
      no_policies))"
proof -
  have l: "policy_loaded plain_codec [] = Inr no_policies" by (simp add: policy_loaded_def load_all_def no_policies_def)
  have t: "is_tenant [97]" by (simp add: is_tenant_def tenant_char_def is_ascii_alphanumeric_def max_tenant_id_bytes_def)
  show ?thesis by (rule policy_survives_restart [OF plain_codec_ok _ l]) (simp_all add: t quiet_fault_def)
qed

text \<open>A push whose last sync fails is answered as not applied, and applied by the next start.\<close>

lemma failed_push_applies_after_restart:
  assumes "codec_ok pc" and "is_tenant t" and "stores pc (tp_files tp) (tp_entries tp)" and "tp_entries tp t = Some e"
    and "pe_revision e < revision"
  shows "\<exists>tp' entries. push_with_signal_retentions pc StopsRenamed now t revision ''0'' None no_signals tp = (Inl PersistFailed, tp') \<and>
    tp_entries tp' = tp_entries tp \<and> load_all pc (tp_files tp') = Inr entries \<and> policy_retention entries t = Some (Finite 0)"
proof -
  define ss where "ss = \<lparr>ss_logs = None, ss_traces = None, ss_metrics = None\<rparr>"
  have p: "parse_retention ''0'' = Inr (Finite 0)" by code_simp
  have q: "parse_signal_retentions (Finite 0) no_signals = Inr ss"
    by (simp add: parse_signal_retentions_def parse_signal_def no_signals_def ss_def Let_def)
  note l = pushed_entry_loads [OF assms(1,2) p _ q, of None None revision now, simplified]
  show ?thesis
    using assms(4,5) load_all_stored [OF stores_put [OF stores_temp(2) [OF assms(3)] l]]
    by (auto simp: push_with_signal_retentions_def p q Let_def policy_put_def write_local_policy_def policy_retention_def)
qed

subsection \<open>Revisions\<close>

lemma push_applies:
  assumes "push_with_signal_retentions pc fault now t revision raw raw_max rq tp = (Inr (Applied v), tp')"
  shows "(case tp_entries tp t of Some e \<Rightarrow> pe_revision e < revision | None \<Rightarrow> True)"
    and "\<exists>e. tp_entries tp' = (tp_entries tp)(t \<mapsto> e) \<and> pe_revision e = revision \<and> policy_entry_view e = v \<and>
      parse_retention raw = Inr (pe_retention e)"
  using assms
  by (auto simp: push_with_signal_retentions_def Let_def split: sum.splits option.splits if_splits prod.splits)

lemma push_not_applied:
  assumes "push_with_signal_retentions pc fault now t revision raw raw_max rq tp = (res, tp')"
    and "\<And>v. res \<noteq> Inr (Applied v)"
  shows "tp_entries tp' = tp_entries tp"
  using assms
  by (auto simp: push_with_signal_retentions_def Let_def split: sum.splits option.splits if_splits prod.splits)

subsection \<open>What a cutoff decides\<close>

lemma is_expired_older: "is_expired cu t sg ts \<Longrightarrow> ts' \<le> ts \<Longrightarrow> is_expired cu t sg ts'"
  by (auto simp: is_expired_def split: option.splits)

lemma is_expired_later:
  "is_expired cu t sg ts \<Longrightarrow> cu_now cu \<le> now \<Longrightarrow> is_expired (cu\<lparr>cu_now := now\<rparr>) t sg ts"
  by (auto simp: is_expired_def cutoff_ns_def saturating_sub_i64_def split: option.splits retention.splits)

lemma unknown_never_expires: "cu_policies cu t = None \<Longrightarrow> \<not> is_expired cu t sg ts"
  by (simp add: is_expired_def cutoff_ns_def policy_signal_retention_def)

end
