(* ===== verification/Parts.thy ===== *)
theory Parts
  imports Policy "HOL-Library.Char_ord" "HOL-Library.List_Lexorder" "HOL-Library.Sublist"
begin

text \<open>
  What a part says of itself (\<open>signy/src/part/mod.rs\<close>, \<open>trace_part.rs\<close>, \<open>series_part.rs\<close>), the
  decisions \<open>Cutoffs\<close> of \<open>tenant_policy.rs\<close> takes on it, and the pass of \<open>retention.rs\<close> that acts
  on them. An instant is a signed number of nanoseconds.
\<close>

subsection \<open>Rows and metas\<close>

record log_row =
  ro_tenant :: tenant_id
  ro_ts :: int
  ro_line :: string
  ro_metadata :: "(string \<times> string) list"

record tenant_segment =
  se_tenant :: tenant_id
  se_row_group_start :: nat
  se_row_group_end :: nat
  se_row_count :: nat
  se_min_ts :: int
  se_max_ts :: int

record part_meta =
  pm_id :: string
  pm_partition :: string
  pm_min_ts :: int
  pm_max_ts :: int
  pm_row_count :: nat
  pm_tenants :: "tenant_segment list"
  pm_bytes :: nat

record trace_segment =
  ts_tenant :: tenant_id
  ts_row_group_start :: nat
  ts_row_group_end :: nat

record trace_part_meta =
  tm_id :: string
  tm_max_ts :: int
  tm_row_group_max_ts :: "int list"
  tm_tenants :: "trace_segment list"

record series_part_meta =
  sm_id :: string
  sm_max_ts :: int
  sm_tenants :: "tenant_id list"

subsection \<open>What has expired\<close>

definition log_part_fully_expired :: "cutoffs \<Rightarrow> part_meta \<Rightarrow> bool" where
  "log_part_fully_expired cu m \<longleftrightarrow>
     pm_tenants m \<noteq> [] \<and> list_all (\<lambda>s. is_expired cu (se_tenant s) PolicyLogs (se_max_ts s)) (pm_tenants m)"

definition expired_log_rows :: "cutoffs \<Rightarrow> part_meta \<Rightarrow> nat" where
  "expired_log_rows cu m =
     sum_list (map se_row_count (filter (\<lambda>s. is_expired cu (se_tenant s) PolicyLogs (se_max_ts s)) (pm_tenants m)))"

text \<open>\<open>share expired all\<close> says whether the quotient of the two as floats reaches the threshold.\<close>

definition expired_share_reached :: "(nat \<Rightarrow> nat \<Rightarrow> bool) \<Rightarrow> bool \<Rightarrow> cutoffs \<Rightarrow> part_meta \<Rightarrow> bool" where
  "expired_share_reached share zero_reaches cu m =
     (if pm_row_count m = 0 then zero_reaches else share (expired_log_rows cu m) (pm_row_count m))"

definition is_zero_retention :: "cutoffs \<Rightarrow> tenant_id \<Rightarrow> bool" where
  "is_zero_retention cu t \<longleftrightarrow> policy_signal_retention (cu_policies cu) t PolicyLogs = Some (Finite 0)"

definition holds_zero_retention_rows :: "cutoffs \<Rightarrow> part_meta \<Rightarrow> bool" where
  "holds_zero_retention_rows cu m \<longleftrightarrow>
     list_ex (\<lambda>s. se_row_count s > 0 \<and> is_zero_retention cu (se_tenant s)) (pm_tenants m)"

definition trace_part_fully_expired :: "cutoffs \<Rightarrow> trace_part_meta \<Rightarrow> bool" where
  "trace_part_fully_expired cu m =
     (if tm_tenants m = [] then False
      else list_all (\<lambda>s.
        (let segment_max = (case get_range (tm_row_group_max_ts m) (ts_row_group_start s) (ts_row_group_end s) of
                              None \<Rightarrow> tm_max_ts m
                            | Some bounds \<Rightarrow> if bounds = [] then tm_max_ts m else Max (set bounds))
         in is_expired cu (ts_tenant s) PolicyTraces segment_max)) (tm_tenants m))"

definition metric_part_fully_expired :: "cutoffs \<Rightarrow> series_part_meta \<Rightarrow> bool" where
  "metric_part_fully_expired cu m \<longleftrightarrow>
     sm_tenants m \<noteq> [] \<and> list_all (\<lambda>t. is_expired cu t PolicyMetrics (sm_max_ts m)) (sm_tenants m)"

text \<open>What the writer of a part promises of its meta: every row is in the segment of its tenant.\<close>

definition meta_describes :: "part_meta \<Rightarrow> log_row list \<Rightarrow> bool" where
  "meta_describes m rows \<longleftrightarrow>
     pm_row_count m = length rows \<and>
     (\<forall>r \<in> set rows. \<exists>s \<in> set (pm_tenants m). se_tenant s = ro_tenant r \<and> se_min_ts s \<le> ro_ts r \<and> ro_ts r \<le> se_max_ts s) \<and>
     (\<forall>s \<in> set (pm_tenants m). se_row_count s = length (filter (\<lambda>r. ro_tenant r = se_tenant s) rows)) \<and>
     distinct (map se_tenant (pm_tenants m))"

lemma fully_expired_rows:
  assumes "log_part_fully_expired cu m" and "meta_describes m rows" and "r \<in> set rows"
  shows "is_expired cu (ro_tenant r) PolicyLogs (ro_ts r)"
  using assms is_expired_older unfolding log_part_fully_expired_def meta_describes_def list_all_iff by metis

subsection \<open>The retention pass\<close>

text \<open>
  The registries of the three signals, each a list of registered parts with their directories,
  and the directories that are on disk.
\<close>

type_synonym part_ref = "string \<times> string"

record registries =
  rg_logs :: "(part_meta \<times> string) list"
  rg_traces :: "(trace_part_meta \<times> string) list"
  rg_metrics :: "(series_part_meta \<times> string) list"
  rg_dirs :: "string list"

definition first_by_id :: "nat \<Rightarrow> part_ref list \<Rightarrow> part_ref list" where
  "first_by_id batch_size refs = take batch_size (sort_key fst refs)"

definition expired_logs :: "cutoffs \<Rightarrow> registries \<Rightarrow> part_ref list" where
  "expired_logs cu rg = map (\<lambda>(m, dir). (pm_id m, dir)) (filter (\<lambda>(m, _). log_part_fully_expired cu m) (rg_logs rg))"

definition expired_traces :: "cutoffs \<Rightarrow> registries \<Rightarrow> part_ref list" where
  "expired_traces cu rg = map (\<lambda>(m, dir). (tm_id m, dir)) (filter (\<lambda>(m, _). trace_part_fully_expired cu m) (rg_traces rg))"

definition expired_metrics :: "cutoffs \<Rightarrow> registries \<Rightarrow> part_ref list" where
  "expired_metrics cu rg = map (\<lambda>(m, dir). (sm_id m, dir)) (filter (\<lambda>(m, _). metric_part_fully_expired cu m) (rg_metrics rg))"

text \<open>\<open>fails dir\<close>: the removal of that directory gives an error, and it stays.\<close>

fun remove_expired :: "(string \<Rightarrow> bool) \<Rightarrow> (string \<Rightarrow> string option) \<Rightarrow> part_ref list \<Rightarrow> registries \<Rightarrow> bool \<times> string list \<times> registries" where
  "remove_expired fails active [] rg = (True, [], rg)"
| "remove_expired fails active ((i, dir) # refs) rg =
     (if active i = Some dir then
        (if fails dir then (False, [], rg)
         else
           (case remove_expired fails active refs (rg\<lparr>rg_dirs := filter (\<lambda>d. d \<noteq> dir) (rg_dirs rg)\<rparr>) of
              (ok, removed, rg') \<Rightarrow> (ok, i # removed, rg')))
      else remove_expired fails active refs rg)"

text \<open>Without a remote cache. \<open>rg\<close> is the snapshot the pass decides on, \<open>rg1\<close> what the other tasks
  made of it by the time the pass has its locks. \<open>None\<close> as cutoffs deletes nothing.\<close>

definition retention_once_at ::
    "(string \<Rightarrow> bool) \<Rightarrow> nat \<Rightarrow> cutoffs option \<Rightarrow> registries \<Rightarrow> registries \<Rightarrow> bool \<times> registries" where
  "retention_once_at fails batch cu rg rg1 =
     (case cu of
        None \<Rightarrow> (True, rg1)
      | Some cu \<Rightarrow>
          (let n = max batch 1;
               logs = first_by_id n (expired_logs cu rg);
               traces = first_by_id n (expired_traces cu rg);
               metrics = first_by_id n (expired_metrics cu rg)
           in if logs = [] \<and> traces = [] \<and> metrics = [] then (True, rg1)
              else
                (let active_logs = map_of (map (\<lambda>(m, d). (pm_id m, d)) (rg_logs rg1));
                     active_traces = map_of (map (\<lambda>(m, d). (tm_id m, d)) (rg_traces rg1));
                     active_metrics = map_of (map (\<lambda>(m, d). (sm_id m, d)) (rg_metrics rg1))
                 in case remove_expired fails active_logs logs rg1 of
                      (False, _, rg2) \<Rightarrow> (False, rg2)
                    | (True, gone_logs, rg2) \<Rightarrow>
                    (case remove_expired fails active_traces traces rg2 of
                      (False, _, rg3) \<Rightarrow> (False, rg3)
                    | (True, gone_traces, rg3) \<Rightarrow>
                    (case remove_expired fails active_metrics metrics rg3 of
                      (False, _, rg4) \<Rightarrow> (False, rg4)
                    | (True, gone_metrics, rg4) \<Rightarrow>
                        (True, rg4\<lparr>rg_logs := filter (\<lambda>(m, _). pm_id m \<notin> set gone_logs) (rg_logs rg4),
                                   rg_traces := filter (\<lambda>(m, _). tm_id m \<notin> set gone_traces) (rg_traces rg4),
                                   rg_metrics := filter (\<lambda>(m, _). sm_id m \<notin> set gone_metrics) (rg_metrics rg4)\<rparr>))))))"

subsection \<open>What the pass keeps\<close>

lemma remove_expired_result:
  assumes "remove_expired fails active refs rg = (ok, removed, rg')"
  shows "rg_logs rg' = rg_logs rg" and "rg_traces rg' = rg_traces rg" and "rg_metrics rg' = rg_metrics rg"
    and "set (rg_dirs rg') \<subseteq> set (rg_dirs rg)"
    and "dir \<in> set (rg_dirs rg) \<Longrightarrow> dir \<notin> set (rg_dirs rg') \<Longrightarrow> \<exists>i. (i, dir) \<in> set refs \<and> active i = Some dir"
    and "ok \<Longrightarrow> removed = map fst (filter (\<lambda>(i, dir). active i = Some dir) refs)"
    and "ok \<Longrightarrow> rg_dirs rg' = filter (\<lambda>d. \<forall>(i, dir) \<in> set refs. active i = Some dir \<longrightarrow> d \<noteq> dir) (rg_dirs rg)"
proof -
  have "rg_logs rg' = rg_logs rg \<and> rg_traces rg' = rg_traces rg \<and> rg_metrics rg' = rg_metrics rg \<and>
    set (rg_dirs rg') \<subseteq> set (rg_dirs rg) \<and>
    (\<forall>dir. dir \<in> set (rg_dirs rg) \<longrightarrow> dir \<notin> set (rg_dirs rg') \<longrightarrow> (\<exists>i. (i, dir) \<in> set refs \<and> active i = Some dir)) \<and>
    (ok \<longrightarrow> removed = map fst (filter (\<lambda>(i, dir). active i = Some dir) refs)) \<and>
    (ok \<longrightarrow> rg_dirs rg' = filter (\<lambda>d. \<forall>(i, dir) \<in> set refs. active i = Some dir \<longrightarrow> d \<noteq> dir) (rg_dirs rg))"
    using assms
  proof (induction fails active refs rg arbitrary: ok removed rg' rule: remove_expired.induct)
    case (2 fails active i dir refs rg)
    consider (skip) "active i \<noteq> Some dir" | (stop) "active i = Some dir" "fails dir" | (gone) "active i = Some dir" "\<not> fails dir" by blast
    then show ?case
    proof cases
      case skip
      then show ?thesis using 2 by (auto intro!: filter_cong)
    next
      case stop
      then show ?thesis using "2.prems" by auto
    next
      case gone
      then obtain removed' where r: "remove_expired fails active refs (rg\<lparr>rg_dirs := filter (\<lambda>d. d \<noteq> dir) (rg_dirs rg)\<rparr>) = (ok, removed', rg')"
        "removed = i # removed'"
        using "2.prems" by (auto split: prod.splits)
      show ?thesis using "2.IH"(1) [OF gone r(1)] gone r(2) by (auto intro!: filter_cong)
    qed
  qed simp
  then show "rg_logs rg' = rg_logs rg" "rg_traces rg' = rg_traces rg" "rg_metrics rg' = rg_metrics rg"
    "set (rg_dirs rg') \<subseteq> set (rg_dirs rg)"
    "dir \<in> set (rg_dirs rg) \<Longrightarrow> dir \<notin> set (rg_dirs rg') \<Longrightarrow> \<exists>i. (i, dir) \<in> set refs \<and> active i = Some dir"
    "ok \<Longrightarrow> removed = map fst (filter (\<lambda>(i, dir). active i = Some dir) refs)"
    "ok \<Longrightarrow> rg_dirs rg' = filter (\<lambda>d. \<forall>(i, dir) \<in> set refs. active i = Some dir \<longrightarrow> d \<noteq> dir) (rg_dirs rg)"
    by blast+
qed

text \<open>Registries whose parts have a directory each, no two of them the same.\<close>

definition registered_refs :: "registries \<Rightarrow> part_ref list" where
  "registered_refs rg = map (\<lambda>(m, d). (pm_id m, d)) (rg_logs rg) @ map (\<lambda>(m, d). (tm_id m, d)) (rg_traces rg) @
     map (\<lambda>(m, d). (sm_id m, d)) (rg_metrics rg)"

definition registries_ok :: "registries \<Rightarrow> bool" where
  "registries_ok rg \<longleftrightarrow> distinct (map fst (registered_refs rg)) \<and> distinct (map snd (registered_refs rg)) \<and>
     snd ` set (registered_refs rg) \<subseteq> set (rg_dirs rg)"

lemma first_by_id_subset: "set (first_by_id n refs) \<subseteq> set refs"
  unfolding first_by_id_def using set_take_subset [of n "sort_key fst refs"] by (simp add: set_sort)

lemma active_registered:
  assumes "registries_ok rg"
  shows "map_of (map (\<lambda>(m, d). (pm_id m, d)) (rg_logs rg)) i = Some d \<longleftrightarrow> (i, d) \<in> set (map (\<lambda>(m, d). (pm_id m, d)) (rg_logs rg))"
    and "map_of (map (\<lambda>(m, d). (tm_id m, d)) (rg_traces rg)) i = Some d \<longleftrightarrow> (i, d) \<in> set (map (\<lambda>(m, d). (tm_id m, d)) (rg_traces rg))"
    and "map_of (map (\<lambda>(m, d). (sm_id m, d)) (rg_metrics rg)) i = Some d \<longleftrightarrow> (i, d) \<in> set (map (\<lambda>(m, d). (sm_id m, d)) (rg_metrics rg))"
  using assms unfolding registries_ok_def registered_refs_def map_append distinct_append by (auto intro!: map_of_eq_Some_iff)

lemma filtered_refs:
  "map (\<lambda>(m, d). (f m, d)) (filter (\<lambda>(m, _). f m \<notin> A) xs) = filter (\<lambda>(i, _). i \<notin> A) (map (\<lambda>(m, d). (f m, d)) xs)"
  by (induction xs) auto

lemma lost_dir_gone:
  assumes "remove_expired fails (map_of own) refs rg = (True, gone, rg')" and "distinct (map fst own)"
    and "d \<in> set (rg_dirs rg)" and "d \<notin> set (rg_dirs rg')"
  shows "\<exists>i. (i, d) \<in> set own \<and> i \<in> set gone"
proof -
  obtain i where "(i, d) \<in> set refs" "map_of own i = Some d" using remove_expired_result(5) [OF assms(1,3,4)] by blast
  then show ?thesis using remove_expired_result(6) [OF assms(1)] assms(2) by (force simp: map_of_eq_Some_iff)
qed

lemma same_dir_same_ref: "distinct (map snd xs) \<Longrightarrow> (i, d) \<in> set xs \<Longrightarrow> (j, d) \<in> set xs \<Longrightarrow> i = j"
  by (fastforce simp: distinct_map inj_on_def)

lemma retention_ok_dirs:
  assumes "registries_ok rg1"
    and "remove_expired fails (map_of (map (\<lambda>(m, d). (pm_id m, d)) (rg_logs rg1))) logs rg1 = (True, gone_logs, rg2)"
    and "remove_expired fails (map_of (map (\<lambda>(m, d). (tm_id m, d)) (rg_traces rg1))) traces rg2 = (True, gone_traces, rg3)"
    and "remove_expired fails (map_of (map (\<lambda>(m, d). (sm_id m, d)) (rg_metrics rg1))) metrics rg3 = (True, gone_metrics, rg4)"
  shows "registries_ok (rg4\<lparr>rg_logs := filter (\<lambda>(m, _). pm_id m \<notin> set gone_logs) (rg_logs rg4),
     rg_traces := filter (\<lambda>(m, _). tm_id m \<notin> set gone_traces) (rg_traces rg4),
     rg_metrics := filter (\<lambda>(m, _). sm_id m \<notin> set gone_metrics) (rg_metrics rg4)\<rparr>)" (is "registries_ok ?rg")
proof -
  define L where "L = map (\<lambda>(m, d). (pm_id m, d)) (rg_logs rg1)"
  define T where "T = map (\<lambda>(m, d). (tm_id m, d)) (rg_traces rg1)"
  define M where "M = map (\<lambda>(m, d). (sm_id m, d)) (rg_metrics rg1)"
  have same: "rg_logs rg4 = rg_logs rg1" "rg_traces rg4 = rg_traces rg1" "rg_metrics rg4 = rg_metrics rg1"
    using remove_expired_result(1-3) [OF assms(2)] remove_expired_result(1-3) [OF assms(3)] remove_expired_result(1-3) [OF assms(4)]
    by simp_all
  have refs: "registered_refs ?rg = filter (\<lambda>(i, _). i \<notin> set gone_logs) L @ filter (\<lambda>(i, _). i \<notin> set gone_traces) T @
      filter (\<lambda>(i, _). i \<notin> set gone_metrics) M"
    by (simp add: registered_refs_def same filtered_refs L_def T_def M_def)
  have ok: "distinct (map fst (L @ T @ M))" "distinct (map snd (L @ T @ M))" "snd ` set (L @ T @ M) \<subseteq> set (rg_dirs rg1)"
    using assms(1) by (simp_all add: registries_ok_def registered_refs_def L_def T_def M_def)
  have parts: "distinct (map fst L)" "distinct (map fst T)" "distinct (map fst M)" using ok(1) by simp_all
  have dist: "distinct (map fst (registered_refs ?rg))" "distinct (map snd (registered_refs ?rg))"
    using ok(1,2) unfolding refs by (auto simp: distinct_map_filter)
  have "d \<in> set (rg_dirs rg4)" if reg: "(i, d) \<in> set (registered_refs ?rg)" for i d
  proof (rule ccontr)
    assume lost: "d \<notin> set (rg_dirs rg4)"
    have "d \<in> set (rg_dirs rg1)" using reg ok(3) unfolding refs by force
    then consider "d \<in> set (rg_dirs rg1)" "d \<notin> set (rg_dirs rg2)" | "d \<in> set (rg_dirs rg2)" "d \<notin> set (rg_dirs rg3)"
      | "d \<in> set (rg_dirs rg3)" "d \<notin> set (rg_dirs rg4)" using lost by blast
    then obtain j where j: "(j, d) \<in> set L \<and> j \<in> set gone_logs \<or> (j, d) \<in> set T \<and> j \<in> set gone_traces \<or> (j, d) \<in> set M \<and> j \<in> set gone_metrics"
      using lost_dir_gone [OF assms(2) [folded L_def] parts(1)] lost_dir_gone [OF assms(3) [folded T_def] parts(2)]
        lost_dir_gone [OF assms(4) [folded M_def] parts(3)] by cases blast+
    have "(i, d) \<in> set (L @ T @ M)" "(j, d) \<in> set (L @ T @ M)" using reg j unfolding refs by auto
    then have e: "i = j" using same_dir_same_ref [OF ok(2)] by blast
    have apart: "\<not> ((i, d) \<in> set L \<and> (i, d) \<in> set T)" "\<not> ((i, d) \<in> set L \<and> (i, d) \<in> set M)" "\<not> ((i, d) \<in> set T \<and> (i, d) \<in> set M)"
      using ok(2) by (force simp: image_iff)+
    show False using reg j apart unfolding refs e by auto
  qed
  then show ?thesis using dist by (auto simp: registries_ok_def)
qed

text \<open>C40: a retention pass removes what has expired and nothing else: a directory it takes from the disk
  is that of a registered part that had wholly expired when the pass began, whatever the other
  tasks did meanwhile, and a pass that ends well leaves no registered part without its files.\<close>

theorem retention_pass_removes_expired:
  assumes "registries_ok rg1" and "retention_once_at fails batch (Some cu) rg rg1 = (ok, rg')"
  shows "(\<forall>d \<in> set (rg_dirs rg1) - set (rg_dirs rg'). \<exists>i. (i, d) \<in> set (registered_refs rg1) \<and>
      (i, d) \<in> set (expired_logs cu rg) \<union> set (expired_traces cu rg) \<union> set (expired_metrics cu rg)) \<and>
    (ok \<longrightarrow> registries_ok rg')"
proof (cases "rg' = rg1")
  case False
  define n where "n = max batch 1"
  define logs where "logs = first_by_id n (expired_logs cu rg)"
  define traces where "traces = first_by_id n (expired_traces cu rg)"
  define metrics where "metrics = first_by_id n (expired_metrics cu rg)"
  define L where "L = map_of (map (\<lambda>(m, d). (pm_id m, d)) (rg_logs rg1))"
  define T where "T = map_of (map (\<lambda>(m, d). (tm_id m, d)) (rg_traces rg1))"
  define M where "M = map_of (map (\<lambda>(m, d). (sm_id m, d)) (rg_metrics rg1))"
  obtain ok1 gone1 rg2 where p1: "remove_expired fails L logs rg1 = (ok1, gone1, rg2)" by (metis prod_cases3)
  obtain ok2 gone2 rg3 where p2: "remove_expired fails T traces rg2 = (ok2, gone2, rg3)" by (metis prod_cases3)
  obtain ok3 gone3 rg4 where p3: "remove_expired fails M metrics rg3 = (ok3, gone3, rg4)" by (metis prod_cases3)
  have act: "L i = Some d \<Longrightarrow> (i, d) \<in> set (registered_refs rg1)" "T i = Some d \<Longrightarrow> (i, d) \<in> set (registered_refs rg1)"
    "M i = Some d \<Longrightarrow> (i, d) \<in> set (registered_refs rg1)" for i d
    using active_registered [OF assms(1)] by (auto simp: L_def T_def M_def registered_refs_def)
  have sub: "set logs \<subseteq> set (expired_logs cu rg)" "set traces \<subseteq> set (expired_traces cu rg)" "set metrics \<subseteq> set (expired_metrics cu rg)"
    by (simp_all add: logs_def traces_def metrics_def first_by_id_subset)
  define own where "own = {d. \<exists>i. (i, d) \<in> set (registered_refs rg1) \<and>
      (i, d) \<in> set (expired_logs cu rg) \<union> set (expired_traces cu rg) \<union> set (expired_metrics cu rg)}"
  have lost: "set (rg_dirs rg1) - set (rg_dirs rg2) \<subseteq> own" "set (rg_dirs rg2) - set (rg_dirs rg3) \<subseteq> own"
    "set (rg_dirs rg3) - set (rg_dirs rg4) \<subseteq> own"
    using remove_expired_result(5) [OF p1] remove_expired_result(5) [OF p2] remove_expired_result(5) [OF p3] act sub
    unfolding own_def by blast+
  have r: "(ok, rg') = (if \<not> ok1 then (False, rg2) else if \<not> ok2 then (False, rg3) else if \<not> ok3 then (False, rg4)
    else (True, rg4\<lparr>rg_logs := filter (\<lambda>(m, _). pm_id m \<notin> set gone1) (rg_logs rg4),
                    rg_traces := filter (\<lambda>(m, _). tm_id m \<notin> set gone2) (rg_traces rg4),
                    rg_metrics := filter (\<lambda>(m, _). sm_id m \<notin> set gone3) (rg_metrics rg4)\<rparr>))"
  proof -
    have "retention_once_at fails batch (Some cu) rg rg1 =
      (if logs = [] \<and> traces = [] \<and> metrics = [] then (True, rg1)
       else case remove_expired fails L logs rg1 of
          (False, _, rg2) \<Rightarrow> (False, rg2)
        | (True, gone_logs, rg2) \<Rightarrow>
        (case remove_expired fails T traces rg2 of
          (False, _, rg3) \<Rightarrow> (False, rg3)
        | (True, gone_traces, rg3) \<Rightarrow>
        (case remove_expired fails M metrics rg3 of
          (False, _, rg4) \<Rightarrow> (False, rg4)
        | (True, gone_metrics, rg4) \<Rightarrow>
            (True, rg4\<lparr>rg_logs := filter (\<lambda>(m, _). pm_id m \<notin> set gone_logs) (rg_logs rg4),
                       rg_traces := filter (\<lambda>(m, _). tm_id m \<notin> set gone_traces) (rg_traces rg4),
                       rg_metrics := filter (\<lambda>(m, _). sm_id m \<notin> set gone_metrics) (rg_metrics rg4)\<rparr>))))"
      unfolding retention_once_at_def logs_def traces_def metrics_def n_def L_def T_def M_def by (simp only: option.case Let_def)
    then show ?thesis
      using assms(2) [symmetric] False by (cases ok1; cases ok2; cases ok3) (simp_all add: p1 p2 p3 split: if_splits)
  qed
  have "set (rg_dirs rg1) - set (rg_dirs rg') \<subseteq> own" using r lost by (auto split: if_splits)
  moreover have "registries_ok rg'" if ok
  proof -
    have "ok1" "ok2" "ok3" using r that by (auto split: if_splits)
    then show ?thesis using r retention_ok_dirs [OF assms(1)] p1 p2 p3 unfolding L_def T_def M_def by auto
  qed
  ultimately show ?thesis unfolding own_def by blast
qed (use assms(1) in simp)

definition sample_segment :: "int \<Rightarrow> tenant_segment" where
  "sample_segment t = \<lparr>se_tenant = [97], se_row_group_start = 0, se_row_group_end = 1, se_row_count = 1, se_min_ts = t, se_max_ts = t\<rparr>"

definition sample_meta :: "string \<Rightarrow> int \<Rightarrow> part_meta" where
  "sample_meta i t = \<lparr>pm_id = i, pm_partition = ''day'', pm_min_ts = t, pm_max_ts = t, pm_row_count = 1,
     pm_tenants = [sample_segment t], pm_bytes = 100\<rparr>"

definition sample_policies :: "nat \<Rightarrow> policy_map" where
  "sample_policies period = [[97] \<mapsto> \<lparr>pe_revision = 1, pe_retention = Finite period, pe_raw = [], pe_max_stored_bytes = None,
     pe_raw_max_stored_bytes = None, pe_signals = \<lparr>ss_logs = None, ss_traces = None, ss_metrics = None\<rparr>, pe_updated_at = 0\<rparr>]"

definition sample_registries :: registries where
  "sample_registries = \<lparr>rg_logs = [(sample_meta ''p1'' 5, ''d1''), (sample_meta ''p2'' 6, ''d2''), (sample_meta ''p3'' 95, ''d3'')],
     rg_traces = [], rg_metrics = [], rg_dirs = [''d1'', ''d2'', ''d3'']\<rparr>"

theorem retention_pass_removes_expired_witness:
  "\<exists>ok rg'. retention_once_at (\<lambda>_. False) 10 (Some \<lparr>cu_policies = sample_policies 10, cu_now = 100\<rparr>)
      sample_registries sample_registries = (ok, rg') \<and> (ok \<longrightarrow> registries_ok rg')"
proof -
  obtain ok rg' where r: "retention_once_at (\<lambda>_. False) 10 (Some \<lparr>cu_policies = sample_policies 10, cu_now = 100\<rparr>)
      sample_registries sample_registries = (ok, rg')" by fastforce
  have "registries_ok sample_registries"
    by (simp add: registries_ok_def registered_refs_def sample_registries_def sample_meta_def)
  from retention_pass_removes_expired [OF this r] show ?thesis using r by blast
qed

text \<open>A removal that fails stops the pass in front of the unregistering: the parts removed before it
  stay registered without their files.\<close>

lemma failed_removal_leaves_registered:
  "case retention_once_at (\<lambda>d. d = ''d2'') 10 (Some \<lparr>cu_policies = sample_policies 10, cu_now = 100\<rparr>)
      sample_registries sample_registries of (ok, rg') \<Rightarrow>
     \<not> ok \<and> (''p1'', ''d1'') \<in> set (registered_refs rg') \<and> ''d1'' \<notin> set (rg_dirs rg')"
  by (simp add: retention_once_at_def sample_registries_def expired_logs_def expired_traces_def expired_metrics_def first_by_id_def
      log_part_fully_expired_def is_expired_def cutoff_ns_def policy_signal_retention_def retention_for_def signal_retentions_get_def
      sample_policies_def sample_meta_def sample_segment_def saturating_sub_i64_def i64_max_def i64_min_def registered_refs_def)

end
