(* ===== verification/PartScan.thy ===== *)
theory PartScan
  imports Memtable Pushdown Parts
begin

text \<open>
  Reading the parts of a tenant into a sink: which row groups of a part are read, in which order, and
  which of their rows reach the sink (\<open>part/reader.rs\<close>), and the walk over the parts
  (\<open>PartRegistry::scan_into\<close>). A query asks for every column. The caches give back the rows the
  file has (and count bytes in proportion), so they are left out, and so are the looks at the cancellation flag: the caller looks again behind the scan
  and answers an error (\<open>LogScan\<close>). How Parquet cuts rows into batches is \<open>chunks\<close>, what a batch takes
  in memory a parameter.
\<close>

subsection \<open>A part as its reader has it\<close>

record part_reader =
  rd_meta :: part_meta
  rd_groups :: "log_row list list"
  rd_group_min_ts :: "int list"
  rd_group_max_ts :: "int list"
  rd_metadata_keys :: "string list"
  rd_parsed_keys :: "string list"
  rd_index :: "bytes"
  rd_blooms :: "(bloom_location \<times> window_bloom list) list"
  rd_pages :: "(nat \<times> (int \<times> int) option) list option list"

text \<open>What the model takes from outside: the tables of Unicode, the characters of a text, the JSON parser
  and the memory a batch takes, in the wide decode and in the narrow one.\<close>

record scan_env =
  sv_unicode :: unicode
  sv_chars :: "string \<Rightarrow> ustr"
  sv_json :: "string \<Rightarrow> json option"
  sv_batch_bytes :: "log_row list \<Rightarrow> nat"
  sv_narrow_bytes :: "log_row list \<Rightarrow> nat"

definition tenant_segment_of :: "part_meta \<Rightarrow> tenant_id \<Rightarrow> tenant_segment option" where
  "tenant_segment_of m t = find (\<lambda>s. se_tenant s = t) (pm_tenants m)"

definition tenant_row_groups :: "part_reader \<Rightarrow> tenant_id \<Rightarrow> (nat \<times> nat) option" where
  "tenant_row_groups r t = map_option (\<lambda>s. (se_row_group_start s, se_row_group_end s)) (tenant_segment_of (rd_meta r) t)"

subsection \<open>Which row groups\<close>

definition prune_literals :: "scan_env \<Rightarrow> line_filter list \<Rightarrow> ustr list" where
  "prune_literals env filters =
     concat (map (\<lambda>f. case f of Contains literal \<Rightarrow> [sv_chars env literal] | LineRegex _ literals \<Rightarrow> map (sv_chars env) literals
       | NotContains _ \<Rightarrow> [] | NotLineRegex _ \<Rightarrow> []) filters)"

definition reader_bloom_prune :: "scan_env \<Rightarrow> part_reader \<Rightarrow> nat \<Rightarrow> ustr list \<Rightarrow> bool" where
  "reader_bloom_prune env r g literals \<longleftrightarrow> bloom_prune (sv_unicode env) (bloom_at (rd_index r) (fst (rd_blooms r ! g))) literals = Some True"

definition select_row_groups ::
    "scan_env \<Rightarrow> part_reader \<Rightarrow> tenant_id \<Rightarrow> line_filter list \<Rightarrow> exact_field_predicate list \<Rightarrow> query_time_range \<Rightarrow> nat list" where
  "select_row_groups env r t filters exact_fields qr =
     (case tenant_row_groups r t of
        None \<Rightarrow> []
      | Some (first, past) \<Rightarrow>
          (let literals = prune_literals env filters in
           filter (\<lambda>g. range_overlaps qr (rd_group_min_ts r ! g) (rd_group_max_ts r ! g) \<and>
               (literals = [] \<and> exact_fields = [] \<or>
                reader_bloom_prune env r g literals \<and>
                exact_field_bloom_prune (rd_index r) (snd (rd_blooms r ! g)) exact_fields))
             [first..<past]))"

text \<open>By the end the scan reaches first.\<close>

definition in_scan_order :: "part_reader \<Rightarrow> bool \<Rightarrow> nat list \<Rightarrow> nat list" where
  "in_scan_order r forward groups =
     sort_key (\<lambda>g. (if forward then rd_group_min_ts r ! g else - (rd_group_max_ts r ! g), g)) groups"

subsection \<open>Which rows of a group\<close>

text \<open>A selection has an entry for each row.\<close>

definition page_rows :: "(nat \<times> (int \<times> int) option) list \<Rightarrow> nat \<Rightarrow> query_time_range \<Rightarrow> (nat \<times> nat) list" where
  "page_rows pages n qr =
     map (\<lambda>((first, _), past). (first, past))
       (filter (\<lambda>((_, bounds), _). case bounds of None \<Rightarrow> True | Some (lo, hi) \<Rightarrow> range_overlaps qr lo hi)
         (zip pages (map fst (tl pages) @ [n])))"

definition time_page_selection :: "(nat \<times> (int \<times> int) option) list option \<Rightarrow> nat \<Rightarrow> query_time_range \<Rightarrow> bool list option" where
  "time_page_selection pages n qr =
     map_option (\<lambda>pages. map (\<lambda>i. list_ex (\<lambda>(first, past). first \<le> i \<and> i < past) (page_rows pages n qr)) [0..<n]) pages"

definition both_selections :: "bool list option \<Rightarrow> bool list option \<Rightarrow> bool list option" where
  "both_selections a b =
     (case a of
        None \<Rightarrow> b
      | Some xs \<Rightarrow> (case b of None \<Rightarrow> Some xs | Some ys \<Rightarrow> Some (map2 (\<and>) xs ys)))"

definition base_selection ::
    "part_reader \<Rightarrow> nat \<Rightarrow> exact_field_predicate list \<Rightarrow> query_time_range \<Rightarrow> bool list option" where
  "base_selection r g exact_fields qr =
     (let n = length (rd_groups r ! g)
      in both_selections (time_page_selection (rd_pages r ! g) n qr)
           (if exact_fields = [] then None
            else map_option (\<lambda>m. window_row_selection m n) (exact_field_window_mask (rd_index r) (snd (rd_blooms r ! g)) exact_fields)))"

definition entry_of :: "log_row \<Rightarrow> log_entry" where
  "entry_of row = \<lparr>le_ts = ro_ts row, le_line = ro_line row, le_metadata = ro_metadata row\<rparr>"

definition whole_selection :: "nat \<Rightarrow> bool list option \<Rightarrow> bool list" where
  "whole_selection n s = (case s of None \<Rightarrow> replicate n True | Some xs \<Rightarrow> xs)"

definition narrow_keeps :: "scan_env \<Rightarrow> part_reader \<Rightarrow> definitive_column list \<Rightarrow> query_time_range \<Rightarrow> log_row \<Rightarrow> bool" where
  "narrow_keeps env r defs qr row \<longleftrightarrow>
     range_contains qr (ro_ts row) \<and>
     list_all (column_keeps (sv_json env) (rd_metadata_keys r) (rd_parsed_keys r) (entry_of row)) defs"

definition selected_rows :: "bool list \<Rightarrow> 'a list \<Rightarrow> 'a list" where
  "selected_rows s rows = map snd (filter fst (zip s rows))"

fun chunks :: "nat \<Rightarrow> 'a list \<Rightarrow> 'a list list" where
  "chunks n [] = []"
| "chunks n (x # xs) = take (max n 1) (x # xs) # chunks n (drop (max n 1) (x # xs))"

subsection \<open>The rows of a batch\<close>

text \<open>Metadata comes back from the columns and from what did not fit in them.\<close>

fun rebuild_metadata :: "(string \<times> string option) list \<Rightarrow> (string \<times> string) list \<Rightarrow> (string \<times> string) list" where
  "rebuild_metadata [] residual = residual"
| "rebuild_metadata ((key, column) # columns) residual =
     takeWhile (\<lambda>(name, _). name < key) residual @ (case column of None \<Rightarrow> [] | Some v \<Rightarrow> [(key, v)]) @
     rebuild_metadata columns (dropWhile (\<lambda>(name, _). name < key) residual)"

definition residual_metadata :: "string list \<Rightarrow> (string \<times> string) list \<Rightarrow> (string \<times> string) list" where
  "residual_metadata keys md = filter (\<lambda>(name, _). name \<notin> set keys) md"

definition read_metadata :: "string list \<Rightarrow> (string \<times> string) list \<Rightarrow> (string \<times> string) list" where
  "read_metadata keys md = rebuild_metadata (map (\<lambda>k. (k, map_of md k)) keys) (residual_metadata keys md)"

record scan_stats =
  ss_rows :: nat
  ss_bytes :: nat

datatype scan_step = ScanContinue | ScanStop

definition over :: "nat option \<Rightarrow> nat \<Rightarrow> bool" where
  "over limit n = (case limit of None \<Rightarrow> False | Some l \<Rightarrow> n \<ge> l)"

fun scan_rows ::
    "'s row_sink \<Rightarrow> part_reader \<Rightarrow> tenant_id \<Rightarrow> line_filter list \<Rightarrow> query_time_range \<Rightarrow> bool \<Rightarrow> nat option \<Rightarrow> bool \<Rightarrow> log_row list \<Rightarrow>
     nat \<Rightarrow> 's \<Rightarrow> string + (scan_step \<times> nat \<times> 's)" where
  "scan_rows ops r t filters qr forward limit counted [] n s = Inr (ScanContinue, n, s)"
| "scan_rows ops r t filters qr forward limit counted (row # rows) n s =
     (if ro_tenant row \<noteq> t then Inl ''rows outside the tenant''
      else if beyond_frontier (rs_frontier ops s) forward (ro_ts row) then scan_rows ops r t filters qr forward limit counted rows n s
      else if over limit n then Inr (ScanStop, n, s)
      else
        (let n = (if counted then n + 1 else n) in
         if \<not> range_contains qr (ro_ts row) \<or> \<not> list_all (\<lambda>f. line_matches f (ro_line row)) filters
         then scan_rows ops r t filters qr forward limit counted rows n s
         else
           (case rs_accept_extracted ops []
                 \<lparr>le_ts = ro_ts row, le_line = ro_line row, le_metadata = read_metadata (rd_metadata_keys r) (ro_metadata row)\<rparr> None s of
              Inl err \<Rightarrow> Inl err
            | Inr s \<Rightarrow> scan_rows ops r t filters qr forward limit counted rows n s)))"

definition scanned_bytes_error :: string where "scanned_bytes_error = ''query exceeds the maximum of scanned bytes''"

definition scan_batch ::
    "scan_env \<Rightarrow> 's row_sink \<Rightarrow> part_reader \<Rightarrow> tenant_id \<Rightarrow> line_filter list \<Rightarrow> query_time_range \<Rightarrow> bool \<Rightarrow> nat option \<Rightarrow> nat option \<Rightarrow> bool \<Rightarrow>
     log_row list \<Rightarrow> scan_stats \<Rightarrow> 's \<Rightarrow> string + (scan_step \<times> scan_stats \<times> 's)" where
  "scan_batch env ops r t filters qr forward limit bytes_limit counted batch st s =
     (let nbytes = ss_bytes st + sv_batch_bytes env batch in
      if (case bytes_limit of None \<Rightarrow> False | Some l \<Rightarrow> nbytes > l) then Inl scanned_bytes_error
      else
        (case scan_rows ops r t filters qr forward limit counted (if forward then batch else rev batch) (ss_rows st) s of
           Inl err \<Rightarrow> Inl err
         | Inr (step, n, s) \<Rightarrow> Inr (step, \<lparr>ss_rows = n, ss_bytes = nbytes\<rparr>, s)))"

fun scan_batches ::
    "scan_env \<Rightarrow> 's row_sink \<Rightarrow> part_reader \<Rightarrow> tenant_id \<Rightarrow> line_filter list \<Rightarrow> query_time_range \<Rightarrow> bool \<Rightarrow> nat option \<Rightarrow> nat option \<Rightarrow> bool \<Rightarrow>
     log_row list list \<Rightarrow> scan_stats \<Rightarrow> 's \<Rightarrow> string + (scan_step \<times> scan_stats \<times> 's)" where
  "scan_batches env ops r t filters qr forward limit bytes_limit counted [] st s = Inr (ScanContinue, st, s)"
| "scan_batches env ops r t filters qr forward limit bytes_limit counted (b # bs) st s =
     (case scan_batch env ops r t filters qr forward limit bytes_limit counted b st s of
        Inl err \<Rightarrow> Inl err
      | Inr (ScanStop, st, s) \<Rightarrow> Inr (ScanStop, st, s)
      | Inr (ScanContinue, st, s) \<Rightarrow> scan_batches env ops r t filters qr forward limit bytes_limit counted bs st s)"

text \<open>The size of a batch of a forward scan.\<close>

definition window_rows :: "nat option \<Rightarrow> nat \<Rightarrow> nat option \<Rightarrow> nat" where
  "window_rows limit scanned remaining =
     (let sizes = (case limit of None \<Rightarrow> [] | Some l \<Rightarrow> [l - scanned]) @ (case remaining of None \<Rightarrow> [] | Some k \<Rightarrow> [max k 256])
      in max 1 (min 1024 (if sizes = [] then 1024 else Min (set sizes))))"

subsection \<open>A part\<close>

text \<open>The rows of a group the narrow columns let through: the new selection, or that there are none.\<close>

definition select_rows_in_group ::
    "scan_env \<Rightarrow> part_reader \<Rightarrow> nat \<Rightarrow> definitive_column list \<Rightarrow> query_time_range \<Rightarrow> bool list option \<Rightarrow> scan_stats \<Rightarrow>
     bool list option \<times> scan_stats" where
  "select_rows_in_group env r g defs qr base st =
     (let rows = rd_groups r ! g; within = whole_selection (length rows) base; examined = selected_rows within rows;
          kept = map2 (\<lambda>b row. b \<and> narrow_keeps env r defs qr row) within rows
      in (if list_ex (\<lambda>b. b) kept then Some kept else None,
          \<lparr>ss_rows = ss_rows st + length examined, ss_bytes = ss_bytes st + sum_list (map (sv_narrow_bytes env) (chunks 8192 examined))\<rparr>))"

definition scan_group ::
    "scan_env \<Rightarrow> 's row_sink \<Rightarrow> part_reader \<Rightarrow> tenant_id \<Rightarrow> line_filter list \<Rightarrow> exact_field_predicate list \<Rightarrow> definitive_column list \<Rightarrow>
     query_time_range \<Rightarrow> bool \<Rightarrow> nat option \<Rightarrow> nat option \<Rightarrow> nat \<Rightarrow> scan_stats \<Rightarrow> 's \<Rightarrow> string + (scan_step \<times> scan_stats \<times> 's)" where
  "scan_group env ops r t filters exact_fields defs qr forward limit bytes_limit g st s =
     (if span_beyond_frontier (rs_frontier ops s) forward (rd_group_min_ts r ! g) (rd_group_max_ts r ! g) then Inr (ScanContinue, st, s)
      else
        (let rows = rd_groups r ! g; base = base_selection r g exact_fields qr in
         if \<not> list_ex (\<lambda>b. b) (whole_selection (length rows) base) then Inr (ScanContinue, st, s)
         else
           (case (if defs = [] then (Some (whole_selection (length rows) base), st) else select_rows_in_group env r g defs qr base st) of
              (None, st) \<Rightarrow> Inr (ScanContinue, st, s)
            | (Some sel, st) \<Rightarrow>
                (let wide = selected_rows sel rows;
                     batches = (if forward then chunks (window_rows limit (ss_rows st) (rs_remaining ops s)) wide else rev (chunks 1024 wide))
                 in scan_batches env ops r t filters qr forward limit bytes_limit (defs = []) batches st s))))"

fun scan_groups ::
    "scan_env \<Rightarrow> 's row_sink \<Rightarrow> part_reader \<Rightarrow> tenant_id \<Rightarrow> line_filter list \<Rightarrow> exact_field_predicate list \<Rightarrow> definitive_column list \<Rightarrow>
     query_time_range \<Rightarrow> bool \<Rightarrow> nat option \<Rightarrow> nat option \<Rightarrow> nat list \<Rightarrow> scan_stats \<Rightarrow> 's \<Rightarrow> string + (scan_stats \<times> 's)" where
  "scan_groups env ops r t filters exact_fields defs qr forward limit bytes_limit [] st s = Inr (st, s)"
| "scan_groups env ops r t filters exact_fields defs qr forward limit bytes_limit (g # gs) st s =
     (case scan_group env ops r t filters exact_fields defs qr forward limit bytes_limit g st s of
        Inl err \<Rightarrow> Inl err
      | Inr (ScanStop, st, s) \<Rightarrow> Inr (st, s)
      | Inr (ScanContinue, st, s) \<Rightarrow> scan_groups env ops r t filters exact_fields defs qr forward limit bytes_limit gs st s)"

definition part_scan_into ::
    "scan_env \<Rightarrow> 's row_sink \<Rightarrow> part_reader \<Rightarrow> tenant_id \<Rightarrow> line_filter list \<Rightarrow> exact_field_predicate list \<Rightarrow> query_time_range \<Rightarrow> bool \<Rightarrow>
     nat option \<Rightarrow> nat option \<Rightarrow> 's \<Rightarrow> string + (scan_stats \<times> 's)" where
  "part_scan_into env ops r t filters exact_fields qr forward limit bytes_limit s =
     (let none = \<lparr>ss_rows = 0, ss_bytes = 0\<rparr> in
      if rd_groups r = [] \<or> rs_closed ops s then Inr (none, s)
      else
        (case definitive_columns (rd_metadata_keys r) (rd_parsed_keys r) exact_fields of
           None \<Rightarrow> Inr (none, s)
         | Some defs \<Rightarrow>
             scan_groups env ops r t filters exact_fields defs qr forward limit bytes_limit
               (in_scan_order r forward (select_row_groups env r t filters exact_fields qr)) none s))"

subsection \<open>The parts of a tenant\<close>

definition candidate_parts :: "part_reader list \<Rightarrow> tenant_id \<Rightarrow> query_time_range \<Rightarrow> bool \<Rightarrow> (part_reader \<times> tenant_segment) list" where
  "candidate_parts readers t qr forward =
     (let candidates = filter (\<lambda>(_, sg). range_overlaps qr (se_min_ts sg) (se_max_ts sg))
            (List.map_filter (\<lambda>r. map_option (Pair r) (tenant_segment_of (rd_meta r) t)) readers);
          candidates = sort_key (\<lambda>(_, sg). se_min_ts sg) candidates
      in if forward then candidates else rev candidates)"

fun scan_parts ::
    "scan_env \<Rightarrow> 's row_sink \<Rightarrow> tenant_id \<Rightarrow> line_filter list \<Rightarrow> exact_field_predicate list \<Rightarrow> query_time_range \<Rightarrow> bool \<Rightarrow>
     nat option \<Rightarrow> nat option \<Rightarrow> (part_reader \<times> tenant_segment) list \<Rightarrow> scan_stats \<Rightarrow> 's \<Rightarrow> string + (scan_stats \<times> 's)" where
  "scan_parts env ops t filters exact_fields qr forward limit bytes_limit [] st s = Inr (st, s)"
| "scan_parts env ops t filters exact_fields qr forward limit bytes_limit ((r, sg) # parts) st s =
     (if span_beyond_frontier (rs_frontier ops s) forward (se_min_ts sg) (se_max_ts sg)
      then scan_parts env ops t filters exact_fields qr forward limit bytes_limit parts st s
      else
        (let part_limit = map_option (\<lambda>l. l - ss_rows st) limit; part_bytes_limit = map_option (\<lambda>l. l - ss_bytes st) bytes_limit in
         if part_limit = Some 0 \<or> part_bytes_limit = Some 0 then Inr (st, s)
         else
           (case part_scan_into env ops r t filters exact_fields qr forward part_limit part_bytes_limit s of
              Inl err \<Rightarrow> Inl err
            | Inr (ps, s) \<Rightarrow>
                (let st = \<lparr>ss_rows = ss_rows st + ss_rows ps, ss_bytes = ss_bytes st + ss_bytes ps\<rparr> in
                 if over part_limit (ss_rows ps) \<or> over part_bytes_limit (ss_bytes ps) then Inr (st, s)
                 else scan_parts env ops t filters exact_fields qr forward limit bytes_limit parts st s))))"

text \<open>\<open>readers\<close> is the order the map of parts is walked in.\<close>

definition registry_scan_into ::
    "scan_env \<Rightarrow> 's row_sink \<Rightarrow> part_reader list \<Rightarrow> tenant_id \<Rightarrow> line_filter list \<Rightarrow> exact_field_predicate list \<Rightarrow> query_time_range \<Rightarrow> bool \<Rightarrow>
     nat option \<Rightarrow> nat option \<Rightarrow> 's \<Rightarrow> string + (scan_stats \<times> 's)" where
  "registry_scan_into env ops readers t filters exact_fields qr forward limit bytes_limit s =
     (if readers = [] \<or> rs_closed ops s then Inr (\<lparr>ss_rows = 0, ss_bytes = 0\<rparr>, s)
      else scan_parts env ops t filters exact_fields qr forward limit bytes_limit (candidate_parts readers t qr forward) \<lparr>ss_rows = 0, ss_bytes = 0\<rparr> s)"

subsection \<open>Metadata is read as it was written\<close>

lemma map_of_without: "x \<noteq> k \<Longrightarrow> map_of (filter (\<lambda>(n, _). n \<noteq> k) xs) x = map_of xs x"
  by (induction xs) auto

lemma rebuild_split:
  assumes "sorted_wrt (<) keys" and "sorted_wrt (\<lambda>p q. fst p < fst q) md"
  shows "read_metadata keys md = md"
  using assms
proof (induction keys arbitrary: md)
  case Nil
  then show ?case by (simp add: read_metadata_def residual_metadata_def case_prod_unfold)
next
  case (Cons k keys)
  define lo where "lo = takeWhile (\<lambda>(n, _). n < k) md"
  define hi where "hi = dropWhile (\<lambda>(n, _). n < k) md"
  have md: "md = lo @ hi" by (simp add: lo_def hi_def)
  have lo: "\<forall>p \<in> set lo. fst p < k" by (auto simp: lo_def dest: set_takeWhileD)
  have sh: "sorted_wrt (\<lambda>p q. fst p < fst q) hi" using Cons.prems(2) by (simp add: md sorted_wrt_append)
  have hd: "hi \<noteq> [] \<Longrightarrow> \<not> fst (hd hi) < k" using hd_dropWhile [of "\<lambda>(n, _). n < k" md] by (simp add: hi_def case_prod_unfold)
  define rest where "rest = filter (\<lambda>(n, _). n \<noteq> k) hi"
  have gt: "\<forall>p \<in> set rest. k < fst p"
  proof (cases hi)
    case (Cons p ps)
    then have "\<forall>q \<in> set hi. fst p \<le> fst q" using sh by auto
    then show ?thesis using hd Cons by (auto simp: rest_def not_less intro: le_neq_trans)
  qed (simp add: rest_def)
  have keys: "\<forall>x \<in> set keys. k < x" "sorted_wrt (<) keys" using Cons.prems(1) by auto
  have here: "(case map_of md k of None \<Rightarrow> [] | Some v \<Rightarrow> [(k, v)]) @ rest = hi"
  proof (cases hi)
    case Nil
    have "map_of md k = None" using lo Nil by (auto simp: md map_of_eq_None_iff)
    then show ?thesis by (simp add: rest_def Nil)
  next
    case (Cons p ps)
    have nl: "map_of lo k = None" using lo by (auto simp: map_of_eq_None_iff)
    have ps: "\<forall>q \<in> set ps. fst p < fst q" using sh Cons by simp
    show ?thesis
    proof (cases "fst p = k")
      case True
      then have "rest = ps" using ps Cons by (auto simp: rest_def intro!: filter_True)
      moreover have "map_of md k = Some (snd p)" using nl True Cons by (cases p) (simp add: md map_add_def)
      ultimately show ?thesis using True Cons by (cases p) simp
    next
      case False
      then have "k < fst p" using hd Cons by simp
      then have "\<forall>q \<in> set hi. k < fst q" using ps Cons by auto
      then have "map_of hi k = None" "rest = hi" by (auto simp: map_of_eq_None_iff rest_def intro!: filter_True)
      then show ?thesis using nl by (simp add: md map_add_def)
    qed
  qed
  have srest: "sorted_wrt (\<lambda>p q. fst p < fst q) rest" using sh by (simp add: rest_def sorted_wrt_filter)
  have res: "residual_metadata (k # keys) md = lo @ residual_metadata keys rest"
  proof -
    have "filter (\<lambda>(n, _). n \<notin> set (k # keys)) lo = lo" using lo keys(1) by (force intro!: filter_True)
    moreover have "filter (\<lambda>(n, _). n \<notin> set (k # keys)) hi = filter (\<lambda>(n, _). n \<notin> set keys) rest"
      by (auto simp: rest_def intro: filter_cong)
    ultimately show ?thesis by (simp add: residual_metadata_def md)
  qed
  have tw: "takeWhile (\<lambda>(n, _). n < k) (lo @ residual_metadata keys rest) = lo \<and>
      dropWhile (\<lambda>(n, _). n < k) (lo @ residual_metadata keys rest) = residual_metadata keys rest"
  proof -
    have "\<forall>p \<in> set (residual_metadata keys rest). k < fst p" using gt by (auto simp: residual_metadata_def)
    then have "takeWhile (\<lambda>(n, _). n < k) (residual_metadata keys rest) = []"
      "dropWhile (\<lambda>(n, _). n < k) (residual_metadata keys rest) = residual_metadata keys rest"
      by (cases "residual_metadata keys rest"; force)+
    then show ?thesis using lo by (simp add: takeWhile_append dropWhile_append case_prod_unfold)
  qed
  have cols: "map (\<lambda>x. (x, map_of md x)) keys = map (\<lambda>x. (x, map_of rest x)) keys"
  proof (rule map_cong [OF refl])
    fix x assume x: "x \<in> set keys"
    then have "k < x" using keys(1) by simp
    moreover have "map_of lo x = None" using lo calculation by (auto simp: map_of_eq_None_iff)
    ultimately have "map_of lo x = None" "map_of hi x = map_of rest x" by (auto simp: rest_def map_of_without)
    then show "(x, map_of md x) = (x, map_of rest x)" by (simp add: md map_add_def split: option.splits)
  qed
  have "read_metadata (k # keys) md = lo @ (case map_of md k of None \<Rightarrow> [] | Some v \<Rightarrow> [(k, v)]) @ read_metadata keys rest"
    unfolding read_metadata_def res list.map rebuild_metadata.simps cols using tw by simp
  also have "read_metadata keys rest = rest" by (rule Cons.IH [OF keys(2) srest])
  finally show ?case using here by (simp add: md)
qed

end
