(* ===== verification/RegexLiterals.thy ===== *)
theory RegexLiterals
  imports LogQL "HOL-Library.Sublist"
begin

text \<open>
  \<open>required_regex_literals\<close> of \<open>signy/src/logql/pipeline.rs\<close>: the texts every line a pattern matches has,
  which the trigram index is asked about. The parser and the matcher are the crates \<open>regex_syntax\<close> and
  \<open>regex\<close>: \<open>hir_of\<close> is the parser (\<open>None\<close> where it fails), \<open>is_match\<close> the search, and \<open>spans h s\<close> says
  that the expression \<open>h\<close> can match the text \<open>s\<close>. \<open>hir\<close> has the kinds the code looks at by name; every other
  one (a class, a look-around, an alternation, the empty expression) is \<open>HirOther\<close>.
\<close>

datatype hir =
    HirLiteral string
  | HirConcat "hir list"
  | HirCapture hir
  | HirRepetition nat hir
  | HirOther

definition end_run :: "string \<Rightarrow> string list" where
  "end_run run = (if run = [] then [] else [run])"

text \<open>\<open>is_utf8\<close> is \<open>std::str::from_utf8\<close>. \<open>collect_parts\<close> is the loop over a concatenation, with the run of
  literals it holds.\<close>

fun collect_required_literals :: "(string \<Rightarrow> bool) \<Rightarrow> hir \<Rightarrow> string list"
  and collect_parts :: "(string \<Rightarrow> bool) \<Rightarrow> hir list \<Rightarrow> string \<Rightarrow> string list" where
  "collect_required_literals is_utf8 (HirLiteral l) = (if is_utf8 l then [l] else [])"
| "collect_required_literals is_utf8 (HirConcat parts) = collect_parts is_utf8 parts []"
| "collect_required_literals is_utf8 (HirCapture sub) = collect_required_literals is_utf8 sub"
| "collect_required_literals is_utf8 (HirRepetition least sub) = (if least \<ge> 1 then collect_required_literals is_utf8 sub else [])"
| "collect_required_literals is_utf8 HirOther = []"
| "collect_parts is_utf8 [] run = end_run run"
| "collect_parts is_utf8 (HirLiteral l # parts) run =
     (if is_utf8 l then collect_parts is_utf8 parts (run @ l) else end_run run @ collect_parts is_utf8 parts [])"
| "collect_parts is_utf8 (part # parts) run = end_run run @ collect_required_literals is_utf8 part @ collect_parts is_utf8 parts []"

definition required_regex_literals :: "(string \<Rightarrow> bool) \<Rightarrow> (string \<Rightarrow> hir option) \<Rightarrow> string \<Rightarrow> string list" where
  "required_regex_literals is_utf8 hir_of pattern =
     (case hir_of pattern of
        None \<Rightarrow> []
      | Some hir \<Rightarrow> filter (\<lambda>l. length l \<ge> 3) (collect_required_literals is_utf8 hir))"

text \<open>What the crates promise of the kinds the code looks at.\<close>

definition regex_engine_ok :: "(string \<Rightarrow> hir option) \<Rightarrow> (hir \<Rightarrow> string \<Rightarrow> bool) \<Rightarrow> (string \<Rightarrow> string \<Rightarrow> bool) \<Rightarrow> bool" where
  "regex_engine_ok hir_of spans is_match \<longleftrightarrow>
     (\<forall>l s. spans (HirLiteral l) s \<longrightarrow> s = l) \<and>
     (\<forall>parts s. spans (HirConcat parts) s \<longrightarrow> (\<exists>ss. list_all2 spans parts ss \<and> s = concat ss)) \<and>
     (\<forall>sub s. spans (HirCapture sub) s \<longrightarrow> spans sub s) \<and>
     (\<forall>least sub s. spans (HirRepetition least sub) s \<longrightarrow> (\<exists>ss. least \<le> length ss \<and> list_all (spans sub) ss \<and> s = concat ss)) \<and>
     (\<forall>pattern hir line. hir_of pattern = Some hir \<longrightarrow> is_match pattern line \<longrightarrow> (\<exists>s. spans hir s \<and> sublist s line))"

text \<open>The regular expressions of a query, with the literals the reader takes from their patterns.\<close>

definition regex_filters_ok :: "(string \<Rightarrow> bool) \<Rightarrow> (string \<Rightarrow> hir option) \<Rightarrow> (string \<Rightarrow> string \<Rightarrow> bool) \<Rightarrow> line_filter list \<Rightarrow> bool" where
  "regex_filters_ok is_utf8 hir_of is_match filters \<longleftrightarrow>
     (\<forall>re literals. LineRegex re literals \<in> set filters \<longrightarrow>
        (\<exists>pattern. re = is_match pattern \<and> literals = required_regex_literals is_utf8 hir_of pattern))"

lemma end_run_sublist: "l \<in> set (end_run run) \<Longrightarrow> sublist l (run @ s)"
  by (auto simp: end_run_def split: if_splits)

lemma in_concat_sublist: "x \<in> set ss \<Longrightarrow> sublist l x \<Longrightarrow> sublist l (concat ss)"
  by (induction ss) (auto intro: sublist_order.order.trans sublist_append_leftI sublist_append_rightI)

lemma sublist_later: "sublist l s \<Longrightarrow> sublist l (r @ s)" and sublist_earlier: "sublist l r \<Longrightarrow> sublist l (r @ s)"
  by (metis sublist_appendI sublist_append_leftI sublist_append_rightI sublist_order.order.trans)+

lemma part_sublist:
  "l \<in> set (end_run run) \<or> sublist l z \<or> sublist l (concat zs) \<Longrightarrow> sublist l (run @ z @ concat zs)"
  using end_run_sublist sublist_later sublist_earlier by blast

lemma part_step:
  assumes "list_all2 spans (part # parts) ss" and "l \<in> set (end_run run @ required @ rest)"
    and "\<And>s. l \<in> set required \<Longrightarrow> spans part s \<Longrightarrow> sublist l s"
    and "\<And>ss. l \<in> set rest \<Longrightarrow> list_all2 spans parts ss \<Longrightarrow> sublist l ([] @ concat ss)"
  shows "sublist l (run @ concat ss)"
proof -
  obtain z zs where z: "ss = z # zs" "spans part z" "list_all2 spans parts zs" using assms(1) by (auto simp: list_all2_Cons1)
  show ?thesis using assms(2) assms(3) [OF _ z(2)] assms(4) [OF _ z(3)] part_sublist [of l run z zs] by (auto simp: z(1))
qed

lemma collected_is_matched:
  assumes "regex_engine_ok hir_of spans is_match"
  shows "l \<in> set (collect_required_literals is_utf8 hir) \<Longrightarrow> spans hir s \<Longrightarrow> sublist l s"
    and "l \<in> set (collect_parts is_utf8 parts run) \<Longrightarrow> list_all2 spans parts ss \<Longrightarrow> sublist l (run @ concat ss)"
proof (induction is_utf8 hir and is_utf8 parts run arbitrary: s and ss rule: collect_required_literals_collect_parts.induct)
  case (1 is_utf8 lit)
  have "s = lit" using assms "1.prems"(2) unfolding regex_engine_ok_def by blast
  then show ?case using "1.prems"(1) by (simp split: if_splits)
next
  case (2 is_utf8 parts)
  obtain ss where "list_all2 spans parts ss" "s = concat ss" using assms "2.prems"(2) unfolding regex_engine_ok_def by blast
  then show ?case using "2.IH" [of ss] "2.prems"(1) by simp
next
  case (3 is_utf8 sub)
  have "spans sub s" using assms "3.prems"(2) unfolding regex_engine_ok_def by blast
  then show ?case using "3.IH" "3.prems"(1) by simp
next
  case (4 is_utf8 least sub)
  then have l: "least \<ge> 1" "l \<in> set (collect_required_literals is_utf8 sub)" by (auto split: if_splits)
  obtain ss where ss: "least \<le> length ss" "list_all (spans sub) ss" "s = concat ss"
    using assms "4.prems"(2) unfolding regex_engine_ok_def by blast
  have "hd ss \<in> set ss" using l(1) ss(1) by (cases ss) auto
  then show ?case unfolding ss(3) using "4.IH"(1) [OF l] ss(2) by (intro in_concat_sublist [of "hd ss"]) (auto simp: list_all_iff)
next
  case (5 is_utf8)
  then show ?case by simp
next
  case (6 is_utf8 run)
  then show ?case using end_run_sublist [of l run "[]"] by simp
next
  case (7 is_utf8 lit parts run)
  obtain s ss' where s: "ss = s # ss'" "spans (HirLiteral lit) s" "list_all2 spans parts ss'"
    using "7.prems"(2) by (auto simp: list_all2_Cons1)
  have lit: "s = lit" using assms s(2) unfolding regex_engine_ok_def by blast
  show ?case
  proof (cases "is_utf8 lit")
    case True
    then show ?thesis using 7 s lit by auto
  next
    case False
    then consider "l \<in> set (end_run run)" | "l \<in> set (collect_parts is_utf8 parts [])" using "7.prems"(1) by auto
    then show ?thesis
    proof cases
      case 2
      from "7.IH"(2) [OF False 2 s(3)] show ?thesis by (simp add: s(1) sublist_later)
    qed (simp add: end_run_sublist)
  qed
next
  case "8_1"
  show ?case by (rule part_step [OF "8_1.prems"(2) "8_1.prems"(1) [unfolded collect_parts.simps] "8_1.IH"])
next
  case "8_2"
  show ?case by (rule part_step [OF "8_2.prems"(2) "8_2.prems"(1) [unfolded collect_parts.simps] "8_2.IH"])
next
  case "8_3"
  show ?case by (rule part_step [OF "8_3.prems"(2) "8_3.prems"(1) [unfolded collect_parts.simps] "8_3.IH"])
next
  case "8_4"
  show ?case by (rule part_step [OF "8_4.prems"(2) "8_4.prems"(1) [unfolded collect_parts.simps] "8_4.IH"])
qed

lemma required_is_matched:
  assumes "regex_engine_ok hir_of spans is_match" and "is_match pattern line" and "l \<in> set (required_regex_literals is_utf8 hir_of pattern)"
  shows "sublist l line"
proof -
  obtain hir where hir: "hir_of pattern = Some hir" "l \<in> set (collect_required_literals is_utf8 hir)"
    using assms(3) by (cases "hir_of pattern") (auto simp: required_regex_literals_def)
  obtain s where s: "spans hir s" "sublist s line" using assms(1,2) hir(1) unfolding regex_engine_ok_def by blast
  show ?thesis using collected_is_matched(1) [OF assms(1) hir(2) s(1)] s(2) by (rule sublist_order.order.trans)
qed

text \<open>The patterns of the repository's tests: \<open>error.*timeout\<close>, \<open>connection (reset|refused)\<close>, \<open>(zebra)?stripe\<close>,
  \<open>(abc)+def\<close>.\<close>

lemma required_literals_examples:
  "collect_required_literals (\<lambda>_. True) (HirConcat [HirLiteral ''error'', HirRepetition 0 HirOther, HirLiteral ''timeout'']) = [''error'', ''timeout'']"
  "collect_required_literals (\<lambda>_. True) (HirConcat [HirLiteral ''connection '', HirCapture HirOther]) = [''connection '']"
  "collect_required_literals (\<lambda>_. True) (HirConcat [HirRepetition 0 (HirCapture (HirLiteral ''zebra'')), HirLiteral ''stripe'']) = [''stripe'']"
  "collect_required_literals (\<lambda>_. True) (HirConcat [HirRepetition 1 (HirCapture (HirLiteral ''abc'')), HirLiteral ''def'']) = [''abc'', ''def'']"
  by (simp_all add: end_run_def)

text \<open>An engine for patterns that are one literal.\<close>

fun plain_spans :: "hir \<Rightarrow> string \<Rightarrow> bool" where
  "plain_spans (HirLiteral l) s \<longleftrightarrow> s = l"
| "plain_spans _ s \<longleftrightarrow> False"

lemma plain_engine_ok: "regex_engine_ok (\<lambda>pattern. Some (HirLiteral pattern)) plain_spans sublist"
  by (auto simp: regex_engine_ok_def)

end
