(* ===== verification/PartScanLaws.thy ===== *)
theory PartScanLaws
  imports PartScan RegexLiterals
begin

text \<open>
  A scan of parts offers a sink every row the query asks for. What a part is when it was written
  (\<open>part_written\<close>), and that neither the selection of row groups, nor the pages, windows and columns, nor
  the frontier leave out a row the sink would have taken.
\<close>

subsection \<open>A part as it was written\<close>

definition pages_ok :: "(nat \<times> (int \<times> int) option) list \<Rightarrow> log_row list \<Rightarrow> bool" where
  "pages_ok pages rows \<longleftrightarrow>
     (\<forall>i < length rows. \<exists>((first, bounds), past) \<in> set (zip pages (map fst (tl pages) @ [length rows])).
        first \<le> i \<and> i < past \<and> (case bounds of None \<Rightarrow> True | Some (lo, hi) \<Rightarrow> lo \<le> ro_ts (rows ! i) \<and> ro_ts (rows ! i) \<le> hi))"

text \<open>The groups of a tenant hold its rows and no others.\<close>

definition segments_ok :: "part_reader \<Rightarrow> bool" where
  "segments_ok r \<longleftrightarrow>
     (\<forall>t. case tenant_segment_of (rd_meta r) t of
        None \<Rightarrow> \<forall>row \<in> set (concat (rd_groups r)). ro_tenant row \<noteq> t
      | Some sg \<Rightarrow> se_row_group_start sg \<le> se_row_group_end sg \<and> se_row_group_end sg \<le> length (rd_groups r) \<and>
          (\<forall>g < length (rd_groups r). \<forall>row \<in> set (rd_groups r ! g).
             if se_row_group_start sg \<le> g \<and> g < se_row_group_end sg
             then ro_tenant row = t \<and> se_min_ts sg \<le> ro_ts row \<and> ro_ts row \<le> se_max_ts sg else ro_tenant row \<noteq> t))"

definition groups_ok :: "part_reader \<Rightarrow> bool" where
  "groups_ok r \<longleftrightarrow>
     (\<forall>g < length (rd_groups r). length (rd_groups r ! g) \<le> 65536 \<and>
        (case rd_pages r ! g of None \<Rightarrow> True | Some pages \<Rightarrow> pages_ok pages (rd_groups r ! g)) \<and>
        (\<forall>row \<in> set (rd_groups r ! g). rd_group_min_ts r ! g \<le> ro_ts row \<and> ro_ts row \<le> rd_group_max_ts r ! g \<and>
           sorted_wrt (\<lambda>p q. fst p < fst q) (ro_metadata row)))"

definition part_entries :: "part_reader \<Rightarrow> log_entry list list" where
  "part_entries r = map (map entry_of) (rd_groups r)"

text \<open>What a part is when it was written, by a flush or by a merge: the index is the one of its rows, its columns are in
  the order of their names, and they have every name of every row when there is room for another.\<close>

definition columns_ok :: "(string \<Rightarrow> json option) \<Rightarrow> string list \<Rightarrow> string list \<Rightarrow> log_entry list \<Rightarrow> bool" where
  "columns_ok parse metadata_keys parsed_keys rows \<longleftrightarrow>
     sorted_wrt (<) metadata_keys \<and> sorted_wrt (<) parsed_keys \<and>
     (\<forall>e \<in> set rows. keys_complete metadata_keys (fst ` set (le_metadata e)) \<and>
        keys_complete parsed_keys (fst ` set (json_fields parse (le_line e))))"

definition part_written :: "scan_env \<Rightarrow> float_sizes \<Rightarrow> float_sizes \<Rightarrow> part_reader \<Rightarrow> bool" where
  "part_written env fl_line fl_exact r \<longleftrightarrow>
     Option.bind (encode_blooms (sv_unicode env) (sv_chars env) fl_line fl_exact (sv_json env) (part_entries r)) write_index_sections =
       Some (rd_index r) \<and>
     length (rd_index r) < 2 ^ 32 \<and> build_bloom_index (rd_index r) (map length (part_entries r)) = Inr (rd_blooms r) \<and>
     columns_ok (sv_json env) (rd_metadata_keys r) (rd_parsed_keys r) (concat (part_entries r)) \<and> segments_ok r \<and> groups_ok r"

text \<open>What a line filter hands down is part of the lines it takes, as bytes and as characters.\<close>

definition literals_of :: "line_filter list \<Rightarrow> string list" where
  "literals_of filters =
     concat (map (\<lambda>f. case f of Contains literal \<Rightarrow> [literal] | LineRegex _ literals \<Rightarrow> literals | _ \<Rightarrow> []) filters)"

text \<open>A text within a text is within it as characters: what decoding UTF-8 promises of whole texts.\<close>

definition chars_ok :: "scan_env \<Rightarrow> string list \<Rightarrow> string set \<Rightarrow> bool" where
  "chars_ok env literals lines \<longleftrightarrow>
     (\<forall>l \<in> set literals. \<forall>line \<in> lines. sublist l line \<longrightarrow> sublist (sv_chars env l) (sv_chars env line))"

definition no_capital_sigma :: "scan_env \<Rightarrow> string list \<Rightarrow> bool" where
  "no_capital_sigma env literals \<longleftrightarrow> (\<forall>l \<in> set literals. capital_sigma \<notin> set (sv_chars env l))"

definition literals_ok :: "scan_env \<Rightarrow> line_filter list \<Rightarrow> string set \<Rightarrow> bool" where
  "literals_ok env filters lines \<longleftrightarrow> no_capital_sigma env (literals_of filters) \<and> chars_ok env (literals_of filters) lines \<and>
     (\<forall>re literals line. LineRegex re literals \<in> set filters \<longrightarrow> re line \<longrightarrow> (\<forall>l \<in> set literals. sublist l line))"

lemma literals_okI:
  assumes "regex_engine_ok hir_of spans is_match" and "regex_filters_ok is_utf8 hir_of is_match filters"
    and "no_capital_sigma env (literals_of filters)" and "chars_ok env (literals_of filters) lines"
  shows "literals_ok env filters lines"
  using assms(2-4) required_is_matched [OF assms(1)] unfolding literals_ok_def regex_filters_ok_def by blast

lemma prune_literals_of: "prune_literals env filters = map (sv_chars env) (literals_of filters)"
  by (induction filters) (auto simp: prune_literals_def literals_of_def split: line_filter.splits)

lemma find_sub_sublist: "find_sub line s \<noteq> None \<Longrightarrow> sublist s line"
proof (induction line)
  case (Cons c cs)
  show ?case
  proof (cases "starts_with (c # cs) s")
    case True
    then have "c # cs = s @ drop (length s) (c # cs)" by (metis append_take_drop_id starts_with_def)
    then have "prefix s (c # cs)" by (rule prefixI)
    then show ?thesis by (rule prefix_imp_sublist)
  next
    case False
    then have "sublist s cs" using Cons by auto
    then show ?thesis by (auto simp: sublist_Cons_right)
  qed
qed (auto split: if_splits)

lemma literals_in_line:
  assumes "literals_ok env filters lines" and "line \<in> lines" and "list_all (\<lambda>f. line_matches f line) filters" and "l \<in> set (literals_of filters)"
  shows "sublist (sv_chars env l) (sv_chars env line)"
proof -
  obtain f where f: "f \<in> set filters" "l \<in> set (case f of Contains literal \<Rightarrow> [literal] | LineRegex _ literals \<Rightarrow> literals | _ \<Rightarrow> [])"
    using assms(4) by (auto simp: literals_of_def)
  have m: "line_matches f line" using assms(3) f(1) by (simp add: list_all_iff)
  have "sublist l line"
  proof (cases f)
    case (Contains s)
    then show ?thesis using f(2) m find_sub_sublist by (simp add: line_matches_def)
  next
    case (LineRegex re ls)
    then show ?thesis using f m assms(1) by (auto simp: line_matches_def literals_ok_def)
  qed (use f(2) in simp_all)
  then show ?thesis using assms(1,2,4) by (simp add: literals_ok_def chars_ok_def)
qed

subsection \<open>The rows of a group that are read\<close>

lemma selected_split: "length s = length rows \<Longrightarrow> mset rows = mset (selected_rows s rows) + mset (selected_rows (map Not s) rows)"
  by (induction s rows rule: list_induct2) (auto simp: selected_rows_def)

lemma not_selected: "length s = length rows \<Longrightarrow> x \<in> set (selected_rows (map Not s) rows) \<Longrightarrow> \<exists>i < length rows. \<not> s ! i \<and> rows ! i = x"
  by (auto simp: selected_rows_def set_zip)

lemma concat_chunks: "concat (chunks n xs) = xs"
  by (induction n xs rule: chunks.induct) simp_all

lemma read_back: "sorted_wrt (<) keys \<Longrightarrow> sorted_wrt (\<lambda>p q. fst p < fst q) (ro_metadata row) \<Longrightarrow>
  \<lparr>le_ts = ro_ts row, le_line = ro_line row, le_metadata = read_metadata keys (ro_metadata row)\<rparr> = entry_of row"
  by (simp add: rebuild_split entry_of_def)

lemma keys_sorted: "sorted_wrt (<) (map fst (select_metadata_columns counts))" if "distinct (map fst counts)"
proof -
  have d: "distinct (map fst (take max_metadata_columns (sort_key (\<lambda>(n, c). - int c) (sort_key fst counts))))"
  proof -
    have "distinct (map fst (sort_key (\<lambda>(n, c). - int c) (sort_key fst counts)))"
      using that mset_eq_imp_distinct_iff [of "map fst (sort_key (\<lambda>(n, c). - int c) (sort_key fst counts))" "map fst counts"] by simp
    then show ?thesis by (metis distinct_take take_map)
  qed
  then have "distinct (map fst (select_metadata_columns counts))" unfolding select_metadata_columns_def by (rule distinct_sorted_fields)
  moreover have "sorted (map fst (select_metadata_columns counts))" by (simp add: select_metadata_columns_def)
  ultimately show ?thesis by (simp add: strict_sorted_iff)
qed

lemma counts_distinct:
  "distinct (map fst (metadata_column_counts rows))" "distinct (map fst (parsed_column_counts parsed))"
  by (simp_all add: metadata_column_counts_def parsed_column_counts_def Let_def comp_def)

text \<open>The columns a flush takes.\<close>

lemma batch_columns_ok:
  "columns_ok parse (map fst (select_metadata_columns (metadata_column_counts rows)))
     (map fst (select_metadata_columns (parsed_column_counts (parse_rows parse rows)))) rows"
  using keys_sorted counts_distinct metadata_keys_complete parsed_keys_complete unfolding columns_ok_def by blast

lemma time_page_keeps:
  assumes "pages_ok pages rows" and "i < length rows" and "range_contains qr (ro_ts (rows ! i))"
  shows "list_ex (\<lambda>(first, past). first \<le> i \<and> i < past) (page_rows pages (length rows) qr)"
proof -
  obtain first bounds past where p: "((first, bounds), past) \<in> set (zip pages (map fst (tl pages) @ [length rows]))"
    "first \<le> i" "i < past" "case bounds of None \<Rightarrow> True | Some (lo, hi) \<Rightarrow> lo \<le> ro_ts (rows ! i) \<and> ro_ts (rows ! i) \<le> hi"
    using assms(1,2) unfolding pages_ok_def by (fastforce simp: case_prod_unfold)
  have "case bounds of None \<Rightarrow> True | Some (lo, hi) \<Rightarrow> range_overlaps qr lo hi"
    using p(4) assms(3) by (auto split: option.splits intro: overlaps_if_contains)
  then have "(first, past) \<in> set (page_rows pages (length rows) qr)"
    using p(1) unfolding page_rows_def by force
  then show ?thesis using p(2,3) by (auto simp: list_ex_iff)
qed

lemma base_keeps:
  assumes "groups_ok r" and "g < length (rd_groups r)" and "i < length (rd_groups r ! g)"
    and "range_contains qr (ro_ts (rd_groups r ! g ! i))"
    and "\<And>m. exact_field_window_mask (rd_index r) (snd (rd_blooms r ! g)) exact_fields = Some m \<Longrightarrow>
      window_row_selection m (length (rd_groups r ! g)) ! i"
  shows "whole_selection (length (rd_groups r ! g)) (base_selection r g exact_fields qr) ! i"
proof -
  define rows where "rows = rd_groups r ! g"
  have "pages_ok pages rows" if "rd_pages r ! g = Some pages" for pages
    using assms(1,2) that by (auto simp: groups_ok_def rows_def split: option.splits)
  then have t: "s ! i" if "time_page_selection (rd_pages r ! g) (length rows) qr = Some s" for s
    using that time_page_keeps [of _ rows i qr] assms(3,4) by (auto simp: time_page_selection_def rows_def)
  have l: "time_page_selection (rd_pages r ! g) (length rows) qr = Some s \<Longrightarrow> length s = length rows" for s
    by (auto simp: time_page_selection_def)
  show ?thesis
    using t l assms(3,5) unfolding base_selection_def whole_selection_def both_selections_def rows_def [symmetric]
    by (auto simp: Let_def window_row_selection_def split: option.splits)
qed

lemma base_length: "length (whole_selection n (base_selection r g exact_fields qr)) = n" if "n = length (rd_groups r ! g)"
  using that unfolding base_selection_def whole_selection_def both_selections_def
  by (auto simp: Let_def window_row_selection_def time_page_selection_def split: option.splits)

text \<open>What a row the sink would take has: the index, the columns and the line filter of its part let it through.\<close>

definition wanted :: "scan_env \<Rightarrow> exact_field_predicate list \<Rightarrow> log_entry \<Rightarrow> bool" where
  "wanted env exact_fields e \<longleftrightarrow> (\<forall>p \<in> set exact_fields. ep_value p \<noteq> [] \<longrightarrow> predicate_holds (sv_json env) e p)"

lemma written_group:
  assumes "part_written env fl fl' r" and "float_sizes_ok fl" and "float_sizes_ok fl'" and "g < length (rd_groups r)"
  shows "group_found (rd_index r) (sv_unicode env) (sv_chars env) fl (sv_json env) (map entry_of (rd_groups r ! g)) (rd_blooms r ! g)"
proof -
  have w: "Option.bind (encode_blooms (sv_unicode env) (sv_chars env) fl fl' (sv_json env) (part_entries r)) write_index_sections =
       Some (rd_index r)" "length (rd_index r) < 2 ^ 32" "build_bloom_index (rd_index r) (map length (part_entries r)) = Inr (rd_blooms r)"
    "\<forall>rows \<in> set (part_entries r). length rows \<le> 65536"
    using assms(1) by (auto simp: part_written_def groups_ok_def part_entries_def in_set_conv_nth)
  from index_reads [OF w(1,2) assms(2,3) w(4)] w(3)
  have "list_all2 (group_found (rd_index r) (sv_unicode env) (sv_chars env) fl (sv_json env)) (part_entries r) (rd_blooms r)" by simp
  from list_all2_nthD [OF this, of g] assms(4) show ?thesis by (simp add: part_entries_def)
qed

lemma written_keeps:
  assumes "part_written env fl fl' r" and "float_sizes_ok fl" and "float_sizes_ok fl'"
    and "g < length (rd_groups r)" and "i < length (rd_groups r ! g)" and "wanted env exact_fields (entry_of (rd_groups r ! g ! i))"
  shows "exact_field_bloom_prune (rd_index r) (snd (rd_blooms r ! g)) exact_fields"
    and "exact_field_window_mask (rd_index r) (snd (rd_blooms r ! g)) exact_fields = Some m \<Longrightarrow>
      window_row_selection m (length (rd_groups r ! g)) ! i"
    and "\<exists>ds. definitive_columns (rd_metadata_keys r) (rd_parsed_keys r) exact_fields = Some ds \<and>
      list_all (column_keeps (sv_json env) (rd_metadata_keys r) (rd_parsed_keys r) (entry_of (rd_groups r ! g ! i))) ds"
proof -
  have l: "i < length (map entry_of (rd_groups r ! g))" "length (map entry_of (rd_groups r ! g)) \<le> 65536"
    using assms(1,4,5) by (auto simp: part_written_def groups_ok_def)
  have h: "\<forall>p \<in> set exact_fields. ep_value p \<noteq> [] \<longrightarrow> predicate_holds (sv_json env) (map entry_of (rd_groups r ! g) ! i) p"
    using assms(5,6) by (simp add: wanted_def)
  note k = found_keeps [OF written_group [OF assms(1-4)] l h]
  show "exact_field_bloom_prune (rd_index r) (snd (rd_blooms r ! g)) exact_fields" by (rule k(1))
  show "exact_field_window_mask (rd_index r) (snd (rd_blooms r ! g)) exact_fields = Some m \<Longrightarrow>
      window_row_selection m (length (rd_groups r ! g)) ! i" using k(2) by simp
  have e: "entry_of (rd_groups r ! g ! i) \<in> set (concat (part_entries r))"
    using assms(4,5) by (auto simp: part_entries_def intro!: bexI [of _ "rd_groups r ! g"] imageI)
  have keys: "keys_complete (rd_metadata_keys r) (fst ` set (le_metadata (entry_of (rd_groups r ! g ! i))))"
    "keys_complete (rd_parsed_keys r) (fst ` set (json_fields (sv_json env) (le_line (entry_of (rd_groups r ! g ! i)))))"
    using assms(1) e by (auto simp: part_written_def columns_ok_def)
  show "\<exists>ds. definitive_columns (rd_metadata_keys r) (rd_parsed_keys r) exact_fields = Some ds \<and>
      list_all (column_keeps (sv_json env) (rd_metadata_keys r) (rd_parsed_keys r) (entry_of (rd_groups r ! g ! i))) ds"
    using definitive_keep [OF assms(6) [unfolded wanted_def] keys] by (auto simp: list_all_iff)
qed

lemma written_line:
  assumes "part_written env fl fl' r" and "float_sizes_ok fl" and "float_sizes_ok fl'" and "unicode_ok (sv_unicode env)"
    and "g < length (rd_groups r)" and "row \<in> set (rd_groups r ! g)" and "list_all (\<lambda>f. line_matches f (ro_line row)) filters"
    and "literals_ok env filters (ro_line ` set (concat (rd_groups r)))"
  shows "reader_bloom_prune env r g (prune_literals env filters)"
proof -
  obtain f where f: "line_bloom (sv_unicode env) fl (map (\<lambda>e. sv_chars env (le_line e)) (map entry_of (rd_groups r ! g))) = Some f"
    "bloom_at (rd_index r) (fst (rd_blooms r ! g)) = ref_of f"
    using written_group [OF assms(1-3,5)] by (auto simp: group_found_def)
  have line: "sv_chars env (ro_line row) \<in> set (map (\<lambda>e. sv_chars env (le_line e)) (map entry_of (rd_groups r ! g)))"
    using assms(6) by (force simp: entry_of_def)
  have row: "ro_line row \<in> ro_line ` set (concat (rd_groups r))" using assms(6) nth_mem [OF assms(5)] by auto
  have lits: "\<forall>l \<in> set (prune_literals env filters). sublist l (sv_chars env (ro_line row)) \<and> capital_sigma \<notin> set l"
    using literals_in_line [OF assms(8) row assms(7)] assms(8) by (auto simp: prune_literals_of literals_ok_def no_capital_sigma_def)
  from line_filter_keeps [OF assms(4,2) line lits f(1)] f(2) show ?thesis by (simp add: reader_bloom_prune_def ref_of_def)
qed

subsection \<open>The rows of a part\<close>

definition in_group :: "part_reader \<Rightarrow> query_time_range \<Rightarrow> line_filter list \<Rightarrow> nat \<Rightarrow> log_entry multiset" where
  "in_group r qr filters g = mset (filter (in_scan qr filters) (map entry_of (rd_groups r ! g)))"

definition tenant_rows :: "part_reader \<Rightarrow> tenant_id \<Rightarrow> log_row list" where
  "tenant_rows r t = filter (\<lambda>row. ro_tenant row = t) (concat (rd_groups r))"

definition part_rows :: "part_reader \<Rightarrow> tenant_id \<Rightarrow> query_time_range \<Rightarrow> line_filter list \<Rightarrow> log_entry multiset" where
  "part_rows r t qr filters = mset (filter (in_scan qr filters) (map entry_of (tenant_rows r t)))"

lemma sum_list_mset_eq: "mset xs = mset ys \<Longrightarrow> sum_list (map f xs) = sum_list (map f ys)" for f :: "'a \<Rightarrow> 'b :: comm_monoid_add"
  by (metis mset_map sum_mset_sum_list)

lemma sum_list_split: "sum_list (map f xs) = sum_list (map f (filter P xs)) + sum_list (map f (filter (\<lambda>x. \<not> P x) xs))"
  for f :: "'a \<Rightarrow> 'b :: comm_monoid_add"
  by (induction xs) (simp_all add: ac_simps)

lemma in_sum_list: "e \<in># sum_list (map f xs) \<longleftrightarrow> (\<exists>x \<in> set xs. e \<in># f x)"
  by (induction xs) auto

lemma mset_concat_map: "mset (filter P (map h (concat (map f xs)))) = sum_list (map (\<lambda>x. mset (filter P (map h (f x)))) xs)"
  by (induction xs) simp_all

lemma upt_split: "i \<le> j \<Longrightarrow> j \<le> k \<Longrightarrow> [i..<k] = [i..<j] @ [j..<k]"
  using upt_add_eq_append [of i j "k - j"] by simp

lemma segment_rows:
  assumes "segments_ok r" and "tenant_segment_of (rd_meta r) t = Some sg"
  shows "part_rows r t qr filters = sum_list (map (in_group r qr filters) [se_row_group_start sg..<se_row_group_end sg])"
    and "length (tenant_rows r t) = sum_list (map (\<lambda>g. length (rd_groups r ! g)) [se_row_group_start sg..<se_row_group_end sg])"
proof -
  define first past n where "first = se_row_group_start sg" and "past = se_row_group_end sg" and "n = length (rd_groups r)"
  have s: "first \<le> past" "past \<le> n"
    and rows: "g < n \<Longrightarrow> row \<in> set (rd_groups r ! g) \<Longrightarrow> (ro_tenant row = t) = (first \<le> g \<and> g < past)" for g row
    using assms unfolding segments_ok_def first_def past_def n_def by (auto split: option.splits if_splits dest!: spec [of _ t])
  have f: "filter (\<lambda>row. ro_tenant row = t) (rd_groups r ! g) = (if first \<le> g \<and> g < past then rd_groups r ! g else [])" if "g < n" for g
    using rows [OF that] by (auto simp: filter_empty_conv intro: filter_True)
  have "concat (rd_groups r) = concat (map ((!) (rd_groups r)) [0..<n])" by (simp add: n_def map_nth)
  then have "tenant_rows r t = concat (map (\<lambda>g. filter (\<lambda>row. ro_tenant row = t) (rd_groups r ! g)) [0..<n])"
    by (simp add: tenant_rows_def filter_concat comp_def)
  also have "\<dots> = concat (map (\<lambda>g. if first \<le> g \<and> g < past then rd_groups r ! g else []) [0..<n])"
    using f by (intro arg_cong [where f = concat] map_cong) auto
  also have "[0..<n] = [0..<first] @ [first..<past] @ [past..<n]" using s using upt_split [of 0 first n] upt_split [of first past n] by simp
  also have "concat (map (\<lambda>g. if first \<le> g \<and> g < past then rd_groups r ! g else []) \<dots>) = concat (map ((!) (rd_groups r)) [first..<past])"
  proof -
    have a: "map (\<lambda>g. if first \<le> g \<and> g < past then rd_groups r ! g else []) [first..<past] = map ((!) (rd_groups r)) [first..<past]" by simp
    have b: "concat (map (\<lambda>g. if first \<le> g \<and> g < past then rd_groups r ! g else []) [0..<first]) = []"
      "concat (map (\<lambda>g. if first \<le> g \<and> g < past then rd_groups r ! g else []) [past..<n]) = []" by (auto simp: concat_eq_Nil_conv)
    show ?thesis unfolding map_append concat_append a b by simp
  qed
  finally have "tenant_rows r t = concat (map ((!) (rd_groups r)) [first..<past])" .
  note whole = this [unfolded first_def past_def]
  show "part_rows r t qr filters = sum_list (map (in_group r qr filters) [se_row_group_start sg..<se_row_group_end sg])"
    unfolding part_rows_def whole in_group_def [abs_def] by (rule mset_concat_map)
  show "length (tenant_rows r t) = sum_list (map (\<lambda>g. length (rd_groups r ! g)) [se_row_group_start sg..<se_row_group_end sg])"
    unfolding whole by (simp add: length_concat comp_def)
qed

lemma sum_list_filter_le_nat: "sum_list (map f (filter P xs)) \<le> sum_list (map f xs)" for f :: "'a \<Rightarrow> nat"
  by (induction xs) auto

lemma segment_span:
  assumes "segments_ok r" and "row \<in> set (tenant_rows r t)" and "tenant_segment_of (rd_meta r) t = Some sg"
  shows "se_min_ts sg \<le> ro_ts row \<and> ro_ts row \<le> se_max_ts sg"
proof -
  obtain g where g: "g < length (rd_groups r)" "row \<in> set (rd_groups r ! g)" "ro_tenant row = t"
    using assms(2) by (auto simp: tenant_rows_def in_set_conv_nth [of _ "rd_groups r"])
  then show ?thesis using assms(1,3) unfolding segments_ok_def by (auto split: option.splits if_splits dest!: spec [of _ t])
qed

lemma no_segment: "segments_ok r \<Longrightarrow> tenant_segment_of (rd_meta r) t = None \<Longrightarrow> tenant_rows r t = []"
  unfolding segments_ok_def tenant_rows_def by (auto simp: filter_empty_conv split: option.splits dest!: spec [of _ t])

lemma candidates_length:
  "sum_list (map (\<lambda>(r, _). length (tenant_rows r t)) (filter P (List.map_filter (\<lambda>r. map_option (Pair r) (f r)) readers))) \<le>
   sum_list (map (\<lambda>r. length (tenant_rows r t)) readers)"
  by (induction readers) (auto simp: map_filter_simps split: option.splits)

lemma candidates_rows:
  assumes "\<And>r. r \<in> set readers \<Longrightarrow> segments_ok r"
  shows "sum_list (map (\<lambda>(r, _). part_rows r t qr filters) (filter (\<lambda>(_, sg). range_overlaps qr (se_min_ts sg) (se_max_ts sg))
            (List.map_filter (\<lambda>r. map_option (Pair r) (tenant_segment_of (rd_meta r) t)) readers))) =
    sum_list (map (\<lambda>r. part_rows r t qr filters) readers)"
  using assms
proof (induction readers)
  case (Cons r readers)
  have seg: "segments_ok r" using Cons.prems by simp
  have "part_rows r t qr filters = {#}" if "tenant_segment_of (rd_meta r) t = None"
    using no_segment [OF seg that] by (simp add: part_rows_def)
  moreover have "part_rows r t qr filters = {#}"
    if "tenant_segment_of (rd_meta r) t = Some sg" "\<not> range_overlaps qr (se_min_ts sg) (se_max_ts sg)" for sg
    using segment_span [OF seg _ that(1)] that(2) overlaps_if_contains
    by (auto simp: part_rows_def in_scan_def entry_of_def filter_empty_conv)
  ultimately show ?case using Cons by (auto simp: map_filter_simps split: option.splits)
qed (simp add: map_filter_simps)

definition part_found :: "scan_env \<Rightarrow> float_sizes \<Rightarrow> float_sizes \<Rightarrow> line_filter list \<Rightarrow> part_reader \<Rightarrow> bool" where
  "part_found env fl fl' filters r \<longleftrightarrow> part_written env fl fl' r \<and> literals_ok env filters (ro_line ` set (concat (rd_groups r)))"

context sink begin

text \<open>A scan from one state to another offered these rows, in some order, or what it left out changes nothing.\<close>

definition reads :: "'s \<Rightarrow> 's \<Rightarrow> log_entry multiset \<Rightarrow> bool" where
  "reads s s' M \<longleftrightarrow> (\<exists>es. mset es = M \<and> view s' = fold takes (map (Pair []) es) (view s))"

definition idle :: "log_entry \<Rightarrow> bool" where
  "idle e \<longleftrightarrow> (\<forall>v. takes ([], e) v = v)"

lemma idle_fold: "\<forall>e \<in> set es. idle e \<Longrightarrow> fold takes (map (Pair []) es) v = v"
  by (induction es) (auto simp: idle_def)

lemma reads_both: "reads s1 s2 M \<Longrightarrow> reads s2 s3 N \<Longrightarrow> reads s1 s3 (M + N)"
  unfolding reads_def by (metis fold_append map_append mset_append comp_apply)

lemma reads_idle: "\<forall>e \<in># M. idle e \<Longrightarrow> reads s s M"
  unfolding reads_def using idle_fold by (metis ex_mset set_mset_mset)

lemma reads_empty [simp]: "reads s s {#}"
  by (simp add: reads_def)

lemma reads_beyond:
  assumes "good n s" and "\<forall>e \<in># M. beyond_frontier (rs_frontier ops s) forward (le_ts e)"
  shows "reads s s M"
proof -
  obtain es where es: "mset es = M" by (metis ex_mset)
  have "fold takes (map (Pair []) es) (view s) = view s"
    by (rule beyond_all [OF assms(1)]) (use assms(2) es in auto)
  then show ?thesis using es by (auto simp: reads_def)
qed

lemma reads_closed: "good n s \<Longrightarrow> rs_closed ops s \<Longrightarrow> reads s s M"
  unfolding reads_def using closed_all by (metis ex_mset)

lemma scan_rows_all:
  assumes "scan_rows ops r t filters qr forward limit counted rows n s = Inr (step, n', s')" and "good (length rows + k) s"
    and "\<forall>row \<in> set rows. \<lparr>le_ts = ro_ts row, le_line = ro_line row, le_metadata = read_metadata (rd_metadata_keys r) (ro_metadata row)\<rparr> = entry_of row"
  shows "good k s' \<and> n \<le> n' \<and> (step = ScanStop \<longrightarrow> over limit n') \<and>
    (step = ScanContinue \<longrightarrow> reads s s' (mset (filter (in_scan qr filters) (map entry_of rows))))"
  using assms
proof (induction rows arbitrary: n s)
  case Nil
  then show ?case by simp
next
  case (Cons row rows)
  have g: "good (Suc (length rows + k)) s" using Cons.prems(2) by simp
  have g': "good (length rows + k) s" by (rule good_less [OF g])
  have gk: "good k s" by (rule good_anti [OF _ g']) simp
  have t: "ro_tenant row = t" using Cons.prems(1) by (auto split: if_splits)
  note rows = Cons.prems(3) [simplified]
  have read: "\<lparr>le_ts = ro_ts row, le_line = ro_line row, le_metadata = read_metadata (rd_metadata_keys r) (ro_metadata row)\<rparr> = entry_of row"
    using Cons.prems(3) by simp
  have ts: "le_ts (entry_of row) = ro_ts row" "le_line (entry_of row) = ro_line row" by (simp_all add: entry_of_def)
  have rest: ?case if i: "scan_rows ops r t filters qr forward limit counted rows m s1 = Inr (step, n', s')"
    and g1: "good (length rows + k) s1" and m: "n \<le> m" and here: "reads s s1 (if in_scan qr filters (entry_of row) then {#entry_of row#} else {#})"
    for m s1
  proof -
    have c: "good k s'" "m \<le> n'" "step = ScanStop \<longrightarrow> over limit n'"
      "step = ScanContinue \<longrightarrow> reads s1 s' (mset (filter (in_scan qr filters) (map entry_of rows)))"
      using Cons.IH [OF i g1] Cons.prems(3) by auto
    moreover have "reads s s' (mset (filter (in_scan qr filters) (map entry_of (row # rows))))" if "step = ScanContinue"
      using reads_both [OF here c(4) [rule_format, OF that]] by (simp split: if_splits)
    ultimately show ?thesis using m by auto
  qed
  show ?case
  proof (cases "beyond_frontier (rs_frontier ops s) forward (ro_ts row)")
    case True
    have "reads s s (if in_scan qr filters (entry_of row) then {#entry_of row#} else {#})"
      by (rule reads_beyond [OF gk]) (use True ts in \<open>auto split: if_splits\<close>)
    then show ?thesis using Cons.prems(1) True t g' by (intro rest [of n s]) simp_all
  next
    case False
    show ?thesis
    proof (cases "over limit n")
      case True
      then show ?thesis using Cons.prems(1) False t gk by simp
    next
      case lim: False
      define m where "m = (if counted then n + 1 else n)"
      show ?thesis
      proof (cases "in_scan qr filters (entry_of row)")
        case True
        then obtain s1 where s1: "rs_accept_extracted ops [] (entry_of row) None s = Inr s1"
          "scan_rows ops r t filters qr forward limit counted rows m s1 = Inr (step, n', s')"
          using Cons.prems(1) False lim t unfolding scan_rows.simps read by (auto simp: in_scan_def ts m_def Let_def split: sum.splits if_splits)
        have a: "good (length rows + k) s1" "view s1 = takes ([], entry_of row) (view s)"
          using extracted_good [OF g _ s1(1)] by simp_all
        have "reads s s1 {#entry_of row#}" unfolding reads_def by (rule exI [of _ "[entry_of row]"]) (simp add: a(2))
        then show ?thesis using True by (intro rest [OF s1(2) a(1)]) (auto simp: m_def)
      next
        case no: False
        then have "scan_rows ops r t filters qr forward limit counted rows m s = Inr (step, n', s')"
          using Cons.prems(1) False lim t by (auto simp: in_scan_def ts m_def Let_def)
        then show ?thesis using no by (intro rest [OF _ g']) (auto simp: m_def)
      qed
    qed
  qed
qed

lemma scan_batches_all:
  assumes "scan_batches env ops r t filters qr forward limit bytes_limit counted batches st s = Inr (step, st', s')"
    and "good (length (concat batches) + k) s"
    and "\<forall>row \<in> set (concat batches). \<lparr>le_ts = ro_ts row, le_line = ro_line row, le_metadata = read_metadata (rd_metadata_keys r) (ro_metadata row)\<rparr> = entry_of row"
  shows "good k s' \<and> ss_rows st \<le> ss_rows st' \<and> (step = ScanStop \<longrightarrow> over limit (ss_rows st')) \<and>
    (step = ScanContinue \<longrightarrow> reads s s' (mset (filter (in_scan qr filters) (map entry_of (concat batches)))))"
  using assms
proof (induction batches arbitrary: st s)
  case Nil
  then show ?case by simp
next
  case (Cons b batches)
  obtain step1 st1 s1 where b: "scan_batch env ops r t filters qr forward limit bytes_limit counted b st s = Inr (step1, st1, s1)"
    using Cons.prems(1) by (auto split: sum.splits)
  then obtain n1 where n1: "scan_rows ops r t filters qr forward limit counted (if forward then b else rev b) (ss_rows st) s = Inr (step1, n1, s1)"
    "ss_rows st1 = n1"
    unfolding scan_batch_def by (auto simp: Let_def split: sum.splits if_splits)
  have "good (length (if forward then b else rev b) + (length (concat batches) + k)) s" using Cons.prems(2) by (simp add: add.assoc)
  from scan_rows_all [OF n1(1) this] Cons.prems(3) have a: "good (length (concat batches) + k) s1" "ss_rows st \<le> n1"
    "step1 = ScanStop \<longrightarrow> over limit n1"
    "step1 = ScanContinue \<longrightarrow> reads s s1 (mset (filter (in_scan qr filters) (map entry_of (if forward then b else rev b))))"
    by (auto split: if_splits)
  show ?case
  proof (cases step1)
    case ScanStop
    then show ?thesis using Cons.prems(1) b a n1(2) good_anti [OF _ a(1), of k] by simp
  next
    case ScanContinue
    have m: "mset (filter (in_scan qr filters) (map entry_of (if forward then b else rev b))) = mset (filter (in_scan qr filters) (map entry_of b))"
      by (simp flip: rev_map rev_filter)
    have i: "scan_batches env ops r t filters qr forward limit bytes_limit counted batches st1 s1 = Inr (step, st', s')"
      using Cons.prems(1) b ScanContinue by simp
    from Cons.IH [OF i a(1)] Cons.prems(3) have c: "good k s'" "ss_rows st1 \<le> ss_rows st'" "step = ScanStop \<longrightarrow> over limit (ss_rows st')"
      "step = ScanContinue \<longrightarrow> reads s1 s' (mset (filter (in_scan qr filters) (map entry_of (concat batches))))" by auto
    then show ?thesis using a ScanContinue n1(2) reads_both m by fastforce
  qed
qed

text \<open>A group: the rows left out are not wanted.\<close>

lemma reads_selected:
  assumes "length sel = length rows" and "reads s s' (mset (filter P (map entry_of (selected_rows sel rows))))"
    and "\<And>i. i < length rows \<Longrightarrow> \<not> sel ! i \<Longrightarrow> P (entry_of (rows ! i)) \<Longrightarrow> idle (entry_of (rows ! i))"
  shows "reads s s' (mset (filter P (map entry_of rows)))"
proof -
  have "mset (filter P (map entry_of rows)) = filter_mset P (image_mset entry_of (mset rows))" by (simp add: mset_filter)
  also have "\<dots> = mset (filter P (map entry_of (selected_rows sel rows))) + mset (filter P (map entry_of (selected_rows (map Not sel) rows)))"
    unfolding selected_split [OF assms(1)] by (simp add: mset_filter)
  also have "reads s s' \<dots>"
    by (rule reads_both [OF assms(2) reads_idle]) (use not_selected [OF assms(1)] assms(3) in auto)
  finally show ?thesis .
qed

lemma scan_group_all:
  assumes "scan_group env ops r t filters exact_fields defs qr forward limit bytes_limit g st s = Inr (step, st', s')"
    and "good (length (rd_groups r ! g) + k) s" and w: "part_written env fl fl' r" and fl: "float_sizes_ok fl" "float_sizes_ok fl'"
    and g: "g < length (rd_groups r)" and wanted: "\<And>e. \<not> wanted env exact_fields e \<Longrightarrow> idle e"
    and defs: "definitive_columns (rd_metadata_keys r) (rd_parsed_keys r) exact_fields = Some defs"
  shows "good k s' \<and> ss_rows st \<le> ss_rows st' \<and> (step = ScanStop \<longrightarrow> over limit (ss_rows st')) \<and>
    (step = ScanContinue \<longrightarrow> reads s s' (mset (filter (in_scan qr filters) (map entry_of (rd_groups r ! g)))))"
proof -
  define rows where "rows = rd_groups r ! g"
  define base where "base = whole_selection (length rows) (base_selection r g exact_fields qr)"
  have gk: "good k s" using good_anti [OF _ assms(2)] by simp
  have ok: "groups_ok r" using w by (simp add: part_written_def)
  have row: "rd_group_min_ts r ! g \<le> ro_ts x \<and> ro_ts x \<le> rd_group_max_ts r ! g" "sorted_wrt (\<lambda>p q. fst p < fst q) (ro_metadata x)"
    if "x \<in> set rows" for x using ok g that by (auto simp: groups_ok_def rows_def)
  have keys: "sorted_wrt (<) (rd_metadata_keys r)" using w by (simp add: part_written_def columns_ok_def)
  have bl: "length base = length rows" by (simp add: base_def rows_def base_length)
  have skip: "idle (entry_of (rows ! i))" if "i < length rows" "\<not> base ! i" "in_scan qr filters (entry_of (rows ! i))" for i
  proof (rule wanted, rule notI)
    assume "wanted env exact_fields (entry_of (rows ! i))"
    then have "base ! i"
      using base_keeps [OF ok g, of i qr exact_fields] written_keeps(2) [OF w fl g, of i exact_fields] that(1,3)
      by (auto simp: base_def rows_def in_scan_def entry_of_def)
    then show False using that(2) by simp
  qed
  have narrow: "idle (entry_of (rows ! i))"
    if "i < length rows" "\<not> narrow_keeps env r defs qr (rows ! i)" "in_scan qr filters (entry_of (rows ! i))" for i
  proof (rule wanted, rule notI)
    assume "wanted env exact_fields (entry_of (rows ! i))"
    then show False using written_keeps(3) [OF w fl g, of i exact_fields] that defs
      by (auto simp: narrow_keeps_def rows_def in_scan_def entry_of_def)
  qed
  have batches: "good k s' \<and> ss_rows st1 \<le> ss_rows st' \<and> (step = ScanStop \<longrightarrow> over limit (ss_rows st')) \<and>
      (step = ScanContinue \<longrightarrow> reads s s' (mset (filter (in_scan qr filters) (map entry_of (selected_rows sel rows)))))"
    if b: "scan_batches env ops r t filters qr forward limit bytes_limit (defs = [])
        (if forward then chunks n (selected_rows sel rows) else rev (chunks 1024 (selected_rows sel rows))) st1 s = Inr (step, st', s')"
      and sl: "length sel = length rows" for sel st1 n
  proof -
    define bs where "bs = (if forward then chunks n (selected_rows sel rows) else rev (chunks 1024 (selected_rows sel rows)))"
    have m: "mset (concat bs) = mset (selected_rows sel rows)"
    proof -
      have "mset (concat (rev xs)) = mset (concat xs)" for xs :: "log_row list list" by (induction xs) simp_all
      then show ?thesis by (simp add: bs_def concat_chunks)
    qed
    have len: "length (concat bs) \<le> length rows"
    proof -
      have "length (selected_rows sel rows) \<le> length rows" using length_filter_le [of fst "zip sel rows"] by (simp add: selected_rows_def sl)
      then show ?thesis using mset_eq_length [OF m] by simp
    qed
    have "good (length (concat bs) + k) s" by (rule good_anti [OF _ assms(2)]) (use len in \<open>simp add: rows_def\<close>)
    moreover have "\<forall>row \<in> set (concat bs). \<lparr>le_ts = ro_ts row, le_line = ro_line row, le_metadata = read_metadata (rd_metadata_keys r) (ro_metadata row)\<rparr> = entry_of row"
    proof
      fix x assume "x \<in> set (concat bs)"
      then have "x \<in> set (selected_rows sel rows)" unfolding mset_eq_setD [OF m] .
      then have "x \<in> set rows" by (auto simp: selected_rows_def dest: set_zip_rightD)
      then show "\<lparr>le_ts = ro_ts x, le_line = ro_line x, le_metadata = read_metadata (rd_metadata_keys r) (ro_metadata x)\<rparr> = entry_of x"
        using read_back [OF keys row(2)] by simp
    qed
    moreover have "mset (filter (in_scan qr filters) (map entry_of (concat bs))) = mset (filter (in_scan qr filters) (map entry_of (selected_rows sel rows)))"
      using m by (simp add: mset_filter)
    ultimately show ?thesis using scan_batches_all [OF b [folded bs_def]] by auto
  qed
  consider (frontier) "span_beyond_frontier (rs_frontier ops s) forward (rd_group_min_ts r ! g) (rd_group_max_ts r ! g)"
    | (none) "\<not> span_beyond_frontier (rs_frontier ops s) forward (rd_group_min_ts r ! g) (rd_group_max_ts r ! g)" "\<not> list_ex (\<lambda>b. b) base"
    | (read) "\<not> span_beyond_frontier (rs_frontier ops s) forward (rd_group_min_ts r ! g) (rd_group_max_ts r ! g)" "list_ex (\<lambda>b. b) base"
    by blast
  then show ?thesis
  proof cases
    case frontier
    have "reads s s (mset (filter (in_scan qr filters) (map entry_of rows)))"
      by (rule reads_beyond [OF gk]) (use row span_beyond [OF frontier] in \<open>auto simp: entry_of_def\<close>)
    then show ?thesis using assms(1) frontier gk by (simp add: scan_group_def rows_def)
  next
    case none
    then have "\<not> base ! i" if "i < length rows" for i using that bl by (auto simp: list_ex_length)
    then have "reads s s (mset (filter (in_scan qr filters) (map entry_of rows)))"
      by (intro reads_idle) (use skip in \<open>auto simp: in_set_conv_nth\<close>)
    then show ?thesis using assms(1) none gk by (simp add: scan_group_def rows_def base_def Let_def)
  next
    case read
    show ?thesis
    proof (cases "defs = []")
      case True
      then have "scan_batches env ops r t filters qr forward limit bytes_limit (defs = [])
          (if forward then chunks (window_rows limit (ss_rows st) (rs_remaining ops s)) (selected_rows base rows)
           else rev (chunks 1024 (selected_rows base rows))) st s = Inr (step, st', s')"
        using assms(1) read by (cases forward) (simp_all add: scan_group_def rows_def base_def Let_def)
      from batches [OF this bl] reads_selected [OF bl _ skip] show ?thesis unfolding rows_def by blast
    next
      case False
      define kept where "kept = map2 (\<lambda>b row. b \<and> narrow_keeps env r defs qr row) base rows"
      have kl: "length kept = length rows" by (simp add: kept_def bl)
      have ks: "idle (entry_of (rows ! i))" if "i < length rows" "\<not> kept ! i" "in_scan qr filters (entry_of (rows ! i))" for i
        using that skip narrow by (cases "base ! i") (simp_all add: kept_def bl)
      obtain st1 where st1: "ss_rows st \<le> ss_rows st1"
        "select_rows_in_group env r g defs qr (base_selection r g exact_fields qr) st = (if list_ex (\<lambda>b. b) kept then Some kept else None, st1)"
        by (simp add: select_rows_in_group_def Let_def kept_def base_def rows_def)
      show ?thesis
      proof (cases "list_ex (\<lambda>b. b) kept")
        case True
        then have "scan_batches env ops r t filters qr forward limit bytes_limit (defs = [])
          (if forward then chunks (window_rows limit (ss_rows st1) (rs_remaining ops s)) (selected_rows kept rows)
           else rev (chunks 1024 (selected_rows kept rows))) st1 s = Inr (step, st', s')"
          using assms(1) read False st1(2) by (cases forward) (simp_all add: scan_group_def rows_def base_def Let_def)
        from batches [OF this kl] reads_selected [OF kl _ ks] st1(1) show ?thesis unfolding rows_def by fastforce
      next
        case no: False
        then have "\<not> kept ! i" if "i < length rows" for i using that kl by (auto simp: list_ex_length)
        then have "reads s s (mset (filter (in_scan qr filters) (map entry_of rows)))"
          by (intro reads_idle) (use ks in \<open>auto simp: in_set_conv_nth\<close>)
        then show ?thesis using assms(1) read False no st1 gk by (simp add: scan_group_def rows_def base_def Let_def)
      qed
    qed
  qed
qed

lemma scan_groups_all:
  assumes "scan_groups env ops r t filters exact_fields defs qr forward limit bytes_limit gs st s = Inr (st', s')"
    and "good (sum_list (map (\<lambda>g. length (rd_groups r ! g)) gs) + k) s" and w: "part_written env fl fl' r"
    and fl: "float_sizes_ok fl" "float_sizes_ok fl'" and g: "\<forall>g \<in> set gs. g < length (rd_groups r)"
    and wanted: "\<And>e. \<not> wanted env exact_fields e \<Longrightarrow> idle e"
    and defs: "definitive_columns (rd_metadata_keys r) (rd_parsed_keys r) exact_fields = Some defs"
  shows "good k s' \<and> ss_rows st \<le> ss_rows st' \<and>
    (\<not> over limit (ss_rows st') \<longrightarrow> reads s s' (sum_list (map (in_group r qr filters) gs)))"
  using assms(1,2) g
proof (induction gs arbitrary: st s)
  case Nil
  then show ?case by simp
next
  case (Cons g gs)
  obtain step1 st1 s1 where b: "scan_group env ops r t filters exact_fields defs qr forward limit bytes_limit g st s = Inr (step1, st1, s1)"
    using Cons.prems(1) by (auto split: sum.splits)
  have "good (length (rd_groups r ! g) + (sum_list (map (\<lambda>g. length (rd_groups r ! g)) gs) + k)) s" using Cons.prems(2) by (simp add: add.assoc)
  from scan_group_all [OF b this w fl _ wanted defs] Cons.prems(3) have a: "good (sum_list (map (\<lambda>g. length (rd_groups r ! g)) gs) + k) s1"
    "ss_rows st \<le> ss_rows st1" "step1 = ScanStop \<longrightarrow> over limit (ss_rows st1)" "step1 = ScanContinue \<longrightarrow> reads s s1 (in_group r qr filters g)"
    by (auto simp: in_group_def)
  show ?case
  proof (cases step1)
    case ScanStop
    then show ?thesis using Cons.prems(1) b a good_anti [OF _ a(1), of k] by simp
  next
    case ScanContinue
    then have i: "scan_groups env ops r t filters exact_fields defs qr forward limit bytes_limit gs st1 s1 = Inr (st', s')"
      using Cons.prems(1) b by simp
    from Cons.IH [OF i a(1)] Cons.prems(3) show ?thesis using a ScanContinue reads_both by fastforce
  qed
qed

lemma part_scan_all:
  assumes "part_scan_into env ops r t filters exact_fields qr forward limit bytes_limit s = Inr (st', s')"
    and "good (length (tenant_rows r t) + k) s" and w: "part_written env fl fl' r" and fl: "float_sizes_ok fl" "float_sizes_ok fl'"
    and wanted: "\<And>e. \<not> wanted env exact_fields e \<Longrightarrow> idle e" and u: "unicode_ok (sv_unicode env)"
    and lits: "literals_ok env filters (ro_line ` set (concat (rd_groups r)))" and sg: "tenant_segment_of (rd_meta r) t = Some sg"
  shows "good k s' \<and> (\<not> over limit (ss_rows st') \<longrightarrow> reads s s' (part_rows r t qr filters))"
proof -
  define first past where "first = se_row_group_start sg" and "past = se_row_group_end sg"
  have gk: "good k s" using good_anti [OF _ assms(2)] by simp
  have ok: "groups_ok r" "segments_ok r" using w by (simp_all add: part_written_def)
  have past: "past \<le> length (rd_groups r)" using ok(2) sg by (auto simp: segments_ok_def past_def split: option.splits)
  have rows: "part_rows r t qr filters = sum_list (map (in_group r qr filters) [first..<past])"
    "length (tenant_rows r t) = sum_list (map (\<lambda>g. length (rd_groups r ! g)) [first..<past])"
    using segment_rows [OF ok(2) sg] by (simp_all add: first_def past_def)
  show ?thesis
  proof (cases "rd_groups r = [] \<or> rs_closed ops s")
    case True
    have "reads s s (part_rows r t qr filters)"
      using True reads_closed [OF gk] rows(1) past by (auto simp: part_rows_def tenant_rows_def)
    then show ?thesis using assms(1) True gk by (simp add: part_scan_into_def Let_def)
  next
    case opened: False
    show ?thesis
    proof (cases "definitive_columns (rd_metadata_keys r) (rd_parsed_keys r) exact_fields")
      case None
      have "idle e" if e: "e \<in># part_rows r t qr filters" for e
      proof (rule wanted, rule notI)
        assume "wanted env exact_fields e"
        moreover obtain rows row where "rows \<in> set (rd_groups r)" "row \<in> set rows" "e = entry_of row"
          using e by (auto simp: part_rows_def tenant_rows_def)
        moreover from this obtain g i where "g < length (rd_groups r)" "i < length (rd_groups r ! g)" "e = entry_of (rd_groups r ! g ! i)"
          by (metis in_set_conv_nth)
        ultimately show False using written_keeps(3) [OF w fl, of g i exact_fields] None by auto
      qed
      then show ?thesis using assms(1) opened None gk reads_idle by (auto simp: part_scan_into_def Let_def)
    next
      case (Some defs)
      define keep where "keep g \<longleftrightarrow> range_overlaps qr (rd_group_min_ts r ! g) (rd_group_max_ts r ! g) \<and>
               (prune_literals env filters = [] \<and> exact_fields = [] \<or>
                reader_bloom_prune env r g (prune_literals env filters) \<and>
                exact_field_bloom_prune (rd_index r) (snd (rd_blooms r ! g)) exact_fields)" for g
      define gs where "gs = in_scan_order r forward (filter keep [first..<past])"
      have m: "mset gs = mset (filter keep [first..<past])" by (simp add: gs_def in_scan_order_def)
      have sel: "select_row_groups env r t filters exact_fields qr = filter keep [first..<past]"
        by (simp add: select_row_groups_def tenant_row_groups_def sg first_def past_def keep_def [abs_def] Let_def)
      have scan: "scan_groups env ops r t filters exact_fields defs qr forward limit bytes_limit gs \<lparr>ss_rows = 0, ss_bytes = 0\<rparr> s = Inr (st', s')"
        using assms(1) opened Some sel by (cases forward) (simp_all add: part_scan_into_def Let_def gs_def)
      have len: "sum_list (map (\<lambda>g. length (rd_groups r ! g)) gs) \<le> length (tenant_rows r t)"
        unfolding rows(2) sum_list_mset_eq [OF m] by (rule sum_list_filter_le_nat)
      have good: "good (sum_list (map (\<lambda>g. length (rd_groups r ! g)) gs) + k) s" by (rule good_anti [OF _ assms(2)]) (use len in simp)
      have gs: "\<forall>g \<in> set gs. g < length (rd_groups r)" using mset_eq_setD [OF m] past by auto
      have skipped: "reads s' s' (sum_list (map (in_group r qr filters) (filter (\<lambda>g. \<not> keep g) [first..<past])))"
      proof (rule reads_idle, intro ballI)
        fix e assume "e \<in># sum_list (map (in_group r qr filters) (filter (\<lambda>g. \<not> keep g) [first..<past]))"
        then obtain g i where g: "first \<le> g" "g < past" "\<not> keep g" "i < length (rd_groups r ! g)" "e = entry_of (rd_groups r ! g ! i)"
          "in_scan qr filters e" unfolding in_sum_list by (auto simp: in_group_def in_set_conv_nth)
        show "idle e"
        proof (rule wanted, rule notI)
          assume wt: "wanted env exact_fields e"
          have gl: "g < length (rd_groups r)" using g(2) past by simp
          have row: "rd_groups r ! g ! i \<in> set (rd_groups r ! g)" using g(4) by simp
          have "rd_group_min_ts r ! g \<le> le_ts e \<and> le_ts e \<le> rd_group_max_ts r ! g"
            using ok(1) gl row g(5) by (auto simp: groups_ok_def entry_of_def)
          then have "range_overlaps qr (rd_group_min_ts r ! g) (rd_group_max_ts r ! g)"
            using g(6) by (auto simp: in_scan_def intro: overlaps_if_contains)
          moreover have "reader_bloom_prune env r g (prune_literals env filters)"
            by (rule written_line [OF w fl u gl row _ lits]) (use g(5,6) in \<open>simp add: in_scan_def entry_of_def\<close>)
          moreover have "exact_field_bloom_prune (rd_index r) (snd (rd_blooms r ! g)) exact_fields"
            by (rule written_keeps(1) [OF w fl gl g(4)]) (use wt g(5) in simp)
          ultimately show False using g(3) by (simp add: keep_def)
        qed
      qed
      have "part_rows r t qr filters =
          sum_list (map (in_group r qr filters) gs) + sum_list (map (in_group r qr filters) (filter (\<lambda>g. \<not> keep g) [first..<past]))"
        unfolding rows(1) sum_list_mset_eq [OF m] by (rule sum_list_split)
      then show ?thesis using scan_groups_all [OF scan good w fl gs wanted Some] reads_both [OF _ skipped] by auto
    qed
  qed
qed

lemma scan_parts_all:
  assumes "scan_parts env ops t filters exact_fields qr forward limit bytes_limit parts st s = Inr (st', s')"
    and "good (sum_list (map (\<lambda>(r, _). length (tenant_rows r t)) parts) + k) s"
    and "\<forall>(r, sg) \<in> set parts. part_found env fl fl' filters r \<and> tenant_segment_of (rd_meta r) t = Some sg"
    and fl: "float_sizes_ok fl" "float_sizes_ok fl'" and wanted: "\<And>e. \<not> wanted env exact_fields e \<Longrightarrow> idle e" and u: "unicode_ok (sv_unicode env)"
  shows "good k s' \<and> ss_rows st \<le> ss_rows st' \<and>
    (\<not> over limit (ss_rows st') \<and> \<not> over bytes_limit (ss_bytes st') \<longrightarrow>
       reads s s' (sum_list (map (\<lambda>(r, _). part_rows r t qr filters) parts)))"
  using assms(1-3)
proof (induction parts arbitrary: st s)
  case Nil
  then show ?case by simp
next
  case (Cons p parts)
  obtain r sg where p: "p = (r, sg)" by (cases p)
  have r: "part_written env fl fl' r" "literals_ok env filters (ro_line ` set (concat (rd_groups r)))" "tenant_segment_of (rd_meta r) t = Some sg"
    using Cons.prems(3) by (auto simp: p part_found_def)
  define N where "N = sum_list (map (\<lambda>(r, _). length (tenant_rows r t)) parts)"
  have g: "good (length (tenant_rows r t) + (N + k)) s" using Cons.prems(2) by (simp add: p N_def add.assoc)
  have gN: "good (N + k) s" by (rule good_anti [OF _ g]) simp
  have gk: "good k s" by (rule good_anti [OF _ g]) simp
  have rest: ?case if i: "scan_parts env ops t filters exact_fields qr forward limit bytes_limit parts st1 s1 = Inr (st', s')"
    and g1: "good (N + k) s1" and m: "ss_rows st \<le> ss_rows st1"
    and here: "\<not> over limit (ss_rows st') \<and> \<not> over bytes_limit (ss_bytes st') \<Longrightarrow> reads s s1 (part_rows r t qr filters)" for st1 s1
  proof -
    have "good k s' \<and> ss_rows st1 \<le> ss_rows st' \<and>
      (\<not> over limit (ss_rows st') \<and> \<not> over bytes_limit (ss_bytes st') \<longrightarrow> reads s1 s' (sum_list (map (\<lambda>(r, _). part_rows r t qr filters) parts)))"
      using Cons.IH [OF i g1 [unfolded N_def]] Cons.prems(3) by simp
    then show ?thesis using m here reads_both by (fastforce simp: p)
  qed
  show ?case
  proof (cases "span_beyond_frontier (rs_frontier ops s) forward (se_min_ts sg) (se_max_ts sg)")
    case True
    have "segments_ok r" using r(1) by (simp add: part_written_def)
    then have seg: "se_min_ts sg \<le> ro_ts row \<and> ro_ts row \<le> se_max_ts sg" if "row \<in> set (tenant_rows r t)" for row
      using that r(3) by (rule segment_span)
    have "reads s s (part_rows r t qr filters)"
      by (rule reads_beyond [OF gk]) (use seg span_beyond [OF True] in \<open>auto simp: part_rows_def entry_of_def\<close>)
    then show ?thesis using Cons.prems(1) True by (intro rest [of st s, OF _ gN]) (simp_all add: p)
  next
    case near: False
    define pl pb where "pl = map_option (\<lambda>l. l - ss_rows st) limit" and "pb = map_option (\<lambda>l. l - ss_bytes st) bytes_limit"
    show ?thesis
    proof (cases "pl = Some 0 \<or> pb = Some 0")
      case True
      then have "over limit (ss_rows st) \<or> over bytes_limit (ss_bytes st)" by (auto simp: pl_def pb_def over_def)
      moreover have "st' = st" "s' = s" using Cons.prems(1) near True by (simp_all add: p pl_def [symmetric] pb_def [symmetric] Let_def)
      ultimately show ?thesis using gk by blast
    next
      case False
      obtain ps s1 where ps: "part_scan_into env ops r t filters exact_fields qr forward pl pb s = Inr (ps, s1)"
        using Cons.prems(1) near False by (auto simp: p pl_def [symmetric] pb_def [symmetric] Let_def split: sum.splits)
      note a = part_scan_all [OF ps g r(1) fl wanted u r(2,3)]
      define st1 where "st1 = \<lparr>ss_rows = ss_rows st + ss_rows ps, ss_bytes = ss_bytes st + ss_bytes ps\<rparr>"
      have o: "over pl (ss_rows ps) \<longleftrightarrow> over limit (ss_rows st1)" "over pb (ss_bytes ps) \<longleftrightarrow> over bytes_limit (ss_bytes st1)"
        using False by (auto simp: over_def pl_def pb_def st1_def split: option.splits)
      show ?thesis
      proof (cases "over limit (ss_rows st1) \<or> over bytes_limit (ss_bytes st1)")
        case True
        then have "st' = st1" "s' = s1" using Cons.prems(1) near False ps o
          by (auto simp: p pl_def [symmetric] pb_def [symmetric] st1_def Let_def)
        then show ?thesis using True a good_anti [of k "N + k" s1] by (auto simp: st1_def)
      next
        case False
        then have i: "scan_parts env ops t filters exact_fields qr forward limit bytes_limit parts st1 s1 = Inr (st', s')"
          using Cons.prems(1) near \<open>\<not> (pl = Some 0 \<or> pb = Some 0)\<close> ps o by (auto simp: p pl_def [symmetric] pb_def [symmetric] st1_def Let_def)
        show ?thesis using a False o by (intro rest [OF i]) (simp_all add: st1_def)
      qed
    qed
  qed
qed

lemma registry_scan_all:
  assumes "registry_scan_into env ops readers t filters exact_fields qr forward limit bytes_limit s = Inr (st', s')"
    and "good (sum_list (map (\<lambda>r. length (tenant_rows r t)) readers) + k) s"
    and readers: "\<forall>r \<in> set readers. part_found env fl fl' filters r"
    and fl: "float_sizes_ok fl" "float_sizes_ok fl'" and wanted: "\<And>e. \<not> wanted env exact_fields e \<Longrightarrow> idle e" and u: "unicode_ok (sv_unicode env)"
    and limits: "\<not> over limit (ss_rows st')" "\<not> over bytes_limit (ss_bytes st')"
  shows "good k s' \<and> reads s s' (sum_list (map (\<lambda>r. part_rows r t qr filters) readers))"
proof (cases "readers = [] \<or> rs_closed ops s")
  case True
  have gk: "good k s" using good_anti [OF _ assms(2)] by simp
  then show ?thesis using assms(1) True reads_closed [OF gk] by (auto simp: registry_scan_into_def)
next
  case False
  define cs where "cs = candidate_parts readers t qr forward"
  have seg: "segments_ok r" if "r \<in> set readers" for r using readers that by (auto simp: part_found_def part_written_def)
  have m: "mset cs = mset (filter (\<lambda>(_, sg). range_overlaps qr (se_min_ts sg) (se_max_ts sg))
            (List.map_filter (\<lambda>r. map_option (Pair r) (tenant_segment_of (rd_meta r) t)) readers))"
    by (simp add: cs_def candidate_parts_def Let_def)
  have scan: "scan_parts env ops t filters exact_fields qr forward limit bytes_limit cs \<lparr>ss_rows = 0, ss_bytes = 0\<rparr> s = Inr (st', s')"
    using assms(1) False by (cases forward) (simp_all add: registry_scan_into_def cs_def)
  have len: "sum_list (map (\<lambda>(r, _). length (tenant_rows r t)) cs) \<le> sum_list (map (\<lambda>r. length (tenant_rows r t)) readers)"
    unfolding sum_list_mset_eq [OF m] by (rule candidates_length)
  have good: "good (sum_list (map (\<lambda>(r, _). length (tenant_rows r t)) cs) + k) s" by (rule good_anti [OF _ assms(2)]) (use len in simp)
  have cs: "\<forall>(r, sg) \<in> set cs. part_found env fl fl' filters r \<and> tenant_segment_of (rd_meta r) t = Some sg"
    using mset_eq_setD [OF m] readers by (auto simp: List.map_filter_def)
  have "sum_list (map (\<lambda>(r, _). part_rows r t qr filters) cs) = sum_list (map (\<lambda>r. part_rows r t qr filters) readers)"
    unfolding sum_list_mset_eq [OF m] using seg by (intro candidates_rows) blast
  then show ?thesis using scan_parts_all [OF scan good cs fl wanted u] limits by simp
qed

end

end
