(* ===== verification/MergedParts.thy ===== *)
theory MergedParts
  imports PartScanLaws
begin

text \<open>
  What a merge writes is what a scan relies on: the columns of its output, chosen in
  \<open>signy/src/merge/selection.rs\<close> from the counts its inputs recorded, and the index the writer of
  \<open>signy/src/part/stream_writer.rs\<close> makes a group at a time.
\<close>

text \<open>The counts of the inputs, added by name in the order of a \<open>BTreeMap\<close>; a column that was declared is
  recorded with a count of zero too.\<close>

definition merged_counts :: "(string \<times> nat) list list \<Rightarrow> (string \<times> nat) list" where
  "merged_counts inputs =
     map (\<lambda>n. (n, sum_list (map snd (filter (\<lambda>(k, _). k = n) (concat inputs))))) (sort (remdups (map fst (concat inputs))))"

definition merged_keys :: "(string \<times> nat) list list \<Rightarrow> string list" where
  "merged_keys inputs = map fst (select_metadata_columns (merged_counts inputs))"

text \<open>The writer parses a line only for the columns it has; what it parsed is all it indexes of it as JSON.\<close>

definition stream_parse :: "string list \<Rightarrow> (string \<Rightarrow> json option) \<Rightarrow> string \<Rightarrow> json option" where
  "stream_parse parsed_keys parse = (if parsed_keys = [] then (\<lambda>_. None) else parse)"

definition stream_blooms ::
    "unicode \<Rightarrow> (string \<Rightarrow> ustr) \<Rightarrow> float_sizes \<Rightarrow> float_sizes \<Rightarrow> (string \<Rightarrow> json option) \<Rightarrow> string list \<Rightarrow> log_entry list list \<Rightarrow> bytes option" where
  "stream_blooms u chars fl_line fl_exact parse parsed_keys groups =
     encode_blooms u chars fl_line fl_exact (stream_parse parsed_keys parse) groups"

lemma merged_names: "fst ` set (merged_counts inputs) = (\<Union>cs \<in> set inputs. fst ` set cs)" "distinct (map fst (merged_counts inputs))"
  by (auto simp: merged_counts_def image_image comp_def)

lemma merged_keys_sorted: "sorted_wrt (<) (merged_keys inputs)"
  unfolding merged_keys_def by (rule keys_sorted) (rule merged_names)

text \<open>With room left over every input had room left over, and nothing was left out on the way.\<close>

lemma merged_keys_complete:
  assumes "cs \<in> set inputs" and "distinct (map fst cs)" and "keys_complete (map fst cs) names"
  shows "keys_complete (merged_keys inputs) names"
  unfolding keys_complete_def
proof
  assume l: "length (merged_keys inputs) < max_metadata_columns"
  then have s: "set (merged_keys inputs) = (\<Union>cs \<in> set inputs. fst ` set cs)"
    using select_metadata_all [of "merged_counts inputs"] merged_names(1) [of inputs] by (simp add: merged_keys_def)
  then have sub: "set (map fst cs) \<subseteq> set (merged_keys inputs)" using assms(1) by auto
  have "length (map fst cs) = card (set (map fst cs))" using assms(2) distinct_card by metis
  also have "\<dots> \<le> card (set (merged_keys inputs))" using sub by (simp add: card_mono)
  also have "\<dots> \<le> length (merged_keys inputs)" by (rule card_length)
  finally have "length (map fst cs) < max_metadata_columns" using l by simp
  then show "names \<subseteq> set (merged_keys inputs)" using assms(3) sub unfolding keys_complete_def by blast
qed

lemma merged_columns_ok:
  assumes "\<And>e. e \<in> set rows \<Longrightarrow> \<exists>(mc, pc) \<in> set inputs. distinct (map fst mc) \<and> distinct (map fst pc) \<and>
      keys_complete (map fst mc) (fst ` set (le_metadata e)) \<and> keys_complete (map fst pc) (fst ` set (json_fields parse (le_line e)))"
  shows "columns_ok parse (merged_keys (map fst inputs)) (merged_keys (map snd inputs)) rows"
  unfolding columns_ok_def
proof (intro conjI ballI merged_keys_sorted)
  fix e assume "e \<in> set rows"
  then obtain mc pc where i: "(mc, pc) \<in> set inputs" "distinct (map fst mc)" "distinct (map fst pc)"
    "keys_complete (map fst mc) (fst ` set (le_metadata e))" "keys_complete (map fst pc) (fst ` set (json_fields parse (le_line e)))"
    using assms by blast
  have m: "mc \<in> set (map fst inputs)" "pc \<in> set (map snd inputs)" using i(1) by force+
  show "keys_complete (merged_keys (map fst inputs)) (fst ` set (le_metadata e))" by (rule merged_keys_complete [OF m(1) i(2,4)])
  show "keys_complete (merged_keys (map snd inputs)) (fst ` set (json_fields parse (le_line e)))" by (rule merged_keys_complete [OF m(2) i(3,5)])
qed

lemma unparsed_tokens:
  assumes "json_fields parse (le_line e) = []"
  shows "indexed_tokens (\<lambda>_. None) e = indexed_tokens parse e"
  using assms by (auto simp: indexed_tokens_def json_fields_def extract_json_def split: option.splits json.splits)

lemma unparsed_windows:
  assumes "\<forall>e \<in> set rows. json_fields parse (le_line e) = []"
  shows "window_tokens (\<lambda>_. None) rows = window_tokens parse rows"
proof -
  have "map (indexed_tokens (\<lambda>_. None)) (take n (drop i rows)) = map (indexed_tokens parse) (take n (drop i rows))" for n i
    using assms unparsed_tokens by (auto dest!: in_set_takeD in_set_dropD)
  then show ?thesis by (simp only: window_tokens_def)
qed

text \<open>The index is the one a flush would have made.\<close>

lemma stream_blooms_same:
  assumes "columns_ok parse metadata_keys parsed_keys (concat groups)"
  shows "stream_blooms u chars fl fl' parse parsed_keys groups = encode_blooms u chars fl fl' parse groups"
proof (cases "parsed_keys = []")
  case True
  have e: "\<forall>e \<in> set rows. json_fields parse (le_line e) = []" if "rows \<in> set groups" for rows
    using assms that unfolding columns_ok_def True keys_complete_def max_metadata_columns_def by auto
  have "map (encode_group_blooms u chars fl fl' (\<lambda>_. None)) groups = map (encode_group_blooms u chars fl fl' parse) groups"
    by (rule map_cong [OF refl]) (simp only: encode_group_blooms_def unparsed_windows [OF e])
  then show ?thesis by (simp only: stream_blooms_def stream_parse_def encode_blooms_def True simp_thms if_True)
qed (simp add: stream_blooms_def stream_parse_def)

text \<open>So the output of a merge whose rows come from inputs with complete columns is a part as a scan expects it.\<close>

lemma merged_part_written:
  assumes "rd_metadata_keys r = merged_keys (map fst inputs)" and "rd_parsed_keys r = merged_keys (map snd inputs)"
    and "\<And>e. e \<in> set (concat (part_entries r)) \<Longrightarrow> \<exists>(mc, pc) \<in> set inputs. distinct (map fst mc) \<and> distinct (map fst pc) \<and>
      keys_complete (map fst mc) (fst ` set (le_metadata e)) \<and> keys_complete (map fst pc) (fst ` set (json_fields (sv_json env) (le_line e)))"
    and "Option.bind (stream_blooms (sv_unicode env) (sv_chars env) fl fl' (sv_json env) (rd_parsed_keys r) (part_entries r)) write_index_sections =
      Some (rd_index r)"
    and "length (rd_index r) < 2 ^ 32" and "build_bloom_index (rd_index r) (map length (part_entries r)) = Inr (rd_blooms r)"
    and "segments_ok r" and "groups_ok r"
  shows "part_written env fl fl' r"
proof -
  have c: "columns_ok (sv_json env) (rd_metadata_keys r) (rd_parsed_keys r) (concat (part_entries r))"
    unfolding assms(1,2) by (rule merged_columns_ok) (rule assms(3))
  show ?thesis using assms(4-8) c unfolding part_written_def stream_blooms_same [OF c] by blast
qed

text \<open>And the output of a flush.\<close>

lemma flushed_part_written:
  assumes "rd_metadata_keys r = map fst (select_metadata_columns (metadata_column_counts (concat (part_entries r))))"
    and "rd_parsed_keys r = map fst (select_metadata_columns (parsed_column_counts (parse_rows (sv_json env) (concat (part_entries r)))))"
    and "Option.bind (encode_blooms (sv_unicode env) (sv_chars env) fl fl' (sv_json env) (part_entries r)) write_index_sections = Some (rd_index r)"
    and "length (rd_index r) < 2 ^ 32" and "build_bloom_index (rd_index r) (map length (part_entries r)) = Inr (rd_blooms r)"
    and "segments_ok r" and "groups_ok r"
  shows "part_written env fl fl' r"
  using assms(3-7) batch_columns_ok unfolding part_written_def assms(1,2) by blast

end
