(* ===== verification/LogScan.thy ===== *)
theory LogScan
  imports MergedParts
begin

text \<open>
  \<open>signy/src/log_scan.rs\<close>: the one place a log query meets its rows. The memtable and then the parts
  stream into a sink that runs the pipeline, hides what deletion requests cover and holds the best rows.
  The flag that cancels a query is read in many places; \<open>cancellation\<close> says what it reads where.
\<close>

subsection \<open>The sink of a log query\<close>

definition log_entry_size :: nat where "log_entry_size = 56"

definition estimated_log_entry_memory_bytes :: "labels \<Rightarrow> log_entry \<Rightarrow> nat" where
  "estimated_log_entry_memory_bytes labels e =
     (let bytes = (\<lambda>fs. sum_list (map (\<lambda>(n, v). saturating_add_u64 (length n) (length v)) fs))
      in saturating_add_u64 (saturating_add_u64 (saturating_add_u64 (bytes labels) (bytes (le_metadata e))) (length (le_line e)))
           log_entry_size)"

text \<open>The clock counts the rows handed over, so that a flag set meanwhile can be told of; the looks at the flag
  between the stages of the pipeline are left out.\<close>

record pipeline_sink =
  pk_query :: log_query
  pk_hidden :: "(labels \<Rightarrow> log_entry \<Rightarrow> bool) option"
  pk_cancelled :: "nat \<Rightarrow> bool"
  pk_max_memory :: "nat option"
  pk_materialized :: nat
  pk_rows :: topk
  pk_clock :: nat

definition timed_out :: string where "timed_out = ''query timed out''"

definition pipeline_accept ::
    "(string \<Rightarrow> json option) \<Rightarrow> labels \<Rightarrow> log_entry \<Rightarrow> fields option \<Rightarrow> pipeline_sink \<Rightarrow> string + pipeline_sink" where
  "pipeline_accept parse labels e pre k =
     (if pk_cancelled k (pk_clock k) then Inl timed_out
      else
        (let k = k\<lparr>pk_clock := pk_clock k + 1\<rparr> in
         if (case pk_hidden k of None \<Rightarrow> False | Some hidden \<Rightarrow> hidden labels e) then Inr k
         else
           (case (if lq_stages (pk_query k) = [] \<and> lq_matchers (pk_query k) = [] then Some e
                  else process_entry parse (pk_query k) labels pre e) of
              None \<Rightarrow> Inr k
            | Some e \<Rightarrow>
                (let materialized = pk_materialized k + estimated_log_entry_memory_bytes labels e in
                 if materialized > u64_max then Inl ''query materialized memory accounting overflowed''
                 else if (case pk_max_memory k of None \<Rightarrow> False | Some most \<Rightarrow> materialized > most)
                 then Inl ''query exceeds the maximum of materialized bytes''
                 else Inr (k\<lparr>pk_materialized := materialized, pk_rows := topk_offer labels e (pk_rows k)\<rparr>)))))"

definition pipeline_row_sink :: "(string \<Rightarrow> json option) \<Rightarrow> pipeline_sink row_sink" where
  "pipeline_row_sink parse = \<lparr>rs_accept = (\<lambda>labels e. pipeline_accept parse labels e None), rs_accept_extracted = pipeline_accept parse,
     rs_frontier = (\<lambda>k. topk_frontier (pk_rows k)), rs_remaining = (\<lambda>k. topk_remaining (pk_rows k)),
     rs_closed = (\<lambda>k. topk_closed (pk_rows k))\<rparr>"

subsection \<open>A query\<close>

record log_scan =
  sc_tenant :: tenant_id
  sc_query :: log_query
  sc_range :: query_time_range
  sc_limit :: nat
  sc_forward :: bool
  sc_scan_budget :: "nat option"
  sc_max_scan_bytes :: "nat option"
  sc_max_memory :: "nat option"
  sc_hidden :: "(labels \<Rightarrow> log_entry \<Rightarrow> bool) option"

record cancellation =
  cn_memtable :: "nat \<Rightarrow> bool"
  cn_accept :: "nat \<Rightarrow> bool"
  cn_between :: bool
  cn_end :: bool

text \<open>A flag that was set stays set.\<close>

definition flag_stays :: "cancellation \<Rightarrow> bool" where
  "flag_stays c \<longleftrightarrow> (\<forall>n. cn_memtable c n \<longrightarrow> cn_between c) \<and> (cn_between c \<longrightarrow> cn_end c)"

definition check_scan_budget :: "log_scan \<Rightarrow> nat \<Rightarrow> string + unit" where
  "check_scan_budget sc n =
     (if (case sc_scan_budget sc of None \<Rightarrow> False | Some budget \<Rightarrow> n > budget) then Inl ''query exceeds the maximum of scanned rows'' else Inr ())"

definition run_into ::
    "scan_env \<Rightarrow> log_scan \<Rightarrow> cancellation \<Rightarrow> 's row_sink \<Rightarrow> memtable \<Rightarrow> part_reader list \<Rightarrow> 's \<Rightarrow> string + ((nat \<times> nat) \<times> 's)" where
  "run_into env sc c ops m readers s =
     (let filters = lq_line_filters (sc_query sc); scan_limit = map_option (\<lambda>b. saturating_add_u64 b 1) (sc_scan_budget sc) in
      case memtable_scan_into ops (cn_memtable c) m (sc_tenant sc) filters (sc_range sc) (sc_forward sc) scan_limit s of
        Inl err \<Rightarrow> Inl err
      | Inr (scanned_rows, s) \<Rightarrow>
          if cn_between c then Inl timed_out
          else
            (case check_scan_budget sc scanned_rows of
               Inl err \<Rightarrow> Inl err
             | Inr _ \<Rightarrow>
                 (case registry_scan_into env ops readers (sc_tenant sc) filters (exact_field_predicates (sc_query sc)) (sc_range sc)
                         (sc_forward sc) (map_option (\<lambda>l. l - scanned_rows) scan_limit) (sc_max_scan_bytes sc) s of
                    Inl err \<Rightarrow> Inl err
                  | Inr (st, s) \<Rightarrow>
                      (let scanned_rows = saturating_add_u64 scanned_rows (ss_rows st) in
                       if cn_end c then Inl timed_out
                       else
                         (case check_scan_budget sc scanned_rows of
                            Inl err \<Rightarrow> Inl err
                          | Inr _ \<Rightarrow>
                              if (case sc_max_scan_bytes sc of None \<Rightarrow> False | Some budget \<Rightarrow> ss_bytes st > budget) then Inl scanned_bytes_error
                              else Inr ((scanned_rows, ss_bytes st), s))))))"

text \<open>Rows by their labels, in the order of a \<open>BTreeMap\<close>.\<close>

definition group_by_labels :: "found list \<Rightarrow> (labels \<times> log_entry list) list" where
  "group_by_labels collected = map (\<lambda>l. (l, map snd (filter (\<lambda>(l', _). l' = l) collected))) (sort (remdups (map fst collected)))"

record log_scan_result =
  lr_results :: "(labels \<times> log_entry list) list"
  lr_scanned_rows :: nat
  lr_scanned_bytes :: nat
  lr_materialized :: nat

definition log_scan_run :: "scan_env \<Rightarrow> log_scan \<Rightarrow> cancellation \<Rightarrow> memtable \<Rightarrow> part_reader list \<Rightarrow> string + log_scan_result" where
  "log_scan_run env sc c m readers =
     (let sink = \<lparr>pk_query = sc_query sc, pk_hidden = sc_hidden sc, pk_cancelled = cn_accept c, pk_max_memory = sc_max_memory sc,
            pk_materialized = 0, pk_rows = topk_new (sc_limit sc) (sc_forward sc), pk_clock = 0\<rparr> in
      case run_into env sc c (pipeline_row_sink (sv_json env)) m readers sink of
        Inl err \<Rightarrow> Inl err
      | Inr ((rows, bytes), k) \<Rightarrow>
          Inr \<lparr>lr_results = group_by_labels (topk_rows (pk_rows k)), lr_scanned_rows = rows, lr_scanned_bytes = bytes,
            lr_materialized = pk_materialized k\<rparr>)"

subsection \<open>The pipeline as a sink\<close>

text \<open>What becomes of a row.\<close>

definition survivor :: "(string \<Rightarrow> json option) \<Rightarrow> log_query \<Rightarrow> (labels \<Rightarrow> log_entry \<Rightarrow> bool) option \<Rightarrow> labels \<Rightarrow> log_entry \<Rightarrow> log_entry option" where
  "survivor parse q hidden labels e =
     (if (case hidden of None \<Rightarrow> False | Some h \<Rightarrow> h labels e) then None
      else if lq_stages q = [] \<and> lq_matchers q = [] then Some e else process_entry parse q labels None e)"

lemma pipeline_step_entry:
  "pipeline_step parse pre sh stage (e, fs, sfx) = Some (e', fs', sfx') \<Longrightarrow> le_ts e' = le_ts e \<and> le_line e' = le_line e"
  by (auto simp: pipeline_step_def set_parser_error_def split: pipeline_stage.splits option.splits if_splits)

lemma run_stages_ts: "run_stages parse pre sh stages (e, fs, sfx) = Some (e', fs', sfx') \<Longrightarrow> le_ts e' = le_ts e"
proof (induction stages arbitrary: e fs sfx)
  case (Cons stage stages)
  then obtain e1 fs1 sfx1 where "pipeline_step parse pre sh stage (e, fs, sfx) = Some (e1, fs1, sfx1)"
    "run_stages parse pre sh stages (e1, fs1, sfx1) = Some (e', fs', sfx')" by (auto simp: bind_eq_Some_conv)
  then show ?case using Cons.IH pipeline_step_entry by metis
qed simp

lemma run_stages_extracted:
  "pre = extract_json parse (le_line e) \<Longrightarrow> run_stages parse pre sh stages (e, fs, sfx) = run_stages parse None sh stages (e, fs, sfx)"
proof (induction stages arbitrary: e fs sfx)
  case (Cons stage stages)
  have s: "pipeline_step parse pre sh stage (e, fs, sfx) = pipeline_step parse None sh stage (e, fs, sfx)"
    using Cons.prems by (auto simp: pipeline_step_def split: pipeline_stage.splits option.splits)
  show ?case
  proof (cases "pipeline_step parse None sh stage (e, fs, sfx)")
    case (Some st)
    obtain e1 fs1 sfx1 where st: "st = (e1, fs1, sfx1)" by (cases st)
    then have "le_line e1 = le_line e" using pipeline_step_entry [OF Some [unfolded st]] by simp
    then show ?thesis using Cons.IH [of e1 fs1 sfx1] Cons.prems Some st s by simp
  qed (simp add: s)
qed simp

lemma process_entry_ts: "process_entry parse q labels pre e = Some e' \<Longrightarrow> le_ts e' = le_ts e"
proof -
  assume p: "process_entry parse q labels pre e = Some e'"
  have ts: "le_ts a = le_ts e" if "run_stages parse pre sh stages (e, acc) = Some (a, b)" for sh stages acc a b
    using that run_stages_ts [of parse pre sh stages e "fst acc" "snd acc" a "fst b" "snd b"] by simp
  show ?thesis using p unfolding process_entry_def
    by (auto simp: Let_def case_prod_unfold split: if_splits option.splits dest: ts)
qed

lemma process_entry_extracted:
  "pre = None \<or> pre = extract_json parse (le_line e) \<Longrightarrow> process_entry parse q labels pre e = process_entry parse q labels None e"
proof -
  assume a: "pre = None \<or> pre = extract_json parse (le_line e)"
  have "run_stages parse pre sh stages (e, acc) = run_stages parse None sh stages (e, acc)" for sh stages acc
    using a run_stages_extracted [of pre parse e sh stages "fst acc" "snd acc"] by auto
  then show ?thesis unfolding process_entry_def by (simp add: Let_def case_prod_unfold)
qed

lemma survivor_ts: "survivor parse q hidden labels e = Some e' \<Longrightarrow> le_ts e' = le_ts e"
  by (auto simp: survivor_def dest: process_entry_ts split: if_splits)

definition pipeline_good :: "log_query \<Rightarrow> (labels \<Rightarrow> log_entry \<Rightarrow> bool) option \<Rightarrow> nat \<Rightarrow> bool \<Rightarrow> nat \<Rightarrow> pipeline_sink \<Rightarrow> bool" where
  "pipeline_good q hidden k forward n s \<longleftrightarrow> pk_query s = q \<and> pk_hidden s = hidden \<and> topk_good k forward n (pk_rows s)"

definition pipeline_takes ::
    "(string \<Rightarrow> json option) \<Rightarrow> log_query \<Rightarrow> (labels \<Rightarrow> log_entry \<Rightarrow> bool) option \<Rightarrow> nat \<Rightarrow> bool \<Rightarrow> found \<Rightarrow> found list \<Rightarrow> found list" where
  "pipeline_takes parse q hidden k forward f rows =
     (case survivor parse q hidden (fst f) (snd f) of None \<Rightarrow> rows | Some e \<Rightarrow> best forward k (rows @ [(fst f, e)]))"

lemma pipeline_accept_good:
  assumes g: "pipeline_good q hidden k forward (Suc n) s" and pre: "pre = None \<or> pre = extract_json parse (le_line e)"
    and a: "pipeline_accept parse l e pre s = Inr s'"
  shows "pipeline_good q hidden k forward n s' \<and> topk_rows (pk_rows s') = pipeline_takes parse q hidden k forward (l, e) (topk_rows (pk_rows s))"
proof -
  have s: "pk_query s = q" "pk_hidden s = hidden" "topk_good k forward (Suc n) (pk_rows s)" using g by (simp_all add: pipeline_good_def)
  have less: "topk_good k forward n (pk_rows s)" using s(3) by (simp add: topk_good_def)
  have sv: "survivor parse q hidden l e =
      (if (case hidden of None \<Rightarrow> False | Some h \<Rightarrow> h l e) then None
       else if lq_stages q = [] \<and> lq_matchers q = [] then Some e else process_entry parse q l pre e)"
    unfolding survivor_def process_entry_extracted [OF pre] ..
  show ?thesis
  proof (cases "survivor parse q hidden l e")
    case None
    then have "pk_rows s' = pk_rows s \<and> pk_query s' = q \<and> pk_hidden s' = hidden"
      using a s unfolding pipeline_accept_def sv by (auto simp: Let_def split: if_splits option.splits)
    then show ?thesis using None less by (simp add: pipeline_good_def pipeline_takes_def)
  next
    case (Some e')
    then have "pk_rows s' = topk_offer l e' (pk_rows s) \<and> pk_query s' = q \<and> pk_hidden s' = hidden"
      using a s unfolding pipeline_accept_def sv by (auto simp: Let_def split: if_splits option.splits)
    then show ?thesis using Some topk_accept_good [OF s(3), of l e'] by (simp add: pipeline_good_def pipeline_takes_def)
  qed
qed

interpretation pipeline: sink "pipeline_row_sink parse" forward "pipeline_good q hidden k forward" "\<lambda>s. topk_rows (pk_rows s)"
  "pipeline_takes parse q hidden k forward" "extract_json parse"
proof
  show "pipeline_good q hidden k forward n s' \<and> topk_rows (pk_rows s') = pipeline_takes parse q hidden k forward (l, e) (topk_rows (pk_rows s))"
    if "pipeline_good q hidden k forward (Suc n) s" "rs_accept (pipeline_row_sink parse) l e s = Inr s'" for n s l e s'
    using pipeline_accept_good [OF that(1), of None parse e l s'] that(2) by (simp add: pipeline_row_sink_def)
  show "pipeline_good q hidden k forward n s' \<and> topk_rows (pk_rows s') = pipeline_takes parse q hidden k forward (l, e) (topk_rows (pk_rows s))"
    if "pipeline_good q hidden k forward (Suc n) s" "pre = None \<or> pre = extract_json parse (le_line e)"
      "rs_accept_extracted (pipeline_row_sink parse) l e pre s = Inr s'" for n s l e s' pre
    using pipeline_accept_good [OF that(1,2), of l s'] that(3) by (simp add: pipeline_row_sink_def)
  show "pipeline_good q hidden k forward n s" if "pipeline_good q hidden k forward (Suc n) s" for n s
    using that by (simp add: pipeline_good_def topk_good_def)
  show "pipeline_takes parse q hidden k forward (l, e) (topk_rows (pk_rows s)) = topk_rows (pk_rows s)"
    if "pipeline_good q hidden k forward n s" "beyond_frontier (rs_frontier (pipeline_row_sink parse) s) forward (le_ts e)" for n s e l
  proof (cases "survivor parse q hidden l e")
    case (Some e')
    have "topk_good k forward n (pk_rows s)" "beyond_frontier (topk_frontier (pk_rows s)) forward (le_ts e')"
      using that survivor_ts [OF Some] by (simp_all add: pipeline_good_def pipeline_row_sink_def)
    from topk_beyond [OF this] Some show ?thesis by (simp add: pipeline_takes_def)
  qed (simp add: pipeline_takes_def)
  show "pipeline_takes parse q hidden k forward (l, e) (topk_rows (pk_rows s)) = topk_rows (pk_rows s)"
    if "pipeline_good q hidden k forward n s" "rs_closed (pipeline_row_sink parse) s" for n s l e
  proof (cases "survivor parse q hidden l e")
    case (Some e')
    have "topk_good k forward n (pk_rows s)" "topk_closed (pk_rows s)"
      using that by (simp_all add: pipeline_good_def pipeline_row_sink_def)
    from topk_closed_rows [OF this] Some show ?thesis by (simp add: pipeline_takes_def)
  qed (simp add: pipeline_takes_def)
qed

lemma takes_best:
  "fold (pipeline_takes parse q hidden k forward) (map (Pair []) es) [] =
   best forward k (map (Pair []) (List.map_filter (survivor parse q hidden []) es))"
proof (induction es rule: rev_induct)
  case (snoc e es)
  then show ?case by (cases "survivor parse q hidden [] e") (simp_all add: pipeline_takes_def List.map_filter_def best_best)
qed (simp add: best_def List.map_filter_def)

lemma unwanted_idle:
  assumes "numbers_parsed (lq_stages q)" and "\<not> wanted env (exact_field_predicates q) e"
  shows "pipeline.idle (sv_json env) q hidden k forward e"
proof -
  have "survivor (sv_json env) q hidden [] e = None"
  proof (rule ccontr)
    assume "survivor (sv_json env) q hidden [] e \<noteq> None"
    then consider "lq_stages q = []" "lq_matchers q = []" | e' where "process_entry (sv_json env) q [] None e = Some e'"
      by (auto simp: survivor_def split: if_splits)
    then show False
    proof cases
      case 1
      then show ?thesis using assms(2) by (simp add: wanted_def exact_field_predicates_def matcher_predicates_def List.map_filter_def)
    next
      case (2 e')
      then show ?thesis using assms exact_predicates_hold [OF 2] by (auto simp: wanted_def)
    qed
  qed
  then show ?thesis by (simp add: pipeline.idle_def pipeline_takes_def)
qed

subsection \<open>A query sees every row once\<close>

text \<open>The rows of a tenant, in the memtable and in parts.\<close>

definition stored_entries :: "memtable \<Rightarrow> part_reader list \<Rightarrow> tenant_id \<Rightarrow> log_entry list" where
  "stored_entries m readers t = tenant_entries m t @ concat (map (\<lambda>r. map entry_of (tenant_rows r t)) readers)"

lemma stored_in_scan:
  "mset (filter (in_scan qr filters) (stored_entries m readers t)) =
   mset (filter (in_scan qr filters) (tenant_entries m t)) + sum_list (map (\<lambda>r. part_rows r t qr filters) readers)"
proof -
  have "mset (filter P (concat (map (\<lambda>r. map entry_of (tenant_rows r t)) readers))) =
      sum_list (map (\<lambda>r. mset (filter P (map entry_of (tenant_rows r t)))) readers)" for P
    by (induction readers) simp_all
  then show ?thesis by (simp add: stored_entries_def part_rows_def)
qed

context sink begin

lemma memtable_scan_all:
  assumes "memtable_scan_into ops (\<lambda>_. False) m t filters qr forward limit s = Inr (n, s')" and "good (length (tenant_entries m t) + k) s"
    and "\<And>l. limit = Some l \<Longrightarrow> n < l"
  shows "good k s' \<and> reads s s' (mset (filter (in_scan qr filters) (tenant_entries m t)))"
proof (cases "rs_closed ops s")
  case True
  have gk: "good k s" using good_anti [OF _ assms(2)] by simp
  then show ?thesis using assms(1) True reads_closed [OF gk] by (auto simp: memtable_scan_into_def)
next
  case False
  define es where "es = (if forward then sort_key le_ts (tenant_entries m t) else rev (sort_key le_ts (tenant_entries m t)))"
  have scan: "scan_ordered ops (\<lambda>_. False) qr filters forward limit es 0 s = Inr (n, s')"
    using assms(1) False by (cases forward) (simp_all add: memtable_scan_into_def es_def Let_def)
  have me: "mset es = mset (tenant_entries m t)" by (simp add: es_def)
  have "length es = length (tenant_entries m t)" using mset_eq_length [OF me] .
  then have g: "good (length es + k) s" using assms(2) by simp
  have srt: "sorted_wrt (\<lambda>a b. le_ts a \<le> le_ts b) (sort_key le_ts (tenant_entries m t))"
    using sorted_sort_key [of le_ts "tenant_entries m t"] by (simp only: sorted_wrt_map)
  have "sorted_wrt (\<lambda>a b. if forward then le_ts a \<le> le_ts b else le_ts b \<le> le_ts a) es"
    using srt by (cases forward) (simp_all add: es_def sorted_wrt_rev)
  from scan_ordered_all [OF scan g this assms(3)] have "good k s'"
    "view s' = fold takes (map (Pair []) (filter (in_scan qr filters) es)) (view s)" by simp_all
  moreover have "mset (filter (in_scan qr filters) es) = mset (filter (in_scan qr filters) (tenant_entries m t))"
    using me by (simp add: mset_filter)
  ultimately show ?thesis unfolding reads_def by blast
qed

lemma run_into_all:
  assumes "run_into env sc c ops m readers s = Inr ((rows, bytes), s')" and fw: "sc_forward sc = forward" and "flag_stays c"
    and good: "good (length (stored_entries m readers (sc_tenant sc)) + k) s"
    and readers: "\<forall>r \<in> set readers. part_found env fl fl' (lq_line_filters (sc_query sc)) r"
    and fl: "float_sizes_ok fl" "float_sizes_ok fl'" and u: "unicode_ok (sv_unicode env)"
    and wanted: "\<And>e. \<not> wanted env (exact_field_predicates (sc_query sc)) e \<Longrightarrow> idle e"
    and budget: "\<And>b. sc_scan_budget sc = Some b \<Longrightarrow> b < u64_max" and bytes: "\<not> over (sc_max_scan_bytes sc) bytes"
  shows "reads s s' (mset (filter (in_scan (sc_range sc) (lq_line_filters (sc_query sc))) (stored_entries m readers (sc_tenant sc))))"
proof -
  define filters limit where "filters = lq_line_filters (sc_query sc)" and "limit = map_option (\<lambda>b. saturating_add_u64 b 1) (sc_scan_budget sc)"
  note r = assms(1) [unfolded run_into_def fw Let_def, folded filters_def limit_def]
  obtain n s1 where n: "memtable_scan_into ops (cn_memtable c) m (sc_tenant sc) filters (sc_range sc) forward limit s = Inr (n, s1)"
    using r by (cases "memtable_scan_into ops (cn_memtable c) m (sc_tenant sc) filters (sc_range sc) forward limit s") auto
  have between: "\<not> cn_between c" "check_scan_budget sc n = Inr ()"
    using r n by (simp_all split: if_splits sum.splits)
  define reg where "reg = registry_scan_into env ops readers (sc_tenant sc) filters (exact_field_predicates (sc_query sc)) (sc_range sc) forward
      (map_option (\<lambda>l. l - n) limit) (sc_max_scan_bytes sc) s1"
  have r2: "(case reg of Inl err \<Rightarrow> Inl err
      | Inr (st, s) \<Rightarrow> if cn_end c then Inl timed_out
          else (case check_scan_budget sc (saturating_add_u64 n (ss_rows st)) of Inl err \<Rightarrow> Inl err
            | Inr _ \<Rightarrow> if (case sc_max_scan_bytes sc of None \<Rightarrow> False | Some budget \<Rightarrow> ss_bytes st > budget) then Inl scanned_bytes_error
                else Inr ((saturating_add_u64 n (ss_rows st), ss_bytes st), s))) = Inr ((rows, bytes), s')"
    using r by (simp only: n between reg_def sum.case prod.case if_False)
  obtain st s2 where st: "reg = Inr (st, s2)"
  proof (cases reg)
    case (Inl err)
    then show thesis using r2 by simp
  next
    case (Inr p)
    then show thesis using that by (cases p) simp
  qed
  have out: "check_scan_budget sc (saturating_add_u64 n (ss_rows st)) = Inr ()" "bytes = ss_bytes st" "s2 = s'"
    using r2 unfolding st by (simp_all split: if_splits sum.splits)
  have flag: "cn_memtable c = (\<lambda>_. False)" using assms(3) between(1) by (auto simp: flag_stays_def)
  note n = n [unfolded flag] and st = st [unfolded out(3) reg_def]
  have lim: "n + ss_rows st < l" if some: "limit = Some l" for l
  proof -
    obtain b where b: "sc_scan_budget sc = Some b" "l = saturating_add_u64 b 1" using some by (auto simp: limit_def)
    then have "l = b + 1" using budget [OF b(1)] by (simp add: saturating_add_u64_def u64_max_def)
    moreover have "saturating_add_u64 n (ss_rows st) \<le> b" using out(1) b(1) by (auto simp: check_scan_budget_def split: if_splits)
    ultimately show ?thesis using budget [OF b(1)] by (auto simp: saturating_add_u64_def u64_max_def min_def split: if_splits)
  qed
  define N where "N = sum_list (map (\<lambda>r. length (tenant_rows r (sc_tenant sc))) readers)"
  have "length (stored_entries m readers (sc_tenant sc)) = length (tenant_entries m (sc_tenant sc)) + N"
    by (simp add: stored_entries_def N_def length_concat comp_def)
  then have g: "good (length (tenant_entries m (sc_tenant sc)) + (N + k)) s" using good by (simp add: add.assoc)
  have nl: "n < l" if "limit = Some l" for l using lim [OF that] by simp
  note a = memtable_scan_all [OF n g nl]
  have "\<not> over (map_option (\<lambda>l. l - n) limit) (ss_rows st)" using lim by (auto simp: over_def split: option.splits)
  from registry_scan_all [OF st conjunct1 [OF a, unfolded N_def] readers [folded filters_def] fl wanted u this bytes [unfolded out(2)]]
  have "reads s1 s' (sum_list (map (\<lambda>r. part_rows r (sc_tenant sc) (sc_range sc) filters) readers))" by simp
  from reads_both [OF conjunct2 [OF a] this] show ?thesis unfolding stored_in_scan filters_def .
qed

end

lemma sort_key_map: "sort_key f (map g xs) = map g (sort_key (\<lambda>x. f (g x)) xs)"
proof -
  have "insort_key f (g x) (map g ys) = map g (insort_key (\<lambda>x. f (g x)) x ys)" for x ys by (induction ys) auto
  then show ?thesis by (induction xs) simp_all
qed

lemma group_one: "group_by_labels (map (Pair []) es) = (if es = [] then [] else [([], es)])"
proof (cases es)
  case (Cons e es')
  have "remdups (map fst (map (Pair ([] :: labels)) es)) = [[]]" unfolding Cons by (induction es') auto
  moreover have "filter (\<lambda>(l', _). l' = []) (map (Pair ([] :: labels)) es) = map (Pair []) es" by (intro filter_True) auto
  ultimately show ?thesis by (simp add: group_by_labels_def Cons comp_def)
qed (simp add: group_by_labels_def)

text \<open>C3: a log query answers with exactly the rows it asks for. Whenever it ends well and the scan has not used
  up a limit on bytes, and no literal of a line filter has a capital sigma (which the index lowers in two
  ways), the answer is the rows the pipeline lets through of all rows the tenant has in the memtable and
  in parts, in the window, under the line filters and not hidden, each once, sorted by time in the direction of
  the query and cut at the limit: what the index, the pages, the columns, the frontier and the early ends of
  the scan leave out is never missed. The parts are as a flush or a merge writes them, the parsed numbers in
  normal form; \<open>regex_engine_ok\<close> is what the regular expression crates promise, \<open>chars_ok\<close> what UTF-8 does.\<close>

theorem log_scan_exact:
  assumes "log_scan_run env sc c m readers = Inr out"
    and "\<forall>r \<in> set readers. part_written env fl fl' r"
    and "float_sizes_ok fl" and "float_sizes_ok fl'" and "unicode_ok (sv_unicode env)"
    and "numbers_parsed (lq_stages (sc_query sc))" and "flag_stays c"
    and "\<And>b. sc_scan_budget sc = Some b \<Longrightarrow> b < u64_max" and "\<not> over (sc_max_scan_bytes sc) (lr_scanned_bytes out)"
    and "length (stored_entries m readers (sc_tenant sc)) < u64_max"
    and "no_capital_sigma env (literals_of (lq_line_filters (sc_query sc)))"
    and "regex_engine_ok hir_of spans is_match" and "regex_filters_ok is_utf8 hir_of is_match (lq_line_filters (sc_query sc))"
    and "\<forall>r \<in> set readers. chars_ok env (literals_of (lq_line_filters (sc_query sc))) (ro_line ` set (concat (rd_groups r)))"
  shows "\<exists>order. mset order = mset (filter (in_scan (sc_range sc) (lq_line_filters (sc_query sc))) (stored_entries m readers (sc_tenant sc))) \<and>
    (let rows = take (sc_limit sc) (sort_key (\<lambda>e. if sc_forward sc then le_ts e else - le_ts e)
           (List.map_filter (survivor (sv_json env) (sc_query sc) (sc_hidden sc) []) order))
     in lr_results out = (if rows = [] then [] else [([], rows)]))"
proof -
  define q h k f where "q = sc_query sc" and "h = sc_hidden sc" and "k = sc_limit sc" and "f = sc_forward sc"
  define s where "s = \<lparr>pk_query = q, pk_hidden = h, pk_cancelled = cn_accept c, pk_max_memory = sc_max_memory sc,
            pk_materialized = 0, pk_rows = topk_new k f, pk_clock = 0\<rparr>"
  obtain rows bytes s' where run: "run_into env sc c (pipeline_row_sink (sv_json env)) m readers s = Inr ((rows, bytes), s')"
    and out: "lr_results out = group_by_labels (topk_rows (pk_rows s'))" "lr_scanned_bytes out = bytes"
    using assms(1) by (auto simp: log_scan_run_def s_def q_def h_def k_def f_def Let_def split: sum.splits)
  have "topk_good k f (length (stored_entries m readers (sc_tenant sc)) + 0) (topk_new k f)"
    using assms(10) by (simp add: topk_good_def topk_new_ok topk_new_rows best_def) (simp add: topk_new_def)
  then have g: "pipeline_good q h k f (length (stored_entries m readers (sc_tenant sc)) + 0) s" by (simp add: pipeline_good_def s_def)
  have w: "pipeline.idle (sv_json env) q h k f e" if "\<not> wanted env (exact_field_predicates (sc_query sc)) e" for e
    using unwanted_idle [OF assms(6) that] by (simp add: q_def)
  have found: "\<forall>r \<in> set readers. part_found env fl fl' (lq_line_filters (sc_query sc)) r"
    using assms(2,14) literals_okI [OF assms(12,13,11)] by (simp add: part_found_def)
  from pipeline.run_into_all [OF run f_def [symmetric] assms(7) g found assms(3-5) w assms(8)] assms(9)
  obtain order where order: "mset order = mset (filter (in_scan (sc_range sc) (lq_line_filters (sc_query sc))) (stored_entries m readers (sc_tenant sc)))"
    "topk_rows (pk_rows s') = fold (pipeline_takes (sv_json env) q h k f) (map (Pair []) order) (topk_rows (pk_rows s))"
    unfolding pipeline.reads_def out(2) by blast
  define found where "found = List.map_filter (survivor (sv_json env) q h []) order"
  have "topk_rows (pk_rows s') = best f k (map (Pair []) found)"
    unfolding order(2) found_def by (simp add: s_def topk_new_rows takes_best)
  also have "\<dots> = map (Pair []) (take k (sort_key (\<lambda>e. if f then le_ts e else - le_ts e) found))"
    by (simp add: best_def sort_key_map nearest_def take_map cong: if_cong)
  finally have "lr_results out = (let rows = take k (sort_key (\<lambda>e. if f then le_ts e else - le_ts e) found)
      in (if rows = [] then [] else [([], rows)]))" unfolding out(1) by (simp add: group_one Let_def)
  then show ?thesis using order(1) by (intro exI [of _ order]) (simp add: found_def q_def h_def k_def f_def Let_def)
qed

text \<open>A part of one row, and a memtable of one.\<close>

definition web_at :: "int \<Rightarrow> log_entry" where "web_at ts = web_row\<lparr>le_ts := ts\<rparr>"

definition sample_env :: scan_env where
  "sample_env = \<lparr>sv_unicode = greek, sv_chars = map of_char, sv_json = (\<lambda>_. None), sv_batch_bytes = (\<lambda>_. 10), sv_narrow_bytes = (\<lambda>_. 1)\<rparr>"

definition sample_part :: "int \<Rightarrow> bytes \<Rightarrow> (bloom_location \<times> window_bloom list) list \<Rightarrow> part_reader" where
  "sample_part ts index blooms = \<lparr>rd_meta = \<lparr>pm_id = ''p'', pm_partition = ''d'', pm_min_ts = ts, pm_max_ts = ts, pm_row_count = 1,
       pm_tenants = [\<lparr>se_tenant = [0x74], se_row_group_start = 0, se_row_group_end = 1, se_row_count = 1, se_min_ts = ts, se_max_ts = ts\<rparr>],
       pm_bytes = 1\<rparr>,
     rd_groups = [[\<lparr>ro_tenant = [0x74], ro_ts = ts, ro_line = ''hi'', ro_metadata = [(''app'', ''web'')]\<rparr>]],
     rd_group_min_ts = [ts], rd_group_max_ts = [ts], rd_metadata_keys = [''app''], rd_parsed_keys = [], rd_index = index, rd_blooms = blooms,
     rd_pages = [Some [(0, Some (ts, ts))]]\<rparr>"

lemma web_at_index: "encode_blooms u chars fl fl' parse [[web_at ts]] = encode_blooms u chars fl fl' parse [[web_row]]"
proof -
  have t: "indexed_tokens parse (web_at ts) = indexed_tokens parse web_row" by (simp add: indexed_tokens_def web_at_def)
  have n: "div_ceil (length [x]) bloom_window_rows = 1" for x :: log_entry by (simp add: div_ceil_def bloom_window_rows_def)
  have "window_tokens parse [web_at ts] = window_tokens parse [web_row]"
    unfolding window_tokens_def n by (simp add: bloom_window_rows_def t)
  moreover have "le_line (web_at ts) = le_line web_row" by (simp add: web_at_def)
  ultimately have "encode_group_blooms u chars fl fl' parse [web_at ts] = encode_group_blooms u chars fl fl' parse [web_row]"
    unfolding encode_group_blooms_def list.map by presburger
  then show ?thesis by (simp add: encode_blooms_def)
qed

lemma sample_part_written: "\<exists>index blooms. \<forall>ts. part_written sample_env six_sizes six_sizes (sample_part ts index blooms)"
proof -
  obtain index where index: "Option.bind (encode_blooms greek (map of_char) six_sizes six_sizes (\<lambda>_. None) [[web_row]]) write_index_sections = Some index"
    "length index < 2 ^ 32" using web_index by blast
  from index_reads [OF index examples_ok(2) examples_ok(2)] obtain blooms where blooms: "build_bloom_index index [1] = Inr blooms" by auto
  have "part_written sample_env six_sizes six_sizes (sample_part ts index blooms)" for ts
  proof -
    have e: "part_entries (sample_part ts index blooms) = [[web_at ts]]"
      by (simp add: part_entries_def sample_part_def web_at_def web_row_def entry_of_def)
    have seg: "segments_ok (sample_part ts index blooms)"
      by (auto simp: segments_ok_def tenant_segment_of_def sample_part_def)
    have grp: "groups_ok (sample_part ts index blooms)"
      by (auto simp: groups_ok_def pages_ok_def sample_part_def)
    have "map fst (select_metadata_columns (metadata_column_counts [web_at ts])) = [''app'']"
      "map fst (select_metadata_columns (parsed_column_counts (parse_rows (\<lambda>_. None) [web_at ts]))) = []"
      by (simp_all add: select_metadata_columns_def metadata_column_counts_def parsed_column_counts_def parse_rows_def extract_json_def
          web_at_def web_row_def max_metadata_columns_def)
    then show ?thesis using index blooms
      by (intro flushed_part_written seg grp) (simp_all only: e web_at_index sample_env_def scan_env.simps, simp_all add: sample_part_def)
  qed
  then show ?thesis by blast
qed

definition sample_scan :: "nat option \<Rightarrow> log_scan" where
  "sample_scan most_bytes = \<lparr>sc_tenant = [0x74],
     sc_query = \<lparr>lq_matchers = [], lq_line_filters = [], lq_stages = [LineStage (NotContains ''x'')]\<rparr>,
     sc_range = half_open 0 100, sc_limit = 5, sc_forward = True, sc_scan_budget = Some 100, sc_max_scan_bytes = most_bytes,
     sc_max_memory = None, sc_hidden = None\<rparr>"

definition never_cancelled :: cancellation where
  "never_cancelled = \<lparr>cn_memtable = (\<lambda>_. False), cn_accept = (\<lambda>_. False), cn_between = False, cn_end = False\<rparr>"

text \<open>The sink when it has taken some of these rows.\<close>

definition sample_sink :: "log_entry list \<Rightarrow> pipeline_sink" where
  "sample_sink es = \<lparr>pk_query = sc_query (sample_scan None), pk_hidden = None, pk_cancelled = (\<lambda>_. False), pk_max_memory = None,
     pk_materialized = 64 * length es,
     pk_rows = \<lparr>tk_limit = 5, tk_forward = True, tk_held = Growing (map (Pair []) es), tk_arrived = length es\<rparr>, pk_clock = length es\<rparr>"

lemma sample_accepts:
  "length es < 4 \<Longrightarrow> pipeline_accept (\<lambda>_. None) [] (web_at ts) None (sample_sink es) = Inr (sample_sink (es @ [web_at ts]))"
  by (simp add: pipeline_accept_def process_entry_def web_at_def web_row_def add_metadata_def pipeline_step_def line_matches_def
      estimated_log_entry_memory_bytes_def saturating_add_u64_def u64_max_def log_entry_size_def starts_with_def
      sample_sink_def sample_scan_def topk_offer_def)

lemma sample_open: "topk_frontier (pk_rows (sample_sink es)) = None" "topk_closed (pk_rows (sample_sink es)) = False"
  "topk_remaining (pk_rows (sample_sink es)) = Some (5 - length es)"
  by (simp_all add: sample_sink_def topk_frontier_def topk_closed_def topk_remaining_def topk_len_def)

lemma sink_simps:
  "rs_accept (pipeline_row_sink parse) l e = pipeline_accept parse l e None"
  "rs_accept_extracted (pipeline_row_sink parse) = pipeline_accept parse"
  "rs_frontier (pipeline_row_sink parse) k = topk_frontier (pk_rows k)"
  "rs_remaining (pipeline_row_sink parse) k = topk_remaining (pk_rows k)"
  "rs_closed (pipeline_row_sink parse) k = topk_closed (pk_rows k)"
  by (simp_all add: pipeline_row_sink_def)

lemma sample_part_simps:
  "rd_groups (sample_part ts index blooms) = [[\<lparr>ro_tenant = [0x74], ro_ts = ts, ro_line = ''hi'', ro_metadata = [(''app'', ''web'')]\<rparr>]]"
  "rd_group_min_ts (sample_part ts index blooms) = [ts]" "rd_group_max_ts (sample_part ts index blooms) = [ts]"
  "rd_metadata_keys (sample_part ts index blooms) = [''app'']" "rd_pages (sample_part ts index blooms) = [Some [(0, Some (ts, ts))]]"
  by (simp_all add: sample_part_def)

lemma sample_scan_part:
  assumes "0 \<le> ts" and "ts < 100" and "length es < 4" and "0 < l" and "case pb of None \<Rightarrow> True | Some b \<Rightarrow> 10 \<le> b"
  shows "part_scan_into sample_env (pipeline_row_sink (\<lambda>_. None)) (sample_part ts index blooms) [0x74] [] [] (half_open 0 100) True (Some l) pb
    (sample_sink es) = Inr (\<lparr>ss_rows = 1, ss_bytes = 10\<rparr>, sample_sink (es @ [web_at ts]))"
proof -
  have e: "\<lparr>le_ts = ts, le_line = ''hi'', le_metadata = read_metadata [''app''] [(''app'', ''web'')]\<rparr> = web_at ts"
    by (simp add: read_metadata_def residual_metadata_def web_at_def web_row_def)
  have sel: "select_row_groups sample_env (sample_part ts index blooms) [0x74] [] [] (half_open 0 100) = [0]"
    using assms(1,2) by (simp add: select_row_groups_def tenant_row_groups_def tenant_segment_of_def sample_part_def prune_literals_def
        range_overlaps_def half_open_def)
  have base: "whole_selection 1 (base_selection (sample_part ts index blooms) 0 [] (half_open 0 100)) = [True]"
    using assms(1,2) by (simp add: base_selection_def whole_selection_def both_selections_def time_page_selection_def page_rows_def sample_part_def
        range_overlaps_def half_open_def Let_def)
  have rows: "scan_rows (pipeline_row_sink (\<lambda>_. None)) (sample_part ts index blooms) [0x74] [] (half_open 0 100) True (Some l) True
      [\<lparr>ro_tenant = [0x74], ro_ts = ts, ro_line = ''hi'', ro_metadata = [(''app'', ''web'')]\<rparr>] 0 (sample_sink es) =
      Inr (ScanContinue, 1, sample_sink (es @ [web_at ts]))"
    using assms sample_accepts [OF assms(3)] by (simp add: sink_simps sample_open beyond_frontier_def over_def range_contains_def half_open_def
        Let_def sample_part_simps e)
  have "scan_group sample_env (pipeline_row_sink (\<lambda>_. None)) (sample_part ts index blooms) [0x74] [] [] [] (half_open 0 100) True (Some l) pb 0
      \<lparr>ss_rows = 0, ss_bytes = 0\<rparr> (sample_sink es) = Inr (ScanContinue, \<lparr>ss_rows = 1, ss_bytes = 10\<rparr>, sample_sink (es @ [web_at ts]))"
    using rows base assms(5) by (cases pb) (simp_all add: scan_group_def Let_def span_beyond_frontier_def beyond_frontier_def sink_simps sample_open
        scan_batch_def selected_rows_def sample_part_simps sample_env_def del: scan_rows.simps)
  then show ?thesis
    by (simp add: part_scan_into_def Let_def sel in_scan_order_def sink_simps sample_open sample_part_simps)
qed

lemma sample_survives: "survivor (\<lambda>_. None) (sc_query (sample_scan b)) None [] (web_at ts) = Some (web_at ts)"
  by (simp add: survivor_def sample_scan_def process_entry_def web_at_def web_row_def add_metadata_def pipeline_step_def line_matches_def
      starts_with_def)

lemma sample_candidates:
  "0 \<le> ts \<Longrightarrow> ts < 100 \<Longrightarrow> candidate_parts [sample_part ts index blooms] [0x74] (half_open 0 100) True =
     [(sample_part ts index blooms, \<lparr>se_tenant = [0x74], se_row_group_start = 0, se_row_group_end = 1, se_row_count = 1, se_min_ts = ts, se_max_ts = ts\<rparr>)]"
  "0 \<le> ts \<Longrightarrow> ts \<le> us \<Longrightarrow> us < 100 \<Longrightarrow>
   candidate_parts [sample_part ts index blooms, sample_part us index blooms] [0x74] (half_open 0 100) True =
     [(sample_part ts index blooms, \<lparr>se_tenant = [0x74], se_row_group_start = 0, se_row_group_end = 1, se_row_count = 1, se_min_ts = ts, se_max_ts = ts\<rparr>),
      (sample_part us index blooms, \<lparr>se_tenant = [0x74], se_row_group_start = 0, se_row_group_end = 1, se_row_count = 1, se_min_ts = us, se_max_ts = us\<rparr>)]"
  by (auto simp: candidate_parts_def List.map_filter_def tenant_segment_of_def sample_part_def range_overlaps_def half_open_def Let_def)

definition sample_memtable :: memtable where "sample_memtable = memtable_insert [0x74] [web_at 7] memtable_new"

lemma sample_buffered: "tenant_entries sample_memtable [0x74] = [web_at 7]"
  by (simp add: sample_memtable_def tenant_entries_def memtable_insert_def memtable_new_def entries_of_def canonical_entry_def
      canonicalize_structured_metadata_def web_at_def web_row_def buffers_def Let_def)

lemma sample_buffer_scan:
  "memtable_scan_into (pipeline_row_sink (\<lambda>_. None)) (\<lambda>_. False) sample_memtable [0x74] [] (half_open 0 100) True (Some 101) (sample_sink []) =
     Inr (1, sample_sink [web_at 7])"
  "memtable_scan_into (pipeline_row_sink (\<lambda>_. None)) (\<lambda>_. False) memtable_new [0x74] [] (half_open 0 100) True (Some 101) (sample_sink []) =
     Inr (0, sample_sink [])"
proof -
  have "le_ts (web_at ts) = ts" for ts by (simp add: web_at_def)
  then show "memtable_scan_into (pipeline_row_sink (\<lambda>_. None)) (\<lambda>_. False) sample_memtable [0x74] [] (half_open 0 100) True (Some 101) (sample_sink []) =
     Inr (1, sample_sink [web_at 7])"
    using sample_accepts [of "[]" 7]
    by (simp add: memtable_scan_into_def sample_buffered sink_simps sample_open beyond_frontier_def range_contains_def half_open_def Let_def)
  show "memtable_scan_into (pipeline_row_sink (\<lambda>_. None)) (\<lambda>_. False) memtable_new [0x74] [] (half_open 0 100) True (Some 101) (sample_sink []) =
     Inr (0, sample_sink [])"
    by (simp add: memtable_scan_into_def memtable_new_def tenant_entries_def buffers_def entries_of_def sink_simps sample_open)
qed

lemma sample_registry_scan:
  "registry_scan_into sample_env (pipeline_row_sink (\<lambda>_. None)) [sample_part 5 index blooms] [0x74] [] [] (half_open 0 100) True (Some 100) None
     (sample_sink [web_at 7]) = Inr (\<lparr>ss_rows = 1, ss_bytes = 10\<rparr>, sample_sink [web_at 7, web_at 5])"
  "registry_scan_into sample_env (pipeline_row_sink (\<lambda>_. None)) [sample_part 5 index blooms, sample_part 6 index blooms] [0x74] [] [] (half_open 0 100) True
     (Some 101) (Some 10) (sample_sink []) = Inr (\<lparr>ss_rows = 1, ss_bytes = 10\<rparr>, sample_sink [web_at 5])"
  using sample_scan_part [of 5 "[web_at 7]" 100 None index blooms] sample_scan_part [of 5 "[]" 101 "Some 10" index blooms]
  by (simp_all add: registry_scan_into_def sink_simps sample_open sample_candidates span_beyond_frontier_def beyond_frontier_def over_def Let_def)

lemma sample_start: "sample_sink [] = \<lparr>pk_query = sc_query (sample_scan b), pk_hidden = sc_hidden (sample_scan b), pk_cancelled = cn_accept never_cancelled,
    pk_max_memory = sc_max_memory (sample_scan b), pk_materialized = 0, pk_rows = topk_new (sc_limit (sample_scan b)) (sc_forward (sample_scan b)), pk_clock = 0\<rparr>"
  by (simp add: sample_sink_def sample_scan_def never_cancelled_def topk_new_def)

lemma sample_runs:
  "log_scan_run sample_env (sample_scan None) never_cancelled sample_memtable [sample_part 5 index blooms] =
     Inr \<lparr>lr_results = [([], [web_at 5, web_at 7])], lr_scanned_rows = 2, lr_scanned_bytes = 10, lr_materialized = 128\<rparr>"
  "log_scan_run sample_env (sample_scan (Some 10)) never_cancelled memtable_new [sample_part 5 index blooms, sample_part 6 index blooms] =
     Inr \<lparr>lr_results = [([], [web_at 5])], lr_scanned_rows = 1, lr_scanned_bytes = 10, lr_materialized = 64\<rparr>"
proof -
  have q: "lq_line_filters (sc_query (sample_scan b)) = []" "exact_field_predicates (sc_query (sample_scan b)) = []"
    "sc_tenant (sample_scan b) = [0x74]" "sc_range (sample_scan b) = half_open 0 100" "sc_forward (sample_scan b) = True"
    "sc_scan_budget (sample_scan b) = Some 100" "sc_max_scan_bytes (sample_scan b) = b" "sv_json sample_env = (\<lambda>_. None)"
    "cn_memtable never_cancelled = (\<lambda>_. False)" "cn_between never_cancelled = False" "cn_end never_cancelled = False" for b
    by (simp_all add: sample_scan_def never_cancelled_def sample_env_def exact_field_predicates_def matcher_predicates_def List.map_filter_def)
  have s: "saturating_add_u64 100 (Suc 0) = 101" "saturating_add_u64 (Suc 0) (Suc 0) = 2" "saturating_add_u64 0 (Suc 0) = 1"
    by (simp_all add: saturating_add_u64_def u64_max_def)
  have t: "le_ts (web_at ts) = ts" for ts by (simp add: web_at_def)
  have rows: "topk_rows (pk_rows (sample_sink [web_at 7, web_at 5])) = map (Pair []) [web_at 5, web_at 7]"
    "topk_rows (pk_rows (sample_sink [web_at 5])) = map (Pair []) [web_at 5]"
    by (simp_all add: sample_sink_def topk_rows_def t)
  have g: "group_by_labels [([], a)] = [([], [a])]" "group_by_labels [([], a), ([], b)] = [([], [a, b])]" for a b
    using group_one [of "[a]"] group_one [of "[a, b]"] by simp_all
  have m: "pk_materialized (sample_sink es) = 64 * length es" for es by (simp add: sample_sink_def)
  show "log_scan_run sample_env (sample_scan None) never_cancelled sample_memtable [sample_part 5 index blooms] =
     Inr \<lparr>lr_results = [([], [web_at 5, web_at 7])], lr_scanned_rows = 2, lr_scanned_bytes = 10, lr_materialized = 128\<rparr>"
    unfolding log_scan_run_def Let_def sample_start [symmetric] unfolding run_into_def q Let_def
    by (simp add: s sample_buffer_scan [simplified] sample_registry_scan [simplified] check_scan_budget_def q rows m g)
  show "log_scan_run sample_env (sample_scan (Some 10)) never_cancelled memtable_new [sample_part 5 index blooms, sample_part 6 index blooms] =
     Inr \<lparr>lr_results = [([], [web_at 5])], lr_scanned_rows = 1, lr_scanned_bytes = 10, lr_materialized = 64\<rparr>"
    unfolding log_scan_run_def Let_def sample_start [symmetric] unfolding run_into_def q Let_def
    by (simp add: s sample_buffer_scan [simplified] sample_registry_scan [simplified] check_scan_budget_def q rows m g)
qed

lemma sample_stored:
  "stored_entries sample_memtable [sample_part 5 index blooms] [0x74] = [web_at 7, web_at 5]"
  "stored_entries memtable_new [sample_part 5 index blooms, sample_part 6 index blooms] [0x74] = [web_at 5, web_at 6]"
  "filter (in_scan (half_open 0 100) []) [web_at 7, web_at 5] = [web_at 7, web_at 5]"
  "filter (in_scan (half_open 0 100) []) [web_at 5, web_at 6] = [web_at 5, web_at 6]"
proof -
  have "map entry_of (tenant_rows (sample_part ts index blooms) [0x74]) = [web_at ts]" for ts
    by (simp add: tenant_rows_def sample_part_simps entry_of_def web_at_def web_row_def)
  then show "stored_entries sample_memtable [sample_part 5 index blooms] [0x74] = [web_at 7, web_at 5]"
    "stored_entries memtable_new [sample_part 5 index blooms, sample_part 6 index blooms] [0x74] = [web_at 5, web_at 6]"
    by (simp_all add: stored_entries_def sample_buffered) (simp add: tenant_entries_def memtable_new_def buffers_def entries_of_def)
  show "filter (in_scan (half_open 0 100) []) [web_at 7, web_at 5] = [web_at 7, web_at 5]"
    "filter (in_scan (half_open 0 100) []) [web_at 5, web_at 6] = [web_at 5, web_at 6]"
    by (simp_all add: in_scan_def half_open_def range_contains_def web_at_def)
qed

theorem log_scan_exact_witness:
  "\<exists>r out order. part_written sample_env six_sizes six_sizes r \<and>
     log_scan_run sample_env (sample_scan None) never_cancelled sample_memtable [r] = Inr out \<and>
     mset order = {#web_at 7, web_at 5#} \<and>
     lr_results out = [([], take 5 (sort_key le_ts (List.map_filter (survivor (\<lambda>_. None) (sc_query (sample_scan None)) None []) order)))]"
proof -
  obtain index blooms where p: "part_written sample_env six_sizes six_sizes (sample_part 5 index blooms)" using sample_part_written by blast
  define r where "r = sample_part 5 index blooms"
  define out where "out = \<lparr>lr_results = [([] :: labels, [web_at 5, web_at 7])], lr_scanned_rows = 2, lr_scanned_bytes = 10, lr_materialized = 128\<rparr>"
  have run: "log_scan_run sample_env (sample_scan None) never_cancelled sample_memtable [r] = Inr out"
    unfolding r_def out_def by (rule sample_runs)
  have lits: "literals_of [] = []" "no_capital_sigma sample_env []" "chars_ok sample_env [] lines"
    "regex_filters_ok is_utf8 (\<lambda>pattern. Some (HirLiteral pattern)) sublist []" for lines is_utf8
    by (simp_all add: literals_of_def no_capital_sigma_def chars_ok_def regex_filters_ok_def)
  have q: "lq_line_filters (sc_query (sample_scan None)) = []" "numbers_parsed (lq_stages (sc_query (sample_scan None)))"
    "sc_tenant (sample_scan None) = [0x74]" "sc_range (sample_scan None) = half_open 0 100" "sc_limit (sample_scan None) = 5" "sc_forward (sample_scan None) = True"
    "sc_scan_budget (sample_scan None) = Some 100" "sc_max_scan_bytes (sample_scan None) = None" "sv_json sample_env = (\<lambda>_. None)"
    "sv_unicode sample_env = greek" "sc_hidden (sample_scan None) = None" "flag_stays never_cancelled"
    by (simp_all add: sample_scan_def sample_env_def numbers_parsed_def flag_stays_def never_cancelled_def)
  have "\<exists>order. mset order = mset (filter (in_scan (sc_range (sample_scan None)) (lq_line_filters (sc_query (sample_scan None)))) (stored_entries sample_memtable [r] (sc_tenant (sample_scan None)))) \<and>
    (let rows = take (sc_limit (sample_scan None)) (sort_key (\<lambda>e. if sc_forward (sample_scan None) then le_ts e else - le_ts e)
           (List.map_filter (survivor (sv_json sample_env) (sc_query (sample_scan None)) (sc_hidden (sample_scan None)) []) order))
     in lr_results out = (if rows = [] then [] else [([], rows)]))"
    by (rule log_scan_exact [OF run, of six_sizes six_sizes "\<lambda>pattern. Some (HirLiteral pattern)" plain_spans sublist])
      (use p in \<open>simp_all add: q examples_ok r_def sample_stored over_def u64_max_def plain_engine_ok lits\<close>)
  from this [unfolded q r_def sample_stored if_True Let_def] obtain order where o: "mset order = mset [web_at 7, web_at 5]"
    "lr_results out = (if take 5 (sort_key le_ts (List.map_filter (survivor (\<lambda>_. None) (sc_query (sample_scan None)) None []) order)) = [] then []
       else [([], take 5 (sort_key le_ts (List.map_filter (survivor (\<lambda>_. None) (sc_query (sample_scan None)) None []) order)))])"
    by (elim exE conjE) (rule that)
  moreover have "lr_results out \<noteq> []" by (simp add: out_def)
  ultimately show ?thesis using p run unfolding r_def [symmetric] by (intro exI [of _ r] exI [of _ out] exI [of _ order]) (simp split: if_splits)
qed

text \<open>A limit on bytes that is met exactly cuts the answer short without an error: the scan ends when the
  bytes it read reach the limit, and only more than the limit is refused. Here the second of two parts is never
  read, and the query succeeds without its row, which the pipeline accepts and which is in the window.\<close>

theorem byte_limit_hides_rows:
  "\<exists>r1 r2 out. part_written sample_env six_sizes six_sizes r1 \<and> part_written sample_env six_sizes six_sizes r2 \<and>
     log_scan_run sample_env (sample_scan (Some 10)) never_cancelled memtable_new [r1, r2] = Inr out \<and> lr_results out = [([], [web_at 5])] \<and>
     List.map_filter (survivor (sv_json sample_env) (sc_query (sample_scan (Some 10))) None [])
       (filter (in_scan (sc_range (sample_scan (Some 10))) []) (stored_entries memtable_new [r1, r2] (sc_tenant (sample_scan (Some 10))))) =
     [web_at 5, web_at 6]"
proof -
  obtain index blooms where p: "\<And>ts. part_written sample_env six_sizes six_sizes (sample_part ts index blooms)" using sample_part_written by blast
  have "sc_tenant (sample_scan (Some 10)) = [0x74]" "sc_range (sample_scan (Some 10)) = half_open 0 100" "sv_json sample_env = (\<lambda>_. None)"
    by (simp_all add: sample_scan_def sample_env_def)
  then have "List.map_filter (survivor (sv_json sample_env) (sc_query (sample_scan (Some 10))) None [])
       (filter (in_scan (sc_range (sample_scan (Some 10))) [])
         (stored_entries memtable_new [sample_part 5 index blooms, sample_part 6 index blooms] (sc_tenant (sample_scan (Some 10))))) =
     [web_at 5, web_at 6]"
    by (simp only: sample_stored) (simp add: sample_survives map_filter_simps)
  moreover note p [of 5] p [of 6] sample_runs(2) [of index blooms]
  ultimately show ?thesis by (metis log_scan_result.select_convs(1))
qed

end
