(* ===== verification/Wire.thy ===== *)
theory Wire
  imports Prelude
begin

text \<open>
  \<open>collecty/src/wire.rs\<close>: how a segment's plain text is cut into records. A record is its
  payload's length, four bytes little-endian, and the payload; a segment is records back
  to back. \<open>split_records\<close> is what a reader does with a whole segment,
  \<open>whole_records_len\<close> is where recovery cuts a segment a crash left open. Both are loops
  over an index into the plain text, as in the source. \<open>framed\<close> is the specification:
  the text of a list of records.
\<close>

definition record_header_bytes :: nat where
  "record_header_bytes = 4"

datatype wire_error = ShortHeader nat | ShortRecord nat nat

subsection \<open>The operations\<close>

definition frame_record :: "bytes \<Rightarrow> bytes" where
  "frame_record payload = le_nat record_header_bytes (length payload) @ payload"

function split_loop :: "bytes \<Rightarrow> nat \<Rightarrow> bytes list \<Rightarrow> wire_error + bytes list" where
  "split_loop plain at records =
     (if at < length plain then
        (case get_range plain at (at + record_header_bytes) of
           None \<Rightarrow> Inl (ShortHeader (length plain - at))
         | Some header \<Rightarrow>
             (let len = nat_of_le header; at1 = at + record_header_bytes in
              case get_range plain at1 (at1 + len) of
                None \<Rightarrow> Inl (ShortRecord len (length plain - at1))
              | Some payload \<Rightarrow> split_loop plain (at1 + len) (records @ [payload])))
      else Inr records)"
  by pat_completeness auto
termination
  by (relation "measure (\<lambda>(plain, at, _). length plain - at)")
    (auto simp: record_header_bytes_def)

definition split_records :: "bytes \<Rightarrow> wire_error + bytes list" where
  "split_records plain = split_loop plain 0 []"

function whole_loop :: "bytes \<Rightarrow> nat \<Rightarrow> nat" where
  "whole_loop plain at =
     (case get_range plain at (at + record_header_bytes) of
        None \<Rightarrow> at
      | Some header \<Rightarrow>
          (let end' = at + record_header_bytes + nat_of_le header in
           if end' > length plain then at else whole_loop plain end'))"
  by pat_completeness auto
termination
  by (relation "measure (\<lambda>(plain, at). length plain - at)")
    (auto simp: record_header_bytes_def get_range_def split: if_splits)

definition whole_records_len :: "bytes \<Rightarrow> nat" where
  "whole_records_len plain = whole_loop plain 0"

declare split_loop.simps [simp del] whole_loop.simps [simp del]

subsection \<open>The specification: the text of a list of records\<close>

definition framed :: "bytes list \<Rightarrow> bytes" where
  "framed rs = concat (map frame_record rs)"

text \<open>A payload whose length the four header bytes can hold; the intake refuses others.\<close>

definition wire_sized :: "bytes \<Rightarrow> bool" where
  "wire_sized r \<longleftrightarrow> length r < 2 ^ 32"

lemma framed_Nil [simp]: "framed [] = []"
  by (simp add: framed_def)

lemma framed_Cons [simp]: "framed (r # rs) = frame_record r @ framed rs"
  by (simp add: framed_def)

lemma framed_append [simp]: "framed (rs @ ss) = framed rs @ framed ss"
  by (simp add: framed_def)

lemma length_frame_record [simp]: "length (frame_record r) = 4 + length r"
  by (simp add: frame_record_def record_header_bytes_def)

lemma frame_record_header:
  "wire_sized r \<Longrightarrow> get_range (frame_record r @ p) 0 4 = Some (le_nat 4 (length r))"
  by (simp add: get_range_def frame_record_def record_header_bytes_def)

lemma frame_record_len: "wire_sized r \<Longrightarrow> nat_of_le (le_nat 4 (length r)) = length r"
  by (simp add: wire_sized_def nat_of_le_le_nat_id)

subsection \<open>The loops do not see what they have passed\<close>

lemma get_range_shift: "get_range (xs @ p) (length xs + a) (length xs + b) = get_range p a b"
  by (auto simp: get_range_def)

lemma split_loop_shift: "split_loop (xs @ p) (length xs + at) acc = split_loop p at acc"
proof (induction p at acc rule: split_loop.induct)
  case (1 p at acc)
  have *: "get_range (xs @ p) (length xs + at) (length xs + at + record_header_bytes)
      = get_range p at (at + record_header_bytes)"
    using get_range_shift [of xs p at "at + record_header_bytes"] by (simp add: add.assoc)
  show ?case
  proof (cases "at < length p \<and> get_range p at (at + record_header_bytes) \<noteq> None")
    case False
    then show ?thesis
      by (auto simp: split_loop.simps [of "xs @ p"] split_loop.simps [of p at acc] *)
  next
    case True
    then obtain h where h: "get_range p at (at + record_header_bytes) = Some h" by auto
    let ?a = "at + record_header_bytes"
    have **: "get_range (xs @ p) (length xs + ?a) (length xs + ?a + nat_of_le h)
        = get_range p ?a (?a + nat_of_le h)"
      using get_range_shift [of xs p ?a "?a + nat_of_le h"] by (simp add: add.assoc)
    show ?thesis
    proof (cases "get_range p ?a (?a + nat_of_le h)")
      case None
      then show ?thesis
        using True h * ** by (simp add: split_loop.simps [of "xs @ p"] split_loop.simps [of p at acc] add.assoc)
    next
      case (Some payload)
      have IH: "split_loop (xs @ p) (length xs + (?a + nat_of_le h)) (acc @ [payload])
          = split_loop p (?a + nat_of_le h) (acc @ [payload])"
        using 1 True h Some by simp
      show ?thesis
        using True h Some * ** IH
        by (simp add: split_loop.simps [of "xs @ p" "length xs + at"] split_loop.simps [of p at acc] add.assoc)
    qed
  qed
qed

lemma split_loop_acc_gen:
  "split_loop p at (acc @ bcc) = (case split_loop p at bcc of Inl e \<Rightarrow> Inl e | Inr rs \<Rightarrow> Inr (acc @ rs))"
proof (induction p at bcc rule: split_loop.induct)
  case (1 p at bcc)
  show ?case
  proof (cases "at < length p \<and> get_range p at (at + record_header_bytes) \<noteq> None")
    case False
    then show ?thesis by (auto simp: split_loop.simps [of p at])
  next
    case True
    then obtain h where h: "get_range p at (at + record_header_bytes) = Some h" by auto
    let ?a = "at + record_header_bytes"
    show ?thesis
    proof (cases "get_range p ?a (?a + nat_of_le h)")
      case None
      then show ?thesis using True h by (simp add: split_loop.simps [of p at])
    next
      case (Some payload)
      then show ?thesis using 1 True h by (simp add: split_loop.simps [of p at])
    qed
  qed
qed

lemma split_loop_acc:
  "split_loop p at acc = (case split_loop p at [] of Inl e \<Rightarrow> Inl e | Inr rs \<Rightarrow> Inr (acc @ rs))"
  using split_loop_acc_gen [of p at acc "[]"] by simp

lemma whole_loop_shift: "whole_loop (xs @ p) (length xs + at) = length xs + whole_loop p at"
proof (induction p at rule: whole_loop.induct)
  case (1 p at)
  have *: "get_range (xs @ p) (length xs + at) (length xs + at + record_header_bytes)
      = get_range p at (at + record_header_bytes)"
    using get_range_shift [of xs p at "at + record_header_bytes"] by (simp add: add.assoc)
  show ?case
  proof (cases "get_range p at (at + record_header_bytes)")
    case None
    then show ?thesis by (simp add: whole_loop.simps [of "xs @ p"] whole_loop.simps [of p at] *)
  next
    case (Some h)
    let ?e = "at + record_header_bytes + nat_of_le h"
    show ?thesis
    proof (cases "?e > length p")
      case True
      then show ?thesis using Some *
        by (simp add: whole_loop.simps [of "xs @ p"] whole_loop.simps [of p at] add.assoc)
    next
      case False
      have "whole_loop (xs @ p) (length xs + ?e) = length xs + whole_loop p ?e"
        using 1 Some False by simp
      with Some False * show ?thesis
        by (simp add: whole_loop.simps [of "xs @ p" "length xs + at"] whole_loop.simps [of p at] add.assoc)
    qed
  qed
qed

subsection \<open>One record at a time\<close>

lemma frame_record_payload:
  "get_range (frame_record r @ p) 4 (4 + length r) = Some r"
  by (simp add: get_range_def frame_record_def record_header_bytes_def)

lemma split_records_Nil [simp]: "split_records [] = Inr []"
  by (simp add: split_records_def split_loop.simps [of "[]"])

lemma split_records_frame:
  assumes "wire_sized r"
  shows "split_records (frame_record r @ p)
    = (case split_records p of Inl e \<Rightarrow> Inl e | Inr rs \<Rightarrow> Inr (r # rs))"
proof -
  have "split_records (frame_record r @ p) = split_loop (frame_record r @ p) (4 + length r) [r]"
    using frame_record_header [OF assms, of p] frame_record_len [OF assms] frame_record_payload [of r p]
    by (simp add: split_records_def split_loop.simps [of "frame_record r @ p" 0] record_header_bytes_def)
  also have "\<dots> = split_loop p 0 [r]"
    using split_loop_shift [of "frame_record r" p 0 "[r]"] by simp
  finally show ?thesis
    by (simp add: split_loop_acc [of p 0 "[r]"] split_records_def split: sum.splits)
qed

lemma whole_records_len_frame:
  assumes "wire_sized r"
  shows "whole_records_len (frame_record r @ p) = 4 + length r + whole_records_len p"
proof -
  have "whole_records_len (frame_record r @ p) = whole_loop (frame_record r @ p) (4 + length r)"
    using frame_record_header [OF assms, of p] frame_record_len [OF assms]
    by (simp add: whole_records_len_def whole_loop.simps [of "frame_record r @ p" 0] record_header_bytes_def)
  then show ?thesis
    using whole_loop_shift [of "frame_record r" p 0] by (simp add: whole_records_len_def)
qed

lemma whole_records_len_Nil [simp]: "whole_records_len [] = 0"
  by (simp add: whole_records_len_def whole_loop.simps [of "[]"] get_range_def record_header_bytes_def)

text \<open>Either a whole record is in front, or both loops stop right here.\<close>

lemma first_record_cases:
  obtains (whole) r q where "wire_sized r" and "p = frame_record r @ q"
  | (stop) "whole_records_len p = 0" and "p \<noteq> [] \<Longrightarrow> \<exists>e. split_records p = Inl e"
proof (cases "get_range p 0 4")
  case None
  then have short: "length p < 4" by (simp add: get_range_None_iff)
  then have "whole_records_len p = 0"
    using None by (simp add: whole_records_len_def whole_loop.simps [of p] record_header_bytes_def)
  moreover have "\<exists>e. split_records p = Inl e" if "p \<noteq> []"
    using that None by (simp add: split_records_def split_loop.simps [of p] record_header_bytes_def)
  ultimately show thesis by (rule stop)
next
  case (Some h)
  then have h: "h = take 4 p" and long: "4 \<le> length p" by (auto simp: get_range_def split: if_splits)
  define len where "len = nat_of_le h"
  have len_lt: "len < 2 ^ 32"
    using nat_of_le_lt [of h] h long by (simp add: len_def min_absorb2)
  show thesis
  proof (cases "4 + len \<le> length p")
    case False
    then have "whole_records_len p = 0"
      using Some by (simp add: whole_records_len_def whole_loop.simps [of p] record_header_bytes_def len_def)
    moreover have "\<exists>e. split_records p = Inl e" if "p \<noteq> []"
      using that Some False
      by (simp add: split_records_def split_loop.simps [of p] record_header_bytes_def Let_def
          len_def get_range_def)
    ultimately show thesis by (rule stop)
  next
    case True
    let ?r = "take len (drop 4 p)"
    have lr: "length ?r = len" using True by simp
    have "le_nat 4 (length ?r) = take 4 p"
      using le_nat_nat_of_le [of h] h long lr by (simp add: len_def min_absorb2)
    then have "frame_record ?r = take 4 p @ ?r"
      by (simp add: frame_record_def record_header_bytes_def)
    then have "p = frame_record ?r @ drop len (drop 4 p)"
      by (metis append_assoc append_take_drop_id)
    moreover have "wire_sized ?r" using lr len_lt by (simp add: wire_sized_def)
    ultimately show thesis by (rule whole [rotated])
  qed
qed

text \<open>
  Any bytes at all are some whole records and a rest that does not begin with one, and
  \<open>whole_records_len\<close> is where the rest begins.
\<close>

lemma whole_records_decompose:
  obtains rs q where "p = framed rs @ q" and "list_all wire_sized rs"
    and "whole_records_len p = length (framed rs)" and "whole_records_len q = 0"
    and "q \<noteq> [] \<Longrightarrow> \<exists>e. split_records q = Inl e"
proof -
  have "\<exists>rs q. p = framed rs @ q \<and> list_all wire_sized rs \<and> whole_records_len p = length (framed rs)
      \<and> whole_records_len q = 0 \<and> (q \<noteq> [] \<longrightarrow> (\<exists>e. split_records q = Inl e))"
  proof (induction p rule: length_induct)
    case (1 p)
    show ?case
    proof (cases p rule: first_record_cases)
      case (whole r q)
      with 1 obtain rs q' where "q = framed rs @ q'" "list_all wire_sized rs"
        "whole_records_len q = length (framed rs)" "whole_records_len q' = 0"
        "q' \<noteq> [] \<longrightarrow> (\<exists>e. split_records q' = Inl e)"
        by (metis length_append length_frame_record less_add_same_cancel2 add_gr_0 zero_less_numeral)
      then show ?thesis
        using whole by (intro exI [of _ "r # rs"] exI [of _ q']) (simp add: whole_records_len_frame)
    next
      case stop
      then show ?thesis by (intro exI [of _ "[]"] exI [of _ p]) simp
    qed
  qed
  then show thesis using that by blast
qed

lemma split_records_framed_append:
  assumes "list_all wire_sized rs"
  shows "split_records (framed rs @ q) = (case split_records q of Inl e \<Rightarrow> Inl e | Inr ss \<Rightarrow> Inr (rs @ ss))"
  using assms by (induction rs) (auto simp: split_records_frame split: sum.splits)

lemma whole_records_len_framed_append:
  "list_all wire_sized rs \<Longrightarrow> whole_records_len (framed rs @ q) = length (framed rs) + whole_records_len q"
  by (induction rs) (simp_all add: whole_records_len_frame)

lemma split_records_framed: "list_all wire_sized rs \<Longrightarrow> split_records (framed rs) = Inr rs"
  using split_records_framed_append [of rs "[]"] by simp

lemma whole_records_len_framed: "list_all wire_sized rs \<Longrightarrow> whole_records_len (framed rs) = length (framed rs)"
  using whole_records_len_framed_append [of rs "[]"] by simp

lemma whole_records_len_le: "whole_records_len p \<le> length p"
  by (rule whole_records_decompose [of p]) simp

lemma framed_inj:
  assumes "list_all wire_sized rs" and "list_all wire_sized ss" and "framed rs = framed ss"
  shows "rs = ss"
  using assms split_records_framed by (metis sum.inject(2))

lemma split_records_InrD:
  assumes "split_records p = Inr rs"
  shows "p = framed rs \<and> list_all wire_sized rs"
proof (rule whole_records_decompose [of p])
  fix ss q
  assume *: "p = framed ss @ q" "list_all wire_sized ss" "q \<noteq> [] \<Longrightarrow> \<exists>e. split_records q = Inl e"
  have "q = []"
    using * assms by (cases "q = []") (auto simp: split_records_framed_append)
  then show ?thesis using * assms by (simp add: split_records_framed)
qed

lemma split_records_Inr_iff_whole: "(\<exists>rs. split_records p = Inr rs) \<longleftrightarrow> whole_records_len p = length p"
proof (rule whole_records_decompose [of p])
  fix ss q
  assume *: "p = framed ss @ q" "list_all wire_sized ss" "whole_records_len p = length (framed ss)"
    "q \<noteq> [] \<Longrightarrow> \<exists>e. split_records q = Inl e"
  show ?thesis
    using * by (cases "q = []") (auto simp: split_records_framed_append split_records_framed)
qed

text \<open>The records in front of a cut: as many whole ones as fit.\<close>

lemma whole_records_of_prefix:
  assumes "list_all wire_sized rs" and "prefix p (framed rs)"
  obtains k where "k \<le> length rs" and "take (whole_records_len p) p = framed (take k rs)"
    and "whole_records_len p = length (framed (take k rs))"
    and "\<And>j. j \<le> length rs \<Longrightarrow> length (framed (take j rs)) \<le> length p \<Longrightarrow> j \<le> k"
proof -
  have "\<exists>k. k \<le> length rs \<and> take (whole_records_len p) p = framed (take k rs)
      \<and> whole_records_len p = length (framed (take k rs))
      \<and> (\<forall>j. j \<le> length rs \<longrightarrow> length (framed (take j rs)) \<le> length p \<longrightarrow> j \<le> k)"
    using assms
  proof (induction rs arbitrary: p)
    case Nil
    then show ?case by simp
  next
    case (Cons r rs)
    show ?case
    proof (cases "length (frame_record r) \<le> length p")
      case True
      with Cons.prems obtain q where q: "p = frame_record r @ q" "prefix q (framed rs)"
        by (metis framed_Cons prefix_length_prefix prefix_def same_prefix_prefix)
      with Cons obtain k where k: "k \<le> length rs" "take (whole_records_len q) q = framed (take k rs)"
        "whole_records_len q = length (framed (take k rs))"
        "\<forall>j. j \<le> length rs \<longrightarrow> length (framed (take j rs)) \<le> length q \<longrightarrow> j \<le> k"
        by fastforce
      have "j \<le> Suc k" if "j \<le> length (r # rs)" "length (framed (take j (r # rs))) \<le> length p" for j
        using that k(4) q(1) by (cases j) auto
      then show ?thesis
        using k q Cons.prems by (intro exI [of _ "Suc k"]) (simp add: whole_records_len_frame)
    next
      case False
      have "whole_records_len p = 0"
      proof (cases p rule: first_record_cases)
        case (whole r' q)
        from Cons.prems(2) whole obtain t where "frame_record r' @ q @ t = frame_record r @ framed rs"
          by (auto simp: prefix_def)
        then have "split_records (frame_record r' @ q @ t) = Inr (r # rs)"
          using Cons.prems(1) split_records_framed [of "r # rs"] by simp
        then have "r' = r"
          using whole(1) by (auto simp: split_records_frame split: sum.splits)
        with False whole show ?thesis by simp
      next
        case stop
        then show ?thesis by simp
      qed
      moreover have "j \<le> 0" if "j \<le> length (r # rs)" "length (framed (take j (r # rs))) \<le> length p" for j
        using that False by (cases j) auto
      ultimately show ?thesis by (intro exI [of _ 0]) simp
    qed
  qed
  then show thesis using that by blast
qed

end
