(* ===== verification/Segment.thy ===== *)
theory Segment
  imports Wire "HOL-Library.AList"
begin

text \<open>
  \<open>collecty/src/signal.rs\<close> and \<open>collecty/src/queue/segment.rs\<close>: one signal's directory of
  segment files and what is done to a file of it.

  A directory is an association list from file names to files in the order \<open>read_dir\<close>
  gives them; a file is its bytes and its modification time. The zstd library is not
  part of the program: it is the parameter \<open>zstd\<close>, three functions of the writes made to
  one stream, and \<open>zstd_ok\<close> is what the program relies on of it. A device that fails is
  the parameter \<open>faults\<close>: which write, which closing, which creation and which unlink of
  the running operation fails.
\<close>

subsection \<open>Signals\<close>

datatype signal = Logs | Traces | Metrics

definition all_signals :: "signal list" where
  "all_signals = [Logs, Traces, Metrics]"

definition signal_index :: "signal \<Rightarrow> nat" where
  "signal_index s = (case s of Logs \<Rightarrow> 0 | Traces \<Rightarrow> 1 | Metrics \<Rightarrow> 2)"

definition signal_as_str :: "signal \<Rightarrow> string" where
  "signal_as_str s = (case s of Logs \<Rightarrow> ''logs'' | Traces \<Rightarrow> ''traces'' | Metrics \<Rightarrow> ''metrics'')"

definition otlp_path :: "signal \<Rightarrow> string" where
  "otlp_path s = (case s of Logs \<Rightarrow> ''/v1/logs'' | Traces \<Rightarrow> ''/v1/traces'' | Metrics \<Rightarrow> ''/v1/metrics'')"

definition from_otlp_path :: "string \<Rightarrow> signal option" where
  "from_otlp_path path = find (\<lambda>s. otlp_path s = path) all_signals"

lemma set_all_signals [simp]: "set all_signals = UNIV" "s \<in> set all_signals"
  using signal.exhaust by (auto simp: all_signals_def)

lemma distinct_all_signals [simp]: "distinct all_signals"
  by (simp add: all_signals_def)

lemma from_otlp_path_otlp_path: "from_otlp_path (otlp_path s) = Some s"
  by (cases s) (simp_all add: from_otlp_path_def otlp_path_def all_signals_def)

lemma from_otlp_path_Some: "from_otlp_path path = Some s \<Longrightarrow> otlp_path s = path"
  by (simp add: from_otlp_path_def find_Some_iff) auto

lemma all_signals_nth_index: "all_signals ! signal_index s = s"
  by (cases s) (simp_all add: all_signals_def signal_index_def numeral_2_eq_2)

subsection \<open>The compressor\<close>

text \<open>
  \<open>z_emit ws\<close> is what a fresh stream has handed to its file after the writes \<open>ws\<close>,
  \<open>z_close ws\<close> what the file holds once the stream is finished, and \<open>z_read\<close> what reading
  a file to its end gives: the plain bytes that came out and whether it ended without an
  error.
\<close>

record zstd =
  z_emit :: "bytes list \<Rightarrow> bytes"
  z_close :: "bytes list \<Rightarrow> bytes"
  z_read :: "bytes \<Rightarrow> bytes \<times> bool"

definition zstd_ok :: "zstd \<Rightarrow> bool" where
  "zstd_ok z \<longleftrightarrow>
     z_emit z [] = [] \<and>
     (\<forall>ws w. prefix (z_emit z ws) (z_emit z (ws @ [w]))) \<and>
     (\<forall>ws. prefix (z_emit z ws) (z_close z ws)) \<and>
     (\<forall>ws. z_close z ws \<noteq> []) \<and>
     (\<forall>ws. z_read z (z_close z ws) = (concat ws, True)) \<and>
     (\<forall>ws p. prefix p (z_close z ws) \<longrightarrow> prefix (fst (z_read z p)) (concat ws)) \<and>
     (\<forall>ws p. prefix p (z_close z ws) \<longrightarrow> p \<noteq> [] \<longrightarrow> snd (z_read z p) \<longrightarrow> p = z_close z ws)"

lemma zstd_ok_read_close: "zstd_ok z \<Longrightarrow> z_read z (z_close z ws) = (concat ws, True)"
  by (simp add: zstd_ok_def)

lemma zstd_ok_read_prefix:
  "zstd_ok z \<Longrightarrow> prefix p (z_close z ws) \<Longrightarrow> prefix (fst (z_read z p)) (concat ws)"
  by (simp add: zstd_ok_def)

lemma zstd_ok_read_whole:
  "zstd_ok z \<Longrightarrow> prefix p (z_close z ws) \<Longrightarrow> p \<noteq> [] \<Longrightarrow> snd (z_read z p) \<Longrightarrow> p = z_close z ws"
  unfolding zstd_ok_def by blast

lemma zstd_ok_emit_close: "zstd_ok z \<Longrightarrow> prefix (z_emit z ws) (z_close z ws)"
  by (simp add: zstd_ok_def)

lemma zstd_ok_close_nonempty: "zstd_ok z \<Longrightarrow> z_close z ws \<noteq> []"
  by (simp add: zstd_ok_def)

lemma zstd_ok_emit_Nil: "zstd_ok z \<Longrightarrow> z_emit z [] = []"
  by (simp add: zstd_ok_def)

lemma zstd_ok_emit_mono: "zstd_ok z \<Longrightarrow> prefix (z_emit z ws) (z_emit z (ws @ vs))"
proof (induction vs rule: rev_induct)
  case Nil
  then show ?case by simp
next
  case (snoc v vs)
  moreover have "prefix (z_emit z (ws @ vs)) (z_emit z ((ws @ vs) @ [v]))"
    using snoc.prems unfolding zstd_ok_def by blast
  ultimately show ?case by (simp add: prefix_order.trans)
qed

text \<open>
  A codec that satisfies \<open>zstd_ok\<close>, for the witnesses: every byte is sent behind a one and
  the stream ends with a zero.
\<close>

definition plain_emit :: "bytes list \<Rightarrow> bytes" where
  "plain_emit ws = concat (map (\<lambda>b. [1, b]) (concat ws))"

fun plain_read :: "bytes \<Rightarrow> bytes \<times> bool" where
  "plain_read (m # b # r) = (if m = 1 then (case plain_read r of (p, ok) \<Rightarrow> (b # p, ok)) else ([], False))"
| "plain_read [m] = ([], m = 0)"
| "plain_read [] = ([], False)"

definition plain_zstd :: zstd where
  "plain_zstd = \<lparr>z_emit = plain_emit, z_close = (\<lambda>ws. plain_emit ws @ [0]), z_read = plain_read\<rparr>"

lemma plain_read_close: "plain_read (concat (map (\<lambda>b. [1, b]) bs) @ [0]) = (bs, True)"
  by (induction bs) auto

lemma plain_read_prefix:
  "prefix p (concat (map (\<lambda>b. [1, b]) bs) @ [0]) \<Longrightarrow> prefix (fst (plain_read p)) bs"
proof (induction bs arbitrary: p)
  case Nil
  then show ?case by (auto simp: prefix_Cons)
next
  case (Cons b bs)
  show ?case
  proof (cases p rule: plain_read.cases)
    case (1 m c r)
    with Cons.prems have "m = 1" "c = b" "prefix r (concat (map (\<lambda>b. [1, b]) bs) @ [0])" by auto
    with 1 Cons.IH [of r] show ?thesis by (cases "plain_read r") simp
  qed (use Cons.prems in auto)
qed

lemma plain_read_whole:
  "prefix p (concat (map (\<lambda>b. [1, b]) bs) @ [0]) \<Longrightarrow> snd (plain_read p) \<Longrightarrow>
     p = concat (map (\<lambda>b. [1, b]) bs) @ [0]"
proof (induction bs arbitrary: p)
  case Nil
  then show ?case by (auto simp: prefix_Cons)
next
  case (Cons b bs)
  show ?case
  proof (cases p rule: plain_read.cases)
    case (1 m c r)
    with Cons.prems have "m = 1" "c = b" "prefix r (concat (map (\<lambda>b. [1, b]) bs) @ [0])" by auto
    with 1 Cons.IH [of r] Cons.prems(2) show ?thesis by (cases "plain_read r") simp
  qed (use Cons.prems in auto)
qed

lemma zstd_ok_plain: "zstd_ok plain_zstd"
  unfolding zstd_ok_def plain_zstd_def plain_emit_def
  by (simp add: plain_read_close plain_read_prefix plain_read_whole)

subsection \<open>Directories\<close>

record disk_file =
  f_content :: bytes
  f_modified :: nat

type_synonym dir = "(string \<times> disk_file) list"

definition segment_suffix :: string where
  "segment_suffix = ''.seg''"

definition temporary_suffix :: string where
  "temporary_suffix = ''.tmp''"

definition seg_path :: "nat \<Rightarrow> string" where
  "seg_path seq = pad20 (show_nat seq) @ segment_suffix"

definition tmp_path :: "nat \<Rightarrow> string" where
  "tmp_path seq = pad20 (show_nat seq) @ temporary_suffix"

record segment_file =
  sf_seq :: nat
  sf_bytes :: nat
  sf_modified :: nat

datatype io_error = NotFound | InvalidInput | BrokenPipe | Device

text \<open>One directory entry as \<open>list\<close> sees it: names that are not segments are passed over.\<close>

definition list_entry :: "string \<times> disk_file \<Rightarrow> segment_file option" where
  "list_entry e =
     (case strip_suffix (fst e) segment_suffix of
        None \<Rightarrow> None
      | Some digits \<Rightarrow>
          (case parse_u64 digits of
             None \<Rightarrow> None
           | Some seq \<Rightarrow> Some \<lparr>sf_seq = seq, sf_bytes = length (f_content (snd e)),
                              sf_modified = f_modified (snd e)\<rparr>))"

definition seg_list :: "dir \<Rightarrow> segment_file list" where
  "seg_list d = sort_key sf_seq (List.map_filter list_entry d)"

definition sweep_temporaries :: "dir \<Rightarrow> dir" where
  "sweep_temporaries d = filter (\<lambda>e. strip_suffix (fst e) temporary_suffix = None) d"

definition seg_exists :: "dir \<Rightarrow> nat \<Rightarrow> bool" where
  "seg_exists d seq \<longleftrightarrow> map_of d (seg_path seq) \<noteq> None"

text \<open>A sealed segment is the wire body byte for byte; an empty file is an empty body.\<close>

definition map_whole :: "dir \<Rightarrow> nat \<Rightarrow> io_error + bytes" where
  "map_whole d seq = (case map_of d (seg_path seq) of None \<Rightarrow> Inl NotFound | Some f \<Rightarrow> Inr (f_content f))"

subsection \<open>The open segment\<close>

text \<open>
  The writer is one stream over one file; \<open>None\<close> is the \<open>Option\<close> that \<open>finish\<close> takes the
  stream out of. What the stream has counted as written is what the file holds.
\<close>

record segment_writer =
  sw_seq :: nat
  sw_writes :: "bytes list option"

record faults =
  ft_write :: "nat \<Rightarrow> bool"
  ft_finish :: "signal \<Rightarrow> bool"
  ft_create :: "signal \<Rightarrow> bool"
  ft_unlink :: "signal \<Rightarrow> nat \<Rightarrow> bool"

definition no_faults :: faults where
  "no_faults = \<lparr>ft_write = (\<lambda>_. False), ft_finish = (\<lambda>_. False), ft_create = (\<lambda>_. False),
               ft_unlink = (\<lambda>_ _. False)\<rparr>"

text \<open>What one call runs under: the compressor, the two clocks it reads and the device.\<close>

record env =
  e_zstd :: zstd
  e_instant :: nat
  e_wall :: nat
  e_faults :: faults

definition sw_written :: "zstd \<Rightarrow> segment_writer \<Rightarrow> nat" where
  "sw_written z w = (case sw_writes w of None \<Rightarrow> 0 | Some ws \<Rightarrow> length (z_emit z ws))"

definition sw_reusing :: "env \<Rightarrow> signal \<Rightarrow> nat \<Rightarrow> dir \<Rightarrow> (io_error + segment_writer) \<times> dir" where
  "sw_reusing env sg seq d =
     (if ft_create (e_faults env) sg then (Inl Device, d)
      else (Inr \<lparr>sw_seq = seq, sw_writes = Some []\<rparr>,
            AList.update (seg_path seq) \<lparr>f_content = [], f_modified = e_wall env\<rparr> d))"

text \<open>
  The \<open>k\<close>-th write of an operation. A write the device refuses takes nothing of its chunk;
  the file is touched only when the encoder hands something on.
\<close>

definition sw_write_all ::
    "env \<Rightarrow> nat \<Rightarrow> bytes \<Rightarrow> dir \<times> segment_writer \<Rightarrow> (io_error + unit) \<times> dir \<times> segment_writer" where
  "sw_write_all env k plain s =
     (case s of (d, w) \<Rightarrow>
        case sw_writes w of
          None \<Rightarrow> (Inl BrokenPipe, d, w)
        | Some ws \<Rightarrow>
            if ft_write (e_faults env) k then (Inl Device, d, w)
            else
              (let z = e_zstd env; ws' = ws @ [plain];
                   d' = (if z_emit z ws' = z_emit z ws then d
                         else AList.update (seg_path (sw_seq w))
                                \<lparr>f_content = z_emit z ws', f_modified = e_wall env\<rparr> d)
               in (Inr (), d', w\<lparr>sw_writes := Some ws'\<rparr>)))"

definition sw_finish ::
    "env \<Rightarrow> signal \<Rightarrow> dir \<times> segment_writer \<Rightarrow> (io_error + nat) \<times> dir \<times> segment_writer" where
  "sw_finish env sg s =
     (case s of (d, w) \<Rightarrow>
        case sw_writes w of
          None \<Rightarrow> (Inl BrokenPipe, d, w)
        | Some ws \<Rightarrow>
            if ft_finish (e_faults env) sg then (Inl Device, d, w\<lparr>sw_writes := None\<rparr>)
            else
              (let c = z_close (e_zstd env) ws
               in (Inr (length c),
                   AList.update (seg_path (sw_seq w)) \<lparr>f_content = c, f_modified = e_wall env\<rparr> d,
                   w\<lparr>sw_writes := None\<rparr>)))"

definition seg_remove :: "env \<Rightarrow> signal \<Rightarrow> nat \<Rightarrow> dir \<Rightarrow> (io_error + unit) \<times> dir" where
  "seg_remove env sg seq d =
     (if ft_unlink (e_faults env) sg seq then (Inl Device, d)
      else if seg_exists d seq then (Inr (), AList.delete (seg_path seq) d)
      else (Inl NotFound, d))"

subsection \<open>Closing a segment a crash left open\<close>

text \<open>
  \<open>rewrite\<close> writes the replacement beside the segment and renames it over it. The
  directories it passes through are what a crash can leave.
\<close>

definition rewrite_steps :: "zstd \<Rightarrow> nat \<Rightarrow> nat \<Rightarrow> bytes \<Rightarrow> dir \<Rightarrow> dir list" where
  "rewrite_steps z wall seq plain d =
     (let c = z_close z [plain];
          d1 = AList.update (tmp_path seq) \<lparr>f_content = [], f_modified = wall\<rparr> d;
          d2 = AList.update (tmp_path seq) \<lparr>f_content = c, f_modified = wall\<rparr> d1;
          d3 = AList.delete (tmp_path seq)
                 (AList.update (seg_path seq) \<lparr>f_content = c, f_modified = wall\<rparr> d2)
      in [d1, d2, d3])"

definition rewrite :: "zstd \<Rightarrow> nat \<Rightarrow> nat \<Rightarrow> bytes \<Rightarrow> dir \<Rightarrow> nat \<times> dir" where
  "rewrite z wall seq plain d = (length (z_close z [plain]), last (rewrite_steps z wall seq plain d))"

definition reseal :: "zstd \<Rightarrow> nat \<Rightarrow> nat \<Rightarrow> dir \<Rightarrow> (io_error + nat option) \<times> dir" where
  "reseal z wall seq d =
     (case map_of d (seg_path seq) of
        None \<Rightarrow> (Inl NotFound, d)
      | Some f \<Rightarrow>
          (let bytes = length (f_content f) in
           if bytes = 0 then (Inr None, AList.delete (seg_path seq) d)
           else
             (let (plain, whole) = z_read z (f_content f);
                  kept = whole_records_len plain
              in if whole \<and> kept = length plain then (Inr (Some bytes), d)
                 else
                   (let plain' = take kept plain in
                    if plain' = [] then (Inr None, AList.delete (seg_path seq) d)
                    else (case rewrite z wall seq plain' d of (n, d') \<Rightarrow> (Inr (Some n), d'))))))"

subsection \<open>Names\<close>

lemma seg_path_inj_iff [simp]: "seg_path a = seg_path b \<longleftrightarrow> a = b"
  by (auto simp: seg_path_def dest: pad20_show_nat_inj)

lemma seg_path_neq_tmp [simp]: "seg_path a \<noteq> tmp_path b" "tmp_path b \<noteq> seg_path a"
proof -
  have "last (seg_path a) \<noteq> last (tmp_path b)"
    by (simp add: seg_path_def tmp_path_def segment_suffix_def temporary_suffix_def)
  then show "seg_path a \<noteq> tmp_path b" and "tmp_path b \<noteq> seg_path a" by metis+
qed

lemma list_entry_seg_path:
  "seq \<le> u64_max \<Longrightarrow>
     list_entry (seg_path seq, f) = Some \<lparr>sf_seq = seq, sf_bytes = length (f_content f), sf_modified = f_modified f\<rparr>"
  by (simp add: list_entry_def seg_path_def parse_u64_pad20)

lemma strip_seg_path_tmp: "strip_suffix (seg_path seq) temporary_suffix = None"
proof (rule ccontr)
  assume "strip_suffix (seg_path seq) temporary_suffix \<noteq> None"
  then obtain ys where "seg_path seq = ys @ temporary_suffix" using strip_suffix_Some by blast
  then show False by (simp add: seg_path_def segment_suffix_def temporary_suffix_def)
qed

lemma strip_tmp_path_tmp: "strip_suffix (tmp_path seq) temporary_suffix \<noteq> None"
  by (simp add: tmp_path_def)

subsection \<open>What the operations do to the directory\<close>

lemma map_of_sweep_seg [simp]: "map_of (sweep_temporaries d) (seg_path seq) = map_of d (seg_path seq)"
  by (induction d) (auto simp: sweep_temporaries_def strip_seg_path_tmp)

lemma map_of_rewrite:
  "map_of (snd (rewrite z wall seq plain d)) (seg_path seq)
     = Some \<lparr>f_content = z_close z [plain], f_modified = wall\<rparr>"
  by (simp add: rewrite_def rewrite_steps_def Let_def update_conv' delete_conv')

lemma sweep_update_tmp: "sweep_temporaries (AList.update (tmp_path seq) f d) = sweep_temporaries d"
  by (induction d) (auto simp: sweep_temporaries_def tmp_path_def)

text \<open>
  What is left of an interrupted stream is a list of whole records: those in front of the
  cut, in order.
\<close>

lemma reseal_plain:
  assumes z: "zstd_ok z" and p: "prefix content (z_close z ws)" and ws: "concat ws = framed rs"
    and rs: "list_all wire_sized rs" and rd: "z_read z content = (plain, whole)"
  obtains k where "k \<le> length rs" and "take (whole_records_len plain) plain = framed (take k rs)"
    and "\<And>j. j \<le> length rs \<Longrightarrow> length (framed (take j rs)) \<le> length plain \<Longrightarrow> j \<le> k"
proof -
  have "prefix plain (framed rs)"
    using zstd_ok_read_prefix [OF z p] rd ws by simp
  then show thesis using rs whole_records_of_prefix that by metis
qed

end
