(* ===== verification/Identity.thy ===== *)
theory Identity
  imports Prelude
begin

text \<open>
  Who a collecty is: \<open>collecty/src/queue/identity.rs\<close> (the identity file and the
  hexadecimal form the sender puts in a header) and \<open>SenderId::parse\<close> of
  \<open>signy/src/journal/marks.rs\<close>, which reads that header. The checksum of \<open>crc32fast\<close> is
  a parameter.
\<close>

definition sender_id_bytes :: nat where
  "sender_id_bytes = 16"

definition identity_bytes :: nat where
  "identity_bytes = sender_id_bytes + 4"

type_synonym sender_id = bytes

definition is_sender_id :: "sender_id \<Rightarrow> bool" where
  "is_sender_id s \<longleftrightarrow> length s = sender_id_bytes"

subsection \<open>The identity file\<close>

text \<open>
  \<open>None\<close> is a file that is not there. A file of the wrong length or with a checksum that
  does not match is no identity.
\<close>

definition identity_load :: "(bytes \<Rightarrow> u32) \<Rightarrow> bytes option \<Rightarrow> sender_id option" where
  "identity_load crc file' =
     (case file' of
        None \<Rightarrow> None
      | Some bytes \<Rightarrow>
          if length bytes \<noteq> identity_bytes then None
          else (let stored = word_of_nat (nat_of_le (drop sender_id_bytes bytes)) :: u32
                in if crc (take sender_id_bytes bytes) \<noteq> stored then None
                   else Some (take sender_id_bytes bytes)))"

definition identity_store :: "(bytes \<Rightarrow> u32) \<Rightarrow> sender_id \<Rightarrow> bytes" where
  "identity_store crc sender = sender @ le_nat 4 (unat (crc sender))"

text \<open>
  \<open>Queue::open\<close> keeps an identity it can read and replaces one it cannot by a fresh one;
  the second component is what the file holds afterwards.
\<close>

definition identity_open :: "(bytes \<Rightarrow> u32) \<Rightarrow> sender_id \<Rightarrow> bytes option \<Rightarrow> sender_id \<times> bytes option" where
  "identity_open crc fresh file' =
     (case identity_load crc file' of
        Some sender \<Rightarrow> (sender, file')
      | None \<Rightarrow> (fresh, Some (identity_store crc fresh)))"

lemma identity_load_store:
  assumes "is_sender_id s"
  shows "identity_load crc (Some (identity_store crc s)) = Some s"
  using assms word_of_nat_nat_of_le_le_nat(1) [of "crc s"]
  by (simp add: identity_load_def identity_store_def is_sender_id_def identity_bytes_def)

lemma identity_load_length: "identity_load crc f = Some s \<Longrightarrow> is_sender_id s"
  by (auto simp: identity_load_def is_sender_id_def identity_bytes_def Let_def
      split: option.splits if_splits)

text \<open>Reopening never changes a name that was once adopted.\<close>

lemma identity_open_again:
  assumes "is_sender_id fresh" and "identity_open crc fresh f = (s, f')"
  shows "identity_open crc fresh' f' = (s, f')"
  using assms identity_load_store [of fresh crc]
  by (auto simp: identity_open_def split: option.splits)

subsection \<open>The header\<close>

definition hex_digit :: "nat \<Rightarrow> char" where
  "hex_digit d = (if d < 10 then char_of (48 + d) else char_of (87 + d))"

definition hex_val :: "char \<Rightarrow> nat option" where
  "hex_val c =
     (let n = of_char c :: nat in
      if 48 \<le> n \<and> n \<le> 57 then Some (n - 48)
      else if 97 \<le> n \<and> n \<le> 102 then Some (n - 87)
      else if 65 \<le> n \<and> n \<le> 70 then Some (n - 55) else None)"

definition hex_byte :: "u8 \<Rightarrow> string" where
  "hex_byte b = [hex_digit (unat b div 16), hex_digit (unat b mod 16)]"

text \<open>\<open>Display\<close>: two lower-case digits a byte.\<close>

definition sender_display :: "sender_id \<Rightarrow> string" where
  "sender_display s = concat (map hex_byte s)"

text \<open>\<open>u8::from_str_radix(_, 16)\<close> on two characters; a leading \<open>+\<close> is a sign.\<close>

fun byte_from_hex :: "string \<Rightarrow> u8 option" where
  "byte_from_hex [a, b] =
     (if a = CHR ''+'' then map_option word_of_nat (hex_val b)
      else case (hex_val a, hex_val b) of
             (Some x, Some y) \<Rightarrow> Some (word_of_nat (16 * x + y))
           | _ \<Rightarrow> None)"
| "byte_from_hex _ = None"

fun bytes_from_hex :: "string \<Rightarrow> bytes option" where
  "bytes_from_hex [] = Some []"
| "bytes_from_hex [a] = None"
| "bytes_from_hex (a # b # s) =
     (case byte_from_hex [a, b] of
        None \<Rightarrow> None
      | Some x \<Rightarrow> (case bytes_from_hex s of None \<Rightarrow> None | Some xs \<Rightarrow> Some (x # xs)))"

definition sender_parse :: "string \<Rightarrow> sender_id option" where
  "sender_parse hex = (if length hex \<noteq> sender_id_bytes * 2 then None else bytes_from_hex hex)"

lemma hex_val_digit [simp]: "d < 16 \<Longrightarrow> hex_val (hex_digit d) = Some d"
  by (auto simp: hex_val_def hex_digit_def of_char_of Let_def)

lemma hex_digit_plus [simp]: "d < 16 \<Longrightarrow> hex_digit d \<noteq> CHR ''+''"
  using hex_val_digit [of d] by (auto simp: hex_val_def)

lemma byte_from_hex_byte: "byte_from_hex (hex_byte b) = Some b"
proof -
  have "unat b div 16 < 16" and "unat b mod 16 < 16"
    using unat_u8_lt [of b] by simp_all
  then show ?thesis by (simp add: hex_byte_def)
qed

lemma bytes_from_hex_display: "bytes_from_hex (sender_display s) = Some s"
proof (induction s)
  case Nil
  then show ?case by (simp add: sender_display_def)
next
  case (Cons b s)
  have "hex_byte b = [hex_digit (unat b div 16), hex_digit (unat b mod 16)]"
    by (simp add: hex_byte_def)
  with Cons byte_from_hex_byte [of b] show ?case
    by (simp add: sender_display_def del: byte_from_hex.simps)
qed

lemma length_sender_display: "length (sender_display s) = 2 * length s"
  by (induction s) (auto simp: sender_display_def hex_byte_def)

lemma sender_parse_display: "is_sender_id s \<Longrightarrow> sender_parse (sender_display s) = Some s"
  by (simp add: sender_parse_def bytes_from_hex_display length_sender_display is_sender_id_def)

lemma bytes_from_hex_length: "bytes_from_hex h = Some s \<Longrightarrow> length h = 2 * length s"
  by (induction h arbitrary: s rule: bytes_from_hex.induct)
    (auto simp del: byte_from_hex.simps split: option.splits)

lemma sender_parse_length: "sender_parse h = Some s \<Longrightarrow> is_sender_id s"
  by (auto simp: sender_parse_def is_sender_id_def split: if_splits dest: bytes_from_hex_length)

end
