(* ===== verification/DiskQueue.thy ===== *)
theory DiskQueue
  imports Segment Identity
begin

text \<open>
  \<open>collecty/src/queue/mod.rs\<close>: the disk queue, one stream of segments per signal. Every
  method is an operation on the whole queue under its lock; an operation that returns an
  error returns the queue it leaves behind. \<open>make_room\<close>, the loop of \<open>write_record\<close>
  that drops segments until the record fits, has no bound of its own in the source, so
  it is a partial function: \<open>None\<close> is a loop that never ends.
\<close>

subsection \<open>State\<close>

record queue_limits =
  max_bytes :: nat
  max_segment_bytes :: nat
  max_segment_age :: nat

record queue_stats =
  queued_bytes :: nat
  appended_records :: nat
  appended_bytes :: nat
  dropped_bytes :: nat
  dropped_segments :: nat

record held =
  h_seq :: nat
  h_bytes :: nat
  h_stamp :: nat

record signal_queue =
  sq_segments :: "held list"
  sq_active :: segment_writer
  sq_since :: "nat option"

record queue =
  q_dirs :: "signal \<Rightarrow> dir"
  q_sender :: sender_id
  q_limits :: queue_limits
  q_signals :: "signal \<Rightarrow> signal_queue"
  q_stamped :: nat
  q_stats :: queue_stats
  q_wakes :: nat

record sealed_segment =
  ss_signal :: signal
  ss_seq :: nat
  ss_body :: bytes

definition default_limits :: queue_limits where
  "default_limits = \<lparr>max_bytes = 1024 * 1024 * 1024, max_segment_bytes = 8 * 1024 * 1024,
                    max_segment_age = 1000000000\<rparr>"

definition first_segment :: nat where
  "first_segment = 1"

definition set_dir :: "signal \<Rightarrow> dir \<Rightarrow> queue \<Rightarrow> queue" where
  "set_dir sg d q = q\<lparr>q_dirs := (q_dirs q)(sg := d)\<rparr>"

definition set_signal :: "signal \<Rightarrow> signal_queue \<Rightarrow> queue \<Rightarrow> queue" where
  "set_signal sg sq q = q\<lparr>q_signals := (q_signals q)(sg := sq)\<rparr>"

subsection \<open>The oldest closed segment\<close>

text \<open>
  The open segment is always the back one, so a single held segment is the one still
  being written. Of the fronts of the three signals the one with the least stamp wins,
  the first of equals.
\<close>

definition sealed_front :: "queue \<Rightarrow> signal \<Rightarrow> (nat \<times> signal \<times> nat) option" where
  "sealed_front q sg =
     (case sq_segments (q_signals q sg) of
        [] \<Rightarrow> None
      | front # rest \<Rightarrow> if rest \<noteq> [] then Some (h_stamp front, sg, h_seq front) else None)"

fun min_by_stamp :: "(nat \<times> 'a) list \<Rightarrow> (nat \<times> 'a) option" where
  "min_by_stamp [] = None"
| "min_by_stamp (x # xs) =
     (case min_by_stamp xs of None \<Rightarrow> Some x | Some y \<Rightarrow> if fst x \<le> fst y then Some x else Some y)"

definition oldest_sealed :: "queue \<Rightarrow> (signal \<times> nat) option" where
  "oldest_sealed q = map_option snd (min_by_stamp (List.map_filter (sealed_front q) all_signals))"

definition has_sealed :: "queue \<Rightarrow> bool" where
  "has_sealed q \<longleftrightarrow> oldest_sealed q \<noteq> None"

subsection \<open>Closing, dropping, sealing\<close>

definition roll :: "env \<Rightarrow> signal \<Rightarrow> (queue, io_error, unit) op" where
  "roll env sg q =
     (let sq = q_signals q sg in
      if sq_since sq = None then (Inr (), q)
      else
        (let stamp = q_stamped q + 1;
             q1 = q\<lparr>q_stamped := stamp\<rparr>;
             back = last (sq_segments sq);
             next_seq = h_seq back + 1
         in
         case sw_finish env sg (q_dirs q sg, sq_active sq) of
           (Inl e, d, w) \<Rightarrow> (Inl e, set_signal sg (sq\<lparr>sq_active := w\<rparr>) (set_dir sg d q1))
         | (Inr n, d, w) \<Rightarrow>
             (let grew = n - h_bytes back;
                  segs = butlast (sq_segments sq) @ [back\<lparr>h_bytes := n, h_stamp := stamp\<rparr>]
              in
              case sw_reusing env sg next_seq d of
                (Inl e, d') \<Rightarrow>
                  (Inl e, set_signal sg (sq\<lparr>sq_segments := segs, sq_active := w\<rparr>) (set_dir sg d' q1))
              | (Inr w', d') \<Rightarrow>
                  (Inr (),
                   (set_signal sg \<lparr>sq_segments = segs @ [\<lparr>h_seq = next_seq, h_bytes = 0, h_stamp = 0\<rparr>],
                                  sq_active = w', sq_since = None\<rparr> (set_dir sg d' q1))
                     \<lparr>q_stats := (q_stats q)\<lparr>queued_bytes := queued_bytes (q_stats q) + grew\<rparr>,
                      q_wakes := q_wakes q + 1\<rparr>))))"

definition drop_oldest :: "env \<Rightarrow> (queue, io_error, unit) op" where
  "drop_oldest env q =
     (case (if oldest_sealed q = None then op_each (roll env) all_signals q else (Inr (), q)) of
        (Inl e, q1) \<Rightarrow> (Inl e, q1)
      | (Inr _, q1) \<Rightarrow>
          (case oldest_sealed q1 of
             None \<Rightarrow> (Inr (), q1)
           | Some (sg, _) \<Rightarrow>
               (let sq = q_signals q1 sg;
                    held = hd (sq_segments sq);
                    q2 = set_signal sg (sq\<lparr>sq_segments := tl (sq_segments sq)\<rparr>) q1
                in
                case seg_remove env sg (h_seq held) (q_dirs q2 sg) of
                  (Inl e, d) \<Rightarrow> (Inl e, set_dir sg d q2)
                | (Inr _, d) \<Rightarrow>
                    (Inr (),
                     (set_dir sg d q2)\<lparr>q_stats := (q_stats q2)
                        \<lparr>queued_bytes := queued_bytes (q_stats q2) - h_bytes held,
                         dropped_bytes := dropped_bytes (q_stats q2) + h_bytes held,
                         dropped_segments := dropped_segments (q_stats q2) + 1\<rparr>\<rparr>))))"

definition roll_if_due :: "env \<Rightarrow> signal \<Rightarrow> (queue, io_error, unit) op" where
  "roll_if_due env sg q =
     (case sq_since (q_signals q sg) of
        None \<Rightarrow> (Inr (), q)
      | Some since \<Rightarrow>
          if e_instant env - since \<ge> max_segment_age (q_limits q) then roll env sg q else (Inr (), q))"

definition seal_if_due :: "env \<Rightarrow> (queue, io_error, unit) op" where
  "seal_if_due env q = op_each (roll_if_due env) all_signals q"

definition seal :: "env \<Rightarrow> (queue, io_error, unit) op" where
  "seal env q = op_each (roll env) all_signals q"

subsection \<open>Appending\<close>

partial_function (option) make_room :: "env \<Rightarrow> nat \<Rightarrow> queue \<Rightarrow> ((io_error + unit) \<times> queue) option" where
  "make_room env plain_len q =
     (if queued_bytes (q_stats q) + plain_len > max_bytes (q_limits q) then
        (case drop_oldest env q of
           (Inl e, q') \<Rightarrow> Some (Inl e, q')
         | (Inr _, q') \<Rightarrow> make_room env plain_len q')
      else Some (Inr (), q))"

text \<open>The writes of one record: its length and then its chunks, one after the other.\<close>

fun write_pieces ::
    "env \<Rightarrow> nat \<Rightarrow> bytes list \<Rightarrow> dir \<times> segment_writer \<Rightarrow> (io_error + unit) \<times> dir \<times> segment_writer" where
  "write_pieces env k [] s = (Inr (), s)"
| "write_pieces env k (c # cs) s =
     (case sw_write_all env k c s of
        (Inl e, s') \<Rightarrow> (Inl e, s')
      | (Inr _, s') \<Rightarrow> write_pieces env (Suc k) cs s')"

definition write_into :: "env \<Rightarrow> signal \<Rightarrow> nat \<Rightarrow> bytes list \<Rightarrow> (queue, io_error, unit) op" where
  "write_into env sg nbytes chunks q =
     (let sq = q_signals q sg in
      case write_pieces env 0 (le_nat 4 nbytes # chunks) (q_dirs q sg, sq_active sq) of
        (Inl e, d, w) \<Rightarrow> (Inl e, set_signal sg (sq\<lparr>sq_active := w\<rparr>) (set_dir sg d q))
      | (Inr _, d, w) \<Rightarrow>
          (let since = (case sq_since sq of None \<Rightarrow> Some (e_instant env) | Some t \<Rightarrow> Some t);
               written = sw_written (e_zstd env) w;
               back = last (sq_segments sq);
               grew = written - h_bytes back;
               segs = butlast (sq_segments sq) @ [back\<lparr>h_bytes := written\<rparr>];
               st = q_stats q
           in
           (Inr (),
            (set_signal sg \<lparr>sq_segments = segs, sq_active = w, sq_since = since\<rparr> (set_dir sg d q))
              \<lparr>q_stats := st\<lparr>queued_bytes := queued_bytes st + grew,
                           appended_records := appended_records st + 1,
                           appended_bytes := appended_bytes st + (record_header_bytes + nbytes)\<rparr>,
               q_wakes := q_wakes q + 1\<rparr>)))"

definition write_record ::
    "env \<Rightarrow> signal \<Rightarrow> nat \<Rightarrow> bytes list \<Rightarrow> queue \<Rightarrow> ((io_error + unit) \<times> queue) option" where
  "write_record env sg nbytes chunks q =
     (let plain_len = record_header_bytes + nbytes in
      if plain_len > max_bytes (q_limits q) then Some (Inl InvalidInput, q)
      else
        (case make_room env plain_len q of
           None \<Rightarrow> None
         | Some (Inl e, q1) \<Rightarrow> Some (Inl e, q1)
         | Some (Inr _, q1) \<Rightarrow>
             Some (op_then
               (\<lambda>q. if sw_written (e_zstd env) (sq_active (q_signals q sg)) \<ge> max_segment_bytes (q_limits q)
                    then roll env sg q else (Inr (), q))
               (\<lambda>_. write_into env sg nbytes chunks) q1)))"

definition queue_append :: "env \<Rightarrow> signal \<Rightarrow> bytes \<Rightarrow> queue \<Rightarrow> ((io_error + unit) \<times> queue) option" where
  "queue_append env sg payload q = write_record env sg (length payload) [payload] q"

definition append_chunks :: "env \<Rightarrow> signal \<Rightarrow> bytes list \<Rightarrow> queue \<Rightarrow> ((io_error + unit) \<times> queue) option" where
  "append_chunks env sg chunks q = write_record env sg (sum_list (map length chunks)) chunks q"

subsection \<open>Sending and retiring\<close>

definition read_segment :: "queue \<Rightarrow> signal \<Rightarrow> nat \<Rightarrow> io_error + sealed_segment" where
  "read_segment q sg seq =
     (case map_whole (q_dirs q sg) seq of
        Inl e \<Rightarrow> Inl e
      | Inr body \<Rightarrow> Inr \<lparr>ss_signal = sg, ss_seq = seq, ss_body = body\<rparr>)"

fun commit_loop ::
    "env \<Rightarrow> signal \<Rightarrow> nat \<Rightarrow> nat \<Rightarrow> held list \<Rightarrow> dir \<Rightarrow> nat \<Rightarrow> (io_error + nat) \<times> held list \<times> dir" where
  "commit_loop env sg acked active [] d freed = (Inr freed, [], d)"
| "commit_loop env sg acked active (front # rest) d freed =
     (if h_seq front > acked \<or> h_seq front = active then (Inr freed, front # rest, d)
      else
        (case seg_remove env sg (h_seq front) d of
           (Inl e, d') \<Rightarrow> (Inl e, rest, d')
         | (Inr _, d') \<Rightarrow> commit_loop env sg acked active rest d' (freed + h_bytes front)))"

definition commit :: "env \<Rightarrow> signal \<Rightarrow> nat \<Rightarrow> (queue, io_error, unit) op" where
  "commit env sg acked q =
     (let sq = q_signals q sg;
          active = h_seq (last (sq_segments sq))
      in
      case commit_loop env sg acked active (sq_segments sq) (q_dirs q sg) 0 of
        (Inl e, segs, d) \<Rightarrow> (Inl e, set_signal sg (sq\<lparr>sq_segments := segs\<rparr>) (set_dir sg d q))
      | (Inr freed, segs, d) \<Rightarrow>
          (Inr (),
           (set_signal sg (sq\<lparr>sq_segments := segs\<rparr>) (set_dir sg d q))
             \<lparr>q_stats := (q_stats q)\<lparr>queued_bytes := queued_bytes (q_stats q) - freed\<rparr>\<rparr>))"

definition stats_segments :: "queue \<Rightarrow> nat" where
  "stats_segments q = sum_list (map (\<lambda>sg. length (sq_segments (q_signals q sg))) all_signals)"

subsection \<open>Opening\<close>

text \<open>
  One signal's directory at start: what is left of an interrupted rewrite is swept, the
  segments are listed, the next number is taken from the highest there before recovery
  runs, and the last segment, the only one a crash can have left open, is resealed.
\<close>

definition recover_signal ::
    "zstd \<Rightarrow> nat \<Rightarrow> dir \<Rightarrow> io_error + (segment_file list \<times> nat \<times> dir)" where
  "recover_signal z wall d =
     (let d1 = sweep_temporaries d;
          files = seg_list d1;
          next_seq = (if files = [] then first_segment else sf_seq (last files) + 1)
      in
      if files = [] then Inr ([], next_seq, d1)
      else
        (let final = last files; others = butlast files in
         case reseal z wall (sf_seq final) d1 of
           (Inl e, _) \<Rightarrow> Inl e
         | (Inr (Some n), d2) \<Rightarrow> Inr (others @ [final\<lparr>sf_bytes := n\<rparr>], next_seq, d2)
         | (Inr None, d2) \<Rightarrow> Inr (others, next_seq, d2)))"

fun recover_all ::
    "zstd \<Rightarrow> nat \<Rightarrow> (signal \<Rightarrow> dir) \<Rightarrow> signal list \<Rightarrow>
       io_error + (signal \<times> segment_file list \<times> nat \<times> dir) list" where
  "recover_all z wall dirs [] = Inr []"
| "recover_all z wall dirs (sg # sgs) =
     (case recover_signal z wall (dirs sg) of
        Inl e \<Rightarrow> Inl e
      | Inr (files, next_seq, d) \<Rightarrow>
          (case recover_all z wall dirs sgs of
             Inl e \<Rightarrow> Inl e
           | Inr rest \<Rightarrow> Inr ((sg, files, next_seq, d) # rest)))"

text \<open>
  The order the signals closed their segments in, read back off the files' timestamps;
  the position in this order is the stamp.
\<close>

definition recovered_order ::
    "(signal \<times> segment_file list \<times> nat \<times> dir) list \<Rightarrow> (signal \<times> segment_file) list" where
  "recovered_order rec =
     sort_key (\<lambda>(sg, f). (sf_modified f, signal_index sg, sf_seq f))
       (concat (map (\<lambda>(sg, files, _, _). map (\<lambda>f. (sg, f)) files) rec))"

definition stamped_segments :: "(signal \<times> segment_file) list \<Rightarrow> signal \<Rightarrow> held list" where
  "stamped_segments order sg =
     map (\<lambda>(i, _, f). \<lparr>h_seq = sf_seq f, h_bytes = sf_bytes f, h_stamp = i\<rparr>)
       (filter (\<lambda>(_, s, _). s = sg) (zip [1 ..< length order + 1] order))"

definition recovered_entry ::
    "(signal \<times> segment_file list \<times> nat \<times> dir) list \<Rightarrow> signal \<Rightarrow> segment_file list \<times> nat \<times> dir" where
  "recovered_entry rec sg = the (map_of rec sg)"

definition queue_open ::
    "zstd \<Rightarrow> nat \<Rightarrow> sender_id \<Rightarrow> queue_limits \<Rightarrow> (signal \<Rightarrow> dir) \<Rightarrow> io_error + queue" where
  "queue_open z wall sender limits dirs =
     (case recover_all z wall dirs all_signals of
        Inl e \<Rightarrow> Inl e
      | Inr rec \<Rightarrow>
          (let order = recovered_order rec;
               next_of = (\<lambda>sg. fst (snd (recovered_entry rec sg)));
               dir_of = (\<lambda>sg. snd (snd (recovered_entry rec sg)))
           in
           Inr \<lparr>q_dirs = (\<lambda>sg. AList.update (seg_path (next_of sg))
                                   \<lparr>f_content = [], f_modified = wall\<rparr> (dir_of sg)),
                q_sender = sender,
                q_limits = limits,
                q_signals = (\<lambda>sg. \<lparr>sq_segments = stamped_segments order sg
                                        @ [\<lparr>h_seq = next_of sg, h_bytes = 0, h_stamp = 0\<rparr>],
                                   sq_active = \<lparr>sw_seq = next_of sg, sw_writes = Some []\<rparr>,
                                   sq_since = None\<rparr>),
                q_stamped = length order,
                q_stats = \<lparr>queued_bytes = sum_list (map (\<lambda>(_, f). sf_bytes f) order),
                           appended_records = 0, appended_bytes = 0, dropped_bytes = 0,
                           dropped_segments = 0\<rparr>,
                q_wakes = 0\<rparr>))"

end
