(* ===== verification/QueueInv.thy ===== *)
theory QueueInv
  imports DiskQueue
begin

text \<open>
  What the disk queue keeps, and the queue it promises to be: per signal a list of closed
  segments, each a number and its records, and an open list of records. \<open>queue_abs\<close> reads
  that off the directories and the stream, and every operation of \<open>DiskQueue\<close> is, on a
  device that does not fail, the operation of the same name on the abstract queue.
\<close>

named_theorems queue_defs \<open>state updates of the disk queue\<close>

declare set_dir_def [queue_defs] set_signal_def [queue_defs]

subsection \<open>The invariant\<close>

definition file_content :: "dir \<Rightarrow> nat \<Rightarrow> bytes" where
  "file_content d seq = (case map_of d (seg_path seq) of None \<Rightarrow> [] | Some f \<Rightarrow> f_content f)"

text \<open>The writes of a stream are the text of some records.\<close>

definition writes_records :: "bytes list \<Rightarrow> bytes list \<Rightarrow> bool" where
  "writes_records ws rs \<longleftrightarrow>
     concat ws = framed rs \<and> list_all wire_sized rs \<and> (ws = [] \<longleftrightarrow> rs = [])"

definition sealed_ok :: "zstd \<Rightarrow> dir \<Rightarrow> held \<Rightarrow> bool" where
  "sealed_ok z d h \<longleftrightarrow>
     (\<exists>ws rs. seg_exists d (h_seq h) \<and> file_content d (h_seq h) = z_close z ws \<and>
        h_bytes h = length (z_close z ws) \<and> writes_records ws rs \<and> rs \<noteq> [])"

definition open_ok :: "zstd \<Rightarrow> dir \<Rightarrow> signal_queue \<Rightarrow> bool" where
  "open_ok z d sq \<longleftrightarrow>
     (\<exists>ws rs. sw_writes (sq_active sq) = Some ws \<and> sw_seq (sq_active sq) = h_seq (last (sq_segments sq)) \<and>
        seg_exists d (sw_seq (sq_active sq)) \<and>
        file_content d (sw_seq (sq_active sq)) = z_emit z ws \<and>
        h_bytes (last (sq_segments sq)) = length (z_emit z ws) \<and> h_stamp (last (sq_segments sq)) = 0 \<and>
        writes_records ws rs \<and> (sq_since sq = None \<longleftrightarrow> rs = []))"

definition signal_inv :: "zstd \<Rightarrow> dir \<Rightarrow> signal_queue \<Rightarrow> bool" where
  "signal_inv z d sq \<longleftrightarrow>
     sq_segments sq \<noteq> [] \<and> sorted_wrt (<) (map h_seq (sq_segments sq)) \<and>
     (\<forall>h \<in> set (butlast (sq_segments sq)). sealed_ok z d h) \<and> open_ok z d sq"

definition segs_bytes :: "signal_queue \<Rightarrow> nat" where
  "segs_bytes sq = sum_list (map h_bytes (sq_segments sq))"

definition total_bytes :: "queue \<Rightarrow> nat" where
  "total_bytes q = sum_list (map (\<lambda>sg. segs_bytes (q_signals q sg)) all_signals)"

definition sealed_of :: "queue \<Rightarrow> signal \<Rightarrow> held list" where
  "sealed_of q sg = butlast (sq_segments (q_signals q sg))"

text \<open>Stamps place every closed segment among all three signals', and no two share one.\<close>

definition stamps_inv :: "queue \<Rightarrow> bool" where
  "stamps_inv q \<longleftrightarrow>
     (\<forall>sg. sorted_wrt (<) (map h_stamp (sealed_of q sg)) \<and>
           (\<forall>h \<in> set (sealed_of q sg). 1 \<le> h_stamp h \<and> h_stamp h \<le> q_stamped q)) \<and>
     (\<forall>sg sg' h h'. sg \<noteq> sg' \<longrightarrow> h \<in> set (sealed_of q sg) \<longrightarrow> h' \<in> set (sealed_of q sg') \<longrightarrow>
           h_stamp h \<noteq> h_stamp h')"

definition queue_inv :: "zstd \<Rightarrow> queue \<Rightarrow> bool" where
  "queue_inv z q \<longleftrightarrow>
     (\<forall>sg. signal_inv z (q_dirs q sg) (q_signals q sg)) \<and>
     queued_bytes (q_stats q) = total_bytes q \<and> stamps_inv q"

text \<open>An environment whose device does not fail.\<close>

definition quiet :: "zstd \<Rightarrow> env \<Rightarrow> bool" where
  "quiet z env \<longleftrightarrow> zstd_ok z \<and> e_zstd env = z \<and> e_faults env = no_faults"

lemma quiet_simps:
  assumes "quiet z env"
  shows "zstd_ok z" "e_zstd env = z" "ft_write (e_faults env) k = False"
    "ft_finish (e_faults env) sg = False" "ft_create (e_faults env) sg = False"
    "ft_unlink (e_faults env) sg seq = False"
  using assms by (simp_all add: quiet_def no_faults_def)

subsection \<open>The queue it promises to be\<close>

record abs_queue =
  aq_sealed :: "signal \<Rightarrow> (nat \<times> bytes list) list"
  aq_open :: "signal \<Rightarrow> bytes list"
  aq_next :: "signal \<Rightarrow> nat"

definition seg_records :: "zstd \<Rightarrow> bytes \<Rightarrow> bytes list" where
  "seg_records z content =
     (case split_records (fst (z_read z content)) of Inl _ \<Rightarrow> [] | Inr rs \<Rightarrow> rs)"

definition open_records :: "segment_writer \<Rightarrow> bytes list" where
  "open_records w =
     (case sw_writes w of
        None \<Rightarrow> []
      | Some ws \<Rightarrow> (case split_records (concat ws) of Inl _ \<Rightarrow> [] | Inr rs \<Rightarrow> rs))"

definition abs_sealed :: "zstd \<Rightarrow> dir \<Rightarrow> held list \<Rightarrow> (nat \<times> bytes list) list" where
  "abs_sealed z d hs = map (\<lambda>h. (h_seq h, seg_records z (file_content d (h_seq h)))) hs"

definition queue_abs :: "zstd \<Rightarrow> queue \<Rightarrow> abs_queue" where
  "queue_abs z q =
     \<lparr>aq_sealed = (\<lambda>sg. abs_sealed z (q_dirs q sg) (sealed_of q sg)),
      aq_open = (\<lambda>sg. open_records (sq_active (q_signals q sg))),
      aq_next = (\<lambda>sg. h_seq (last (sq_segments (q_signals q sg))))\<rparr>"

definition abs_roll :: "signal \<Rightarrow> abs_queue \<Rightarrow> abs_queue" where
  "abs_roll sg a =
     (if aq_open a sg = [] then a
      else a\<lparr>aq_sealed := (aq_sealed a)(sg := aq_sealed a sg @ [(aq_next a sg, aq_open a sg)]),
             aq_open := (aq_open a)(sg := []),
             aq_next := (aq_next a)(sg := aq_next a sg + 1)\<rparr>)"

definition abs_append :: "signal \<Rightarrow> bytes \<Rightarrow> abs_queue \<Rightarrow> abs_queue" where
  "abs_append sg r a = a\<lparr>aq_open := (aq_open a)(sg := aq_open a sg @ [r])\<rparr>"

definition abs_commit :: "signal \<Rightarrow> nat \<Rightarrow> abs_queue \<Rightarrow> abs_queue" where
  "abs_commit sg acked a =
     a\<lparr>aq_sealed := (aq_sealed a)(sg := dropWhile (\<lambda>s. fst s \<le> acked) (aq_sealed a sg))\<rparr>"

definition abs_drop :: "signal \<Rightarrow> abs_queue \<Rightarrow> abs_queue" where
  "abs_drop sg a = a\<lparr>aq_sealed := (aq_sealed a)(sg := tl (aq_sealed a sg))\<rparr>"

subsection \<open>Reading one signal back\<close>

lemma seg_records_close:
  "zstd_ok z \<Longrightarrow> writes_records ws rs \<Longrightarrow> seg_records z (z_close z ws) = rs"
  by (simp add: seg_records_def zstd_ok_read_close writes_records_def split_records_framed)

lemma open_records_writes:
  "sw_writes w = Some ws \<Longrightarrow> writes_records ws rs \<Longrightarrow> open_records w = rs"
  by (simp add: open_records_def writes_records_def split_records_framed)

lemma file_content_update [simp]:
  "file_content (AList.update (seg_path s) f d) s' = (if s' = s then f_content f else file_content d s')"
  by (simp add: file_content_def update_conv')

lemma seg_exists_update [simp]:
  "seg_exists (AList.update (seg_path s) f d) s' \<longleftrightarrow> s' = s \<or> seg_exists d s'"
  by (auto simp: seg_exists_def update_conv')

lemma file_content_delete [simp]:
  "file_content (AList.delete (seg_path s) d) s' = (if s' = s then [] else file_content d s')"
  by (simp add: file_content_def delete_conv')

lemma seg_exists_delete [simp]:
  "seg_exists (AList.delete (seg_path s) d) s' \<longleftrightarrow> s' \<noteq> s \<and> seg_exists d s'"
  by (auto simp: seg_exists_def delete_conv')

lemma sealed_ok_update:
  "sealed_ok z d h \<Longrightarrow> h_seq h \<noteq> s \<Longrightarrow> sealed_ok z (AList.update (seg_path s) f d) h"
  by (auto simp: sealed_ok_def)

lemma sealed_ok_delete:
  "sealed_ok z d h \<Longrightarrow> h_seq h \<noteq> s \<Longrightarrow> sealed_ok z (AList.delete (seg_path s) d) h"
  by (auto simp: sealed_ok_def)

lemma abs_sealed_update:
  "(\<And>h. h \<in> set hs \<Longrightarrow> h_seq h \<noteq> s) \<Longrightarrow> abs_sealed z (AList.update (seg_path s) f d) hs = abs_sealed z d hs"
  by (simp add: abs_sealed_def)

lemma abs_sealed_delete:
  "(\<And>h. h \<in> set hs \<Longrightarrow> h_seq h \<noteq> s) \<Longrightarrow> abs_sealed z (AList.delete (seg_path s) d) hs = abs_sealed z d hs"
  by (simp add: abs_sealed_def)

lemma signal_inv_seqs:
  assumes "signal_inv z d sq" and "h \<in> set (butlast (sq_segments sq))"
  shows "h_seq h < h_seq (last (sq_segments sq))"
proof -
  have "sq_segments sq = butlast (sq_segments sq) @ [last (sq_segments sq)]"
    using assms by (simp add: signal_inv_def)
  then have "sorted_wrt (<) (map h_seq (butlast (sq_segments sq)) @ [h_seq (last (sq_segments sq))])"
    using assms unfolding signal_inv_def by (metis (no_types, lifting) list.simps(8,9) map_append)
  with assms(2) show ?thesis by (auto simp: sorted_wrt_append)
qed

lemma signal_inv_split:
  assumes "signal_inv z d sq"
  obtains hs a where "sq_segments sq = hs @ [a]" and "\<And>h. h \<in> set hs \<Longrightarrow> h_seq h < h_seq a"
    and "sorted_wrt (<) (map h_seq hs)" and "\<And>h. h \<in> set hs \<Longrightarrow> sealed_ok z d h"
proof -
  obtain hs a where *: "sq_segments sq = hs @ [a]"
    using assms by (metis rev_exhaust signal_inv_def)
  then show thesis
    using assms that [of hs a] by (auto simp: signal_inv_def sorted_wrt_append)
qed

subsection \<open>Counting bytes\<close>

lemma total_bytes_set_signal:
  "total_bytes (set_signal sg sq q) + segs_bytes (q_signals q sg) = total_bytes q + segs_bytes sq"
  by (cases sg) (simp_all add: total_bytes_def set_signal_def all_signals_def)

lemma total_bytes_frame [simp]:
  "total_bytes (set_dir sg d q) = total_bytes q"
  "total_bytes (q\<lparr>q_stats := st\<rparr>) = total_bytes q"
  "total_bytes (q\<lparr>q_stats := st, q_wakes := w\<rparr>) = total_bytes q"
  "total_bytes (q\<lparr>q_wakes := w\<rparr>) = total_bytes q"
  "total_bytes (q\<lparr>q_stamped := k\<rparr>) = total_bytes q"
  by (simp_all add: total_bytes_def set_dir_def)

lemma total_bytes_ge: "segs_bytes (q_signals q sg) \<le> total_bytes q"
  by (cases sg) (simp_all add: total_bytes_def all_signals_def)

end
