(* ===== verification/QueueOps.thy ===== *)
theory QueueOps
  imports QueueInv
begin

text \<open>
  The operations of the disk queue on a device that does not fail: each keeps the
  invariant and is, seen through \<open>queue_abs\<close>, the operation of the abstract queue.
\<close>

lemma queue_invD:
  assumes "queue_inv z q"
  shows "signal_inv z (q_dirs q sg) (q_signals q sg)" "queued_bytes (q_stats q) = total_bytes q"
    "stamps_inv q"
  using assms by (auto simp: queue_inv_def)

lemma abs_queue_eqI:
  assumes "\<And>sg. aq_sealed a sg = aq_sealed b sg" "\<And>sg. aq_open a sg = aq_open b sg"
    "\<And>sg. aq_next a sg = aq_next b sg"
  shows "a = (b :: abs_queue)"
proof -
  have "aq_sealed a = aq_sealed b" "aq_open a = aq_open b" "aq_next a = aq_next b"
    using assms by auto
  then show ?thesis by simp
qed

lemma queue_abs_simps:
  "aq_sealed (queue_abs z q) sg = abs_sealed z (q_dirs q sg) (sealed_of q sg)"
  "aq_open (queue_abs z q) sg = open_records (sq_active (q_signals q sg))"
  "aq_next (queue_abs z q) sg = h_seq (last (sq_segments (q_signals q sg)))"
  by (simp_all add: queue_abs_def)

subsection \<open>Closing a segment\<close>

lemma roll_empty: "sq_since (q_signals q sg) = None \<Longrightarrow> roll env sg q = (Inr (), q)"
  by (simp add: roll_def)

definition rolled_dir :: "env \<Rightarrow> bytes list \<Rightarrow> nat \<Rightarrow> dir \<Rightarrow> dir" where
  "rolled_dir env ws seq d =
     AList.update (seg_path (seq + 1)) \<lparr>f_content = [], f_modified = e_wall env\<rparr>
       (AList.update (seg_path seq) \<lparr>f_content = z_close (e_zstd env) ws, f_modified = e_wall env\<rparr> d)"

definition rolled_signal :: "env \<Rightarrow> bytes list \<Rightarrow> nat \<Rightarrow> held list \<Rightarrow> held \<Rightarrow> signal_queue" where
  "rolled_signal env ws stamp hs a =
     \<lparr>sq_segments = hs @ [a\<lparr>h_bytes := length (z_close (e_zstd env) ws), h_stamp := stamp\<rparr>]
                      @ [\<lparr>h_seq = h_seq a + 1, h_bytes = 0, h_stamp = 0\<rparr>],
      sq_active = \<lparr>sw_seq = h_seq a + 1, sw_writes = Some []\<rparr>, sq_since = None\<rparr>"

lemma roll_open:
  assumes "quiet z env" and "sq_segments (q_signals q sg) = hs @ [a]"
    and "sw_writes (sq_active (q_signals q sg)) = Some ws" and "sw_seq (sq_active (q_signals q sg)) = h_seq a"
    and "sq_since (q_signals q sg) \<noteq> None"
  shows "roll env sg q =
    (Inr (),
     (set_signal sg (rolled_signal env ws (q_stamped q + 1) hs a)
        (set_dir sg (rolled_dir env ws (h_seq a) (q_dirs q sg)) (q\<lparr>q_stamped := q_stamped q + 1\<rparr>)))
       \<lparr>q_stats := (q_stats q)\<lparr>queued_bytes := queued_bytes (q_stats q) + (length (z_close z ws) - h_bytes a)\<rparr>,
        q_wakes := q_wakes q + 1\<rparr>)"
  using assms
  by (auto simp: roll_def sw_finish_def sw_reusing_def quiet_simps [OF assms(1)] rolled_dir_def
      rolled_signal_def Let_def)

lemma emit_close_length: "zstd_ok z \<Longrightarrow> length (z_emit z ws) \<le> length (z_close z ws)"
  using zstd_ok_emit_close prefix_length_le by blast

lemma signal_inv_rolled:
  assumes q: "quiet z env" and inv: "signal_inv z d sq" and segs: "sq_segments sq = hs @ [a]"
    and ws: "sw_writes (sq_active sq) = Some ws" and since: "sq_since sq \<noteq> None"
  shows "signal_inv z (rolled_dir env ws (h_seq a) d) (rolled_signal env ws stamp hs a)"
proof -
  obtain rs where rs: "writes_records ws rs" "rs \<noteq> []"
    using inv ws since by (auto simp: signal_inv_def open_ok_def)
  have lt: "h_seq h < h_seq a" if "h \<in> set hs" for h
    using that signal_inv_seqs [OF inv] segs by auto
  have sorted: "sorted_wrt (<) (map h_seq hs)" and ok: "\<forall>h \<in> set hs. sealed_ok z d h"
    using inv segs by (auto simp: signal_inv_def sorted_wrt_append)
  have "sealed_ok z (rolled_dir env ws (h_seq a) d) h" if "h \<in> set hs" for h
    using ok lt [OF that] that by (auto simp: rolled_dir_def intro!: sealed_ok_update)
  moreover have "sealed_ok z (rolled_dir env ws (h_seq a) d)
      (a\<lparr>h_bytes := length (z_close (e_zstd env) ws), h_stamp := stamp\<rparr>)"
    using rs by (auto simp: sealed_ok_def rolled_dir_def quiet_simps [OF q])
  moreover have "sorted_wrt (<) (map h_seq (sq_segments (rolled_signal env ws stamp hs a)))"
    using sorted lt by (auto simp: rolled_signal_def sorted_wrt_append less_Suc_eq)
  ultimately show ?thesis
    by (auto simp: signal_inv_def rolled_signal_def butlast_append open_ok_def rolled_dir_def
        writes_records_def zstd_ok_emit_Nil quiet_simps [OF q])
qed

lemma stamps_inv_roll:
  assumes "stamps_inv q" and "sq_segments (q_signals q sg) = hs @ [a]"
    and "q_stamped q' = q_stamped q + 1"
    and "q_signals q' = (q_signals q)(sg := rolled_signal env ws (q_stamped q + 1) hs a)"
  shows "stamps_inv q'"
proof -
  have old: "sealed_of q sg = hs" using assms(2) by (simp add: sealed_of_def)
  have new: "sealed_of q' sg = hs @ [a\<lparr>h_bytes := length (z_close (e_zstd env) ws), h_stamp := q_stamped q + 1\<rparr>]"
    using assms(4) by (simp add: sealed_of_def rolled_signal_def butlast_append)
  have other: "sealed_of q' s = sealed_of q s" if "s \<noteq> sg" for s
    using that assms(4) by (simp add: sealed_of_def)
  have bound: "1 \<le> h_stamp h \<and> h_stamp h \<le> q_stamped q" if "h \<in> set (sealed_of q s)" for h s
    using assms(1) that unfolding stamps_inv_def by blast
  have fresh: "h_stamp h \<noteq> q_stamped q + 1" "q_stamped q + 1 \<noteq> h_stamp h" if "h \<in> set (sealed_of q s)" for h s
    using bound [OF that] by simp_all
  have "sorted_wrt (<) (map h_stamp (sealed_of q' s)) \<and>
      (\<forall>h \<in> set (sealed_of q' s). 1 \<le> h_stamp h \<and> h_stamp h \<le> q_stamped q')" for s
  proof (cases "s = sg")
    case True
    have "sorted_wrt (<) (map h_stamp hs)" using assms(1) old unfolding stamps_inv_def by metis
    then show ?thesis
      using True new bound [of _ sg] old assms(3)
      by (auto simp: sorted_wrt_append less_Suc_eq_le le_Suc_eq)
  next
    case False
    then show ?thesis
      using assms(1,3) other [OF False] bound [of _ s] unfolding stamps_inv_def by (auto simp: le_Suc_eq)
  qed
  moreover have "h_stamp h \<noteq> h_stamp h'"
    if ne: "s \<noteq> s'" and h: "h \<in> set (sealed_of q' s)" and h': "h' \<in> set (sealed_of q' s')" for s s' h h'
  proof -
    have old_ne: "h_stamp x \<noteq> h_stamp y" if "x \<in> set (sealed_of q s)" "y \<in> set (sealed_of q s')" for x y
      using assms(1) ne that unfolding stamps_inv_def by blast
    show ?thesis
      using ne h h' new other old old_ne fresh
      by (cases "s = sg"; cases "s' = sg") fastforce+
  qed
  ultimately show ?thesis unfolding stamps_inv_def by blast
qed

lemma roll_inv:
  assumes "quiet z env" and "queue_inv z q"
  shows "fst (roll env sg q) = Inr () \<and> queue_inv z (snd (roll env sg q))"
proof (cases "sq_since (q_signals q sg)")
  case None
  then show ?thesis using assms by (simp add: roll_empty)
next
  case (Some t)
  have inv: "signal_inv z (q_dirs q sg) (q_signals q sg)" using assms by (simp add: queue_inv_def)
  obtain hs a where segs: "sq_segments (q_signals q sg) = hs @ [a]"
    using signal_inv_split [OF inv] by metis
  obtain ws where ws: "sw_writes (sq_active (q_signals q sg)) = Some ws"
    "sw_seq (sq_active (q_signals q sg)) = h_seq a" "h_bytes a = length (z_emit z ws)"
    using inv segs by (auto simp: signal_inv_def open_ok_def)
  let ?q = "snd (roll env sg q)"
  note roll = roll_open [OF assms(1) segs ws(1,2)]
  have eq: "roll env sg q = (Inr (), ?q)" using roll Some by simp
  have "signal_inv z (q_dirs ?q s) (q_signals ?q s)" for s
    using signal_inv_rolled [OF assms(1) inv segs ws(1)] assms(2) Some roll
    by (auto simp: queue_defs queue_inv_def)
  moreover have "queued_bytes (q_stats ?q) = total_bytes ?q"
  proof -
    have "queued_bytes (q_stats ?q) = total_bytes q + (length (z_close z ws) - length (z_emit z ws))"
      using roll Some assms(2) ws by (simp add: queue_inv_def)
    moreover have "total_bytes ?q + segs_bytes (q_signals q sg)
        = total_bytes q + segs_bytes (rolled_signal env ws (q_stamped q + 1) hs a)"
      using roll Some total_bytes_set_signal [of sg "rolled_signal env ws (q_stamped q + 1) hs a" q]
      by (simp add: total_bytes_def set_signal_def set_dir_def)
    ultimately show ?thesis
      using emit_close_length [of z ws] assms(1) segs ws
      by (simp add: segs_bytes_def rolled_signal_def quiet_simps)
  qed
  moreover have "stamps_inv ?q"
    by (rule stamps_inv_roll [OF queue_invD(3) [OF assms(2)] segs]) (use roll Some in \<open>simp_all add: queue_defs\<close>)
  ultimately show ?thesis using eq by (metis fst_conv queue_inv_def)
qed

lemma roll_abs:
  assumes "quiet z env" and "queue_inv z q"
  shows "queue_abs z (snd (roll env sg q)) = abs_roll sg (queue_abs z q)"
proof -
  have inv: "signal_inv z (q_dirs q sg) (q_signals q sg)" using assms by (simp add: queue_inv_def)
  obtain hs a where segs: "sq_segments (q_signals q sg) = hs @ [a]"
    and lt: "\<And>h. h \<in> set hs \<Longrightarrow> h_seq h < h_seq a"
    using signal_inv_split [OF inv] by metis
  obtain ws rs where ws: "sw_writes (sq_active (q_signals q sg)) = Some ws"
    "sw_seq (sq_active (q_signals q sg)) = h_seq a" "writes_records ws rs"
    "sq_since (q_signals q sg) = None \<longleftrightarrow> rs = []"
    using inv segs by (auto simp: signal_inv_def open_ok_def)
  have open_rs: "open_records (sq_active (q_signals q sg)) = rs"
    using ws by (simp add: open_records_writes)
  show ?thesis
  proof (cases "sq_since (q_signals q sg)")
    case None
    then show ?thesis using ws open_rs by (simp add: roll_empty abs_roll_def queue_abs_def)
  next
    case (Some t)
    have sealed: "sealed_of q sg = hs" using segs by (simp add: sealed_of_def)
    have "h_seq h \<noteq> h_seq a" "h_seq h \<noteq> h_seq a + 1" if "h \<in> set hs" for h
      using lt [OF that] by auto
    then have "abs_sealed z (rolled_dir env ws (h_seq a) (q_dirs q sg)) hs = abs_sealed z (q_dirs q sg) hs"
      by (simp add: rolled_dir_def abs_sealed_update)
    then show ?thesis
      using roll_open [OF assms(1) segs ws(1,2)] Some ws open_rs sealed segs assms(1)
      by (intro abs_queue_eqI)
        (auto simp: queue_abs_simps abs_roll_def queue_defs sealed_of_def rolled_signal_def butlast_append
          abs_sealed_def rolled_dir_def open_records_def seg_records_close quiet_simps)
  qed
qed


interpretation rolls: refined_ops "roll env" "\<lambda>q. quiet z env \<and> queue_inv z q" "queue_abs z" abs_roll
  for z env
  by unfold_locales (use roll_inv roll_abs in auto)

text \<open>\<open>seal\<close> closes the three open segments; \<open>seal_if_due\<close> those that are old enough.\<close>

lemma seal_abs:
  assumes "quiet z env" and "queue_inv z q"
  shows "fst (seal env q) = Inr () \<and> queue_inv z (snd (seal env q))
    \<and> queue_abs z (snd (seal env q)) = fold abs_roll all_signals (queue_abs z q)"
  using rolls.each_refines [of z env q all_signals] assms by (simp add: seal_def)

lemma seal_if_due_inv:
  assumes "quiet z env" and "queue_inv z q"
  shows "fst (seal_if_due env q) = Inr () \<and> queue_inv z (snd (seal_if_due env q))"
  unfolding seal_if_due_def
  by (rule op_each_ok [where P = "queue_inv z"])
    (use assms roll_inv in \<open>auto simp: roll_if_due_def split: option.splits\<close>)

subsection \<open>The oldest closed segment\<close>

lemma min_by_stamp_None [simp]: "min_by_stamp xs = None \<longleftrightarrow> xs = []"
  by (cases xs) (auto split: option.splits)

lemma min_by_stamp_Some:
  "min_by_stamp xs = Some x \<Longrightarrow> x \<in> set xs \<and> (\<forall>y \<in> set xs. fst x \<le> fst y)"
proof (induction xs arbitrary: x)
  case Nil
  then show ?case by simp
next
  case (Cons a xs)
  show ?case
  proof (cases "min_by_stamp xs")
    case None
    with Cons.prems show ?thesis by simp
  next
    case (Some y)
    from Cons.IH [OF Some] have "y \<in> set xs \<and> (\<forall>v \<in> set xs. fst y \<le> fst v)" .
    with Some Cons.prems show ?thesis by (auto split: if_splits)
  qed
qed

lemma sealed_front_Some_iff:
  "sealed_front q sg = Some x \<longleftrightarrow>
     (\<exists>front rest. sq_segments (q_signals q sg) = front # rest \<and> rest \<noteq> [] \<and> x = (h_stamp front, sg, h_seq front))"
  by (auto simp: sealed_front_def split: list.splits if_splits)

lemma sealed_front_None_iff:
  "sq_segments (q_signals q sg) \<noteq> [] \<Longrightarrow> sealed_front q sg = None \<longleftrightarrow> sealed_of q sg = []"
  by (auto simp: sealed_front_def sealed_of_def split: list.splits)

lemma set_map_filter_signals: "x \<in> set (List.map_filter g all_signals) \<longleftrightarrow> (\<exists>sg. g sg = Some x)"
  by (force simp: map_filter_def)

lemma map_filter_Nil_iff: "List.map_filter g xs = [] \<longleftrightarrow> (\<forall>x \<in> set xs. g x = None)"
  by (auto simp: map_filter_def filter_empty_conv)

lemma oldest_sealed_None:
  assumes "\<And>sg. sq_segments (q_signals q sg) \<noteq> []"
  shows "oldest_sealed q = None \<longleftrightarrow> (\<forall>sg. sealed_of q sg = [])"
  using assms by (simp add: oldest_sealed_def map_filter_Nil_iff sealed_front_None_iff)

lemma sorted_front_least:
  "sorted_wrt (<) (map (f :: 'a \<Rightarrow> nat) (x # xs)) \<Longrightarrow> y \<in> set (x # xs) \<Longrightarrow> f x \<le> f y"
  by auto

lemma oldest_sealed_Some:
  assumes "stamps_inv q" and "oldest_sealed q = Some (sg, seq)"
  obtains front rest where "sq_segments (q_signals q sg) = front # rest" and "rest \<noteq> []" and "seq = h_seq front"
    and "\<And>s h. h \<in> set (sealed_of q s) \<Longrightarrow> h_stamp front \<le> h_stamp h"
proof -
  obtain k where k: "min_by_stamp (List.map_filter (sealed_front q) all_signals) = Some (k, sg, seq)"
    using assms(2) by (auto simp: oldest_sealed_def)
  note least = min_by_stamp_Some [OF k, unfolded set_map_filter_signals]
  from least obtain front rest where fr: "sq_segments (q_signals q sg) = front # rest" "rest \<noteq> []"
    "k = h_stamp front" "seq = h_seq front"
    by (metis (no_types, lifting) prod.inject sealed_front_Some_iff set_map_filter_signals)
  have "h_stamp front \<le> h_stamp h" if h: "h \<in> set (sealed_of q s)" for s h
  proof -
    obtain f r where seg: "sq_segments (q_signals q s) = f # r" "r \<noteq> []" "sealed_of q s = f # butlast r"
      using h by (cases "sq_segments (q_signals q s)") (auto simp: sealed_of_def split: if_splits)
    then have "sealed_front q s = Some (h_stamp f, s, h_seq f)" by (simp add: sealed_front_def)
    then have "h_stamp front \<le> h_stamp f" using least fr by (force simp: set_map_filter_signals)
    moreover have "sorted_wrt (<) (map h_stamp (f # butlast r))"
      using assms(1) seg unfolding stamps_inv_def by metis
    then have "h_stamp f \<le> h_stamp h" using sorted_front_least h seg by metis
    ultimately show ?thesis by simp
  qed
  with fr show thesis using that by blast
qed

end
