(* ===== verification/QueueWrite.thy ===== *)
theory QueueWrite
  imports QueueOps
begin

text \<open>
  Appending, dropping and retiring on a device that does not fail. The stream of a signal
  is every record it holds, closed and open; dropping the oldest segment takes a prefix
  of it, appending adds one record behind it, closing does not touch it.
\<close>

definition abs_stream :: "abs_queue \<Rightarrow> signal \<Rightarrow> bytes list" where
  "abs_stream a sg = concat (map snd (aq_sealed a sg)) @ aq_open a sg"

lemma abs_stream_roll [simp]: "abs_stream (abs_roll sg a) s = abs_stream a s"
  by (simp add: abs_stream_def abs_roll_def)

lemma abs_stream_append: "abs_stream (abs_append sg r a) s = abs_stream a s @ (if s = sg then [r] else [])"
  by (simp add: abs_stream_def abs_append_def)

lemma abs_stream_drop: "suffix (abs_stream (abs_drop sg a) s) (abs_stream a s)"
proof (cases "s = sg \<and> aq_sealed a sg \<noteq> []")
  case True
  then obtain x xs where "aq_sealed a sg = x # xs" by (cases "aq_sealed a sg") auto
  then show ?thesis using True by (simp add: abs_stream_def abs_drop_def suffix_def)
next
  case False
  then show ?thesis by (auto simp: abs_stream_def abs_drop_def)
qed

lemma fold_abs_roll_stream: "abs_stream (fold abs_roll sgs a) s = abs_stream a s"
  by (induction sgs arbitrary: a) simp_all

subsection \<open>Writing a record\<close>

lemma write_pieces_quiet:
  assumes "quiet z env" and "sw_writes w = Some ws" and "seg_exists d (sw_seq w)"
    and "file_content d (sw_seq w) = z_emit z ws"
  shows "\<exists>d'. write_pieces env k cs (d, w) = (Inr (), d', w\<lparr>sw_writes := Some (ws @ cs)\<rparr>)
    \<and> (\<forall>s. file_content d' s = (if s = sw_seq w then z_emit z (ws @ cs) else file_content d s)
           \<and> seg_exists d' s = seg_exists d s)"
  using assms(2-4)
proof (induction cs arbitrary: k d w ws)
  case Nil
  then show ?case by auto
next
  case (Cons c cs)
  define d1 where "d1 = (if z_emit z (ws @ [c]) = z_emit z ws then d
    else AList.update (seg_path (sw_seq w)) \<lparr>f_content = z_emit z (ws @ [c]), f_modified = e_wall env\<rparr> d)"
  let ?w = "w\<lparr>sw_writes := Some (ws @ [c])\<rparr>"
  have step: "sw_write_all env k c (d, w) = (Inr (), d1, ?w)"
    using Cons.prems by (simp add: sw_write_all_def quiet_simps [OF assms(1)] Let_def d1_def)
  have d1: "seg_exists d1 s = seg_exists d s"
    "file_content d1 s = (if s = sw_seq w then z_emit z (ws @ [c]) else file_content d s)" for s
    using Cons.prems by (auto simp: d1_def)
  obtain d' where "write_pieces env (Suc k) cs (d1, ?w) = (Inr (), d', ?w\<lparr>sw_writes := Some ((ws @ [c]) @ cs)\<rparr>)"
    "\<And>s. file_content d' s = (if s = sw_seq w then z_emit z ((ws @ [c]) @ cs) else file_content d1 s)
        \<and> seg_exists d' s = seg_exists d1 s"
    using Cons.IH [of ?w "ws @ [c]" d1 "Suc k"] Cons.prems d1 by auto
  with step d1 show ?case by (intro exI [of _ d'] conjI) simp_all
qed

lemma sealed_ok_cong:
  "file_content d' (h_seq h) = file_content d (h_seq h) \<Longrightarrow> seg_exists d' (h_seq h) = seg_exists d (h_seq h)
     \<Longrightarrow> sealed_ok z d' h = sealed_ok z d h"
  by (simp add: sealed_ok_def)

lemma writes_records_append:
  assumes "writes_records ws rs" and "nbytes = sum_list (map length chunks)" and "wire_sized (concat chunks)"
  shows "writes_records (ws @ le_nat 4 nbytes # chunks) (rs @ [concat chunks])"
  using assms by (simp add: writes_records_def frame_record_def record_header_bytes_def length_concat)

lemma write_into_quiet:
  assumes q: "quiet z env" and inv: "queue_inv z q" and n: "nbytes = sum_list (map length chunks)"
    and size: "wire_sized (concat chunks)"
  shows "fst (write_into env sg nbytes chunks q) = Inr ()
    \<and> queue_inv z (snd (write_into env sg nbytes chunks q))
    \<and> queue_abs z (snd (write_into env sg nbytes chunks q)) = abs_append sg (concat chunks) (queue_abs z q)
    \<and> dropped_segments (q_stats (snd (write_into env sg nbytes chunks q))) = dropped_segments (q_stats q)
    \<and> appended_records (q_stats (snd (write_into env sg nbytes chunks q))) = appended_records (q_stats q) + 1"
proof -
  let ?sq = "q_signals q sg" and ?d = "q_dirs q sg"
  have sinv: "signal_inv z ?d ?sq" using inv by (simp add: queue_inv_def)
  obtain hs a where segs: "sq_segments ?sq = hs @ [a]" and lt: "\<And>h. h \<in> set hs \<Longrightarrow> h_seq h < h_seq a"
    and sorted: "sorted_wrt (<) (map h_seq hs)" and ok: "\<And>h. h \<in> set hs \<Longrightarrow> sealed_ok z ?d h"
    using signal_inv_split [OF sinv] by metis
  obtain ws rs where ws: "sw_writes (sq_active ?sq) = Some ws" "sw_seq (sq_active ?sq) = h_seq a"
    "seg_exists ?d (h_seq a)" "file_content ?d (h_seq a) = z_emit z ws" "h_bytes a = length (z_emit z ws)"
    "h_stamp a = 0" "writes_records ws rs"
    using sinv segs by (auto simp: signal_inv_def open_ok_def)
  define pcs where "pcs = le_nat 4 nbytes # chunks"
  define w where "w = (sq_active ?sq)\<lparr>sw_writes := Some (ws @ pcs)\<rparr>"
  obtain d' where d': "write_pieces env 0 pcs (?d, sq_active ?sq) = (Inr (), d', w)"
    "\<And>s. file_content d' s = (if s = h_seq a then z_emit z (ws @ pcs) else file_content ?d s)"
    "\<And>s. seg_exists d' s = seg_exists ?d s"
    using write_pieces_quiet [OF q ws(1), of ?d 0 pcs] ws by (auto simp: w_def)
  have new: "writes_records (ws @ pcs) (rs @ [concat chunks])"
    unfolding pcs_def using writes_records_append [OF ws(7) n size] by simp
  define since where "since = (case sq_since ?sq of None \<Rightarrow> Some (e_instant env) | Some t \<Rightarrow> Some t)"
  have "since \<noteq> None" by (simp add: since_def split: option.splits)
  define sq' where "sq' = \<lparr>sq_segments = hs @ [a\<lparr>h_bytes := length (z_emit z (ws @ pcs))\<rparr>],
    sq_active = w, sq_since = since\<rparr>"
  have written: "sw_written z w = length (z_emit z (ws @ pcs))" by (simp add: sw_written_def w_def)
  let ?q = "snd (write_into env sg nbytes chunks q)"
  have eq: "write_into env sg nbytes chunks q = (Inr (),
      (set_signal sg sq' (set_dir sg d' q))
        \<lparr>q_stats := (q_stats q)\<lparr>queued_bytes := queued_bytes (q_stats q)
             + (length (z_emit z (ws @ pcs)) - length (z_emit z ws)),
           appended_records := appended_records (q_stats q) + 1,
           appended_bytes := appended_bytes (q_stats q) + (record_header_bytes + nbytes)\<rparr>,
         q_wakes := q_wakes q + 1\<rparr>)"
    using d'(1) ws written segs
    by (simp add: write_into_def pcs_def [symmetric] sq'_def since_def [symmetric] quiet_simps [OF q] Let_def)
  have sealed': "sealed_ok z d' h" if "h \<in> set hs" for h
    using ok [OF that] lt [OF that] d'(2,3) by (subst sealed_ok_cong [where d = ?d]) auto
  have "signal_inv z d' sq'"
    using sorted lt sealed' new ws d' \<open>since \<noteq> None\<close>
    by (auto simp: signal_inv_def sq'_def sorted_wrt_append open_ok_def w_def)
  then have "signal_inv z (q_dirs ?q s) (q_signals ?q s)" for s
    using inv eq by (auto simp: queue_defs queue_inv_def)
  moreover have "queued_bytes (q_stats ?q) = total_bytes ?q"
  proof -
    have "length (z_emit z ws) \<le> length (z_emit z (ws @ pcs))"
      using zstd_ok_emit_mono q by (simp add: quiet_simps prefix_length_le)
    then show ?thesis
      using eq total_bytes_set_signal [of sg sq' "set_dir sg d' q"] queue_invD(2) [OF inv] segs ws
      by (simp add: segs_bytes_def sq'_def) (simp add: set_dir_def)
  qed
  moreover have "stamps_inv ?q"
  proof -
    have "sealed_of ?q s = sealed_of q s" for s
      using eq segs by (simp add: sealed_of_def queue_defs sq'_def)
    then show ?thesis using inv eq by (simp add: queue_inv_def stamps_inv_def queue_defs)
  qed
  ultimately have "queue_inv z ?q" by (simp add: queue_inv_def)
  moreover have "queue_abs z ?q = abs_append sg (concat chunks) (queue_abs z q)"
  proof (rule abs_queue_eqI)
    fix s
    have "h_seq h \<noteq> h_seq a" if "h \<in> set hs" for h using lt [OF that] by simp
    then have "abs_sealed z d' hs = abs_sealed z ?d hs" using d'(2) by (simp add: abs_sealed_def)
    then show "aq_sealed (queue_abs z ?q) s = aq_sealed (abs_append sg (concat chunks) (queue_abs z q)) s"
      using eq segs by (simp add: queue_abs_simps abs_append_def sealed_of_def queue_defs sq'_def)
    show "aq_open (queue_abs z ?q) s = aq_open (abs_append sg (concat chunks) (queue_abs z q)) s"
      using eq open_records_writes [OF ws(1,7)] open_records_writes [OF _ new, of w]
      by (simp add: queue_abs_simps abs_append_def queue_defs sq'_def w_def)
    show "aq_next (queue_abs z ?q) s = aq_next (abs_append sg (concat chunks) (queue_abs z q)) s"
      using eq segs by (simp add: queue_abs_simps abs_append_def queue_defs sq'_def)
  qed
  ultimately show ?thesis using eq by simp
qed

end
