(* ===== verification/QueueRetire.thy ===== *)
theory QueueRetire
  imports QueueWrite
begin

text \<open>
  Dropping the oldest segment to make room, the loop that does so until a record fits,
  appending as a whole, and retiring what the far end has answered for.
\<close>

subsection \<open>How much there is to drop\<close>

definition pending_of :: "signal_queue \<Rightarrow> nat" where
  "pending_of sq = (length (sq_segments sq) - 1) + (if sq_since sq = None then 0 else 1)"

definition pending :: "queue \<Rightarrow> nat" where
  "pending q = sum_list (map (\<lambda>sg. pending_of (q_signals q sg)) all_signals)"

lemma pending_set_signal:
  "pending (set_signal sg sq q) + pending_of (q_signals q sg) = pending q + pending_of sq"
  by (cases sg) (simp_all add: pending_def set_signal_def all_signals_def)

lemma pending_frame [simp]:
  "pending (set_dir sg d q) = pending q"
  "pending (q\<lparr>q_stats := st\<rparr>) = pending q"
  "pending (q\<lparr>q_stats := st, q_wakes := w\<rparr>) = pending q"
  "pending (q\<lparr>q_stamped := k\<rparr>) = pending q"
  by (simp_all add: pending_def set_dir_def)

lemma roll_since_pending:
  assumes "quiet z env" and "queue_inv z q"
  shows "(\<lambda>s. sq_since (q_signals (snd (roll env sg q)) s)) = (\<lambda>s. sq_since (q_signals q s))(sg := None)"
    and "pending (snd (roll env sg q)) = pending q"
    and "q_limits (snd (roll env sg q)) = q_limits q"
    and "dropped_segments (q_stats (snd (roll env sg q))) = dropped_segments (q_stats q)"
proof -
  have inv: "signal_inv z (q_dirs q sg) (q_signals q sg)" using assms by (simp add: queue_inv_def)
  obtain hs a where segs: "sq_segments (q_signals q sg) = hs @ [a]"
    using signal_inv_split [OF inv] by metis
  obtain ws where ws: "sw_writes (sq_active (q_signals q sg)) = Some ws"
    "sw_seq (sq_active (q_signals q sg)) = h_seq a"
    using inv segs by (auto simp: signal_inv_def open_ok_def)
  have "(\<forall>s. sq_since (q_signals (snd (roll env sg q)) s) = ((\<lambda>s. sq_since (q_signals q s))(sg := None)) s)
      \<and> pending (snd (roll env sg q)) = pending q \<and> q_limits (snd (roll env sg q)) = q_limits q
      \<and> dropped_segments (q_stats (snd (roll env sg q))) = dropped_segments (q_stats q)"
  proof (cases "sq_since (q_signals q sg)")
    case None
    then show ?thesis by (simp add: roll_empty)
  next
    case (Some t)
    let ?sq = "rolled_signal env ws (q_stamped q + 1) hs a"
    have "pending_of ?sq = pending_of (q_signals q sg)"
      using Some segs by (simp add: pending_of_def rolled_signal_def)
    then have "pending (set_signal sg ?sq q) = pending q"
      using pending_set_signal [of sg ?sq q] by simp
    moreover have "pending (set_signal sg ?sq (set_dir sg d (q\<lparr>q_stamped := k\<rparr>))) = pending (set_signal sg ?sq q)" for d k
      by (simp add: pending_def set_signal_def set_dir_def)
    ultimately show ?thesis
      using roll_open [OF assms(1) segs ws] Some by (simp add: queue_defs rolled_signal_def)
  qed
  then show "(\<lambda>s. sq_since (q_signals (snd (roll env sg q)) s)) = (\<lambda>s. sq_since (q_signals q s))(sg := None)"
    and "pending (snd (roll env sg q)) = pending q"
    and "q_limits (snd (roll env sg q)) = q_limits q"
    and "dropped_segments (q_stats (snd (roll env sg q))) = dropped_segments (q_stats q)"
    by auto
qed

interpretation roll_since: refined_ops "roll env" "\<lambda>q. quiet z env \<and> queue_inv z q"
  "\<lambda>q s. sq_since (q_signals q s)" "\<lambda>sg f. f(sg := None)" for z env
  by unfold_locales (use roll_inv roll_since_pending in auto)

interpretation roll_frame: refined_ops "roll env" "\<lambda>q. quiet z env \<and> queue_inv z q"
  "\<lambda>q. (pending q, q_limits q, dropped_segments (q_stats q))" "\<lambda>sg x. x" for z env
  by unfold_locales (use roll_inv roll_since_pending in auto)

lemma fold_const_id: "fold (\<lambda>x a. a) xs a = a"
  by (induction xs) simp_all

lemma fold_none_all: "fold (\<lambda>sg f. f(sg := None)) all_signals f = (\<lambda>_. None)"
  by (rule ext, rename_tac s, case_tac s) (simp_all add: all_signals_def)

lemma roll_all_quiet:
  assumes "quiet z env" and "queue_inv z q"
  obtains q' where "op_each (roll env) all_signals q = (Inr (), q')" and "queue_inv z q'"
    and "queue_abs z q' = fold abs_roll all_signals (queue_abs z q)"
    and "\<And>s. sq_since (q_signals q' s) = None" and "pending q' = pending q"
    and "q_limits q' = q_limits q" and "dropped_segments (q_stats q') = dropped_segments (q_stats q)"
proof -
  let ?q = "snd (op_each (roll env) all_signals q)"
  have P: "quiet z env \<and> queue_inv z q" using assms by simp
  have "(\<lambda>s. sq_since (q_signals ?q s)) = (\<lambda>_. None)"
    using roll_since.each_refines [OF P, of all_signals] by (simp add: fold_none_all)
  then have "sq_since (q_signals ?q s) = None" for s by (rule fun_cong)
  then show thesis
    using that [of ?q] rolls.each_refines [OF P, of all_signals] roll_frame.each_refines [OF P, of all_signals]
    by (simp add: fold_const_id prod_eq_iff)
qed

lemma nothing_pending:
  assumes "queue_inv z q" and "zstd_ok z" and "\<And>s. sealed_of q s = []" and "\<And>s. sq_since (q_signals q s) = None"
  shows "queued_bytes (q_stats q) = 0"
proof -
  have "segs_bytes (q_signals q s) = 0" for s
  proof -
    have inv: "signal_inv z (q_dirs q s) (q_signals q s)" using assms by (simp add: queue_inv_def)
    obtain a where segs: "sq_segments (q_signals q s) = [a]"
      using signal_inv_split [OF inv] assms(3) [of s] by (metis append_Nil butlast_snoc sealed_of_def)
    moreover have "h_bytes a = 0"
      using inv segs assms(2,4) by (auto simp: signal_inv_def open_ok_def writes_records_def zstd_ok_emit_Nil)
    ultimately show ?thesis by (simp add: segs_bytes_def)
  qed
  then show ?thesis using assms(1) by (simp add: queue_inv_def total_bytes_def)
qed

subsection \<open>Dropping one segment\<close>

lemma signal_inv_tl:
  assumes "signal_inv z d sq" and "sq_segments sq = front # rest" and "rest \<noteq> []"
  shows "signal_inv z (AList.delete (seg_path (h_seq front)) d) (sq\<lparr>sq_segments := rest\<rparr>)"
proof -
  have lt: "h_seq front < h_seq h" if "h \<in> set rest" for h
    using assms that by (auto simp: signal_inv_def)
  have ne: "h_seq h \<noteq> h_seq front" if "h \<in> set (butlast rest)" for h
    using lt [of h] that by (auto dest: in_set_butlastD)
  have ne': "h_seq (last rest) \<noteq> h_seq front" using lt [of "last rest"] assms(3) by auto
  have "sealed_ok z (AList.delete (seg_path (h_seq front)) d) h" if "h \<in> set (butlast rest)" for h
    using assms that ne [OF that] by (auto simp: signal_inv_def intro!: sealed_ok_delete)
  then show ?thesis
    using assms ne' by (auto simp: signal_inv_def open_ok_def)
qed

text \<open>Removing the front segment of one signal, whoever asks for it.\<close>

definition without_front :: "signal \<Rightarrow> queue \<Rightarrow> queue" where
  "without_front sg q =
     (let sq = q_signals q sg; front = hd (sq_segments sq) in
      (set_dir sg (AList.delete (seg_path (h_seq front)) (q_dirs q sg))
         (set_signal sg (sq\<lparr>sq_segments := tl (sq_segments sq)\<rparr>) q))
        \<lparr>q_stats := (q_stats q)\<lparr>queued_bytes := queued_bytes (q_stats q) - h_bytes front\<rparr>\<rparr>)"

lemma without_front_inv:
  assumes inv: "queue_inv z q" and segs: "sq_segments (q_signals q sg) = front # rest" and ne: "rest \<noteq> []"
  shows "queue_inv z (without_front sg q)"
    and "queue_abs z (without_front sg q) = abs_drop sg (queue_abs z q)"
    and "pending (without_front sg q) + 1 = pending q"
proof -
  let ?q = "without_front sg q" and ?sq = "(q_signals q sg)\<lparr>sq_segments := rest\<rparr>"
  have sinv: "signal_inv z (q_dirs q sg) (q_signals q sg)" using inv by (simp add: queue_inv_def)
  have sig: "signal_inv z (q_dirs ?q s) (q_signals ?q s)" for s
    using signal_inv_tl [OF sinv segs ne] inv segs by (auto simp: without_front_def queue_defs queue_inv_def)
  have "total_bytes ?q + h_bytes front = total_bytes q"
    using total_bytes_set_signal [of sg ?sq q] segs
    by (simp add: without_front_def segs_bytes_def)
  moreover have "queued_bytes (q_stats ?q) = queued_bytes (q_stats q) - h_bytes front"
    using segs by (simp add: without_front_def)
  ultimately have bytes: "queued_bytes (q_stats ?q) = total_bytes ?q"
    using queue_invD(2) [OF inv] by simp
  have sealed: "sealed_of ?q s = (if s = sg then tl (sealed_of q s) else sealed_of q s)" for s
    using segs ne by (simp add: sealed_of_def without_front_def queue_defs)
  have sub: "set (sealed_of ?q s) \<subseteq> set (sealed_of q s)" for s
    using sealed by (auto dest: list.set_sel(2)) (metis list.sel(2) list.set_sel(2))
  have "sorted_wrt (<) (map h_stamp (sealed_of ?q s))" for s
  proof -
    have "sorted_wrt (<) (map h_stamp (sealed_of q s))" using inv by (auto simp: queue_inv_def stamps_inv_def)
    then show ?thesis using sealed by (cases "sealed_of q s") auto
  qed
  moreover have "q_stamped ?q = q_stamped q" by (simp add: without_front_def queue_defs Let_def)
  ultimately have "stamps_inv ?q"
    using inv sub unfolding queue_inv_def stamps_inv_def by (metis subsetD)
  with sig bytes show "queue_inv z ?q" by (simp add: queue_inv_def)
  show "queue_abs z ?q = abs_drop sg (queue_abs z q)"
  proof (rule abs_queue_eqI)
    fix s
    have *: "h_seq h \<noteq> h_seq front" if "h \<in> set (butlast rest)" for h
      using sinv segs that by (auto simp: signal_inv_def dest!: in_set_butlastD)
    show "aq_sealed (queue_abs z ?q) s = aq_sealed (abs_drop sg (queue_abs z q)) s"
      using segs ne * by (simp add: queue_abs_simps abs_drop_def sealed_of_def without_front_def queue_defs
          abs_sealed_delete) (simp add: abs_sealed_def)
    show "aq_open (queue_abs z ?q) s = aq_open (abs_drop sg (queue_abs z q)) s"
      using segs by (simp add: queue_abs_simps abs_drop_def without_front_def queue_defs)
    show "aq_next (queue_abs z ?q) s = aq_next (abs_drop sg (queue_abs z q)) s"
      using segs ne by (simp add: queue_abs_simps abs_drop_def without_front_def queue_defs)
  qed
  show "pending ?q + 1 = pending q"
    using pending_set_signal [of sg ?sq q] segs ne
    by (cases rest) (simp_all add: without_front_def pending_of_def)
qed

lemma front_exists:
  assumes "queue_inv z q" and "sq_segments (q_signals q sg) = front # rest" and "rest \<noteq> []"
  shows "seg_exists (q_dirs q sg) (h_seq front)"
proof -
  have "signal_inv z (q_dirs q sg) (q_signals q sg)" using assms by (simp add: queue_inv_def)
  then show ?thesis using assms by (auto simp: signal_inv_def sealed_ok_def)
qed

definition count_drop :: "nat \<Rightarrow> queue \<Rightarrow> queue" where
  "count_drop n q = q\<lparr>q_stats := (q_stats q)\<lparr>dropped_bytes := dropped_bytes (q_stats q) + n,
                                       dropped_segments := dropped_segments (q_stats q) + 1\<rparr>\<rparr>"

lemma count_drop_frame [simp]:
  "queue_inv z (count_drop n q) = queue_inv z q" "queue_abs z (count_drop n q) = queue_abs z q"
  "pending (count_drop n q) = pending q"
  "dropped_segments (q_stats (count_drop n q)) = dropped_segments (q_stats q) + 1"
  "q_limits (count_drop n q) = q_limits q"
  by (simp_all add: count_drop_def queue_inv_def queue_abs_def total_bytes_def stamps_inv_def sealed_of_def)

lemma drop_sealed:
  assumes "quiet z env" and "queue_inv z q" and "oldest_sealed q = Some (sg, seq)"
  shows "drop_oldest env q =
    (Inr (), count_drop (h_bytes (hd (sq_segments (q_signals q sg)))) (without_front sg q))"
proof -
  obtain front rest where "sq_segments (q_signals q sg) = front # rest" "rest \<noteq> []"
    using oldest_sealed_Some [OF queue_invD(3) [OF assms(2)] assms(3)] by metis
  then show ?thesis
    using assms front_exists [OF assms(2)]
    by (simp add: drop_oldest_def seg_remove_def quiet_simps [OF assms(1)] queue_defs without_front_def
        count_drop_def Let_def)
qed


definition streams :: "zstd \<Rightarrow> queue \<Rightarrow> signal \<Rightarrow> bytes list" where
  "streams z q sg = abs_stream (queue_abs z q) sg"

text \<open>
  One step of the loop: it gives back one segment, or there is nothing left and the queue
  is empty. What a signal holds afterwards is the end of what it held.
\<close>

definition shed :: "zstd \<Rightarrow> queue \<Rightarrow> queue \<Rightarrow> bool" where
  "shed z q q' \<longleftrightarrow>
     queue_inv z q' \<and> q_limits q' = q_limits q \<and>
     (\<forall>s. suffix (streams z q' s) (streams z q s)) \<and>
     dropped_segments (q_stats q) \<le> dropped_segments (q_stats q') \<and>
     (dropped_segments (q_stats q') = dropped_segments (q_stats q) \<longrightarrow> streams z q' = streams z q)"

lemma shed_refl: "queue_inv z q \<Longrightarrow> shed z q q"
  by (simp add: shed_def)

lemma shed_trans: "shed z a b \<Longrightarrow> shed z b c \<Longrightarrow> shed z a c"
  unfolding shed_def using suffix_order.trans by (metis le_antisym le_trans)

lemma drop_sealed_shed:
  assumes "quiet z env" and "queue_inv z q" and "oldest_sealed q = Some (sg, seq)"
  shows "\<exists>q'. drop_oldest env q = (Inr (), q') \<and> shed z q q' \<and> pending q' + 1 = pending q"
proof -
  obtain front rest where "sq_segments (q_signals q sg) = front # rest" "rest \<noteq> []"
    using oldest_sealed_Some [OF queue_invD(3) [OF assms(2)] assms(3)] by metis
  note wf = without_front_inv [OF assms(2) this]
  have stats: "dropped_segments (q_stats (without_front sg q)) = dropped_segments (q_stats q)"
    "q_limits (without_front sg q) = q_limits q"
    by (simp_all add: without_front_def queue_defs Let_def)
  show ?thesis
    using drop_sealed [OF assms] wf stats
    by (auto simp: shed_def streams_def abs_stream_drop)
qed

lemma drop_oldest_shed:
  assumes "quiet z env" and "queue_inv z q"
  shows "\<exists>q'. drop_oldest env q = (Inr (), q') \<and> shed z q q'
    \<and> (pending q' + 1 = pending q \<or> queued_bytes (q_stats q') = 0)"
proof (cases "oldest_sealed q")
  case (Some x)
  then show ?thesis using drop_sealed_shed [OF assms] by (cases x) metis
next
  case None
  obtain q1 where q1: "op_each (roll env) all_signals q = (Inr (), q1)" "queue_inv z q1"
    "queue_abs z q1 = fold abs_roll all_signals (queue_abs z q)" "\<And>s. sq_since (q_signals q1 s) = None"
    "pending q1 = pending q" "q_limits q1 = q_limits q"
    "dropped_segments (q_stats q1) = dropped_segments (q_stats q)"
    using roll_all_quiet [OF assms] by metis
  have shed1: "shed z q q1"
    using q1 by (simp add: shed_def streams_def fold_abs_roll_stream fun_eq_iff)
  show ?thesis
  proof (cases "oldest_sealed q1")
    case None
    have "sq_segments (q_signals q1 s) \<noteq> []" for s
      using q1(2) by (auto simp: queue_inv_def signal_inv_def)
    then have "sealed_of q1 s = []" for s using None oldest_sealed_None by metis
    then have "queued_bytes (q_stats q1) = 0"
      using nothing_pending q1(2,4) assms(1) by (auto simp: quiet_def)
    then show ?thesis
      using \<open>oldest_sealed q = None\<close> None q1(1) shed1 by (simp add: drop_oldest_def)
  next
    case (Some x)
    then obtain q2 where "drop_oldest env q1 = (Inr (), q2)" "shed z q1 q2" "pending q2 + 1 = pending q1"
      using drop_sealed_shed [OF assms(1) q1(2)] by (cases x) metis
    moreover have "drop_oldest env q = drop_oldest env q1"
      using \<open>oldest_sealed q = None\<close> Some q1(1) by (simp add: drop_oldest_def)
    ultimately show ?thesis using shed_trans [OF shed1] q1(5) by auto
  qed
qed

subsection \<open>Making room ends\<close>

lemma make_room_quiet:
  assumes "quiet z env" and "queue_inv z q" and "plain_len \<le> max_bytes (q_limits q)"
  shows "\<exists>q'. make_room env plain_len q = Some (Inr (), q') \<and> shed z q q'
    \<and> queued_bytes (q_stats q') + plain_len \<le> max_bytes (q_limits q')"
  using assms(2,3)
proof (induction "pending q" arbitrary: q rule: less_induct)
  case less
  show ?case
  proof (cases "queued_bytes (q_stats q) + plain_len > max_bytes (q_limits q)")
    case False
    then show ?thesis using less.prems by (simp add: make_room.simps shed_refl)
  next
    case True
    obtain q1 where q1: "drop_oldest env q = (Inr (), q1)" "shed z q q1"
      "pending q1 + 1 = pending q \<or> queued_bytes (q_stats q1) = 0"
      using drop_oldest_shed [OF assms(1) less.prems(1)] by blast
    have step: "make_room env plain_len q = make_room env plain_len q1"
      using True q1(1) by (simp add: make_room.simps [of env plain_len q])
    have prems: "queue_inv z q1" "plain_len \<le> max_bytes (q_limits q1)"
      using q1(2) less.prems(2) by (auto simp: shed_def)
    show ?thesis
    proof (cases "pending q1 + 1 = pending q")
      case True
      then obtain q' where "make_room env plain_len q1 = Some (Inr (), q')" "shed z q1 q'"
        "queued_bytes (q_stats q') + plain_len \<le> max_bytes (q_limits q')"
        using less.hyps [of q1] prems by auto
      then show ?thesis using step shed_trans [OF q1(2)] by auto
    next
      case False
      then have "make_room env plain_len q1 = Some (Inr (), q1)"
        using q1(3) prems by (simp add: make_room.simps [of env plain_len q1])
      then show ?thesis using step q1 False prems by auto
    qed
  qed
qed

subsection \<open>Appending\<close>

lemma append_chunks_quiet:
  assumes q: "quiet z env" and inv: "queue_inv z q" and size: "wire_sized (concat chunks)"
    and fits: "record_header_bytes + length (concat chunks) \<le> max_bytes (q_limits q)"
  shows "\<exists>q1 q'. append_chunks env sg chunks q = Some (Inr (), q') \<and> shed z q q1 \<and> queue_inv z q'
    \<and> (\<forall>s. streams z q' s = streams z q1 s @ (if s = sg then [concat chunks] else []))
    \<and> (\<exists>us. aq_open (queue_abs z q') sg = us @ [concat chunks])
    \<and> dropped_segments (q_stats q') = dropped_segments (q_stats q1)"
proof -
  let ?n = "sum_list (map length chunks)"
  have n: "?n = length (concat chunks)" by (simp add: length_concat)
  obtain q1 where q1: "make_room env (record_header_bytes + ?n) q = Some (Inr (), q1)" "shed z q q1"
    using make_room_quiet [OF q inv] fits n by metis
  have inv1: "queue_inv z q1" using q1(2) by (simp add: shed_def)
  define full where "full = (\<lambda>p. if sw_written (e_zstd env) (sq_active (q_signals p sg)) \<ge> max_segment_bytes (q_limits p)
      then roll env sg p else (Inr (), p))"
  obtain q2 where q2: "full q1 = (Inr (), q2)" "queue_inv z q2" "streams z q2 = streams z q1"
    "dropped_segments (q_stats q2) = dropped_segments (q_stats q1)"
  proof (cases "sw_written (e_zstd env) (sq_active (q_signals q1 sg)) \<ge> max_segment_bytes (q_limits q1)")
    case True
    then show ?thesis
      using that [of "snd (roll env sg q1)"] roll_inv [OF q inv1] roll_abs [OF q inv1] roll_since_pending [OF q inv1]
      by (simp add: full_def streams_def fun_eq_iff prod_eq_iff)
  next
    case False
    then show ?thesis using that [of q1] inv1 by (simp add: full_def)
  qed
  note w = write_into_quiet [OF q q2(2) refl size]
  let ?q = "snd (write_into env sg ?n chunks q2)"
  have "append_chunks env sg chunks q = Some (write_into env sg ?n chunks q2)"
    using q1(1) q2(1) fits n
    by (auto simp: append_chunks_def write_record_def full_def op_then_def split: if_splits)
  then have "append_chunks env sg chunks q = Some (Inr (), ?q)" using w by (simp add: prod_eq_iff)
  moreover have "streams z ?q s = streams z q1 s @ (if s = sg then [concat chunks] else [])" for s
    using w [of sg] q2(3) by (simp add: streams_def abs_stream_append fun_eq_iff)
  moreover have "\<exists>us. aq_open (queue_abs z ?q) sg = us @ [concat chunks]"
    using w [of sg] by (simp add: abs_append_def)
  ultimately show ?thesis
    using w [of sg] q1(2) q2(4) by (intro exI [of _ q1] exI [of _ ?q]) simp
qed

subsection \<open>Retiring\<close>

lemma funpow_without_front:
  assumes "sq_segments (q_signals q sg) = xs @ ys" and "ys \<noteq> []"
  shows "(without_front sg ^^ length xs) q =
    (set_dir sg (fold (\<lambda>h. AList.delete (seg_path (h_seq h))) xs (q_dirs q sg))
       (set_signal sg ((q_signals q sg)\<lparr>sq_segments := ys\<rparr>) q))
      \<lparr>q_stats := (q_stats q)\<lparr>queued_bytes := queued_bytes (q_stats q) - sum_list (map h_bytes xs)\<rparr>\<rparr>"
  using assms
proof (induction xs arbitrary: q)
  case Nil
  have "(q_signals q sg)\<lparr>sq_segments := ys\<rparr> = q_signals q sg"
    using Nil by (intro signal_queue.equality) simp_all
  then show ?case by (simp add: queue_defs)
next
  case (Cons x xs)
  have "sq_segments (q_signals (without_front sg q) sg) = xs @ ys"
    using Cons.prems by (simp add: without_front_def queue_defs)
  note IH = Cons.IH [OF this Cons.prems(2)]
  have "(without_front sg ^^ length (x # xs)) q = (without_front sg ^^ length xs) (without_front sg q)"
    by (simp add: funpow_Suc_right del: funpow.simps(2))
  then show ?case
    using Cons.prems by (simp only: IH) (simp add: without_front_def queue_defs)
qed

lemma commit_loop_quiet:
  assumes "quiet z env" and "\<And>h. h \<in> set hs \<Longrightarrow> h_seq h < active \<and> seg_exists d (h_seq h)"
    and "distinct (map h_seq hs)" and "h_seq a = active"
  shows "commit_loop env sg acked active (hs @ [a]) d freed =
    (let xs = takeWhile (\<lambda>h. h_seq h \<le> acked) hs in
     (Inr (freed + sum_list (map h_bytes xs)), dropWhile (\<lambda>h. h_seq h \<le> acked) hs @ [a],
      fold (\<lambda>h. AList.delete (seg_path (h_seq h))) xs d))"
  using assms(2,3)
proof (induction hs arbitrary: d freed)
  case Nil
  then show ?case using assms(4) by simp
next
  case (Cons h hs)
  have "h_seq h < active" "seg_exists d (h_seq h)" using Cons.prems by auto
  show ?case
  proof (cases "h_seq h \<le> acked")
    case False
    then show ?thesis by simp
  next
    case True
    have "h_seq x \<noteq> h_seq h" if "x \<in> set hs" for x
      using that Cons.prems(2) by (auto simp: image_iff)
    then have "commit_loop env sg acked active (hs @ [a]) (AList.delete (seg_path (h_seq h)) d) (freed + h_bytes h) =
      (let xs = takeWhile (\<lambda>h. h_seq h \<le> acked) hs in
       (Inr (freed + h_bytes h + sum_list (map h_bytes xs)), dropWhile (\<lambda>h. h_seq h \<le> acked) hs @ [a],
        fold (\<lambda>h. AList.delete (seg_path (h_seq h))) xs (AList.delete (seg_path (h_seq h)) d)))"
      using Cons.prems by (intro Cons.IH) auto
    then show ?thesis
      using True \<open>h_seq h < active\<close> \<open>seg_exists d (h_seq h)\<close>
      by (simp add: seg_remove_def quiet_simps [OF assms(1)] Let_def)
  qed
qed


lemma dropWhile_length_takeWhile: "drop (length (takeWhile P xs)) xs = dropWhile P xs"
  by (induction xs) auto

lemma abs_drop_funpow:
  "aq_sealed ((abs_drop sg ^^ n) a) s = (if s = sg then drop n (aq_sealed a s) else aq_sealed a s)"
  "aq_open ((abs_drop sg ^^ n) a) s = aq_open a s" "aq_next ((abs_drop sg ^^ n) a) s = aq_next a s"
proof (induction n)
  case (Suc n)
  {
    case 1
    from Suc(1) show ?case by (cases "s = sg") (simp_all add: abs_drop_def tl_drop drop_Suc)
  next
    case 2
    from Suc(2) show ?case by (simp add: abs_drop_def)
  next
    case 3
    from Suc(3) show ?case by (simp add: abs_drop_def)
  }
qed simp_all

lemma funpow_without_front_inv:
  assumes "queue_inv z q" and "sq_segments (q_signals q sg) = xs @ ys" and "ys \<noteq> []"
  shows "queue_inv z ((without_front sg ^^ length xs) q)
    \<and> queue_abs z ((without_front sg ^^ length xs) q) = (abs_drop sg ^^ length xs) (queue_abs z q)"
  using assms
proof (induction xs arbitrary: q)
  case Nil
  then show ?case by simp
next
  case (Cons x xs)
  have "sq_segments (q_signals (without_front sg q) sg) = xs @ ys"
    using Cons.prems by (simp add: without_front_def queue_defs)
  moreover have "xs @ ys \<noteq> []" using Cons.prems by simp
  ultimately show ?case
    using Cons.IH [of "without_front sg q"] Cons.prems without_front_inv [of z q sg x "xs @ ys"]
    by (simp add: funpow_Suc_right del: funpow.simps(2))
qed

text \<open>
  \<open>commit\<close> unlinks exactly the closed segments numbered up to \<open>acked\<close>, never the open one.
\<close>

lemma commit_quiet:
  assumes q: "quiet z env" and inv: "queue_inv z q"
  shows "fst (commit env sg acked q) = Inr () \<and> queue_inv z (snd (commit env sg acked q))
    \<and> queue_abs z (snd (commit env sg acked q)) = abs_commit sg acked (queue_abs z q)"
proof -
  have sinv: "signal_inv z (q_dirs q sg) (q_signals q sg)" using inv by (simp add: queue_inv_def)
  obtain hs a where segs: "sq_segments (q_signals q sg) = hs @ [a]"
    and lt: "\<And>h. h \<in> set hs \<Longrightarrow> h_seq h < h_seq a"
    and sorted: "sorted_wrt (<) (map h_seq hs)" and ok: "\<And>h. h \<in> set hs \<Longrightarrow> sealed_ok z (q_dirs q sg) h"
    using signal_inv_split [OF sinv] by metis
  let ?tw = "takeWhile (\<lambda>h. h_seq h \<le> acked) hs" and ?dw = "dropWhile (\<lambda>h. h_seq h \<le> acked) hs"
  have split: "sq_segments (q_signals q sg) = ?tw @ (?dw @ [a])" using segs by simp
  have "distinct (map h_seq hs)" using sorted strict_sorted_iff by blast
  then have loop: "commit_loop env sg acked (h_seq a) (hs @ [a]) (q_dirs q sg) 0 =
      (Inr (sum_list (map h_bytes ?tw)), ?dw @ [a],
       fold (\<lambda>h. AList.delete (seg_path (h_seq h))) ?tw (q_dirs q sg))"
    using commit_loop_quiet [OF q, where hs = hs and a = a and d = "q_dirs q sg" and freed = 0] lt ok
    by (auto simp: sealed_ok_def Let_def)
  have "commit env sg acked q = (Inr (), (without_front sg ^^ length ?tw) q)"
    using loop segs funpow_without_front [OF split] by (simp add: commit_def queue_defs)
  moreover have "(abs_drop sg ^^ length ?tw) (queue_abs z q) = abs_commit sg acked (queue_abs z q)"
  proof -
    have "dropWhile (\<lambda>s. fst s \<le> acked) (abs_sealed z d hs) = drop (length ?tw) (abs_sealed z d hs)" for d
      by (simp add: abs_sealed_def dropWhile_map comp_def dropWhile_length_takeWhile drop_map)
    then show ?thesis
      using segs by (intro abs_queue_eqI) (simp_all add: abs_drop_funpow abs_commit_def queue_abs_def sealed_of_def)
  qed
  ultimately show ?thesis using funpow_without_front_inv [OF inv split] by simp
qed

end
