(* ===== verification/QueueRecover.thy ===== *)
theory QueueRecover
  imports QueueRetire "HOL-Library.Multiset"
begin

text \<open>
  Starting over what a crash left. A closed segment was synced before it was offered to
  anyone, so its file is whole; the open segment's file is some prefix of what the stream
  would have written. \<open>Queue::open\<close> lists each directory, takes the next number above
  everything listed, reseals the last segment at its last whole record and orders the
  closed segments of the three signals by the files' times.
\<close>

subsection \<open>A directory that holds given segments\<close>

definition file_modified :: "dir \<Rightarrow> nat \<Rightarrow> nat" where
  "file_modified d seq = (case map_of d (seg_path seq) of None \<Rightarrow> 0 | Some f \<Rightarrow> f_modified f)"

definition seg_entry :: "dir \<Rightarrow> nat \<Rightarrow> segment_file" where
  "seg_entry d seq = \<lparr>sf_seq = seq, sf_bytes = length (file_content d seq), sf_modified = file_modified d seq\<rparr>"

text \<open>
  What \<open>list\<close> finds is the numbers \<open>seqs\<close>, in order, each in the file of its own name.
\<close>

definition dir_lists :: "dir \<Rightarrow> nat list \<Rightarrow> bool" where
  "dir_lists d seqs \<longleftrightarrow>
     distinct (map fst d) \<and> map sf_seq (seg_list d) = seqs \<and> sorted_wrt (<) seqs \<and>
     (\<forall>s \<in> set seqs. seg_exists d s \<and> s \<le> u64_max)"

lemma seg_list_entry:
  assumes "distinct (map fst d)" and "seg_exists d s" and "s \<le> u64_max"
  shows "seg_entry d s \<in> set (seg_list d)"
proof -
  obtain f where f: "map_of d (seg_path s) = Some f" using assms(2) by (auto simp: seg_exists_def)
  then have "(seg_path s, f) \<in> set d" by (rule map_of_SomeD)
  moreover have "list_entry (seg_path s, f) = Some (seg_entry d s)"
    using f assms(3) by (simp add: list_entry_seg_path seg_entry_def file_content_def file_modified_def)
  ultimately show ?thesis by (force simp: seg_list_def map_filter_def)
qed

lemma dir_lists_seg_list:
  assumes "dir_lists d seqs"
  shows "seg_list d = map (seg_entry d) seqs"
proof (rule nth_equalityI)
  have dist: "distinct seqs" using assms strict_sorted_iff by (auto simp: dir_lists_def)
  have seqs: "map sf_seq (seg_list d) = seqs" using assms by (simp add: dir_lists_def)
  show len: "length (seg_list d) = length (map (seg_entry d) seqs)"
    using seqs by (metis length_map)
  fix i assume i: "i < length (seg_list d)"
  have si: "sf_seq (seg_list d ! i) = seqs ! i" using seqs i by (metis nth_map)
  have "seqs ! i \<in> set seqs" using i len by simp
  then have "seg_entry d (seqs ! i) \<in> set (seg_list d)"
    using assms by (auto simp: dir_lists_def intro: seg_list_entry)
  then obtain j where j: "j < length (seg_list d)" "seg_list d ! j = seg_entry d (seqs ! i)"
    by (auto simp: in_set_conv_nth)
  then have "seqs ! j = seqs ! i" using seqs by (metis nth_map seg_entry_def segment_file.select_convs(1))
  then have "j = i" using dist i j len by (simp add: nth_eq_iff_index_eq)
  then show "seg_list d ! i = map (seg_entry d) seqs ! i" using j i len by simp
qed

subsection \<open>Resealing the last segment\<close>

text \<open>
  What a crash leaves of a segment: a piece from the start of the stream that would have
  held \<open>rs\<close>, and nothing at all when no record had been written.
\<close>

definition crashed_file :: "zstd \<Rightarrow> bytes \<Rightarrow> bytes list \<Rightarrow> bool" where
  "crashed_file z content rs \<longleftrightarrow>
     (\<exists>ws. writes_records ws rs \<and> prefix content (z_close z ws) \<and> (rs = [] \<longrightarrow> content = []))"

definition readable_records :: "zstd \<Rightarrow> bytes \<Rightarrow> bytes list" where
  "readable_records z content =
     (let plain = fst (z_read z content) in
      if content = [] then []
      else (case split_records (take (whole_records_len plain) plain) of Inl _ \<Rightarrow> [] | Inr rs \<Rightarrow> rs))"

definition sealed_file :: "zstd \<Rightarrow> dir \<Rightarrow> nat \<Rightarrow> bool" where
  "sealed_file z d s \<longleftrightarrow>
     (\<exists>ws rs. seg_exists d s \<and> file_content d s = z_close z ws \<and> writes_records ws rs \<and> rs \<noteq> [])"

lemma writes_records_single:
  "list_all wire_sized rs \<Longrightarrow> rs \<noteq> [] \<Longrightarrow> writes_records [framed rs] rs"
  by (simp add: writes_records_def)

lemma readable_records_crashed:
  assumes z: "zstd_ok z" and c: "crashed_file z content rs"
  obtains k where "k \<le> length rs" and "readable_records z content = take k rs"
    and "content \<noteq> [] \<Longrightarrow> take (whole_records_len (fst (z_read z content))) (fst (z_read z content))
           = framed (take k rs)"
    and "\<And>j. content \<noteq> [] \<Longrightarrow> j \<le> length rs \<Longrightarrow>
           length (framed (take j rs)) \<le> length (fst (z_read z content)) \<Longrightarrow> j \<le> k"
proof (cases "content = []")
  case True
  then show thesis using that [of 0] by (simp add: readable_records_def)
next
  case False
  obtain ws where ws: "writes_records ws rs" "prefix content (z_close z ws)"
    using c by (auto simp: crashed_file_def)
  then have "list_all wire_sized rs" and "concat ws = framed rs" by (simp_all add: writes_records_def)
  moreover obtain plain whole where rd: "z_read z content = (plain, whole)" by fastforce
  ultimately obtain k where k: "k \<le> length rs" "take (whole_records_len plain) plain = framed (take k rs)"
    "\<And>j. j \<le> length rs \<Longrightarrow> length (framed (take j rs)) \<le> length plain \<Longrightarrow> j \<le> k"
    using reseal_plain [OF z ws(2)] by metis
  have "list_all wire_sized (take k rs)"
    using \<open>list_all wire_sized rs\<close> by (metis append_take_drop_id list_all_append)
  then have "readable_records z content = take k rs"
    using False by (simp add: readable_records_def rd k(2) split_records_framed)
  then show thesis using that [of k] k rd by simp
qed

lemma reseal_crashed:
  assumes z: "zstd_ok z" and ex: "seg_exists d s" and c: "crashed_file z (file_content d s) rs"
  shows "if readable_records z (file_content d s) = [] then
           reseal z wall s d = (Inr None, AList.delete (seg_path s) d)
         else \<exists>d' ws. reseal z wall s d = (Inr (Some (length (file_content d' s))), d') \<and>
           seg_exists d' s \<and> file_content d' s = z_close z ws \<and>
           writes_records ws (readable_records z (file_content d s)) \<and>
           (\<forall>s'. s' \<noteq> s \<longrightarrow> map_of d' (seg_path s') = map_of d (seg_path s'))"
proof -
  obtain f where f: "map_of d (seg_path s) = Some f" using ex by (auto simp: seg_exists_def)
  then have fc: "file_content d s = f_content f" by (simp add: file_content_def)
  obtain plain whole where rd: "z_read z (f_content f) = (plain, whole)" by fastforce
  obtain ws where ws: "writes_records ws rs" "prefix (f_content f) (z_close z ws)" "rs = [] \<longrightarrow> f_content f = []"
    using c fc by (auto simp: crashed_file_def)
  show ?thesis
  proof (cases "f_content f = []")
    case True
    then show ?thesis by (simp add: reseal_def f fc readable_records_def)
  next
    case False
    obtain k where k: "k \<le> length rs" "readable_records z (f_content f) = take k rs"
      "take (whole_records_len plain) plain = framed (take k rs)"
      using readable_records_crashed [OF z c] False fc rd by (metis fst_conv)
    show ?thesis
    proof (cases "whole \<and> whole_records_len plain = length plain")
      case True
      then have "f_content f = z_close z ws"
        using zstd_ok_read_whole [OF z ws(2) False] rd by simp
      moreover then have "plain = framed rs"
        using zstd_ok_read_close [OF z, of ws] rd ws(1) by (simp add: writes_records_def)
      moreover have "readable_records z (f_content f) = rs"
        using calculation True ws(1) False rd
        by (simp add: readable_records_def split_records_framed writes_records_def)
      moreover have "rs \<noteq> []" using ws(3) False by auto
      moreover have "reseal z wall s d = (Inr (Some (length (file_content d s))), d)"
        using True False by (simp add: reseal_def f fc rd)
      ultimately show ?thesis
        using ws(1) ex fc by auto
    next
      case nw: False
      have ok: "list_all wire_sized (take k rs)"
        using ws(1) unfolding writes_records_def by (metis append_take_drop_id list_all_append)
      show ?thesis
      proof (cases "take k rs = []")
        case True
        then show ?thesis using k nw False by (auto simp: reseal_def f fc rd Let_def)
      next
        case ne: False
        let ?r = "rewrite z wall s (framed (take k rs)) d"
        have "framed (take k rs) \<noteq> []" using ne framed_inj [OF ok, of "[]"] by auto
        then have rs: "reseal z wall s d = (Inr (Some (fst ?r)), snd ?r)"
          using k(3) nw False by (auto simp: reseal_def f fc rd Let_def rewrite_def)
        have new: "map_of (snd ?r) (seg_path s)
            = Some \<lparr>f_content = z_close z [framed (take k rs)], f_modified = wall\<rparr>"
          by (rule map_of_rewrite)
        have oth: "\<forall>s'. s' \<noteq> s \<longrightarrow> map_of (snd ?r) (seg_path s') = map_of d (seg_path s')"
          by (simp add: rewrite_def rewrite_steps_def Let_def update_conv' delete_conv')
        show ?thesis
          using rs new oth ne writes_records_single [OF ok ne] k(2) fc
          by (auto simp: seg_exists_def file_content_def rewrite_def)
      qed
    qed
  qed
qed

subsection \<open>One signal's directory\<close>

definition crashed_dir :: "zstd \<Rightarrow> dir \<Rightarrow> nat list \<Rightarrow> bytes list \<Rightarrow> bool" where
  "crashed_dir z d seqs rs \<longleftrightarrow>
     dir_lists (sweep_temporaries d) seqs \<and> (\<forall>s \<in> set (butlast seqs). sealed_file z d s) \<and>
     (seqs \<noteq> [] \<longrightarrow> crashed_file z (file_content d (last seqs)) rs)"

definition recovered_seqs :: "zstd \<Rightarrow> dir \<Rightarrow> nat list \<Rightarrow> nat list" where
  "recovered_seqs z d seqs =
     (if seqs = [] \<or> readable_records z (file_content d (last seqs)) = [] then butlast seqs else seqs)"

definition recovered_records :: "zstd \<Rightarrow> dir \<Rightarrow> nat list \<Rightarrow> nat \<Rightarrow> bytes list" where
  "recovered_records z d seqs s =
     (if s = last seqs then readable_records z (file_content d s) else seg_records z (file_content d s))"

definition next_after :: "nat list \<Rightarrow> nat" where
  "next_after seqs = (if seqs = [] then first_segment else last seqs + 1)"

definition recovered_ok :: "zstd \<Rightarrow> dir \<Rightarrow> nat list \<Rightarrow> segment_file list \<Rightarrow> dir \<Rightarrow> bool" where
  "recovered_ok z d seqs files d2 \<longleftrightarrow>
     map sf_seq files = recovered_seqs z d seqs \<and>
     map sf_modified files = map (file_modified d) (recovered_seqs z d seqs) \<and>
     (\<forall>f \<in> set files. sealed_file z d2 (sf_seq f) \<and> sf_bytes f = length (file_content d2 (sf_seq f)) \<and>
        seg_records z (file_content d2 (sf_seq f)) = recovered_records z d seqs (sf_seq f))"

lemma file_content_sweep [simp]: "file_content (sweep_temporaries d) s = file_content d s"
  by (simp add: file_content_def)

lemma seg_exists_sweep [simp]: "seg_exists (sweep_temporaries d) s = seg_exists d s"
  by (simp add: seg_exists_def)

lemma file_modified_sweep [simp]: "file_modified (sweep_temporaries d) s = file_modified d s"
  by (simp add: file_modified_def)

lemma sealed_file_cong:
  "map_of d' (seg_path s) = map_of d (seg_path s) \<Longrightarrow> sealed_file z d' s = sealed_file z d s"
  by (simp add: sealed_file_def seg_exists_def file_content_def)

lemma file_content_cong:
  "map_of d' (seg_path s) = map_of d (seg_path s) \<Longrightarrow> file_content d' s = file_content d s"
  by (simp add: file_content_def)

lemma recovered_ok_untouched:
  assumes "\<forall>s \<in> set others. map_of d2 (seg_path s) = map_of d (seg_path s)"
    and "\<forall>s \<in> set others. sealed_file z d s" and "f \<in> set (map (seg_entry (sweep_temporaries d)) others)"
    and "\<forall>s \<in> set others. s \<noteq> last seqs"
  shows "sealed_file z d2 (sf_seq f) \<and> sf_bytes f = length (file_content d2 (sf_seq f)) \<and>
     seg_records z (file_content d2 (sf_seq f)) = recovered_records z d seqs (sf_seq f)"
proof -
  obtain s where s: "s \<in> set others" "f = seg_entry (sweep_temporaries d) s" using assms(3) by auto
  then have eq: "map_of d2 (seg_path s) = map_of d (seg_path s)" and "s \<noteq> last seqs" using assms by auto
  then show ?thesis
    using s assms(2) sealed_file_cong [OF eq, of z] file_content_cong [OF eq]
    by (simp add: seg_entry_def recovered_records_def)
qed

lemma sealed_file_records:
  "zstd_ok z \<Longrightarrow> file_content d s = z_close z ws \<Longrightarrow> writes_records ws rs \<Longrightarrow>
     seg_records z (file_content d s) = rs"
  by (simp add: seg_records_close)

lemma recover_signal_crashed:
  assumes z: "zstd_ok z" and c: "crashed_dir z d seqs rs"
  shows "\<exists>files d2. recover_signal z wall d = Inr (files, next_after seqs, d2) \<and>
     recovered_ok z d seqs files d2"
proof (cases "seqs = []")
  case True
  then have "seg_list (sweep_temporaries d) = []"
    using c by (simp add: crashed_dir_def dir_lists_def)
  then show ?thesis using True
    by (simp add: recover_signal_def next_after_def recovered_ok_def recovered_seqs_def)
next
  case False
  let ?d1 = "sweep_temporaries d"
  define lst where "lst = last seqs"
  define others where "others = butlast seqs"
  have seqs: "seqs = others @ [lst]" using False by (simp add: lst_def others_def)
  have dl: "dir_lists ?d1 seqs" using c by (simp add: crashed_dir_def)
  have files: "seg_list ?d1 = map (seg_entry ?d1) others @ [seg_entry ?d1 lst]"
    using dir_lists_seg_list [OF dl] seqs by simp
  have lt: "\<forall>s \<in> set others. s \<noteq> lst"
    using dl seqs by (auto simp: dir_lists_def sorted_wrt_append)
  have sealed: "\<forall>s \<in> set others. sealed_file z d s" using c by (simp add: crashed_dir_def others_def)
  have ex: "seg_exists ?d1 lst" using dl seqs by (simp add: dir_lists_def)
  have cf: "crashed_file z (file_content ?d1 lst) rs" using c False by (simp add: crashed_dir_def lst_def)
  have un: "sealed_file z d2 (sf_seq f) \<and> sf_bytes f = length (file_content d2 (sf_seq f)) \<and>
     seg_records z (file_content d2 (sf_seq f)) = recovered_records z d seqs (sf_seq f)"
    if "f \<in> set (map (seg_entry ?d1) others)"
      and "\<forall>s'. s' \<noteq> lst \<longrightarrow> map_of d2 (seg_path s') = map_of d (seg_path s')" for f d2
    using recovered_ok_untouched [of others d2 d z f seqs] that sealed lt by (auto simp: lst_def)
  note rs = reseal_crashed [OF z ex cf, of wall]
  show ?thesis
  proof (cases "readable_records z (file_content d lst) = []")
    case True
    let ?d2 = "AList.delete (seg_path lst) ?d1"
    have "recover_signal z wall d = Inr (map (seg_entry ?d1) others, next_after seqs, ?d2)"
      using rs True files by (simp add: recover_signal_def next_after_def seg_entry_def seqs Let_def)
    moreover have "recovered_ok z d seqs (map (seg_entry ?d1) others) ?d2"
      unfolding recovered_ok_def
    proof (intro conjI ballI)
      show "map sf_seq (map (seg_entry ?d1) others) = recovered_seqs z d seqs"
        using True seqs by (simp add: recovered_seqs_def seg_entry_def comp_def)
      show "map sf_modified (map (seg_entry ?d1) others) = map (file_modified d) (recovered_seqs z d seqs)"
        using True seqs by (simp add: recovered_seqs_def seg_entry_def comp_def)
      fix f assume "f \<in> set (map (seg_entry ?d1) others)"
      moreover have "\<forall>s'. s' \<noteq> lst \<longrightarrow> map_of ?d2 (seg_path s') = map_of d (seg_path s')"
        by (simp add: delete_conv')
      ultimately have "sealed_file z ?d2 (sf_seq f) \<and> sf_bytes f = length (file_content ?d2 (sf_seq f)) \<and>
          seg_records z (file_content ?d2 (sf_seq f)) = recovered_records z d seqs (sf_seq f)"
        by (rule un)
      then show "sealed_file z ?d2 (sf_seq f)" and "sf_bytes f = length (file_content ?d2 (sf_seq f))"
        and "seg_records z (file_content ?d2 (sf_seq f)) = recovered_records z d seqs (sf_seq f)"
        by (fast, fast, fast)
    qed
    ultimately show ?thesis by blast
  next
    case ne: False
    then obtain d2 ws where d2: "reseal z wall lst ?d1 = (Inr (Some (length (file_content d2 lst))), d2)"
      "seg_exists d2 lst" "file_content d2 lst = z_close z ws"
      "writes_records ws (readable_records z (file_content d lst))"
      "\<forall>s'. s' \<noteq> lst \<longrightarrow> map_of d2 (seg_path s') = map_of d (seg_path s')"
      using rs by (auto split: if_splits)
    let ?l = "(seg_entry ?d1 lst)\<lparr>sf_bytes := length (file_content d2 lst)\<rparr>"
    have "recover_signal z wall d = Inr (map (seg_entry ?d1) others @ [?l], next_after seqs, d2)"
      using d2 files by (simp add: recover_signal_def next_after_def seg_entry_def seqs Let_def)
    moreover have "recovered_ok z d seqs (map (seg_entry ?d1) others @ [?l]) d2"
      unfolding recovered_ok_def
    proof (intro conjI ballI)
      show "map sf_seq (map (seg_entry ?d1) others @ [?l]) = recovered_seqs z d seqs"
        using ne seqs by (simp add: recovered_seqs_def seg_entry_def comp_def)
      show "map sf_modified (map (seg_entry ?d1) others @ [?l]) = map (file_modified d) (recovered_seqs z d seqs)"
        using ne seqs by (simp add: recovered_seqs_def seg_entry_def comp_def)
      fix f assume f: "f \<in> set (map (seg_entry ?d1) others @ [?l])"
      have l: "sealed_file z d2 lst \<and> seg_records z (file_content d2 lst) = recovered_records z d seqs lst"
        using d2 ne sealed_file_records [OF z d2(3,4)] seqs
        by (auto simp: sealed_file_def recovered_records_def)
      show "sealed_file z d2 (sf_seq f)" and "sf_bytes f = length (file_content d2 (sf_seq f))"
        and "seg_records z (file_content d2 (sf_seq f)) = recovered_records z d seqs (sf_seq f)"
        using f l un [of f d2] d2(5) by (auto simp: seg_entry_def)
    qed
    ultimately show ?thesis by blast
  qed
qed

subsection \<open>The order the closed segments come back in\<close>

lemma filter_zip_snd: "length is = length xs \<Longrightarrow> map snd (filter (\<lambda>p. P (snd p)) (zip is xs)) = filter P xs"
  by (induction "is" xs rule: list_induct2) auto

lemma stamped_segments_files:
  assumes "filter (\<lambda>(s, f). s = sg) order = map (Pair sg) files"
  shows "map h_seq (stamped_segments order sg) = map sf_seq files"
    and "map h_bytes (stamped_segments order sg) = map sf_bytes files"
proof -
  have "filter (\<lambda>(_, s, _). s = sg) (zip [1..<length order + 1] order)
      = filter (\<lambda>p. (\<lambda>(s, f). s = sg) (snd p)) (zip [1..<length order + 1] order)"
    by (rule filter_cong) auto
  then have snd_eq: "map snd (filter (\<lambda>(_, s, _). s = sg) (zip [1..<length order + 1] order)) = map (Pair sg) files"
    using filter_zip_snd [of "[1..<length order + 1]" order "\<lambda>(s, f). s = sg"] assms by (simp del: upt_Suc)
  have "map h_seq (stamped_segments order sg)
      = map (sf_seq \<circ> snd) (map snd (filter (\<lambda>(_, s, _). s = sg) (zip [1..<length order + 1] order)))"
    by (auto simp: stamped_segments_def)
  then show "map h_seq (stamped_segments order sg) = map sf_seq files"
    unfolding snd_eq by (simp add: comp_def)
  have "map h_bytes (stamped_segments order sg)
      = map (sf_bytes \<circ> snd) (map snd (filter (\<lambda>(_, s, _). s = sg) (zip [1..<length order + 1] order)))"
    by (auto simp: stamped_segments_def)
  then show "map h_bytes (stamped_segments order sg) = map sf_bytes files"
    unfolding snd_eq by (simp add: comp_def)
qed

lemma stamped_segments_sorted: "sorted_wrt (<) (map h_stamp (stamped_segments order sg))"
proof -
  have "sorted_wrt (<) (map fst (zip [1..<length order + 1] order))" by (simp del: upt_Suc)
  then have "sorted_wrt (\<lambda>a b. fst a < fst b) (zip [1..<length order + 1] order)"
    by (simp only: sorted_wrt_map)
  then have "sorted_wrt (\<lambda>a b. fst a < fst b)
      (filter (\<lambda>(_, s, _). s = sg) (zip [1..<length order + 1] order))"
    by (rule sorted_wrt_filter)
  then show ?thesis
    by (simp add: stamped_segments_def sorted_wrt_map case_prod_beta comp_def)
qed

lemma stamped_segments_at:
  "h \<in> set (stamped_segments order sg) \<Longrightarrow>
     1 \<le> h_stamp h \<and> h_stamp h \<le> length order \<and> fst (order ! (h_stamp h - 1)) = sg"
  by (auto simp: stamped_segments_def in_set_zip simp del: upt_Suc)

lemma recovered_order_filter:
  assumes "rec = [(Logs, a, na, da), (Traces, b, nb, db), (Metrics, c, nc, dc)]"
    and "files = fst (recovered_entry rec sg)"
    and "sorted (map (\<lambda>f. (sf_modified f, sf_seq f)) files)"
  shows "filter (\<lambda>(s, f). s = sg) (recovered_order rec) = map (Pair sg) files"
proof -
  let ?k = "\<lambda>(sg, f). (sf_modified f, signal_index sg, sf_seq f)"
  have keep: "filter (\<lambda>(s, f). s = sg) (map (Pair t) fs) = (if t = sg then map (Pair t) fs else [])" for t fs
    by (auto simp: filter_map comp_def)
  have all: "filter (\<lambda>(s, f). s = sg) (concat (map (\<lambda>(sg, files, _, _). map (\<lambda>f. (sg, f)) files) rec))
      = map (Pair sg) files"
    using assms(1,2) by (cases sg) (simp_all add: recovered_entry_def keep)
  have "sorted (map ?k (map (Pair sg) files))"
    using assms(3) unfolding sorted_map by (auto simp: sorted_wrt_map comp_def elim: sorted_wrt_mono_rel [rotated])
  then show ?thesis
    unfolding recovered_order_def filter_sort all by (rule sort_key_id_if_sorted)
qed

lemma recovered_order_bytes:
  assumes "rec = [(Logs, a, na, da), (Traces, b, nb, db), (Metrics, c, nc, dc)]"
  shows "sum_list (map (\<lambda>(_, f). sf_bytes f) (recovered_order rec))
     = sum_list (map (\<lambda>sg. sum_list (map sf_bytes (fst (recovered_entry rec sg)))) all_signals)"
proof -
  have perm: "sum_list (map g (sort_key k xs)) = sum_list (map g xs)" for g :: "_ \<Rightarrow> nat" and k xs
    by (metis mset_map mset_sort sum_mset_sum_list)
  show ?thesis
    unfolding recovered_order_def perm
    by (simp add: assms recovered_entry_def all_signals_def comp_def)
qed

subsection \<open>Opening the queue\<close>

definition crashed_queue :: "zstd \<Rightarrow> (signal \<Rightarrow> dir) \<Rightarrow> (signal \<Rightarrow> nat list) \<Rightarrow> bool" where
  "crashed_queue z dirs seqs \<longleftrightarrow>
     (\<forall>sg. (\<exists>rs. crashed_dir z (dirs sg) (seqs sg) rs) \<and> sorted (map (file_modified (dirs sg)) (seqs sg)))"

lemma crashed_dir_seqs:
  "crashed_dir z d seqs rs \<Longrightarrow> sorted_wrt (<) seqs"
  by (simp add: crashed_dir_def dir_lists_def)

lemma recovered_seqs_prefix: "\<exists>rest. seqs = recovered_seqs z d seqs @ rest"
  by (cases seqs rule: rev_cases) (auto simp: recovered_seqs_def)

lemma next_after_gt: "sorted_wrt (<) seqs \<Longrightarrow> s \<in> set seqs \<Longrightarrow> s < next_after seqs"
  by (cases seqs rule: rev_cases) (auto simp: next_after_def sorted_wrt_append)

lemma sorted_pairs:
  assumes "sorted (map m seqs)" and "sorted_wrt (<) seqs"
  shows "sorted (map (\<lambda>s. (m s, s)) seqs)"
  using assms unfolding sorted_map by (induction seqs) (auto simp: order_le_less)

lemma recovered_ok_sorted:
  assumes ok: "recovered_ok z d seqs files d2" and s: "sorted_wrt (<) seqs" "sorted (map (file_modified d) seqs)"
  shows "sorted_wrt (<) (map sf_seq files)" and "sorted (map (\<lambda>f. (sf_modified f, sf_seq f)) files)"
    and "\<And>f. f \<in> set files \<Longrightarrow> sf_seq f < next_after seqs"
proof -
  obtain rest where rest: "seqs = recovered_seqs z d seqs @ rest" using recovered_seqs_prefix by blast
  let ?r = "recovered_seqs z d seqs"
  have r: "sorted_wrt (<) ?r" "sorted (map (file_modified d) ?r)" using s rest
    by (metis sorted_wrt_append, metis map_append sorted_append)
  show "sorted_wrt (<) (map sf_seq files)" using ok r by (simp add: recovered_ok_def)
  have "map (\<lambda>f. (sf_modified f, sf_seq f)) files = zip (map sf_modified files) (map sf_seq files)"
    by (simp add: zip_map_map zip_same_conv_map)
  also have "\<dots> = map (\<lambda>s. (file_modified d s, s)) ?r"
    using ok unfolding recovered_ok_def by (auto simp: zip_map1 zip_same_conv_map)
  finally show "sorted (map (\<lambda>f. (sf_modified f, sf_seq f)) files)"
    using sorted_pairs [OF r(2,1)] by simp
  fix f assume "f \<in> set files"
  then have "sf_seq f \<in> set ?r" using ok unfolding recovered_ok_def by (metis image_eqI image_set)
  then have "sf_seq f \<in> set seqs" using rest by (metis Un_iff set_append)
  then show "sf_seq f < next_after seqs" using next_after_gt [OF s(1)] by simp
qed

lemma recover_all_crashed:
  assumes z: "zstd_ok z" and c: "crashed_queue z dirs seqs"
  shows "\<exists>rec a da b db m dm. recover_all z wall dirs all_signals = Inr rec \<and>
     rec = [(Logs, a, next_after (seqs Logs), da), (Traces, b, next_after (seqs Traces), db),
            (Metrics, m, next_after (seqs Metrics), dm)] \<and>
     (\<forall>sg. recovered_ok z (dirs sg) (seqs sg) (fst (recovered_entry rec sg)) (snd (snd (recovered_entry rec sg))) \<and>
           fst (snd (recovered_entry rec sg)) = next_after (seqs sg))"
proof -
  have "\<exists>files d2. recover_signal z wall (dirs sg) = Inr (files, next_after (seqs sg), d2) \<and>
     recovered_ok z (dirs sg) (seqs sg) files d2" for sg
    using c recover_signal_crashed [OF z] unfolding crashed_queue_def by blast
  then obtain F D where R: "recover_signal z wall (dirs sg) = Inr (F sg, next_after (seqs sg), D sg)"
    "recovered_ok z (dirs sg) (seqs sg) (F sg) (D sg)" for sg by metis
  let ?rec = "map (\<lambda>sg. (sg, F sg, next_after (seqs sg), D sg)) all_signals"
  have 1: "recover_all z wall dirs all_signals = Inr ?rec" by (simp add: all_signals_def R(1))
  have e: "recovered_entry ?rec sg = (F sg, next_after (seqs sg), D sg)" for sg
    by (cases sg) (simp_all add: recovered_entry_def all_signals_def)
  have 2: "?rec = [(Logs, F Logs, next_after (seqs Logs), D Logs), (Traces, F Traces, next_after (seqs Traces), D Traces),
            (Metrics, F Metrics, next_after (seqs Metrics), D Metrics)]" by (simp add: all_signals_def)
  have 3: "\<forall>sg. recovered_ok z (dirs sg) (seqs sg) (fst (recovered_entry ?rec sg)) (snd (snd (recovered_entry ?rec sg))) \<and>
           fst (snd (recovered_entry ?rec sg)) = next_after (seqs sg)" by (simp add: e R(2))
  show ?thesis using 1 2 3 by (intro exI conjI) assumption+
qed

lemma opened_signal_inv:
  assumes z: "zstd_ok z" and ok: "recovered_ok z d seqs files d2"
    and s: "sorted_wrt (<) seqs" "sorted (map (file_modified d) seqs)"
    and segs: "map h_seq hs = map sf_seq files" "map h_bytes hs = map sf_bytes files"
    and n: "n = next_after seqs"
    and d3: "d3 = AList.update (seg_path n) \<lparr>f_content = [], f_modified = wall\<rparr> d2"
    and sq: "sq = \<lparr>sq_segments = hs @ [\<lparr>h_seq = n, h_bytes = 0, h_stamp = 0\<rparr>],
         sq_active = \<lparr>sw_seq = n, sw_writes = Some []\<rparr>, sq_since = None\<rparr>"
  shows "signal_inv z d3 sq \<and>
     abs_sealed z d3 hs = map (\<lambda>t. (t, recovered_records z d seqs t)) (recovered_seqs z d seqs)"
proof -
  note so = recovered_ok_sorted [OF ok s]
  have len: "length hs = length files" using segs(1) by (metis length_map)
  have at: "\<exists>f \<in> set files. h_seq h = sf_seq f \<and> h_bytes h = sf_bytes f" if "h \<in> set hs" for h
  proof -
    from that obtain i where i: "i < length hs" "h = hs ! i" by (auto simp: in_set_conv_nth)
    then show ?thesis using segs len by (metis nth_map nth_mem)
  qed
  have lt: "h_seq h < n" if "h \<in> set hs" for h using at [OF that] so(3) n by auto
  have seal: "sealed_ok z d3 h" if h: "h \<in> set hs" for h
  proof -
    obtain f where f: "f \<in> set files" "h_seq h = sf_seq f" "h_bytes h = sf_bytes f" using at [OF h] by blast
    then have "sealed_file z d2 (h_seq h)" "h_bytes h = length (file_content d2 (h_seq h))"
      using ok by (auto simp: recovered_ok_def)
    then show ?thesis using lt [OF h] d3 unfolding sealed_ok_def sealed_file_def by auto
  qed
  have op: "open_ok z d3 sq"
    unfolding open_ok_def sq by (rule exI [of _ "[]"], rule exI [of _ "[]"])
      (simp add: d3 zstd_ok_emit_Nil [OF z] writes_records_def)
  have "signal_inv z d3 sq"
    unfolding signal_inv_def using so(1,3) n segs(1) lt seal op by (auto simp: sq sorted_wrt_append)
  moreover have "abs_sealed z d3 hs = map (\<lambda>t. (t, recovered_records z d seqs t)) (recovered_seqs z d seqs)"
  proof -
    have "abs_sealed z d3 hs = abs_sealed z d2 hs" unfolding d3 using lt by (intro abs_sealed_update) auto
    also have "\<dots> = map (\<lambda>t. (t, seg_records z (file_content d2 t))) (map h_seq hs)"
      by (simp add: abs_sealed_def)
    also have "\<dots> = map (\<lambda>t. (t, recovered_records z d seqs t)) (map sf_seq files)"
      unfolding segs(1) map_map using ok by (intro map_cong) (simp_all add: recovered_ok_def)
    also have "map sf_seq files = recovered_seqs z d seqs" using ok by (simp only: recovered_ok_def)
    finally show ?thesis .
  qed
  ultimately show ?thesis by simp
qed

lemma queue_open_crashed:
  assumes z: "zstd_ok z" and c: "crashed_queue z dirs seqs"
  shows "\<exists>q. queue_open z wall sender limits dirs = Inr q \<and> queue_inv z q \<and>
     (\<forall>sg. aq_sealed (queue_abs z q) sg =
             map (\<lambda>t. (t, recovered_records z (dirs sg) (seqs sg) t)) (recovered_seqs z (dirs sg) (seqs sg)) \<and>
           aq_open (queue_abs z q) sg = [] \<and> aq_next (queue_abs z q) sg = next_after (seqs sg))"
proof -
  obtain rec a da b db m dm where rec: "recover_all z wall dirs all_signals = Inr rec"
    "rec = [(Logs, a, next_after (seqs Logs), da), (Traces, b, next_after (seqs Traces), db),
            (Metrics, m, next_after (seqs Metrics), dm)]"
    and ok: "\<And>sg. recovered_ok z (dirs sg) (seqs sg) (fst (recovered_entry rec sg)) (snd (snd (recovered_entry rec sg)))"
    and nx: "\<And>sg. fst (snd (recovered_entry rec sg)) = next_after (seqs sg)"
    using recover_all_crashed [OF z c, of wall] by blast
  have s: "sorted_wrt (<) (seqs sg)" "sorted (map (file_modified (dirs sg)) (seqs sg))" for sg
    using c crashed_dir_seqs unfolding crashed_queue_def by blast+
  obtain q where q: "queue_open z wall sender limits dirs = Inr q" by (simp add: queue_open_def rec(1) Let_def)
  let ?o = "recovered_order rec"
  let ?hs = "stamped_segments ?o"
  note filt = recovered_order_filter [OF rec(2) refl recovered_ok_sorted(2) [OF ok s]]
  have qs: "q_signals q sg = \<lparr>sq_segments = ?hs sg @ [\<lparr>h_seq = next_after (seqs sg), h_bytes = 0, h_stamp = 0\<rparr>],
         sq_active = \<lparr>sw_seq = next_after (seqs sg), sw_writes = Some []\<rparr>, sq_since = None\<rparr>"
    "q_dirs q sg = AList.update (seg_path (next_after (seqs sg))) \<lparr>f_content = [], f_modified = wall\<rparr>
         (snd (snd (recovered_entry rec sg)))"
    "q_stamped q = length ?o" "queued_bytes (q_stats q) = sum_list (map (\<lambda>(_, f). sf_bytes f) ?o)" for sg
    using q by (auto simp: queue_open_def rec(1) Let_def nx)
  have sealed: "sealed_of q sg = ?hs sg" for sg by (simp add: sealed_of_def qs)
  note one = opened_signal_inv [OF z ok s stamped_segments_files [OF filt] refl qs(2) qs(1)]
  have tot: "queued_bytes (q_stats q) = total_bytes q"
    using stamped_segments_files(2) [OF filt]
    by (simp add: qs recovered_order_bytes [OF rec(2)] total_bytes_def segs_bytes_def)
  have st: "stamps_inv q"
    unfolding stamps_inv_def sealed
    using stamped_segments_sorted stamped_segments_at qs(3) by metis
  have "queue_inv z q" using one tot st by (simp add: queue_inv_def)
  then show ?thesis using q one
    by (auto simp: queue_abs_def sealed qs open_records_def split_records_framed [of "[]", simplified])
qed

text \<open>
  Crash safety of the rewrite: whatever step a second crash stops it at, the directory the
  next start sees, swept, is the one before the rewrite or the finished one.
\<close>

lemma rewrite_crash_states:
  assumes "d' \<in> set (rewrite_steps z wall seq plain d)"
  shows "sweep_temporaries d' = sweep_temporaries d \<or> d' = snd (rewrite z wall seq plain d)"
  using assms by (auto simp: rewrite_steps_def rewrite_def Let_def sweep_update_tmp)

end
