(* ===== verification/QueueProps.thy ===== *)
theory QueueProps
  imports QueueRecover
begin

text \<open>
  What the disk queue is good for, stated over the operations of \<open>queue/mod.rs\<close>: what an
  append keeps, what sealing, retiring and reopening do to the records each signal holds,
  which segment is offered next, and three ways the bookkeeping can be left behind.
\<close>

subsection \<open>Concrete queues\<close>

definition empty_queue :: "queue_limits \<Rightarrow> queue" where
  "empty_queue limits =
     \<lparr>q_dirs = (\<lambda>_. [(seg_path 1, \<lparr>f_content = [], f_modified = 0\<rparr>)]), q_sender = replicate 16 0,
      q_limits = limits,
      q_signals = (\<lambda>_. \<lparr>sq_segments = [\<lparr>h_seq = 1, h_bytes = 0, h_stamp = 0\<rparr>],
                       sq_active = \<lparr>sw_seq = 1, sw_writes = Some []\<rparr>, sq_since = None\<rparr>),
      q_stamped = 0,
      q_stats = \<lparr>queued_bytes = 0, appended_records = 0, appended_bytes = 0, dropped_bytes = 0,
                dropped_segments = 0\<rparr>,
      q_wakes = 0\<rparr>"

definition plain_env :: env where
  "plain_env = \<lparr>e_zstd = plain_zstd, e_instant = 0, e_wall = 0, e_faults = no_faults\<rparr>"

text \<open>A queue whose logs were appended one record and sealed.\<close>

definition sealed_queue :: queue where
  "sealed_queue =
     (case queue_append plain_env Logs [7] (empty_queue default_limits) of
        Some (Inr _, q) \<Rightarrow> snd (roll plain_env Logs q)
      | _ \<Rightarrow> empty_queue default_limits)"

lemma quiet_plain: "quiet plain_zstd plain_env"
  by (simp add: quiet_def plain_env_def zstd_ok_plain)

lemma empty_queue_inv: "queue_inv plain_zstd (empty_queue limits)"
proof -
  have "open_ok plain_zstd (q_dirs (empty_queue limits) sg) (q_signals (empty_queue limits) sg)" for sg
    unfolding open_ok_def
    by (rule exI [of _ "[]"], rule exI [of _ "[]"])
      (simp add: empty_queue_def writes_records_def plain_zstd_def plain_emit_def seg_exists_def file_content_def)
  then show ?thesis
    by (simp add: queue_inv_def signal_inv_def empty_queue_def stamps_inv_def total_bytes_def segs_bytes_def
        sealed_of_def all_signals_def)
qed

lemma wire_sized_single: "wire_sized [b]"
  by (simp add: wire_sized_def)

lemma empty_queue_append:
  "\<exists>q'. queue_append plain_env Logs [7] (empty_queue default_limits) = Some (Inr (), q') \<and> queue_inv plain_zstd q'
     \<and> (\<exists>us. aq_open (queue_abs plain_zstd q') Logs = us @ [[7]])"
proof -
  have "queue_append plain_env Logs [7] q = append_chunks plain_env Logs [[7]] q" for q
    by (simp add: queue_append_def append_chunks_def)
  then show ?thesis
    using append_chunks_quiet [OF quiet_plain empty_queue_inv, of "[[7]]" default_limits Logs]
    by (auto simp: wire_sized_single record_header_bytes_def default_limits_def empty_queue_def)
qed

lemma sealed_queue_inv: "queue_inv plain_zstd sealed_queue \<and> aq_sealed (queue_abs plain_zstd sealed_queue) Logs \<noteq> []"
proof -
  obtain q us where q: "queue_append plain_env Logs [7] (empty_queue default_limits) = Some (Inr (), q)"
    "queue_inv plain_zstd q" "aq_open (queue_abs plain_zstd q) Logs = us @ [[7]]"
    using empty_queue_append by blast
  then show ?thesis
    using roll_inv [OF quiet_plain q(2), of Logs] roll_abs [OF quiet_plain q(2), of Logs]
    by (simp add: sealed_queue_def abs_roll_def)
qed

subsection \<open>Appending\<close>

text \<open>C4: an export that fits the queue is stored: \<open>append_chunks\<close> returns, its bytes are the
  last record of its signal, every signal keeps the end of what it held, and a signal loses
  records only when the drop counter went up.\<close>

theorem append_chunks_stores:
  assumes "quiet z env" and "queue_inv z q" and "wire_sized (concat chunks)"
    and "record_header_bytes + length (concat chunks) \<le> max_bytes (q_limits q)"
  shows "\<exists>q'. append_chunks env sg chunks q = Some (Inr (), q') \<and> queue_inv z q'
    \<and> (\<forall>s. \<exists>kept. suffix kept (streams z q s)
          \<and> streams z q' s = kept @ (if s = sg then [concat chunks] else [])
          \<and> (dropped_segments (q_stats q') = dropped_segments (q_stats q) \<longrightarrow> kept = streams z q s))"
proof -
  obtain q1 q' where r: "append_chunks env sg chunks q = Some (Inr (), q')" "shed z q q1" "queue_inv z q'"
    "\<And>s. streams z q' s = streams z q1 s @ (if s = sg then [concat chunks] else [])"
    "dropped_segments (q_stats q') = dropped_segments (q_stats q1)"
    using append_chunks_quiet [OF assms] by blast
  have "\<forall>s. \<exists>kept. suffix kept (streams z q s)
          \<and> streams z q' s = kept @ (if s = sg then [concat chunks] else [])
          \<and> (dropped_segments (q_stats q') = dropped_segments (q_stats q) \<longrightarrow> kept = streams z q s)"
    using r(2) by (intro allI, rule_tac x = "streams z q1 s" in exI) (auto simp: shed_def r(4,5))
  with r show ?thesis by blast
qed

theorem append_chunks_stores_witness:
  "\<exists>q'. append_chunks plain_env Metrics [[1, 2], [3]] (empty_queue default_limits) = Some (Inr (), q') \<and>
     queue_inv plain_zstd q' \<and>
     (\<exists>kept. streams plain_zstd q' Metrics = kept @ [[1, 2, 3]])"
proof -
  have "wire_sized (concat [[1, 2], [3]])" by (simp add: wire_sized_def)
  moreover have "record_header_bytes + length (concat [[1, 2], [3 :: u8]]) \<le> max_bytes (q_limits (empty_queue default_limits))"
    by (simp add: empty_queue_def record_header_bytes_def default_limits_def)
  ultimately obtain q' where q': "append_chunks plain_env Metrics [[1, 2], [3]] (empty_queue default_limits) = Some (Inr (), q')"
    "queue_inv plain_zstd q'" and k: "\<forall>s. \<exists>kept. streams plain_zstd q' s = kept @ (if s = Metrics then [concat [[1, 2], [3]]] else [])"
    using append_chunks_stores [OF quiet_plain empty_queue_inv] by metis
  from k [THEN spec, of Metrics] have "\<exists>kept. streams plain_zstd q' Metrics = kept @ [[1, 2, 3]]" by simp
  with q' show ?thesis by blast
qed

subsection \<open>Sealing and retiring\<close>

text \<open>\<open>seal\<close> succeeds and moves each signal's open records, as one closed segment under the
  signal's next number, behind its closed segments; a signal with nothing open is untouched.\<close>

theorem seal_closes_every_open_segment:
  assumes "quiet z env" and "queue_inv z q"
  shows "fst (seal env q) = Inr () \<and> queue_inv z (snd (seal env q)) \<and>
    (\<forall>sg. aq_open (queue_abs z (snd (seal env q))) sg = [] \<and>
       aq_sealed (queue_abs z (snd (seal env q))) sg = aq_sealed (queue_abs z q) sg @
         (if aq_open (queue_abs z q) sg = [] then []
          else [(aq_next (queue_abs z q) sg, aq_open (queue_abs z q) sg)]))"
proof -
  have "\<forall>sg. aq_open (fold abs_roll all_signals a) sg = [] \<and>
      aq_sealed (fold abs_roll all_signals a) sg = aq_sealed a sg @
        (if aq_open a sg = [] then [] else [(aq_next a sg, aq_open a sg)])" for a
    by (intro allI, case_tac sg) (simp_all add: all_signals_def abs_roll_def)
  then show ?thesis using seal_abs [OF assms] by simp
qed

theorem seal_closes_every_open_segment_witness:
  "fst (seal plain_env sealed_queue) = Inr () \<and>
   (\<forall>sg. aq_open (queue_abs plain_zstd (snd (seal plain_env sealed_queue))) sg = [])"
  using seal_closes_every_open_segment [OF quiet_plain conjunct1 [OF sealed_queue_inv]] by simp

lemma commit_filters:
  assumes "quiet z env" and "queue_inv z q"
  shows "fst (commit env sg acked q) = Inr () \<and> queue_inv z (snd (commit env sg acked q)) \<and>
    aq_sealed (queue_abs z (snd (commit env sg acked q))) sg
      = filter (\<lambda>s. acked < fst s) (aq_sealed (queue_abs z q) sg) \<and>
    (\<forall>s. s \<noteq> sg \<longrightarrow>
       aq_sealed (queue_abs z (snd (commit env sg acked q))) s = aq_sealed (queue_abs z q) s) \<and>
    aq_open (queue_abs z (snd (commit env sg acked q))) = aq_open (queue_abs z q)"
proof -
  have inv: "signal_inv z (q_dirs q sg) (q_signals q sg)" using assms by (simp add: queue_inv_def)
  obtain hs a where "sq_segments (q_signals q sg) = hs @ [a]" "sorted_wrt (<) (map h_seq hs)"
    using signal_inv_split [OF inv] by metis
  then have "sorted_wrt (<) (map fst (aq_sealed (queue_abs z q) sg))"
    by (simp add: queue_abs_def abs_sealed_def sealed_of_def comp_def)
  moreover have "dropWhile (\<lambda>s. fst s \<le> acked) xs = filter (\<lambda>s. acked < fst s) xs"
    if "sorted_wrt (<) (map fst xs)" for xs :: "(nat \<times> bytes list) list"
    using that by (induction xs) (fastforce intro: filter_True [symmetric])+
  ultimately show ?thesis
    using commit_quiet [OF assms, of sg acked] by (simp add: abs_commit_def)
qed

text \<open>C5: an answer \<open>acked\<close> for a signal retires exactly its closed segments numbered up to
  \<open>acked\<close>, keeps its open segment and every other signal, and keeps the queue's invariant, the
  count of queued bytes included.\<close>

theorem commit_retires_acknowledged:
  assumes "quiet z env" and "queue_inv z q"
  shows "fst (commit env sg acked q) = Inr () \<and> queue_inv z (snd (commit env sg acked q)) \<and>
    aq_sealed (queue_abs z (snd (commit env sg acked q))) sg
      = filter (\<lambda>s. acked < fst s) (aq_sealed (queue_abs z q) sg) \<and>
    (\<forall>s. s \<noteq> sg \<longrightarrow>
       aq_sealed (queue_abs z (snd (commit env sg acked q))) s = aq_sealed (queue_abs z q) s) \<and>
    aq_open (queue_abs z (snd (commit env sg acked q))) = aq_open (queue_abs z q)"
  using assms by (rule commit_filters)

theorem commit_retires_acknowledged_witness:
  "aq_sealed (queue_abs plain_zstd (snd (commit plain_env Logs 1 sealed_queue))) Logs
     = filter (\<lambda>s. 1 < fst s) (aq_sealed (queue_abs plain_zstd sealed_queue) Logs)"
  using commit_retires_acknowledged [OF quiet_plain conjunct1 [OF sealed_queue_inv]] by blast

text \<open>\<open>oldest_sealed\<close> names the closed segment of least stamp over the three signals, which is
  the front of its signal, and answers \<open>None\<close> exactly when no signal holds a closed segment.\<close>

theorem oldest_sealed_is_oldest:
  assumes "queue_inv z q"
  shows "(case oldest_sealed q of
      None \<Rightarrow> (\<forall>s. sealed_of q s = [])
    | Some (sg, seq) \<Rightarrow>
        (\<exists>front rest. sealed_of q sg = front # rest \<and> h_seq front = seq \<and>
           (\<forall>s. \<forall>h \<in> set (sealed_of q s). h_stamp front \<le> h_stamp h) \<and>
           (\<forall>h \<in> set rest. seq < h_seq h)))"
proof (cases "oldest_sealed q")
  case None
  then show ?thesis using oldest_sealed_None [of q] assms by (simp add: queue_inv_def signal_inv_def)
next
  case (Some p)
  obtain sg seq where p: "p = (sg, seq)" by fastforce
  have st: "stamps_inv q" and inv: "signal_inv z (q_dirs q sg) (q_signals q sg)"
    using assms by (simp_all add: queue_inv_def)
  obtain front rest where fr: "sq_segments (q_signals q sg) = front # rest" "rest \<noteq> []" "seq = h_seq front"
    "\<And>s h. h \<in> set (sealed_of q s) \<Longrightarrow> h_stamp front \<le> h_stamp h"
    using oldest_sealed_Some [OF st] Some p by metis
  moreover have "sealed_of q sg = front # butlast rest" using fr by (simp add: sealed_of_def)
  moreover have "\<forall>h \<in> set (butlast rest). seq < h_seq h"
    using inv fr by (auto simp: signal_inv_def dest: in_set_butlastD)
  ultimately show ?thesis using Some p by auto
qed

theorem oldest_sealed_is_oldest_witness:
  "oldest_sealed sealed_queue \<noteq> None"
proof
  assume none: "oldest_sealed sealed_queue = None"
  have "sealed_of sealed_queue Logs \<noteq> []"
    using sealed_queue_inv by (auto simp: queue_abs_def abs_sealed_def)
  then show False
    using oldest_sealed_is_oldest [OF conjunct1 [OF sealed_queue_inv]] none by simp
qed

subsection \<open>Reopening\<close>

text \<open>C6: over any directories a crash can leave, with each signal's file times in the order of its
  numbers, \<open>open\<close> succeeds: the next number of a signal is above every number its directory
  held, its closed segments are those that were closed, whole, and what was readable of the one
  left open, and that is the longest run of whole records the cut left.\<close>

theorem queue_open_recovers:
  assumes "zstd_ok z" and "crashed_queue z dirs seqs"
  shows "\<exists>q. queue_open z wall sender limits dirs = Inr q \<and> queue_inv z q \<and>
     (\<forall>sg. aq_next (queue_abs z q) sg = next_after (seqs sg) \<and>
           (\<forall>s \<in> set (seqs sg). s < next_after (seqs sg)) \<and>
           aq_open (queue_abs z q) sg = [] \<and>
           aq_sealed (queue_abs z q) sg =
             map (\<lambda>t. (t, recovered_records z (dirs sg) (seqs sg) t)) (recovered_seqs z (dirs sg) (seqs sg)) \<and>
           (\<forall>rs. seqs sg \<noteq> [] \<longrightarrow> crashed_file z (file_content (dirs sg) (last (seqs sg))) rs \<longrightarrow>
              (\<exists>k \<le> length rs. recovered_records z (dirs sg) (seqs sg) (last (seqs sg)) = take k rs \<and>
                 (\<forall>j \<le> length rs. file_content (dirs sg) (last (seqs sg)) \<noteq> [] \<longrightarrow>
                    length (framed (take j rs)) \<le> length (fst (z_read z (file_content (dirs sg) (last (seqs sg))))) \<longrightarrow>
                    j \<le> k))))"
proof -
  obtain q where "queue_open z wall sender limits dirs = Inr q" "queue_inv z q"
    "\<And>sg. aq_sealed (queue_abs z q) sg =
             map (\<lambda>t. (t, recovered_records z (dirs sg) (seqs sg) t)) (recovered_seqs z (dirs sg) (seqs sg)) \<and>
           aq_open (queue_abs z q) sg = [] \<and> aq_next (queue_abs z q) sg = next_after (seqs sg)"
    using queue_open_crashed [OF assms, of wall sender limits] by blast
  moreover have "\<forall>s \<in> set (seqs sg). s < next_after (seqs sg)" for sg
    using assms(2) crashed_dir_seqs next_after_gt unfolding crashed_queue_def by blast
  moreover have "\<exists>k \<le> length rs. recovered_records z (dirs sg) (seqs sg) (last (seqs sg)) = take k rs \<and>
      (\<forall>j \<le> length rs. file_content (dirs sg) (last (seqs sg)) \<noteq> [] \<longrightarrow>
         length (framed (take j rs)) \<le> length (fst (z_read z (file_content (dirs sg) (last (seqs sg))))) \<longrightarrow> j \<le> k)"
    if "crashed_file z (file_content (dirs sg) (last (seqs sg))) rs" for sg rs
    using readable_records_crashed [OF assms(1) that] by (metis recovered_records_def)
  ultimately show ?thesis by blast
qed

text \<open>
  Logs holding two closed segments and an empty open one, the other signals nothing. In
  \<open>backwards_dir\<close> the clock was set back between the two closings.
\<close>

definition dated_dir :: "nat \<Rightarrow> nat \<Rightarrow> dir" where
  "dated_dir t2 t3 =
     [(seg_path 2, \<lparr>f_content = z_close plain_zstd [frame_record [7]], f_modified = t2\<rparr>),
      (seg_path 3, \<lparr>f_content = z_close plain_zstd [frame_record [8]], f_modified = t3\<rparr>),
      (seg_path 4, \<lparr>f_content = [], f_modified = 6\<rparr>)]"

definition dated_dirs :: "nat \<Rightarrow> nat \<Rightarrow> signal \<Rightarrow> dir" where
  "dated_dirs t2 t3 sg = (if sg = Logs then dated_dir t2 t3 else [])"

lemma u64_max_small: "2 \<le> u64_max" "3 \<le> u64_max" "4 \<le> u64_max"
  by (simp_all add: u64_max_def)

lemma frame_record_single: "frame_record [a] = [1, 0, 0, 0, a]"
proof -
  have "le_nat 4 1 = [1, 0, 0, 0]" by code_simp
  then show ?thesis by (simp add: frame_record_def record_header_bytes_def)
qed

lemma sweep_dated_dir: "sweep_temporaries (dated_dir t2 t3) = dated_dir t2 t3"
  by (simp add: sweep_temporaries_def dated_dir_def strip_seg_path_tmp)

lemma dated_dirs_crashed:
  assumes "t2 \<le> t3" and "t3 \<le> 6"
  shows "crashed_queue plain_zstd (dated_dirs t2 t3) (\<lambda>sg. if sg = Logs then [2, 3, 4] else [])"
proof -
  have "dir_lists (dated_dir t2 t3) [2, 3, 4]"
    by (simp add: dir_lists_def dated_dir_def seg_list_def list_entry_seg_path u64_max_small seg_exists_def)
  moreover have "sealed_file plain_zstd (dated_dir t2 t3) 2"
    unfolding sealed_file_def
    by (rule exI [of _ "[frame_record [7]]"], rule exI [of _ "[[7]]"])
      (simp add: dated_dir_def seg_exists_def file_content_def writes_records_def wire_sized_def)
  moreover have "sealed_file plain_zstd (dated_dir t2 t3) 3"
    unfolding sealed_file_def
    by (rule exI [of _ "[frame_record [8]]"], rule exI [of _ "[[8]]"])
      (simp add: dated_dir_def seg_exists_def file_content_def writes_records_def wire_sized_def)
  moreover have "crashed_file plain_zstd (file_content (dated_dir t2 t3) 4) []"
    unfolding crashed_file_def
    by (rule exI [of _ "[]"]) (simp add: dated_dir_def file_content_def writes_records_def)
  ultimately have "crashed_dir plain_zstd (dated_dir t2 t3) [2, 3, 4] []"
    by (simp add: crashed_dir_def sweep_dated_dir)
  moreover have "crashed_dir plain_zstd [] [] []"
    by (simp add: crashed_dir_def dir_lists_def sweep_temporaries_def seg_list_def)
  moreover have "sorted (map (file_modified (dated_dir t2 t3)) [2, 3, 4])"
    using assms by (simp add: file_modified_def dated_dir_def)
  ultimately show ?thesis unfolding crashed_queue_def dated_dirs_def by auto
qed

theorem queue_open_recovers_witness:
  "\<exists>q. queue_open plain_zstd 9 (replicate 16 0) default_limits (dated_dirs 3 5) = Inr q \<and>
     queue_inv plain_zstd q \<and> aq_next (queue_abs plain_zstd q) Logs = 5"
proof -
  obtain q where "queue_open plain_zstd 9 (replicate 16 0) default_limits (dated_dirs 3 5) = Inr q"
    "queue_inv plain_zstd q" "\<forall>sg. aq_next (queue_abs plain_zstd q) sg = next_after (if sg = Logs then [2, 3, 4] else [])"
    using queue_open_recovers [OF zstd_ok_plain dated_dirs_crashed [of 3 5], of 9 "replicate 16 0" default_limits]
    by auto
  then show ?thesis by (intro exI [of _ q]) (simp add: next_after_def)
qed

text \<open>
  The order is read off the files' times and nothing else, so a clock that goes back turns a
  signal's own segments round.
\<close>

lemma recover_dated_dir:
  "recover_signal plain_zstd wall (dated_dir t2 t3) =
     Inr ([\<lparr>sf_seq = 2, sf_bytes = 11, sf_modified = t2\<rparr>, \<lparr>sf_seq = 3, sf_bytes = 11, sf_modified = t3\<rparr>], 5,
       [(seg_path 2, \<lparr>f_content = z_close plain_zstd [frame_record [7]], f_modified = t2\<rparr>),
        (seg_path 3, \<lparr>f_content = z_close plain_zstd [frame_record [8]], f_modified = t3\<rparr>)])"
  by (simp add: recover_signal_def sweep_dated_dir Let_def)
    (simp add: dated_dir_def seg_list_def list_entry_seg_path reseal_def u64_max_small plain_zstd_def
      frame_record_single plain_emit_def)

lemma recover_empty_dir: "recover_signal z wall [] = Inr ([], 1, [])"
  by (simp add: recover_signal_def seg_list_def first_segment_def sweep_temporaries_def)

lemma dated_order:
  assumes "t3 < t2"
  shows "recovered_order [(Logs, [\<lparr>sf_seq = 2, sf_bytes = 11, sf_modified = t2\<rparr>,
        \<lparr>sf_seq = 3, sf_bytes = 11, sf_modified = t3\<rparr>], a), (Traces, [], b), (Metrics, [], c)]
    = [(Logs, \<lparr>sf_seq = 3, sf_bytes = 11, sf_modified = t3\<rparr>), (Logs, \<lparr>sf_seq = 2, sf_bytes = 11, sf_modified = t2\<rparr>)]"
  using assms by (cases a; cases b; cases c) (simp add: recovered_order_def signal_index_def)

lemma dated_stamps:
  "stamped_segments [(Logs, \<lparr>sf_seq = 3, sf_bytes = 11, sf_modified = t3\<rparr>), (Logs, \<lparr>sf_seq = 2, sf_bytes = 11, sf_modified = t2\<rparr>)] sg =
   (if sg = Logs then [\<lparr>h_seq = 3, h_bytes = 11, h_stamp = 1\<rparr>, \<lparr>h_seq = 2, h_bytes = 11, h_stamp = 2\<rparr>] else [])"
  by (simp add: stamped_segments_def upt_conv_Cons)

text \<open>When a signal's file times run against its numbers, \<open>open\<close> puts the younger segment
  first, and the answer to it retires the older one, which was never offered.\<close>

theorem queue_open_backwards_clock_loses:
  "\<exists>q q'. queue_open plain_zstd 9 (replicate 16 0) default_limits (dated_dirs 5 3) = Inr q \<and>
     oldest_sealed q = Some (Logs, 3) \<and> map h_seq (sealed_of q Logs) = [3, 2] \<and>
     commit plain_env Logs 3 q = (Inr (), q') \<and> oldest_sealed q' = None \<and>
     \<not> seg_exists (q_dirs q' Logs) 2"
proof -
  have "recover_all plain_zstd 9 (dated_dirs 5 3) all_signals =
      Inr [(Logs, [\<lparr>sf_seq = 2, sf_bytes = 11, sf_modified = 5\<rparr>, \<lparr>sf_seq = 3, sf_bytes = 11, sf_modified = 3\<rparr>], 5,
       [(seg_path 2, \<lparr>f_content = z_close plain_zstd [frame_record [7]], f_modified = 5\<rparr>),
        (seg_path 3, \<lparr>f_content = z_close plain_zstd [frame_record [8]], f_modified = 3\<rparr>)]),
        (Traces, [], 1, []), (Metrics, [], 1, [])]"
    by (simp add: all_signals_def dated_dirs_def recover_dated_dir recover_empty_dir)
  then show ?thesis
    by (simp add: queue_open_def Let_def dated_order)
      (simp add: dated_stamps oldest_sealed_def sealed_front_def commit_def recovered_entry_def plain_env_def
        no_faults_def seg_remove_def seg_exists_def queue_defs all_signals_def sealed_of_def delete_conv')
qed

subsection \<open>A device that fails\<close>

text \<open>
  An unlink the device refuses leaves \<open>commit\<close> after the segment has been popped, so its
  bytes stay counted for as long as the process runs. Enough of that and \<open>write_record\<close> has
  nothing left to drop and still no room, which its loop does not notice.
\<close>

definition no_unlink_env :: env where
  "no_unlink_env = plain_env\<lparr>e_faults := no_faults\<lparr>ft_unlink := (\<lambda>_ _. True)\<rparr>\<rparr>"

definition small_limits :: queue_limits where
  "small_limits = \<lparr>max_bytes = 20, max_segment_bytes = 100, max_segment_age = 1\<rparr>"

definition one_sealed_queue :: queue where
  "one_sealed_queue =
     (empty_queue small_limits)
       \<lparr>q_dirs := (\<lambda>sg. if sg = Logs then
            [(seg_path 1, \<lparr>f_content = z_close plain_zstd [frame_record [7]], f_modified = 0\<rparr>),
             (seg_path 2, \<lparr>f_content = [], f_modified = 0\<rparr>)]
          else [(seg_path 1, \<lparr>f_content = [], f_modified = 0\<rparr>)]),
        q_signals := (\<lambda>sg. if sg = Logs then
            \<lparr>sq_segments = [\<lparr>h_seq = 1, h_bytes = 11, h_stamp = 1\<rparr>, \<lparr>h_seq = 2, h_bytes = 0, h_stamp = 0\<rparr>],
             sq_active = \<lparr>sw_seq = 2, sw_writes = Some []\<rparr>, sq_since = None\<rparr>
          else q_signals (empty_queue small_limits) sg),
        q_stamped := 1,
        q_stats := (q_stats (empty_queue small_limits))\<lparr>queued_bytes := 11\<rparr>\<rparr>"

lemma one_sealed_queue_inv: "queue_inv plain_zstd one_sealed_queue"
proof -
  have e: "open_ok plain_zstd (q_dirs one_sealed_queue sg) (q_signals one_sealed_queue sg)" for sg
    unfolding open_ok_def
    by (rule exI [of _ "[]"], rule exI [of _ "[]"])
      (simp add: one_sealed_queue_def empty_queue_def writes_records_def plain_zstd_def plain_emit_def
        seg_exists_def file_content_def)
  have s: "sealed_ok plain_zstd (q_dirs one_sealed_queue Logs) \<lparr>h_seq = 1, h_bytes = 11, h_stamp = 1\<rparr>"
    unfolding sealed_ok_def
    by (rule exI [of _ "[frame_record [7]]"], rule exI [of _ "[[7]]"])
      (simp add: one_sealed_queue_def seg_exists_def file_content_def writes_records_def wire_sized_def
        plain_zstd_def plain_emit_def frame_record_single)
  have "signal_inv plain_zstd (q_dirs one_sealed_queue sg) (q_signals one_sealed_queue sg)" for sg
    using e [of sg] s by (cases "sg = Logs") (simp_all add: signal_inv_def one_sealed_queue_def empty_queue_def)
  moreover have "stamps_inv one_sealed_queue"
    by (simp add: stamps_inv_def sealed_of_def one_sealed_queue_def empty_queue_def)
  moreover have "queued_bytes (q_stats one_sealed_queue) = total_bytes one_sealed_queue"
    by (simp add: total_bytes_def segs_bytes_def one_sealed_queue_def empty_queue_def all_signals_def)
  ultimately show ?thesis by (simp add: queue_inv_def)
qed

lemma make_room_stuck:
  assumes "drop_oldest env q = (Inr (), q)" and "queued_bytes (q_stats q) + n > max_bytes (q_limits q)"
  shows "make_room env n q = None"
proof -
  have "\<not> (e = env \<and> n' = n \<and> q' = q)" if m: "make_room e n' q' = Some y" for e n' q' y
  proof (rule make_room.raw_induct [where P = "\<lambda>e n' q' y. \<not> (e = env \<and> n' = n \<and> q' = q)", OF _ m])
    fix mk e n' q' y
    assume IH: "\<And>e n' q' y. mk e n' q' = Some y \<Longrightarrow> \<not> (e = env \<and> n' = n \<and> q' = q)"
      and s: "(if max_bytes (q_limits q') < queued_bytes (q_stats q') + n'
        then case drop_oldest e q' of (Inl er, p) \<Rightarrow> Some (Inl er, p) | (Inr x, p) \<Rightarrow> mk e n' p
        else Some (Inr (), q')) = Some y"
    show "\<not> (e = env \<and> n' = n \<and> q' = q)"
    proof
      assume "e = env \<and> n' = n \<and> q' = q"
      with s assms have "mk env n q = Some y" by simp
      from IH [OF this] show False by simp
    qed
  qed
  then show ?thesis by (cases "make_room env n q") fast+
qed

text \<open>C28: after one unlink that fails, an append that fits the queue never returns, although the
  queue is empty and the device works again.\<close>

theorem failed_unlink_wedges_append:
  "\<exists>q. queue_inv plain_zstd one_sealed_queue \<and> commit no_unlink_env Logs 1 one_sealed_queue = (Inl Device, q) \<and>
     record_header_bytes + length (replicate 13 0) \<le> max_bytes (q_limits q) \<and>
     (\<forall>sg. sealed_of q sg = []) \<and> queued_bytes (q_stats q) = 11 \<and>
     queue_append plain_env Logs (replicate 13 0) q = None"
proof -
  obtain q where q: "commit no_unlink_env Logs 1 one_sealed_queue = (Inl Device, q)"
    and lim: "max_bytes (q_limits q) = 20"
    and empty: "\<forall>sg. sealed_of q sg = []" and bytes: "queued_bytes (q_stats q) = 11"
    and since: "\<forall>sg. sq_since (q_signals q sg) = None"
    by (simp add: commit_def no_unlink_env_def seg_remove_def one_sealed_queue_def empty_queue_def queue_defs
        sealed_of_def small_limits_def)
  have "oldest_sealed q = None"
  proof -
    have "sealed_front q sg = None" for sg
      using empty [THEN spec, of sg]
      by (cases "sq_segments (q_signals q sg)") (auto simp: sealed_front_def sealed_of_def split: if_splits)
    then show ?thesis by (simp add: oldest_sealed_def all_signals_def)
  qed
  moreover have "op_each (roll plain_env) all_signals q = (Inr (), q)"
    using since by (simp add: all_signals_def roll_def op_then_def)
  ultimately have "drop_oldest plain_env q = (Inr (), q)" by (simp add: drop_oldest_def)
  then have "make_room plain_env 17 q = None" using make_room_stuck bytes lim by simp
  then have "queue_append plain_env Logs (replicate 13 0) q = None"
    using lim by (simp add: queue_append_def write_record_def record_header_bytes_def)
  with q lim empty bytes one_sealed_queue_inv show ?thesis by (simp add: record_header_bytes_def)
qed

text \<open>
  A write the device refuses after the length went in leaves the length in the stream, and
  the next record is read from inside it.
\<close>

definition no_payload_env :: env where
  "no_payload_env = plain_env\<lparr>e_faults := no_faults\<lparr>ft_write := (\<lambda>k. k = 1)\<rparr>\<rparr>"

definition logs_open_queue :: "bytes list \<Rightarrow> nat \<Rightarrow> queue" where
  "logs_open_queue ws n =
     (empty_queue default_limits)
       \<lparr>q_dirs := (q_dirs (empty_queue default_limits))
          (Logs := [(seg_path 1, \<lparr>f_content = plain_emit ws, f_modified = 0\<rparr>)]),
        q_signals := (q_signals (empty_queue default_limits))
          (Logs := \<lparr>sq_segments = [\<lparr>h_seq = 1, h_bytes = n, h_stamp = 0\<rparr>],
             sq_active = \<lparr>sw_seq = 1, sw_writes = Some ws\<rparr>,
             sq_since = (if n = 0 then None else Some 0)\<rparr>)\<rparr>"

lemma le_nat_4_1: "le_nat 4 (Suc 0) = [1, 0, 0, 0]"
  by code_simp

lemma le_nat_4_0: "le_nat 4 0 = [0, 0, 0, 0]"
  by code_simp

lemma make_room_room:
  "queued_bytes (q_stats q) + n \<le> max_bytes (q_limits q) \<Longrightarrow> make_room env n q = Some (Inr (), q)"
  by (subst make_room.simps) simp

lemma no_payload_append:
  "queue_append no_payload_env Logs [7] (empty_queue default_limits)
     = Some (Inl Device, logs_open_queue [[1, 0, 0, 0]] 0)"
proof -
  have room: "make_room no_payload_env 5 (empty_queue default_limits) = Some (Inr (), empty_queue default_limits)"
    by (rule make_room_room) (simp add: empty_queue_def default_limits_def)
  show ?thesis
    by (simp add: queue_append_def write_record_def record_header_bytes_def room)
      (simp add: empty_queue_def default_limits_def op_then_def sw_written_def write_into_def sw_write_all_def
        no_payload_env_def plain_env_def no_faults_def queue_defs plain_zstd_def plain_emit_def le_nat_4_1
        logs_open_queue_def Let_def fun_eq_iff)
qed

lemma next_append:
  "\<exists>q2. queue_append plain_env Logs [0] (logs_open_queue [[1, 0, 0, 0]] 0) = Some (Inr (), q2) \<and>
     q_signals q2 Logs = q_signals (logs_open_queue [[1, 0, 0, 0], [1, 0, 0, 0], [0]] 18) Logs"
proof -
  have room: "make_room plain_env 5 (logs_open_queue [[1, 0, 0, 0]] 0) = Some (Inr (), logs_open_queue [[1, 0, 0, 0]] 0)"
    by (rule make_room_room) (simp add: logs_open_queue_def empty_queue_def default_limits_def)
  show ?thesis
    by (simp add: queue_append_def write_record_def record_header_bytes_def room)
      (simp add: logs_open_queue_def empty_queue_def default_limits_def op_then_def sw_written_def write_into_def
        sw_write_all_def plain_env_def no_faults_def queue_defs plain_zstd_def plain_emit_def le_nat_4_1 Let_def)
qed

text \<open>After an append whose payload the device refused, the record of an append that reports
  success is not among those its segment splits into: what is read is other records.\<close>

theorem failed_payload_write_misframes:
  "\<exists>q1 q2 q3. queue_append no_payload_env Logs [7] (empty_queue default_limits) = Some (Inl Device, q1) \<and>
     queue_append plain_env Logs [0] q1 = Some (Inr (), q2) \<and> roll plain_env Logs q2 = (Inr (), q3) \<and>
     split_records (fst (z_read plain_zstd (file_content (q_dirs q3 Logs) 1))) = Inr [[1], []]"
proof -
  obtain q2 where q2: "queue_append plain_env Logs [0] (logs_open_queue [[1, 0, 0, 0]] 0) = Some (Inr (), q2)"
    "q_signals q2 Logs = q_signals (logs_open_queue [[1, 0, 0, 0], [1, 0, 0, 0], [0]] 18) Logs"
    using next_append by blast
  have split: "split_records [1, 0, 0, 0, 1, 0, 0, 0, 0] = Inr [[1], []]"
  proof -
    have "[1, 0, 0, 0, 1, 0, 0, 0, 0] = framed [[1], []]"
      using frame_record_single [of 1] by (simp add: framed_def frame_record_def record_header_bytes_def le_nat_4_0)
    then show ?thesis using split_records_framed [of "[[1], []]"] by (simp add: wire_sized_def)
  qed
  have "\<exists>q3. roll plain_env Logs q2 = (Inr (), q3) \<and>
      file_content (q_dirs q3 Logs) 1 = z_close plain_zstd [[1, 0, 0, 0], [1, 0, 0, 0], [0]]"
    using q2(2) by (simp add: roll_def logs_open_queue_def sw_finish_def sw_reusing_def Let_def plain_env_def
        no_faults_def queue_defs)
  then show ?thesis
    using no_payload_append q2(1) split zstd_ok_read_close [OF zstd_ok_plain] by fastforce
qed

end
