(* ===== verification/Spool.thy ===== *)
theory Spool
  imports QueueProps
begin

text \<open>
  \<open>collecty/src/queue/spool.rs\<close>: the two threads that touch the queue's files. Writes run on
  one lane, in the order they were handed over; reads run on a lane of their own, between
  any two writes. A step of the relation is one lane finishing the job at its front.
\<close>

subsection \<open>How long jobs waited\<close>

definition buckets :: nat where
  "buckets = 33"

definition spool_depth :: nat where
  "spool_depth = 256"

record counters =
  ct_max_depth :: nat
  ct_requests :: nat
  ct_waits :: "nat list"

definition no_counters :: counters where
  "no_counters = \<lparr>ct_max_depth = 0, ct_requests = 0, ct_waits = replicate buckets 0\<rparr>"

definition counters_depth :: "nat \<Rightarrow> counters \<Rightarrow> counters" where
  "counters_depth now c = c\<lparr>ct_max_depth := max (ct_max_depth c) now\<rparr>"

text \<open>\<open>32 - leading_zeros\<close> of a 32-bit number: how many bits it takes.\<close>

fun bit_len :: "nat \<Rightarrow> nat" where
  "bit_len n = (if n = 0 then 0 else 1 + bit_len (n div 2))"

declare bit_len.simps [simp del]

definition wait_bucket :: "nat \<Rightarrow> nat" where
  "wait_bucket micros = min (bit_len (max (min micros (2 ^ 32 - 1)) 1)) (buckets - 1)"

definition counters_waited :: "nat \<Rightarrow> counters \<Rightarrow> counters" where
  "counters_waited micros c =
     c\<lparr>ct_waits := (ct_waits c)[wait_bucket micros := ct_waits c ! wait_bucket micros + 1],
       ct_requests := ct_requests c + 1\<rparr>"

record lane_report =
  lr_requests :: nat
  lr_max_depth :: nat
  lr_wait_p99 :: nat
  lr_wait_max :: nat

fun report_loop :: "nat \<Rightarrow> nat \<Rightarrow> nat list \<Rightarrow> nat \<Rightarrow> nat \<Rightarrow> nat \<Rightarrow> nat \<times> nat" where
  "report_loop all index [] seen p99 mx = (p99, mx)"
| "report_loop all index (waited # cs) seen p99 mx =
     (if waited = 0 then report_loop all (Suc index) cs seen p99 mx
      else
        (let upper = 2 ^ index; seen' = seen + waited in
         report_loop all (Suc index) cs seen'
           (if p99 = 0 \<and> all > 0 \<and> seen' * 100 \<ge> all * 99 then upper else p99) upper))"

definition counters_report :: "counters \<Rightarrow> lane_report" where
  "counters_report c =
     (case report_loop (sum_list (ct_waits c)) 0 (ct_waits c) 0 0 0 of (p99, mx) \<Rightarrow>
        \<lparr>lr_requests = ct_requests c, lr_max_depth = ct_max_depth c, lr_wait_p99 = p99, lr_wait_max = mx\<rparr>)"

lemma bit_len_bounds: "0 < n \<Longrightarrow> 2 ^ (bit_len n - 1) \<le> n \<and> n < 2 ^ bit_len n \<and> 0 < bit_len n"
proof (induction n rule: bit_len.induct)
  case (1 n)
  then have n: "n \<noteq> 0" by simp
  show ?case
  proof (cases "n div 2 = 0")
    case True
    then have "n = 1" using n by (simp add: div_eq_0_iff)
    then show ?thesis by (simp add: bit_len.simps [of "Suc 0"] bit_len.simps [of 0])
  next
    case False
    let ?k = "bit_len (n div 2)"
    have ih: "2 ^ (?k - 1) \<le> n div 2" "n div 2 < 2 ^ ?k" "0 < ?k" using 1 False n by simp_all
    have "(2 :: nat) ^ ?k = 2 * 2 ^ (?k - 1)" using ih(3) by (metis Suc_diff_1 power_Suc)
    then have "2 ^ ?k \<le> n" "n < 2 * 2 ^ ?k" using ih by linarith+
    then show ?thesis using n by (simp add: bit_len.simps [of n])
  qed
qed

lemma bit_len_le:
  assumes "n < 2 ^ k"
  shows "bit_len n \<le> k"
proof (cases "n = 0")
  case True
  then show ?thesis by (simp add: bit_len.simps)
next
  case False
  then have "2 ^ (bit_len n - 1) \<le> n" and pos: "0 < bit_len n" using bit_len_bounds [of n] by simp_all
  have "(2 :: nat) ^ (bit_len n - 1) < 2 ^ k" using \<open>2 ^ (bit_len n - 1) \<le> n\<close> assms by (rule le_less_trans)
  then have "bit_len n - 1 < k" by simp
  with pos show ?thesis by simp
qed

lemma wait_bucket_less: "wait_bucket micros < buckets"
  by (simp add: wait_bucket_def buckets_def)

lemma wait_bucket_bounds:
  assumes "1 \<le> micros" and "micros < 2 ^ 32"
  shows "2 ^ (wait_bucket micros - 1) \<le> micros" and "micros < 2 ^ wait_bucket micros"
proof -
  have "max (min micros (2 ^ 32 - 1)) 1 = micros" using assms by simp
  moreover have "bit_len micros \<le> 32" using assms(2) by (rule bit_len_le)
  ultimately have "wait_bucket micros = bit_len micros" by (simp add: wait_bucket_def buckets_def)
  then show "2 ^ (wait_bucket micros - 1) \<le> micros" and "micros < 2 ^ wait_bucket micros"
    using bit_len_bounds [of micros] assms(1) by simp_all
qed

definition counters_ok :: "counters \<Rightarrow> bool" where
  "counters_ok c \<longleftrightarrow> length (ct_waits c) = buckets \<and> sum_list (ct_waits c) = ct_requests c"

lemma counters_waited_ok: "counters_ok c \<Longrightarrow> counters_ok (counters_waited micros c)"
  using wait_bucket_less [of micros]
  by (auto simp: counters_ok_def counters_waited_def sum_list_update)

lemma report_loop_p99:
  assumes "report_loop all index cs seen p99 mx = (p, m)" and "p99 \<noteq> 0 \<Longrightarrow> p99 \<le> mx" and "mx \<le> 2 ^ index"
    and "p99 = 0 \<Longrightarrow> all = 0 \<or> seen * 100 < all * 99"
    and "all = seen + sum_list cs"
  shows "p \<le> m \<and> (0 < all \<longrightarrow> p99 = 0 \<longrightarrow> (\<exists>j < length cs. p = 2 ^ (index + j) \<and> (seen + sum_list (take (Suc j) cs)) * 100 \<ge> all * 99))"
  using assms
proof (induction cs arbitrary: index seen p99 mx)
  case Nil
  then show ?case by (cases "p99 = 0") auto
next
  case (Cons c cs)
  show ?case
  proof (cases "c = 0")
    case True
    then have "p \<le> m \<and> (0 < all \<longrightarrow> p99 = 0 \<longrightarrow>
        (\<exists>j < length cs. p = 2 ^ (Suc index + j) \<and> (seen + sum_list (take (Suc j) cs)) * 100 \<ge> all * 99))"
      using Cons.prems by (intro Cons.IH) auto
    with True show ?thesis by fastforce
  next
    case False
    let ?hit = "p99 = 0 \<and> all > 0 \<and> (seen + c) * 100 \<ge> all * 99"
    let ?p99 = "if ?hit then 2 ^ index else p99"
    have ih: "p \<le> m \<and> (0 < all \<longrightarrow> ?p99 = 0 \<longrightarrow>
        (\<exists>j < length cs. p = 2 ^ (Suc index + j) \<and> (seen + c + sum_list (take (Suc j) cs)) * 100 \<ge> all * 99))"
      using Cons.prems False
      by (intro Cons.IH [where mx = "2 ^ index"]) (auto simp: Let_def split: if_splits intro: order_trans)
    show ?thesis
    proof (cases ?hit)
      case True
      have keep: "report_loop all i ds s q x = (p', x') \<Longrightarrow> q \<noteq> 0 \<Longrightarrow> p' = q" for i ds s q x p' x'
        by (induction ds arbitrary: i s x) (auto simp: Let_def split: if_splits)
      have "p = 2 ^ index" using Cons.prems(1) False True keep by (auto simp: Let_def)
      with True ih show ?thesis by (auto intro!: exI [of _ 0])
    next
      case nh: False
      with ih show ?thesis by (fastforce simp: add.assoc)
    qed
  qed
qed

subsection \<open>The lanes\<close>

datatype work = WAppend signal "bytes list" | WSealIfDue | WSeal | WCommit signal nat

definition run_work :: "env \<Rightarrow> work \<Rightarrow> queue \<Rightarrow> ((io_error + unit) \<times> queue) option" where
  "run_work env w q =
     (case w of
        WAppend sg chunks \<Rightarrow> append_chunks env sg chunks q
      | WSealIfDue \<Rightarrow> Some (seal_if_due env q)
      | WSeal \<Rightarrow> Some (seal env q)
      | WCommit sg acked \<Rightarrow> Some (commit env sg acked q))"

record spool =
  sp_queue :: queue
  sp_asking :: "work list"
  sp_jobs :: "work list"
  sp_done :: "(work \<times> (io_error + unit)) list"
  sp_counters :: counters
  sp_asking_reads :: "(signal \<times> nat) list"
  sp_reads :: "(signal \<times> nat) list"
  sp_read :: "((signal \<times> nat) \<times> (io_error + sealed_segment)) list"
  sp_read_counters :: counters

definition spool_new :: "queue \<Rightarrow> spool" where
  "spool_new q = \<lparr>sp_queue = q, sp_asking = [], sp_jobs = [], sp_done = [], sp_counters = no_counters,
     sp_asking_reads = [], sp_reads = [], sp_read = [], sp_read_counters = no_counters\<rparr>"

text \<open>
  \<open>ask\<close> counts the depth and waits to send; \<open>send\<close> goes through when the channel has room, in
  the order of the askers. \<open>work\<close> is the spool thread doing the job at the front of its lane on
  whatever device \<open>E\<close> allows, and there is no step where the job never returns;
  \<open>read\<close> is the reader thread doing its own.
\<close>

inductive spool_step :: "(env \<Rightarrow> bool) \<Rightarrow> spool \<Rightarrow> spool \<Rightarrow> bool" for E where
  ask: "spool_step E s (s\<lparr>sp_asking := sp_asking s @ [w],
      sp_counters := counters_depth (length (sp_jobs s) + 1) (sp_counters s)\<rparr>)"
    if "\<And>sg chunks. w = WAppend sg chunks \<Longrightarrow> wire_sized (concat chunks)"
| send: "spool_step E s (s\<lparr>sp_asking := ws, sp_jobs := sp_jobs s @ [w]\<rparr>)"
    if "sp_asking s = w # ws" and "length (sp_jobs s) < spool_depth"
| work: "spool_step E s (s\<lparr>sp_queue := q', sp_jobs := ws, sp_done := sp_done s @ [(w, a)],
      sp_counters := counters_waited micros (sp_counters s)\<rparr>)"
    if "sp_jobs s = w # ws" and "E env" and "run_work env w (sp_queue s) = Some (a, q')"
| ask_read: "spool_step E s (s\<lparr>sp_asking_reads := sp_asking_reads s @ [r],
      sp_read_counters := counters_depth (length (sp_reads s) + 1) (sp_read_counters s)\<rparr>)"
| send_read: "spool_step E s (s\<lparr>sp_asking_reads := rs, sp_reads := sp_reads s @ [r]\<rparr>)"
    if "sp_asking_reads s = r # rs" and "length (sp_reads s) < spool_depth"
| read: "spool_step E s (s\<lparr>sp_reads := rs, sp_read := sp_read s @ [(r, read_segment (sp_queue s) (fst r) (snd r))],
      sp_read_counters := counters_waited micros (sp_read_counters s)\<rparr>)"
    if "sp_reads s = r # rs"

definition sized_work :: "work \<Rightarrow> bool" where
  "sized_work w \<longleftrightarrow> (case w of WAppend _ chunks \<Rightarrow> wire_sized (concat chunks) | _ \<Rightarrow> True)"

lemma append_chunks_too_large:
  "record_header_bytes + length (concat chunks) > max_bytes (q_limits q) \<Longrightarrow>
     append_chunks env sg chunks q = Some (Inl InvalidInput, q)"
  by (simp add: append_chunks_def write_record_def length_concat)

text \<open>On a device that works every job ends and keeps the queue's invariant.\<close>

lemma run_work_quiet:
  assumes "quiet z env" and "queue_inv z q" and "sized_work w"
  shows "\<exists>a q'. run_work env w q = Some (a, q') \<and> queue_inv z q'"
proof (cases w)
  case (WAppend sg chunks)
  then show ?thesis
  proof (cases "record_header_bytes + length (concat chunks) \<le> max_bytes (q_limits q)")
    case True
    have "wire_sized (concat chunks)" using assms(3) WAppend by (simp add: sized_work_def)
    from append_chunks_quiet [OF assms(1,2) this True, of sg] WAppend show ?thesis
      by (auto simp: run_work_def)
  next
    case False
    then show ?thesis using append_chunks_too_large [of q chunks env sg] assms(2) WAppend
      by (simp add: run_work_def)
  qed
next
  case WSealIfDue
  then show ?thesis using seal_if_due_inv [OF assms(1,2)] by (cases "seal_if_due env q") (simp add: run_work_def)
next
  case WSeal
  then show ?thesis using seal_abs [OF assms(1,2)] by (cases "seal env q") (simp add: run_work_def)
next
  case (WCommit sg acked)
  then show ?thesis using commit_quiet [OF assms(1,2), of sg acked] by (cases "commit env sg acked q") (simp add: run_work_def)
qed

definition lane_ok :: "counters \<Rightarrow> nat \<Rightarrow> nat \<Rightarrow> bool" where
  "lane_ok c waiting answered \<longleftrightarrow>
     counters_ok c \<and> ct_requests c = answered \<and> ct_max_depth c \<le> spool_depth + 1 \<and> waiting \<le> spool_depth"

definition spool_inv :: "zstd \<Rightarrow> spool \<Rightarrow> bool" where
  "spool_inv z s \<longleftrightarrow>
     queue_inv z (sp_queue s) \<and> list_all sized_work (sp_jobs s @ sp_asking s) \<and>
     lane_ok (sp_counters s) (length (sp_jobs s)) (length (sp_done s)) \<and>
     lane_ok (sp_read_counters s) (length (sp_reads s)) (length (sp_read s))"

lemma lane_ok_none: "lane_ok no_counters 0 0"
  by (simp add: lane_ok_def counters_ok_def no_counters_def sum_list_replicate)

lemma lane_ok_depth: "lane_ok c n d \<Longrightarrow> lane_ok (counters_depth (Suc n) c) n d"
  by (simp add: lane_ok_def counters_depth_def counters_ok_def)

lemma lane_ok_send: "lane_ok c n d \<Longrightarrow> n < spool_depth \<Longrightarrow> lane_ok c (Suc n) d"
  by (simp add: lane_ok_def)

lemma lane_ok_waited: "lane_ok c (Suc n) d \<Longrightarrow> lane_ok (counters_waited micros c) n (Suc d)"
  using counters_waited_ok [of c micros] by (simp add: lane_ok_def counters_waited_def)

lemma spool_step_inv:
  assumes "spool_step E s s'" and "spool_inv z s" and quiet: "\<And>env. E env \<Longrightarrow> quiet z env"
  shows "spool_inv z s'"
  using assms(1)
proof (cases rule: spool_step.cases)
  case (ask w)
  then show ?thesis using assms(2) lane_ok_depth by (cases w) (auto simp: spool_inv_def sized_work_def)
next
  case (send w ws)
  then show ?thesis using assms(2) lane_ok_send by (auto simp: spool_inv_def)
next
  case (work w ws env a q' micros)
  then have "queue_inv z q'" using run_work_quiet [OF quiet [OF work(3)], of "sp_queue s" w] assms(2) by (auto simp: spool_inv_def)
  then show ?thesis using work assms(2) lane_ok_waited by (auto simp: spool_inv_def)
next
  case (ask_read r)
  then show ?thesis using assms(2) lane_ok_depth by (auto simp: spool_inv_def)
next
  case (send_read r rs)
  then show ?thesis using assms(2) lane_ok_send by (auto simp: spool_inv_def)
next
  case (read r rs micros)
  then show ?thesis using assms(2) lane_ok_waited by (auto simp: spool_inv_def)
qed

inductive spool_reachable :: "(env \<Rightarrow> bool) \<Rightarrow> queue \<Rightarrow> spool \<Rightarrow> bool" for E q where
  init: "spool_reachable E q (spool_new q)"
| step: "spool_reachable E q s \<Longrightarrow> spool_step E s s' \<Longrightarrow> spool_reachable E q s'"

lemma spool_reachable_inv:
  assumes "spool_reachable E q s" and "queue_inv z q" and "\<And>env. E env \<Longrightarrow> quiet z env"
  shows "spool_inv z s"
  using assms(1)
proof (induction rule: spool_reachable.induct)
  case init
  then show ?case using assms(2) by (simp add: spool_inv_def spool_new_def lane_ok_none)
next
  case (step s s')
  then show ?case using spool_step_inv assms(3) by blast
qed

text \<open>The write lane can be worked off.\<close>

lemma spool_drains:
  assumes "spool_inv z s" and "\<And>env. E env \<Longrightarrow> quiet z env" and "E env"
  shows "\<exists>s'. (spool_step E)\<^sup>*\<^sup>* s s' \<and> sp_jobs s' = [] \<and> map fst (sp_done s') = map fst (sp_done s) @ sp_jobs s"
  using assms(1)
proof (induction "length (sp_jobs s)" arbitrary: s)
  case 0
  then show ?case by (intro exI [of _ s]) simp
next
  case (Suc n)
  obtain w ws where jobs: "sp_jobs s = w # ws" using Suc(2) by (cases "sp_jobs s") auto
  have "sized_work w" using Suc.prems jobs by (simp add: spool_inv_def)
  then obtain a q' where "run_work env w (sp_queue s) = Some (a, q')"
    using run_work_quiet [OF assms(2) [OF assms(3)], of "sp_queue s" w] Suc.prems by (auto simp: spool_inv_def)
  from spool_step.work [where E = E, OF jobs assms(3) this, of 0]
  obtain t where t: "spool_step E s t" "sp_jobs t = ws" "sp_done t = sp_done s @ [(w, a)]" by fastforce
  obtain s' where s': "(spool_step E)\<^sup>*\<^sup>* t s'" "sp_jobs s' = []" "map fst (sp_done s') = map fst (sp_done t) @ sp_jobs t"
    using Suc(1) [of t] Suc(2) jobs t(2) spool_step_inv [OF t(1) Suc.prems assms(2)] by auto
  then show ?case using t jobs converse_rtranclp_into_rtranclp [of "spool_step E", OF t(1) s'(1)] by auto
qed

text \<open>What has been done and what waits, in one list, is what was handed over.\<close>

definition handed_over :: "spool \<Rightarrow> work list" where
  "handed_over s = map fst (sp_done s) @ sp_jobs s @ sp_asking s"

lemma spool_step_order:
  assumes "spool_step E s s'"
  shows "\<exists>ws. handed_over s' = handed_over s @ ws"
  using assms by (cases rule: spool_step.cases) (auto simp: handed_over_def)

subsection \<open>What the lanes promise\<close>

text \<open>C25: on a device that works the lanes never block. Whatever was handed over and in whatever order
  the two lanes ran, the queue keeps its invariant, the lanes hold no more than their depth and count
  each answer once, the job at the front of the write lane can be done, and all that are in it can be
  worked off, each answered, in their order.\<close>

theorem spool_never_blocks:
  assumes "queue_inv z q" and "spool_reachable E q s" and "\<And>env. E env \<Longrightarrow> quiet z env" and "E env"
  shows "queue_inv z (sp_queue s) \<and>
    length (sp_jobs s) \<le> spool_depth \<and> ct_max_depth (sp_counters s) \<le> spool_depth + 1 \<and>
    ct_requests (sp_counters s) = length (sp_done s) \<and>
    ct_requests (sp_read_counters s) = length (sp_read s) \<and>
    (\<forall>w ws. sp_jobs s = w # ws \<longrightarrow> (\<exists>a q'. run_work env w (sp_queue s) = Some (a, q'))) \<and>
    (\<exists>s'. (spool_step E)\<^sup>*\<^sup>* s s' \<and> sp_jobs s' = [] \<and> map fst (sp_done s') = map fst (sp_done s) @ sp_jobs s)"
proof -
  have inv: "spool_inv z s" using spool_reachable_inv [OF assms(2,1,3)] .
  have "\<exists>a q'. run_work env w (sp_queue s) = Some (a, q')" if "sp_jobs s = w # ws" for w ws
    using run_work_quiet [OF assms(3) [OF assms(4)], of "sp_queue s" w] inv that by (auto simp: spool_inv_def)
  then show ?thesis using inv spool_drains [where E = E, OF inv assms(3,4)] by (auto simp: spool_inv_def lane_ok_def)
qed

text \<open>One export handed over and sent, waiting for the spool thread.\<close>

definition waiting_spool :: spool where
  "waiting_spool = (spool_new (empty_queue default_limits))
     \<lparr>sp_jobs := [WAppend Logs [[7]]], sp_counters := counters_depth 1 no_counters\<rparr>"

lemma waiting_spool_reachable: "spool_reachable (quiet plain_zstd) (empty_queue default_limits) waiting_spool"
proof -
  let ?s = "spool_new (empty_queue default_limits)"
  let ?t = "?s\<lparr>sp_asking := [WAppend Logs [[7]]], sp_counters := counters_depth 1 no_counters\<rparr>"
  have "spool_step (quiet plain_zstd) ?s ?t"
    using spool_step.ask [of "WAppend Logs [[7]]" "quiet plain_zstd" ?s]
    by (simp add: spool_new_def wire_sized_single)
  moreover have "spool_step (quiet plain_zstd) ?t waiting_spool"
    using spool_step.send [of ?t "WAppend Logs [[7]]" "[]" "quiet plain_zstd"]
    by (simp add: waiting_spool_def spool_new_def spool_depth_def)
  ultimately show ?thesis by (meson spool_reachable.init spool_reachable.step)
qed

theorem spool_never_blocks_witness:
  "\<exists>s'. (spool_step (quiet plain_zstd))\<^sup>*\<^sup>* waiting_spool s' \<and> sp_jobs s' = [] \<and> map fst (sp_done s') = [WAppend Logs [[7]]]"
proof -
  have "sp_jobs waiting_spool = [WAppend Logs [[7]]]" and "sp_done waiting_spool = []"
    by (simp_all add: waiting_spool_def spool_new_def)
  then show ?thesis
    using spool_never_blocks [OF empty_queue_inv waiting_spool_reachable _ quiet_plain] by simp
qed

text \<open>The write lane is first in, first out: in any run, the jobs done, those in the channel
  and those still being handed over, in that order, only ever grow at the end.\<close>

theorem spool_first_in_first_out:
  assumes "(spool_step E)\<^sup>*\<^sup>* s s'"
  shows "\<exists>ws. handed_over s' = handed_over s @ ws"
  using assms
proof (induction rule: rtranclp_induct)
  case base
  then show ?case by simp
next
  case (step t u)
  then show ?case using spool_step_order by fastforce
qed

theorem spool_first_in_first_out_witness:
  "\<exists>ws. handed_over waiting_spool = handed_over waiting_spool @ ws"
  by (rule spool_first_in_first_out) simp

subsection \<open>What a report says\<close>

lemma sum_list_take_nth:
  "n < length xs \<Longrightarrow> sum_list (take (Suc n) xs) = sum_list (take n xs) + (xs ! n :: nat)"
  by (simp add: take_Suc_conv_app_nth)

definition waits_recorded :: "nat list \<Rightarrow> counters" where
  "waits_recorded ms = fold counters_waited ms no_counters"

lemma waits_recorded_snoc: "waits_recorded (ms @ [m]) = counters_waited m (waits_recorded ms)"
  by (simp add: waits_recorded_def)

lemma waits_recorded_ok: "counters_ok (waits_recorded ms) \<and> ct_requests (waits_recorded ms) = length ms"
proof (induction ms rule: rev_induct)
  case Nil
  then show ?case by (simp add: waits_recorded_def counters_ok_def no_counters_def sum_list_replicate)
next
  case (snoc m ms)
  then show ?case by (simp add: waits_recorded_snoc counters_waited_ok) (simp add: counters_waited_def)
qed

lemma waits_recorded_buckets:
  "k \<le> buckets \<Longrightarrow> sum_list (take k (ct_waits (waits_recorded ms))) = length (filter (\<lambda>m. wait_bucket m < k) ms)"
proof (induction ms rule: rev_induct)
  case Nil
  then show ?case by (simp add: waits_recorded_def no_counters_def sum_list_replicate take_replicate)
next
  case (snoc m ms)
  have len: "length (ct_waits (waits_recorded ms)) = buckets" using waits_recorded_ok by (simp add: counters_ok_def)
  have upd: "sum_list (take k (xs[i := xs ! i + 1])) = sum_list (take k xs) + (if i < k then 1 else 0)"
    if "i < length xs" "k \<le> length xs" for xs :: "nat list" and i
    using that by (cases "i < k") (simp_all add: take_update_swap sum_list_update elem_le_sum_list list_update_beyond)
  from snoc wait_bucket_less [of m] len show ?case
    by (simp add: waits_recorded_snoc counters_waited_def) (use upd len in simp)
qed

text \<open>The p99 of a report is honest: when a lane recorded waits of less than 2 ^ 32
  microseconds, at least 99 in 100 of them are shorter than the reported p99, and no wait is
  longer than the reported maximum.\<close>

theorem report_p99_covers:
  assumes "ms \<noteq> []" and "\<forall>m \<in> set ms. m < 2 ^ 32"
  shows "length (filter (\<lambda>m. m < lr_wait_p99 (counters_report (waits_recorded ms))) ms) * 100 \<ge> length ms * 99 \<and>
    lr_wait_p99 (counters_report (waits_recorded ms)) \<le> lr_wait_max (counters_report (waits_recorded ms))"
proof -
  let ?c = "waits_recorded ms"
  obtain p mx where r: "report_loop (length ms) 0 (ct_waits ?c) 0 0 0 = (p, mx)" by fastforce
  have all: "sum_list (ct_waits ?c) = length ms" and len: "length (ct_waits ?c) = buckets"
    using waits_recorded_ok [of ms] by (simp_all add: counters_ok_def)
  have "p \<le> mx \<and> (0 < length ms \<longrightarrow> (0 :: nat) = 0 \<longrightarrow> (\<exists>j < length (ct_waits ?c). p = 2 ^ (0 + j) \<and>
      (0 + sum_list (take (Suc j) (ct_waits ?c))) * 100 \<ge> length ms * 99))"
    by (rule report_loop_p99 [OF r]) (simp_all add: all)
  then have "p \<le> mx \<and> (\<exists>j < buckets. p = 2 ^ j \<and> sum_list (take (Suc j) (ct_waits ?c)) * 100 \<ge> length ms * 99)"
    using assms(1) by (simp only: len length_greater_0_conv add_0 simp_thms not_False_eq_True)
  then obtain j where j: "p \<le> mx" "j < buckets" "p = 2 ^ j" "sum_list (take (Suc j) (ct_waits ?c)) * 100 \<ge> length ms * 99"
    by blast
  have below: "m < 2 ^ j" if "m \<in> set ms" "wait_bucket m < Suc j" for m
  proof (cases "m = 0")
    case False
    have "m < 2 ^ 32" using that(1) assms(2) by simp
    with False have "m < 2 ^ wait_bucket m" using wait_bucket_bounds(2) [of m] by simp
    also have "\<dots> \<le> 2 ^ j" using that(2) by (simp add: power_increasing)
    finally show ?thesis .
  qed simp
  have "length (filter (\<lambda>m. wait_bucket m < Suc j) ms) = sum_list (take (Suc j) (ct_waits ?c))"
    using waits_recorded_buckets [of "Suc j" ms] j(2) by simp
  moreover have "length (filter (\<lambda>m. wait_bucket m < Suc j) ms) \<le> length (filter (\<lambda>m. m < p) ms)"
    using below j(3) by (induction ms) auto
  ultimately have "length ms * 99 \<le> length (filter (\<lambda>m. m < p) ms) * 100" using j(4) by linarith
  then show ?thesis using j(1) r all by (simp add: counters_report_def)
qed

theorem report_p99_covers_witness:
  "length (filter (\<lambda>m. m < lr_wait_p99 (counters_report (waits_recorded [3, 900]))) [3, 900]) * 100 \<ge> 2 * 99"
  using report_p99_covers [of "[3, 900]"] by simp

end
