(* ===== verification/Sender.thy ===== *)
theory Sender
  imports QueueProps
begin

text \<open>
  \<open>collecty/src/send/mod.rs\<close>: the loop that closes due segments, picks the oldest closed one,
  reads it and offers it to signy until signy takes or refuses it. Durations are counted in
  nanoseconds. The transport is the environment: what each attempt came to.
\<close>

datatype outcome = Accepted nat | Retry string | Refused string

record sender_config =
  retry_initial :: nat
  retry_max :: nat

definition millis :: "nat \<Rightarrow> nat" where
  "millis n = n * 1000000"

definition default_sender_config :: sender_config where
  "default_sender_config = \<lparr>retry_initial = millis 100, retry_max = millis 30000\<rparr>"

record sender_stats =
  sent_segments :: nat
  sent_bytes :: nat
  refused_segments :: nat
  refused_bytes :: nat
  retries :: nat

definition no_stats :: sender_stats where
  "no_stats = \<lparr>sent_segments = 0, sent_bytes = 0, refused_segments = 0, refused_bytes = 0, retries = 0\<rparr>"

text \<open>The quarter of a wait, in whole milliseconds, over which the clock's nanoseconds spread it.\<close>

definition jittered :: "nat \<Rightarrow> nat \<Rightarrow> nat" where
  "jittered nanos backoff =
     (let spread = backoff div millis 1 div 4 in
      if spread = 0 then backoff else backoff + millis (nanos mod spread))"

subsection \<open>Delivering one segment\<close>

text \<open>One attempt: whether shutdown was asked for before it, what the transport answered, the clock.\<close>

record attempt =
  at_shutdown :: bool
  at_outcome :: outcome
  at_nanos :: nat

datatype delivered = Stopped | Committed nat | Trying nat

text \<open>
  The loop of \<open>deliver\<close> over the attempts made so far: what it comes to, the counters, and the
  waits between attempts. \<open>Trying\<close> holds the backoff the loop goes on with.
\<close>

fun deliver_loop ::
    "sender_config \<Rightarrow> nat \<Rightarrow> nat \<Rightarrow> nat \<Rightarrow> attempt list \<Rightarrow> sender_stats \<Rightarrow> delivered \<times> sender_stats \<times> nat list" where
  "deliver_loop cfg seq bytes backoff [] st = (Trying backoff, st, [])"
| "deliver_loop cfg seq bytes backoff (a # rest) st =
     (if at_shutdown a then (Stopped, st, [])
      else
        (case at_outcome a of
           Accepted stored \<Rightarrow>
             (Committed (max stored seq), st\<lparr>sent_segments := sent_segments st + 1, sent_bytes := sent_bytes st + bytes\<rparr>, [])
         | Refused _ \<Rightarrow>
             (Committed seq, st\<lparr>refused_segments := refused_segments st + 1, refused_bytes := refused_bytes st + bytes\<rparr>, [])
         | Retry _ \<Rightarrow>
             (case deliver_loop cfg seq bytes (min (backoff * 2) (retry_max cfg)) rest (st\<lparr>retries := retries st + 1\<rparr>) of
                (d, st', ws) \<Rightarrow> (d, st', jittered (at_nanos a) backoff # ws))))"

text \<open>A commit that fails is logged, and the sender goes on.\<close>

definition deliver ::
    "sender_config \<Rightarrow> env \<Rightarrow> sealed_segment \<Rightarrow> attempt list \<Rightarrow> sender_stats \<Rightarrow> queue \<Rightarrow> delivered \<times> sender_stats \<times> queue" where
  "deliver cfg env segment attempts st q =
     (case deliver_loop cfg (ss_seq segment) (length (ss_body segment)) (retry_initial cfg) attempts st of
        (Committed acked, st', _) \<Rightarrow> (Committed acked, st', snd (commit env (ss_signal segment) acked q))
      | (d, st', _) \<Rightarrow> (d, st', q))"

text \<open>
  One turn of \<open>run\<close>. \<open>meanwhile\<close> is what the intake did to the queue while the segment was on
  its way.
\<close>

record turn =
  tn_shutdown :: bool
  tn_env :: env
  tn_attempts :: "attempt list"

definition sender_turn ::
    "sender_config \<Rightarrow> (queue \<Rightarrow> queue) \<Rightarrow> turn \<Rightarrow> sender_stats \<Rightarrow> queue \<Rightarrow> delivered option \<times> sender_stats \<times> queue" where
  "sender_turn cfg meanwhile t st q =
     (let q1 = snd (seal_if_due (tn_env t) q) in
      case oldest_sealed q1 of
        None \<Rightarrow> (None, st, q1)
      | Some (sg, seq) \<Rightarrow>
          (case read_segment q1 sg seq of
             Inl e \<Rightarrow> (None, st, q1)
           | Inr segment \<Rightarrow>
               (case deliver cfg (tn_env t) segment (tn_attempts t) st (meanwhile q1) of
                  (d, st', q2) \<Rightarrow> (Some d, st', q2))))"

fun sender_run :: "sender_config \<Rightarrow> (queue \<Rightarrow> queue) \<Rightarrow> turn list \<Rightarrow> sender_stats \<Rightarrow> queue \<Rightarrow> sender_stats \<times> queue" where
  "sender_run cfg meanwhile [] st q = (st, q)"
| "sender_run cfg meanwhile (t # ts) st q =
     (if tn_shutdown t then (st, q)
      else (case sender_turn cfg meanwhile t st q of (_, st', q') \<Rightarrow> sender_run cfg meanwhile ts st' q'))"

subsection \<open>Waits\<close>

lemma jittered_bounds: "backoff \<le> jittered nanos backoff \<and> jittered nanos backoff \<le> backoff + backoff div 4"
proof (cases "backoff div millis 1 div 4 = 0")
  case True
  then show ?thesis by (simp add: jittered_def)
next
  case False
  let ?s = "backoff div millis 1 div 4"
  have "nanos mod ?s < ?s" using False by simp
  then have "nanos mod ?s * 1000000 \<le> ?s * 1000000" by simp
  also have "\<dots> \<le> backoff div 4" by (simp add: millis_def div_mult2_eq [symmetric])
  finally show ?thesis using False by (simp add: jittered_def millis_def)
qed

definition backoff_at :: "sender_config \<Rightarrow> nat \<Rightarrow> nat" where
  "backoff_at cfg i = (if i = 0 then retry_initial cfg else min (retry_initial cfg * 2 ^ i) (retry_max cfg))"

lemma backoff_at_Suc: "backoff_at cfg (Suc i) = min (backoff_at cfg i * 2) (retry_max cfg)"
  by (cases i) (auto simp: backoff_at_def min_def)

definition refused_try :: "attempt \<Rightarrow> bool" where
  "refused_try a \<longleftrightarrow> \<not> at_shutdown a \<and> (\<exists>r. at_outcome a = Retry r)"

lemma deliver_loop_retries:
  assumes "list_all refused_try as"
  shows "deliver_loop cfg seq bytes (backoff_at cfg i) (as @ rest) st =
    (case deliver_loop cfg seq bytes (backoff_at cfg (i + length as)) rest (st\<lparr>retries := retries st + length as\<rparr>) of
       (d, st', ws) \<Rightarrow> (d, st', map (\<lambda>k. jittered (at_nanos (as ! k)) (backoff_at cfg (i + k))) [0..<length as] @ ws))"
  using assms
proof (induction as arbitrary: i st)
  case Nil
  then show ?case by (simp split: prod.splits)
next
  case (Cons a as)
  then obtain r where a: "\<not> at_shutdown a" "at_outcome a = Retry r" by (auto simp: refused_try_def)
  have m: "map (\<lambda>k. jittered (at_nanos ((a # as) ! k)) (backoff_at cfg (i + k))) [0..<Suc (length as)] =
      jittered (at_nanos a) (backoff_at cfg i) #
      map (\<lambda>k. jittered (at_nanos (as ! k)) (backoff_at cfg (Suc i + k))) [0..<length as]"
    by (subst upt_conv_Cons) (simp_all add: map_Suc_upt [symmetric] comp_def del: upt_Suc)
  show ?case
    using a Cons.IH [of "Suc i" "st\<lparr>retries := retries st + 1\<rparr>"] Cons.prems m
    by (simp add: backoff_at_Suc [symmetric] split: prod.splits)
qed

subsection \<open>Draining the queue\<close>

text \<open>
  A turn that serves the front of a store and leaves strictly less: as many turns as there is
  left empty it.
\<close>

locale drains =
  fixes serve :: "'t \<Rightarrow> 's \<Rightarrow> 's" and good :: "'s \<Rightarrow> bool" and serves :: "'t \<Rightarrow> bool" and left :: "'s \<Rightarrow> nat"
  assumes serve_good: "good s \<Longrightarrow> serves t \<Longrightarrow> good (serve t s)"
    and serve_less: "good s \<Longrightarrow> serves t \<Longrightarrow> left (serve t s) \<le> left s - 1"
begin

lemma turns_empty:
  "good s \<Longrightarrow> list_all serves ts \<Longrightarrow> left s \<le> length ts \<Longrightarrow> good (fold serve ts s) \<and> left (fold serve ts s) = 0"
proof (induction ts arbitrary: s)
  case Nil
  then show ?case by simp
next
  case (Cons t ts)
  then have "good (serve t s)" and "left (serve t s) \<le> length ts"
    using serve_good serve_less [of s t] by simp_all
  with Cons show ?case by simp
qed

end

lemma since_open:
  assumes "queue_inv z q"
  shows "sq_since (q_signals q sg) = None \<longleftrightarrow> aq_open (queue_abs z q) sg = []"
proof -
  obtain ws rs where "sw_writes (sq_active (q_signals q sg)) = Some ws" "writes_records ws rs"
    "sq_since (q_signals q sg) = None \<longleftrightarrow> rs = []"
    using assms unfolding queue_inv_def signal_inv_def open_ok_def by blast
  then show ?thesis using open_records_writes [of _ ws rs] by (simp add: queue_abs_def)
qed

lemma seal_if_due_nothing_open:
  assumes "\<And>sg. sq_since (q_signals q sg) = None"
  shows "seal_if_due env q = (Inr (), q)"
  using assms by (simp add: seal_if_due_def all_signals_def roll_if_due_def op_then_def)

definition unsent :: "queue \<Rightarrow> nat" where
  "unsent q = sum_list (map (\<lambda>sg. length (sealed_of q sg)) all_signals)"

lemma unsent_abs: "unsent q = sum_list (map (\<lambda>sg. length (aq_sealed (queue_abs z q) sg)) all_signals)"
  by (simp add: unsent_def queue_abs_def abs_sealed_def)

lemma unsent_0: "unsent q = 0 \<longleftrightarrow> (\<forall>sg. sealed_of q sg = [])"
  by (auto simp: unsent_def)

lemma sum_signals_less:
  fixes f g :: "signal \<Rightarrow> nat"
  assumes "f sg < g sg" and "\<And>s. f s \<le> g s"
  shows "sum_list (map f all_signals) < sum_list (map g all_signals)"
  using assms(1) assms(2) [of Logs] assms(2) [of Traces] assms(2) [of Metrics]
  by (cases sg) (simp_all add: all_signals_def)

definition drained :: "zstd \<Rightarrow> queue \<Rightarrow> bool" where
  "drained z q \<longleftrightarrow> queue_inv z q \<and> (\<forall>sg. aq_open (queue_abs z q) sg = [])"

text \<open>A front segment is there to be read, and a commit of its number or more retires it.\<close>

lemma front_read_commit:
  assumes "quiet z env" and "queue_inv z q" and "oldest_sealed q = Some (sg, seq)" and "seq \<le> acked"
  shows "\<exists>segment. read_segment q sg seq = Inr segment \<and> ss_seq segment = seq \<and> ss_signal segment = sg"
    and "unsent (snd (commit env sg acked q)) < unsent q"
proof -
  have st: "stamps_inv q" and inv: "signal_inv z (q_dirs q sg) (q_signals q sg)"
    using assms(2) by (simp_all add: queue_inv_def)
  obtain front rest where fr: "sq_segments (q_signals q sg) = front # rest" "rest \<noteq> []" "seq = h_seq front"
    using oldest_sealed_Some [OF st assms(3)] by metis
  then have sealed: "sealed_of q sg = front # butlast rest" by (simp add: sealed_of_def)
  then have "sealed_ok z (q_dirs q sg) front" using inv by (simp add: signal_inv_def sealed_of_def)
  then have "seg_exists (q_dirs q sg) seq" using fr(3) by (auto simp: sealed_ok_def)
  then show "\<exists>segment. read_segment q sg seq = Inr segment \<and> ss_seq segment = seq \<and> ss_signal segment = sg"
    by (auto simp: read_segment_def map_whole_def seg_exists_def file_content_def split: option.splits)
  let ?a = "queue_abs z q" and ?a' = "queue_abs z (snd (commit env sg acked q))"
  have abs: "?a' = abs_commit sg acked ?a" using commit_quiet [OF assms(1,2)] by simp
  obtain p ps where p: "aq_sealed ?a sg = p # ps" "fst p = seq"
    using sealed fr(3) by (simp add: queue_abs_def abs_sealed_def)
  then have "length (aq_sealed ?a' sg) < length (aq_sealed ?a sg)"
    using assms(4) by (simp add: abs abs_commit_def le_imp_less_Suc length_dropWhile_le)
  moreover have "length (aq_sealed ?a' s) \<le> length (aq_sealed ?a s)" for s
    by (simp add: abs abs_commit_def length_dropWhile_le)
  ultimately have "sum_list (map (\<lambda>s. length (aq_sealed ?a' s)) all_signals) < sum_list (map (\<lambda>s. length (aq_sealed ?a s)) all_signals)"
    by (rule sum_signals_less)
  then show "unsent (snd (commit env sg acked q)) < unsent q" by (simp add: unsent_abs [of _ z])
qed

text \<open>A turn that is not stopped, whose attempts end in an answer, on a device that works.\<close>

definition answered :: "attempt \<Rightarrow> bool" where
  "answered a \<longleftrightarrow> \<not> at_shutdown a \<and> (\<forall>r. at_outcome a \<noteq> Retry r)"

definition good_turn :: "zstd \<Rightarrow> turn \<Rightarrow> bool" where
  "good_turn z t \<longleftrightarrow>
     quiet z (tn_env t) \<and> \<not> tn_shutdown t \<and>
     (\<exists>as a rest. tn_attempts t = as @ a # rest \<and> list_all refused_try as \<and> answered a)"

lemma deliver_loop_answered:
  assumes "list_all refused_try as" and "answered a"
  shows "\<exists>acked st' ws. deliver_loop cfg seq bytes backoff (as @ a # rest) st = (Committed acked, st', ws) \<and> seq \<le> acked"
  using assms(1)
proof (induction as arbitrary: backoff st)
  case Nil
  then show ?case using assms(2) by (cases "at_outcome a") (auto simp: answered_def)
next
  case (Cons b as)
  then obtain r where b: "\<not> at_shutdown b" "at_outcome b = Retry r" by (auto simp: refused_try_def)
  with Cons.IH [of "min (backoff * 2) (retry_max cfg)" "st\<lparr>retries := retries st + 1\<rparr>"] Cons.prems show ?case by auto
qed

definition serve_turn :: "sender_config \<Rightarrow> turn \<Rightarrow> sender_stats \<times> queue \<Rightarrow> sender_stats \<times> queue" where
  "serve_turn cfg t s = snd (sender_turn cfg (\<lambda>q. q) t (fst s) (snd s))"

lemma serve_turn_drains:
  assumes "drained z (snd s)" and "good_turn z t"
  shows "drained z (snd (serve_turn cfg t s)) \<and> unsent (snd (serve_turn cfg t s)) \<le> unsent (snd s) - 1"
proof -
  obtain st q where s: "s = (st, q)" by fastforce
  have inv: "queue_inv z q" and opn: "\<And>sg. aq_open (queue_abs z q) sg = []" using assms(1) s by (simp_all add: drained_def)
  have env: "quiet z (tn_env t)" using assms(2) by (simp add: good_turn_def)
  have since: "sq_since (q_signals q sg) = None" for sg using since_open [OF inv] opn by simp
  note due = seal_if_due_nothing_open [OF since]
  show ?thesis
  proof (cases "oldest_sealed q")
    case None
    then have "unsent q = 0"
      using oldest_sealed_None [of q] inv by (simp add: unsent_0 queue_inv_def signal_inv_def)
    then show ?thesis using None s assms(1) by (simp add: serve_turn_def sender_turn_def due)
  next
    case (Some p)
    obtain sg seq where p: "p = (sg, seq)" by fastforce
    obtain segment where seg: "read_segment q sg seq = Inr segment" "ss_seq segment = seq" "ss_signal segment = sg"
      using front_read_commit(1) [OF env inv] Some p by blast
    obtain acked st' ws where d: "deliver_loop cfg seq (length (ss_body segment)) (retry_initial cfg) (tn_attempts t) st
        = (Committed acked, st', ws)" "seq \<le> acked"
      using assms(2) deliver_loop_answered unfolding good_turn_def by metis
    have r: "serve_turn cfg t s = (st', snd (commit (tn_env t) sg acked q))"
      using s Some p seg d(1) by (simp add: serve_turn_def sender_turn_def due deliver_def)
    have "unsent (snd (commit (tn_env t) sg acked q)) < unsent q"
      using front_read_commit(2) [OF env inv] Some p d(2) by blast
    moreover have "drained z (snd (commit (tn_env t) sg acked q))"
      using commit_quiet [OF env inv, of sg acked] opn by (simp add: drained_def abs_commit_def)
    ultimately show ?thesis using r s by simp
  qed
qed

interpretation sender: drains "serve_turn cfg" "\<lambda>s. drained z (snd s)" "good_turn z" "\<lambda>s. unsent (snd s)" for cfg z
  by unfold_locales (use serve_turn_drains in blast)+

lemma sender_run_fold:
  assumes "list_all (\<lambda>t. \<not> tn_shutdown t) ts"
  shows "sender_run cfg (\<lambda>q. q) ts st q = fold (serve_turn cfg) ts (st, q)"
  using assms by (induction ts arbitrary: st q) (simp_all add: serve_turn_def split: prod.splits)

subsection \<open>What the sender promises\<close>

text \<open>C18: a segment is retried until it is answered and then settled by that answer: after any
  attempts that asked for a retry, an acceptance commits the larger of the segment's number and
  the number signy says it holds, a refusal commits the segment's own; every retry is counted
  and waits between one and one and a quarter times its backoff, which starts at
  \<open>retry_initial\<close>, doubles, and stays at \<open>retry_max\<close>.\<close>

theorem deliver_settles_by_answer:
  assumes "list_all refused_try as" and "answered a"
  shows "\<exists>ws. deliver_loop cfg seq bytes (retry_initial cfg) (as @ a # rest) st =
      (case at_outcome a of
         Accepted stored \<Rightarrow> (Committed (max stored seq),
           st\<lparr>retries := retries st + length as, sent_segments := sent_segments st + 1, sent_bytes := sent_bytes st + bytes\<rparr>, ws)
       | _ \<Rightarrow> (Committed seq,
           st\<lparr>retries := retries st + length as, refused_segments := refused_segments st + 1,
             refused_bytes := refused_bytes st + bytes\<rparr>, ws)) \<and>
    length ws = length as \<and>
    (\<forall>k < length as. backoff_at cfg k \<le> ws ! k \<and> ws ! k \<le> backoff_at cfg k + backoff_at cfg k div 4)"
proof -
  have "retry_initial cfg = backoff_at cfg 0" by (simp add: backoff_at_def)
  then show ?thesis
    using deliver_loop_retries [OF assms(1), of cfg seq bytes 0 "a # rest" st] assms(2) jittered_bounds
    by (cases "at_outcome a") (auto simp: answered_def simp del: deliver_loop.simps(1))
qed

definition retry_try :: attempt where
  "retry_try = \<lparr>at_shutdown = False, at_outcome = Retry ''503'', at_nanos = 7\<rparr>"

definition accept_try :: "nat \<Rightarrow> attempt" where
  "accept_try n = \<lparr>at_shutdown = False, at_outcome = Accepted n, at_nanos = 7\<rparr>"

theorem deliver_settles_by_answer_witness:
  "\<exists>ws st. deliver_loop default_sender_config 4 10 (retry_initial default_sender_config)
      [retry_try, retry_try, accept_try 6] no_stats = (Committed 6, st, ws) \<and> retries st = 2 \<and> length ws = 2"
  using deliver_settles_by_answer [of "[retry_try, retry_try]" "accept_try 6" default_sender_config 4 10 "[]" no_stats]
  by (auto simp: refused_try_def answered_def retry_try_def accept_try_def no_stats_def)

text \<open>C19: a drain ends: with nothing open and nothing written meanwhile, as many turns as there
  are closed segments, each ending in an answer after whatever retries, leave no closed segment
  in any of the three signals.\<close>

theorem sender_drains_queue:
  assumes "queue_inv z q" and "\<forall>sg. aq_open (queue_abs z q) sg = []"
    and "list_all (good_turn z) ts" and "unsent q \<le> length ts"
  shows "queue_inv z (snd (sender_run cfg (\<lambda>q. q) ts st q)) \<and>
    (\<forall>sg. sealed_of (snd (sender_run cfg (\<lambda>q. q) ts st q)) sg = [])"
proof -
  have "list_all (\<lambda>t. \<not> tn_shutdown t) ts" using assms(3) by (auto simp: list_all_iff good_turn_def)
  then show ?thesis
    using sender.turns_empty [of z "(st, q)" ts cfg] assms
    by (simp add: sender_run_fold drained_def unsent_0)
qed

theorem sender_drains_queue_witness:
  "\<forall>sg. sealed_of (snd (sender_run default_sender_config (\<lambda>q. q)
      [\<lparr>tn_shutdown = False, tn_env = plain_env, tn_attempts = [retry_try, accept_try 1]\<rparr>] no_stats one_sealed_queue)) sg = []"
proof -
  let ?t = "\<lparr>tn_shutdown = False, tn_env = plain_env, tn_attempts = [retry_try, accept_try 1]\<rparr>"
  have "\<exists>as a rest. [retry_try, accept_try 1] = as @ a # rest \<and> list_all refused_try as \<and> answered a"
    by (intro exI [of _ "[retry_try]"] exI [of _ "accept_try 1"] exI [of _ "[]"])
      (simp add: refused_try_def answered_def retry_try_def accept_try_def)
  then have t: "list_all (good_turn plain_zstd) [?t]" by (simp add: good_turn_def quiet_plain)
  have "sq_since (q_signals one_sealed_queue sg) = None" for sg
    by (simp add: one_sealed_queue_def empty_queue_def)
  then have o: "\<forall>sg. aq_open (queue_abs plain_zstd one_sealed_queue) sg = []"
    using since_open [OF one_sealed_queue_inv] by simp
  have "unsent one_sealed_queue \<le> length [?t]"
    by (simp add: unsent_def all_signals_def sealed_of_def one_sealed_queue_def empty_queue_def)
  from sender_drains_queue [OF one_sealed_queue_inv o t this] show ?thesis by blast
qed

end
