(* ===== verification/Transport.thy ===== *)
theory Transport
  imports Sender Identity Strings
begin

text \<open>
  \<open>collecty/src/send/transport.rs\<close>: how one HTTP exchange becomes an \<open>outcome\<close>, which number is
  read off the answer, and what is struck from the text that is logged. Strings are the
  characters of ASCII bodies. What the client library made of the request is a value.
\<close>

subsection \<open>Where it is sent\<close>

definition scheme_separator :: string where
  "scheme_separator = ''://''"

definition normalize_scheme :: "string \<Rightarrow> string" where
  "normalize_scheme value =
     (case find_sub value scheme_separator of
        None \<Rightarrow> value
      | Some at \<Rightarrow> map ascii_lower (take at value) @ drop at value)"

definition transport_base :: "string \<Rightarrow> string" where
  "transport_base base = rev (dropWhile (\<lambda>c. c = CHR ''/'') (rev (normalize_scheme base)))"

definition transport_route :: "string \<Rightarrow> string" where
  "transport_route base = transport_base base @ ''/signy/api/v1/collect''"

subsection \<open>The answer\<close>

definition quote_char :: char where
  "quote_char = CHR 0x22"

definition stored_key :: string where
  "stored_key = quote_char # ''stored'' @ [quote_char]"

definition stored_number :: "string \<Rightarrow> nat" where
  "stored_number body =
     (case find_sub body stored_key of
        None \<Rightarrow> 0
      | Some at \<Rightarrow>
          (let rest = drop (at + length stored_key) body in
           case find_sub rest '':'' of
             None \<Rightarrow> 0
           | Some colon \<Rightarrow>
               (case parse_u64 (takeWhile (\<lambda>c. digit_val c \<noteq> None) (trim_start (drop (colon + 1) rest))) of
                  None \<Rightarrow> 0
                | Some n \<Rightarrow> n)))"

definition redacted :: string where
  "redacted = ''[REDACTED]''"

definition reason_limit :: nat where
  "reason_limit = 512"

text \<open>The credentials there are, the longest first; the sort keeps the order of equals.\<close>

definition credentials :: "string option \<Rightarrow> string option \<Rightarrow> string list" where
  "credentials client secret =
     sort_key (\<lambda>c. - int (length c)) (filter (\<lambda>c. c \<noteq> []) (List.map_filter (\<lambda>c. c) [client, secret]))"

definition redact :: "string \<Rightarrow> string option \<Rightarrow> string option \<Rightarrow> string" where
  "redact text' client secret = fold (\<lambda>c t. replace_all c redacted t) (credentials client secret) text'"

definition refuses_the_payload :: "nat \<Rightarrow> bool" where
  "refuses_the_payload status \<longleftrightarrow> status \<in> {400, 413, 415, 422}"

text \<open>What the exchange came to: a request that could not be built, an error of the client, no
  answer in time, or a status and a body (\<open>None\<close> when the body could not be read).\<close>

datatype exchange = Unbuildable | ClientError string | TimedOut | Response nat "string option"

definition explanation :: "string \<Rightarrow> string option \<Rightarrow> string option \<Rightarrow> string" where
  "explanation body client secret = take reason_limit (redact body client secret)"

definition deliver_outcome :: "string \<Rightarrow> nat \<Rightarrow> string option \<Rightarrow> string option \<Rightarrow> (nat \<Rightarrow> string) \<Rightarrow> exchange \<Rightarrow> outcome" where
  "deliver_outcome base timeout_ms client secret show_status e =
     (let uri = transport_route base in
      case e of
        Unbuildable \<Rightarrow> Refused (''cannot build a request for '' @ uri)
      | ClientError err \<Rightarrow> Retry (uri @ '': '' @ err)
      | TimedOut \<Rightarrow> Retry (uri @ '': no answer within '' @ show_nat timeout_ms @ ''ms'')
      | Response status body \<Rightarrow>
          (let text' = (case body of None \<Rightarrow> [] | Some b \<Rightarrow> trim b);
               stored = stored_number text';
               reason = uri @ '': '' @ show_status status @ '' '' @ explanation text' client secret
           in if 200 \<le> status \<and> status < 300 then Accepted stored
              else if refuses_the_payload status then Refused reason
              else Retry reason))"

text \<open>The headers a shipment carries.\<close>

definition shipment_headers :: "sender_id \<Rightarrow> signal \<Rightarrow> nat \<Rightarrow> (string \<times> string) list" where
  "shipment_headers who sg segment =
     [(''content-type'', ''application/x-protobuf''), (''content-encoding'', ''zstd''),
      (''x-collecty-sender'', sender_display who), (''x-collecty-signal'', signal_as_str sg),
      (''x-collecty-segment'', show_nat segment)]"

subsection \<open>Striking a credential\<close>

lemma fold_replace_keeps_out:
  assumes "\<not> sublist c t" and "c \<noteq> []" and "set c \<inter> set redacted = {}"
  shows "\<not> sublist c (fold (\<lambda>c t. replace_all c redacted t) cs t)"
  using assms(1)
proof (induction cs arbitrary: t)
  case (Cons d cs)
  have "redacted \<noteq> []" by (simp add: redacted_def)
  then have "\<not> sublist c (replace_all d redacted t)" using Cons.prems assms(2,3) sublist_replaced by blast
  then show ?case using Cons.IH by simp
qed simp

lemma fold_replace_strikes:
  assumes "c \<in> set cs" and "c \<noteq> []" and "set c \<inter> set redacted = {}"
  shows "\<not> sublist c (fold (\<lambda>c t. replace_all c redacted t) cs t)"
  using assms(1)
proof (induction cs arbitrary: t)
  case Nil
  then show ?case by simp
next
  case (Cons d ds)
  show ?case
  proof (cases "c \<in> set ds")
    case True
    then show ?thesis using Cons.IH by simp
  next
    case False
    then have "c = d" using Cons.prems by simp
    then have "\<not> sublist c (replace_all d redacted t)"
      using assms(2,3) replace_all_strikes by (auto simp: redacted_def)
    then show ?thesis using fold_replace_keeps_out [OF _ assms(2,3)] by simp
  qed
qed

subsection \<open>What the transport promises\<close>

text \<open>C27: no configured credential is in the text a refusal or a retry gives, wherever it stood in
  the answer, as long as it shares no character with the marker that takes its place: the text
  is the address, the status and an explanation the credential is not part of.\<close>

theorem redacted_explanation_hides_credentials:
  assumes "c \<in> set (credentials client secret)" and "set c \<inter> set redacted = {}"
  shows "\<not> sublist c (explanation body client secret)"
proof
  assume "sublist c (explanation body client secret)"
  then have "sublist c (redact body client secret)"
    unfolding explanation_def by (meson sublist_take sublist_order.order_trans)
  moreover have "c \<noteq> []" using assms(1) by (simp add: credentials_def)
  ultimately show False using fold_replace_strikes [OF assms(1) _ assms(2)] by (simp add: redact_def)
qed

theorem redacted_explanation_hides_credentials_witness:
  "\<not> sublist ''abc'' (explanation ''no abc here'' (Some ''abc'') None)"
  by (rule redacted_explanation_hides_credentials) (simp_all add: credentials_def redacted_def map_filter_def)

text \<open>An exchange is an acceptance only for a success status, with the number its answer
  states; it loses a segment only for the four statuses that refuse its shape (or a request that
  cannot be built at all); everything else is retried.\<close>

theorem deliver_outcome_classes:
  "(case deliver_outcome base ms client secret sh e of
      Accepted stored \<Rightarrow> \<exists>status body. e = Response status body \<and> status div 100 = 2 \<and>
        stored = stored_number (case body of None \<Rightarrow> [] | Some b \<Rightarrow> trim b)
    | Refused _ \<Rightarrow> e = Unbuildable \<or> (\<exists>status body. e = Response status body \<and> status \<in> {400, 413, 415, 422})
    | Retry _ \<Rightarrow> e \<noteq> Unbuildable \<and> (\<forall>status body. e = Response status body \<longrightarrow>
        status div 100 \<noteq> 2 \<and> status \<notin> {400, 413, 415, 422}))"
proof -
  have h: "200 \<le> n \<and> n < 300 \<longleftrightarrow> n div 100 = 2" for n :: nat by auto
  show ?thesis
    by (cases e) (auto simp: deliver_outcome_def Let_def refuses_the_payload_def h split: if_splits)
qed

theorem deliver_outcome_classes_witness:
  "\<exists>r. deliver_outcome ''http://h'' 10 None None show_nat (Response 503 None) = Retry r"
  using deliver_outcome_classes [where base = "''http://h''" and ms = 10 and client = None and secret = None
      and sh = show_nat and e = "Response 503 None"]
  by (auto split: outcome.splits)

end
