(* ===== verification/Intake.thy ===== *)
theory Intake
  imports Transport
begin

text \<open>
  \<open>collecty/src/receive/mod.rs\<close>: the door an application exports through. \<open>route_checks\<close> is the
  chain of guards in front of the body and the reading of it, \<open>accept\<close> the hand-over to the
  queue, and \<open>intake_step\<close> the gate that bounds the bytes between the two.
\<close>

subsection \<open>Refusals\<close>

datatype refusal = TooLarge nat nat | ShuttingDown | Rejected io_error | Failed io_error

definition refusal_status :: "refusal \<Rightarrow> nat" where
  "refusal_status r = (case r of TooLarge _ _ \<Rightarrow> 413 | ShuttingDown \<Rightarrow> 503 | Rejected _ \<Rightarrow> 400 | Failed _ \<Rightarrow> 500)"

definition spool_failure :: "io_error \<Rightarrow> refusal" where
  "spool_failure e = (if e = InvalidInput then Rejected e else Failed e)"

subsection \<open>One export\<close>

record intake =
  in_max_request :: nat
  in_max_inflight :: nat

definition u32_max :: nat where
  "u32_max = 2 ^ 32 - 1"

text \<open>\<open>None\<close> is a failed assertion.\<close>

definition intake_new :: "nat \<Rightarrow> nat \<Rightarrow> intake option" where
  "intake_new max_request max_inflight =
     (if \<not> max_request \<le> u32_max - record_header_bytes then None
      else if \<not> max_inflight \<ge> max_request then None
      else Some \<lparr>in_max_request = max_request, in_max_inflight = max_inflight\<rparr>)"

definition default_max_request_bytes :: nat where
  "default_max_request_bytes = 16 * 1024 * 1024"

definition default_max_inflight_bytes :: nat where
  "default_max_inflight_bytes = 64 * 1024 * 1024"

text \<open>\<open>accept\<close> of a spool that is running, the permit in hand.\<close>

definition accept :: "env \<Rightarrow> intake \<Rightarrow> signal \<Rightarrow> bytes list \<Rightarrow> queue \<Rightarrow> ((refusal + unit) \<times> queue) option" where
  "accept env i sg chunks q =
     (let plain_len = sum_list (map length chunks) in
      if plain_len > in_max_request i then Some (Inl (TooLarge plain_len (in_max_request i)), q)
      else if plain_len = 0 then Some (Inr (), q)
      else (case append_chunks env sg chunks q of
              None \<Rightarrow> None
            | Some (Inl e, q') \<Rightarrow> Some (Inl (spool_failure e), q')
            | Some (Inr _, q') \<Rightarrow> Some (Inr (), q')))"

subsection \<open>The route\<close>

datatype frame = Data bytes | Trailers

text \<open>
  A header that is not text cannot be read, and counts as one that is not there. A frame of
  the body is an error or a frame; the limit is an error of its own.
\<close>

record export_request =
  rq_path :: string
  rq_method :: string
  rq_content_type :: "string option option"
  rq_content_encoding :: "string option option"
  rq_declared :: "nat option"
  rq_frames :: "(unit + frame) list"

definition protobuf :: string where
  "protobuf = ''application/x-protobuf''"

definition media_type :: "string \<Rightarrow> string" where
  "media_type raw = map ascii_lower (trim (takeWhile (\<lambda>c. c \<noteq> CHR '';'') raw))"

definition readable :: "string option option \<Rightarrow> string option" where
  "readable h = (case h of None \<Rightarrow> None | Some v \<Rightarrow> v)"

fun read_body :: "nat \<Rightarrow> (unit + frame) list \<Rightarrow> bytes list option" where
  "read_body remaining [] = Some []"
| "read_body remaining (Inl _ # fs) = None"
| "read_body remaining (Inr Trailers # fs) = read_body remaining fs"
| "read_body remaining (Inr (Data d) # fs) =
     (if length d > remaining then None
      else map_option (\<lambda>ds. d # ds) (read_body (remaining - length d) fs))"

definition route_checks :: "nat \<Rightarrow> export_request \<Rightarrow> nat + signal \<times> bytes list" where
  "route_checks limit rq =
     (case from_otlp_path (rq_path rq) of
        None \<Rightarrow> Inl 404
      | Some sg \<Rightarrow>
          if rq_method rq \<noteq> ''POST'' then Inl 405
          else if (case readable (rq_content_type rq) of Some v \<Rightarrow> media_type v \<noteq> protobuf | None \<Rightarrow> True) then Inl 415
          else if (case readable (rq_content_encoding rq) of
                     None \<Rightarrow> False | Some v \<Rightarrow> map ascii_lower (trim v) \<noteq> ''identity'') then Inl 415
          else if (case rq_declared rq of Some n \<Rightarrow> n > limit | None \<Rightarrow> False) then Inl 413
          else (case read_body limit (rq_frames rq) of None \<Rightarrow> Inl 413 | Some chunks \<Rightarrow> Inr (sg, chunks)))"

definition route :: "env \<Rightarrow> intake \<Rightarrow> export_request \<Rightarrow> queue \<Rightarrow> (nat \<times> queue) option" where
  "route env i rq q =
     (case route_checks (in_max_request i) rq of
        Inl status \<Rightarrow> Some (status, q)
      | Inr (sg, chunks) \<Rightarrow>
          (case accept env i sg chunks q of
             None \<Rightarrow> None
           | Some (Inl r, q') \<Rightarrow> Some (refusal_status r, q')
           | Some (Inr _, q') \<Rightarrow> Some (200, q')))"

subsection \<open>The gate\<close>

text \<open>
  Exports by number: those that wait, in the order they came, with the permits they want and those
  they were given so far; those that hold theirs; those that were answered, and those whose caller
  went away. The semaphore is fair: a call that asks for more than there is takes what there is and
  waits, and what comes back goes to the waiting calls in their order. What a caller that went away had handed
  to the write lane is still written, but its permits are back.
\<close>

record gate =
  ga_permits :: nat
  ga_waiting :: "(nat \<times> nat \<times> nat) list"
  ga_holding :: "(nat \<times> nat) list"
  ga_answered :: "nat list"
  ga_abandoned :: "nat list"

definition gate_new :: "intake \<Rightarrow> gate" where
  "gate_new i = \<lparr>ga_permits = in_max_inflight i, ga_waiting = [], ga_holding = [], ga_answered = [], ga_abandoned = []\<rparr>"

definition gate_exports :: "gate \<Rightarrow> nat set" where
  "gate_exports g = fst ` set (ga_waiting g) \<union> fst ` set (ga_holding g) \<union> set (ga_answered g) \<union> set (ga_abandoned g)"

fun hand_out :: "nat \<Rightarrow> (nat \<times> nat \<times> nat) list \<Rightarrow> nat \<times> (nat \<times> nat) list \<times> (nat \<times> nat \<times> nat) list" where
  "hand_out p [] = (p, [], [])"
| "hand_out p ((k, n, given) # w) =
     (if given + p < n then (0, [], (k, n, given + p) # w)
      else (case hand_out (p - (n - given)) w of (left, admitted, w') \<Rightarrow> (left, (k, n) # admitted, w')))"

definition acquire_many :: "nat \<Rightarrow> nat \<Rightarrow> gate \<Rightarrow> gate" where
  "acquire_many k n g =
     (if n \<le> ga_permits g then g\<lparr>ga_permits := ga_permits g - n, ga_holding := ga_holding g @ [(k, n)]\<rparr>
      else g\<lparr>ga_permits := 0, ga_waiting := ga_waiting g @ [(k, n, ga_permits g)]\<rparr>)"

definition give_back :: "nat \<Rightarrow> gate \<Rightarrow> gate" where
  "give_back p g =
     (case hand_out (ga_permits g + p) (ga_waiting g) of
        (left, admitted, w) \<Rightarrow> g\<lparr>ga_permits := left, ga_waiting := w, ga_holding := ga_holding g @ admitted\<rparr>)"

inductive intake_step :: "intake \<Rightarrow> gate \<Rightarrow> gate \<Rightarrow> bool" for i where
  at_once: "intake_step i g (g\<lparr>ga_answered := ga_answered g @ [k]\<rparr>)"
    if "n > in_max_request i \<or> n = 0" and "k \<notin> gate_exports g"
| arrive: "intake_step i g (acquire_many k n g)"
    if "0 < n" and "n \<le> in_max_request i" and "k \<notin> gate_exports g"
| answer: "intake_step i g (give_back n (g\<lparr>ga_holding := a @ b, ga_answered := ga_answered g @ [k]\<rparr>))"
    if "ga_holding g = a @ (k, n) # b"
| abandon: "intake_step i g (give_back n (g\<lparr>ga_holding := a @ b, ga_abandoned := ga_abandoned g @ [k]\<rparr>))"
    if "ga_holding g = a @ (k, n) # b"
| give_up: "intake_step i g (give_back given (g\<lparr>ga_waiting := a @ b, ga_abandoned := ga_abandoned g @ [k]\<rparr>))"
    if "ga_waiting g = a @ (k, n, given) # b"

inductive intake_reachable :: "intake \<Rightarrow> gate \<Rightarrow> bool" for i where
  init: "intake_reachable i (gate_new i)"
| step: "intake_reachable i g \<Longrightarrow> intake_step i g g' \<Longrightarrow> intake_reachable i g'"

definition inflight_occupied :: "intake \<Rightarrow> gate \<Rightarrow> nat" where
  "inflight_occupied i g = in_max_inflight i - ga_permits g"

definition held_permits :: "gate \<Rightarrow> nat" where "held_permits g = sum_list (map snd (ga_holding g))"

definition given_permits :: "(nat \<times> nat \<times> nat) list \<Rightarrow> nat" where "given_permits w = sum_list (map (\<lambda>(_, _, given). given) w)"

text \<open>Only the first in line has been given a part.\<close>

definition waits_ok :: "intake \<Rightarrow> (nat \<times> nat \<times> nat) list \<Rightarrow> bool" where
  "waits_ok i w \<longleftrightarrow> list_all (\<lambda>(_, n, given). given < n \<and> n \<le> in_max_request i) w \<and> list_all (\<lambda>(_, _, given). given = 0) (tl w)"

definition gate_inv :: "intake \<Rightarrow> gate \<Rightarrow> bool" where
  "gate_inv i g \<longleftrightarrow>
     ga_permits g + held_permits g + given_permits (ga_waiting g) = in_max_inflight i \<and>
     waits_ok i (ga_waiting g) \<and> (ga_waiting g \<noteq> [] \<longrightarrow> ga_permits g = 0)"

lemma waits_ok_append: "waits_ok i (a @ x # b) \<Longrightarrow> waits_ok i (a @ b)"
  by (cases a; cases b) (auto simp: waits_ok_def)

lemma hand_out_ok:
  "hand_out p w = (left, admitted, w') \<Longrightarrow> waits_ok i w \<Longrightarrow>
   left + sum_list (map snd admitted) + given_permits w' = p + given_permits w \<and> waits_ok i w' \<and> (w' \<noteq> [] \<longrightarrow> left = 0) \<and>
   map fst w = map fst admitted @ map fst w'"
proof (induction p w arbitrary: left admitted w' rule: hand_out.induct)
  case (2 p k n given w)
  have w: "waits_ok i w" "given < n" "given_permits w = 0"
  proof -
    show "waits_ok i w" using waits_ok_append [of i "[]"] "2.prems"(2) by simp
    show "given < n" using "2.prems"(2) by (simp add: waits_ok_def)
    show "given_permits w = 0" using "2.prems"(2) by (auto simp: waits_ok_def given_permits_def list_all_iff)
  qed
  show ?case
  proof (cases "given + p < n")
    case True
    then show ?thesis using "2.prems" w by (auto simp: waits_ok_def given_permits_def)
  next
    case False
    obtain l a v where r: "hand_out (p - (n - given)) w = (l, a, v)" by (cases "hand_out (p - (n - given)) w")
    then have "left = l" "admitted = (k, n) # a" "w' = v" using "2.prems"(1) False by simp_all
    then show ?thesis using "2.IH" [OF False r w(1)] w False by (auto simp: given_permits_def)
  qed
qed (auto simp: given_permits_def)

lemma give_back_ok:
  assumes "ga_permits g + p + held_permits g + given_permits (ga_waiting g) = in_max_inflight i" and "waits_ok i (ga_waiting g)"
  shows "gate_inv i (give_back p g)"
proof -
  obtain l a w where r: "hand_out (ga_permits g + p) (ga_waiting g) = (l, a, w)" by (cases "hand_out (ga_permits g + p) (ga_waiting g)")
  from hand_out_ok [OF r assms(2)] r assms(1) show ?thesis by (simp add: give_back_def gate_inv_def held_permits_def)
qed

lemma gate_inv_step: "intake_step i g g' \<Longrightarrow> gate_inv i g \<Longrightarrow> gate_inv i g'"
proof (induction rule: intake_step.induct)
  case (at_once n k g)
  then show ?case by (simp add: gate_inv_def held_permits_def)
next
  case (arrive n k g)
  have "waits_ok i (ga_waiting g @ [(k, n, ga_permits g)])" if "\<not> n \<le> ga_permits g"
    using arrive that by (cases "ga_waiting g") (auto simp: gate_inv_def waits_ok_def)
  then show ?case using arrive by (auto simp: gate_inv_def acquire_many_def held_permits_def given_permits_def)
next
  case (give_up g a k n given b)
  then show ?case using waits_ok_append [of i a "(k, n, given)" b]
    by (intro give_back_ok) (simp_all add: gate_inv_def given_permits_def held_permits_def)
qed (rule give_back_ok; simp add: gate_inv_def held_permits_def)+

lemma gate_inv_reachable: "intake_reachable i g \<Longrightarrow> gate_inv i g"
proof (induction rule: intake_reachable.induct)
  case init
  then show ?case by (simp add: gate_inv_def gate_new_def held_permits_def given_permits_def waits_ok_def)
next
  case (step g g')
  then show ?case using gate_inv_step by blast
qed

text \<open>Nobody waits where nobody holds: a request is no larger than the gate.\<close>

lemma waiting_means_holding:
  assumes "gate_inv i g" and "in_max_request i \<le> in_max_inflight i" and "ga_waiting g \<noteq> []"
  shows "ga_holding g \<noteq> []"
proof
  assume h: "ga_holding g = []"
  obtain k n given w where e: "ga_waiting g = (k, n, given) # w" using assms(3) by (cases "ga_waiting g") auto
  then have "given < n" "n \<le> in_max_request i" "given_permits w = 0" using assms(1)
    by (auto simp: gate_inv_def waits_ok_def given_permits_def list_all_iff)
  moreover have "given + given_permits w = in_max_inflight i" using assms(1,3) e h by (simp add: gate_inv_def held_permits_def given_permits_def)
  ultimately show False using assms(2) by simp
qed

text \<open>Nobody overtakes: who is ahead of a waiting export was ahead of it before.\<close>

definition ahead_of :: "nat \<Rightarrow> gate \<Rightarrow> nat set" where
  "ahead_of k g = set (takeWhile (\<lambda>j. j \<noteq> k) (map fst (ga_waiting g))) \<union> fst ` set (ga_holding g)"

lemma give_back_ahead:
  assumes "waits_ok i (ga_waiting g)" and "distinct (map fst (ga_waiting g))" and "k \<in> fst ` set (ga_waiting (give_back p g))"
  shows "k \<in> fst ` set (ga_waiting g)" and "ahead_of k (give_back p g) \<subseteq> ahead_of k g"
proof -
  obtain l a w where r: "hand_out (ga_permits g + p) (ga_waiting g) = (l, a, w)" by (cases "hand_out (ga_permits g + p) (ga_waiting g)")
  have m: "map fst (ga_waiting g) = map fst a @ map fst w" using hand_out_ok [OF r assms(1)] by simp
  have k: "k \<in> set (map fst w)" using assms(3) r by (simp add: give_back_def)
  then have "k \<in> set (map fst (ga_waiting g))" unfolding m by simp
  then show "k \<in> fst ` set (ga_waiting g)" by simp
  have "k \<notin> set (map fst a)" using assms(2) k unfolding m by auto
  then have "takeWhile (\<lambda>j. j \<noteq> k) (map fst (ga_waiting g)) = map fst a @ takeWhile (\<lambda>j. j \<noteq> k) (map fst w)"
    unfolding m by (subst takeWhile_append2) auto
  then show "ahead_of k (give_back p g) \<subseteq> ahead_of k g" using r by (auto simp: ahead_of_def give_back_def)
qed

definition gate_distinct :: "gate \<Rightarrow> bool" where
  "gate_distinct g \<longleftrightarrow> distinct (map fst (ga_waiting g) @ map fst (ga_holding g))"

lemma give_back_exports:
  assumes "waits_ok i (ga_waiting g)"
  shows "gate_exports (give_back p g) = gate_exports g" and "gate_distinct g \<Longrightarrow> gate_distinct (give_back p g)"
proof -
  obtain l a w where r: "hand_out (ga_permits g + p) (ga_waiting g) = (l, a, w)" by (cases "hand_out (ga_permits g + p) (ga_waiting g)")
  have m: "map fst (ga_waiting g) = map fst a @ map fst w" using hand_out_ok [OF r assms] by simp
  have "fst ` set (ga_waiting g) = fst ` set a \<union> fst ` set w" using arg_cong [OF m, of set] by simp
  then show "gate_exports (give_back p g) = gate_exports g" using r by (auto simp: gate_exports_def give_back_def)
  show "gate_distinct g \<Longrightarrow> gate_distinct (give_back p g)" using r m by (auto simp: gate_distinct_def give_back_def)
qed

lemma give_back_order:
  assumes w: "waits_ok i (ga_waiting h)" and d: "gate_distinct h" and sub: "gate_exports g \<subseteq> gate_exports h"
    and order: "\<And>x. x \<in> fst ` set (ga_waiting h) \<Longrightarrow> x \<in> fst ` set (ga_waiting g) \<and> ahead_of x h \<subseteq> ahead_of x g"
  shows "gate_distinct (give_back p h) \<and> gate_exports g \<subseteq> gate_exports (give_back p h) \<and>
    (\<forall>k \<in> gate_exports g. k \<in> fst ` set (ga_waiting (give_back p h)) \<longrightarrow>
       k \<in> fst ` set (ga_waiting g) \<and> ahead_of k (give_back p h) \<subseteq> ahead_of k g)"
proof -
  have dw: "distinct (map fst (ga_waiting h))" using d unfolding gate_distinct_def distinct_append by simp
  have "k \<in> fst ` set (ga_waiting g) \<and> ahead_of k (give_back p h) \<subseteq> ahead_of k g" if "k \<in> fst ` set (ga_waiting (give_back p h))" for k
    using give_back_ahead [OF w dw that] order [of k] by (meson subset_trans)
  then show ?thesis using give_back_exports [OF w] d sub by simp
qed

lemma intake_step_order:
  assumes "intake_step i g g'" and "gate_inv i g" and "gate_distinct g"
  shows "gate_distinct g' \<and> gate_exports g \<subseteq> gate_exports g' \<and>
    (\<forall>k \<in> gate_exports g. k \<in> fst ` set (ga_waiting g') \<longrightarrow> k \<in> fst ` set (ga_waiting g) \<and> ahead_of k g' \<subseteq> ahead_of k g)"
  using assms
proof (induction rule: intake_step.induct)
  case (at_once n k g)
  then show ?case by (auto simp: gate_distinct_def gate_exports_def ahead_of_def)
next
  case (arrive n k g)
  have "takeWhile (\<lambda>j. j \<noteq> x) (map fst (ga_waiting g) @ [k]) = takeWhile (\<lambda>j. j \<noteq> x) (map fst (ga_waiting g))"
    if "x \<in> fst ` set (ga_waiting g)" for x
    by (rule takeWhile_append1) (use that in auto)
  moreover have "ga_waiting g = []" if "n \<le> ga_permits g" using arrive that by (auto simp: gate_inv_def)
  ultimately show ?case using arrive by (auto simp: gate_distinct_def gate_exports_def ahead_of_def acquire_many_def)
next
  case (give_up g a k n given b)
  let ?h = "g\<lparr>ga_waiting := a @ b, ga_abandoned := ga_abandoned g @ [k]\<rparr>"
  have w: "waits_ok i (ga_waiting ?h)" using give_up waits_ok_append [of i a "(k, n, given)" b] by (simp add: gate_inv_def)
  have d: "gate_distinct ?h" using give_up(1,3) unfolding gate_distinct_def by (simp add: Int_Un_distrib)
  have sub: "gate_exports g \<subseteq> gate_exports ?h" using give_up(1) by (auto simp: gate_exports_def)
  have "x \<in> fst ` set (ga_waiting g) \<and> ahead_of x ?h \<subseteq> ahead_of x g" if "x \<in> fst ` set (ga_waiting ?h)" for x
  proof -
    have "x \<noteq> k" using that give_up(1,3) by (auto simp: gate_distinct_def)
    then have "set (takeWhile (\<lambda>j. j \<noteq> x) (map fst a @ map fst b)) \<subseteq> set (takeWhile (\<lambda>j. j \<noteq> x) (map fst a @ k # map fst b))"
      by (induction a) auto
    then show ?thesis using that give_up(1) by (auto simp: ahead_of_def)
  qed
  then show ?case by (rule give_back_order [OF w d sub])
next
  case (answer g a k n b)
  let ?h = "g\<lparr>ga_holding := a @ b, ga_answered := ga_answered g @ [k]\<rparr>"
  have w: "waits_ok i (ga_waiting ?h)" and d: "gate_distinct ?h" using answer by (auto simp: gate_inv_def gate_distinct_def)
  have sub: "gate_exports g \<subseteq> gate_exports ?h" "\<And>x. ahead_of x ?h \<subseteq> ahead_of x g" "fst ` set (ga_waiting ?h) = fst ` set (ga_waiting g)"
    using answer(1) by (auto simp: gate_exports_def ahead_of_def)
  show ?case by (rule give_back_order [OF w d sub(1)]) (use sub(2,3) in auto)
next
  case (abandon g a k n b)
  let ?h = "g\<lparr>ga_holding := a @ b, ga_abandoned := ga_abandoned g @ [k]\<rparr>"
  have w: "waits_ok i (ga_waiting ?h)" and d: "gate_distinct ?h" using abandon by (auto simp: gate_inv_def gate_distinct_def)
  have sub: "gate_exports g \<subseteq> gate_exports ?h" "\<And>x. ahead_of x ?h \<subseteq> ahead_of x g" "fst ` set (ga_waiting ?h) = fst ` set (ga_waiting g)"
    using abandon(1) by (auto simp: gate_exports_def ahead_of_def)
  show ?case by (rule give_back_order [OF w d sub(1)]) (use sub(2,3) in auto)
qed

lemma gate_distinct_reachable: "intake_reachable i g \<Longrightarrow> gate_distinct g"
proof (induction rule: intake_reachable.induct)
  case init
  then show ?case by (simp add: gate_distinct_def gate_new_def)
next
  case (step g g')
  then show ?case using intake_step_order gate_inv_reachable by blast
qed

lemma intake_steps_order:
  assumes "(intake_step i)\<^sup>*\<^sup>* g g'" and "intake_reachable i g" and "k \<in> gate_exports g"
  shows "intake_reachable i g' \<and> k \<in> gate_exports g' \<and> (k \<in> fst ` set (ga_waiting g') \<longrightarrow> ahead_of k g' \<subseteq> ahead_of k g)"
  using assms(1)
proof (induction rule: rtranclp_induct)
  case base
  then show ?case using assms by simp
next
  case (step h h')
  then have "gate_inv i h" "gate_distinct h" using gate_inv_reachable gate_distinct_reachable by blast+
  from intake_step_order [OF step(2) this] step(3) intake_reachable.step [OF _ step(2)] show ?case by blast
qed

subsection \<open>What the intake promises\<close>

lemma intake_new_Some:
  "intake_new r f = Some i \<longleftrightarrow>
     r \<le> u32_max - record_header_bytes \<and> r \<le> f \<and> i = \<lparr>in_max_request = r, in_max_inflight = f\<rparr>"
  by (auto simp: intake_new_def)

lemma read_body_length: "read_body n fs = Some chunks \<Longrightarrow> length (concat chunks) \<le> n"
  by (induction n fs arbitrary: chunks rule: read_body.induct) (fastforce split: if_splits)+

text \<open>C35: an export is acknowledged exactly when it is kept: on a device that works every request is
  answered, one answered 200 names a signal by its path and is either empty or the last record
  of that signal, and one answered otherwise leaves the queue as it was.\<close>

theorem route_acknowledges_stored:
  assumes "quiet z env" and "queue_inv z q" and "intake_new r f = Some i"
  shows "\<exists>status q'. route env i rq q = Some (status, q') \<and> queue_inv z q' \<and>
    (if status = 200 then
       (\<exists>sg chunks. rq_path rq = otlp_path sg \<and> read_body r (rq_frames rq) = Some chunks \<and>
          (concat chunks = [] \<and> q' = q \<or> (\<exists>kept. streams z q' sg = kept @ [concat chunks])))
     else q' = q)"
proof (cases "route_checks r rq")
  case (Inl status)
  moreover have "status \<noteq> 200" using Inl by (auto simp: route_checks_def split: option.splits if_splits)
  ultimately show ?thesis using assms by (simp add: route_def intake_new_Some)
next
  case (Inr p)
  obtain sg chunks where p: "p = (sg, chunks)" by fastforce
  have c: "rq_path rq = otlp_path sg" "read_body r (rq_frames rq) = Some chunks"
    using Inr p by (auto simp: route_checks_def from_otlp_path_def find_Some_iff split: option.splits if_splits)
  then have len: "length (concat chunks) \<le> r" using read_body_length by blast
  then have sized: "wire_sized (concat chunks)" using assms(3)
    by (simp add: intake_new_Some wire_sized_def u32_max_def record_header_bytes_def)
  have i: "in_max_request i = r" using assms(3) by (auto simp: intake_new_Some)
  have sum: "sum_list (map length chunks) = length (concat chunks)" by (simp add: length_concat)
  consider "concat chunks = []"
    | "concat chunks \<noteq> []" "record_header_bytes + length (concat chunks) \<le> max_bytes (q_limits q)"
    | "concat chunks \<noteq> []" "record_header_bytes + length (concat chunks) > max_bytes (q_limits q)"
    by linarith
  then show ?thesis
  proof cases
    case 1
    then have "route env i rq q = Some (200, q)"
      using Inr p i sum len by (simp add: route_def accept_def Let_def)
    then show ?thesis using c 1 assms(2) by auto
  next
    case 2
    obtain q1 q' where r: "append_chunks env sg chunks q = Some (Inr (), q')" "queue_inv z q'"
      "\<And>s. streams z q' s = streams z q1 s @ (if s = sg then [concat chunks] else [])"
      using append_chunks_quiet [OF assms(1,2) sized 2(2), of sg] by blast
    have "route env i rq q = Some (200, q')"
      using Inr p i sum len 2(1) r(1) by (auto simp: route_def accept_def Let_def)
    then show ?thesis using c r(2,3) by auto
  next
    case 3
    then have "append_chunks env sg chunks q = Some (Inl InvalidInput, q)"
      by (simp add: append_chunks_def write_record_def length_concat)
    then have "route env i rq q = Some (400, q)"
      using Inr p i sum len 3(1) by (auto simp: route_def accept_def Let_def spool_failure_def refusal_status_def)
    then show ?thesis using assms(2) by auto
  qed
qed

definition sample_export :: export_request where
  "sample_export = \<lparr>rq_path = ''/v1/logs'', rq_method = ''POST'',
     rq_content_type = Some (Some ''Application/x-protobuf; charset=utf-8''), rq_content_encoding = None,
     rq_declared = None, rq_frames = [Inr (Data [7]), Inr Trailers, Inr (Data [8, 9])]\<rparr>"

theorem route_acknowledges_stored_witness:
  "\<exists>status q'. route plain_env \<lparr>in_max_request = 10, in_max_inflight = 20\<rparr> sample_export (empty_queue default_limits)
     = Some (status, q') \<and> (status = 200 \<longrightarrow> (\<exists>sg kept. streams plain_zstd q' sg = kept @ [[7, 8, 9]]))"
proof -
  have "intake_new 10 20 = Some \<lparr>in_max_request = 10, in_max_inflight = 20\<rparr>"
    by (simp add: intake_new_Some u32_max_def record_header_bytes_def)
  from route_acknowledges_stored [OF quiet_plain empty_queue_inv this, of sample_export default_limits]
  show ?thesis by (auto simp: sample_export_def split: if_splits)
qed

text \<open>C36: the gate is exact and starves nobody. What is reported as occupied is the permits of the exports
  that hold theirs and those handed to the first in line, never above the ceiling and exactly those of
  the holders when nobody waits; where someone waits someone holds, so there is an answer to come; and
  whatever happens meanwhile, once every export that was ahead of a waiting one is answered or gone, that
  one waits no more: it has its permits, or its caller gave up.\<close>

theorem intake_gate_progress:
  assumes "intake_new r f = Some i" and "intake_reachable i g"
  shows "held_permits g \<le> f \<and> inflight_occupied i g = held_permits g + given_permits (ga_waiting g) \<and>
    (ga_waiting g = [] \<longrightarrow> inflight_occupied i g = held_permits g) \<and>
    (ga_waiting g \<noteq> [] \<longrightarrow> inflight_occupied i g = f \<and> ga_holding g \<noteq> []) \<and>
    (\<forall>k g'. k \<in> fst ` set (ga_waiting g) \<longrightarrow> (intake_step i)\<^sup>*\<^sup>* g g' \<longrightarrow>
       ahead_of k g \<inter> (fst ` set (ga_waiting g') \<union> fst ` set (ga_holding g')) = {} \<longrightarrow>
       k \<in> fst ` set (ga_holding g') \<union> set (ga_answered g') \<union> set (ga_abandoned g'))"
proof -
  have inv: "gate_inv i g" using assms(2) by (rule gate_inv_reachable)
  have i: "in_max_request i \<le> in_max_inflight i" "in_max_inflight i = f" using assms(1) by (auto simp: intake_new_Some)
  have "k \<in> fst ` set (ga_holding g') \<union> set (ga_answered g') \<union> set (ga_abandoned g')"
    if "k \<in> fst ` set (ga_waiting g)" and steps: "(intake_step i)\<^sup>*\<^sup>* g g'"
      and gone: "ahead_of k g \<inter> (fst ` set (ga_waiting g') \<union> fst ` set (ga_holding g')) = {}" for k g'
  proof (rule ccontr)
    assume n: "\<not> ?thesis"
    have o: "intake_reachable i g'" "k \<in> gate_exports g'" "k \<in> fst ` set (ga_waiting g') \<longrightarrow> ahead_of k g' \<subseteq> ahead_of k g"
      using intake_steps_order [OF steps assms(2), of k] that(1) by (simp_all add: gate_exports_def)
    then have w: "k \<in> fst ` set (ga_waiting g')" using n by (auto simp: gate_exports_def)
    have "fst ` set (ga_holding g') \<subseteq> ahead_of k g" using o(3) w by (auto simp: ahead_of_def)
    then have "ga_holding g' = []" using gone by (cases "ga_holding g'") auto
    moreover have "ga_holding g' \<noteq> []" using waiting_means_holding [OF gate_inv_reachable [OF o(1)] i(1)] w
      by (cases "ga_waiting g'") auto
    ultimately show False by simp
  qed
  moreover have "ga_holding g \<noteq> []" if "ga_waiting g \<noteq> []" using waiting_means_holding [OF inv i(1) that] .
  ultimately show ?thesis using inv i
    by (auto simp: gate_inv_def inflight_occupied_def given_permits_def)
qed

text \<open>Of two exports the second waits with what was left; the answer to the first lets it in.\<close>

definition sample_intake :: intake where "sample_intake = \<lparr>in_max_request = 10, in_max_inflight = 12\<rparr>"

definition crowded_gate :: gate where
  "crowded_gate = \<lparr>ga_permits = 0, ga_waiting = [(2, 7, 4)], ga_holding = [(1, 8)], ga_answered = [], ga_abandoned = []\<rparr>"

theorem intake_gate_progress_witness:
  "\<exists>g'. intake_step sample_intake crowded_gate g' \<and> ga_answered g' = [1] \<and>
     2 \<in> fst ` set (ga_holding g') \<union> set (ga_answered g') \<union> set (ga_abandoned g')"
proof -
  have new: "intake_new 10 12 = Some sample_intake"
    by (simp add: intake_new_Some u32_max_def record_header_bytes_def sample_intake_def)
  have "intake_step sample_intake (gate_new sample_intake) (acquire_many 1 8 (gate_new sample_intake))"
    by (rule intake_step.arrive) (simp_all add: sample_intake_def gate_exports_def gate_new_def)
  moreover have "intake_step sample_intake (acquire_many 1 8 (gate_new sample_intake)) (acquire_many 2 7 (acquire_many 1 8 (gate_new sample_intake)))"
    by (rule intake_step.arrive) (simp_all add: sample_intake_def gate_exports_def gate_new_def acquire_many_def)
  moreover have "acquire_many 2 7 (acquire_many 1 8 (gate_new sample_intake)) = crowded_gate"
    by (simp add: acquire_many_def gate_new_def sample_intake_def crowded_gate_def)
  ultimately have r: "intake_reachable sample_intake crowded_gate" by (metis intake_reachable.init intake_reachable.step)
  obtain g' where g': "g' = give_back 8 (crowded_gate\<lparr>ga_holding := [] @ [], ga_answered := ga_answered crowded_gate @ [1]\<rparr>)" by simp
  have s: "intake_step sample_intake crowded_gate g'"
    unfolding g' by (rule intake_step.answer) (simp add: crowded_gate_def)
  have a: "ga_answered g' = [1]" "ga_holding g' = [(2, 7)]" "ga_waiting g' = []"
    by (simp_all add: g' give_back_def crowded_gate_def)
  have "ahead_of 2 crowded_gate \<inter> (fst ` set (ga_waiting g') \<union> fst ` set (ga_holding g')) = {}" "2 \<in> fst ` set (ga_waiting crowded_gate)"
    by (simp_all add: a ahead_of_def crowded_gate_def)
  with intake_gate_progress [OF new r] r_into_rtranclp [of "intake_step sample_intake", OF s]
  have "2 \<in> fst ` set (ga_holding g') \<union> set (ga_answered g') \<union> set (ga_abandoned g')" by blast
  then show ?thesis using s a by blast
qed

end
