(* ===== verification/Marks.thy ===== *)
theory Marks
  imports Identity "HOL-Library.AList"
begin

text \<open>
  \<open>signy/src/journal/marks.rs\<close>: how far each stream of each collecty has got. A stream is a
  sender and a signal; its position is the segment being read and how many of its records
  are stored. The hash map is an association list with distinct keys, in whatever order the
  map iterates; times are seconds since the epoch.
\<close>

subsection \<open>Signals\<close>

datatype collect_signal = CLogs | CTraces | CMetrics

definition collect_signals :: "collect_signal list" where
  "collect_signals = [CLogs, CTraces, CMetrics]"

definition collect_as_str :: "collect_signal \<Rightarrow> string" where
  "collect_as_str s = (case s of CLogs \<Rightarrow> ''logs'' | CTraces \<Rightarrow> ''traces'' | CMetrics \<Rightarrow> ''metrics'')"

definition collect_parse :: "string \<Rightarrow> collect_signal option" where
  "collect_parse name = find (\<lambda>s. collect_as_str s = name) collect_signals"

definition collect_tag :: "collect_signal \<Rightarrow> u8" where
  "collect_tag s = (case s of CLogs \<Rightarrow> 1 | CTraces \<Rightarrow> 2 | CMetrics \<Rightarrow> 3)"

definition collect_from_tag :: "u8 \<Rightarrow> collect_signal option" where
  "collect_from_tag tag = find (\<lambda>s. collect_tag s = tag) collect_signals"

lemma collect_parse_as_str: "collect_parse (collect_as_str s) = Some s"
  by (cases s) (simp_all add: collect_parse_def collect_as_str_def collect_signals_def)

lemma collect_from_tag_tag [simp]: "collect_from_tag (collect_tag s) = Some s"
  by (cases s) (simp_all add: collect_from_tag_def collect_tag_def collect_signals_def)

subsection \<open>Positions\<close>

text \<open>The derived order: by segment, then by records.\<close>

datatype position = Position (pos_segment: nat) (pos_records: nat)

instantiation position :: linorder
begin

definition less_eq_position :: "position \<Rightarrow> position \<Rightarrow> bool" where
  "less_eq_position a b \<longleftrightarrow>
     pos_segment a < pos_segment b \<or> pos_segment a = pos_segment b \<and> pos_records a \<le> pos_records b"

definition less_position :: "position \<Rightarrow> position \<Rightarrow> bool" where
  "less_position a b \<longleftrightarrow>
     pos_segment a < pos_segment b \<or> pos_segment a = pos_segment b \<and> pos_records a < pos_records b"

instance
  by standard (auto simp: less_eq_position_def less_position_def intro: position.expand)

end

definition position_start :: position where
  "position_start = Position 1 0"

definition whole_segments :: "position \<Rightarrow> nat" where
  "whole_segments p = pos_segment p - 1"

definition position_ok :: "position \<Rightarrow> bool" where
  "position_ok p \<longleftrightarrow> pos_segment p < 2 ^ 64 \<and> pos_records p < 2 ^ 64"

lemma whole_segments_mono: "p \<le> q \<Longrightarrow> whole_segments p \<le> whole_segments q"
  by (auto simp: less_eq_position_def whole_segments_def)

subsection \<open>Marks\<close>

record collect_mark =
  cm_sender :: sender_id
  cm_signal :: collect_signal
  cm_at :: position

record seen =
  sn_at :: position
  sn_when :: nat

type_synonym collect_marks = "((sender_id \<times> collect_signal) \<times> seen) list"

definition marks_position :: "collect_marks \<Rightarrow> sender_id \<Rightarrow> collect_signal \<Rightarrow> position" where
  "marks_position m sender sg =
     (case map_of m (sender, sg) of Some s \<Rightarrow> sn_at s | None \<Rightarrow> position_start)"

definition marks_advance :: "nat \<Rightarrow> collect_mark \<Rightarrow> collect_marks \<Rightarrow> collect_marks" where
  "marks_advance now mark m =
     AList.update (cm_sender mark, cm_signal mark)
       \<lparr>sn_at = max (marks_position m (cm_sender mark) (cm_signal mark)) (cm_at mark), sn_when = now\<rparr> m"

definition marks_streams :: "collect_marks \<Rightarrow> nat" where
  "marks_streams m = length m"

lemma marks_position_advance:
  "marks_position (marks_advance now mark m) sender sg =
     (if sender = cm_sender mark \<and> sg = cm_signal mark
      then max (marks_position m sender sg) (cm_at mark) else marks_position m sender sg)"
  by (auto simp: marks_position_def marks_advance_def update_conv')

lemma marks_advance_forward: "marks_position m sender sg \<le> marks_position (marks_advance now mark m) sender sg"
  by (simp add: marks_position_advance)

lemma distinct_marks_advance: "distinct (map fst m) \<Longrightarrow> distinct (map fst (marks_advance now mark m))"
  by (simp add: marks_advance_def distinct_update)

definition advance_all :: "nat \<Rightarrow> collect_mark list \<Rightarrow> collect_marks \<Rightarrow> collect_marks" where
  "advance_all now ms m = fold (marks_advance now) ms m"

lemma advance_all_simps [simp]:
  "advance_all now [] m = m"
  "advance_all now (a # ms) m = advance_all now ms (marks_advance now a m)"
  "advance_all now (ms @ ns) m = advance_all now ns (advance_all now ms m)"
  by (simp_all add: advance_all_def)

lemma advance_all_mono: "marks_position m s g \<le> marks_position (advance_all now ms m) s g"
  by (induction ms arbitrary: m) (simp, metis advance_all_simps(2) marks_advance_forward order_trans)

text \<open>However marks arrive, a stream stands at the highest of what was claimed for it.\<close>

lemma advance_all_position:
  "marks_position (advance_all now ms m) s g =
     fold max (map cm_at (filter (\<lambda>k. cm_sender k = s \<and> cm_signal k = g) ms)) (marks_position m s g)"
  by (induction ms arbitrary: m) (auto simp: marks_position_advance max.commute)

subsection \<open>The marks file\<close>

definition mark_entry_bytes :: nat where
  "mark_entry_bytes = sender_id_bytes + 1 + 8 + 8 + 8"

definition forget_after :: nat where
  "forget_after = 7 * 24 * 60 * 60"

definition mark_entry :: "(sender_id \<times> collect_signal) \<times> seen \<Rightarrow> bytes" where
  "mark_entry e =
     (case e of ((sender, sg), s) \<Rightarrow>
        sender @ [collect_tag sg] @ le_nat 8 (pos_segment (sn_at s)) @ le_nat 8 (pos_records (sn_at s))
          @ le_nat 8 (sn_when s))"

text \<open>A time after \<open>now\<close> is kept: \<open>duration_since\<close> fails and the entry is not forgotten.\<close>

definition marks_live :: "nat \<Rightarrow> collect_marks \<Rightarrow> collect_marks" where
  "marks_live now m = filter (\<lambda>(_, s). sn_when s > now \<or> now - sn_when s < forget_after) m"

definition marks_store :: "(bytes \<Rightarrow> u32) \<Rightarrow> nat \<Rightarrow> collect_marks \<Rightarrow> bytes \<times> collect_marks" where
  "marks_store crc now m =
     (let live = marks_live now m;
          body = le_nat 4 (length live) @ concat (map mark_entry live)
      in (body @ le_nat 4 (unat (crc body)), live))"

fun load_entries :: "nat \<Rightarrow> bytes \<Rightarrow> collect_marks \<Rightarrow> collect_marks" where
  "load_entries 0 bs m = m"
| "load_entries (Suc n) bs m =
     (let rest = drop mark_entry_bytes bs in
      case collect_from_tag (bs ! sender_id_bytes) of
        None \<Rightarrow> load_entries n rest m
      | Some sg \<Rightarrow>
          (let number = (\<lambda>from. nat_of_le (take 8 (drop from bs))) in
           load_entries n rest
             (AList.update (take sender_id_bytes bs, sg)
               \<lparr>sn_at = Position (number (sender_id_bytes + 1)) (number (sender_id_bytes + 9)),
                sn_when = number (sender_id_bytes + 17)\<rparr> m)))"

definition marks_load :: "(bytes \<Rightarrow> u32) \<Rightarrow> bytes option \<Rightarrow> collect_marks" where
  "marks_load crc file' =
     (case file' of
        None \<Rightarrow> []
      | Some bytes \<Rightarrow>
          if length bytes < 8 then []
          else
            (let body = length bytes - 4;
                 stored = word_of_nat (nat_of_le (drop body bytes)) :: u32
             in if crc (take body bytes) \<noteq> stored then []
                else
                  (let count = nat_of_le (take 4 bytes) in
                   if body \<noteq> 4 + count * mark_entry_bytes then []
                   else load_entries count (drop 4 (take body bytes)) [])))"

definition marks_ok :: "collect_marks \<Rightarrow> bool" where
  "marks_ok m \<longleftrightarrow>
     distinct (map fst m) \<and> length m < 2 ^ 32 \<and>
     list_all (\<lambda>((sender, _), s). is_sender_id sender \<and> position_ok (sn_at s) \<and> sn_when s < 2 ^ 64) m"

lemma length_mark_entry: "is_sender_id (fst (fst e)) \<Longrightarrow> length (mark_entry e) = mark_entry_bytes"
  by (cases e) (auto simp: mark_entry_def mark_entry_bytes_def is_sender_id_def)

lemma load_entries_mark_entry:
  assumes "is_sender_id sender" and "position_ok (sn_at s)" and "sn_when s < 2 ^ 64"
  shows "load_entries (Suc n) (mark_entry ((sender, sg), s) @ bs) m
     = load_entries n bs (AList.update (sender, sg) s m)"
proof -
  have 8: "nat_of_le (le_nat 8 k) = k" if "k < 2 ^ 64" for k
    using that by (simp add: nat_of_le_le_nat_id)
  have eta: "\<lparr>sn_at = sn_at s, sn_when = sn_when s\<rparr> = s" by (intro seen.equality) simp_all
  then show ?thesis
    using assms 8 unfolding position_ok_def
    by (simp add: mark_entry_def is_sender_id_def sender_id_bytes_def mark_entry_bytes_def nth_append eta)
qed

lemma load_entries_all:
  assumes "list_all (\<lambda>((sender, _), s). is_sender_id sender \<and> position_ok (sn_at s) \<and> sn_when s < 2 ^ 64) es"
  shows "load_entries (length es) (concat (map mark_entry es)) m = fold (\<lambda>(k, s). AList.update k s) es m"
  using assms
proof (induction es arbitrary: m)
  case Nil
  then show ?case by simp
next
  case (Cons e es)
  obtain sender sg s where e: "e = ((sender, sg), s)" by (metis prod.collapse)
  with Cons show ?case
    using load_entries_mark_entry [of sender s "length es" sg "concat (map mark_entry es)" m]
    by (simp del: load_entries.simps)
qed

lemma fold_update_fresh:
  "distinct (map fst (m @ es)) \<Longrightarrow> fold (\<lambda>(k, s). AList.update k s) es m = m @ es"
proof (induction es arbitrary: m)
  case Nil
  then show ?case by simp
next
  case (Cons e es)
  have "AList.update k v m = m @ [(k, v)]" if "k \<notin> fst ` set m" for k v and m :: "('a \<times> 'b) list"
    using that by (induction m) auto
  then show ?case using Cons.prems Cons.IH [of "m @ [e]"] by (cases e) auto
qed

lemma length_concat_entries:
  "list_all (\<lambda>((sender, _), s). is_sender_id sender \<and> position_ok (sn_at s) \<and> sn_when s < 2 ^ 64) es \<Longrightarrow>
     length (concat (map mark_entry es)) = length es * mark_entry_bytes"
  by (induction es) (auto simp: length_mark_entry)

lemma marks_ok_live: "marks_ok m \<Longrightarrow> marks_ok (marks_live now m)"
  unfolding marks_ok_def marks_live_def
  by (auto simp: list_all_iff distinct_map_filter intro: le_less_trans [OF length_filter_le])

lemma marks_load_store:
  assumes "marks_ok m"
  shows "marks_load crc (Some (fst (marks_store crc now m))) = marks_live now m"
proof -
  let ?live = "marks_live now m"
  have ok: "marks_ok ?live" by (rule marks_ok_live [OF assms])
  then have all: "list_all (\<lambda>((sender, _), s). is_sender_id sender \<and> position_ok (sn_at s) \<and> sn_when s < 2 ^ 64) ?live"
    and len: "length ?live < 256 ^ 4" and dist: "distinct (map fst ?live)"
    by (simp_all add: marks_ok_def)
  let ?body = "le_nat 4 (length ?live) @ concat (map mark_entry ?live)"
  have "word_of_nat (nat_of_le (le_nat 4 (unat (crc ?body)))) = crc ?body"
    by (rule word_of_nat_nat_of_le_le_nat(1))
  then show ?thesis
    using load_entries_all [OF all, of "[]"] fold_update_fresh [of "[]" ?live] dist
      length_concat_entries [OF all] nat_of_le_le_nat_id [OF len]
    by (simp add: marks_load_def marks_store_def Let_def)
qed

subsection \<open>Marks in the write-ahead log\<close>

definition mark_record_magic :: bytes where
  "mark_record_magic = [76, 71, 89, 77]"

definition mark_record_bytes :: nat where
  "mark_record_bytes = 4 + sender_id_bytes + 1 + 8 + 8"

definition frame_mark :: "collect_mark \<Rightarrow> bytes" where
  "frame_mark mark =
     mark_record_magic @ cm_sender mark @ [collect_tag (cm_signal mark)]
       @ le_nat 8 (pos_segment (cm_at mark)) @ le_nat 8 (pos_records (cm_at mark))"

definition decode_mark :: "bytes \<Rightarrow> collect_mark option" where
  "decode_mark data =
     (if length data \<noteq> mark_record_bytes \<or> \<not> starts_with data mark_record_magic then None
      else
        (case collect_from_tag (data ! (4 + sender_id_bytes)) of
           None \<Rightarrow> None
         | Some sg \<Rightarrow>
             (let number = (\<lambda>from. nat_of_le (take 8 (drop from data))) in
              Some \<lparr>cm_sender = take sender_id_bytes (drop 4 data), cm_signal = sg,
                    cm_at = Position (number (4 + sender_id_bytes + 1)) (number (4 + sender_id_bytes + 9))\<rparr>)))"

definition mark_ok :: "collect_mark \<Rightarrow> bool" where
  "mark_ok mark \<longleftrightarrow> is_sender_id (cm_sender mark) \<and> position_ok (cm_at mark)"

lemma length_frame_mark: "is_sender_id (cm_sender mark) \<Longrightarrow> length (frame_mark mark) = mark_record_bytes"
  by (simp add: frame_mark_def mark_record_magic_def mark_record_bytes_def is_sender_id_def)

lemma decode_mark_frame:
  assumes "mark_ok mark"
  shows "decode_mark (frame_mark mark) = Some mark"
proof -
  have 8: "nat_of_le (le_nat 8 k) = k" if "k < 2 ^ 64" for k
    using that by (simp add: nat_of_le_le_nat_id)
  have len: "length (frame_mark mark) = mark_record_bytes"
    using assms by (simp add: mark_ok_def length_frame_mark)
  have eta: "\<lparr>cm_sender = cm_sender mark, cm_signal = cm_signal mark, cm_at = cm_at mark\<rparr> = mark"
    by (intro collect_mark.equality) simp_all
  then show ?thesis
    using assms len 8 unfolding mark_ok_def position_ok_def
    by (simp add: decode_mark_def)
      (simp add: frame_mark_def mark_record_magic_def starts_with_def is_sender_id_def sender_id_bytes_def nth_append eta)
qed

end
