(* ===== verification/WalFormat.thy ===== *)
theory WalFormat
  imports Tenant Marks
begin

text \<open>
  The write-ahead log of signy as bytes (\<open>signy/src/journal/mod.rs\<close> and
  \<open>checkpoint.rs\<close>): a record is its length, its checksum and its data; the data is either a
  mark or a tenant frame around a compressed export. zstd and crc32 are parameters.
\<close>

subsection \<open>Constants\<close>

definition record_header_size :: nat where
  "record_header_size = 8"

definition max_record_bytes :: nat where
  "max_record_bytes = 256 * 1024 * 1024"

definition tenant_record_magic :: bytes where
  "tenant_record_magic = [76, 71, 89, 51]"

definition kind_logs :: u8 where
  "kind_logs = 0"

definition kind_traces :: u8 where
  "kind_traces = 1"

definition kind_otlp_logs :: u8 where
  "kind_otlp_logs = 2"

definition kind_otlp_metrics :: u8 where
  "kind_otlp_metrics = 3"

definition tenant_record_prefix_size :: nat where
  "tenant_record_prefix_size = length tenant_record_magic + 2"

lemmas kind_defs = kind_logs_def kind_traces_def kind_otlp_logs_def kind_otlp_metrics_def

subsection \<open>Frames\<close>

definition framed_record_len :: "tenant_id \<Rightarrow> bytes \<Rightarrow> nat" where
  "framed_record_len tenant payload = tenant_record_prefix_size + length tenant + length payload"

definition frame_tenant_record :: "tenant_id \<Rightarrow> u8 \<Rightarrow> bytes \<Rightarrow> bytes" where
  "frame_tenant_record tenant kind payload =
     tenant_record_magic @ [kind, word_of_nat (length tenant)] @ tenant @ payload"

datatype frame_error = TruncatedFrame | BadFrameTenant

definition decode_tenant_record :: "bytes \<Rightarrow> frame_error + (tenant_id \<times> u8 \<times> bytes) option" where
  "decode_tenant_record data =
     (if \<not> starts_with data tenant_record_magic then Inr None
      else if length data < tenant_record_prefix_size then Inl TruncatedFrame
      else
        (let kind = data ! length tenant_record_magic;
             tenant_len = unat (data ! (length tenant_record_magic + 1));
             tenant_end = tenant_record_prefix_size + tenant_len
         in if length data < tenant_end then Inl TruncatedFrame
            else (case tenant_parse (take tenant_len (drop tenant_record_prefix_size data)) of
                    Inl _ \<Rightarrow> Inl BadFrameTenant
                  | Inr tenant \<Rightarrow> Inr (Some (tenant, kind, drop tenant_end data)))))"

definition wal_record :: "(bytes \<Rightarrow> u32) \<Rightarrow> bytes \<Rightarrow> bytes" where
  "wal_record crc data = le_nat 4 (length data) @ le_nat 4 (unat (crc data)) @ data"

lemma length_frame_tenant_record: "length (frame_tenant_record t k p) = framed_record_len t p"
  by (simp add: frame_tenant_record_def framed_record_len_def tenant_record_prefix_size_def tenant_record_magic_def)

lemma length_wal_record: "length (wal_record crc data) = record_header_size + length data"
  by (simp add: wal_record_def record_header_size_def)

lemma tenant_length_byte: "is_tenant t \<Longrightarrow> unat (word_of_nat (length t) :: u8) = length t"
  by (simp add: is_tenant_def max_tenant_id_bytes_def unat_of_nat)

lemma decode_frame_tenant_record:
  assumes "is_tenant t"
  shows "decode_tenant_record (frame_tenant_record t k p) = Inr (Some (t, k, p))"
proof -
  have "tenant_parse t = Inr t" using assms by (simp add: tenant_parse_Inr_iff)
  then show ?thesis
    using tenant_length_byte [OF assms]
    by (simp add: decode_tenant_record_def frame_tenant_record_def tenant_record_magic_def starts_with_def
        tenant_record_prefix_size_def)
qed

lemma decode_mark_tenant_record: "decode_mark (frame_tenant_record t k p) = None"
  by (simp add: decode_mark_def frame_tenant_record_def tenant_record_magic_def mark_record_magic_def starts_with_def)

lemma decode_tenant_record_Some:
  assumes "decode_tenant_record data = Inr (Some (t, k, p))"
  shows "is_tenant t \<and> data = frame_tenant_record t k p"
proof -
  let ?n = "unat (data ! 5)"
  have d: "take 4 data = tenant_record_magic" "6 \<le> length data" "6 + ?n \<le> length data"
    "tenant_parse (take ?n (drop 6 data)) = Inr t" "k = data ! 4" "p = drop (6 + ?n) data"
    using assms by (auto simp: decode_tenant_record_def starts_with_def tenant_record_magic_def
        tenant_record_prefix_size_def Let_def not_less numeral_eq_Suc split: if_splits sum.splits)
  then have t: "is_tenant t" "t = take ?n (drop 6 data)" by (simp_all add: tenant_parse_Inr_iff)
  then have n: "length t = ?n" using d(3) by simp
  then have b: "word_of_nat (length t) = data ! 5" by simp
  have "data = take 4 data @ [data ! 4, data ! 5] @ take ?n (drop 6 data) @ drop (6 + ?n) data"
  proof -
    have "drop 4 data = data ! 4 # data ! 5 # drop 6 data"
      using d(2) by (simp add: Cons_nth_drop_Suc numeral_eq_Suc)
    moreover have "drop 6 data = take ?n (drop 6 data) @ drop (6 + ?n) data"
      by (metis add.commute append_take_drop_id drop_drop)
    ultimately show ?thesis by (metis append_Cons append_Nil append_take_drop_id)
  qed
  then show ?thesis using t b d(1,5,6) by (simp add: frame_tenant_record_def)
qed

subsection \<open>The checkpoint file\<close>

definition read_checkpoint :: "bytes option \<Rightarrow> nat option" where
  "read_checkpoint file' =
     (case file' of None \<Rightarrow> Some 0 | Some bs \<Rightarrow> if length bs \<noteq> 8 then None else Some (nat_of_le bs))"

definition write_checkpoint :: "nat \<Rightarrow> bytes" where
  "write_checkpoint offset = le_nat 8 offset"

lemma read_write_checkpoint: "offset < 2 ^ 64 \<Longrightarrow> read_checkpoint (Some (write_checkpoint offset)) = Some offset"
  by (simp add: read_checkpoint_def write_checkpoint_def nat_of_le_le_nat_id)

subsection \<open>What the flush has not retired\<close>

record wal_backlog =
  wb_wal :: nat
  wb_checkpoint :: nat

definition backlog_bytes :: "wal_backlog \<Rightarrow> nat" where
  "backlog_bytes b = wb_wal b - wb_checkpoint b"

subsection \<open>Metric memory\<close>

text \<open>
  Bytes a metric export has reserved against the memtable ceiling. The counter is shared;
  a permit gives back what it holds when it is dropped.
\<close>

definition try_reserve_metric :: "nat \<Rightarrow> nat \<Rightarrow> nat option \<Rightarrow> nat \<Rightarrow> (nat \<times> nat) option" where
  "try_reserve_metric observed bytes limit reserved =
     (case limit of
        None \<Rightarrow> Some (0, reserved)
      | Some l \<Rightarrow>
          (case checked_add_u64 (saturating_add_u64 observed reserved) bytes of
             None \<Rightarrow> None
           | Some tot \<Rightarrow> if tot \<le> l then Some (bytes, saturating_add_u64 reserved bytes) else None))"

definition permit_split :: "nat \<Rightarrow> nat \<Rightarrow> nat \<times> nat" where
  "permit_split permit bytes = (let b = min bytes permit in (permit - b, b))"

definition permit_drop :: "nat \<Rightarrow> nat \<Rightarrow> nat" where
  "permit_drop permit reserved = (if permit = 0 then reserved else reserved - permit)"

lemma permit_split_sum: "permit_split permit bytes = (a, b) \<Longrightarrow> a + b = permit"
  by (auto simp: permit_split_def Let_def)

lemma try_reserve_metric_release:
  assumes "try_reserve_metric observed bytes limit reserved = Some (permit, reserved')" and "reserved \<le> u64_max"
  shows "permit_drop permit reserved' = reserved"
    and "limit = Some l \<Longrightarrow> observed \<le> u64_max \<Longrightarrow> observed + reserved' \<le> l \<or> u64_max \<le> l"
  using assms
  by (auto simp: try_reserve_metric_def permit_drop_def checked_add_u64_def saturating_add_u64_def
      split: option.splits if_splits)

end
