(* ===== verification/Gate.thy ===== *)
theory Gate
  imports WalFormat
begin

text \<open>
  \<open>signy/src/backpressure.rs\<close>: when the server declines to take more. The bodies being read
  are counted in one number; a body's charge is added when it is admitted and taken off when
  its guard is dropped. Bytes are \<open>u64\<close> and the additions saturate.
\<close>

record gate_config =
  gc_probe :: bool
  gc_inflight :: "nat option"
  gc_memtable :: "nat option"
  gc_backlog :: "nat option"
  gc_free :: "nat option"

record gate_load =
  gl_log :: nat
  gl_trace :: nat
  gl_series :: nat
  gl_reserved :: nat
  gl_backlog :: wal_backlog
  gl_free :: nat

definition too_many_requests :: nat where
  "too_many_requests = 429"

definition service_unavailable :: nat where
  "service_unavailable = 503"

text \<open>\<open>admit_body\<close>: the charge the guard holds and the counter afterwards, or the refusal.\<close>

definition admit_body :: "gate_config \<Rightarrow> nat \<Rightarrow> nat \<Rightarrow> nat + nat \<times> nat" where
  "admit_body cfg bytes counter =
     (if gc_probe cfg then Inr (0, counter)
      else (case gc_inflight cfg of
              None \<Rightarrow> Inr (0, counter)
            | Some limit \<Rightarrow>
                if counter = 0 \<or> saturating_add_u64 counter bytes \<le> limit
                then Inr (bytes, saturating_add_u64 counter bytes)
                else Inl too_many_requests))"

definition inflight_drop :: "nat \<Rightarrow> nat \<Rightarrow> nat" where
  "inflight_drop charge counter = counter - charge"

definition buffered_bytes :: "gate_load \<Rightarrow> nat" where
  "buffered_bytes l =
     saturating_add_u64 (saturating_add_u64 (saturating_add_u64 (gl_log l) (gl_trace l)) (gl_series l)) (gl_reserved l)"

definition over :: "nat option \<Rightarrow> nat \<Rightarrow> bool" where
  "over limit n = (case limit of None \<Rightarrow> False | Some l \<Rightarrow> n > l)"

definition gate_check :: "gate_config \<Rightarrow> gate_load \<Rightarrow> nat + unit" where
  "gate_check cfg l =
     (if \<not> gc_probe cfg \<and> over (gc_memtable cfg) (buffered_bytes l) then Inl too_many_requests
      else if \<not> gc_probe cfg \<and> over (gc_backlog cfg) (backlog_bytes (gl_backlog l)) then Inl too_many_requests
      else (case gc_free cfg of
              None \<Rightarrow> Inr ()
            | Some floor \<Rightarrow> if gl_free l < floor then Inl too_many_requests else Inr ()))"

definition admit_batch :: "bool \<Rightarrow> bool \<Rightarrow> gate_config \<Rightarrow> gate_load \<Rightarrow> nat + unit" where
  "admit_batch fenced draining cfg l =
     (if fenced then Inl service_unavailable
      else if draining then Inl service_unavailable
      else gate_check cfg l)"

text \<open>The delay of a refusal: the duration in seconds, rounded up, between one and an hour.\<close>

definition retry_after_seconds :: "nat \<Rightarrow> nat" where
  "retry_after_seconds millis = max 1 (min 3600 ((millis + 999) div 1000))"

text \<open>
  Every counter the gate meets is a sum of charges, so a sequence of admissions and drops
  keeps it one.
\<close>

lemma admit_body_empty: "\<exists>charge counter'. admit_body cfg bytes 0 = Inr (charge, counter')"
  by (auto simp: admit_body_def split: option.splits)

lemma admit_body_counter:
  assumes "admit_body cfg bytes counter = Inr (charge, counter')" and "counter + bytes \<le> u64_max"
  shows "counter' = counter + charge" and "inflight_drop charge counter' = counter"
  using assms by (auto simp: admit_body_def inflight_drop_def saturating_add_u64_def split: option.splits if_splits)

lemma admit_body_limit:
  assumes "admit_body cfg bytes counter = Inr (charge, counter')" and "\<not> gc_probe cfg"
    and "gc_inflight cfg = Some limit"
  shows "counter' \<le> limit \<or> counter = 0"
  using assms by (auto simp: admit_body_def split: option.splits if_splits)

lemma gate_check_ok:
  assumes "gate_check cfg l = Inr ()" and "\<not> gc_probe cfg"
  shows "over (gc_memtable cfg) (buffered_bytes l) = False \<and>
    over (gc_backlog cfg) (backlog_bytes (gl_backlog l)) = False"
  using assms by (auto simp: gate_check_def split: if_splits)

lemma retry_after_seconds_bounds:
  "1 \<le> retry_after_seconds ms \<and> retry_after_seconds ms \<le> 3600 \<and> (ms \<le> 3600000 \<longrightarrow> ms \<le> 1000 * retry_after_seconds ms)"
  by (auto simp: retry_after_seconds_def)

end
