(* ===== verification/Collect.thy ===== *)
theory Collect
  imports Gate Wire Strings
begin

text \<open>
  \<open>signy/src/collect.rs\<close>: the one way telemetry enters the engine. The body is a zstd stream
  over \<open>length | payload\<close> repeated; it arrives in chunks, is decompressed a little at a time
  and handed out a record at a time. The decoder is a parameter: what it has produced after
  given bytes, and after being told that they were all.
\<close>

subsection \<open>Constants\<close>

definition collect_record_header_bytes :: nat where
  "collect_record_header_bytes = 4"

definition max_collect_record_bytes :: nat where
  "max_collect_record_bytes = 16 * 1024 * 1024"

definition max_inflight_records :: nat where
  "max_inflight_records = 32"

definition decoder_feed_bytes :: nat where
  "decoder_feed_bytes = 16 * 1024"

definition bad_request :: nat where
  "bad_request = 400"

definition payload_too_large :: nat where
  "payload_too_large = 413"

definition unsupported_media_type :: nat where
  "unsupported_media_type = 415"

definition internal_server_error :: nat where
  "internal_server_error = 500"

subsection \<open>Records out of a body\<close>

record decoder =
  dc_out :: "bytes \<Rightarrow> bytes option"
  dc_end :: "bytes \<Rightarrow> bytes option"

text \<open>What the program relies on: output only ever grows, and ends at what the whole gives.\<close>

definition decoder_ok :: "decoder \<Rightarrow> bool" where
  "decoder_ok dc \<longleftrightarrow>
     dc_out dc [] = Some [] \<and>
     (\<forall>a b p. dc_out dc (a @ b) = Some p \<longrightarrow> (\<exists>q. dc_out dc a = Some q \<and> prefix q p)) \<and>
     (\<forall>a p. dc_end dc a = Some p \<longrightarrow> (\<exists>q. dc_out dc a = Some q \<and> prefix q p))"

record collected =
  cr_body :: "(unit + bytes) list"
  cr_fed :: bytes
  cr_made :: nat
  cr_plain :: bytes
  cr_pending :: bytes
  cr_ended :: bool

definition collected_new :: "(unit + bytes) list \<Rightarrow> collected" where
  "collected_new body =
     \<lparr>cr_body = body, cr_fed = [], cr_made = 0, cr_plain = [], cr_pending = [], cr_ended = False\<rparr>"

definition collected_take :: "collected \<Rightarrow> nat + bytes option \<times> collected" where
  "collected_take c =
     (let plain = cr_plain c in
      if length plain < collect_record_header_bytes then Inr (None, c)
      else
        (let len = nat_of_le (take collect_record_header_bytes plain) in
         if len > max_collect_record_bytes then Inl payload_too_large
         else
           (let record_end = collect_record_header_bytes + len in
            if length plain < record_end then Inr (None, c)
            else Inr (Some (take len (drop collect_record_header_bytes plain)),
                      c\<lparr>cr_plain := drop record_end plain\<rparr>))))"

definition decoder_feed :: "decoder \<Rightarrow> collected \<Rightarrow> collected option" where
  "decoder_feed dc c =
     (let n = min (length (cr_pending c)) decoder_feed_bytes;
          fed = cr_fed c @ take n (cr_pending c)
      in case dc_out dc fed of
           None \<Rightarrow> None
         | Some out \<Rightarrow>
             Some (c\<lparr>cr_fed := fed, cr_made := length out, cr_plain := cr_plain c @ drop (cr_made c) out,
                     cr_pending := drop n (cr_pending c)\<rparr>))"

definition decoder_finish :: "decoder \<Rightarrow> collected \<Rightarrow> collected option" where
  "decoder_finish dc c =
     (case dc_end dc (cr_fed c) of
        None \<Rightarrow> None
      | Some out \<Rightarrow>
          Some (c\<lparr>cr_made := length out, cr_plain := cr_plain c @ drop (cr_made c) out, cr_ended := True\<rparr>))"

function collected_next :: "decoder \<Rightarrow> collected \<Rightarrow> nat + bytes option \<times> collected" where
  "collected_next dc c =
     (case collected_take c of
        Inl e \<Rightarrow> Inl e
      | Inr (Some r, c') \<Rightarrow> Inr (Some r, c')
      | Inr (None, _) \<Rightarrow>
          if cr_pending c \<noteq> [] then
            (case decoder_feed dc c of None \<Rightarrow> Inl bad_request | Some c' \<Rightarrow> collected_next dc c')
          else if cr_ended c then
            (if cr_plain c = [] then Inr (None, c) else Inl bad_request)
          else
            (case cr_body c of
               Inr chunk # rest \<Rightarrow> collected_next dc (c\<lparr>cr_body := rest, cr_pending := chunk\<rparr>)
             | Inl _ # rest \<Rightarrow> Inl bad_request
             | [] \<Rightarrow> (case decoder_finish dc c of None \<Rightarrow> Inl bad_request | Some c' \<Rightarrow> collected_next dc c')))"
  by pat_completeness auto

lemma decoder_feed_measure:
  "decoder_feed dc c = Some c' \<Longrightarrow> cr_pending c \<noteq> [] \<Longrightarrow>
     cr_body c' = cr_body c \<and> cr_ended c' = cr_ended c \<and> length (cr_pending c') < length (cr_pending c)"
  by (auto simp: decoder_feed_def Let_def decoder_feed_bytes_def split: option.splits)

lemma decoder_finish_measure:
  "decoder_finish dc c = Some c' \<Longrightarrow>
     cr_body c' = cr_body c \<and> cr_ended c' \<and> cr_pending c' = cr_pending c"
  by (auto simp: decoder_finish_def split: option.splits)

termination collected_next
  by (relation "measures [\<lambda>(_, c). length (cr_body c) + (if cr_ended c then 0 else 1), \<lambda>(_, c). length (cr_pending c)]")
    (auto dest: decoder_feed_measure decoder_finish_measure)

declare collected_next.simps [simp del]

subsection \<open>Headers\<close>

text \<open>A header that is not text is a header that cannot be read.\<close>

type_synonym headers = "string \<Rightarrow> string option option"

definition header_text :: "headers \<Rightarrow> string \<Rightarrow> string option" where
  "header_text h name = (case h name of None \<Rightarrow> None | Some v \<Rightarrow> v)"

definition collect_signal_of :: "headers \<Rightarrow> nat + collect_signal" where
  "collect_signal_of h =
     (case Option.bind (header_text h ''x-collecty-signal'') collect_parse of
        None \<Rightarrow> Inl bad_request | Some s \<Rightarrow> Inr s)"

definition collect_sender_of :: "headers \<Rightarrow> nat + (sender_id \<times> nat) option" where
  "collect_sender_of h =
     (case h ''x-collecty-sender'' of
        None \<Rightarrow> Inr None
      | Some raw \<Rightarrow>
          (case Option.bind raw sender_parse of
             None \<Rightarrow> Inl bad_request
           | Some sender \<Rightarrow>
               (case Option.bind (header_text h ''x-collecty-segment'') parse_u64 of
                  None \<Rightarrow> Inl bad_request
                | Some segment \<Rightarrow> if segment > 0 then Inr (Some (sender, segment)) else Inl bad_request)))"

text \<open>The body of an answer: the last whole segment, and the datapoints not kept.\<close>

definition answer_body :: "nat \<Rightarrow> nat \<Rightarrow> string" where
  "answer_body stored rejected =
     CHR ''{'' # CHR 0x22 # ''stored'' @ CHR 0x22 # CHR '':'' # show_nat stored @
     CHR '','' # CHR 0x22 # ''rejected'' @ CHR 0x22 # CHR '':'' # show_nat rejected @ ''}''"

subsection \<open>The batch\<close>

text \<open>
  What becomes of one record: the appends the journal took of it, each with whether the
  journal will confirm it, or a refusal's status. The mark rides the last append.
\<close>

datatype enqueued = Enqueued "bool list" nat | NotEnqueued nat

record inflight =
  if_charge :: nat
  if_appends :: "bool list"
  if_mark :: "collect_mark option"

record collect_state =
  co_marks :: collect_marks
  co_counter :: nat
  co_inflight :: "inflight list"
  co_index :: nat
  co_rejected :: nat
  co_skipped :: nat
  co_dropped :: nat
  co_stored :: "nat list"

definition never_acceptable :: "nat \<Rightarrow> bool" where
  "never_acceptable status \<longleftrightarrow> 400 \<le> status \<and> status < 500 \<and> status \<noteq> too_many_requests"

text \<open>
  Settling the oldest record: every append is awaited, and the first failure is the answer.
  The last append's mark counts once that append is durable.
\<close>

definition settle_oldest :: "nat \<Rightarrow> collect_state \<Rightarrow> (nat + unit) \<times> collect_state" where
  "settle_oldest now st =
     (case co_inflight st of
        [] \<Rightarrow> (Inr (), st)
      | f # fs \<Rightarrow>
          (let marks = (case if_mark f of
                          Some m \<Rightarrow> if if_appends f \<noteq> [] \<and> last (if_appends f) then marks_advance now m (co_marks st)
                                    else co_marks st
                        | None \<Rightarrow> co_marks st);
               st' = st\<lparr>co_inflight := fs, co_marks := marks, co_counter := inflight_drop (if_charge f) (co_counter st)\<rparr>
           in if list_all (\<lambda>ok. ok) (if_appends f) then (Inr (), st') else (Inl internal_server_error, st')))"

lemma settle_oldest_length:
  "length (co_inflight (snd (settle_oldest now st))) = length (co_inflight st) - 1"
  by (auto simp: settle_oldest_def Let_def split: list.splits)

function settle_below :: "nat \<Rightarrow> nat \<Rightarrow> collect_state \<Rightarrow> (nat + unit) \<times> collect_state" where
  "settle_below now n st =
     (if length (co_inflight st) < n \<or> co_inflight st = [] then (Inr (), st)
      else (case settle_oldest now st of
              (Inl e, st') \<Rightarrow> (Inl e, st')
            | (Inr _, st') \<Rightarrow> settle_below now n st'))"
  by pat_completeness auto

lemma settle_oldest_less:
  "(r, st') = settle_oldest now st \<Longrightarrow> co_inflight st \<noteq> [] \<Longrightarrow> length (co_inflight st') < length (co_inflight st)"
  using settle_oldest_length [of now st] by (metis diff_less length_greater_0_conv snd_conv zero_less_one)

termination settle_below
  by (relation "measure (\<lambda>(_, _, st). length (co_inflight st))") (auto dest: settle_oldest_less)

declare settle_below.simps [simp del]

function admit_record :: "nat \<Rightarrow> gate_config \<Rightarrow> nat \<Rightarrow> collect_state \<Rightarrow> (nat + nat) \<times> collect_state" where
  "admit_record now cfg bytes st =
     (case admit_body cfg bytes (co_counter st) of
        Inr (charge, counter) \<Rightarrow> (Inr charge, st\<lparr>co_counter := counter\<rparr>)
      | Inl e \<Rightarrow>
          if co_inflight st = [] then (Inl e, st)
          else (case settle_oldest now st of
                  (Inl e', st') \<Rightarrow> (Inl e', st')
                | (Inr _, st') \<Rightarrow> admit_record now cfg bytes st'))"
  by pat_completeness auto

termination admit_record
  by (relation "measure (\<lambda>(_, _, _, st). length (co_inflight st))") (auto dest: settle_oldest_less)

declare admit_record.simps [simp del]

text \<open>
  One record. \<open>ing\<close> is what enqueueing the record numbered so comes to. Records an earlier
  attempt stored are counted off; a refusal that no retry would change drops the record.
  \<open>co_stored\<close> lists the records handed to the journal, by number.
\<close>

definition record_step ::
    "nat \<Rightarrow> gate_config \<Rightarrow> (nat \<Rightarrow> bytes \<Rightarrow> enqueued) \<Rightarrow> (sender_id \<times> nat) option \<Rightarrow> collect_signal \<Rightarrow> nat \<Rightarrow>
       bytes \<Rightarrow> collect_state \<Rightarrow> (nat + unit) \<times> collect_state" where
  "record_step now cfg ing sender sg already payload st =
     (let seen_at = co_index st; index = seen_at + 1; st0 = st\<lparr>co_index := index\<rparr> in
      if seen_at < already then (Inr (), st0\<lparr>co_skipped := co_skipped st0 + 1\<rparr>)
      else
        (let mark = map_option (\<lambda>(who, segment). \<lparr>cm_sender = who, cm_signal = sg, cm_at = Position segment index\<rparr>) sender
         in case settle_below now max_inflight_records st0 of
              (Inl e, st1) \<Rightarrow> (Inl e, st1)
            | (Inr _, st1) \<Rightarrow>
                (case admit_record now cfg (length payload) st1 of
                   (Inl e, st2) \<Rightarrow> (Inl e, st2)
                 | (Inr charge, st2) \<Rightarrow>
                     (case ing seen_at payload of
                        Enqueued appends refused \<Rightarrow>
                          (Inr (), st2\<lparr>co_rejected := co_rejected st2 + refused,
                             co_inflight := co_inflight st2 @ [\<lparr>if_charge = charge, if_appends = appends, if_mark = mark\<rparr>],
                             co_stored := co_stored st2 @ [seen_at]\<rparr>)
                      | NotEnqueued status \<Rightarrow>
                          (let st3 = st2\<lparr>co_counter := inflight_drop charge (co_counter st2)\<rparr> in
                           if never_acceptable status then (Inr (), st3\<lparr>co_dropped := co_dropped st3 + 1\<rparr>)
                           else (Inl status, st3))))))"

partial_function (option) collect_loop ::
    "decoder \<Rightarrow> nat \<Rightarrow> gate_config \<Rightarrow> (nat \<Rightarrow> bytes \<Rightarrow> enqueued) \<Rightarrow> (sender_id \<times> nat) option \<Rightarrow> collect_signal \<Rightarrow> nat \<Rightarrow>
       collected \<Rightarrow> collect_state \<Rightarrow> ((nat + unit) \<times> collect_state) option" where
  "collect_loop dc now cfg ing sender sg already c st =
     (case collected_next dc c of
        Inl e \<Rightarrow> Some (Inl e, st)
      | Inr (r, c') \<Rightarrow>
          (case r of
             None \<Rightarrow> Some (Inr (), st)
           | Some payload \<Rightarrow>
               (case record_step now cfg ing sender sg already payload st of
                  (Inl e, st') \<Rightarrow> Some (Inl e, st')
                | (Inr _, st') \<Rightarrow> collect_loop dc now cfg ing sender sg already c' st')))"

datatype collect_answer = Answer nat nat | Refuse nat

text \<open>
  An error leaves the records still in flight to the journal: nobody awaits them, their
  charge is released, and the writer advances the mark of each one it makes durable.
\<close>

fun abandon :: "nat \<Rightarrow> inflight list \<Rightarrow> collect_state \<Rightarrow> collect_state" where
  "abandon now [] st = st\<lparr>co_inflight := []\<rparr>"
| "abandon now (f # fs) st = abandon now fs (snd (settle_oldest now (st\<lparr>co_inflight := f # fs\<rparr>)))"

text \<open>
  \<open>last_mark\<close> says whether the mark behind the last record becomes durable.
\<close>

definition collect_inner ::
    "decoder \<Rightarrow> nat \<Rightarrow> gate_config \<Rightarrow> (nat \<Rightarrow> bytes \<Rightarrow> enqueued) \<Rightarrow> bool \<Rightarrow> headers \<Rightarrow> (unit + bytes) list \<Rightarrow>
       nat \<Rightarrow> collect_marks \<Rightarrow> (collect_answer \<times> collect_state) option" where
  "collect_inner dc now cfg ing last_mark h body counter marks =
     (let st0 = \<lparr>co_marks = marks, co_counter = counter, co_inflight = [], co_index = 0, co_rejected = 0,
                co_skipped = 0, co_dropped = 0, co_stored = []\<rparr>;
          encoding = (case header_text h ''content-encoding'' of None \<Rightarrow> [] | Some v \<Rightarrow> v)
      in
      if map ascii_lower encoding \<noteq> ''zstd'' then Some (Refuse unsupported_media_type, st0)
      else
        (case collect_signal_of h of
           Inl e \<Rightarrow> Some (Refuse e, st0)
         | Inr sg \<Rightarrow>
             (case collect_sender_of h of
                Inl e \<Rightarrow> Some (Refuse e, st0)
              | Inr sender \<Rightarrow>
                  (let at = (case sender of Some (who, _) \<Rightarrow> marks_position marks who sg | None \<Rightarrow> position_start) in
                   if (case sender of Some (_, segment) \<Rightarrow> segment < pos_segment at | None \<Rightarrow> False)
                   then Some (Answer (whole_segments at) 0, st0)
                   else
                     (let already = (case sender of
                                       Some (_, segment) \<Rightarrow> if segment = pos_segment at then pos_records at else 0
                                     | None \<Rightarrow> 0)
                      in case collect_loop dc now cfg ing sender sg already (collected_new body) st0 of
                           None \<Rightarrow> None
                         | Some (Inl e, st1) \<Rightarrow> Some (Refuse e, abandon now (co_inflight st1) st1)
                         | Some (Inr _, st1) \<Rightarrow>
                             (case settle_below now 0 st1 of
                                (Inl e, st2) \<Rightarrow> Some (Refuse e, abandon now (co_inflight st2) st2)
                              | (Inr _, st2) \<Rightarrow>
                                  (case sender of
                                     None \<Rightarrow> Some (Answer (whole_segments position_start) (co_rejected st2), st2)
                                   | Some (who, segment) \<Rightarrow>
                                       if \<not> last_mark then Some (Refuse internal_server_error, st2)
                                       else
                                         (let st3 = st2\<lparr>co_marks := marks_advance now
                                                \<lparr>cm_sender = who, cm_signal = sg, cm_at = Position (segment + 1) 0\<rparr>
                                                (co_marks st2)\<rparr>
                                          in Some (Answer (whole_segments (marks_position (co_marks st3) who sg))
                                                     (co_rejected st3), st3)))))))))"

end
