(* ===== verification/CollectLaws.thy ===== *)
theory CollectLaws
  imports Collect
begin

text \<open>
  The record stream gives the records of the batch however the body is chunked, and an
  answer that lets a collecty unlink a segment is given only when each of its records is
  durable or will never be taken.
\<close>

subsection \<open>The record stream\<close>

definition body_bytes :: "(unit + bytes) list \<Rightarrow> bytes" where
  "body_bytes body = concat (map (\<lambda>c. case c of Inl _ \<Rightarrow> [] | Inr b \<Rightarrow> b) body)"

definition body_whole :: "(unit + bytes) list \<Rightarrow> bool" where
  "body_whole body \<longleftrightarrow> list_all (\<lambda>c. \<exists>b. c = Inr b) body"

definition stream_inv :: "decoder \<Rightarrow> bytes \<Rightarrow> collected \<Rightarrow> bool" where
  "stream_inv dc out c \<longleftrightarrow>
     body_whole (cr_body c) \<and> cr_made c \<le> length out \<and>
     (if cr_ended c then cr_pending c = [] \<and> cr_made c = length out
      else dc_end dc (cr_fed c @ cr_pending c @ body_bytes (cr_body c)) = Some out \<and>
           dc_out dc (cr_fed c) = Some (take (cr_made c) out))"

definition stream_text :: "bytes \<Rightarrow> collected \<Rightarrow> bytes" where
  "stream_text out c = cr_plain c @ drop (cr_made c) out"

lemma stream_inv_new:
  assumes "decoder_ok dc" and "body_whole body" and "dc_end dc (body_bytes body) = Some out"
  shows "stream_inv dc out (collected_new body)" and "stream_text out (collected_new body) = out"
  using assms by (simp_all add: stream_inv_def stream_text_def collected_new_def decoder_ok_def)

lemma decoder_feed_stream:
  assumes dc: "decoder_ok dc" and inv: "stream_inv dc out c" and p: "cr_pending c \<noteq> []"
  shows "\<exists>c'. decoder_feed dc c = Some c' \<and> stream_inv dc out c' \<and> stream_text out c' = stream_text out c"
proof -
  let ?n = "min (length (cr_pending c)) decoder_feed_bytes"
  let ?fed = "cr_fed c @ take ?n (cr_pending c)"
  let ?rest = "drop ?n (cr_pending c) @ body_bytes (cr_body c)"
  have e: "\<not> cr_ended c" using inv p by (auto simp: stream_inv_def)
  have "?fed @ ?rest = cr_fed c @ cr_pending c @ body_bytes (cr_body c)"
    by (metis append_assoc append_take_drop_id)
  with e have fin: "dc_end dc (?fed @ ?rest) = Some out" and out: "dc_out dc (cr_fed c) = Some (take (cr_made c) out)"
    using inv by (simp_all only: stream_inv_def if_False)
  obtain q where "dc_out dc (?fed @ ?rest) = Some q" "prefix q out"
    using dc fin unfolding decoder_ok_def by blast
  moreover then obtain o' where o': "dc_out dc ?fed = Some o'" "prefix o' q"
    using dc unfolding decoder_ok_def by blast
  ultimately have "prefix o' out" by (metis prefix_order.trans)
  then have take: "o' = take (length o') out" and le: "length o' \<le> length out"
    by (auto simp: prefix_def)
  obtain q' where "dc_out dc (cr_fed c) = Some q'" "prefix q' o'"
    using dc o'(1) unfolding decoder_ok_def by blast
  with out have "prefix (take (cr_made c) out) o'" by simp
  then have made: "cr_made c \<le> length o'"
    using inv prefix_length_le [of "take (cr_made c) out" o'] by (simp add: stream_inv_def)
  let ?c = "c\<lparr>cr_fed := ?fed, cr_made := length o', cr_plain := cr_plain c @ drop (cr_made c) o',
      cr_pending := drop ?n (cr_pending c)\<rparr>"
  have "decoder_feed dc c = Some ?c" using o'(1) by (simp add: decoder_feed_def Let_def)
  moreover have "stream_inv dc out ?c"
    using inv e fin o'(1) take le by (simp add: stream_inv_def)
  moreover have "drop (cr_made c) o' @ drop (length o') out = drop (cr_made c) out"
  proof -
    have "drop (cr_made c) out = drop (cr_made c) (take (length o') out @ drop (length o') out)" by simp
    also have "\<dots> = drop (cr_made c) o' @ drop (length o') out"
      using made le take [symmetric] by simp
    finally show ?thesis by simp
  qed
  ultimately show ?thesis by (intro exI [of _ ?c]) (simp add: stream_text_def)
qed

lemma decoder_finish_stream:
  assumes inv: "stream_inv dc out c" and "cr_pending c = []" and "\<not> cr_ended c" and "cr_body c = []"
  shows "\<exists>c'. decoder_finish dc c = Some c' \<and> stream_inv dc out c' \<and> stream_text out c' = stream_text out c"
  using assms by (auto simp: stream_inv_def decoder_finish_def body_bytes_def body_whole_def stream_text_def)

lemma collected_take_framed:
  assumes "cr_plain c @ ext = frame_record r @ rest" and "length r \<le> max_collect_record_bytes"
  shows "(\<exists>c'. collected_take c = Inr (Some r, c') \<and> c' = c\<lparr>cr_plain := cr_plain c'\<rparr> \<and> cr_plain c' @ ext = rest) \<or>
     (collected_take c = Inr (None, c) \<and> ext \<noteq> [])"
proof -
  have f: "frame_record r = le_nat 4 (length r) @ r" by (simp add: frame_record_def record_header_bytes_def)
  have n: "nat_of_le (le_nat 4 (length r)) = length r"
    using assms(2) by (intro nat_of_le_le_nat_id) (simp add: max_collect_record_bytes_def)
  consider "length (cr_plain c) < 4 + length r"
    | tail where "cr_plain c = frame_record r @ tail" "tail @ ext = rest"
  proof (cases "length (cr_plain c) < 4 + length r")
    case False
    then have "take (4 + length r) (cr_plain c @ ext) = take (4 + length r) (cr_plain c)" by simp
    moreover have "take (4 + length r) (frame_record r @ rest) = frame_record r" by (simp add: f)
    ultimately have "cr_plain c = frame_record r @ drop (4 + length r) (cr_plain c)"
      using assms(1) by (metis append_take_drop_id)
    then show ?thesis using that(2) assms(1) by (metis append_assoc same_append_eq)
  qed
  then show ?thesis
  proof cases
    case 1
    then have "ext \<noteq> []" using assms(1) f by (metis append_Nil2 length_append length_le_nat not_add_less1)
    moreover have "collected_take c = Inr (None, c)"
    proof (cases "length (cr_plain c) < 4")
      case True
      then show ?thesis by (simp add: collected_take_def collect_record_header_bytes_def)
    next
      case False
      then have "take 4 (cr_plain c) = take 4 (cr_plain c @ ext)" by simp
      also have "\<dots> = le_nat 4 (length r)" unfolding assms(1) f by simp
      finally show ?thesis
        using False 1 assms(2) n by (simp add: collected_take_def collect_record_header_bytes_def Let_def)
    qed
    ultimately show ?thesis by simp
  next
    case 2
    then have "collected_take c = Inr (Some r, c\<lparr>cr_plain := tail\<rparr>)"
      using assms(2) n by (simp add: collected_take_def collect_record_header_bytes_def Let_def f)
    with 2 show ?thesis by simp
  qed
qed

lemma stream_next_unfold:
  assumes dc: "decoder_ok dc" and inv: "stream_inv dc out c" and t: "collected_take c = Inr (None, c)"
    and more: "\<not> (cr_ended c \<and> cr_plain c = stream_text out c)"
  shows "\<exists>c'. collected_next dc c = collected_next dc c' \<and> stream_inv dc out c' \<and> stream_text out c' = stream_text out c \<and>
     ((c', c) \<in> measures [\<lambda>c. length (cr_body c) + (if cr_ended c then 0 else 1), \<lambda>c. length (cr_pending c)])"
proof (cases "cr_pending c = []")
  case False
  then obtain c' where c': "decoder_feed dc c = Some c'" "stream_inv dc out c'" "stream_text out c' = stream_text out c"
    using decoder_feed_stream [OF dc inv] by blast
  have "collected_next dc c = collected_next dc c'" using c'(1) t False by (simp add: collected_next.simps [of dc c])
  moreover have "(c', c) \<in> measures [\<lambda>c. length (cr_body c) + (if cr_ended c then 0 else 1), \<lambda>c. length (cr_pending c)]"
    using decoder_feed_measure [OF c'(1) False] by simp
  ultimately show ?thesis using c'(2,3) by blast
next
  case nil: True
  have e: "\<not> cr_ended c"
    using more inv by (auto simp: stream_inv_def stream_text_def)
  show ?thesis
  proof (cases "cr_body c")
    case Nil
    then obtain c' where c': "decoder_finish dc c = Some c'" "stream_inv dc out c'" "stream_text out c' = stream_text out c"
      using decoder_finish_stream [OF inv nil e] by blast
    have "collected_next dc c = collected_next dc c'"
      using c'(1) t nil e Nil by (simp add: collected_next.simps [of dc c])
    moreover have "(c', c) \<in> measures [\<lambda>c. length (cr_body c) + (if cr_ended c then 0 else 1), \<lambda>c. length (cr_pending c)]"
      using decoder_finish_measure [OF c'(1)] e by simp
    ultimately show ?thesis using c'(2,3) by blast
  next
    case (Cons x rest)
    then obtain chunk where x: "x = Inr chunk" using inv by (auto simp: stream_inv_def body_whole_def)
    let ?c = "c\<lparr>cr_body := rest, cr_pending := chunk\<rparr>"
    have "collected_next dc c = collected_next dc ?c" 
      using t nil e Cons x by (simp add: collected_next.simps [of dc c])
    moreover have "stream_inv dc out ?c" "stream_text out ?c = stream_text out c"
      using inv nil e Cons x by (simp_all add: stream_inv_def body_whole_def body_bytes_def stream_text_def)
    moreover have "(?c, c) \<in> measures [\<lambda>c. length (cr_body c) + (if cr_ended c then 0 else 1), \<lambda>c. length (cr_pending c)]"
      using Cons by simp
    ultimately show ?thesis by blast
  qed
qed

lemma collected_next_record:
  assumes "decoder_ok dc" and "stream_inv dc out c" and "stream_text out c = frame_record r @ rest"
    and "length r \<le> max_collect_record_bytes"
  shows "\<exists>c'. collected_next dc c = Inr (Some r, c') \<and> stream_inv dc out c' \<and> stream_text out c' = rest"
  using assms(2,3)
proof (induction c rule: wf_induct_rule [OF wf_measures [of "[\<lambda>c. length (cr_body c) + (if cr_ended c then 0 else 1), \<lambda>c. length (cr_pending c)]"]])
  case (1 c)
  consider c' where "collected_take c = Inr (Some r, c')" "c' = c\<lparr>cr_plain := cr_plain c'\<rparr>"
      "cr_plain c' @ drop (cr_made c) out = rest"
    | "collected_take c = Inr (None, c)" "drop (cr_made c) out \<noteq> []"
    using collected_take_framed [of c "drop (cr_made c) out" r rest] "1.prems"(2) assms(4)
    by (auto simp: stream_text_def)
  then show ?case
  proof cases
    case (1 c')
    then have "collected_next dc c = Inr (Some r, c')" by (subst collected_next.simps) simp
    moreover obtain p where p: "c' = c\<lparr>cr_plain := p\<rparr>" using 1(2) by blast
    then have "stream_inv dc out c'" using "1.prems"(1) by (simp add: stream_inv_def)
    moreover have "stream_text out c' = rest" using 1(3) p by (simp add: stream_text_def)
    ultimately show ?thesis by blast
  next
    case 2
    then have "\<not> (cr_ended c \<and> cr_plain c = stream_text out c)" by (simp add: stream_text_def)
    then obtain c' where "collected_next dc c = collected_next dc c'" "stream_inv dc out c'"
      "stream_text out c' = stream_text out c"
      "(c', c) \<in> measures [\<lambda>c. length (cr_body c) + (if cr_ended c then 0 else 1), \<lambda>c. length (cr_pending c)]"
      using stream_next_unfold [OF assms(1) "1.prems"(1) 2(1)] by blast
    then show ?thesis using "1.IH" [of c'] "1.prems"(2) by simp
  qed
qed

lemma collected_next_end:
  assumes "decoder_ok dc" and "stream_inv dc out c" and "stream_text out c = []"
  shows "\<exists>c'. collected_next dc c = Inr (None, c')"
  using assms(2,3)
proof (induction c rule: wf_induct_rule [OF wf_measures [of "[\<lambda>c. length (cr_body c) + (if cr_ended c then 0 else 1), \<lambda>c. length (cr_pending c)]"]])
  case (1 c)
  have plain: "cr_plain c = []" using "1.prems"(2) by (simp add: stream_text_def)
  then have t: "collected_take c = Inr (None, c)" by (simp add: collected_take_def collect_record_header_bytes_def)
  show ?case
  proof (cases "cr_ended c")
    case True
    then have "cr_pending c = []" using "1.prems"(1) by (simp add: stream_inv_def)
    then show ?thesis using True t plain by (subst collected_next.simps) simp
  next
    case False
    then obtain c' where "collected_next dc c = collected_next dc c'" "stream_inv dc out c'"
      "stream_text out c' = stream_text out c"
      "(c', c) \<in> measures [\<lambda>c. length (cr_body c) + (if cr_ended c then 0 else 1), \<lambda>c. length (cr_pending c)]"
      using stream_next_unfold [OF assms(1) "1.prems"(1) t] by blast
    then show ?thesis using "1.IH" [of c'] "1.prems"(2) by simp
  qed
qed

text \<open>The loop over a whole batch is the loop over its records.\<close>

fun run_records ::
    "nat \<Rightarrow> gate_config \<Rightarrow> (nat \<Rightarrow> bytes \<Rightarrow> enqueued) \<Rightarrow> (sender_id \<times> nat) option \<Rightarrow> collect_signal \<Rightarrow> nat \<Rightarrow>
       bytes list \<Rightarrow> collect_state \<Rightarrow> (nat + unit) \<times> collect_state" where
  "run_records now cfg ing sender sg already [] st = (Inr (), st)"
| "run_records now cfg ing sender sg already (r # rs) st =
     (case record_step now cfg ing sender sg already r st of
        (Inl e, st') \<Rightarrow> (Inl e, st')
      | (Inr _, st') \<Rightarrow> run_records now cfg ing sender sg already rs st')"

lemma collect_loop_records:
  assumes "decoder_ok dc" and "stream_inv dc out c" and "stream_text out c = framed rs"
    and "list_all (\<lambda>r. length r \<le> max_collect_record_bytes) rs"
  shows "collect_loop dc now cfg ing sender sg already c st = Some (run_records now cfg ing sender sg already rs st)"
  using assms(2-4)
proof (induction rs arbitrary: c st)
  case Nil
  then obtain c' where "collected_next dc c = Inr (None, c')"
    using collected_next_end [OF assms(1)] by (auto simp: framed_def)
  then show ?case by (subst collect_loop.simps) simp
next
  case (Cons r rs)
  then obtain c' where c': "collected_next dc c = Inr (Some r, c')" "stream_inv dc out c'" "stream_text out c' = framed rs"
    using collected_next_record [OF assms(1), of out c r "framed rs"] by (auto simp: framed_def)
  show ?case
    using c' Cons.IH [OF c'(2,3)] Cons.prems(3)
    by (subst collect_loop.simps) (auto split: prod.splits sum.splits)
qed

subsection \<open>What became of each record\<close>

definition record_kept :: "enqueued \<Rightarrow> bool" where
  "record_kept e \<longleftrightarrow>
     (case e of Enqueued appends _ \<Rightarrow> list_all (\<lambda>ok. ok) appends | NotEnqueued status \<Rightarrow> never_acceptable status)"

definition record_waits :: "enqueued \<Rightarrow> inflight list \<Rightarrow> bool" where
  "record_waits e fs \<longleftrightarrow> (\<exists>f \<in> set fs. \<exists>n. e = Enqueued (if_appends f) n)"

text \<open>Every record up to now is settled, or waits in the queue in front of the journal.\<close>

definition accounted :: "(nat \<Rightarrow> bytes \<Rightarrow> enqueued) \<Rightarrow> bytes list \<Rightarrow> nat \<Rightarrow> collect_state \<Rightarrow> bool" where
  "accounted ing done already st \<longleftrightarrow>
     (\<forall>i \<in> set (co_stored st). already \<le> i \<and> i < length done) \<and>
     (\<forall>i < length done. already \<le> i \<longrightarrow>
        record_kept (ing i (done ! i)) \<or> record_waits (ing i (done ! i)) (co_inflight st))"

lemma settle_oldest_cases:
  assumes "settle_oldest now st = (Inr u, st')"
  obtains "co_inflight st = []" "st' = st"
    | f fs where "co_inflight st = f # fs" "co_inflight st' = fs" "co_stored st' = co_stored st"
      "co_index st' = co_index st" "list_all (\<lambda>ok. ok) (if_appends f)"
  using assms by (auto simp: settle_oldest_def Let_def split: list.splits if_splits)

lemma record_waits_Cons:
  "record_waits e (f # fs) \<Longrightarrow> list_all (\<lambda>ok. ok) (if_appends f) \<Longrightarrow> record_kept e \<or> record_waits e fs"
  by (auto simp: record_waits_def record_kept_def)

lemma settle_oldest_accounted:
  assumes "settle_oldest now st = (Inr u, st')" and "accounted ing done already st"
  shows "accounted ing done already st' \<and> co_index st' = co_index st"
  using assms(1)
proof (cases rule: settle_oldest_cases)
  case 1
  then show ?thesis using assms(2) by simp
next
  case (2 f fs)
  then show ?thesis using assms(2) record_waits_Cons [of _ f fs] unfolding accounted_def by auto
qed

lemma settle_below_step:
  assumes "settle_below now n st = (Inr v, st')"
  obtains "st' = st" "length (co_inflight st) < n \<or> co_inflight st = []"
    | u st1 where "settle_oldest now st = (Inr u, st1)" "settle_below now n st1 = (Inr v, st')"
      "length (co_inflight st1) < length (co_inflight st)"
  using assms settle_oldest_less [of _ _ now st]
  by (fastforce simp: settle_below.simps [of now n st] split: if_splits prod.splits sum.splits)

lemma settle_below_accounted:
  "settle_below now n st = (Inr v, st') \<Longrightarrow> accounted ing done already st \<Longrightarrow>
     accounted ing done already st' \<and> co_index st' = co_index st"
proof (induction "length (co_inflight st)" arbitrary: st rule: less_induct)
  case less
  from less.prems(1) show ?case
  proof (cases rule: settle_below_step)
    case 1
    then show ?thesis using less.prems by simp
  next
    case (2 u st1)
    then show ?thesis using settle_oldest_accounted [OF 2(1) less.prems(2)] less.hyps [OF 2(3) 2(2)] by simp
  qed
qed

lemma settle_below_empty: "settle_below now 0 st = (Inr v, st') \<Longrightarrow> co_inflight st' = []"
proof (induction "length (co_inflight st)" arbitrary: st rule: less_induct)
  case less
  from less.prems(1) show ?case
    by (cases rule: settle_below_step) (use less.hyps in auto)
qed

lemma admit_record_step:
  assumes "admit_record now cfg bytes st = (Inr charge, st')"
  obtains counter where "st' = st\<lparr>co_counter := counter\<rparr>"
    | u st1 where "settle_oldest now st = (Inr u, st1)" "admit_record now cfg bytes st1 = (Inr charge, st')"
      "length (co_inflight st1) < length (co_inflight st)"
  using assms settle_oldest_less [of _ _ now st]
  by (fastforce simp: admit_record.simps [of now cfg bytes st] split: if_splits prod.splits sum.splits)

lemma admit_record_accounted:
  "admit_record now cfg bytes st = (Inr charge, st') \<Longrightarrow> accounted ing done already st \<Longrightarrow>
     accounted ing done already st' \<and> co_index st' = co_index st"
proof (induction "length (co_inflight st)" arbitrary: st rule: less_induct)
  case less
  from less.prems(1) show ?case
  proof (cases rule: admit_record_step)
    case (1 counter)
    then show ?thesis using less.prems(2) by (simp add: accounted_def)
  next
    case (2 u st1)
    then show ?thesis using settle_oldest_accounted [OF 2(1) less.prems(2)] less.hyps [OF 2(3) 2(2)] by simp
  qed
qed

lemma accounted_snoc:
  assumes "accounted ing done already st"
    and "already \<le> length done \<Longrightarrow> record_kept (ing (length done) r) \<or> record_waits (ing (length done) r) (co_inflight st')"
    and "\<And>e. record_waits e (co_inflight st) \<Longrightarrow> record_waits e (co_inflight st')"
    and "set (co_stored st') \<subseteq> insert (length done) (set (co_stored st))"
    and "length done \<in> set (co_stored st') \<Longrightarrow> already \<le> length done"
  shows "accounted ing (done @ [r]) already st'"
  using assms unfolding accounted_def by (fastforce simp: nth_append less_Suc_eq)

lemma record_step_accounted:
  assumes step: "record_step now cfg ing sender sg already r st = (Inr u, st')"
    and acc: "accounted ing done already st" and idx: "co_index st = length done"
  shows "accounted ing (done @ [r]) already st' \<and> co_index st' = length (done @ [r])"
proof (cases "co_index st < already")
  case True
  then have st': "st' = st\<lparr>co_index := co_index st + 1, co_skipped := co_skipped st + 1\<rparr>"
    using step by (simp add: record_step_def Let_def)
  have "accounted ing (done @ [r]) already st'"
  proof (rule accounted_snoc [OF acc])
    show "length done \<in> set (co_stored st') \<Longrightarrow> already \<le> length done"
      using acc st' by (auto simp: accounted_def)
  qed (use True idx st' in auto)
  then show ?thesis using st' idx by simp
next
  case False
  let ?st0 = "st\<lparr>co_index := co_index st + 1\<rparr>"
  have acc0: "accounted ing done already ?st0" using acc by (simp add: accounted_def)
  obtain v st1 where s1: "settle_below now max_inflight_records ?st0 = (Inr v, st1)"
    using step False by (auto simp: record_step_def Let_def split: prod.splits sum.splits)
  note a1 = settle_below_accounted [OF s1 acc0]
  obtain charge st2 where s2: "admit_record now cfg (length r) st1 = (Inr charge, st2)"
    using step False s1 by (auto simp: record_step_def Let_def split: prod.splits sum.splits)
  note a2 = admit_record_accounted [OF s2 conjunct1 [OF a1]]
  have idx2: "co_index st2 = length done + 1" using a1 a2 idx by simp
  show ?thesis
  proof (cases "ing (co_index st) r")
    case (Enqueued appends refused)
    have fl: "\<exists>m. co_inflight st' = co_inflight st2 @ [\<lparr>if_charge = charge, if_appends = appends, if_mark = m\<rparr>]"
      and st': "co_stored st' = co_stored st2 @ [length done]" "co_index st' = co_index st2"
      using step False s1 s2 Enqueued idx by (auto simp: record_step_def Let_def)
    have "accounted ing (done @ [r]) already st'"
      by (rule accounted_snoc [OF conjunct1 [OF a2]])
        (use fl st' Enqueued idx False in \<open>auto simp: record_waits_def\<close>)
    then show ?thesis using st' idx2 by simp
  next
    case (NotEnqueued status)
    then have n: "never_acceptable status" and st': "co_stored st' = co_stored st2" "co_index st' = co_index st2"
      "co_inflight st' = co_inflight st2"
      using step False s1 s2 by (auto simp: record_step_def Let_def split: if_splits)
    have "accounted ing (done @ [r]) already st'"
      by (rule accounted_snoc [OF conjunct1 [OF a2]])
        (use st' NotEnqueued n idx False in \<open>auto simp: record_kept_def\<close>)
    then show ?thesis using st' idx2 by simp
  qed
qed

lemma run_records_accounted:
  "run_records now cfg ing sender sg already rs st = (Inr u, st') \<Longrightarrow> accounted ing done already st \<Longrightarrow>
     co_index st = length done \<Longrightarrow> accounted ing (done @ rs) already st'"
proof (induction rs arbitrary: st "done")
  case Nil
  then show ?case by simp
next
  case (Cons r rs)
  then obtain v st1 where "record_step now cfg ing sender sg already r st = (Inr v, st1)"
    "run_records now cfg ing sender sg already rs st1 = (Inr u, st')"
    by (auto split: prod.splits sum.splits)
  then show ?case using record_step_accounted Cons.IH [of st1 "done @ [r]"] Cons.prems(2,3) by simp
qed

end
