(* ===== verification/CollectProps.thy ===== *)
theory CollectProps
  imports CollectLaws
begin

text \<open>
  What the collect route is good for: an answer covers a segment only when every record of
  it is durable or will never be taken, however the body was chunked; nothing an earlier
  attempt stored is stored again; the marks never go back; and one ordering of failures
  under which a record is passed over.
\<close>

subsection \<open>A decoder that copies\<close>

definition copy_decoder :: decoder where
  "copy_decoder = \<lparr>dc_out = (\<lambda>a. Some a), dc_end = (\<lambda>a. Some a)\<rparr>"

lemma decoder_ok_copy: "decoder_ok copy_decoder"
  by (auto simp: decoder_ok_def copy_decoder_def)

text \<open>The headers a collecty sends with a segment of logs.\<close>

definition segment_headers :: "sender_id \<Rightarrow> nat \<Rightarrow> headers" where
  "segment_headers who segment =
     (\<lambda>n. if n = ''content-encoding'' then Some (Some ''zstd'')
          else if n = ''x-collecty-signal'' then Some (Some ''logs'')
          else if n = ''x-collecty-sender'' then Some (Some (sender_display who))
          else if n = ''x-collecty-segment'' then Some (Some (show_nat segment))
          else None)"

definition some_sender :: sender_id where
  "some_sender = [0, 1, 2, 3, 4, 5, 6, 7, 8, 9, 10, 11, 12, 13, 14, 15]"

subsection \<open>Every path\<close>

definition sender_position :: "collect_marks \<Rightarrow> (sender_id \<times> nat) option \<Rightarrow> collect_signal \<Rightarrow> position" where
  "sender_position marks sender sg =
     (case sender of Some (who, _) \<Rightarrow> marks_position marks who sg | None \<Rightarrow> position_start)"

definition already_stored :: "collect_marks \<Rightarrow> (sender_id \<times> nat) option \<Rightarrow> collect_signal \<Rightarrow> nat" where
  "already_stored marks sender sg =
     (let at = sender_position marks sender sg in
      case sender of Some (_, segment) \<Rightarrow> if segment = pos_segment at then pos_records at else 0 | None \<Rightarrow> 0)"

definition answered_unread :: "collect_marks \<Rightarrow> (sender_id \<times> nat) option \<Rightarrow> collect_signal \<Rightarrow> bool" where
  "answered_unread marks sender sg \<longleftrightarrow>
     (case sender of Some (_, segment) \<Rightarrow> segment < pos_segment (sender_position marks sender sg) | None \<Rightarrow> False)"

definition initial_state :: "nat \<Rightarrow> collect_marks \<Rightarrow> collect_state" where
  "initial_state counter marks =
     \<lparr>co_marks = marks, co_counter = counter, co_inflight = [], co_index = 0, co_rejected = 0,
      co_skipped = 0, co_dropped = 0, co_stored = []\<rparr>"

text \<open>What a good request says about itself, and what its body decodes to.\<close>

definition collect_request ::
    "decoder \<Rightarrow> headers \<Rightarrow> (unit + bytes) list \<Rightarrow> collect_signal \<Rightarrow> (sender_id \<times> nat) option \<Rightarrow> bytes list \<Rightarrow> bool" where
  "collect_request dc h body sg sender rs \<longleftrightarrow>
     decoder_ok dc \<and> body_whole body \<and> dc_end dc (body_bytes body) = Some (framed rs) \<and>
     list_all (\<lambda>r. length r \<le> max_collect_record_bytes) rs \<and>
     map ascii_lower (case header_text h ''content-encoding'' of None \<Rightarrow> [] | Some v \<Rightarrow> v) = ''zstd'' \<and>
     collect_signal_of h = Inr sg \<and> collect_sender_of h = Inr sender"

lemma collect_inner_records:
  assumes "collect_request dc h body sg sender rs"
    and "\<not> answered_unread marks sender sg"
  shows "collect_inner dc now cfg ing last_mark h body counter marks =
    Some (case run_records now cfg ing sender sg (already_stored marks sender sg) rs (initial_state counter marks) of
        (Inl e, st1) \<Rightarrow> (Refuse e, abandon now (co_inflight st1) st1)
      | (Inr _, st1) \<Rightarrow>
          (case settle_below now 0 st1 of
             (Inl e, st2) \<Rightarrow> (Refuse e, abandon now (co_inflight st2) st2)
           | (Inr _, st2) \<Rightarrow>
               (case sender of
                  None \<Rightarrow> (Answer (whole_segments position_start) (co_rejected st2), st2)
                | Some (who, segment) \<Rightarrow>
                    if \<not> last_mark then (Refuse internal_server_error, st2)
                    else
                      (let st3 = st2\<lparr>co_marks := marks_advance now
                             \<lparr>cm_sender = who, cm_signal = sg, cm_at = Position (segment + 1) 0\<rparr> (co_marks st2)\<rparr>
                       in (Answer (whole_segments (marks_position (co_marks st3) who sg)) (co_rejected st3), st3)))))"
proof -
  have r: "decoder_ok dc" "body_whole body" "dc_end dc (body_bytes body) = Some (framed rs)"
    "list_all (\<lambda>r. length r \<le> max_collect_record_bytes) rs"
    using assms(1) by (simp_all add: collect_request_def)
  have loop: "collect_loop dc now cfg ing sender sg al (collected_new body) st = Some (run_records now cfg ing sender sg al rs st)"
    for al st
    using collect_loop_records [OF r(1) stream_inv_new(1) [OF r(1-3)] stream_inv_new(2) [OF r(1-3)] r(4)] .
  show ?thesis
    using assms unfolding collect_inner_def collect_request_def answered_unread_def sender_position_def already_stored_def initial_state_def
    by (simp add: loop Let_def split: option.splits prod.splits sum.splits)
qed

subsection \<open>What settling leaves alone\<close>

text \<open>Settling moves marks forward and touches neither the count nor the list of stored records.\<close>

definition settled_from :: "collect_state \<Rightarrow> collect_state \<Rightarrow> bool" where
  "settled_from st st' \<longleftrightarrow>
     co_stored st' = co_stored st \<and> co_index st' = co_index st \<and>
     (\<forall>w g. marks_position (co_marks st) w g \<le> marks_position (co_marks st') w g)"

lemma settled_from_refl: "settled_from st st"
  by (simp add: settled_from_def)

lemma settled_from_trans: "settled_from a b \<Longrightarrow> settled_from b c \<Longrightarrow> settled_from a c"
  unfolding settled_from_def by (metis order_trans)

lemma settle_oldest_settled: "settled_from st (snd (settle_oldest now st))"
  by (auto simp: settled_from_def settle_oldest_def Let_def marks_advance_forward split: list.splits option.splits)

lemma settle_below_settled: "settled_from st (snd (settle_below now n st))"
proof (induction now n st rule: settle_below.induct)
  case (1 now n st)
  show ?case
  proof (cases "length (co_inflight st) < n \<or> co_inflight st = []")
    case True
    then show ?thesis by (simp add: settle_below.simps [of now n st] settled_from_refl)
  next
    case False
    obtain r st1 where r: "settle_oldest now st = (r, st1)" by fastforce
    then have s: "settled_from st st1" using settle_oldest_settled [of st now] by simp
    show ?thesis
    proof (cases r)
      case (Inl e)
      then show ?thesis using r s False by (simp add: settle_below.simps [of now n st])
    next
      case (Inr u)
      then have "settled_from st1 (snd (settle_below now n st1))" using "1.IH" [OF False r [symmetric]] by simp
      then show ?thesis using r s Inr False settled_from_trans by (simp add: settle_below.simps [of now n st])
    qed
  qed
qed

lemma admit_record_settled: "settled_from st (snd (admit_record now cfg n st))"
proof (induction now cfg n st rule: admit_record.induct)
  case (1 now cfg n st)
  show ?case
  proof (cases "admit_body cfg n (co_counter st)")
    case (Inr x)
    then show ?thesis by (cases x) (simp add: admit_record.simps [of now cfg n st] settled_from_def)
  next
    case adm: (Inl e)
    show ?thesis
    proof (cases "co_inflight st = []")
      case True
      then show ?thesis using adm by (simp add: admit_record.simps [of now cfg n st] settled_from_refl)
    next
      case False
      obtain r st1 where r: "settle_oldest now st = (r, st1)" by fastforce
      then have s: "settled_from st st1" using settle_oldest_settled [of st now] by simp
      show ?thesis
      proof (cases r)
        case (Inl e)
        then show ?thesis using r s False adm by (simp add: admit_record.simps [of now cfg n st])
      next
        case (Inr u)
        then have "settled_from st1 (snd (admit_record now cfg n st1))"
          using "1.IH" [OF adm False r [symmetric]] by simp
        then show ?thesis using r s Inr False adm settled_from_trans
          by (simp add: admit_record.simps [of now cfg n st])
      qed
    qed
  qed
qed

lemma abandon_settled: "settled_from st (abandon now fs st)"
proof (induction fs arbitrary: st)
  case Nil
  then show ?case by (simp add: settled_from_def)
next
  case (Cons f fs)
  let ?st = "st\<lparr>co_inflight := f # fs\<rparr>"
  have "settled_from st ?st" by (simp add: settled_from_def)
  then show ?case using Cons.IH settle_oldest_settled [of ?st now] settled_from_trans by (metis abandon.simps(2))
qed

text \<open>Records taken so far are numbered past what was already stored; marks only move forward.\<close>

definition stored_from :: "nat \<Rightarrow> collect_state \<Rightarrow> collect_state \<Rightarrow> bool" where
  "stored_from already st st' \<longleftrightarrow>
     (\<forall>i \<in> set (co_stored st'). i \<in> set (co_stored st) \<or> already \<le> i) \<and>
     (\<forall>w g. marks_position (co_marks st) w g \<le> marks_position (co_marks st') w g)"

lemma stored_from_trans: "stored_from n a b \<Longrightarrow> stored_from n b c \<Longrightarrow> stored_from n a c"
  unfolding stored_from_def by (metis order_trans)

lemma stored_from_settled: "settled_from a b \<Longrightarrow> stored_from n a b"
  by (simp add: settled_from_def stored_from_def)

lemma record_step_stored: "stored_from already st (snd (record_step now cfg ing sender sg already r st))"
proof (cases "co_index st < already")
  case True
  then show ?thesis by (simp add: record_step_def stored_from_def)
next
  case False
  let ?st0 = "st\<lparr>co_index := co_index st + 1\<rparr>"
  obtain x st1 where s1: "settle_below now max_inflight_records ?st0 = (x, st1)" by fastforce
  then have a: "settled_from ?st0 st1" using settle_below_settled [of ?st0 now max_inflight_records] by simp
  obtain y st2 where s2: "admit_record now cfg (length r) st1 = (y, st2)" by fastforce
  then have b: "settled_from ?st0 st2"
    using a settled_from_trans admit_record_settled [of st1 now cfg "length r"] by (metis snd_conv)
  show ?thesis
    using False a b s1 s2
    by (auto simp: record_step_def Let_def stored_from_def settled_from_def split: sum.splits enqueued.splits)
qed

lemma run_records_stored: "stored_from already st (snd (run_records now cfg ing sender sg already rs st))"
proof (induction rs arbitrary: st)
  case Nil
  then show ?case by (simp add: stored_from_def)
next
  case (Cons r rs)
  obtain x st1 where x: "record_step now cfg ing sender sg already r st = (x, st1)" by fastforce
  then have "stored_from already st st1" using record_step_stored [of already st] by (metis snd_conv)
  then show ?case using x Cons.IH [of st1] stored_from_trans by (cases x) auto
qed

subsection \<open>Refusals\<close>

text \<open>A refusal is never a success status, if ingest does not refuse with one.\<close>

definition refuses_properly :: "(nat \<Rightarrow> bytes \<Rightarrow> enqueued) \<Rightarrow> bool" where
  "refuses_properly ing \<longleftrightarrow> (\<forall>i r status. ing i r = NotEnqueued status \<longrightarrow> 400 \<le> status)"

lemma settle_oldest_err: "settle_oldest now st = (Inl e, st') \<Longrightarrow> e = internal_server_error"
  by (auto simp: settle_oldest_def Let_def split: list.splits if_splits)

lemma settle_below_err: "settle_below now n st = (Inl e, st') \<Longrightarrow> e = internal_server_error"
proof (induction now n st rule: settle_below.induct)
  case (1 now n st)
  show ?case
  proof (cases "length (co_inflight st) < n \<or> co_inflight st = []")
    case True
    then show ?thesis using "1.prems" by (simp add: settle_below.simps [of now n st])
  next
    case False
    obtain r st1 where r: "settle_oldest now st = (r, st1)" by fastforce
    then show ?thesis
      using False "1.prems" settle_oldest_err [of now st] "1.IH" [OF False r [symmetric]]
      by (cases r) (auto simp: settle_below.simps [of now n st])
  qed
qed

lemma admit_record_err:
  "admit_record now cfg n st = (Inl e, st') \<Longrightarrow> e = internal_server_error \<or> e = too_many_requests"
proof (induction now cfg n st rule: admit_record.induct)
  case (1 now cfg n st)
  show ?case
  proof (cases "admit_body cfg n (co_counter st)")
    case (Inr x)
    then show ?thesis using "1.prems" by (cases x) (simp add: admit_record.simps [of now cfg n st])
  next
    case adm: (Inl e')
    show ?thesis
    proof (cases "co_inflight st = []")
      case True
      then have "e = e'" using adm "1.prems" by (simp add: admit_record.simps [of now cfg n st])
      then show ?thesis using adm by (auto simp: admit_body_def split: option.splits if_splits)
    next
      case False
      obtain r st1 where r: "settle_oldest now st = (r, st1)" by fastforce
      then show ?thesis
        using adm False "1.prems" settle_oldest_err [of now st] "1.IH" [OF adm False r [symmetric]]
        by (cases r) (auto simp: admit_record.simps [of now cfg n st])
    qed
  qed
qed

lemma record_step_err:
  assumes "record_step now cfg ing sender sg already r st = (Inl e, st')" and "refuses_properly ing"
  shows "400 \<le> e"
  using assms settle_below_err admit_record_err
  by (fastforce simp: record_step_def Let_def refuses_properly_def internal_server_error_def too_many_requests_def
      split: if_splits prod.splits sum.splits enqueued.splits)

lemma run_records_err:
  "run_records now cfg ing sender sg already rs st = (Inl e, st') \<Longrightarrow> refuses_properly ing \<Longrightarrow> 400 \<le> e"
  by (induction rs arbitrary: st) (auto split: prod.splits sum.splits dest: record_step_err)

lemma collect_inner_refuses:
  assumes "collect_request dc h body sg sender rs" and "refuses_properly ing"
    and "collect_inner dc now cfg ing last_mark h body counter marks = Some (Refuse e, st)"
  shows "400 \<le> e"
proof (cases "answered_unread marks sender sg")
  case True
  then show ?thesis
    using assms unfolding collect_inner_def collect_request_def
    by (auto simp: answered_unread_def sender_position_def Let_def split: option.splits)
next
  case False
  show ?thesis
    using assms(3) unfolding collect_inner_records [OF assms(1) False]
    by (auto simp: Let_def internal_server_error_def dest: run_records_err [OF _ assms(2)] settle_below_err
        split: prod.splits sum.splits option.splits if_splits)
qed

subsection \<open>An answer\<close>

lemma covered_position:
  "segment \<le> whole_segments (marks_position (marks_advance now \<lparr>cm_sender = who, cm_signal = sg,
     cm_at = Position (segment + 1) 0\<rparr> m) who sg)"
proof -
  have "Position (segment + 1) 0 \<le> marks_position (marks_advance now \<lparr>cm_sender = who, cm_signal = sg,
     cm_at = Position (segment + 1) 0\<rparr> m) who sg"
    by (simp add: marks_position_advance)
  from whole_segments_mono [OF this] show ?thesis by (simp add: whole_segments_def)
qed

lemma collect_inner_covers:
  assumes "collect_request dc h body sg (Some (who, segment)) rs"
  shows "\<exists>ans st. collect_inner dc now cfg ing last_mark h body counter marks = Some (ans, st) \<and>
    (\<forall>n rejected. ans = Answer n rejected \<longrightarrow>
       segment \<le> n \<and>
       (segment < pos_segment (marks_position marks who sg) \<or>
        (\<forall>i < length rs. already_stored marks (Some (who, segment)) sg \<le> i \<longrightarrow> record_kept (ing i (rs ! i)))))"
proof (cases "segment < pos_segment (marks_position marks who sg)")
  case True
  have "map ascii_lower (case header_text h ''content-encoding'' of None \<Rightarrow> [] | Some v \<Rightarrow> v) = ''zstd''"
    "collect_signal_of h = Inr sg" "collect_sender_of h = Inr (Some (who, segment))"
    using assms by (simp_all add: collect_request_def)
  then have "collect_inner dc now cfg ing last_mark h body counter marks =
      Some (Answer (whole_segments (marks_position marks who sg)) 0, initial_state counter marks)"
    using True unfolding collect_inner_def by (simp add: Let_def initial_state_def)
  moreover have "segment \<le> whole_segments (marks_position marks who sg)"
    using True by (simp add: whole_segments_def)
  ultimately show ?thesis using True by simp
next
  case False
  let ?al = "already_stored marks (Some (who, segment)) sg"
  have nf: "\<not> answered_unread marks (Some (who, segment)) sg"
    using False by (simp add: answered_unread_def sender_position_def)
  note inner = collect_inner_records [OF assms nf, of now cfg ing last_mark counter]
  obtain x st1 where s1: "run_records now cfg ing (Some (who, segment)) sg ?al rs (initial_state counter marks) = (x, st1)"
    by fastforce
  obtain y st2 where s2: "settle_below now 0 st1 = (y, st2)" by fastforce
  show ?thesis
  proof (cases x)
    case (Inl e)
    then show ?thesis using inner s1 by simp
  next
    case x: (Inr u)
    show ?thesis
    proof (cases y)
      case (Inl e)
      then show ?thesis using inner s1 s2 x by simp
    next
      case y: (Inr v)
      have "accounted ing ([] @ rs) ?al st1"
        using run_records_accounted [of now cfg ing "Some (who, segment)" sg ?al rs "initial_state counter marks" u st1 "[]"]
          s1 x by (simp add: accounted_def initial_state_def)
      then have "accounted ing rs ?al st2" and "co_inflight st2 = []"
        using settle_below_accounted [of now 0 st1 v st2] settle_below_empty [of now st1 v st2] s2 y by simp_all
      then have "\<forall>i < length rs. ?al \<le> i \<longrightarrow> record_kept (ing i (rs ! i))"
        by (auto simp: accounted_def record_waits_def)
      then show ?thesis using inner s1 s2 x y covered_position by (auto simp: Let_def)
    qed
  qed
qed

text \<open>C2: the route answers every well-formed batch, and the number it answers with covers the
  segment only when it may: each record past those an earlier attempt stored is in the
  journal, durable in all its appends, or was refused in a way no retry would change; the
  one exception is a segment below the mark, which is answered unread.\<close>

theorem collect_answer_covers_segment:
  assumes "collect_request dc h body sg (Some (who, segment)) rs"
  shows "\<exists>ans st. collect_inner dc now cfg ing last_mark h body counter marks = Some (ans, st) \<and>
    (\<forall>n rejected. ans = Answer n rejected \<longrightarrow>
       segment \<le> n \<and>
       (segment < pos_segment (marks_position marks who sg) \<or>
        (\<forall>i < length rs. already_stored marks (Some (who, segment)) sg \<le> i \<longrightarrow> record_kept (ing i (rs ! i)))))"
  using assms by (rule collect_inner_covers)

definition open_gate :: gate_config where
  "open_gate = \<lparr>gc_probe = False, gc_inflight = None, gc_memtable = None, gc_backlog = None, gc_free = None\<rparr>"

lemma segment_headers_ok:
  assumes "segment \<le> u64_max" and "0 < segment" and "concat chunks = framed rs"
    and "list_all (\<lambda>r. length r \<le> max_collect_record_bytes) rs"
  shows "collect_request copy_decoder (segment_headers some_sender segment) (map Inr chunks) CLogs (Some (some_sender, segment)) rs"
proof -
  have w: "is_sender_id some_sender" by (simp add: is_sender_id_def some_sender_def sender_id_bytes_def)
  have "collect_sender_of (segment_headers some_sender segment) = Inr (Some (some_sender, segment))"
    using assms(1,2) sender_parse_display [OF w] parse_u64_show_nat [OF assms(1)]
    by (simp add: collect_sender_of_def segment_headers_def header_text_def)
  moreover have "collect_signal_of (segment_headers some_sender segment) = Inr CLogs"
    using collect_parse_as_str [of CLogs] by (simp add: collect_signal_of_def segment_headers_def header_text_def collect_as_str_def)
  moreover have "map ascii_lower ''zstd'' = ''zstd''" by code_simp
  moreover have "body_whole (map Inr chunks)" "body_bytes (map Inr chunks) = concat chunks"
    by (simp_all add: body_whole_def body_bytes_def list_all_iff comp_def)
  ultimately show ?thesis
    using assms(3,4) decoder_ok_copy
    by (simp add: collect_request_def header_text_def segment_headers_def copy_decoder_def)
qed

text \<open>Two records in three chunks: the first durable, the second one no retry would change.\<close>

definition sample_chunks :: "bytes list" where
  "sample_chunks = [[1, 0], [0, 0, 7, 2, 0], [0, 0, 8, 9]]"

lemma sample_chunks_framed: "concat sample_chunks = framed [[7], [8, 9]]"
  by code_simp

lemma sample_request:
  "collect_request copy_decoder (segment_headers some_sender 3) (map Inr sample_chunks) CLogs (Some (some_sender, 3)) [[7], [8, 9]]"
  by (rule segment_headers_ok) (simp_all add: sample_chunks_framed u64_max_def max_collect_record_bytes_def)

theorem collect_answer_covers_segment_witness:
  "\<exists>ans st. collect_inner copy_decoder 0 open_gate (\<lambda>i _. if i = 0 then Enqueued [True] 0 else NotEnqueued 400)
      True (segment_headers some_sender 3) (map Inr sample_chunks) 0 [] = Some (ans, st) \<and>
    (\<forall>n rejected. ans = Answer n rejected \<longrightarrow> 3 \<le> n)"
  using collect_answer_covers_segment [OF sample_request, of 0 open_gate
      "\<lambda>i _. if i = 0 then Enqueued [True] 0 else NotEnqueued 400" True 0 "[]"]
  by blast

text \<open>C17: whatever a batch comes to, answered or refused, the records it puts in the journal are
  only those past what an earlier attempt of the segment stored, and no stream's mark goes back.\<close>

theorem collect_never_stores_twice:
  assumes "collect_request dc h body sg sender rs"
  shows "\<exists>ans st. collect_inner dc now cfg ing last_mark h body counter marks = Some (ans, st) \<and>
    (\<forall>i \<in> set (co_stored st). already_stored marks sender sg \<le> i) \<and>
    (\<forall>w g. marks_position marks w g \<le> marks_position (co_marks st) w g)"
proof (cases "answered_unread marks sender sg")
  case True
  then obtain who segment where s: "sender = Some (who, segment)" "segment < pos_segment (marks_position marks who sg)"
    by (auto simp: answered_unread_def sender_position_def split: option.splits)
  have "map ascii_lower (case header_text h ''content-encoding'' of None \<Rightarrow> [] | Some v \<Rightarrow> v) = ''zstd''"
    "collect_signal_of h = Inr sg" "collect_sender_of h = Inr (Some (who, segment))"
    using assms s by (simp_all add: collect_request_def)
  then have "collect_inner dc now cfg ing last_mark h body counter marks =
      Some (Answer (whole_segments (marks_position marks who sg)) 0, initial_state counter marks)"
    using s unfolding collect_inner_def by (simp add: Let_def initial_state_def)
  then show ?thesis by (simp add: initial_state_def)
next
  case False
  let ?al = "already_stored marks sender sg"
  let ?st0 = "initial_state counter marks"
  have fin: "(\<forall>i \<in> set (co_stored st). ?al \<le> i) \<and> (\<forall>w g. marks_position marks w g \<le> marks_position (co_marks st) w g)"
    if "stored_from ?al ?st0 st" for st
    using that by (auto simp: stored_from_def initial_state_def)
  obtain x st1 where s1: "run_records now cfg ing sender sg ?al rs ?st0 = (x, st1)" by fastforce
  then have t1: "stored_from ?al ?st0 st1"
    using run_records_stored [of ?al ?st0 now cfg ing sender sg rs] by simp
  obtain y st2 where s2: "settle_below now 0 st1 = (y, st2)" by fastforce
  then have t2: "stored_from ?al ?st0 st2"
    using t1 settle_below_settled [of st1 now 0] stored_from_settled stored_from_trans by (metis snd_conv)
  have ab: "stored_from ?al ?st0 (abandon now fs st)" if "stored_from ?al ?st0 st" for fs st
    using that abandon_settled stored_from_settled stored_from_trans by blast
  have adv: "stored_from ?al ?st0 (st2\<lparr>co_marks := marks_advance now m (co_marks st2)\<rparr>)" for m
    using t2 marks_advance_forward [of "co_marks st2"] by (simp add: stored_from_def) (meson order_trans)
  note inner = collect_inner_records [OF assms False, of now cfg ing last_mark counter]
  have "\<exists>ans st. collect_inner dc now cfg ing last_mark h body counter marks = Some (ans, st) \<and> stored_from ?al ?st0 st"
    unfolding inner s1 prod.case using s2 ab [OF t1] ab [OF t2] t2 adv
    by (cases x; cases y; cases "sender = None") (auto simp: Let_def split: option.splits)
  then show ?thesis using fin by blast
qed

theorem collect_never_stores_twice_witness:
  "\<exists>ans st. collect_inner copy_decoder 0 open_gate (\<lambda>i _. Enqueued [True] 0)
      True (segment_headers some_sender 3) (map Inr sample_chunks) 0
      [((some_sender, CLogs), \<lparr>sn_at = Position 3 1, sn_when = 0\<rparr>)] = Some (ans, st) \<and>
    (\<forall>i \<in> set (co_stored st). 1 \<le> i)"
  using collect_never_stores_twice [OF sample_request, of 0 open_gate "\<lambda>i _. Enqueued [True] 0" True 0
      "[((some_sender, CLogs), \<lparr>sn_at = Position 3 1, sn_when = 0\<rparr>)]"]
  by (auto simp: already_stored_def sender_position_def marks_position_def)

text \<open>How the body was cut into chunks does not matter: two bodies that decode to the same
  records come to the same answer and the same state.\<close>

theorem collect_chunking_irrelevant:
  assumes "collect_request dc h body sg sender rs" and "collect_request dc' h body' sg sender rs"
  shows "collect_inner dc now cfg ing last_mark h body counter marks =
    collect_inner dc' now cfg ing last_mark h body' counter marks"
proof (cases "answered_unread marks sender sg")
  case True
  then obtain who segment where "sender = Some (who, segment)" "segment < pos_segment (marks_position marks who sg)"
    by (auto simp: answered_unread_def sender_position_def split: option.splits)
  then show ?thesis using assms unfolding collect_inner_def collect_request_def by (simp add: Let_def)
next
  case False
  show ?thesis by (simp only: collect_inner_records [OF assms(1) False] collect_inner_records [OF assms(2) False])
qed

theorem collect_chunking_irrelevant_witness:
  "collect_inner copy_decoder 0 open_gate (\<lambda>i _. Enqueued [True] 0) True (segment_headers some_sender 3)
      (map Inr sample_chunks) 0 [] =
   collect_inner copy_decoder 0 open_gate (\<lambda>i _. Enqueued [True] 0) True (segment_headers some_sender 3)
      (map Inr [framed [[7], [8, 9]]]) 0 []"
proof -
  have "collect_request copy_decoder (segment_headers some_sender 3) (map Inr [framed [[7], [8, 9]]]) CLogs
      (Some (some_sender, 3)) [[7], [8, 9]]"
    by (rule segment_headers_ok) (simp_all add: u64_max_def max_collect_record_bytes_def)
  from collect_chunking_irrelevant [OF sample_request this] show ?thesis .
qed

text \<open>C33: the writer goes on after a write that failed, so a batch can have a record the journal
  lost in front of one it kept. The refusal comes, but the mark of the later record is already
  in: the resend of the segment counts both as stored, skips them, and is answered with the
  whole segment. The first record is in no journal.\<close>

theorem resend_skips_failed_record:
  "\<exists>st. collect_inner copy_decoder 0 open_gate (\<lambda>i _. Enqueued [i \<noteq> 0] 0) True
        (segment_headers some_sender 1) (map Inr sample_chunks) 0 [] = Some (Refuse internal_server_error, st) \<and>
     (\<exists>st'. collect_inner copy_decoder 0 open_gate (\<lambda>i _. Enqueued [True] 0) True
        (segment_headers some_sender 1) (map Inr sample_chunks) 0 (co_marks st) = Some (Answer 1 0, st') \<and>
        co_stored st' = [])"
proof -
  have req: "collect_request copy_decoder (segment_headers some_sender 1) (map Inr sample_chunks) CLogs
      (Some (some_sender, 1)) [[7], [8, 9]]"
    by (rule segment_headers_ok) (simp_all add: sample_chunks_framed u64_max_def max_collect_record_bytes_def)
  let ?m = "[((some_sender, CLogs), \<lparr>sn_at = Position 1 2, sn_when = 0\<rparr>)]"
  have nr: "\<not> answered_unread [] (Some (some_sender, 1)) CLogs" "\<not> answered_unread ?m (Some (some_sender, 1)) CLogs"
    by (simp_all add: answered_unread_def sender_position_def marks_position_def position_start_def)
  have al: "already_stored [] (Some (some_sender, 1)) CLogs = 0" "already_stored ?m (Some (some_sender, 1)) CLogs = 2"
    by (simp_all add: already_stored_def sender_position_def marks_position_def position_start_def)
  have gate: "admit_body open_gate n counter = Inr (0, counter)" for n counter
    by (simp add: admit_body_def open_gate_def)
  have adv: "marks_advance 0 \<lparr>cm_sender = some_sender, cm_signal = CLogs, cm_at = p\<rparr> [] =
        [((some_sender, CLogs), \<lparr>sn_at = max (Position 1 0) p, sn_when = 0\<rparr>)]"
      "marks_advance 0 \<lparr>cm_sender = some_sender, cm_signal = CLogs, cm_at = p\<rparr> ?m =
        [((some_sender, CLogs), \<lparr>sn_at = max (Position 1 2) p, sn_when = 0\<rparr>)]" for p
    by (simp_all add: marks_advance_def marks_position_def position_start_def)
  have mx: "max (Position 1 0) (Position 1 2) = Position 1 2" "max (Position 1 2) (Position 2 0) = Position 2 0"
    by (simp_all add: max_def less_eq_position_def)
  obtain st where st: "collect_inner copy_decoder 0 open_gate (\<lambda>i _. Enqueued [i \<noteq> 0] 0) True
        (segment_headers some_sender 1) (map Inr sample_chunks) 0 [] = Some (Refuse internal_server_error, st)"
      "co_marks st = ?m"
    unfolding collect_inner_records [OF req nr(1)] al
    by (simp add: initial_state_def record_step_def Let_def settle_below.simps max_inflight_records_def
        admit_record.simps gate settle_oldest_def adv max_def less_eq_position_def numeral_2_eq_2)
  obtain st' where "collect_inner copy_decoder 0 open_gate (\<lambda>i _. Enqueued [True] 0) True
        (segment_headers some_sender 1) (map Inr sample_chunks) 0 ?m = Some (Answer 1 0, st')"
      "co_stored st' = []"
    unfolding collect_inner_records [OF req nr(2)] al
    by (simp add: initial_state_def record_step_def Let_def settle_below.simps marks_advance_def max_def less_eq_position_def
      marks_position_def whole_segments_def numeral_2_eq_2 [symmetric])
  with st show ?thesis by auto
qed

end
