(* ===== verification/Delivery.thy ===== *)
theory Delivery
  imports Intake CollectProps
begin

text \<open>
  The two programs together: what the sender of \<open>collecty\<close> puts in a request is what the
  collect route of \<open>signy\<close> reads out of it, and what the route answers is what the sender
  reads out of the answer.
\<close>

subsection \<open>The headers\<close>

definition collect_of :: "signal \<Rightarrow> collect_signal" where
  "collect_of sg = (case sg of Logs \<Rightarrow> CLogs | Traces \<Rightarrow> CTraces | Metrics \<Rightarrow> CMetrics)"

definition headers_of :: "(string \<times> string) list \<Rightarrow> headers" where
  "headers_of hs n = map_option Some (map_of hs n)"

lemma collect_parse_signal: "collect_parse (signal_as_str sg) = Some (collect_of sg)"
  using collect_parse_as_str [of "collect_of sg"]
  by (cases sg) (simp_all add: collect_of_def signal_as_str_def collect_as_str_def)

lemma shipment_headers_read:
  assumes "is_sender_id who" and "0 < segment" and "segment \<le> u64_max"
  shows "collect_signal_of (headers_of (shipment_headers who sg segment)) = Inr (collect_of sg)"
    and "collect_sender_of (headers_of (shipment_headers who sg segment)) = Inr (Some (who, segment))"
    and "header_text (headers_of (shipment_headers who sg segment)) ''content-encoding'' = Some ''zstd''"
  using assms sender_parse_display [OF assms(1)] parse_u64_show_nat [OF assms(3)] collect_parse_signal [of sg]
  by (simp_all add: collect_signal_of_def collect_sender_of_def headers_of_def shipment_headers_def header_text_def)

subsection \<open>The answer\<close>

lemma find_sub_here: "starts_with s p \<Longrightarrow> find_sub s p = Some 0"
  by (cases s) (auto simp: starts_with_def)

lemma takeWhile_show_nat:
  "\<not> P x \<Longrightarrow> list_all P (show_nat n) \<Longrightarrow> takeWhile P (show_nat n @ x # xs) = show_nat n"
  by (simp add: takeWhile_append2 list_all_iff)

lemma digits_show_nat: "list_all (\<lambda>c. digit_val c \<noteq> None) (show_nat n)"
  by (induction n rule: show_nat.induct) (subst show_nat.simps, simp)

lemma is_space_digit: "digit_val c \<noteq> None \<Longrightarrow> \<not> is_space c"
  by (auto simp: digit_val_def is_space_def Let_def split: if_splits)

lemma trim_start_show_nat: "trim_start (show_nat n @ xs) = show_nat n @ xs"
proof (cases "show_nat n")
  case (Cons c cs)
  then have "\<not> is_space c" using digits_show_nat [of n] is_space_digit [of c] by simp
  then show ?thesis by (simp add: trim_start_def Cons)
qed (use show_nat_hd [of n] in simp)

lemma trim_answer_body: "trim (answer_body stored rejected) = answer_body stored rejected"
  by (simp add: trim_def trim_start_def answer_body_def is_space_def)

lemma stored_number_answer_body: "stored \<le> u64_max \<Longrightarrow> stored_number (answer_body stored rejected) = stored"
proof -
  assume s: "stored \<le> u64_max"
  let ?tail = "show_nat stored @ CHR '','' # CHR 0x22 # ''rejected'' @ CHR 0x22 # CHR '':'' # show_nat rejected @ ''}''"
  have b: "answer_body stored rejected = CHR ''{'' # stored_key @ CHR '':'' # ?tail"
    by (simp add: answer_body_def stored_key_def quote_char_def)
  have f: "find_sub (answer_body stored rejected) stored_key = Some 1"
    unfolding b by (simp add: find_sub_here starts_with_append) (simp add: starts_with_def stored_key_def quote_char_def)
  have d: "drop (1 + length stored_key) (answer_body stored rejected) = CHR '':'' # ?tail" by (simp add: b)
  have c: "find_sub (CHR '':'' # ?tail) '':'' = Some 0" by (simp add: find_sub_here starts_with_def)
  have "digit_val (CHR '','') = None" by (simp add: digit_val_def)
  then have t: "takeWhile (\<lambda>c. digit_val c \<noteq> None) (trim_start ?tail) = show_nat stored"
    using takeWhile_show_nat [of "\<lambda>c. digit_val c \<noteq> None" "CHR '',''" stored] digits_show_nat [of stored]
    by (simp add: trim_start_show_nat)
  show ?thesis
    unfolding stored_number_def f option.case Let_def d c
    using t parse_u64_show_nat [OF s] by simp
qed

text \<open>The number survives the trip: what the route answers with is what the sender reads.\<close>

theorem stored_number_roundtrip:
  assumes "stored \<le> u64_max"
  shows "deliver_outcome base ms client secret sh (Response 200 (Some (answer_body stored rejected))) = Accepted stored"
  using assms by (simp add: deliver_outcome_def Let_def trim_answer_body stored_number_answer_body)

theorem stored_number_roundtrip_witness:
  "deliver_outcome ''http://h'' 5 None None show_nat (Response 200 (Some (answer_body 42 7))) = Accepted 42"
  by (rule stored_number_roundtrip) (simp add: u64_max_def)

subsection \<open>A segment from one disk to the other\<close>

text \<open>The answer of the route as the client receives it; \<open>why\<close> is the text of a refusal.\<close>

definition exchange_of :: "string \<Rightarrow> collect_answer \<Rightarrow> exchange" where
  "exchange_of why ans =
     (case ans of Answer n rejected \<Rightarrow> Response 200 (Some (answer_body n rejected)) | Refuse status \<Rightarrow> Response status (Some why))"

text \<open>signy's decoder undoes what collecty's encoder finished.\<close>

definition same_zstd :: "zstd \<Rightarrow> decoder \<Rightarrow> bool" where
  "same_zstd z dc \<longleftrightarrow> decoder_ok dc \<and> (\<forall>content p. z_read z content = (p, True) \<longrightarrow> dc_end dc content = Some p)"

lemma front_request:
  assumes "queue_inv z q" and "zstd_ok z" and "oldest_sealed q = Some (sg, seq)" and "read_segment q sg seq = Inr segment"
    and "same_zstd z dc" and "concat chunks = ss_body segment"
    and "is_sender_id (q_sender q)" and "0 < seq" and "seq \<le> u64_max"
    and "list_all (\<lambda>r. length r \<le> max_collect_record_bytes) (seg_records z (ss_body segment))"
  shows "collect_request dc (headers_of (shipment_headers (q_sender q) sg seq)) (map Inr chunks) (collect_of sg)
      (Some (q_sender q, seq)) (seg_records z (ss_body segment))"
proof -
  have st: "stamps_inv q" and inv: "signal_inv z (q_dirs q sg) (q_signals q sg)"
    using assms(1) by (simp_all add: queue_inv_def)
  obtain front rest where fr: "sq_segments (q_signals q sg) = front # rest" "rest \<noteq> []" "seq = h_seq front"
    using oldest_sealed_Some [OF st assms(3)] by metis
  have "sealed_ok z (q_dirs q sg) front" using inv fr by (simp add: signal_inv_def)
  then obtain ws rs where w: "seg_exists (q_dirs q sg) seq" "file_content (q_dirs q sg) seq = z_close z ws" "writes_records ws rs"
    using fr(3) by (auto simp: sealed_ok_def)
  then have body: "ss_body segment = z_close z ws"
    using assms(4) by (auto simp: read_segment_def map_whole_def seg_exists_def file_content_def split: option.splits)
  then have recs: "seg_records z (ss_body segment) = rs" using seg_records_close [OF assms(2) w(3)] by simp
  have "dc_end dc (concat chunks) = Some (framed rs)"
    using assms(5,6) zstd_ok_read_close [OF assms(2), of ws] w(3) body by (simp add: same_zstd_def writes_records_def)
  moreover have "body_whole (map Inr chunks)" "body_bytes (map Inr chunks) = concat chunks"
    by (simp_all add: body_whole_def body_bytes_def list_all_iff comp_def)
  moreover have "map ascii_lower ''zstd'' = ''zstd''" by code_simp
  ultimately show ?thesis
    using shipment_headers_read [OF assms(7-9), of sg] assms(5,10) recs
    by (simp add: collect_request_def same_zstd_def)
qed

text \<open>C1: what a collecty lets go of, signy has. When the sender offers the oldest closed segment in
  whatever pieces, and takes the exchange for an acceptance, then every record of the segment
  that an earlier attempt had not stored is durable or refused for good (unless the whole
  segment was below the mark), the number it commits is the one signy answered, which covers
  the segment, and the commit retires no segment numbered above it.\<close>

theorem accepted_segment_is_stored:
  assumes "quiet z env" and "queue_inv z q" and "oldest_sealed q = Some (sg, seq)"
    and "read_segment q sg seq = Inr segment" and "same_zstd z dc" and "concat chunks = ss_body segment"
    and "is_sender_id (q_sender q)" and "0 < seq" and "seq \<le> u64_max"
    and "list_all (\<lambda>r. length r \<le> max_collect_record_bytes) (seg_records z (ss_body segment))"
    and "refuses_properly ing"
  shows "\<exists>ans st.
    collect_inner dc now cfg ing last_mark (headers_of (shipment_headers (q_sender q) sg seq)) (map Inr chunks) counter marks
      = Some (ans, st) \<and>
    (\<forall>stored. deliver_outcome base ms client secret sh (exchange_of why ans) = Accepted stored \<longrightarrow>
      (\<exists>n rejected. ans = Answer n rejected \<and> seq \<le> n \<and> (n \<le> u64_max \<longrightarrow> stored = n)) \<and>
      (seq < pos_segment (marks_position marks (q_sender q) (collect_of sg)) \<or>
       (\<forall>i < length (seg_records z (ss_body segment)).
          already_stored marks (Some (q_sender q, seq)) (collect_of sg) \<le> i \<longrightarrow>
          record_kept (ing i (seg_records z (ss_body segment) ! i)))) \<and>
      aq_sealed (queue_abs z (snd (commit env sg (max stored seq) q))) sg
        = filter (\<lambda>s. max stored seq < fst s) (aq_sealed (queue_abs z q) sg))"
proof -
  have req: "collect_request dc (headers_of (shipment_headers (q_sender q) sg seq)) (map Inr chunks) (collect_of sg)
      (Some (q_sender q, seq)) (seg_records z (ss_body segment))"
    using assms(1) by (intro front_request [OF assms(2) _ assms(3-10)]) (simp add: quiet_def)
  obtain ans st where run: "collect_inner dc now cfg ing last_mark (headers_of (shipment_headers (q_sender q) sg seq))
      (map Inr chunks) counter marks = Some (ans, st)"
    and cov: "\<And>n rejected. ans = Answer n rejected \<Longrightarrow> seq \<le> n \<and>
       (seq < pos_segment (marks_position marks (q_sender q) (collect_of sg)) \<or>
        (\<forall>i < length (seg_records z (ss_body segment)).
           already_stored marks (Some (q_sender q, seq)) (collect_of sg) \<le> i \<longrightarrow>
           record_kept (ing i (seg_records z (ss_body segment) ! i))))"
    using collect_inner_covers [OF req, of now cfg ing last_mark counter marks] by blast
  have retired: "aq_sealed (queue_abs z (snd (commit env sg (max stored seq) q))) sg
        = filter (\<lambda>s. max stored seq < fst s) (aq_sealed (queue_abs z q) sg)" for stored
    using commit_filters [OF assms(1,2)] by blast
  show ?thesis
  proof (cases ans)
    case (Answer n rejected)
    have "stored = n" if "deliver_outcome base ms client secret sh (exchange_of why ans) = Accepted stored" "n \<le> u64_max" for stored
      using that Answer by (simp add: exchange_of_def deliver_outcome_def Let_def trim_answer_body stored_number_answer_body)
    with run cov retired Answer show ?thesis by blast
  next
    case (Refuse status)
    then have "400 \<le> status" using collect_inner_refuses [OF req assms(11)] run by blast
    then have "deliver_outcome base ms client secret sh (exchange_of why ans) \<noteq> Accepted stored" for stored
      using Refuse by (simp add: exchange_of_def deliver_outcome_def Let_def)
    with run show ?thesis by blast
  qed
qed

text \<open>A decoder that undoes \<open>plain_zstd\<close>, and the one closed segment of a queue sent in two pieces.\<close>

definition plain_decoder :: decoder where
  "plain_decoder = \<lparr>dc_out = (\<lambda>a. Some (fst (plain_read a))),
     dc_end = (\<lambda>a. case plain_read a of (p, ok) \<Rightarrow> if ok then Some p else None)\<rparr>"

lemma plain_read_mono: "prefix (fst (plain_read a)) (fst (plain_read (a @ b)))"
proof (induction a rule: plain_read.induct)
  case (1 m c r)
  then show ?case by (cases "plain_read r"; cases "plain_read (r @ b)") auto
qed auto

lemma same_zstd_plain: "same_zstd plain_zstd plain_decoder"
  using plain_read_mono
  by (auto simp: same_zstd_def decoder_ok_def plain_decoder_def plain_zstd_def split: prod.splits if_splits)

theorem accepted_segment_is_stored_witness:
  "\<exists>ans st. collect_inner plain_decoder 0 open_gate (\<lambda>_ _. Enqueued [True] 0) True
      (headers_of (shipment_headers (replicate 16 0) Logs 1)) (map Inr [[1, 1, 1, 0], [1, 0, 1, 0, 1, 7, 0]]) 0 []
      = Some (ans, st)"
proof -
  have "read_segment one_sealed_queue Logs 1 = Inr \<lparr>ss_signal = Logs, ss_seq = 1, ss_body = [1, 1, 1, 0, 1, 0, 1, 0, 1, 7, 0]\<rparr>"
    by (simp add: read_segment_def map_whole_def one_sealed_queue_def plain_zstd_def plain_emit_def frame_record_single)
  moreover have "oldest_sealed one_sealed_queue = Some (Logs, 1)"
    by (simp add: oldest_sealed_def all_signals_def map_filter_def sealed_front_def one_sealed_queue_def empty_queue_def)
  moreover have "q_sender one_sealed_queue = replicate 16 0" by (simp add: one_sealed_queue_def empty_queue_def)
  moreover have "seg_records plain_zstd [1, 1, 1, 0, 1, 0, 1, 0, 1, 7, 0] = [[7]]"
    by code_simp
  ultimately show ?thesis
    using accepted_segment_is_stored [OF quiet_plain one_sealed_queue_inv, of Logs 1 _ plain_decoder
        "[[1, 1, 1, 0], [1, 0, 1, 0, 1, 7, 0]]" "\<lambda>_ _. Enqueued [True] 0" 0 open_gate True 0 "[]"] same_zstd_plain
    by (fastforce simp: is_sender_id_def sender_id_bytes_def u64_max_def max_collect_record_bytes_def
        refuses_properly_def)
qed

end
