(* ===== verification/Replay.thy ===== *)
theory Replay
  imports WalFormat
begin

text \<open>
  \<open>signy/src/journal/replay.rs\<close>: putting the write-ahead log back at start. What turns an
  export into rows (prost, \<open>otlp_log\<close>, \<open>trace\<close>, \<open>series_ingest\<close>) and what unpacks a payload
  (zstd) are parameters; a memtable is what has been inserted into it, in order.
\<close>

subsection \<open>State\<close>

datatype 'a normalized = Rows "'a list" | NoRows | BadRows

record ('l, 't, 'm) codec =
  c_crc :: "bytes \<Rightarrow> u32"
  c_unzip :: "bytes \<Rightarrow> bytes option"
  c_logs :: "bytes \<Rightarrow> 'l normalized"
  c_traces :: "tenant_id \<Rightarrow> bytes \<Rightarrow> 't list option"
  c_metrics :: "tenant_id \<Rightarrow> bytes \<Rightarrow> 'm normalized"

record ('l, 't, 'm) sink =
  k_logs :: "tenant_id \<Rightarrow> 'l list"
  k_traces :: "'t list"
  k_metrics :: "'m list"

definition insert_logs :: "tenant_id \<Rightarrow> 'l list \<Rightarrow> ('l, 't, 'm) sink \<Rightarrow> ('l, 't, 'm) sink" where
  "insert_logs t ls k = k\<lparr>k_logs := (k_logs k)(t := k_logs k t @ ls)\<rparr>"

definition insert_traces :: "'t list \<Rightarrow> ('l, 't, 'm) sink \<Rightarrow> ('l, 't, 'm) sink" where
  "insert_traces ts k = k\<lparr>k_traces := k_traces k @ ts\<rparr>"

definition insert_metrics :: "'m list \<Rightarrow> ('l, 't, 'm) sink \<Rightarrow> ('l, 't, 'm) sink" where
  "insert_metrics ms k = k\<lparr>k_metrics := k_metrics k @ ms\<rparr>"

record ('l, 't, 'm) replay_state =
  rs_sink :: "('l, 't, 'm) sink"
  rs_marks :: collect_marks
  rs_records :: nat
  rs_entries :: nat

datatype replay_error =
    RecordOverflow nat | RecordTooLarge nat nat | CrcMismatch nat | InvalidRecord nat
  | LokiRecord nat | BadPayload nat | BadExport nat | UnsupportedKind u8 nat | NoTenantFrame nat
  | WalMissing nat | CheckpointBeyond nat nat | BadCheckpoint

subsection \<open>One record\<close>

definition decompress_payload :: "('l, 't, 'm) codec \<Rightarrow> bytes \<Rightarrow> bytes option" where
  "decompress_payload c payload =
     (case c_unzip c payload of
        None \<Rightarrow> None
      | Some out \<Rightarrow> if length out > max_record_bytes then None else Some out)"

definition replay_otlp_log_record ::
    "('l, 't, 'm) codec \<Rightarrow> tenant_id \<Rightarrow> bytes \<Rightarrow> nat \<Rightarrow> ('l, 't, 'm) sink \<Rightarrow>
       replay_error + nat \<times> ('l, 't, 'm) sink" where
  "replay_otlp_log_record c tenant payload offset k =
     (case c_logs c payload of
        Rows es \<Rightarrow> Inr (length es, insert_logs tenant es k)
      | NoRows \<Rightarrow> Inr (0, k)
      | BadRows \<Rightarrow> Inl (BadExport offset))"

definition replay_trace_record ::
    "('l, 't, 'm) codec \<Rightarrow> tenant_id \<Rightarrow> bytes \<Rightarrow> nat \<Rightarrow> ('l, 't, 'm) sink \<Rightarrow>
       replay_error + ('l, 't, 'm) sink" where
  "replay_trace_record c tenant payload offset k =
     (case c_traces c tenant payload of
        Some spans \<Rightarrow> Inr (insert_traces spans k)
      | None \<Rightarrow> Inl (BadExport offset))"

definition replay_otlp_metric_record ::
    "('l, 't, 'm) codec \<Rightarrow> tenant_id \<Rightarrow> bytes \<Rightarrow> nat \<Rightarrow> ('l, 't, 'm) sink \<Rightarrow>
       replay_error + ('l, 't, 'm) sink" where
  "replay_otlp_metric_record c tenant payload offset k =
     (case c_metrics c tenant payload of
        Rows ms \<Rightarrow> Inr (insert_metrics ms k)
      | NoRows \<Rightarrow> Inr k
      | BadRows \<Rightarrow> Inl (BadExport offset))"

definition replay_record ::
    "('l, 't, 'm) codec \<Rightarrow> nat \<Rightarrow> nat \<Rightarrow> bytes \<Rightarrow> ('l, 't, 'm) replay_state \<Rightarrow>
       replay_error + ('l, 't, 'm) replay_state" where
  "replay_record c now offset data st =
     (case decode_mark data of
        Some mark \<Rightarrow> Inr (st\<lparr>rs_marks := marks_advance now mark (rs_marks st)\<rparr>)
      | None \<Rightarrow>
          (case decode_tenant_record data of
             Inl _ \<Rightarrow> Inl (InvalidRecord offset)
           | Inr None \<Rightarrow> Inl (NoTenantFrame offset)
           | Inr (Some (tenant, kind, payload)) \<Rightarrow>
               if kind = kind_logs then Inl (LokiRecord offset)
               else if kind = kind_traces then
                 (case decompress_payload c payload of
                    None \<Rightarrow> Inl (BadPayload offset)
                  | Some p \<Rightarrow>
                      (case replay_trace_record c tenant p offset (rs_sink st) of
                         Inl e \<Rightarrow> Inl e | Inr k \<Rightarrow> Inr (st\<lparr>rs_sink := k\<rparr>)))
               else if kind = kind_otlp_logs then
                 (case decompress_payload c payload of
                    None \<Rightarrow> Inl (BadPayload offset)
                  | Some p \<Rightarrow>
                      (case replay_otlp_log_record c tenant p offset (rs_sink st) of
                         Inl e \<Rightarrow> Inl e
                       | Inr (n, k) \<Rightarrow> Inr (st\<lparr>rs_sink := k, rs_entries := rs_entries st + n\<rparr>)))
               else if kind = kind_otlp_metrics then
                 (case decompress_payload c payload of
                    None \<Rightarrow> Inl (BadPayload offset)
                  | Some p \<Rightarrow>
                      (case replay_otlp_metric_record c tenant p offset (rs_sink st) of
                         Inl e \<Rightarrow> Inl e | Inr k \<Rightarrow> Inr (st\<lparr>rs_sink := k\<rparr>)))
               else Inl (UnsupportedKind kind offset)))"

subsection \<open>The log\<close>

text \<open>
  \<open>bs\<close> is what is left of a file of \<open>file_len\<close> bytes from \<open>offset\<close> on. A record the file
  ends inside, and a last record whose checksum is wrong, end the replay; anything else
  that cannot be read is refused.
\<close>

function replay_loop ::
    "('l, 't, 'm) codec \<Rightarrow> nat \<Rightarrow> nat \<Rightarrow> nat \<Rightarrow> bytes \<Rightarrow> ('l, 't, 'm) replay_state \<Rightarrow>
       replay_error + nat \<times> ('l, 't, 'm) replay_state" where
  "replay_loop c now file_len offset bs st =
     (if length bs < record_header_size then Inr (offset, st)
      else
        (let len = nat_of_le (take 4 bs);
             expected = word_of_nat (nat_of_le (take 4 (drop 4 bs))) :: u32
         in
         case Option.bind (checked_add_u64 offset record_header_size) (\<lambda>e. checked_add_u64 e len) of
           None \<Rightarrow> Inl (RecordOverflow offset)
         | Some record_end \<Rightarrow>
             if record_end > file_len then Inr (offset, st)
             else if len > max_record_bytes then Inl (RecordTooLarge offset len)
             else if length (drop record_header_size bs) < len then Inr (offset, st)
             else
               (let data = take len (drop record_header_size bs) in
                if c_crc c data \<noteq> expected then
                  (if record_end = file_len then Inr (offset, st) else Inl (CrcMismatch offset))
                else
                  (case replay_record c now offset data st of
                     Inl e \<Rightarrow> Inl e
                   | Inr st' \<Rightarrow>
                       replay_loop c now file_len (offset + (record_header_size + len))
                         (drop (record_header_size + len) bs) (st'\<lparr>rs_records := rs_records st' + 1\<rparr>)))))"
  by pat_completeness auto
termination
  by (relation "measure (\<lambda>(_, _, _, _, bs, _). length bs)") (auto simp: record_header_size_def)

declare replay_loop.simps [simp del]

definition replay_from ::
    "('l, 't, 'm) codec \<Rightarrow> nat \<Rightarrow> bytes option \<Rightarrow> nat \<Rightarrow> ('l, 't, 'm) replay_state \<Rightarrow>
       replay_error + nat \<times> ('l, 't, 'm) replay_state" where
  "replay_from c now wal checkpoint st =
     (case wal of
        None \<Rightarrow> if checkpoint = 0 then Inr (0, st) else Inl (WalMissing checkpoint)
      | Some file' \<Rightarrow>
          if checkpoint > length file' then Inl (CheckpointBeyond checkpoint (length file'))
          else if checkpoint = length file' then Inr (checkpoint, st)
          else replay_loop c now (length file') checkpoint (drop checkpoint file') st)"

subsection \<open>Reading what was written\<close>

lemma replay_loop_record:
  assumes len: "length data \<le> max_record_bytes"
    and fl: "offset + length (wal_record (c_crc c) data) + length rest = file_len" "file_len \<le> u64_max"
  shows "replay_loop c now file_len offset (wal_record (c_crc c) data @ rest) st =
     (case replay_record c now offset data st of
        Inl e \<Rightarrow> Inl e
      | Inr st' \<Rightarrow> replay_loop c now file_len (offset + length (wal_record (c_crc c) data)) rest
          (st'\<lparr>rs_records := rs_records st' + 1\<rparr>))"
proof -
  have "nat_of_le (le_nat 4 (length data)) = length data"
    using len by (intro nat_of_le_le_nat_id) (simp add: max_record_bytes_def)
  moreover have "word_of_nat (nat_of_le (le_nat 4 (unat (c_crc c data)))) = c_crc c data"
    by (rule word_of_nat_nat_of_le_le_nat(1))
  moreover have "offset + 8 + length data \<le> file_len"
    using fl by (simp add: length_wal_record record_header_size_def)
  ultimately show ?thesis
    using len fl(2)
    by (subst replay_loop.simps)
      (auto simp: wal_record_def record_header_size_def checked_add_u64_def add.assoc add.commute
        split: sum.splits)
qed

text \<open>A record the file ends inside of is not there.\<close>

lemma replay_loop_torn:
  assumes len: "length data \<le> max_record_bytes" and p: "strict_prefix p (wal_record (c_crc c) data)"
    and fl: "offset + length p = file_len" "file_len + max_record_bytes + 8 \<le> u64_max"
  shows "replay_loop c now file_len offset p st = Inr (offset, st)"
proof (cases "length p < record_header_size")
  case True
  then show ?thesis by (subst replay_loop.simps) simp
next
  case False
  obtain q where q: "wal_record (c_crc c) data = p @ q" "q \<noteq> []"
    using p by (auto simp: strict_prefix_def prefix_def)
  then have l: "8 + length data = length p + length q"
    using length_wal_record [of "c_crc c" data] by (simp add: record_header_size_def)
  have "take 4 p = take 4 (p @ q)" using False by (simp add: record_header_size_def)
  also have "\<dots> = le_nat 4 (length data)" unfolding q(1) [symmetric] by (simp add: wal_record_def)
  finally have "nat_of_le (take 4 p) = length data"
    using len by (simp add: nat_of_le_le_nat_id max_record_bytes_def)
  then show ?thesis
    using False l fl q(2) len
    by (subst replay_loop.simps) (auto simp: checked_add_u64_def record_header_size_def)
qed

lemma replay_loop_Nil: "replay_loop c now file_len offset [] st = Inr (offset, st)"
  by (subst replay_loop.simps) (simp add: record_header_size_def)

text \<open>A run of records whose replay succeeds one after the other.\<close>

fun replay_records ::
    "('l, 't, 'm) codec \<Rightarrow> nat \<Rightarrow> nat \<Rightarrow> bytes list \<Rightarrow> ('l, 't, 'm) replay_state \<Rightarrow>
       replay_error + ('l, 't, 'm) replay_state" where
  "replay_records c now offset [] st = Inr st"
| "replay_records c now offset (d # ds) st =
     (case replay_record c now offset d st of
        Inl e \<Rightarrow> Inl e
      | Inr st' \<Rightarrow> replay_records c now (offset + length (wal_record (c_crc c) d)) ds
                    (st'\<lparr>rs_records := rs_records st' + 1\<rparr>))"

definition wal_records :: "('l, 't, 'm) codec \<Rightarrow> bytes list \<Rightarrow> bytes" where
  "wal_records c ds = concat (map (wal_record (c_crc c)) ds)"

lemma wal_records_simps [simp]:
  "wal_records c [] = []"
  "wal_records c (d # ds) = wal_record (c_crc c) d @ wal_records c ds"
  "wal_records c (ds @ es) = wal_records c ds @ wal_records c es"
  by (simp_all add: wal_records_def)

lemma replay_loop_records:
  assumes "list_all (\<lambda>d. length d \<le> max_record_bytes) ds"
    and "offset + length (wal_records c ds) + length rest = file_len" and "file_len \<le> u64_max"
    and "replay_records c now offset ds st = Inr st'"
  shows "replay_loop c now file_len offset (wal_records c ds @ rest) st
     = replay_loop c now file_len (offset + length (wal_records c ds)) rest st'"
  using assms
proof (induction ds arbitrary: offset st)
  case Nil
  then show ?case by simp
next
  case (Cons d ds)
  from Cons.prems(4) obtain s1 where s1: "replay_record c now offset d st = Inr s1"
    by (auto split: sum.splits)
  have "replay_loop c now file_len offset (wal_records c (d # ds) @ rest) st
      = replay_loop c now file_len (offset + length (wal_record (c_crc c) d)) (wal_records c ds @ rest)
          (s1\<lparr>rs_records := rs_records s1 + 1\<rparr>)"
    using replay_loop_record [of d offset c "wal_records c ds @ rest" file_len now st] Cons.prems s1 by simp
  then show ?case
    using Cons.IH [of "offset + length (wal_record (c_crc c) d)" "s1\<lparr>rs_records := rs_records s1 + 1\<rparr>"]
      Cons.prems s1 by (simp add: add.assoc)
qed

text \<open>A cut through a run of records leaves the records in front of it and part of one.\<close>

lemma wal_records_prefix:
  assumes "prefix p (wal_records c ds)"
  obtains k q where "k \<le> length ds" and "p = wal_records c (take k ds) @ q"
    and "q = [] \<or> k < length ds \<and> strict_prefix q (wal_record (c_crc c) (ds ! k))"
proof -
  have "\<exists>k q. k \<le> length ds \<and> p = wal_records c (take k ds) @ q \<and>
      (q = [] \<or> k < length ds \<and> strict_prefix q (wal_record (c_crc c) (ds ! k)))"
    using assms
  proof (induction ds arbitrary: p)
    case Nil
    then show ?case by simp
  next
    case (Cons d ds)
    then consider "strict_prefix p (wal_record (c_crc c) d)"
      | p' where "p = wal_record (c_crc c) d @ p'" "prefix p' (wal_records c ds)"
      by (cases "p = wal_record (c_crc c) d") (auto simp: prefix_append strict_prefix_def)
    then show ?case
    proof cases
      case 1
      then show ?thesis by (intro exI [of _ 0] exI [of _ p]) simp
    next
      case 2
      with Cons.IH obtain k q where "k \<le> length ds" "p' = wal_records c (take k ds) @ q"
        "q = [] \<or> k < length ds \<and> strict_prefix q (wal_record (c_crc c) (ds ! k))" by blast
      with 2 show ?thesis by (intro exI [of _ "Suc k"] exI [of _ q]) auto
    qed
  qed
  then show thesis using that by blast
qed

lemma replay_records_append:
  "replay_records c now offset (ds @ es) st =
     (case replay_records c now offset ds st of
        Inl e \<Rightarrow> Inl e
      | Inr st' \<Rightarrow> replay_records c now (offset + length (wal_records c ds)) es st')"
  by (induction ds arbitrary: offset st) (auto simp: add.assoc split: sum.splits)

end
