(* ===== verification/WalCompaction.thy ===== *)
theory WalCompaction
  imports WalFormat
begin

text \<open>
  \<open>signy/src/journal/compaction.rs\<close>, \<open>recover_unfinished_compaction\<close> of \<open>replay.rs\<close> and
  \<open>advance_checkpoint\<close> of \<open>flush.rs\<close>: replacing the write-ahead log by its live suffix. An
  operation is the list of what the four files hold after each of its durable steps; an
  error or a crash stops it behind one of them.
\<close>

subsection \<open>The files\<close>

record wal_files =
  wf_wal :: bytes
  wf_ckpt :: "bytes option"
  wf_tmp :: "bytes option"
  wf_state :: "bytes option"

record compaction_state =
  cs_offset :: nat
  cs_source :: nat
  cs_retained :: nat

datatype wal_error = WalDevice | WalInvalidData | WalInvalidInput

definition read_compaction_state :: "bytes option \<Rightarrow> wal_error + compaction_state option" where
  "read_compaction_state file' =
     (case file' of
        None \<Rightarrow> Inr None
      | Some bs \<Rightarrow>
          if length bs = 24 then
            Inr (Some \<lparr>cs_offset = nat_of_le (take 8 bs), cs_source = nat_of_le (take 8 (drop 8 bs)),
                       cs_retained = nat_of_le (take 8 (drop 16 bs))\<rparr>)
          else Inl WalInvalidData)"

definition write_compaction_state :: "compaction_state \<Rightarrow> bytes" where
  "write_compaction_state s = le_nat 8 (cs_offset s) @ le_nat 8 (cs_source s) @ le_nat 8 (cs_retained s)"

definition remove_compaction_state :: "wal_files \<Rightarrow> wal_files" where
  "remove_compaction_state f = f\<lparr>wf_state := None\<rparr>"

text \<open>
  \<open>stop\<close> is the number of steps that have taken effect when the device reports an error; an
  error behind the last step is the sync that should have made it durable. \<open>None\<close> is a
  device that reports none.
\<close>

definition run_steps :: "nat option \<Rightarrow> wal_files \<Rightarrow> wal_files list \<Rightarrow> (wal_error + unit) \<times> wal_files" where
  "run_steps stop f ss =
     (case stop of
        Some n \<Rightarrow> if n \<le> length ss then (Inl WalDevice, (f # ss) ! n) else (Inr (), last (f # ss))
      | None \<Rightarrow> (Inr (), last (f # ss)))"

text \<open>Undoing a compaction whose rename never happened.\<close>

definition restore_steps :: "compaction_state \<Rightarrow> wal_files \<Rightarrow> wal_files list" where
  "restore_steps s f =
     (let a = f\<lparr>wf_ckpt := Some (write_checkpoint (cs_offset s))\<rparr>;
          b = a\<lparr>wf_tmp := None\<rparr>
      in [a, b, remove_compaction_state b])"

text \<open>Copy, intent, checkpoint zero, rename, intent gone.\<close>

definition compact_steps :: "nat \<Rightarrow> nat \<Rightarrow> wal_files \<Rightarrow> wal_files list" where
  "compact_steps good offset f =
     (let retained = good - offset;
          suffix = take retained (drop offset (wf_wal f));
          t = f\<lparr>wf_tmp := Some suffix\<rparr>;
          s = t\<lparr>wf_state := Some (write_compaction_state
                  \<lparr>cs_offset = offset, cs_source = good, cs_retained = retained\<rparr>)\<rparr>;
          c = s\<lparr>wf_ckpt := Some (write_checkpoint 0)\<rparr>;
          r = c\<lparr>wf_wal := suffix, wf_tmp := None\<rparr>
      in [t, s, c, r, remove_compaction_state r])"

definition compact_fresh ::
    "nat option \<Rightarrow> nat \<Rightarrow> nat \<Rightarrow> wal_files \<Rightarrow> (wal_error + unit) \<times> wal_files \<times> nat" where
  "compact_fresh stop good offset f =
     (if offset > good then (Inl WalInvalidInput, f, good)
      else (case run_steps stop f (compact_steps good offset f) of
              (Inl e, f') \<Rightarrow> (Inl e, f', good)
            | (Inr _, f') \<Rightarrow> (Inr (), f', good - offset)))"

definition compact_wal ::
    "nat option \<Rightarrow> nat \<Rightarrow> nat \<Rightarrow> wal_files \<Rightarrow> (wal_error + unit) \<times> wal_files \<times> nat" where
  "compact_wal stop good offset f =
     (case read_compaction_state (wf_state f) of
        Inl e \<Rightarrow> (Inl e, f, good)
      | Inr None \<Rightarrow> compact_fresh stop good offset f
      | Inr (Some s) \<Rightarrow>
          (let wal_len = length (wf_wal f) in
           if wf_tmp f \<noteq> None then
             (if wal_len < cs_source s then (Inl WalInvalidData, f, good)
              else (case run_steps stop f (restore_steps s f) of
                      (Inl e, f') \<Rightarrow> (Inl e, f', good)
                    | (Inr _, f') \<Rightarrow> compact_fresh (map_option (\<lambda>n. n - 4) stop) wal_len offset f'))
           else if wal_len < cs_retained s then (Inl WalInvalidData, f, good)
           else (case run_steps stop f [remove_compaction_state f] of
                   (Inl e, f') \<Rightarrow> (Inl e, f', good)
                 | (Inr _, f') \<Rightarrow> (Inr (), f', wal_len))))"

subsection \<open>Restarting\<close>

definition recover_steps :: "wal_files \<Rightarrow> wal_error + wal_files list" where
  "recover_steps f =
     (case read_compaction_state (wf_state f) of
        Inl e \<Rightarrow> Inl e
      | Inr None \<Rightarrow> Inr []
      | Inr (Some s) \<Rightarrow> Inr (if wf_tmp f = None then [remove_compaction_state f] else restore_steps s f))"

definition recover_unfinished_compaction :: "wal_files \<Rightarrow> wal_error + wal_files" where
  "recover_unfinished_compaction f =
     (case recover_steps f of Inl e \<Rightarrow> Inl e | Inr ss \<Rightarrow> Inr (last (f # ss)))"

text \<open>The bytes a restart would replay.\<close>

definition live_bytes :: "wal_files \<Rightarrow> bytes option" where
  "live_bytes f =
     (case recover_unfinished_compaction f of
        Inl _ \<Rightarrow> None
      | Inr g \<Rightarrow>
          (case read_checkpoint (wf_ckpt g) of
             None \<Rightarrow> None
           | Some c \<Rightarrow> if c > length (wf_wal g) then None else Some (drop c (wf_wal g))))"

subsection \<open>Advancing the checkpoint\<close>

definition should_compact_wal :: "nat \<Rightarrow> nat \<Rightarrow> bool \<Rightarrow> nat option \<Rightarrow> bool" where
  "should_compact_wal wal_bytes offset remote min_bytes =
     (if remote then True
      else (case min_bytes of
              None \<Rightarrow> False
            | Some m \<Rightarrow> (let live_suffix = wal_bytes - offset in offset \<ge> max m live_suffix)))"

text \<open>
  \<open>set_checkpoint\<close> is one durable step; a compaction runs in the writer's task, whose count
  of durable bytes is the length of the file.
\<close>

definition set_checkpoint :: "nat option \<Rightarrow> nat \<Rightarrow> wal_files \<Rightarrow> (wal_error + unit) \<times> wal_files" where
  "set_checkpoint stop offset f = run_steps stop f [f\<lparr>wf_ckpt := Some (write_checkpoint offset)\<rparr>]"

definition advance_checkpoint ::
    "nat option \<Rightarrow> nat \<Rightarrow> bool \<Rightarrow> nat option \<Rightarrow> wal_files \<Rightarrow> (wal_error + unit) \<times> wal_files" where
  "advance_checkpoint stop offset remote min_bytes f =
     (if should_compact_wal (length (wf_wal f)) offset remote min_bytes then
        (case compact_wal stop (length (wf_wal f)) offset f of (r, f', _) \<Rightarrow> (r, f'))
      else set_checkpoint stop offset f)"

text \<open>
  \<open>retry_pending_checkpoint\<close>: the offset that could not be advanced is tried again before
  any later flush.
\<close>

definition retry_pending_checkpoint ::
    "nat option \<Rightarrow> nat option \<Rightarrow> bool \<Rightarrow> nat option \<Rightarrow> wal_files \<Rightarrow>
       (wal_error option + nat) \<times> nat option \<times> wal_files" where
  "retry_pending_checkpoint stop pending remote min_bytes f =
     (case pending of
        None \<Rightarrow> (Inl None, pending, f)
      | Some offset \<Rightarrow>
          (case advance_checkpoint stop offset remote min_bytes f of
             (Inl e, f') \<Rightarrow> (Inl (Some e), pending, f')
           | (Inr _, f') \<Rightarrow> (Inr offset, None, f')))"

subsection \<open>Reading the intent back\<close>

lemma read_write_compaction_state:
  assumes "a < 2 ^ 64" and "b < 2 ^ 64" and "c < 2 ^ 64"
  shows "read_compaction_state (Some (write_compaction_state \<lparr>cs_offset = a, cs_source = b, cs_retained = c\<rparr>))
    = Inr (Some \<lparr>cs_offset = a, cs_source = b, cs_retained = c\<rparr>)"
  using assms by (simp add: read_compaction_state_def write_compaction_state_def nat_of_le_le_nat_id)

lemma read_compaction_state_None [simp]: "read_compaction_state None = Inr None"
  by (simp add: read_compaction_state_def)

lemma read_compaction_state_offset:
  assumes "read_compaction_state x = Inr (Some s)"
  shows "cs_offset s < 2 ^ 64"
proof -
  obtain bs where bs: "length bs = 24" "cs_offset s = nat_of_le (take 8 bs)"
    using assms by (auto simp: read_compaction_state_def split: option.splits if_splits)
  then show ?thesis using nat_of_le_lt [of "take 8 bs"] by simp
qed

subsection \<open>Crash safety\<close>

lemma live_bytes_clean:
  "wf_state f = None \<Longrightarrow> read_checkpoint (wf_ckpt f) = Some c \<Longrightarrow> c \<le> length (wf_wal f) \<Longrightarrow>
     live_bytes f = Some (drop c (wf_wal f))"
  by (simp add: live_bytes_def recover_unfinished_compaction_def recover_steps_def)

lemma live_bytes_renamed:
  assumes "read_compaction_state (wf_state f) = Inr (Some s)" and "wf_tmp f = None"
    and "read_checkpoint (wf_ckpt f) = Some c" and "c \<le> length (wf_wal f)"
  shows "live_bytes f = Some (drop c (wf_wal f))"
  using assms by (simp add: live_bytes_def recover_unfinished_compaction_def recover_steps_def remove_compaction_state_def)

lemma live_bytes_pending:
  assumes "read_compaction_state (wf_state f) = Inr (Some s)" and "wf_tmp f \<noteq> None"
    and "cs_offset s \<le> length (wf_wal f)"
  shows "live_bytes f = Some (drop (cs_offset s) (wf_wal f))"
  using assms read_write_checkpoint [OF read_compaction_state_offset [OF assms(1)]]
  by (auto simp: live_bytes_def recover_unfinished_compaction_def recover_steps_def remove_compaction_state_def
      restore_steps_def Let_def)

text \<open>What a compaction can be found at, the half-copied file included.\<close>

definition compaction_crashes :: "nat \<Rightarrow> wal_files \<Rightarrow> wal_files set" where
  "compaction_crashes offset f =
     {f} \<union> {f\<lparr>wf_tmp := Some p\<rparr> |p. True} \<union> set (compact_steps (length (wf_wal f)) offset f)"

lemma live_bytes_compact_steps:
  assumes "wf_state f = None" and "read_checkpoint (wf_ckpt f) = Some c"
    and "c \<le> length (wf_wal f)" and "offset \<le> length (wf_wal f)" and "length (wf_wal f) < 2 ^ 64"
    and "g \<in> compaction_crashes offset f"
  shows "live_bytes g = Some (drop c (wf_wal f)) \<or> live_bytes g = Some (drop offset (wf_wal f))"
proof -
  let ?n = "length (wf_wal f)"
  let ?s = "\<lparr>cs_offset = offset, cs_source = ?n, cs_retained = ?n - offset\<rparr>"
  have st: "read_compaction_state (Some (write_compaction_state ?s)) = Inr (Some ?s)"
    using assms by (intro read_write_compaction_state) simp_all
  have z: "read_checkpoint (Some (write_checkpoint 0)) = Some 0" by (rule read_write_checkpoint) simp
  consider "g = f" | p where "g = f\<lparr>wf_tmp := p\<rparr>"
    | "wf_state g = Some (write_compaction_state ?s)" "wf_tmp g \<noteq> None" "wf_wal g = wf_wal f"
    | "wf_state g = Some (write_compaction_state ?s)" "wf_tmp g = None" "wf_wal g = drop offset (wf_wal f)"
      "wf_ckpt g = Some (write_checkpoint 0)"
    | "wf_state g = None" "wf_wal g = drop offset (wf_wal f)" "wf_ckpt g = Some (write_checkpoint 0)"
    using assms(6) by (auto simp: compaction_crashes_def compact_steps_def Let_def remove_compaction_state_def)
  then show ?thesis
  proof cases
    case 1
    then show ?thesis using live_bytes_clean [of f c] assms by simp
  next
    case 2
    then show ?thesis using live_bytes_clean [of g c] assms by simp
  next
    case 3
    then show ?thesis using live_bytes_pending [of g ?s] st assms by simp
  next
    case 4
    then show ?thesis using live_bytes_renamed [of g ?s 0] st z by simp
  next
    case 5
    then show ?thesis using live_bytes_clean [of g 0] z by simp
  qed
qed

text \<open>A restart that is itself interrupted, behind any of its steps and any number of times, is restarted to
  the same bytes.\<close>

inductive restarts :: "wal_files \<Rightarrow> wal_files \<Rightarrow> bool" for f where
  crashed: "restarts f f"
| restarted: "restarts f g \<Longrightarrow> recover_steps g = Inr ss \<Longrightarrow> h \<in> set ss \<Longrightarrow> restarts f h"

lemma live_bytes_recover_steps:
  assumes "recover_steps f = Inr ss" and "g \<in> set ss" and "live_bytes f = Some b"
  shows "live_bytes g = Some b"
proof -
  obtain s where s: "read_compaction_state (wf_state f) = Inr (Some s)"
    using assms(1,2) by (auto simp: recover_steps_def split: sum.splits option.splits)
  note off = read_write_checkpoint [OF read_compaction_state_offset [OF s]]
  show ?thesis
  proof (cases "wf_tmp f = None")
    case True
    then have "ss = [remove_compaction_state f]" using s assms(1) by (simp add: recover_steps_def)
    then show ?thesis
      using assms(2,3) s True
      by (simp add: live_bytes_def recover_unfinished_compaction_def recover_steps_def remove_compaction_state_def)
  next
    case False
    then have "ss = restore_steps s f" using s assms(1) by (auto simp: recover_steps_def)
    then show ?thesis
      using assms(2,3) s False off
      by (auto simp: live_bytes_def recover_unfinished_compaction_def recover_steps_def remove_compaction_state_def
          restore_steps_def Let_def split: if_splits)
  qed
qed

lemma live_bytes_restarts: "restarts f g \<Longrightarrow> live_bytes f = Some b \<Longrightarrow> live_bytes g = Some b"
  by (induction rule: restarts.induct) (auto intro: live_bytes_recover_steps)

text \<open>The same where an earlier compaction left its intent: that is undone or finished first.\<close>

definition compact_wal_crashes :: "nat \<Rightarrow> wal_files \<Rightarrow> wal_files set" where
  "compact_wal_crashes offset f =
     (case read_compaction_state (wf_state f) of
        Inl _ \<Rightarrow> {f}
      | Inr None \<Rightarrow> compaction_crashes offset f
      | Inr (Some s) \<Rightarrow>
          if wf_tmp f \<noteq> None then
            (if length (wf_wal f) < cs_source s then {f}
             else set (f # restore_steps s f) \<union> compaction_crashes offset (last (restore_steps s f)))
          else {f, remove_compaction_state f})"

lemma run_steps_among: "snd (run_steps stop f ss) \<in> set (f # ss)"
proof -
  have "last (f # ss) \<in> set (f # ss)" by (rule last_in_set) simp
  moreover have "n \<le> length ss \<Longrightarrow> (f # ss) ! n \<in> set (f # ss)" for n by (rule nth_mem) simp
  ultimately show ?thesis by (cases stop) (simp_all only: run_steps_def option.case snd_conv split: if_splits, simp)
qed

lemma compact_fresh_among: "offset \<le> length (wf_wal f) \<Longrightarrow> fst (snd (compact_fresh stop (length (wf_wal f)) offset f)) \<in> compaction_crashes offset f"
  using run_steps_among [of stop f "compact_steps (length (wf_wal f)) offset f"]
  by (auto simp: compact_fresh_def compaction_crashes_def split: prod.splits sum.splits)

lemma restore_steps_wal: "g \<in> set (restore_steps s f) \<Longrightarrow> wf_wal g = wf_wal f"
  by (auto simp: restore_steps_def remove_compaction_state_def Let_def)

text \<open>Whatever \<open>compact_wal\<close> leaves is one of these.\<close>

lemma compact_wal_among:
  assumes "offset \<le> length (wf_wal f)"
  shows "fst (snd (compact_wal stop (length (wf_wal f)) offset f)) \<in> compact_wal_crashes offset f"
proof (cases "read_compaction_state (wf_state f)")
  case (Inr x)
  show ?thesis
  proof (cases x)
    case None
    then show ?thesis using Inr compact_fresh_among [OF assms] by (simp add: compact_wal_def compact_wal_crashes_def)
  next
    case (Some s)
    define l where "l = last (restore_steps s f)"
    have l: "l \<in> set (restore_steps s f)" by (simp add: l_def restore_steps_def Let_def)
    then have w: "wf_wal l = wf_wal f" by (rule restore_steps_wal)
    have "run_steps stop f (restore_steps s f) = (Inr u, g) \<Longrightarrow> g = l" for u g
      by (auto simp: run_steps_def l_def restore_steps_def Let_def split: option.splits if_splits)
    moreover have "snd (run_steps stop f (restore_steps s f)) \<in> set (f # restore_steps s f)" by (rule run_steps_among)
    moreover have "fst (snd (compact_fresh st (length (wf_wal f)) offset l)) \<in> compaction_crashes offset l" for st
      using compact_fresh_among [of offset l st] assms w by simp
    moreover have "snd (run_steps stop f [remove_compaction_state f]) \<in> {f, remove_compaction_state f}"
      using run_steps_among [of stop f "[remove_compaction_state f]"] by simp
    ultimately show ?thesis using Inr Some
      by (auto simp: compact_wal_def compact_wal_crashes_def Let_def l_def [symmetric] split: prod.splits sum.splits)
  qed
qed (simp add: compact_wal_def compact_wal_crashes_def)

lemma live_bytes_compact_wal:
  assumes "live_bytes f = Some b" and "offset \<le> length (wf_wal f)" and "length (wf_wal f) < 2 ^ 64"
    and "g \<in> compact_wal_crashes offset f"
  shows "live_bytes g = Some b \<or> live_bytes g = Some (drop offset (wf_wal f))"
proof (cases "read_compaction_state (wf_state f)")
  case (Inl e)
  then show ?thesis using assms(1,4) by (simp add: compact_wal_crashes_def)
next
  case (Inr x)
  show ?thesis
  proof (cases x)
    case None
    have r: "recover_unfinished_compaction h = Inr h" if "read_compaction_state (wf_state h) = Inr None" for h
      using that by (simp add: recover_unfinished_compaction_def recover_steps_def)
    have n: "wf_state f = None" using Inr None by (auto simp: read_compaction_state_def split: option.splits if_splits)
    obtain c where c: "read_checkpoint (wf_ckpt f) = Some c" "c \<le> length (wf_wal f)" "b = drop c (wf_wal f)"
      using assms(1) r [of f] Inr None by (auto simp: live_bytes_def split: option.splits if_splits)
    then show ?thesis
      using live_bytes_compact_steps [OF n c(1) c(2) assms(2,3)] assms(4) Inr None by (auto simp: compact_wal_crashes_def)
  next
    case (Some s)
    have rec: "recover_steps f = Inr (if wf_tmp f = None then [remove_compaction_state f] else restore_steps s f)"
      using Inr Some by (simp add: recover_steps_def)
    show ?thesis
    proof (cases "g \<in> set (f # (if wf_tmp f = None then [remove_compaction_state f] else restore_steps s f))")
      case True
      then show ?thesis using live_bytes_recover_steps [OF rec _ assms(1)] assms(1) by auto
    next
      case False
      define l where "l = last (restore_steps s f)"
      have g: "g \<in> compaction_crashes offset l" and t: "wf_tmp f \<noteq> None"
        using assms(4) False Inr Some by (auto simp: compact_wal_crashes_def l_def split: if_splits)
      have l: "l \<in> set (restore_steps s f)" by (simp add: l_def restore_steps_def Let_def)
      then have lb: "live_bytes l = Some b" using live_bytes_recover_steps [OF rec _ assms(1)] t by simp
      have w: "wf_wal l = wf_wal f" using l by (rule restore_steps_wal)
      have n: "wf_state l = None" by (simp add: l_def restore_steps_def Let_def remove_compaction_state_def)
      have "recover_unfinished_compaction l = Inr l" using n by (simp add: recover_unfinished_compaction_def recover_steps_def)
      then obtain c where c: "read_checkpoint (wf_ckpt l) = Some c" "c \<le> length (wf_wal l)" "b = drop c (wf_wal l)"
        using lb by (auto simp: live_bytes_def split: option.splits if_splits)
      then show ?thesis using live_bytes_compact_steps [OF n c(1,2) _ _ g] assms(2,3) w by simp
    qed
  qed
qed

subsection \<open>Retrying\<close>

definition append_wal :: "bytes \<Rightarrow> wal_files \<Rightarrow> wal_files" where
  "append_wal a f = f\<lparr>wf_wal := wf_wal f @ a\<rparr>"

lemma compact_fresh_ok:
  assumes "offset \<le> length (wf_wal f)"
  shows "\<exists>f'. compact_fresh None (length (wf_wal f)) offset f = (Inr (), f', length (wf_wal f')) \<and>
     wf_wal f' = drop offset (wf_wal f) \<and> wf_state f' = None \<and> wf_ckpt f' = Some (write_checkpoint 0)"
  using assms by (simp add: compact_fresh_def run_steps_def compact_steps_def Let_def remove_compaction_state_def)

lemma compact_wal_pending:
  assumes "read_compaction_state (wf_state f) = Inr (Some s)" and "wf_tmp f \<noteq> None"
    and "cs_source s \<le> length (wf_wal f)" and "offset \<le> length (wf_wal f)"
  shows "\<exists>f'. compact_wal None good offset f = (Inr (), f', length (wf_wal f')) \<and>
     wf_wal f' = drop offset (wf_wal f) \<and> wf_state f' = None \<and> wf_ckpt f' = Some (write_checkpoint 0)"
proof -
  let ?g = "last (f # restore_steps s f)"
  have g: "wf_wal ?g = wf_wal f" by (simp add: restore_steps_def Let_def remove_compaction_state_def)
  have "compact_wal None good offset f = compact_fresh None (length (wf_wal ?g)) offset ?g"
    using assms g by (simp add: compact_wal_def Let_def run_steps_def)
  then show ?thesis using compact_fresh_ok [of offset ?g] assms(4) g by simp
qed

text \<open>
  Whatever step a compaction failed at and whatever was appended since, the same offset
  retried retires that prefix once.
\<close>

lemma compact_wal_retry:
  assumes "wf_state f = None" and "offset \<le> length (wf_wal f)" and "length (wf_wal f) < 2 ^ 64"
    and "g \<in> compaction_crashes offset f" and "wf_state g \<noteq> None \<or> wf_wal g = wf_wal f"
  shows "\<exists>f'. compact_wal None (length (wf_wal (append_wal a g))) offset (append_wal a g)
       = (Inr (), f', length (wf_wal f')) \<and>
     wf_wal f' = drop offset (wf_wal f) @ a \<and> wf_state f' = None \<and>
     (wf_ckpt f' = Some (write_checkpoint 0))"
proof -
  let ?n = "length (wf_wal f)"
  let ?s = "\<lparr>cs_offset = offset, cs_source = ?n, cs_retained = ?n - offset\<rparr>"
  have st: "read_compaction_state (Some (write_compaction_state ?s)) = Inr (Some ?s)"
    using assms by (intro read_write_compaction_state) simp_all
  consider "wf_state g = None" "wf_wal g = wf_wal f"
    | "wf_state g = Some (write_compaction_state ?s)" "wf_tmp g \<noteq> None" "wf_wal g = wf_wal f"
    | "wf_state g = Some (write_compaction_state ?s)" "wf_tmp g = None" "wf_wal g = drop offset (wf_wal f)"
      "wf_ckpt g = Some (write_checkpoint 0)"
    using assms(1,4,5) by (auto simp: compaction_crashes_def compact_steps_def Let_def remove_compaction_state_def)
  then show ?thesis
  proof cases
    case 1
    then have "compact_wal None (length (wf_wal (append_wal a g))) offset (append_wal a g)
        = compact_fresh None (length (wf_wal (append_wal a g))) offset (append_wal a g)"
      by (simp add: compact_wal_def append_wal_def)
    then show ?thesis
      using compact_fresh_ok [of offset "append_wal a g"] 1 assms(2) by (simp add: append_wal_def)
  next
    case 2
    then show ?thesis
      using compact_wal_pending [of "append_wal a g" ?s offset "length (wf_wal (append_wal a g))"] st assms(2)
      by (simp add: append_wal_def)
  next
    case 3
    then show ?thesis
      using st assms(2)
      by (simp add: compact_wal_def append_wal_def Let_def run_steps_def remove_compaction_state_def)
  qed
qed

end
