(* ===== verification/WalWriter.thy ===== *)
theory WalWriter
  imports Replay WalCompaction
begin

text \<open>
  \<open>signy/src/journal/writer.rs\<close>: the one task that writes the log. It takes what has
  arrived, frames it into one buffer with the marks behind the records, writes and syncs it
  once, and only then lets memory, the marks and the callers know. What the device does in a
  round is the round's environment.
\<close>

subsection \<open>Commands\<close>

record ('l, 't, 'm) append_item =
  ai_kind :: u8
  ai_payload :: bytes
  ai_tenant :: "tenant_id option"
  ai_entries :: "'l list"
  ai_traces :: "'t list"
  ai_samples :: "'m list"
  ai_permit :: nat
  ai_mark :: "collect_mark option"
  ai_done :: nat

datatype ('l, 't, 'm) wal_cmd =
    CmdAppend "('l, 't, 'm) append_item"
  | CmdAppendBatch "('l, 't, 'm) append_item list"
  | CmdCheckpoint nat
  | CmdCompact nat nat

definition item_len :: "('l, 't, 'm) append_item \<Rightarrow> nat" where
  "item_len it =
     (case ai_tenant it of None \<Rightarrow> 0 | Some t \<Rightarrow> framed_record_len t (ai_payload it))
     + (case ai_mark it of None \<Rightarrow> 0 | Some _ \<Rightarrow> record_header_size + mark_record_bytes)"

definition items_len :: "('l, 't, 'm) append_item list \<Rightarrow> nat" where
  "items_len its = fold (\<lambda>it n. saturating_add_u64 n (item_len it)) its 0"

subsection \<open>Handing an export to the writer\<close>

definition enqueue_append :: "('l, 't, 'm) append_item \<Rightarrow> wal_error + ('l, 't, 'm) wal_cmd" where
  "enqueue_append it =
     (let framed_len = (case ai_tenant it of None \<Rightarrow> 0 | Some t \<Rightarrow> framed_record_len t (ai_payload it))
      in if framed_len > max_record_bytes then Inl WalInvalidInput else Inr (CmdAppend it))"

definition enqueue_otlp_logs ::
    "(bytes \<Rightarrow> bytes) \<Rightarrow> nat \<Rightarrow> tenant_id \<Rightarrow> bytes \<Rightarrow> 'l list \<Rightarrow> collect_mark option \<Rightarrow>
       wal_error + ('l, 't, 'm) wal_cmd" where
  "enqueue_otlp_logs pack done tenant data entries mark =
     enqueue_append \<lparr>ai_kind = kind_otlp_logs, ai_payload = pack data, ai_tenant = Some tenant,
       ai_entries = entries, ai_traces = [], ai_samples = [], ai_permit = 0, ai_mark = mark, ai_done = done\<rparr>"

definition enqueue_trace ::
    "(bytes \<Rightarrow> bytes) \<Rightarrow> nat \<Rightarrow> tenant_id \<Rightarrow> bytes \<Rightarrow> 't list \<Rightarrow> collect_mark option \<Rightarrow>
       wal_error + ('l, 't, 'm) wal_cmd" where
  "enqueue_trace pack done tenant data spans mark =
     enqueue_append \<lparr>ai_kind = kind_traces, ai_payload = pack data, ai_tenant = Some tenant,
       ai_entries = [], ai_traces = spans, ai_samples = [], ai_permit = 0, ai_mark = mark, ai_done = done\<rparr>"

definition enqueue_metrics ::
    "(bytes \<Rightarrow> bytes) \<Rightarrow> nat \<Rightarrow> tenant_id \<Rightarrow> bytes \<Rightarrow> 'm list \<Rightarrow> collect_mark option \<Rightarrow>
       wal_error + ('l, 't, 'm) wal_cmd" where
  "enqueue_metrics pack done tenant data samples mark =
     enqueue_append \<lparr>ai_kind = kind_otlp_metrics, ai_payload = pack data, ai_tenant = Some tenant,
       ai_entries = [], ai_traces = [], ai_samples = samples, ai_permit = 0, ai_mark = mark, ai_done = done\<rparr>"

definition enqueue_mark :: "nat \<Rightarrow> collect_mark \<Rightarrow> wal_error + ('l, 't, 'm) wal_cmd" where
  "enqueue_mark done mark =
     enqueue_append \<lparr>ai_kind = kind_otlp_logs, ai_payload = [], ai_tenant = None,
       ai_entries = [], ai_traces = [], ai_samples = [], ai_permit = 0, ai_mark = Some mark, ai_done = done\<rparr>"

text \<open>One tenant's part of a metric export; the parts travel as one command or not at all.\<close>

record 'm reserved_append =
  ra_tenant :: tenant_id
  ra_data :: bytes
  ra_samples :: "'m list"
  ra_mark :: "collect_mark option"
  ra_permit :: nat
  ra_done :: nat

fun reserved_items ::
    "(bytes \<Rightarrow> bytes) \<Rightarrow> 'm reserved_append list \<Rightarrow> wal_error + ('l, 't, 'm) append_item list" where
  "reserved_items pack [] = Inr []"
| "reserved_items pack (r # rs) =
     (let payload = pack (ra_data r) in
      if framed_record_len (ra_tenant r) payload > max_record_bytes then Inl WalInvalidInput
      else (case reserved_items pack rs of
              Inl e \<Rightarrow> Inl e
            | Inr its \<Rightarrow>
                Inr (\<lparr>ai_kind = kind_otlp_metrics, ai_payload = payload, ai_tenant = Some (ra_tenant r),
                      ai_entries = [], ai_traces = [], ai_samples = ra_samples r, ai_permit = ra_permit r,
                      ai_mark = ra_mark r, ai_done = ra_done r\<rparr> # its)))"

definition enqueue_metrics_reserved_batch ::
    "(bytes \<Rightarrow> bytes) \<Rightarrow> 'm reserved_append list \<Rightarrow> wal_error + ('l, 't, 'm) wal_cmd option" where
  "enqueue_metrics_reserved_batch pack records =
     (if records = [] then Inr None
      else (case reserved_items pack records of Inl e \<Rightarrow> Inl e | Inr its \<Rightarrow> Inr (Some (CmdAppendBatch its))))"

subsection \<open>What one round takes\<close>

record ('l, 't, 'm) taken =
  tk_batch :: "('l, 't, 'm) append_item list"
  tk_checkpoint :: "nat option"
  tk_compact :: "(nat \<times> nat) option"
  tk_rest :: "('l, 't, 'm) wal_cmd list"

text \<open>
  \<open>cmds\<close> is what the channel yields before the linger is over. A checkpoint or a compaction
  ends the batch, and so does a batch that has reached its size.
\<close>

fun gather :: "nat \<Rightarrow> nat \<Rightarrow> ('l, 't, 'm) wal_cmd list \<Rightarrow> ('l, 't, 'm) taken" where
  "gather max_batch batch_bytes [] = \<lparr>tk_batch = [], tk_checkpoint = None, tk_compact = None, tk_rest = []\<rparr>"
| "gather max_batch batch_bytes (cmd # cmds) =
     (if \<not> batch_bytes < max_batch then
        \<lparr>tk_batch = [], tk_checkpoint = None, tk_compact = None, tk_rest = cmd # cmds\<rparr>
      else
        (case cmd of
           CmdAppend it \<Rightarrow>
             (let r = gather max_batch (saturating_add_u64 batch_bytes (item_len it)) cmds
              in r\<lparr>tk_batch := it # tk_batch r\<rparr>)
         | CmdAppendBatch its \<Rightarrow>
             (let r = gather max_batch (saturating_add_u64 batch_bytes (items_len its)) cmds
              in r\<lparr>tk_batch := its @ tk_batch r\<rparr>)
         | CmdCheckpoint done \<Rightarrow>
             \<lparr>tk_batch = [], tk_checkpoint = Some done, tk_compact = None, tk_rest = cmds\<rparr>
         | CmdCompact offset done \<Rightarrow>
             \<lparr>tk_batch = [], tk_checkpoint = None, tk_compact = Some (offset, done), tk_rest = cmds\<rparr>))"

definition take_commands :: "nat \<Rightarrow> ('l, 't, 'm) wal_cmd \<Rightarrow> ('l, 't, 'm) wal_cmd list \<Rightarrow> ('l, 't, 'm) taken" where
  "take_commands max_batch first cmds =
     (case first of
        CmdAppend it \<Rightarrow>
          (let r = gather max_batch (item_len it) cmds in r\<lparr>tk_batch := it # tk_batch r\<rparr>)
      | CmdAppendBatch its \<Rightarrow>
          (let r = gather max_batch (items_len its) cmds in r\<lparr>tk_batch := its @ tk_batch r\<rparr>)
      | CmdCheckpoint done \<Rightarrow>
          \<lparr>tk_batch = [], tk_checkpoint = Some done, tk_compact = None, tk_rest = cmds\<rparr>
      | CmdCompact offset done \<Rightarrow>
          \<lparr>tk_batch = [], tk_checkpoint = None, tk_compact = Some (offset, done), tk_rest = cmds\<rparr>)"

subsection \<open>The buffer of a batch\<close>

text \<open>The first mark of the batch with the same sender takes the higher position.\<close>

fun merge_mark :: "collect_mark \<Rightarrow> collect_mark list \<Rightarrow> collect_mark list" where
  "merge_mark mark [] = [mark]"
| "merge_mark mark (s # ss) =
     (if cm_sender s = cm_sender mark then s\<lparr>cm_at := max (cm_at s) (cm_at mark)\<rparr> # ss
      else s # merge_mark mark ss)"

definition batch_marks :: "('l, 't, 'm) append_item list \<Rightarrow> collect_mark list" where
  "batch_marks items = fold merge_mark (List.map_filter ai_mark items) []"

definition item_record :: "('l, 't, 'm) append_item \<Rightarrow> bytes option" where
  "item_record it = map_option (\<lambda>t. frame_tenant_record t (ai_kind it) (ai_payload it)) (ai_tenant it)"

definition batch_records :: "('l, 't, 'm) append_item list \<Rightarrow> bytes list" where
  "batch_records items = List.map_filter item_record items @ map frame_mark (batch_marks items)"

definition batch_buffer :: "(bytes \<Rightarrow> u32) \<Rightarrow> ('l, 't, 'm) append_item list \<Rightarrow> bytes option" where
  "batch_buffer crc items =
     (if list_all (\<lambda>d. length d < 2 ^ 32) (List.map_filter item_record items)
      then Some (concat (map (wal_record crc) (batch_records items))) else None)"

subsection \<open>The writer's state\<close>

record ('l, 't, 'm) wal_writer =
  w_files :: wal_files
  w_good :: nat
  w_backlog :: wal_backlog
  w_marks :: collect_marks
  w_marks_file :: "bytes option"
  w_sink :: "('l, 't, 'm) sink"
  w_reserved :: nat
  w_batches :: nat
  w_batched :: nat
  w_answers :: "(nat \<times> bool) list"

datatype write_outcome = WriteDone | WriteFailed nat bool

record round_env =
  re_now :: nat
  re_write :: write_outcome
  re_sync :: bool
  re_store :: bool
  re_stop :: "nat option"
  re_reopen :: bool

definition insert_item :: "('l, 't, 'm) append_item \<Rightarrow> ('l, 't, 'm) sink \<Rightarrow> ('l, 't, 'm) sink" where
  "insert_item it k =
     insert_metrics (ai_samples it)
       (insert_traces (ai_traces it)
         (case ai_tenant it of None \<Rightarrow> k | Some t \<Rightarrow> insert_logs t (ai_entries it) k))"

definition set_wal :: "bytes \<Rightarrow> ('l, 't, 'm) wal_writer \<Rightarrow> ('l, 't, 'm) wal_writer" where
  "set_wal bs w = w\<lparr>w_files := (w_files w)\<lparr>wf_wal := bs\<rparr>\<rparr>"

definition answer :: "nat list \<Rightarrow> bool \<Rightarrow> ('l, 't, 'm) wal_writer \<Rightarrow> ('l, 't, 'm) wal_writer" where
  "answer ids ok w = w\<lparr>w_answers := w_answers w @ map (\<lambda>i. (i, ok)) ids\<rparr>"

text \<open>
  A batch. \<open>Inl\<close> is the writer fenced off: the state is what it leaves. Dropping an item
  gives its permit back whichever way the batch goes.
\<close>

definition write_batch ::
    "(bytes \<Rightarrow> u32) \<Rightarrow> round_env \<Rightarrow> ('l, 't, 'm) append_item list \<Rightarrow> ('l, 't, 'm) wal_writer \<Rightarrow>
       ('l, 't, 'm) wal_writer + ('l, 't, 'm) wal_writer" where
  "write_batch crc env items w =
     (if items = [] then Inr w
      else
        (let w1 = w\<lparr>w_batches := w_batches w + 1, w_batched := w_batched w + length items\<rparr>;
             released = fold permit_drop (map ai_permit items) (w_reserved w)
         in
         case batch_buffer crc items of
           None \<Rightarrow> Inl w1
         | Some buf \<Rightarrow>
             (case re_write env of
                WriteDone \<Rightarrow>
                  (let good = w_good w + length buf
                   in Inr (answer (map ai_done items) True
                     ((set_wal (wf_wal (w_files w) @ buf) w1)
                       \<lparr>w_good := good, w_backlog := (w_backlog w)\<lparr>wb_wal := good\<rparr>,
                        w_marks := advance_all (re_now env) (batch_marks items) (w_marks w),
                        w_sink := fold insert_item items (w_sink w), w_reserved := released\<rparr>)))
              | WriteFailed k truncated \<Rightarrow>
                  (let w2 = answer (map ai_done items) False
                         ((set_wal (wf_wal (w_files w) @ take k buf) w1)\<lparr>w_reserved := released\<rparr>)
                   in if truncated
                      then Inr ((set_wal (take (w_good w) (wf_wal (w_files w) @ take k buf)) w2)
                                 \<lparr>w_backlog := (w_backlog w)\<lparr>wb_wal := w_good w\<rparr>\<rparr>)
                      else Inl w2))))"

definition checkpoint_step ::
    "(bytes \<Rightarrow> u32) \<Rightarrow> round_env \<Rightarrow> nat option \<Rightarrow> ('l, 't, 'm) wal_writer \<Rightarrow>
       ('l, 't, 'm) wal_writer + ('l, 't, 'm) wal_writer \<times> (nat \<times> ('l, 't, 'm) sink) option" where
  "checkpoint_step crc env pending w =
     (case pending of
        None \<Rightarrow> Inr (w, None)
      | Some done \<Rightarrow>
          if \<not> re_sync env then Inl (answer [done] False w)
          else
            (case marks_store crc (re_now env) (w_marks w) of (bs, live) \<Rightarrow>
               Inr (answer [done] True
                      (w\<lparr>w_marks := live, w_marks_file := (if re_store env then Some bs else w_marks_file w)\<rparr>),
                    Some (w_good w, w_sink w))))"

definition compact_step ::
    "round_env \<Rightarrow> (nat \<times> nat) option \<Rightarrow> ('l, 't, 'm) wal_writer \<Rightarrow>
       ('l, 't, 'm) wal_writer + ('l, 't, 'm) wal_writer" where
  "compact_step env pending w =
     (case pending of
        None \<Rightarrow> Inr w
      | Some (offset, done) \<Rightarrow>
          (case compact_wal (re_stop env) (w_good w) offset (w_files w) of
             (Inr _, f, good) \<Rightarrow>
               Inr (answer [done] True
                 (w\<lparr>w_files := f, w_good := good, w_backlog := \<lparr>wb_wal = good, wb_checkpoint = 0\<rparr>\<rparr>))
           | (Inl _, f, _) \<Rightarrow>
               (let w1 = answer [done] False (w\<lparr>w_files := f\<rparr>); len = length (wf_wal f)
                in if re_reopen env
                   then Inr (w1\<lparr>w_good := len,
                          w_backlog := \<lparr>wb_wal = len,
                            wb_checkpoint = (case read_checkpoint (wf_ckpt f) of None \<Rightarrow> 0 | Some c \<Rightarrow> c)\<rparr>\<rparr>)
                   else Inl w1)))"

definition writer_round ::
    "(bytes \<Rightarrow> u32) \<Rightarrow> nat \<Rightarrow> round_env \<Rightarrow> ('l, 't, 'm) wal_cmd \<Rightarrow> ('l, 't, 'm) wal_cmd list \<Rightarrow>
       ('l, 't, 'm) wal_writer \<Rightarrow> ('l, 't, 'm) wal_writer + ('l, 't, 'm) wal_writer \<times> ('l, 't, 'm) wal_cmd list" where
  "writer_round crc max_batch env first cmds w =
     (let tk = take_commands max_batch first cmds in
      case write_batch crc env (tk_batch tk) w of
        Inl w1 \<Rightarrow> Inl w1
      | Inr w1 \<Rightarrow>
          (case checkpoint_step crc env (tk_checkpoint tk) w1 of
             Inl w2 \<Rightarrow> Inl w2
           | Inr (w2, _) \<Rightarrow>
               (case compact_step env (tk_compact tk) w2 of
                  Inl w3 \<Rightarrow> Inl w3
                | Inr w3 \<Rightarrow> Inr (w3, tk_rest tk))))"

text \<open>
  The loop: each round has its environment and what arrives for it behind what is already
  waiting. A round with nothing waiting is not taken.
\<close>

fun writer_loop ::
    "(bytes \<Rightarrow> u32) \<Rightarrow> nat \<Rightarrow> (round_env \<times> ('l, 't, 'm) wal_cmd list) list \<Rightarrow> ('l, 't, 'm) wal_cmd list \<Rightarrow>
       ('l, 't, 'm) wal_writer \<Rightarrow> ('l, 't, 'm) wal_writer + ('l, 't, 'm) wal_writer" where
  "writer_loop crc max_batch [] queue w = Inr w"
| "writer_loop crc max_batch ((env, arrived) # rounds) queue w =
     (case queue @ arrived of
        [] \<Rightarrow> writer_loop crc max_batch rounds [] w
      | first # cmds \<Rightarrow>
          (case writer_round crc max_batch env first cmds w of
             Inl w' \<Rightarrow> Inl w'
           | Inr (w', rest) \<Rightarrow> writer_loop crc max_batch rounds rest w'))"

end
