(* ===== verification/WalLaws.thy ===== *)
theory WalLaws
  imports WalWriter
begin

text \<open>
  What the writer and the replay owe each other: a batch's buffer replays to what the batch
  put in memory, and a batch cut anywhere replays to a run of its records from the front,
  with no mark until every record is there.
\<close>

subsection \<open>Items as the enqueuing side makes them\<close>

definition item_rows :: "('l, 't, 'm) codec \<Rightarrow> ('l, 't, 'm) append_item \<Rightarrow> tenant_id \<Rightarrow> bytes \<Rightarrow> bool" where
  "item_rows c it t data \<longleftrightarrow>
     (ai_kind it = kind_otlp_logs \<and> ai_traces it = [] \<and> ai_samples it = [] \<and> c_logs c data = Rows (ai_entries it) \<or>
      ai_kind it = kind_traces \<and> ai_entries it = [] \<and> ai_samples it = [] \<and> c_traces c t data = Some (ai_traces it) \<or>
      ai_kind it = kind_otlp_metrics \<and> ai_entries it = [] \<and> ai_traces it = [] \<and>
        c_metrics c t data = Rows (ai_samples it))"

definition item_ok :: "('l, 't, 'm) codec \<Rightarrow> ('l, 't, 'm) append_item \<Rightarrow> bool" where
  "item_ok c it \<longleftrightarrow>
     (case ai_mark it of None \<Rightarrow> True | Some m \<Rightarrow> mark_ok m) \<and>
     (case ai_tenant it of
        None \<Rightarrow> ai_entries it = [] \<and> ai_traces it = [] \<and> ai_samples it = []
      | Some t \<Rightarrow> is_tenant t \<and> framed_record_len t (ai_payload it) \<le> max_record_bytes \<and>
          (\<exists>data. decompress_payload c (ai_payload it) = Some data \<and> item_rows c it t data))"

lemma enqueue_append_item:
  "enqueue_append it = Inr cmd \<Longrightarrow> cmd = CmdAppend it \<and>
     (case ai_tenant it of None \<Rightarrow> True | Some t \<Rightarrow> framed_record_len t (ai_payload it) \<le> max_record_bytes)"
  by (auto simp: enqueue_append_def Let_def split: option.splits if_splits)

lemma unpacked_payload:
  "c_unzip c payload = Some data \<Longrightarrow> length data \<le> max_record_bytes \<Longrightarrow>
     decompress_payload c payload = Some data"
  by (simp add: decompress_payload_def)

lemma enqueue_otlp_logs_ok:
  assumes "enqueue_otlp_logs pack d t data entries mark = Inr (CmdAppend it)"
    and "c_unzip c (pack data) = Some data" and "length data \<le> max_record_bytes"
    and "c_logs c data = Rows entries" and "is_tenant t" and "case mark of None \<Rightarrow> True | Some m \<Rightarrow> mark_ok m"
  shows "item_ok c it"
proof -
  note e = enqueue_append_item [OF assms(1) [unfolded enqueue_otlp_logs_def]]
  then show ?thesis
    using assms(4-6) unpacked_payload [OF assms(2,3)] by (auto simp: item_ok_def item_rows_def)
qed

lemma enqueue_trace_ok:
  assumes "enqueue_trace pack d t data spans mark = Inr (CmdAppend it)"
    and "c_unzip c (pack data) = Some data" and "length data \<le> max_record_bytes"
    and "c_traces c t data = Some spans" and "is_tenant t" and "case mark of None \<Rightarrow> True | Some m \<Rightarrow> mark_ok m"
  shows "item_ok c it"
proof -
  note e = enqueue_append_item [OF assms(1) [unfolded enqueue_trace_def]]
  then show ?thesis
    using assms(4-6) unpacked_payload [OF assms(2,3)] by (auto simp: item_ok_def item_rows_def)
qed

lemma enqueue_metrics_ok:
  assumes "enqueue_metrics pack d t data samples mark = Inr (CmdAppend it)"
    and "c_unzip c (pack data) = Some data" and "length data \<le> max_record_bytes"
    and "c_metrics c t data = Rows samples" and "is_tenant t" and "case mark of None \<Rightarrow> True | Some m \<Rightarrow> mark_ok m"
  shows "item_ok c it"
proof -
  note e = enqueue_append_item [OF assms(1) [unfolded enqueue_metrics_def]]
  then show ?thesis
    using assms(4-6) unpacked_payload [OF assms(2,3)] by (auto simp: item_ok_def item_rows_def)
qed

lemma enqueue_mark_ok: "enqueue_mark d mark = Inr (CmdAppend it) \<Longrightarrow> mark_ok mark \<Longrightarrow> item_ok c it"
  by (auto simp: enqueue_mark_def enqueue_append_def item_ok_def)

subsection \<open>Records of a batch\<close>

lemma replay_record_item:
  assumes ok: "item_ok c it" and r: "item_record it = Some d"
  shows "\<exists>st'. replay_record c now offset d st = Inr st' \<and> rs_sink st' = insert_item it (rs_sink st)
    \<and> rs_marks st' = rs_marks st \<and> length d \<le> max_record_bytes"
proof -
  obtain t where t: "ai_tenant it = Some t" "d = frame_tenant_record t (ai_kind it) (ai_payload it)"
    using r by (auto simp: item_record_def)
  with ok have tok: "is_tenant t" "framed_record_len t (ai_payload it) \<le> max_record_bytes"
    by (simp_all add: item_ok_def)
  obtain data where data: "decompress_payload c (ai_payload it) = Some data" "item_rows c it t data"
    using ok t by (auto simp: item_ok_def)
  have "length d \<le> max_record_bytes" using tok t by (simp add: length_frame_tenant_record)
  then show ?thesis
    using data decode_frame_tenant_record [OF tok(1)] decode_mark_tenant_record t
    by (auto simp: replay_record_def item_rows_def kind_defs replay_otlp_log_record_def replay_trace_record_def
        replay_otlp_metric_record_def insert_item_def insert_logs_def insert_traces_def insert_metrics_def)
qed

lemma insert_item_no_tenant: "item_ok c it \<Longrightarrow> item_record it = None \<Longrightarrow> insert_item it k = k"
  by (auto simp: item_record_def item_ok_def insert_item_def insert_traces_def insert_metrics_def)

lemma replay_records_items:
  assumes "list_all (item_ok c) items"
  shows "\<exists>st'. replay_records c now offset (List.map_filter item_record items) st = Inr st' \<and>
     rs_sink st' = fold insert_item items (rs_sink st) \<and> rs_marks st' = rs_marks st"
  using assms
proof (induction items arbitrary: offset st)
  case Nil
  then show ?case by simp
next
  case (Cons it items)
  show ?case
  proof (cases "item_record it")
    case None
    then show ?thesis
      using Cons.IH [of offset st] Cons.prems insert_item_no_tenant [of c it] by simp
  next
    case (Some d)
    obtain s1 where s1: "replay_record c now offset d st = Inr s1"
      "rs_sink s1 = insert_item it (rs_sink st)" "rs_marks s1 = rs_marks st"
      using replay_record_item [of c it d now offset st] Some Cons.prems by auto
    then show ?thesis
      using Some Cons.IH [of "offset + length (wal_record (c_crc c) d)" "s1\<lparr>rs_records := rs_records s1 + 1\<rparr>"]
        Cons.prems by simp
  qed
qed

lemma replay_records_marks:
  assumes "list_all mark_ok ms"
  shows "\<exists>st'. replay_records c now offset (map frame_mark ms) st = Inr st' \<and>
     rs_sink st' = rs_sink st \<and> rs_marks st' = advance_all now ms (rs_marks st)"
  using assms
proof (induction ms arbitrary: offset st)
  case Nil
  then show ?case by simp
next
  case (Cons m ms)
  let ?st = "st\<lparr>rs_marks := marks_advance now m (rs_marks st)\<rparr>"
  have "replay_record c now offset (frame_mark m) st = Inr ?st"
    using Cons.prems decode_mark_frame [of m] by (simp add: replay_record_def)
  then show ?case
    using Cons.IH [of "offset + length (wal_record (c_crc c) (frame_mark m))" "?st\<lparr>rs_records := rs_records ?st + 1\<rparr>"]
      Cons.prems by simp
qed

lemma merge_mark_ok: "mark_ok m \<Longrightarrow> list_all mark_ok ms \<Longrightarrow> list_all mark_ok (merge_mark m ms)"
  by (induction ms) (auto simp: mark_ok_def max_def)

lemma batch_marks_ok:
  assumes "list_all (item_ok c) items"
  shows "list_all mark_ok (batch_marks items)"
proof -
  have "list_all mark_ok (fold merge_mark ms acc)" if "list_all mark_ok ms" "list_all mark_ok acc" for ms acc
    using that by (induction ms arbitrary: acc) (auto simp: merge_mark_ok)
  moreover have "list_all mark_ok (List.map_filter ai_mark items)"
    using assms by (induction items) (auto simp: item_ok_def split: option.splits)
  ultimately show ?thesis by (simp add: batch_marks_def)
qed

lemma batch_records_len:
  assumes "list_all (item_ok c) items"
  shows "list_all (\<lambda>d. length d \<le> max_record_bytes) (batch_records items)"
proof -
  have "list_all (\<lambda>d. length d \<le> max_record_bytes) (List.map_filter item_record items)"
    using assms
    by (induction items) (auto simp: item_ok_def item_record_def length_frame_tenant_record split: option.splits)
  moreover have "list_all (\<lambda>d. length d \<le> max_record_bytes) (map frame_mark (batch_marks items))"
    using batch_marks_ok [OF assms]
    by (auto simp: list_all_iff mark_ok_def length_frame_mark mark_record_bytes_def max_record_bytes_def
        sender_id_bytes_def)
  ultimately show ?thesis by (simp add: batch_records_def)
qed

lemma batch_buffer_ok:
  assumes "list_all (item_ok c) items"
  shows "batch_buffer crc items = Some (concat (map (wal_record crc) (batch_records items)))"
proof -
  have "length d < 2 ^ 32" if "length d \<le> max_record_bytes" for d :: bytes
    using that by (simp add: max_record_bytes_def)
  then have "list_all (\<lambda>d. length d < 2 ^ 32) (List.map_filter item_record items)"
    using batch_records_len [OF assms] unfolding batch_records_def list_all_iff by auto
  then show ?thesis by (simp add: batch_buffer_def)
qed

lemma replay_records_batch:
  assumes "list_all (item_ok c) items"
  shows "\<exists>st'. replay_records c now offset (batch_records items) st = Inr st' \<and>
     rs_sink st' = fold insert_item items (rs_sink st) \<and>
     rs_marks st' = advance_all now (batch_marks items) (rs_marks st)"
proof -
  obtain s1 where s1: "replay_records c now offset (List.map_filter item_record items) st = Inr s1"
    "rs_sink s1 = fold insert_item items (rs_sink st)" "rs_marks s1 = rs_marks st"
    using replay_records_items [OF assms] by blast
  obtain s2 where "replay_records c now (offset + length (wal_records c (List.map_filter item_record items)))
      (map frame_mark (batch_marks items)) s1 = Inr s2"
    "rs_sink s2 = rs_sink s1" "rs_marks s2 = advance_all now (batch_marks items) (rs_marks s1)"
    using replay_records_marks [OF batch_marks_ok [OF assms]] by blast
  with s1 show ?thesis by (simp add: batch_records_def replay_records_append)
qed

subsection \<open>Replaying in pieces\<close>

text \<open>
  A replay that reached the end of the file goes on from there when the file has grown by
  whole records.
\<close>

lemma checked_add_grow:
  "checked_add_u64 a b = Some e \<Longrightarrow> checked_add_u64 a b = Some (a + b)"
  by (auto simp: checked_add_u64_def split: if_splits)

lemma replay_loop_grow:
  assumes "replay_loop c now file_len offset bs st = Inr (file_len, st')" and "offset + length bs = file_len"
    and "file_len + length ext \<le> u64_max"
  shows "replay_loop c now (file_len + length ext) offset (bs @ ext) st
     = replay_loop c now (file_len + length ext) file_len ext st'"
  using assms
proof (induction c now file_len offset bs st rule: replay_loop.induct)
  case (1 c now file_len offset bs st)
  let ?len = "nat_of_le (take 4 bs)"
  show ?case
  proof (cases "length bs < record_header_size")
    case True
    then have "bs = [] \<and> st' = st"
      using "1.prems"(1,2) by (subst (asm) replay_loop.simps) auto
    with "1.prems"(2) show ?thesis by simp
  next
    case long: False
    have l4: "take 4 (bs @ ext) = take 4 bs" "take 4 (drop 4 (bs @ ext)) = take 4 (drop 4 bs)"
      using long by (simp_all add: record_header_size_def)
    have hdr: "offset + record_header_size \<le> file_len" using long "1.prems"(2) by simp
    then have ub: "checked_add_u64 offset record_header_size = Some (offset + record_header_size)"
      using "1.prems"(3) by (simp add: checked_add_u64_def)
    note un = "1.prems"(1) [unfolded replay_loop.simps [of c now file_len offset bs]]
    show ?thesis
    proof (cases "offset + record_header_size + ?len > file_len \<or> ?len > max_record_bytes")
      case True
      then show ?thesis using un long ub hdr "1.prems"(2,3)
        by (auto simp: Let_def checked_add_u64_def record_header_size_def split: if_splits)
    next
      case fits: False
      then have ub2: "checked_add_u64 (offset + record_header_size) ?len = Some (offset + record_header_size + ?len)"
        using "1.prems"(3) by (simp add: checked_add_u64_def)
      let ?data = "take ?len (drop record_header_size bs)"
      have dl: "\<not> length (drop record_header_size bs) < ?len" using fits "1.prems"(2) long by auto
      have crc: "c_crc c ?data = word_of_nat (nat_of_le (take 4 (drop 4 bs)))"
        using un long ub ub2 fits dl "1.prems"(2)
        by (auto simp: Let_def record_header_size_def split: if_splits)
      obtain s1 where s1: "replay_record c now offset ?data st = Inr s1"
        and rec: "replay_loop c now file_len (offset + (record_header_size + ?len)) (drop (record_header_size + ?len) bs)
             (s1\<lparr>rs_records := rs_records s1 + 1\<rparr>) = Inr (file_len, st')"
        using un long ub ub2 fits dl crc by (auto simp: Let_def split: sum.splits)
      have d': "take ?len (drop record_header_size (bs @ ext)) = ?data"
        using dl by (simp add: record_header_size_def)
      have "record_header_size + ?len - length bs = 0" using dl long by simp
      then have rest: "drop (record_header_size + ?len) (bs @ ext) = drop (record_header_size + ?len) bs @ ext"
        by simp
      have IH: "replay_loop c now (file_len + length ext) (offset + (record_header_size + ?len))
            (drop (record_header_size + ?len) bs @ ext) (s1\<lparr>rs_records := rs_records s1 + 1\<rparr>)
          = replay_loop c now (file_len + length ext) file_len ext st'"
        by (rule "1.IH" [OF long refl refl _ _ _ dl refl _ s1 rec])
          (use ub ub2 fits crc dl "1.prems"(2,3) in auto)
      have "replay_loop c now (file_len + length ext) offset (bs @ ext) st
          = replay_loop c now (file_len + length ext) (offset + (record_header_size + ?len))
            (drop (record_header_size + ?len) bs @ ext) (s1\<lparr>rs_records := rs_records s1 + 1\<rparr>)"
        using long ub ub2 fits dl crc s1 l4 d' rest
        by (subst replay_loop.simps) (auto simp: Let_def)
      then show ?thesis using IH by simp
    qed
  qed
qed

end
