(* ===== verification/WalProps.thy ===== *)
theory WalProps
  imports WalLaws
begin

text \<open>
  What the write-ahead log is good for: a log that replays to what is in memory stays one
  through every batch, a batch cut short by a crash never leaves a mark ahead of the records
  it covers, compaction loses nothing wherever it stops, and where each of these fails.
\<close>

subsection \<open>A log that replays to what is in memory\<close>

definition start_state :: "('l, 't, 'm) sink \<Rightarrow> collect_marks \<Rightarrow> ('l, 't, 'm) replay_state" where
  "start_state k m = \<lparr>rs_sink = k, rs_marks = m, rs_records = 0, rs_entries = 0\<rparr>"

text \<open>\<open>k0\<close> and \<open>m0\<close> are what the flushed parts and the marks file give at the checkpoint.\<close>

definition log_matches ::
    "('l, 't, 'm) codec \<Rightarrow> nat \<Rightarrow> ('l, 't, 'm) sink \<Rightarrow> collect_marks \<Rightarrow> ('l, 't, 'm) wal_writer \<Rightarrow> bool" where
  "log_matches c ckpt k0 m0 w \<longleftrightarrow>
     length (wf_wal (w_files w)) = w_good w \<and>
     (\<forall>now. \<exists>st. replay_from c now (Some (wf_wal (w_files w))) ckpt (start_state k0 m0) = Inr (w_good w, st) \<and>
        rs_sink st = w_sink w \<and>
        (\<forall>s g. marks_position (rs_marks st) s g = marks_position (w_marks w) s g))"

lemma replay_from_grow:
  assumes "replay_from c now (Some f) ckpt st0 = Inr (length f, st)"
    and "length f + length ext \<le> u64_max"
  shows "replay_from c now (Some (f @ ext)) ckpt st0 = replay_loop c now (length f + length ext) (length f) ext st"
proof -
  consider "ckpt = length f" "st = st0" | "ckpt < length f"
      "replay_loop c now (length f) ckpt (drop ckpt f) st0 = Inr (length f, st)"
    using assms(1) by (fastforce simp: replay_from_def split: if_splits)
  then show ?thesis
  proof cases
    case 1
    then show ?thesis by (auto simp: replay_from_def replay_loop_Nil)
  next
    case 2
    then show ?thesis
      using replay_loop_grow [OF 2(2) _ assms(2)] by (auto simp: replay_from_def)
  qed
qed

lemma advance_all_cong:
  assumes "\<And>s g. marks_position m s g = marks_position m' s g"
  shows "marks_position (advance_all now ms m) s g = marks_position (advance_all now' ms m') s g"
  using assms by (simp add: advance_all_position)

lemma write_batch_done:
  assumes m: "log_matches c ckpt k0 m0 w" and ok: "list_all (item_ok c) items"
    and b: "w_good w + length (wal_records c (batch_records items)) \<le> u64_max"
  shows "\<exists>st. replay_from c now (Some (wf_wal (w_files w) @ wal_records c (batch_records items))) ckpt (start_state k0 m0)
       = Inr (w_good w + length (wal_records c (batch_records items)), st) \<and>
     rs_sink st = fold insert_item items (w_sink w) \<and>
     (\<forall>s g. marks_position (rs_marks st) s g = marks_position (advance_all now' (batch_marks items) (w_marks w)) s g)"
proof -
  let ?ds = "batch_records items"
  obtain st where st: "replay_from c now (Some (wf_wal (w_files w))) ckpt (start_state k0 m0) = Inr (w_good w, st)"
    "rs_sink st = w_sink w" "\<And>s g. marks_position (rs_marks st) s g = marks_position (w_marks w) s g"
    and len: "length (wf_wal (w_files w)) = w_good w"
    using m unfolding log_matches_def by blast
  obtain st' where st': "replay_records c now (w_good w) ?ds st = Inr st'"
    "rs_sink st' = fold insert_item items (rs_sink st)" "rs_marks st' = advance_all now (batch_marks items) (rs_marks st)"
    using replay_records_batch [OF ok] by blast
  have "replay_from c now (Some (wf_wal (w_files w) @ wal_records c ?ds)) ckpt (start_state k0 m0)
      = replay_loop c now (w_good w + length (wal_records c ?ds)) (w_good w) (wal_records c ?ds @ []) st"
    using replay_from_grow [OF st(1) [folded len]] b len by simp
  also have "\<dots> = Inr (w_good w + length (wal_records c ?ds), st')"
    using replay_loop_records [OF batch_records_len [OF ok] _ b st'(1), of "[]"]
    by (simp add: replay_loop_Nil)
  finally show ?thesis
    using st' st(2,3) advance_all_cong [of "rs_marks st" "w_marks w"] by auto
qed

text \<open>C7: the log always replays to what is in memory. A batch that is written adds its rows and
  marks to both; a batch the device refuses leaves both as they were once the file is cut back;
  only a cut that fails stops the writer, and then nothing was acknowledged.\<close>

theorem write_batch_keeps_log:
  assumes "log_matches c ckpt k0 m0 w" and "list_all (item_ok c) items"
    and "w_good w + length (wal_records c (batch_records items)) \<le> u64_max"
  shows "(case write_batch (c_crc c) env items w of
      Inr w' \<Rightarrow> log_matches c ckpt k0 m0 w' \<and>
        (re_write env = WriteDone \<longrightarrow> w_sink w' = fold insert_item items (w_sink w) \<and>
           w_answers w' = w_answers w @ map (\<lambda>it. (ai_done it, True)) items) \<and>
        (re_write env \<noteq> WriteDone \<longrightarrow> w_sink w' = w_sink w \<and> w_marks w' = w_marks w \<and>
           w_answers w' = w_answers w @ map (\<lambda>it. (ai_done it, False)) items)
    | Inl w' \<Rightarrow> (\<exists>k. re_write env = WriteFailed k False) \<and>
        w_answers w' = w_answers w @ map (\<lambda>it. (ai_done it, False)) items)"
proof (cases "items = []")
  case True
  then show ?thesis using assms(1) by (simp add: write_batch_def)
next
  case False
  let ?buf = "wal_records c (batch_records items)"
  have buf: "batch_buffer (c_crc c) items = Some ?buf"
    using batch_buffer_ok [OF assms(2)] by (simp add: wal_records_def)
  have len: "length (wf_wal (w_files w)) = w_good w" using assms(1) by (simp add: log_matches_def)
  show ?thesis
  proof (cases "re_write env")
    case WriteDone
    obtain w' where w': "write_batch (c_crc c) env items w = Inr w'"
      "wf_wal (w_files w') = wf_wal (w_files w) @ ?buf" "w_good w' = w_good w + length ?buf"
      "w_sink w' = fold insert_item items (w_sink w)"
      "w_marks w' = advance_all (re_now env) (batch_marks items) (w_marks w)"
      "w_answers w' = w_answers w @ map (\<lambda>it. (ai_done it, True)) items"
      using False buf WriteDone by (simp add: write_batch_def Let_def answer_def set_wal_def comp_def)
    moreover have "log_matches c ckpt k0 m0 w'"
      unfolding log_matches_def using w' len write_batch_done [OF assms] by simp
    ultimately show ?thesis using WriteDone by simp
  next
    case (WriteFailed k truncated)
    then show ?thesis
      using False buf len assms(1)
      by (cases truncated) (simp_all add: write_batch_def Let_def answer_def set_wal_def log_matches_def comp_def)
  qed
qed

subsection \<open>A batch cut short\<close>

lemma map_filter_take:
  "k \<le> length (List.map_filter f xs) \<Longrightarrow> \<exists>j \<le> length xs. take k (List.map_filter f xs) = List.map_filter f (take j xs)"
proof (induction xs arbitrary: k)
  case Nil
  then show ?case by simp
next
  case (Cons x xs)
  show ?case
  proof (cases k)
    case 0
    then show ?thesis by (intro exI [of _ 0]) simp
  next
    case (Suc n)
    show ?thesis
    proof (cases "f x")
      case None
      then obtain j where "j \<le> length xs" "take k (List.map_filter f xs) = List.map_filter f (take j xs)"
        using Cons by auto
      with None show ?thesis by (intro exI [of _ "Suc j"]) simp
    next
      case (Some y)
      then obtain j where "j \<le> length xs" "take n (List.map_filter f xs) = List.map_filter f (take j xs)"
        using Cons Suc by auto
      with Some Suc show ?thesis by (intro exI [of _ "Suc j"]) simp
    qed
  qed
qed

lemma batch_records_take:
  assumes "k \<le> length (batch_records items)"
  shows "\<exists>j m. j \<le> length items \<and> m \<le> length (batch_marks items) \<and> (m > 0 \<longrightarrow> j = length items) \<and>
     take k (batch_records items) = List.map_filter item_record (take j items) @ map frame_mark (take m (batch_marks items))"
proof (cases "k \<le> length (List.map_filter item_record items)")
  case True
  then obtain j where "j \<le> length items" "take k (List.map_filter item_record items) = List.map_filter item_record (take j items)"
    using map_filter_take by blast
  with True show ?thesis by (intro exI [of _ j] exI [of _ 0]) (simp add: batch_records_def)
next
  case False
  then show ?thesis
    using assms
    by (intro exI [of _ "length items"] exI [of _ "k - length (List.map_filter item_record items)"])
      (simp add: batch_records_def take_map)
qed

lemma replay_records_cut:
  assumes "list_all (item_ok c) items"
  shows "\<exists>st'. replay_records c now offset
       (List.map_filter item_record (take j items) @ map frame_mark (take m (batch_marks items))) st = Inr st' \<and>
     rs_sink st' = fold insert_item (take j items) (rs_sink st) \<and>
     rs_marks st' = advance_all now (take m (batch_marks items)) (rs_marks st)"
proof -
  have "list_all (item_ok c) (take j items)" "list_all mark_ok (take m (batch_marks items))"
    using assms batch_marks_ok [OF assms] by (metis append_take_drop_id list_all_append)+
  note items = replay_records_items [OF this(1), of now offset st]
    and marks = replay_records_marks [OF this(2)]
  from items obtain s1 where s1: "replay_records c now offset (List.map_filter item_record (take j items)) st = Inr s1"
    "rs_sink s1 = fold insert_item (take j items) (rs_sink st)" "rs_marks s1 = rs_marks st" by blast
  from marks [of c now "offset + length (wal_records c (List.map_filter item_record (take j items)))" s1] s1
  show ?thesis by (auto simp: replay_records_append)
qed

text \<open>C16: a crash that leaves any part of a batch's buffer in the file leaves, at the next start,
  what was there before and the first so many of the batch's records, in order; a mark of the
  batch is there only if every record of the batch is.\<close>

theorem torn_batch_replays_prefix:
  assumes "log_matches c ckpt k0 m0 w" and "list_all (item_ok c) items"
    and "batch_buffer (c_crc c) items = Some buf" and "w_good w + length buf + max_record_bytes + 8 \<le> u64_max"
  shows "\<exists>off st' j m. replay_from c now (Some (wf_wal (w_files w) @ take n buf)) ckpt (start_state k0 m0) = Inr (off, st') \<and>
     w_good w \<le> off \<and> off \<le> w_good w + n \<and> j \<le> length items \<and>
     rs_sink st' = fold insert_item (take j items) (w_sink w) \<and>
     (\<forall>s g. marks_position (rs_marks st') s g
         = marks_position (advance_all now (take m (batch_marks items)) (w_marks w)) s g) \<and>
     (m > 0 \<longrightarrow> j = length items)"
proof -
  let ?ds = "batch_records items"
  have buf: "buf = wal_records c ?ds"
    using assms(3) batch_buffer_ok [OF assms(2)] by (simp add: wal_records_def)
  obtain st where st: "replay_from c now (Some (wf_wal (w_files w))) ckpt (start_state k0 m0) = Inr (w_good w, st)"
    "rs_sink st = w_sink w" "\<And>s g. marks_position (rs_marks st) s g = marks_position (w_marks w) s g"
    and len: "length (wf_wal (w_files w)) = w_good w"
    using assms(1) unfolding log_matches_def by blast
  have "prefix (take n buf) (wal_records c ?ds)" by (simp add: buf take_is_prefix)
  then obtain k q where k: "k \<le> length ?ds" "take n buf = wal_records c (take k ?ds) @ q"
    "q = [] \<or> k < length ?ds \<and> strict_prefix q (wal_record (c_crc c) (?ds ! k))"
    using wal_records_prefix by metis
  obtain j m where jm: "j \<le> length items" "m > 0 \<longrightarrow> j = length items"
    "take k ?ds = List.map_filter item_record (take j items) @ map frame_mark (take m (batch_marks items))"
    using batch_records_take [OF k(1)] by blast
  obtain st' where st': "replay_records c now (w_good w) (take k ?ds) st = Inr st'"
    "rs_sink st' = fold insert_item (take j items) (rs_sink st)"
    "rs_marks st' = advance_all now (take m (batch_marks items)) (rs_marks st)"
    using replay_records_cut [OF assms(2)] jm(3) by metis
  let ?off = "w_good w + length (wal_records c (take k ?ds))"
  let ?fl = "w_good w + length (take n buf)"
  have lens: "list_all (\<lambda>d. length d \<le> max_record_bytes) (take k ?ds)"
    using batch_records_len [OF assms(2)] by (metis append_take_drop_id list_all_append)
  have fl: "?fl + max_record_bytes + 8 \<le> u64_max" using assms(4) by simp
  have "replay_from c now (Some (wf_wal (w_files w) @ take n buf)) ckpt (start_state k0 m0)
      = replay_loop c now ?fl (w_good w) (wal_records c (take k ?ds) @ q) st"
    using replay_from_grow [OF st(1) [folded len], of "take n buf"] fl len k(2) by simp
  also have "\<dots> = replay_loop c now ?fl ?off q st'"
    using replay_loop_records [OF lens _ _ st'(1), of q ?fl] k(2) fl by simp
  also have "\<dots> = Inr (?off, st')"
  proof (cases "q = []")
    case True
    then show ?thesis by (simp add: replay_loop_Nil)
  next
    case False
    have "length (?ds ! k) \<le> max_record_bytes"
      using batch_records_len [OF assms(2)] False k(3) by (simp add: list_all_length)
    then show ?thesis using replay_loop_torn [of "?ds ! k" q c ?off ?fl now st'] False k fl by simp
  qed
  finally have r: "replay_from c now (Some (wf_wal (w_files w) @ take n buf)) ckpt (start_state k0 m0) = Inr (?off, st')" .
  have "length (wal_records c (take k ?ds)) \<le> n" using k(2) by (metis length_append length_take min.cobounded2 le_add1 order_trans)
  then show ?thesis
    using r jm st' st(2,3) advance_all_cong [of "rs_marks st" "w_marks w"]
    by (intro exI [of _ ?off] exI [of _ st'] exI [of _ j] exI [of _ m]) auto
qed

subsection \<open>A concrete log\<close>

definition plain_codec :: "(u8, u8, u8) codec" where
  "plain_codec = \<lparr>c_crc = (\<lambda>bs. word_of_nat (sum_list (map unat bs))), c_unzip = Some, c_logs = Rows,
     c_traces = (\<lambda>_ bs. Some bs), c_metrics = (\<lambda>_ bs. Rows bs)\<rparr>"

definition empty_sink :: "('l, 't, 'm) sink" where
  "empty_sink = \<lparr>k_logs = (\<lambda>_. []), k_traces = [], k_metrics = []\<rparr>"

definition new_writer :: "('l, 't, 'm) wal_writer" where
  "new_writer =
     \<lparr>w_files = \<lparr>wf_wal = [], wf_ckpt = None, wf_tmp = None, wf_state = None\<rparr>, w_good = 0,
      w_backlog = \<lparr>wb_wal = 0, wb_checkpoint = 0\<rparr>, w_marks = [], w_marks_file = None, w_sink = empty_sink,
      w_reserved = 0, w_batches = 0, w_batched = 0, w_answers = []\<rparr>"

definition calm_round :: round_env where
  "calm_round = \<lparr>re_now = 5, re_write = WriteDone, re_sync = True, re_store = True, re_stop = None, re_reopen = True\<rparr>"

definition sender_a :: sender_id where
  "sender_a = replicate 16 1"

definition two_items :: "(u8, u8, u8) append_item list" where
  "two_items =
     [\<lparr>ai_kind = kind_otlp_logs, ai_payload = [7, 8], ai_tenant = Some [97], ai_entries = [7, 8], ai_traces = [],
       ai_samples = [], ai_permit = 0, ai_mark = Some \<lparr>cm_sender = sender_a, cm_signal = CLogs, cm_at = Position 1 1\<rparr>,
       ai_done = 1\<rparr>,
      \<lparr>ai_kind = kind_traces, ai_payload = [9], ai_tenant = Some [98], ai_entries = [], ai_traces = [9],
       ai_samples = [], ai_permit = 0, ai_mark = None, ai_done = 2\<rparr>]"

lemma two_items_parts:
  "is_tenant [97]" "is_tenant [98]" "decompress_payload plain_codec [7, 8] = Some [7, 8]"
  "decompress_payload plain_codec [9] = Some [9]" "framed_record_len [97] [7, 8] \<le> max_record_bytes"
  "framed_record_len [98] [9] \<le> max_record_bytes"
  "mark_ok \<lparr>cm_sender = sender_a, cm_signal = sg, cm_at = Position (Suc 0) (Suc 0)\<rparr>"
  by (simp_all add: is_tenant_def tenant_char_def is_ascii_alphanumeric_def max_tenant_id_bytes_def
      framed_record_len_def tenant_record_prefix_size_def tenant_record_magic_def max_record_bytes_def
      decompress_payload_def mark_ok_def is_sender_id_def sender_id_bytes_def sender_a_def position_ok_def
      plain_codec_def)

lemma two_items_ok: "list_all (item_ok plain_codec) two_items"
  by (simp add: two_items_def item_ok_def two_items_parts item_rows_def)
    (simp add: plain_codec_def kind_defs)

lemma new_writer_simps:
  "wf_wal (w_files new_writer) = []" "w_good new_writer = 0" "w_sink new_writer = empty_sink"
  "w_marks new_writer = []" "w_answers new_writer = []"
  by (simp_all add: new_writer_def)

lemma new_writer_matches: "log_matches c 0 empty_sink [] new_writer"
  by (simp add: log_matches_def new_writer_def replay_from_def start_state_def)

lemma two_items_buffer:
  "length (wal_records plain_codec (batch_records two_items)) = 78"
  by (simp add: two_items_def batch_records_def batch_marks_def item_record_def length_wal_record record_header_size_def
      length_frame_tenant_record framed_record_len_def tenant_record_prefix_size_def tenant_record_magic_def
      length_frame_mark is_sender_id_def sender_id_bytes_def sender_a_def mark_record_bytes_def)

theorem write_batch_keeps_log_witness:
  "\<exists>w'. write_batch (c_crc plain_codec) calm_round two_items new_writer = Inr w' \<and>
     log_matches plain_codec 0 empty_sink [] w' \<and> w_answers w' = [(1, True), (2, True)]"
proof -
  have "w_good (new_writer :: (u8, u8, u8) wal_writer) + length (wal_records plain_codec (batch_records two_items)) \<le> u64_max"
    by (simp add: two_items_buffer new_writer_def u64_max_def)
  from write_batch_keeps_log [OF new_writer_matches two_items_ok this, of calm_round]
  show ?thesis
    by (auto simp: calm_round_def new_writer_def two_items_def split: sum.splits)
qed

theorem torn_batch_replays_prefix_witness:
  "\<exists>off st' j. replay_from plain_codec 3 (Some (take 20 (wal_records plain_codec (batch_records two_items)))) 0
      (start_state empty_sink []) = Inr (off, st') \<and> off \<le> 20 \<and> j \<le> 2 \<and>
     rs_sink st' = fold insert_item (take j two_items) empty_sink"
proof -
  have buf: "batch_buffer (c_crc plain_codec) two_items = Some (wal_records plain_codec (batch_records two_items))"
    using batch_buffer_ok [OF two_items_ok] by (simp add: wal_records_def)
  have two: "length two_items = 2" by (simp add: two_items_def)
  have "w_good (new_writer :: (u8, u8, u8) wal_writer) + length (wal_records plain_codec (batch_records two_items))
      + max_record_bytes + 8 \<le> u64_max"
    by (simp add: two_items_buffer new_writer_def u64_max_def max_record_bytes_def)
  from torn_batch_replays_prefix [OF new_writer_matches two_items_ok buf this, of 3 20,
      unfolded new_writer_simps append_Nil two]
  show ?thesis unfolding add_0 by blast
qed

subsection \<open>The marks of a batch\<close>

lemma fold_max_commute: "fold max xs (max a b) = max a (fold max xs (b :: 'a :: linorder))"
  by (induction xs arbitrary: b) (simp_all, metis max.left_commute)

text \<open>No sender has marks of two signals.\<close>

definition one_signal_each :: "collect_mark list \<Rightarrow> bool" where
  "one_signal_each ms \<longleftrightarrow>
     (\<forall>a \<in> set ms. \<forall>b \<in> set ms. cm_sender a = cm_sender b \<longrightarrow> cm_signal a = cm_signal b)"

lemma one_signal_each_subset: "one_signal_each ms \<Longrightarrow> set ns \<subseteq> set ms \<Longrightarrow> one_signal_each ns"
  unfolding one_signal_each_def by blast

lemma merge_mark_position:
  assumes "one_signal_each (mark # acc)"
  shows "marks_position (advance_all now (merge_mark mark acc) m) s g
     = max (if cm_sender mark = s \<and> cm_signal mark = g then cm_at mark else marks_position (advance_all now acc m) s g)
         (marks_position (advance_all now acc m) s g)"
  using assms
proof (induction acc arbitrary: m)
  case Nil
  then show ?case by (auto simp: marks_position_advance max.commute)
next
  case (Cons a acc)
  show ?case
  proof (cases "cm_sender a = cm_sender mark")
    case True
    then have same: "cm_signal a = cm_signal mark" using Cons.prems unfolding one_signal_each_def by (metis list.set_intros)
    show ?thesis
    proof (cases "cm_sender mark = s \<and> cm_signal mark = g")
      case hit: True
      let ?L = "map cm_at (filter (\<lambda>k. cm_sender k = s \<and> cm_signal k = g) acc)"
      let ?p = "marks_position m s g"
      have a: "cm_sender a = s \<and> cm_signal a = g" using True hit same by simp
      have "marks_position (advance_all now (merge_mark mark (a # acc)) m) s g
          = fold max ?L (max (max (cm_at a) (cm_at mark)) ?p)"
        using True a by (simp add: advance_all_position marks_position_advance max.commute)
      also have "max (max (cm_at a) (cm_at mark)) ?p = max (cm_at mark) (max (cm_at a) ?p)"
        by (simp add: max.assoc max.left_commute)
      also have "fold max ?L \<dots> = max (cm_at mark) (fold max ?L (max (cm_at a) ?p))" by (rule fold_max_commute)
      also have "fold max ?L (max (cm_at a) ?p) = marks_position (advance_all now (a # acc) m) s g"
        using a by (simp add: advance_all_position marks_position_advance max.commute)
      finally show ?thesis using hit by simp
    next
      case False
      then have na: "\<not> (cm_sender a = s \<and> cm_signal a = g)" using True same by simp
      have adv: "marks_position (marks_advance now (a\<lparr>cm_at := p\<rparr>) m) s g = marks_position m s g"
        "marks_position (marks_advance now a m) s g = marks_position m s g" for p
        using na unfolding marks_position_advance by auto
      have "marks_position (advance_all now (merge_mark mark (a # acc)) m) s g
          = marks_position (advance_all now (a # acc) m) s g"
        unfolding merge_mark.simps if_P [OF True] advance_all_simps advance_all_position [of now acc] adv ..
      then show ?thesis unfolding if_not_P [OF False] by (simp only: max.idem)
    qed
  next
    case False
    have "one_signal_each (mark # acc)" by (rule one_signal_each_subset [OF Cons.prems]) auto
    note IH = Cons.IH [OF this, of "marks_advance now a m"]
    show ?thesis unfolding merge_mark.simps if_not_P [OF False] advance_all_simps by (rule IH)
  qed
qed

lemma merge_mark_keys:
  "a \<in> set (merge_mark mark acc) \<Longrightarrow>
     \<exists>b \<in> insert mark (set acc). cm_sender a = cm_sender b \<and> cm_signal a = cm_signal b"
  by (induction acc) (auto split: if_splits)

lemma fold_merge_position:
  assumes "one_signal_each (acc @ ms)"
  shows "marks_position (advance_all now (fold merge_mark ms acc) m) s g
     = fold max (map cm_at (filter (\<lambda>k. cm_sender k = s \<and> cm_signal k = g) ms)) (marks_position (advance_all now acc m) s g)"
  using assms
proof (induction ms arbitrary: acc)
  case Nil
  then show ?case by simp
next
  case (Cons k ms)
  have cons: "one_signal_each (merge_mark k acc @ ms)"
  proof -
    have "\<exists>x \<in> set (acc @ k # ms). cm_sender y = cm_sender x \<and> cm_signal y = cm_signal x"
      if "y \<in> set (merge_mark k acc @ ms)" for y using that merge_mark_keys [of y k acc] by auto
    then show ?thesis using Cons.prems unfolding one_signal_each_def by metis
  qed
  have "one_signal_each (k # acc)" by (rule one_signal_each_subset [OF Cons.prems]) auto
  then  have "marks_position (advance_all now (merge_mark k acc) m) s g
      = max (if cm_sender k = s \<and> cm_signal k = g then cm_at k else marks_position (advance_all now acc m) s g)
          (marks_position (advance_all now acc m) s g)"
    by (rule merge_mark_position)
  moreover have "marks_position (advance_all now (fold merge_mark ms (merge_mark k acc)) m) s g
     = fold max (map cm_at (filter (\<lambda>k. cm_sender k = s \<and> cm_signal k = g) ms))
         (marks_position (advance_all now (merge_mark k acc) m) s g)"
    by (rule Cons.IH) (rule cons)
  ultimately show ?case by simp
qed

text \<open>When no sender has marks of two signals in a batch, each stream stands, after the batch,
  at the highest of where it stood and what the batch claimed for it.\<close>

theorem batch_marks_position:
  assumes "one_signal_each (List.map_filter ai_mark items)"
  shows "marks_position (advance_all now (batch_marks items) m) s g
     = fold max (map cm_at (filter (\<lambda>k. cm_sender k = s \<and> cm_signal k = g) (List.map_filter ai_mark items)))
         (marks_position m s g)"
proof -
  have "marks_position (advance_all now (fold merge_mark (List.map_filter ai_mark items) []) m) s g
     = fold max (map cm_at (filter (\<lambda>k. cm_sender k = s \<and> cm_signal k = g) (List.map_filter ai_mark items)))
         (marks_position (advance_all now [] m) s g)"
    by (rule fold_merge_position) (simp add: assms)
  then show ?thesis by (simp add: batch_marks_def)
qed

theorem batch_marks_position_witness:
  "marks_position (advance_all 5 (batch_marks two_items) []) sender_a CLogs = Position 1 1"
proof -
  have "marks_position (advance_all 5 (batch_marks two_items) []) sender_a CLogs
      = fold max (map cm_at (filter (\<lambda>k. cm_sender k = sender_a \<and> cm_signal k = CLogs)
          (List.map_filter ai_mark two_items))) (marks_position [] sender_a CLogs)"
    by (rule batch_marks_position) (simp add: two_items_def one_signal_each_def)
  then show ?thesis
    by (simp add: two_items_def marks_position_def position_start_def max_def less_eq_position_def)
qed

definition mixed_items :: "(u8, u8, u8) append_item list" where
  "mixed_items =
     map (\<lambda>(sg, p, d). \<lparr>ai_kind = kind_otlp_logs, ai_payload = [], ai_tenant = None, ai_entries = [], ai_traces = [],
       ai_samples = [], ai_permit = 0, ai_mark = Some \<lparr>cm_sender = sender_a, cm_signal = sg, cm_at = p\<rparr>, ai_done = d\<rparr>)
       [(CLogs, Position 2 1, 1), (CTraces, Position 9 0, 2)]"

text \<open>C31: with marks of two signals of one sender in a batch the writer keeps one of them: the logs
  stream is moved to where the traces stream got, over segments no record of which was stored,
  and the traces stream is not moved at all.\<close>

theorem batch_marks_mix_signals:
  "\<exists>w'. write_batch (c_crc plain_codec) calm_round mixed_items new_writer = Inr w' \<and>
     marks_position (w_marks w') sender_a CLogs = Position 9 0 \<and>
     marks_position (w_marks w') sender_a CTraces = position_start"
proof -
  have ok: "list_all (item_ok plain_codec) mixed_items"
    by (simp add: mixed_items_def item_ok_def mark_ok_def is_sender_id_def sender_id_bytes_def sender_a_def position_ok_def)
  have bm: "batch_marks mixed_items = [\<lparr>cm_sender = sender_a, cm_signal = CLogs, cm_at = Position 9 0\<rparr>]"
    by (simp add: batch_marks_def mixed_items_def max_def less_eq_position_def)
  show ?thesis
    using batch_buffer_ok [OF ok, of "c_crc plain_codec"]
    by (simp add: write_batch_def calm_round_def Let_def answer_def set_wal_def bm new_writer_def
        marks_position_advance)
      (simp add: mixed_items_def marks_position_def position_start_def max_def less_eq_position_def)
qed

subsection \<open>What a round takes\<close>

fun cmd_items :: "('l, 't, 'm) wal_cmd \<Rightarrow> ('l, 't, 'm) append_item list" where
  "cmd_items (CmdAppend it) = [it]"
| "cmd_items (CmdAppendBatch its) = its"
| "cmd_items (CmdCheckpoint done) = []"
| "cmd_items (CmdCompact offset done) = []"

fun cmd_is_append :: "('l, 't, 'm) wal_cmd \<Rightarrow> bool" where
  "cmd_is_append (CmdAppend it) = True"
| "cmd_is_append (CmdAppendBatch its) = True"
| "cmd_is_append (CmdCheckpoint done) = False"
| "cmd_is_append (CmdCompact offset done) = False"

definition tail_cmds :: "('l, 't, 'm) taken \<Rightarrow> ('l, 't, 'm) wal_cmd list" where
  "tail_cmds tk =
     (case tk_checkpoint tk of Some done \<Rightarrow> [CmdCheckpoint done]
      | None \<Rightarrow> (case tk_compact tk of Some (offset, done) \<Rightarrow> [CmdCompact offset done] | None \<Rightarrow> []))"

lemma tail_cmds_batch [simp]: "tail_cmds (tk\<lparr>tk_batch := b\<rparr>) = tail_cmds tk"
  by (cases tk) (simp add: tail_cmds_def split: option.split)

lemma gather_takes:
  "\<exists>appends. cmds = appends @ tail_cmds (gather mb n cmds) @ tk_rest (gather mb n cmds) \<and>
     list_all cmd_is_append appends \<and> tk_batch (gather mb n cmds) = concat (map cmd_items appends)"
proof (induction cmds arbitrary: n)
  case Nil
  then show ?case by (simp add: tail_cmds_def)
next
  case (Cons cmd cmds)
  show ?case
  proof (cases "n < mb")
    case False
    then show ?thesis by (intro exI [of _ "[]"]) (simp add: tail_cmds_def)
  next
    case True
    show ?thesis
    proof (cases cmd)
      case (CmdAppend it)
      obtain as where "cmds = as @ tail_cmds (gather mb (saturating_add_u64 n (item_len it)) cmds)
          @ tk_rest (gather mb (saturating_add_u64 n (item_len it)) cmds)" "list_all cmd_is_append as"
        "tk_batch (gather mb (saturating_add_u64 n (item_len it)) cmds) = concat (map cmd_items as)"
        using Cons.IH by blast
      then show ?thesis using True CmdAppend
        by (intro exI [of _ "cmd # as"]) (simp add: Let_def)
    next
      case (CmdAppendBatch its)
      obtain as where "cmds = as @ tail_cmds (gather mb (saturating_add_u64 n (items_len its)) cmds)
          @ tk_rest (gather mb (saturating_add_u64 n (items_len its)) cmds)" "list_all cmd_is_append as"
        "tk_batch (gather mb (saturating_add_u64 n (items_len its)) cmds) = concat (map cmd_items as)"
        using Cons.IH by blast
      then show ?thesis using True CmdAppendBatch
        by (intro exI [of _ "cmd # as"]) (simp add: Let_def)
    next
      case (CmdCheckpoint d)
      then show ?thesis using True by (intro exI [of _ "[]"]) (simp add: tail_cmds_def)
    next
      case (CmdCompact o' d)
      then show ?thesis using True by (intro exI [of _ "[]"]) (simp add: tail_cmds_def)
    qed
  qed
qed

text \<open>A round takes commands from the front of the channel in the order they were sent: a run of
  appends, a batch command whole or not at all, then at most one checkpoint or compaction; the
  rest is left for the next round, and at least one command is taken.\<close>

theorem take_commands_in_order:
  "\<exists>appends. first # cmds = appends @ tail_cmds (take_commands mb first cmds) @ tk_rest (take_commands mb first cmds) \<and>
     list_all cmd_is_append appends \<and> tk_batch (take_commands mb first cmds) = concat (map cmd_items appends) \<and>
     length (tk_rest (take_commands mb first cmds)) \<le> length cmds"
proof (cases first)
  case (CmdAppend it)
  obtain as where "cmds = as @ tail_cmds (gather mb (item_len it) cmds) @ tk_rest (gather mb (item_len it) cmds)"
    "list_all cmd_is_append as" "tk_batch (gather mb (item_len it) cmds) = concat (map cmd_items as)"
    using gather_takes by blast
  moreover from this(1) have "length (tk_rest (gather mb (item_len it) cmds)) \<le> length cmds"
    by (metis length_append le_add2 le_trans)
  ultimately show ?thesis using CmdAppend
    by (intro exI [of _ "first # as"]) (simp add: take_commands_def Let_def)
next
  case (CmdAppendBatch its)
  obtain as where "cmds = as @ tail_cmds (gather mb (items_len its) cmds) @ tk_rest (gather mb (items_len its) cmds)"
    "list_all cmd_is_append as" "tk_batch (gather mb (items_len its) cmds) = concat (map cmd_items as)"
    using gather_takes by blast
  moreover from this(1) have "length (tk_rest (gather mb (items_len its) cmds)) \<le> length cmds"
    by (metis length_append le_add2 le_trans)
  ultimately show ?thesis using CmdAppendBatch
    by (intro exI [of _ "first # as"]) (simp add: take_commands_def Let_def)
qed (auto simp: take_commands_def tail_cmds_def)

subsection \<open>Compaction\<close>

text \<open>C8: wherever a compaction at \<open>offset\<close> stops, half-written copy and the undoing of an earlier
  compaction's intent included, a restart, after any number of restarts that were themselves cut short
  behind any of their steps, replays what it would have replayed before the compaction or what is behind
  \<open>offset\<close>. That holds of every state of the files a restart can recover.\<close>

theorem compaction_crash_safe:
  assumes "live_bytes f = Some b" and "offset \<le> length (wf_wal f)" and "length (wf_wal f) < 2 ^ 64"
    and "g \<in> compact_wal_crashes offset f" and "restarts g h"
  shows "live_bytes h = Some b \<or> live_bytes h = Some (drop offset (wf_wal f))"
  using live_bytes_compact_wal [OF assms(1-4)] live_bytes_restarts [OF assms(5)] by blast

definition small_log :: wal_files where
  "small_log = \<lparr>wf_wal = [1, 2, 3, 4], wf_ckpt = Some (write_checkpoint 1), wf_tmp = None, wf_state = None\<rparr>"

text \<open>The compaction stops behind its intent; the restart that undoes it is cut short behind its first step.\<close>

theorem compaction_crash_safe_witness:
  "\<exists>g h. g \<in> compact_wal_crashes 2 small_log \<and> restarts g h \<and> wf_ckpt h = Some (write_checkpoint 2) \<and> wf_tmp h \<noteq> None \<and>
     (live_bytes h = Some [2, 3, 4] \<or> live_bytes h = Some [3, 4])"
proof -
  let ?s = "\<lparr>cs_offset = 2, cs_source = 4, cs_retained = 2\<rparr>"
  let ?g = "small_log\<lparr>wf_tmp := Some [3, 4], wf_state := Some (write_compaction_state ?s)\<rparr>"
  have st: "read_compaction_state (Some (write_compaction_state ?s)) = Inr (Some ?s)" by (rule read_write_compaction_state) simp_all
  have "read_checkpoint (wf_ckpt small_log) = Some 1"
    unfolding small_log_def by (simp add: read_write_checkpoint del: One_nat_def)
  then have "live_bytes small_log = Some [2, 3, 4]" using live_bytes_clean [of small_log 1] by (simp add: small_log_def)
  moreover have g: "?g \<in> compact_wal_crashes 2 small_log"
    by (simp add: compact_wal_crashes_def compaction_crashes_def compact_steps_def small_log_def Let_def eval_nat_numeral)
  moreover have h: "restarts ?g (hd (restore_steps ?s ?g))"
    by (rule restarts.restarted [OF restarts.crashed, of _ "restore_steps ?s ?g"])
      (simp add: recover_steps_def st, simp add: restore_steps_def Let_def)
  ultimately have "live_bytes (hd (restore_steps ?s ?g)) = Some [2, 3, 4] \<or> live_bytes (hd (restore_steps ?s ?g)) = Some [3, 4]"
    using compaction_crash_safe [of small_log "[2, 3, 4]" 2 ?g] by (simp add: small_log_def)
  then show ?thesis using g h by (intro exI [of _ ?g] exI [of _ "hd (restore_steps ?s ?g)"]) (simp add: restore_steps_def Let_def)
qed

text \<open>C26: a compaction that failed before its last step, retried with the same offset after any bytes
  were appended, succeeds and leaves exactly what was behind the offset and those bytes.\<close>

theorem compaction_retry_exact:
  assumes "wf_state f = None" and "offset \<le> length (wf_wal f)" and "length (wf_wal f) < 2 ^ 64"
    and "compact_wal (Some n) (length (wf_wal f)) offset f = (Inl e, g, good)" and "n \<le> 4"
  shows "\<exists>f'. compact_wal None (length (wf_wal (append_wal a g))) offset (append_wal a g)
       = (Inr (), f', length (wf_wal f')) \<and>
     wf_wal f' = drop offset (wf_wal f) @ a \<and> wf_state f' = None"
proof -
  let ?ss = "compact_steps (length (wf_wal f)) offset f"
  have "g = (f # ?ss) ! n"
    using assms by (auto simp: compact_wal_def compact_fresh_def run_steps_def split: if_splits prod.splits sum.splits)
  moreover have "n = 0 \<or> n = 1 \<or> n = 2 \<or> n = 3 \<or> n = 4" using assms(5) by auto
  ultimately have "g \<in> compaction_crashes offset f" and "wf_state g \<noteq> None \<or> wf_wal g = wf_wal f"
    by (auto simp: compaction_crashes_def compact_steps_def Let_def)
  then show ?thesis using compact_wal_retry [OF assms(1-3)] by blast
qed

theorem compaction_retry_exact_witness:
  "\<exists>g good f'. compact_wal (Some 4) 4 2 small_log = (Inl WalDevice, g, good) \<and>
     compact_wal None (length (wf_wal (append_wal [9] g))) 2 (append_wal [9] g) = (Inr (), f', length (wf_wal f')) \<and>
     wf_wal f' = [3, 4, 9]"
proof -
  obtain g good where g: "compact_wal (Some 4) 4 2 small_log = (Inl WalDevice, g, good)"
    by (auto simp: compact_wal_def small_log_def compact_fresh_def run_steps_def compact_steps_def Let_def)
  have len: "length (wf_wal small_log) = 4" by (simp add: small_log_def)
  have "wf_state small_log = None" "2 \<le> length (wf_wal small_log)" "length (wf_wal small_log) < 2 ^ 64"
    "compact_wal (Some 4) (length (wf_wal small_log)) 2 small_log = (Inl WalDevice, g, good)" "(4 :: nat) \<le> 4"
    unfolding len using g by (simp_all add: small_log_def)
  from compaction_retry_exact [OF this, of "[9]"] g show ?thesis by (auto simp: small_log_def)
qed

text \<open>
  The retry of the flush does not always compact: whether to is decided again, from the
  length of a log that may already be the replacement.
\<close>

definition half_log :: wal_files where
  "half_log = \<lparr>wf_wal = [1, 2, 3, 4], wf_ckpt = None, wf_tmp = None, wf_state = None\<rparr>"

text \<open>C32: a compaction whose rename took effect but failed, followed by appends and the flush's
  retry, stores the old log's offset as the checkpoint of the new one: acknowledged bytes that no
  flush covered are skipped by the next restart.\<close>

theorem checkpoint_retry_skips_new_log:
  "\<exists>g h. advance_checkpoint (Some 4) 2 False (Some 2) half_log = (Inl WalDevice, g) \<and>
     live_bytes (append_wal [5, 6, 7] g) = Some [3, 4, 5, 6, 7] \<and>
     retry_pending_checkpoint None (Some 2) False (Some 2) (append_wal [5, 6, 7] g) = (Inr 2, None, h) \<and>
     live_bytes h = Some [5, 6, 7]"
proof -
  let ?s = "write_compaction_state \<lparr>cs_offset = 2, cs_source = 4, cs_retained = 2\<rparr>"
  let ?g = "\<lparr>wf_wal = [3, 4], wf_ckpt = Some (write_checkpoint 0), wf_tmp = None, wf_state = Some ?s\<rparr>"
  let ?h = "(append_wal [5, 6, 7] ?g)\<lparr>wf_ckpt := Some (write_checkpoint 2)\<rparr>"
  have st: "read_compaction_state (Some ?s) = Inr (Some \<lparr>cs_offset = 2, cs_source = 4, cs_retained = 2\<rparr>)"
    by (rule read_write_compaction_state) simp_all
  have c: "read_checkpoint (Some (write_checkpoint 0)) = Some 0" "read_checkpoint (Some (write_checkpoint 2)) = Some 2"
    by (rule read_write_checkpoint, simp)+
  have 1: "advance_checkpoint (Some 4) 2 False (Some 2) half_log = (Inl WalDevice, ?g)"
    by (simp add: advance_checkpoint_def should_compact_wal_def half_log_def compact_wal_def compact_fresh_def
        run_steps_def compact_steps_def Let_def eval_nat_numeral)
  have 2: "retry_pending_checkpoint None (Some 2) False (Some 2) (append_wal [5, 6, 7] ?g) = (Inr 2, None, ?h)"
    by (simp add: retry_pending_checkpoint_def advance_checkpoint_def should_compact_wal_def append_wal_def
        set_checkpoint_def run_steps_def)
  have 3: "live_bytes (append_wal [5, 6, 7] ?g) = Some [3, 4, 5, 6, 7]"
    using live_bytes_renamed [of "append_wal [5, 6, 7] ?g", OF _ _ _] st c by (simp add: append_wal_def)
  have 4: "live_bytes ?h = Some [5, 6, 7]"
    using live_bytes_renamed [of ?h, OF _ _ _] st c by (simp add: append_wal_def)
  show ?thesis using 1 2 3 4 by blast
qed

text \<open>A compaction that fails on the very last sync, behind the removal of its intent, is applied
  a second time by the retry, to the replacement log: what it drops was never flushed.\<close>

theorem compaction_applied_twice:
  "\<exists>g h. advance_checkpoint (Some 5) 2 False (Some 2) half_log = (Inl WalDevice, g) \<and>
     live_bytes g = Some [3, 4] \<and>
     retry_pending_checkpoint None (Some 2) False (Some 2) g = (Inr 2, None, h) \<and> live_bytes h = Some []"
proof -
  let ?g = "\<lparr>wf_wal = [3, 4], wf_ckpt = Some (write_checkpoint 0), wf_tmp = None, wf_state = None\<rparr>"
  let ?h = "\<lparr>wf_wal = [], wf_ckpt = Some (write_checkpoint 0), wf_tmp = None, wf_state = None\<rparr>"
  have c: "read_checkpoint (Some (write_checkpoint 0)) = Some 0"
    by (rule read_write_checkpoint) simp
  have 1: "advance_checkpoint (Some 5) 2 False (Some 2) half_log = (Inl WalDevice, ?g)"
    by (simp add: advance_checkpoint_def should_compact_wal_def half_log_def compact_wal_def compact_fresh_def
        run_steps_def compact_steps_def Let_def remove_compaction_state_def)
  have 2: "retry_pending_checkpoint None (Some 2) False (Some 2) ?g = (Inr 2, None, ?h)"
    by (simp add: retry_pending_checkpoint_def advance_checkpoint_def should_compact_wal_def compact_wal_def
        compact_fresh_def run_steps_def compact_steps_def Let_def remove_compaction_state_def)
  have 3: "live_bytes ?g = Some [3, 4]" using live_bytes_clean [of ?g 0] c by simp
  have 4: "live_bytes ?h = Some []" using live_bytes_clean [of ?h 0] c by simp
  show ?thesis using 1 2 3 4 by blast
qed

end
