(* ===== verification/HistogramChunk.thy ===== *)
theory HistogramChunk
  imports Gorilla
begin

text \<open>
  \<open>signy/src/histogram_chunk.rs\<close>: the stored form of a histogram series. A point's numbers are
  64-bit words, read signed where the code subtracts them; a panic is \<open>None\<close> or \<open>HistPanic\<close>. A double is its bits.
\<close>

subsection \<open>Numbers of variable length\<close>

text \<open>What is appended to \<open>out\<close>.\<close>

function put_uvarint :: "u64 \<Rightarrow> bytes" where
  "put_uvarint value = (if value \<ge> 0x80 then (ucast value OR 0x80) # put_uvarint (drop_bit 7 value) else [ucast value])"
  by pat_completeness auto
termination
  by (relation "measure unat") (auto simp: drop_bit_eq_div unat_div word_le_nat_alt)

declare put_uvarint.simps [simp del]

datatype hist_error = HistTruncated | HistOverlong | HistSumFlag u8 | HistTrailing | HistPanic

function uvarint_loop :: "bytes \<Rightarrow> nat \<Rightarrow> u64 \<Rightarrow> nat \<Rightarrow> hist_error + u64 \<times> nat" where
  "uvarint_loop bs at value shift =
     (if \<not> at < length bs then Inl HistTruncated
      else
        (let byte = bs ! at; at' = at + 1 in
         if shift \<ge> 64 then Inl HistOverlong
         else
           (let value' = value OR push_bit shift (ucast (byte AND 0x7F)) in
            if byte AND 0x80 = 0 then Inr (value', at') else uvarint_loop bs at' value' (shift + 7))))"
  by pat_completeness auto
termination
  by (relation "measure (\<lambda>(bs, at, _, _). length bs - at)") auto

declare uvarint_loop.simps [simp del]

definition get_uvarint :: "bytes \<Rightarrow> nat \<Rightarrow> hist_error + u64 \<times> nat" where
  "get_uvarint bs at = uvarint_loop bs at 0 0"

definition put_ivarint :: "u64 \<Rightarrow> bytes" where
  "put_ivarint value = put_uvarint (zigzag value)"

definition get_ivarint :: "bytes \<Rightarrow> nat \<Rightarrow> hist_error + u64 \<times> nat" where
  "get_ivarint bs at = (case get_uvarint bs at of Inl e \<Rightarrow> Inl e | Inr (v, at') \<Rightarrow> Inr (unzigzag v, at'))"

definition take_bytes :: "bytes \<Rightarrow> nat \<Rightarrow> nat \<Rightarrow> hist_error + bytes \<times> nat" where
  "take_bytes bs at len =
     (case get_range bs at (at + len) of None \<Rightarrow> Inl HistTruncated | Some raw \<Rightarrow> Inr (raw, at + len))"

subsection \<open>Arithmetic of the signed words\<close>

text \<open>\<open>ck\<close> says whether the build checks for overflow, as a debug build does: then a result out of range is
  a panic, otherwise it wraps.\<close>

definition i64_sub :: "bool \<Rightarrow> u64 \<Rightarrow> u64 \<Rightarrow> u64 option" where
  "i64_sub ck a b = (let d = sint a - sint b in if ck \<and> \<not> (- (2 ^ 63) \<le> d \<and> d < 2 ^ 63) then None else Some (a - b))"

definition i64_add :: "bool \<Rightarrow> u64 \<Rightarrow> u64 \<Rightarrow> u64 option" where
  "i64_add ck a b = (let d = sint a + sint b in if ck \<and> \<not> (- (2 ^ 63) \<le> d \<and> d < 2 ^ 63) then None else Some (a + b))"

subsection \<open>Points and runs\<close>

record histogram_point =
  hp_bounds :: "u64 list"
  hp_cumulative :: "u64 list"
  hp_sum :: "u64 option"
  hp_count :: u64

text \<open>Equality of two doubles: of no number with a NaN, of the two zeros.\<close>

definition f64_is_nan :: "u64 \<Rightarrow> bool" where
  "f64_is_nan x \<longleftrightarrow> take_bit 63 x > 0x7FF0000000000000"

definition f64_eq :: "u64 \<Rightarrow> u64 \<Rightarrow> bool" where
  "f64_eq a b \<longleftrightarrow> \<not> f64_is_nan a \<and> \<not> f64_is_nan b \<and> (a = b \<or> take_bit 63 a = 0 \<and> take_bit 63 b = 0)"

type_synonym hist_points = "(u64 \<times> histogram_point) list"

text \<open>The loop over the points behind the first: the runs closed so far and where the open one starts.\<close>

definition runs_step :: "hist_points \<Rightarrow> nat \<Rightarrow> hist_points list \<times> nat \<Rightarrow> hist_points list \<times> nat" where
  "runs_step points index acc =
     (case acc of (runs, start) \<Rightarrow>
       if \<not> list_all2 f64_eq (hp_bounds (snd (points ! index))) (hp_bounds (snd (points ! start)))
       then (runs @ [take (index - start) (drop start points)], index)
       else (runs, start))"

definition hist_runs :: "hist_points \<Rightarrow> hist_points list" where
  "hist_runs points =
     (let (runs, start) = fold (runs_step points) [1..<length points] ([], 0)
      in if points \<noteq> [] then runs @ [drop start points] else runs)"

definition put_f64 :: "u64 \<Rightarrow> bytes" where
  "put_f64 x = le_nat 8 (unat x)"

text \<open>The differences of the counts at the bounds, and the counts the next point is held against.\<close>

fun put_cumulative :: "bool \<Rightarrow> u64 list \<Rightarrow> u64 list \<Rightarrow> (bytes \<times> u64 list) option" where
  "put_cumulative ck prev [] = Some ([], prev)"
| "put_cumulative ck [] (v # vs) =
     (case i64_sub ck v 0 of
        None \<Rightarrow> None
      | Some d \<Rightarrow> map_option (\<lambda>(out, prev). (put_ivarint d @ out, prev)) (put_cumulative ck [] vs))"
| "put_cumulative ck (p # ps) (v # vs) =
     (case i64_sub ck v p of
        None \<Rightarrow> None
      | Some d \<Rightarrow> map_option (\<lambda>(out, prev). (put_ivarint d @ out, v # prev)) (put_cumulative ck ps vs))"

fun put_points :: "bool \<Rightarrow> u64 \<Rightarrow> u64 \<Rightarrow> u64 list \<Rightarrow> hist_points \<Rightarrow> bytes option" where
  "put_points ck previous_ts previous_count prev [] = Some []"
| "put_points ck previous_ts previous_count prev ((ts, p) # ps) =
     (case i64_sub ck ts previous_ts of
        None \<Rightarrow> None
      | Some dts \<Rightarrow>
          (case i64_sub ck (hp_count p) previous_count of
             None \<Rightarrow> None
           | Some dc \<Rightarrow>
               (let sum_seen = (case hp_sum p of Some s \<Rightarrow> 1 # put_f64 s | None \<Rightarrow> [0]) in
                case put_cumulative ck prev (hp_cumulative p) of
                  None \<Rightarrow> None
                | Some (cumulative, prev') \<Rightarrow>
                    map_option (\<lambda>rest. put_ivarint dts @ put_ivarint dc @ sum_seen @ cumulative @ rest)
                      (put_points ck ts (hp_count p) prev' ps))))"

definition put_run :: "bool \<Rightarrow> hist_points \<Rightarrow> bytes option" where
  "put_run ck run =
     (let bounds = hp_bounds (snd (run ! 0)) in
      map_option (\<lambda>points. put_uvarint (word_of_nat (length bounds)) @ concat (map put_f64 bounds) @
                           put_uvarint (word_of_nat (length run)) @ points)
        (put_points ck 0 0 (replicate (length bounds) 0) run))"

fun put_runs :: "bool \<Rightarrow> hist_points list \<Rightarrow> bytes option" where
  "put_runs ck [] = Some []"
| "put_runs ck (run # runs) =
     (case put_run ck run of None \<Rightarrow> None | Some out \<Rightarrow> map_option (\<lambda>rest. out @ rest) (put_runs ck runs))"

definition hist_encode :: "bool \<Rightarrow> hist_points \<Rightarrow> bytes option" where
  "hist_encode ck points =
     (let runs = hist_runs points
      in map_option (\<lambda>out. put_uvarint (word_of_nat (length runs)) @ out) (put_runs ck runs))"

subsection \<open>Reading back\<close>

fun get_bounds :: "nat \<Rightarrow> bytes \<Rightarrow> nat \<Rightarrow> hist_error + u64 list \<times> nat" where
  "get_bounds 0 bs at = Inr ([], at)"
| "get_bounds (Suc n) bs at =
     (case take_bytes bs at 8 of
        Inl e \<Rightarrow> Inl e
      | Inr (raw, at1) \<Rightarrow>
          (case get_bounds n bs at1 of
             Inl e \<Rightarrow> Inl e
           | Inr (rest, at2) \<Rightarrow> Inr (word_of_nat (nat_of_le raw) # rest, at2)))"

definition get_sum :: "bytes \<Rightarrow> nat \<Rightarrow> hist_error + u64 option \<times> nat" where
  "get_sum bs at =
     (case take_bytes bs at 1 of
        Inl e \<Rightarrow> Inl e
      | Inr (flag, at1) \<Rightarrow>
          if hd flag = 0 then Inr (None, at1)
          else if hd flag = 1 then
            (case take_bytes bs at1 8 of
               Inl e \<Rightarrow> Inl e
             | Inr (raw, at2) \<Rightarrow> Inr (Some (word_of_nat (nat_of_le raw)), at2))
          else Inl (HistSumFlag (hd flag)))"

text \<open>\<open>slot += get_ivarint\<close>.\<close>

definition add_ivarint :: "bool \<Rightarrow> u64 \<Rightarrow> bytes \<Rightarrow> nat \<Rightarrow> hist_error + u64 \<times> nat" where
  "add_ivarint ck slot bs at =
     (case get_ivarint bs at of
        Inl e \<Rightarrow> Inl e
      | Inr (d, at1) \<Rightarrow> (case i64_add ck slot d of None \<Rightarrow> Inl HistPanic | Some v \<Rightarrow> Inr (v, at1)))"

fun add_cumulative :: "bool \<Rightarrow> u64 list \<Rightarrow> bytes \<Rightarrow> nat \<Rightarrow> hist_error + u64 list \<times> nat" where
  "add_cumulative ck [] bs at = Inr ([], at)"
| "add_cumulative ck (slot # slots) bs at =
     (case add_ivarint ck slot bs at of
        Inl e \<Rightarrow> Inl e
      | Inr (v, at1) \<Rightarrow>
          (case add_cumulative ck slots bs at1 of Inl e \<Rightarrow> Inl e | Inr (vs, at2) \<Rightarrow> Inr (v # vs, at2)))"

fun get_points :: "bool \<Rightarrow> nat \<Rightarrow> u64 list \<Rightarrow> u64 \<Rightarrow> u64 \<Rightarrow> u64 list \<Rightarrow> bytes \<Rightarrow> nat \<Rightarrow> hist_error + hist_points \<times> nat" where
  "get_points ck 0 bounds ts count cumulative bs at = Inr ([], at)"
| "get_points ck (Suc n) bounds ts count cumulative bs at =
     (case add_ivarint ck ts bs at of
        Inl e \<Rightarrow> Inl e
      | Inr (ts', at1) \<Rightarrow>
     (case add_ivarint ck count bs at1 of
        Inl e \<Rightarrow> Inl e
      | Inr (count', at2) \<Rightarrow>
     (case get_sum bs at2 of
        Inl e \<Rightarrow> Inl e
      | Inr (sum_seen, at3) \<Rightarrow>
     (case add_cumulative ck cumulative bs at3 of
        Inl e \<Rightarrow> Inl e
      | Inr (cumulative', at4) \<Rightarrow>
     (case get_points ck n bounds ts' count' cumulative' bs at4 of
        Inl e \<Rightarrow> Inl e
      | Inr (ps, at5) \<Rightarrow>
          Inr ((ts', \<lparr>hp_bounds = bounds, hp_cumulative = cumulative', hp_sum = sum_seen, hp_count = count'\<rparr>) # ps, at5))))))"

text \<open>A vector of more than \<open>isize::MAX\<close> bytes cannot be made.\<close>

fun get_runs :: "bool \<Rightarrow> nat \<Rightarrow> bytes \<Rightarrow> nat \<Rightarrow> hist_error + hist_points \<times> nat" where
  "get_runs ck 0 bs at = Inr ([], at)"
| "get_runs ck (Suc n) bs at =
     (case get_uvarint bs at of
        Inl e \<Rightarrow> Inl e
      | Inr (bound_count, at1) \<Rightarrow>
     if unat bound_count * 8 \<ge> 2 ^ 63 then Inl HistPanic else
     (case get_bounds (unat bound_count) bs at1 of
        Inl e \<Rightarrow> Inl e
      | Inr (bounds, at2) \<Rightarrow>
     (case get_uvarint bs at2 of
        Inl e \<Rightarrow> Inl e
      | Inr (point_count, at3) \<Rightarrow>
     (case get_points ck (unat point_count) bounds 0 0 (replicate (unat bound_count) 0) bs at3 of
        Inl e \<Rightarrow> Inl e
      | Inr (ps, at4) \<Rightarrow>
     (case get_runs ck n bs at4 of Inl e \<Rightarrow> Inl e | Inr (rest, at5) \<Rightarrow> Inr (ps @ rest, at5))))))"

definition hist_decode :: "bool \<Rightarrow> bytes \<Rightarrow> hist_error + hist_points" where
  "hist_decode ck bs =
     (case get_uvarint bs 0 of
        Inl e \<Rightarrow> Inl e
      | Inr (runs, at) \<Rightarrow>
          (case get_runs ck (unat runs) bs at of
             Inl e \<Rightarrow> Inl e
           | Inr (points, at') \<Rightarrow> if at' \<noteq> length bs then Inl HistTrailing else Inr points))"

subsection \<open>Readers in sequence\<close>

definition reads_at :: "(bytes \<Rightarrow> nat \<Rightarrow> hist_error + 'a \<times> nat) \<Rightarrow> bytes \<Rightarrow> 'a \<Rightarrow> bool" where
  "reads_at f enc x \<longleftrightarrow> (\<forall>pre rest. f (pre @ enc @ rest) (length pre) = Inr (x, length pre + length enc))"

definition rbind :: "(bytes \<Rightarrow> nat \<Rightarrow> hist_error + 'a \<times> nat) \<Rightarrow> ('a \<Rightarrow> bytes \<Rightarrow> nat \<Rightarrow> hist_error + 'b \<times> nat)
    \<Rightarrow> bytes \<Rightarrow> nat \<Rightarrow> hist_error + 'b \<times> nat" where
  "rbind f g bs at = (case f bs at of Inl e \<Rightarrow> Inl e | Inr (x, at1) \<Rightarrow> g x bs at1)"

definition rpure :: "'a \<Rightarrow> bytes \<Rightarrow> nat \<Rightarrow> hist_error + 'a \<times> nat" where
  "rpure x bs at = Inr (x, at)"

lemma reads_pure: "reads_at (rpure x) [] x"
  by (simp add: reads_at_def rpure_def)

lemma reads_bind: "reads_at f e1 x \<Longrightarrow> reads_at (g x) e2 y \<Longrightarrow> reads_at (rbind f g) (e1 @ e2) y"
proof -
  assume f: "reads_at f e1 x" and g: "reads_at (g x) e2 y"
  show ?thesis
    unfolding reads_at_def
  proof (intro allI)
    fix pre rest
    have "f (pre @ e1 @ e2 @ rest) (length pre) = Inr (x, length pre + length e1)" using f by (simp add: reads_at_def)
    moreover have "g x ((pre @ e1) @ e2 @ rest) (length (pre @ e1)) = Inr (y, length (pre @ e1) + length e2)"
      using g unfolding reads_at_def by blast
    ultimately show "rbind f g (pre @ (e1 @ e2) @ rest) (length pre) = Inr (y, length pre + length (e1 @ e2))"
      by (simp add: rbind_def)
  qed
qed

lemma reads_then_pure: "reads_at f e x \<Longrightarrow> reads_at (rbind f (\<lambda>x. rpure (h x))) e (h x)"
  using reads_bind [of f e x "\<lambda>x. rpure (h x)" "[]" "h x"] reads_pure [of "h x"] by simp

lemma reads_take: "length enc = n \<Longrightarrow> reads_at (\<lambda>bs at. take_bytes bs at n) enc enc"
  by (auto simp: reads_at_def take_bytes_def get_range_def)

subsection \<open>A number is read back\<close>

lemma byte_masks: "bit (0x80 :: u8) n \<longleftrightarrow> n = 7" "bit (0x7F :: u8) n \<longleftrightarrow> n < 7"
proof -
  have b: "(0x80 :: u8) = 2 ^ 7" "(0x7F :: u8) = mask 7" by (simp_all add: mask_eq_exp_minus_1)
  show "bit (0x80 :: u8) n \<longleftrightarrow> n = 7" unfolding b(1) bit_exp_iff by auto
  show "bit (0x7F :: u8) n \<longleftrightarrow> n < 7" unfolding b(2) bit_mask_iff by auto
qed

lemma and_high_bit: "x AND (0x80 :: u8) = 0 \<longleftrightarrow> \<not> bit x 7"
proof
  assume "x AND (0x80 :: u8) = 0"
  then have "\<not> bit (x AND (0x80 :: u8)) 7" by simp
  then show "\<not> bit x 7" by (simp only: bit_and_iff byte_masks) simp
qed (auto intro!: bit_word_eqI simp only: bit_and_iff byte_masks bit_0_eq bot_apply bot_bool_def)

lemma uvarint_byte_more:
  "(ucast v OR 0x80 :: u8) AND 0x80 \<noteq> 0" "(ucast ((ucast v OR 0x80 :: u8) AND 0x7F) :: u64) = take_bit 7 v" for v :: u64
proof -
  show "(ucast v OR 0x80 :: u8) AND 0x80 \<noteq> 0" unfolding and_high_bit bit_or_iff byte_masks by simp
  show "(ucast ((ucast v OR 0x80 :: u8) AND 0x7F) :: u64) = take_bit 7 v"
    by (rule bit_word_eqI, simp only: bit_ucast_iff bit_and_iff bit_or_iff byte_masks bit_take_bit_iff) auto
qed

lemma uvarint_byte_last:
  fixes v :: u64
  assumes "v < 0x80"
  shows "(ucast v :: u8) AND 0x80 = 0" and "(ucast ((ucast v :: u8) AND 0x7F) :: u64) = v"
proof -
  have "take_bit 7 v = v" using assms by (simp add: take_bit_eq_mod word_unat_eq_iff unat_mod word_less_nat_alt)
  then have h: "bit v n \<Longrightarrow> n < 7" for n by (metis bit_take_bit_iff)
  show "(ucast v :: u8) AND 0x80 = 0" unfolding and_high_bit using h [of 7] by (auto simp: bit_ucast_iff)
  show "(ucast ((ucast v :: u8) AND 0x7F) :: u64) = v"
  proof (rule bit_word_eqI)
    fix n assume "n < LENGTH(64)"
    have "bit v n \<Longrightarrow> n < LENGTH(8)" using h [of n] by simp
    then show "bit (ucast ((ucast v :: u8) AND 0x7F) :: u64) n \<longleftrightarrow> bit v n"
      unfolding bit_ucast_iff bit_and_iff byte_masks using h [of n] \<open>n < LENGTH(64)\<close> by blast
  qed
qed

lemma split_7: "(acc OR push_bit s (take_bit 7 v)) OR push_bit (s + 7) (drop_bit 7 v) = acc OR push_bit s v" for v :: u64
proof (rule bit_word_eqI)
  fix n
  have "\<not> n - s < 7 \<Longrightarrow> 7 + (n - (s + 7)) = n - s" "n - s < 7 \<Longrightarrow> \<not> s + 7 \<le> n" by arith+
  then show "bit ((acc OR push_bit s (take_bit 7 v)) OR push_bit (s + 7) (drop_bit 7 v)) n \<longleftrightarrow> bit (acc OR push_bit s v) n"
    by (cases "n - s < 7") (auto simp: bit_or_iff bit_push_bit_iff bit_take_bit_iff bit_drop_bit_eq)
qed

lemma uvarint_loop_put:
  "s < 64 \<Longrightarrow> unat v < 2 ^ (64 - s) \<Longrightarrow>
     uvarint_loop (pre @ put_uvarint v @ rest) (length pre) acc s
       = Inr (acc OR push_bit s v, length pre + length (put_uvarint v))"
proof (induction v arbitrary: pre acc s rule: put_uvarint.induct)
  case (1 v)
  show ?case
  proof (cases "v \<ge> 0x80")
    case True
    then have big: "(2 :: nat) ^ 7 \<le> unat v" by (simp add: word_le_nat_alt)
    then have "(2 :: nat) ^ 7 < 2 ^ (64 - s)" using "1.prems"(2) by linarith
    then have s: "s + 7 < 64" using power_less_imp_less_exp [of "2 :: nat" 7 "64 - s"] by simp
    have "unat (drop_bit 7 v) < 2 ^ (64 - (s + 7))"
    proof -
      have "(2 :: nat) ^ (64 - s) = 2 ^ (64 - (s + 7)) * 2 ^ 7" using s by (subst power_add [symmetric]) simp
      then show ?thesis using "1.prems"(2) by (simp add: drop_bit_eq_div unat_div less_mult_imp_div_less)
    qed
    from "1.IH" [OF True s this, of "pre @ [ucast v OR 0x80]" "acc OR push_bit s (take_bit 7 v)"]
    have "uvarint_loop (pre @ (ucast v OR 0x80) # put_uvarint (drop_bit 7 v) @ rest) (Suc (length pre))
        (acc OR push_bit s (take_bit 7 v)) (s + 7)
      = Inr (acc OR push_bit s v, Suc (length pre + length (put_uvarint (drop_bit 7 v))))"
      by (simp only: split_7 append_assoc append_Cons append_Nil length_append length_Cons list.size add_Suc_right add_0_right add_Suc)
    then show ?thesis
      using True "1.prems"(1)
      by (simp add: put_uvarint.simps [of v] uvarint_loop.simps [of _ "length pre"] Let_def uvarint_byte_more del: take_bit_eq_mask)
  next
    case False
    then have "v < 0x80" by (simp add: not_le)
    note uvarint_byte_last [OF this]
    then show ?thesis
      using False "1.prems"(1) by (simp add: put_uvarint.simps [of v] uvarint_loop.simps [of _ "length pre"] Let_def)
  qed
qed

lemma reads_uvarint: "reads_at get_uvarint (put_uvarint v) v"
proof -
  have "unat v < 2 ^ (64 - 0)" using unsigned_less [of v] by simp
  then show ?thesis using uvarint_loop_put [of 0 v _ _ 0] by (simp add: reads_at_def get_uvarint_def)
qed

lemma reads_ivarint: "reads_at get_ivarint (put_ivarint v) v"
  using reads_uvarint [of "zigzag v"]
  by (simp add: reads_at_def get_ivarint_def put_ivarint_def unzigzag_zigzag)

subsection \<open>A difference is added back\<close>

lemma sint_u64: "- (2 ^ 63) \<le> sint a" "sint a < 2 ^ 63" for a :: u64
  using sint_ge [of a] sint_lt [of a] by simp_all

lemma i64_add_sub: "i64_sub ck a b = Some d \<Longrightarrow> i64_add ck b d = Some a"
proof -
  assume s: "i64_sub ck a b = Some d"
  then have r: "ck \<longrightarrow> - (2 ^ 63) \<le> sint a - sint b \<and> sint a - sint b < 2 ^ 63" "d = a - b"
    by (auto simp: i64_sub_def Let_def split: if_splits)
  have "sint d = sint a - sint b" if ck
  proof -
    have "d = word_of_int (sint a - sint b)" using r(2) by (simp add: wi_hom_syms)
    then show ?thesis using r(1) that by (simp only: signed_of_int) (simp add: signed_take_bit_int_eq_self)
  qed
  then show ?thesis using r(2) sint_u64 [of a] by (auto simp: i64_add_def Let_def)
qed

lemma i64_sub_natural: "ck \<longrightarrow> 0 \<le> sint a \<and> 0 \<le> sint b \<Longrightarrow> i64_sub ck a b \<noteq> None"
  using sint_u64 [of a] sint_u64 [of b] by (auto simp: i64_sub_def Let_def)

lemma reads_add: "i64_sub ck v slot = Some d \<Longrightarrow> reads_at (add_ivarint ck slot) (put_ivarint d) v"
  using reads_ivarint [of d] i64_add_sub [of ck v slot d] by (simp add: reads_at_def add_ivarint_def)

lemma put_cumulative_reads:
  "put_cumulative ck prev vs = Some (out, prev') \<Longrightarrow> length prev = length vs \<Longrightarrow>
     prev' = vs \<and> reads_at (add_cumulative ck prev) out vs"
proof (induction ck prev vs arbitrary: out prev' rule: put_cumulative.induct)
  case (1 ck prev)
  then show ?case by (simp add: reads_at_def)
next
  case (3 ck p ps v vs)
  then obtain d rest prev1 where d: "i64_sub ck v p = Some d" "put_cumulative ck ps vs = Some (rest, prev1)"
    "out = put_ivarint d @ rest" "prev' = v # prev1"
    by (auto split: option.splits)
  have e: "add_cumulative ck (p # ps) = rbind (add_ivarint ck p) (\<lambda>v. rbind (add_cumulative ck ps) (\<lambda>vs. rpure (v # vs)))"
    by (intro ext) (simp add: rbind_def rpure_def split: sum.splits prod.splits)
  show ?case
    unfolding e d(3) using "3.IH" [OF d(1,2)] "3.prems"(2) d(4) reads_bind [OF reads_add [OF d(1)] reads_then_pure] by auto
qed simp

lemma length_put_f64 [simp]: "length (put_f64 x) = 8"
  by (simp add: put_f64_def)

lemma f64_read: "word_of_nat (nat_of_le (put_f64 x)) = x"
proof -
  have "unat x < 2 ^ LENGTH(64)" by (rule unsigned_less)
  then have "nat_of_le (put_f64 x) = unat x" by (simp add: put_f64_def nat_of_le_le_nat)
  then show ?thesis by simp
qed

lemma reads_f64: "reads_at (rbind (\<lambda>bs at. take_bytes bs at 8) (\<lambda>raw. rpure (word_of_nat (nat_of_le raw)))) (put_f64 x) x"
  using reads_then_pure [OF reads_take [OF length_put_f64 [of x]], of "\<lambda>raw. word_of_nat (nat_of_le raw) :: u64"]
  unfolding f64_read .

lemma reads_sum: "reads_at get_sum (case t of Some s \<Rightarrow> 1 # put_f64 s | None \<Rightarrow> [0]) t"
proof -
  have e: "get_sum = rbind (\<lambda>bs at. take_bytes bs at 1) (\<lambda>flag.
      if hd flag = 0 then rpure None
      else if hd flag = 1 then rbind (rbind (\<lambda>bs at. take_bytes bs at 8) (\<lambda>raw. rpure (word_of_nat (nat_of_le raw)))) (\<lambda>v. rpure (Some v))
      else (\<lambda>_ _. Inl (HistSumFlag (hd flag))))"
    by (intro ext) (simp add: get_sum_def rbind_def rpure_def split: sum.splits prod.splits)
  show ?thesis
  proof (cases t)
    case None
    have "reads_at (rbind (\<lambda>bs at. take_bytes bs at 1) (\<lambda>flag.
      if hd flag = 0 then rpure None
      else if hd flag = 1 then rbind (rbind (\<lambda>bs at. take_bytes bs at 8) (\<lambda>raw. rpure (word_of_nat (nat_of_le raw)))) (\<lambda>v. rpure (Some v))
      else (\<lambda>_ _. Inl (HistSumFlag (hd flag))))) ([0] @ []) None"
      by (rule reads_bind [OF reads_take]) (simp_all add: reads_pure)
    then show ?thesis unfolding e None by simp
  next
    case (Some s)
    have "reads_at (rbind (\<lambda>bs at. take_bytes bs at 1) (\<lambda>flag.
      if hd flag = 0 then rpure None
      else if hd flag = 1 then rbind (rbind (\<lambda>bs at. take_bytes bs at 8) (\<lambda>raw. rpure (word_of_nat (nat_of_le raw)))) (\<lambda>v. rpure (Some v))
      else (\<lambda>_ _. Inl (HistSumFlag (hd flag))))) ([1] @ put_f64 s) (Some s)"
      by (rule reads_bind [OF reads_take]) (simp_all add: reads_then_pure [OF reads_f64])
    then show ?thesis unfolding e Some by simp
  qed
qed

lemma put_points_reads:
  "put_points ck ts0 c0 prev ps = Some out \<Longrightarrow> \<forall>p \<in> set ps. length (hp_cumulative (snd p)) = length prev \<Longrightarrow>
     reads_at (get_points ck (length ps) bounds ts0 c0 prev) out (map (\<lambda>(t, p). (t, p\<lparr>hp_bounds := bounds\<rparr>)) ps)"
proof (induction ck ts0 c0 prev ps arbitrary: out rule: put_points.induct)
  case (1 ck ts0 c0 prev)
  then show ?case by (simp add: reads_at_def)
next
  case (2 ck ts0 c0 prev ts p ps)
  obtain dts dc cum prev' rest where d: "i64_sub ck ts ts0 = Some dts" "i64_sub ck (hp_count p) c0 = Some dc"
    "put_cumulative ck prev (hp_cumulative p) = Some (cum, prev')" "put_points ck ts (hp_count p) prev' ps = Some rest"
    "out = put_ivarint dts @ put_ivarint dc @ (case hp_sum p of Some s \<Rightarrow> 1 # put_f64 s | None \<Rightarrow> [0]) @ cum @ rest"
    using "2.prems"(1) by (auto simp: Let_def split: option.splits prod.splits)
  have c: "prev' = hp_cumulative p" "reads_at (add_cumulative ck prev) cum (hp_cumulative p)"
    using put_cumulative_reads [OF d(3)] "2.prems"(2) by auto
  have e: "get_points ck (Suc n) bounds ts0 c0 prev =
    rbind (add_ivarint ck ts0) (\<lambda>t. rbind (add_ivarint ck c0) (\<lambda>c. rbind get_sum (\<lambda>s. rbind (add_cumulative ck prev) (\<lambda>cum.
      rbind (get_points ck n bounds t c cum) (\<lambda>ps. rpure
        ((t, \<lparr>hp_bounds = bounds, hp_cumulative = cum, hp_sum = s, hp_count = c\<rparr>) # ps))))))" for n
    by (intro ext) (simp add: rbind_def rpure_def split: sum.splits prod.splits)
  have rest: "reads_at (get_points ck (length ps) bounds ts (hp_count p) prev') rest (map (\<lambda>(t, p). (t, p\<lparr>hp_bounds := bounds\<rparr>)) ps)"
    using "2.IH" [OF d(1,2) refl d(3) refl d(4)] "2.prems"(2) c(1) by auto
  have u: "p\<lparr>hp_bounds := bounds\<rparr> =
    \<lparr>hp_bounds = bounds, hp_cumulative = hp_cumulative p, hp_sum = hp_sum p, hp_count = hp_count p\<rparr>" by (cases p) simp
  have tail: "reads_at (rbind (get_points ck (length ps) bounds ts (hp_count p) (hp_cumulative p)) (\<lambda>ps. rpure
        ((ts, \<lparr>hp_bounds = bounds, hp_cumulative = hp_cumulative p, hp_sum = hp_sum p, hp_count = hp_count p\<rparr>) # ps)))
      rest (map (\<lambda>(t, p). (t, p\<lparr>hp_bounds := bounds\<rparr>)) ((ts, p) # ps))"
    using reads_then_pure [OF rest [unfolded c(1)], of "\<lambda>ps.
      (ts, \<lparr>hp_bounds = bounds, hp_cumulative = hp_cumulative p, hp_sum = hp_sum p, hp_count = hp_count p\<rparr>) # ps"] by (simp add: u)
  show ?case
    unfolding d(5) list.size add_0_right add_Suc_right e
    by (rule reads_bind, rule reads_add [OF d(1)], rule reads_bind, rule reads_add [OF d(2)],
        rule reads_bind, rule reads_sum, rule reads_bind, rule c(2), rule tail)
qed

subsection \<open>Runs\<close>

lemma get_bounds_reads: "reads_at (get_bounds (length bs)) (concat (map put_f64 bs)) bs"
proof (induction bs)
  case Nil
  then show ?case by (simp add: reads_at_def)
next
  case (Cons b bs)
  have e: "get_bounds (Suc n) = rbind (rbind (\<lambda>bs at. take_bytes bs at 8) (\<lambda>raw. rpure (word_of_nat (nat_of_le raw))))
      (\<lambda>x. rbind (get_bounds n) (\<lambda>rest. rpure (x # rest)))" for n
    by (intro ext) (simp add: rbind_def rpure_def split: sum.splits prod.splits)
  have "reads_at (rbind (get_bounds (length bs)) (\<lambda>rest. rpure (b # rest))) (concat (map put_f64 bs)) (b # bs)"
    by (rule reads_then_pure [OF Cons.IH])
  then have "reads_at (get_bounds (Suc (length bs))) (put_f64 b @ concat (map put_f64 bs)) (b # bs)"
    unfolding e by (rule reads_bind [OF reads_f64])
  then show ?case by (simp del: get_bounds.simps)
qed

text \<open>The bounds of a run are those of its first point.\<close>

definition run_of :: "hist_points \<Rightarrow> hist_points" where
  "run_of run = map (\<lambda>(t, p). (t, p\<lparr>hp_bounds := hp_bounds (snd (run ! 0))\<rparr>)) run"

definition run_ok :: "hist_points \<Rightarrow> bool" where
  "run_ok run \<longleftrightarrow> run \<noteq> [] \<and> length run < 2 ^ 64 \<and> length (hp_bounds (snd (run ! 0))) * 8 < 2 ^ 63 \<and>
     (\<forall>p \<in> set run. length (hp_cumulative (snd p)) = length (hp_bounds (snd (run ! 0))))"

lemma unat_length: "n < 2 ^ 64 \<Longrightarrow> unat (word_of_nat n :: u64) = n"
  by (simp add: unat_of_nat)

lemma put_runs_reads:
  "put_runs ck runs = Some out \<Longrightarrow> list_all run_ok runs \<Longrightarrow>
     reads_at (get_runs ck (length runs)) out (concat (map run_of runs))"
proof (induction runs arbitrary: out)
  case Nil
  then show ?case by (simp add: reads_at_def)
next
  case (Cons run runs)
  define bounds where "bounds = hp_bounds (snd (run ! 0))"
  define points where "points = map (\<lambda>(t, p). (t, p\<lparr>hp_bounds := bounds\<rparr>)) run"
  obtain body rest where o: "put_points ck 0 0 (replicate (length bounds) 0) run = Some body" "put_runs ck runs = Some rest"
    "out = put_uvarint (word_of_nat (length bounds)) @ concat (map put_f64 bounds) @ put_uvarint (word_of_nat (length run)) @ body @ rest"
    using Cons.prems(1) by (auto simp: put_run_def bounds_def Let_def split: option.splits)
  have ok: "length run < 2 ^ 64" "length bounds * 8 < 2 ^ 63" "\<forall>p \<in> set run. length (hp_cumulative (snd p)) = length bounds"
    using Cons.prems(2) by (auto simp: run_ok_def bounds_def)
  have n: "unat (word_of_nat (length bounds) :: u64) = length bounds" "unat (word_of_nat (length run) :: u64) = length run"
    using ok(1,2) by (intro unat_length; simp)+
  have e: "get_runs ck (Suc k) = rbind get_uvarint (\<lambda>bound_count.
      if unat bound_count * 8 \<ge> 2 ^ 63 then (\<lambda>_ _. Inl HistPanic)
      else rbind (get_bounds (unat bound_count)) (\<lambda>bounds. rbind get_uvarint (\<lambda>point_count.
        rbind (get_points ck (unat point_count) bounds 0 0 (replicate (unat bound_count) 0)) (\<lambda>ps.
          rbind (get_runs ck k) (\<lambda>rest. rpure (ps @ rest))))))" for k
    by (intro ext) (simp add: rbind_def rpure_def split: sum.splits prod.splits)
  have "reads_at (get_points ck (length run) bounds 0 0 (replicate (length bounds) 0)) body points"
    unfolding points_def using put_points_reads [OF o(1)] ok(3) by simp
  moreover have "reads_at (rbind (get_runs ck (length runs)) (\<lambda>rest. rpure (points @ rest))) rest (points @ concat (map run_of runs))"
    using reads_then_pure [OF Cons.IH [OF o(2)], of "\<lambda>rest. points @ rest"] Cons.prems(2) by simp
  ultimately have "reads_at (rbind (get_points ck (length run) bounds 0 0 (replicate (length bounds) 0)) (\<lambda>ps.
        rbind (get_runs ck (length runs)) (\<lambda>rest. rpure (ps @ rest)))) (body @ rest) (points @ concat (map run_of runs))"
    by (rule reads_bind)
  then have "reads_at (rbind get_uvarint (\<lambda>point_count.
        rbind (get_points ck (unat point_count) bounds 0 0 (replicate (length bounds) 0)) (\<lambda>ps.
          rbind (get_runs ck (length runs)) (\<lambda>rest. rpure (ps @ rest)))))
      (put_uvarint (word_of_nat (length run)) @ body @ rest) (points @ concat (map run_of runs))"
    by (intro reads_bind [OF reads_uvarint]) (simp add: n)
  then have tail: "reads_at (rbind (get_bounds (length bounds)) (\<lambda>bs. rbind get_uvarint (\<lambda>point_count.
        rbind (get_points ck (unat point_count) bs 0 0 (replicate (length bounds) 0)) (\<lambda>ps.
          rbind (get_runs ck (length runs)) (\<lambda>rest. rpure (ps @ rest))))))
      (concat (map put_f64 bounds) @ put_uvarint (word_of_nat (length run)) @ body @ rest) (points @ concat (map run_of runs))"
    by (rule reads_bind [OF get_bounds_reads])
  have "reads_at (get_runs ck (Suc (length runs))) out (points @ concat (map run_of runs))"
    unfolding e o(3) by (rule reads_bind [OF reads_uvarint]) (use ok(2) n tail in simp)
  moreover have "run_of run = points" by (simp add: run_of_def points_def bounds_def)
  ultimately show ?case by (simp del: get_runs.simps)
qed

text \<open>Points of the same run: bounds that are the same bits, or equal doubles one by one.\<close>

definition same_bounds :: "u64 list \<Rightarrow> u64 list \<Rightarrow> bool" where
  "same_bounds a b \<longleftrightarrow> a = b \<or> list_all2 f64_eq a b"

definition runs_inv :: "hist_points \<Rightarrow> nat \<Rightarrow> hist_points list \<times> nat \<Rightarrow> bool" where
  "runs_inv points n acc \<longleftrightarrow> snd acc < n \<and> concat (fst acc) = take (snd acc) points \<and>
     list_all (\<lambda>run. run \<noteq> [] \<and> (\<forall>p \<in> set run. same_bounds (hp_bounds (snd p)) (hp_bounds (snd (run ! 0))))) (fst acc) \<and>
     (\<forall>i. snd acc \<le> i \<and> i < n \<longrightarrow> same_bounds (hp_bounds (snd (points ! i))) (hp_bounds (snd (points ! snd acc))))"

lemma runs_step_inv:
  assumes "runs_inv points n acc" and "n < length points"
  shows "runs_inv points (Suc n) (runs_step points n acc)"
proof -
  obtain runs start where acc: "acc = (runs, start)" by fastforce
  have i: "start < n" "concat runs = take start points"
    "list_all (\<lambda>run. run \<noteq> [] \<and> (\<forall>p \<in> set run. same_bounds (hp_bounds (snd p)) (hp_bounds (snd (run ! 0))))) runs"
    "\<And>i. start \<le> i \<Longrightarrow> i < n \<Longrightarrow> same_bounds (hp_bounds (snd (points ! i))) (hp_bounds (snd (points ! start)))"
    using assms(1) by (auto simp: runs_inv_def acc)
  show ?thesis
  proof (cases "list_all2 f64_eq (hp_bounds (snd (points ! n))) (hp_bounds (snd (points ! start)))")
    case True
    then show ?thesis using i by (auto simp: runs_step_def acc runs_inv_def less_Suc_eq same_bounds_def)
  next
    case False
    define run where "run = take (n - start) (drop start points)"
    have nth: "j < n - start \<Longrightarrow> run ! j = points ! (start + j)" "length run = n - start" for j
      using assms(2) i(1) by (auto simp: run_def)
    have "take n points = take start points @ run"
      using i(1) by (simp add: run_def flip: take_add)
    moreover have "run \<noteq> []" using nth(2) i(1) by auto
    moreover have "same_bounds (hp_bounds (snd p)) (hp_bounds (snd (run ! 0)))" if "p \<in> set run" for p
      using that i(1,4) nth by (auto simp: in_set_conv_nth)
    ultimately show ?thesis
      using False i(2,3)
      by (auto simp: runs_step_def acc runs_inv_def same_bounds_def run_def [symmetric] dest!: le_less_Suc_eq [THEN iffD1, rotated])
  qed
qed

lemma hist_runs_runs:
  "concat (hist_runs points) = points"
  "run \<in> set (hist_runs points) \<Longrightarrow>
     run \<noteq> [] \<and> (\<forall>p \<in> set run. same_bounds (hp_bounds (snd p)) (hp_bounds (snd (run ! 0))))"
proof -
  have "concat (hist_runs points) = points \<and> (\<forall>run \<in> set (hist_runs points).
      run \<noteq> [] \<and> (\<forall>p \<in> set run. same_bounds (hp_bounds (snd p)) (hp_bounds (snd (run ! 0)))))"
  proof (cases "points = []")
    case False
    have "n < length points \<Longrightarrow> runs_inv points (Suc n) (fold (runs_step points) [1..<Suc n] ([], 0))" for n
    proof (induction n)
      case 0
      then show ?case by (simp add: runs_inv_def same_bounds_def)
    next
      case (Suc n)
      then show ?case using runs_step_inv [of points "Suc n"] by simp
    qed
    from this [of "length points - 1"] False
    have "runs_inv points (length points) (fold (runs_step points) [1..<length points] ([], 0))" by simp
    then obtain runs start where f: "fold (runs_step points) [1..<length points] ([], 0) = (runs, start)"
      "start < length points" "concat runs = take start points"
      "list_all (\<lambda>run. run \<noteq> [] \<and> (\<forall>p \<in> set run. same_bounds (hp_bounds (snd p)) (hp_bounds (snd (run ! 0))))) runs"
      "\<And>i. start \<le> i \<Longrightarrow> i < length points \<Longrightarrow> same_bounds (hp_bounds (snd (points ! i))) (hp_bounds (snd (points ! start)))"
      by (cases "fold (runs_step points) [1..<length points] ([], 0)") (auto simp: runs_inv_def)
    have "same_bounds (hp_bounds (snd p)) (hp_bounds (snd (drop start points ! 0)))" if "p \<in> set (drop start points)" for p
      using that f(2,5) by (auto simp: in_set_conv_nth)
    then show ?thesis using f(1-4) False by (auto simp: hist_runs_def list_all_iff)
  qed (simp add: hist_runs_def)
  then show "concat (hist_runs points) = points" "run \<in> set (hist_runs points) \<Longrightarrow>
     run \<noteq> [] \<and> (\<forall>p \<in> set run. same_bounds (hp_bounds (snd p)) (hp_bounds (snd (run ! 0))))" by blast+
qed

subsection \<open>What the chunk promises\<close>

text \<open>Points as the series keeps them: as many counts as bounds, few enough for a vector. A build that checks
  for overflow needs numbers that are natural as signed words, and panics on others.\<close>

definition natural_point :: "u64 \<times> histogram_point \<Rightarrow> bool" where
  "natural_point p \<longleftrightarrow> 0 \<le> sint (fst p) \<and> 0 \<le> sint (hp_count (snd p)) \<and> list_all (\<lambda>v. 0 \<le> sint v) (hp_cumulative (snd p))"

definition point_ok :: "bool \<Rightarrow> u64 \<times> histogram_point \<Rightarrow> bool" where
  "point_ok ck p \<longleftrightarrow> length (hp_cumulative (snd p)) = length (hp_bounds (snd p)) \<and> length (hp_bounds (snd p)) < 2 ^ 60 \<and>
     (ck \<longrightarrow> natural_point p)"

lemma put_cumulative_ok:
  "ck \<longrightarrow> list_all (\<lambda>v. 0 \<le> sint v) vs \<and> list_all (\<lambda>v. 0 \<le> sint v) prev \<Longrightarrow> length prev = length vs \<Longrightarrow>
     \<exists>out. put_cumulative ck prev vs = Some (out, vs)"
proof (induction ck prev vs rule: put_cumulative.induct)
  case (3 ck p ps v vs)
  then obtain d where d: "i64_sub ck v p = Some d" using i64_sub_natural [of ck v p] by auto
  then show ?case using "3.IH" [OF d] "3.prems" by auto
qed auto

lemma put_points_ok:
  "\<forall>p \<in> set ps. point_ok ck p \<and> length (hp_cumulative (snd p)) = length prev \<Longrightarrow>
     ck \<longrightarrow> 0 \<le> sint ts0 \<and> 0 \<le> sint c0 \<and> list_all (\<lambda>v. 0 \<le> sint v) prev \<Longrightarrow> put_points ck ts0 c0 prev ps \<noteq> None"
proof (induction ps arbitrary: ts0 c0 prev)
  case (Cons q ps)
  obtain ts p where q: "q = (ts, p)" by fastforce
  have p: "ck \<longrightarrow> 0 \<le> sint ts \<and> 0 \<le> sint (hp_count p) \<and> list_all (\<lambda>v. 0 \<le> sint v) (hp_cumulative p)" "length (hp_cumulative p) = length prev"
    using Cons.prems(1) by (auto simp: q point_ok_def natural_point_def)
  obtain out where "put_cumulative ck prev (hp_cumulative p) = Some (out, hp_cumulative p)"
    using put_cumulative_ok [of ck "hp_cumulative p" prev] p Cons.prems(2) by auto
  moreover have "put_points ck ts (hp_count p) (hp_cumulative p) ps \<noteq> None"
    using Cons.IH [OF _ p(1)] Cons.prems(1) p(2) by auto
  moreover obtain d where "i64_sub ck ts ts0 = Some d" using i64_sub_natural [of ck ts ts0] p(1) Cons.prems(2) by auto
  moreover obtain d where "i64_sub ck (hp_count p) c0 = Some d" using i64_sub_natural [of ck "hp_count p" c0] p(1) Cons.prems(2) by auto
  ultimately show ?case by (auto simp: q Let_def)
qed simp

lemma same_bounds_length: "same_bounds a b \<Longrightarrow> length a = length b"
  by (auto simp: same_bounds_def dest: list_all2_lengthD)

lemma put_runs_ok: "\<forall>run \<in> set runs. put_run ck run \<noteq> None \<Longrightarrow> put_runs ck runs \<noteq> None"
  by (induction runs) auto

lemma length_le_concat: "\<forall>r \<in> set rs. r \<noteq> [] \<Longrightarrow> length rs \<le> length (concat rs)"
proof (induction rs)
  case (Cons r rs)
  then show ?case by (cases r) auto
qed simp

lemma member_le_concat: "r \<in> set rs \<Longrightarrow> length r \<le> length (concat rs)"
  by (induction rs) auto

text \<open>What is the same of a point read back: everything to the bit but the bounds, which are those
  of the first point of its run.\<close>

definition same_point :: "u64 \<times> histogram_point \<Rightarrow> u64 \<times> histogram_point \<Rightarrow> bool" where
  "same_point p q \<longleftrightarrow> fst p = fst q \<and> hp_cumulative (snd p) = hp_cumulative (snd q) \<and> hp_sum (snd p) = hp_sum (snd q) \<and>
     hp_count (snd p) = hp_count (snd q) \<and> same_bounds (hp_bounds (snd p)) (hp_bounds (snd q))"

text \<open>C38: a histogram chunk gives its points back. In a build that wraps, whatever their numbers are, and in
  one that checks for overflow when they are natural as signed words, points with as many counts as bounds
  are encoded and decoded in order, timestamps, counts and sums to the bit and every bound to the same
  double.\<close>

theorem histogram_roundtrip:
  assumes "list_all (point_ok ck) points" and "length points < 2 ^ 64"
  shows "\<exists>chunk ps. hist_encode ck points = Some chunk \<and> hist_decode ck chunk = Inr ps \<and> list_all2 same_point points ps"
proof -
  let ?runs = "hist_runs points"
  note runs = hist_runs_runs [of points] hist_runs_runs(2) [of _ points]
  have "set run \<subseteq> set points" if "run \<in> set ?runs" for run
    using that runs(1) by (metis UN_upper set_concat)
  then have ok: "point_ok ck p" if "run \<in> set ?runs" "p \<in> set run" for run p
    using that assms(1) by (auto simp: list_all_iff)
  have len: "length (hp_cumulative (snd p)) = length (hp_bounds (snd (run ! 0)))" if "run \<in> set ?runs" "p \<in> set run" for run p
    using ok [OF that] runs(3) [OF that(1)] that(2) same_bounds_length by (force simp: point_ok_def)
  have head: "run ! 0 \<in> set run" if "run \<in> set ?runs" for run using runs(3) [OF that] by (cases run) auto
  have size: "length run < 2 ^ 64" if "run \<in> set ?runs" for run
    using member_le_concat [OF that] runs(1) assms(2) by simp
  have runs_ok: "list_all run_ok ?runs"
    unfolding list_all_iff run_ok_def using runs(3) size len ok [OF _ head] by (fastforce simp: point_ok_def)
  have "put_run ck run \<noteq> None" if "run \<in> set ?runs" for run
    using put_points_ok [of run ck "replicate (length (hp_bounds (snd (run ! 0)))) 0" 0 0] ok [OF that] len [OF that]
    by (auto simp: put_run_def Let_def list_all_iff)
  then obtain out where out: "put_runs ck ?runs = Some out" using put_runs_ok by blast
  define chunk where "chunk = put_uvarint (word_of_nat (length ?runs)) @ out"
  have "length ?runs \<le> length (concat ?runs)" using runs(3) by (intro length_le_concat) blast
  then have n: "unat (word_of_nat (length ?runs) :: u64) = length ?runs" using runs(1) assms(2) by (intro unat_length) simp
  have "reads_at (rbind get_uvarint (\<lambda>n. get_runs ck (unat n))) chunk (concat (map run_of ?runs))"
    unfolding chunk_def by (rule reads_bind [OF reads_uvarint]) (use put_runs_reads [OF out runs_ok] n in simp)
  then have "rbind get_uvarint (\<lambda>n. get_runs ck (unat n)) ([] @ chunk @ []) (length ([] :: bytes)) = Inr (concat (map run_of ?runs), length ([] :: bytes) + length chunk)"
    unfolding reads_at_def by blast
  then have "hist_decode ck chunk = Inr (concat (map run_of ?runs))"
    by (auto simp: hist_decode_def rbind_def split: sum.splits prod.splits)
  moreover have "list_all2 same_point points (concat (map run_of ?runs))"
  proof -
    have "list_all2 same_point run (run_of run)" if "run \<in> set ?runs" for run
      using runs(3) [OF that] by (auto simp: run_of_def list_all2_conv_all_nth same_point_def split: prod.splits) (metis nth_mem snd_conv)
    then have "list_all2 same_point (concat ?runs) (concat (map run_of ?runs))"
      by (intro concat_transfer [THEN rel_funD]) (auto simp: list_all2_map2 list.rel_refl_strong list_all2_same)
    then show ?thesis using runs(1) by simp
  qed
  ultimately show ?thesis using out by (auto simp: hist_encode_def Let_def chunk_def)
qed

text \<open>A reset, and a count no signed word holds, in a build that wraps.\<close>

definition sample_points :: hist_points where
  "sample_points = [(10, \<lparr>hp_bounds = [1], hp_cumulative = [2], hp_sum = None, hp_count = 0xFFFFFFFFFFFFFFFF\<rparr>),
     (20, \<lparr>hp_bounds = [1], hp_cumulative = [1], hp_sum = Some 7, hp_count = 0x7FFFFFFFFFFFFFFF\<rparr>)]"

theorem histogram_roundtrip_witness:
  "\<exists>chunk ps. hist_encode False sample_points = Some chunk \<and> hist_decode False chunk = Inr ps \<and> list_all2 same_point sample_points ps"
proof -
  have "list_all (point_ok False) sample_points" by (simp add: point_ok_def sample_points_def)
  from histogram_roundtrip [OF this] show ?thesis by (simp add: sample_points_def)
qed

end
