(* ===== verification/Deletes.thy ===== *)
theory Deletes
  imports Parts
begin

text \<open>
  \<open>signy/src/delete_requests.rs\<close>: what a tenant asked to have deleted. The rows a request covers
  are hidden from the moment it is in memory; the bucket, where the node has one, keeps the requests
  over a restart. A parsed selector is its matchers and line filters (\<open>logql\<close>), as functions; \<open>parse\<close> is the
  parser. A stored body is the request it encodes.
\<close>

definition max_delete_requests_per_tenant :: nat where
  "max_delete_requests_per_tenant = 100"

datatype delete_status = Received | Processed

record delete_request =
  dr_id :: string
  dr_tenant :: tenant_id
  dr_query :: string
  dr_start :: int
  dr_end :: int
  dr_created_at :: int
  dr_status :: delete_status

record selector =
  sl_matchers :: "((string \<rightharpoonup> string) \<Rightarrow> bool) list"
  sl_line_filters :: "(string \<Rightarrow> bool) list"

record compiled_request =
  cr_request :: delete_request
  cr_selector :: selector

definition request_covers :: "compiled_request \<Rightarrow> (string \<times> string) list \<Rightarrow> int \<Rightarrow> string \<Rightarrow> bool" where
  "request_covers c metadata ts line =
     (if ts < dr_start (cr_request c) \<or> ts \<ge> dr_end (cr_request c) then False
      else
        (let attributes = map_of (rev metadata) in
         if \<not> list_all (\<lambda>m. m attributes) (sl_matchers (cr_selector c)) then False
         else list_all (\<lambda>f. f line) (sl_line_filters (cr_selector c))))"

definition may_be_held_by :: "compiled_request \<Rightarrow> tenant_id \<Rightarrow> part_meta \<Rightarrow> bool" where
  "may_be_held_by c t m =
     list_ex (\<lambda>s. se_tenant s = t \<and> se_min_ts s < dr_end (cr_request c) \<and> se_max_ts s \<ge> dr_start (cr_request c)) (pm_tenants m)"

subsection \<open>The registry\<close>

type_synonym delete_bucket = "((tenant_id \<times> string) \<times> delete_request) list"

type_synonym delete_map = "tenant_id \<rightharpoonup> compiled_request list"

record delete_requests =
  de_by_tenant :: delete_map
  de_outstanding :: nat
  de_bucket :: "delete_bucket option"
  de_accepted :: nat
  de_rejected :: nat
  de_cancelled :: nat

definition requests_of :: "delete_map \<Rightarrow> tenant_id \<Rightarrow> compiled_request list" where
  "requests_of m t = (case m t of None \<Rightarrow> [] | Some cs \<Rightarrow> cs)"

datatype delete_error = DeleteInvalid | TooManyDeletes | DeleteNotFound | DeleteStorage

text \<open>The three parts of \<open>submit\<close> between which another task can run: the checks, the write to the
  bucket (none without one: \<open>storage\<close> is \<open>None\<close> on a node that keeps its data on its own disk), the
  entry in memory.\<close>

definition submit_checks ::
    "(string \<Rightarrow> selector option) \<Rightarrow> string \<Rightarrow> tenant_id \<Rightarrow> string \<Rightarrow> int \<Rightarrow> int \<Rightarrow> int \<Rightarrow> delete_requests
       \<Rightarrow> (delete_error + compiled_request) \<times> delete_requests" where
  "submit_checks parse uuid t query start_ns end_ns now ds =
     (if end_ns \<le> start_ns then (Inl DeleteInvalid, ds)
      else (case parse query of
              None \<Rightarrow> (Inl DeleteInvalid, ds)
            | Some sel \<Rightarrow>
                if length (requests_of (de_by_tenant ds) t) \<ge> max_delete_requests_per_tenant
                then (Inl TooManyDeletes, ds\<lparr>de_rejected := de_rejected ds + 1\<rparr>)
                else (Inr \<lparr>cr_request = \<lparr>dr_id = uuid, dr_tenant = t, dr_query = query, dr_start = start_ns, dr_end = end_ns,
                                       dr_created_at = now, dr_status = Received\<rparr>, cr_selector = sel\<rparr>, ds)))"

definition submit_stores :: "bool \<Rightarrow> compiled_request \<Rightarrow> delete_requests \<Rightarrow> (delete_error + unit) \<times> delete_requests" where
  "submit_stores works c ds =
     (case de_bucket ds of
        None \<Rightarrow> (Inr (), ds)
      | Some bucket \<Rightarrow>
          if works
          then (Inr (), ds\<lparr>de_bucket := Some (AList.update (dr_tenant (cr_request c), dr_id (cr_request c)) (cr_request c) bucket)\<rparr>)
          else (Inl DeleteStorage, ds))"

definition submit_enters :: "compiled_request \<Rightarrow> delete_requests \<Rightarrow> (delete_error + delete_request) \<times> delete_requests" where
  "submit_enters c ds =
     (let t = dr_tenant (cr_request c); requests = requests_of (de_by_tenant ds) t in
      if length requests \<ge> max_delete_requests_per_tenant
      then (Inl TooManyDeletes, ds\<lparr>de_by_tenant := (de_by_tenant ds)(t \<mapsto> requests), de_rejected := de_rejected ds + 1\<rparr>)
      else (Inr (cr_request c),
            ds\<lparr>de_by_tenant := (de_by_tenant ds)(t \<mapsto> requests @ [c]), de_outstanding := de_outstanding ds + 1,
               de_accepted := de_accepted ds + 1\<rparr>))"

text \<open>The same of \<open>cancel\<close>.\<close>

definition cancel_checks :: "tenant_id \<Rightarrow> string \<Rightarrow> delete_requests \<Rightarrow> delete_error + unit" where
  "cancel_checks t i ds =
     (case find (\<lambda>c. dr_id (cr_request c) = i) (requests_of (de_by_tenant ds) t) of
        None \<Rightarrow> Inl DeleteNotFound
      | Some c \<Rightarrow> if dr_status (cr_request c) = Processed then Inl DeleteInvalid else Inr ())"

definition cancel_unstores :: "tenant_id \<Rightarrow> string \<Rightarrow> delete_requests \<Rightarrow> delete_requests" where
  "cancel_unstores t i ds =
     (case de_bucket ds of None \<Rightarrow> ds | Some bucket \<Rightarrow> ds\<lparr>de_bucket := Some (AList.delete (t, i) bucket)\<rparr>)"

definition cancel_leaves :: "tenant_id \<Rightarrow> string \<Rightarrow> delete_requests \<Rightarrow> delete_requests" where
  "cancel_leaves t i ds =
     (case de_by_tenant ds t of
        None \<Rightarrow> ds
      | Some requests \<Rightarrow>
          (let kept = filter (\<lambda>c. dr_id (cr_request c) \<noteq> i) requests; removed = length requests - length kept
           in ds\<lparr>de_by_tenant := (de_by_tenant ds)(t \<mapsto> kept), de_outstanding := de_outstanding ds - removed,
                 de_cancelled := de_cancelled ds + removed\<rparr>))"

definition deletes_list :: "delete_requests \<Rightarrow> tenant_id \<Rightarrow> delete_request list" where
  "deletes_list ds t = map cr_request (requests_of (de_by_tenant ds) t)"

definition mask_for :: "delete_requests \<Rightarrow> tenant_id \<Rightarrow> compiled_request list" where
  "mask_for ds t = (if de_outstanding ds = 0 then [] else requests_of (de_by_tenant ds) t)"

definition mask_hides :: "compiled_request list \<Rightarrow> (string \<times> string) list \<Rightarrow> int \<Rightarrow> string \<Rightarrow> bool" where
  "mask_hides requests metadata ts line = list_ex (\<lambda>c. request_covers c metadata ts line) requests"

definition delete_masks :: "delete_requests \<Rightarrow> delete_map" where
  "delete_masks ds = (if de_outstanding ds = 0 then (\<lambda>_. None) else de_by_tenant ds)"

definition hides_row :: "delete_map \<Rightarrow> tenant_id \<Rightarrow> int \<Rightarrow> string \<Rightarrow> (string \<times> string) list \<Rightarrow> bool" where
  "hides_row masks t ts line metadata =
     (case masks t of None \<Rightarrow> False | Some requests \<Rightarrow> list_ex (\<lambda>c. request_covers c metadata ts line) requests)"

text \<open>\<open>tenants\<close> is the order the map is walked in.\<close>

definition may_cover_part :: "tenant_id list \<Rightarrow> delete_map \<Rightarrow> part_meta \<Rightarrow> bool" where
  "may_cover_part tenants masks m = list_ex (\<lambda>t. list_ex (\<lambda>c. may_be_held_by c t m) (requests_of masks t)) tenants"

definition process_request :: "part_meta list \<Rightarrow> tenant_id \<Rightarrow> compiled_request \<Rightarrow> compiled_request" where
  "process_request metas t c =
     (if dr_status (cr_request c) = Processed then c
      else if \<not> list_ex (may_be_held_by c t) metas then c\<lparr>cr_request := (cr_request c)\<lparr>dr_status := Processed\<rparr>\<rparr>
      else c)"

definition mark_processed :: "part_meta list \<Rightarrow> delete_requests \<Rightarrow> delete_requests" where
  "mark_processed metas ds =
     (if de_outstanding ds = 0 then ds
      else ds\<lparr>de_by_tenant := (\<lambda>t. map_option (map (process_request metas t)) (de_by_tenant ds t))\<rparr>)"

text \<open>A start: every stored body, or no start at all. Without a bucket there is nothing to load.\<close>

fun load_requests ::
    "(string \<Rightarrow> selector option) \<Rightarrow> delete_request list \<Rightarrow> delete_map \<Rightarrow> nat \<Rightarrow> (delete_map \<times> nat) option" where
  "load_requests parse [] m loaded = Some (m, loaded)"
| "load_requests parse (r # rs) m loaded =
     (case tenant_parse (dr_tenant r) of
        Inl _ \<Rightarrow> None
      | Inr t \<Rightarrow>
          (case parse (dr_query r) of
             None \<Rightarrow> None
           | Some sel \<Rightarrow>
               load_requests parse rs (m(t \<mapsto> requests_of m t @ [\<lparr>cr_request = r, cr_selector = sel\<rparr>])) (loaded + 1)))"

definition deletes_load :: "(string \<Rightarrow> selector option) \<Rightarrow> delete_bucket option \<Rightarrow> delete_requests option" where
  "deletes_load parse storage =
     map_option (\<lambda>(m, loaded). \<lparr>de_by_tenant = m, de_outstanding = loaded, de_bucket = storage, de_accepted = 0,
        de_rejected = 0, de_cancelled = 0\<rparr>)
       (case storage of None \<Rightarrow> Some (\<lambda>_. None, 0) | Some bucket \<Rightarrow> load_requests parse (map snd bucket) (\<lambda>_. None) 0)"

definition bucket_requests :: "delete_requests \<Rightarrow> delete_bucket" where
  "bucket_requests ds = (case de_bucket ds of None \<Rightarrow> [] | Some bucket \<Rightarrow> bucket)"

subsection \<open>Tasks side by side\<close>

datatype delete_task =
    Checked compiled_request
  | Stored compiled_request
  | Cancelling tenant_id string
  | Unstored tenant_id string
  | Removed tenant_id string

text \<open>The tasks under way, the requests that were refused, and the identifiers ever given out. A call
  of the bucket that fails, or whose client goes away, may have done nothing or all of it:
  \<open>store_unknown\<close> leaves a request in the bucket nobody was told of, \<open>unstore_unknown\<close> one in
  memory the bucket has no more, which \<open>Removed\<close> records.\<close>

record delete_system =
  sy_state :: delete_requests
  sy_tasks :: "delete_task list"
  sy_refused :: "delete_request list"
  sy_ids :: "string set"

inductive delete_step :: "(string \<Rightarrow> selector option) \<Rightarrow> delete_system \<Rightarrow> delete_system \<Rightarrow> bool" for parse where
  check: "delete_step parse s (s\<lparr>sy_state := ds, sy_tasks := sy_tasks s @ [Checked c], sy_ids := insert uuid (sy_ids s)\<rparr>)"
    if "submit_checks parse uuid t query start_ns end_ns now (sy_state s) = (Inr c, ds)" and "is_tenant t" and "uuid \<notin> sy_ids s"
| check_fails: "delete_step parse s (s\<lparr>sy_state := ds\<rparr>)"
    if "submit_checks parse uuid t query start_ns end_ns now (sy_state s) = (Inl e, ds)"
| store: "delete_step parse s (s\<lparr>sy_state := ds, sy_tasks := a @ Stored c # b\<rparr>)"
    if "sy_tasks s = a @ Checked c # b" and "submit_stores True c (sy_state s) = (Inr (), ds)"
| store_fails: "delete_step parse s (s\<lparr>sy_tasks := a @ b\<rparr>)"
    if "sy_tasks s = a @ Checked c # b"
| store_unknown: "delete_step parse s (s\<lparr>sy_state := ds, sy_tasks := a @ b\<rparr>)"
    if "sy_tasks s = a @ Checked c # b" and "submit_stores True c (sy_state s) = (Inr (), ds)"
| enter: "delete_step parse s (s\<lparr>sy_state := ds, sy_tasks := a @ b\<rparr>)"
    if "sy_tasks s = a @ Stored c # b" and "submit_enters c (sy_state s) = (Inr r, ds)"
| refuse: "delete_step parse s (s\<lparr>sy_state := ds, sy_tasks := a @ b, sy_refused := sy_refused s @ [cr_request c]\<rparr>)"
    if "sy_tasks s = a @ Stored c # b" and "submit_enters c (sy_state s) = (Inl e, ds)"
| cancel: "delete_step parse s (s\<lparr>sy_tasks := sy_tasks s @ [Cancelling t i]\<rparr>)"
    if "cancel_checks t i (sy_state s) = Inr ()"
| unstore: "delete_step parse s (s\<lparr>sy_state := cancel_unstores t i (sy_state s), sy_tasks := a @ Unstored t i # b\<rparr>)"
    if "sy_tasks s = a @ Cancelling t i # b"
| unstore_fails: "delete_step parse s (s\<lparr>sy_tasks := a @ b\<rparr>)"
    if "sy_tasks s = a @ Cancelling t i # b"
| unstore_unknown: "delete_step parse s (s\<lparr>sy_state := cancel_unstores t i (sy_state s), sy_tasks := a @ Removed t i # b\<rparr>)"
    if "sy_tasks s = a @ Cancelling t i # b"
| leave: "delete_step parse s (s\<lparr>sy_state := cancel_leaves t i (sy_state s), sy_tasks := a @ b\<rparr>)"
    if "sy_tasks s = a @ Unstored t i # b"
| process: "delete_step parse s (s\<lparr>sy_state := mark_processed metas (sy_state s)\<rparr>)"

definition bucket_ok :: "delete_bucket \<Rightarrow> bool" where
  "bucket_ok bucket \<longleftrightarrow> distinct (map fst bucket) \<and>
     (\<forall>((t, i), r) \<in> set bucket. dr_tenant r = t \<and> dr_id r = i \<and> is_tenant t)"

inductive delete_reachable :: "(string \<Rightarrow> selector option) \<Rightarrow> delete_system \<Rightarrow> bool" for parse where
  start: "delete_reachable parse \<lparr>sy_state = ds, sy_tasks = [], sy_refused = [], sy_ids = (\<lambda>((t, i), r). i) ` set (bucket_requests ds)\<rparr>"
    if "deletes_load parse storage = Some ds" and "bucket_ok (bucket_requests ds)"
| step: "delete_reachable parse s \<Longrightarrow> delete_step parse s s' \<Longrightarrow> delete_reachable parse s'"

subsection \<open>What holds between the steps\<close>

abbreviation request_id :: "compiled_request \<Rightarrow> string" where
  "request_id c \<equiv> dr_id (cr_request c)"

definition compiled_ok :: "(string \<Rightarrow> selector option) \<Rightarrow> compiled_request \<Rightarrow> bool" where
  "compiled_ok parse c \<longleftrightarrow> is_tenant (dr_tenant (cr_request c)) \<and> parse (dr_query (cr_request c)) = Some (cr_selector c)"

fun pending :: "delete_task list \<Rightarrow> string list" where
  "pending [] = []"
| "pending (Checked c # xs) = request_id c # pending xs"
| "pending (Stored c # xs) = request_id c # pending xs"
| "pending (_ # xs) = pending xs"

definition cancel_ids :: "delete_task list \<Rightarrow> string set" where
  "cancel_ids xs = {i. \<exists>t. Cancelling t i \<in> set xs \<or> Unstored t i \<in> set xs \<or> Removed t i \<in> set xs}"

definition memory_ids :: "delete_map \<Rightarrow> string set" where
  "memory_ids m = (\<Union>t. request_id ` set (requests_of m t))"

definition durable :: "delete_requests \<Rightarrow> compiled_request \<Rightarrow> bool" where
  "durable ds c \<longleftrightarrow> de_bucket ds = None \<or> (\<exists>st. map_of (bucket_requests ds) (dr_tenant (cr_request c), request_id c) = Some ((cr_request c)\<lparr>dr_status := st\<rparr>))"

definition held_request :: "(string \<Rightarrow> selector option) \<Rightarrow> delete_requests \<Rightarrow> delete_task list \<Rightarrow> tenant_id \<Rightarrow> compiled_request \<Rightarrow> bool" where
  "held_request parse ds tasks t c \<longleftrightarrow> dr_tenant (cr_request c) = t \<and> compiled_ok parse c \<and>
     (Unstored t (request_id c) \<in> set tasks \<or> Removed t (request_id c) \<in> set tasks \<or> durable ds c)"

fun task_ok :: "(string \<Rightarrow> selector option) \<Rightarrow> delete_requests \<Rightarrow> delete_task \<Rightarrow> bool" where
  "task_ok parse ds (Checked c) = compiled_ok parse c"
| "task_ok parse ds (Stored c) = (compiled_ok parse c \<and> durable ds c)"
| "task_ok parse ds _ = True"

definition bucket_parses :: "(string \<Rightarrow> selector option) \<Rightarrow> delete_requests \<Rightarrow> bool" where
  "bucket_parses parse ds \<longleftrightarrow> (\<forall>(k, r) \<in> set (bucket_requests ds). parse (dr_query r) \<noteq> None)"

definition requests_held :: "delete_map \<Rightarrow> nat" where
  "requests_held m = (\<Sum>t \<in> dom m. length (requests_of m t))"

definition delete_inv :: "(string \<Rightarrow> selector option) \<Rightarrow> delete_system \<Rightarrow> bool" where
  "delete_inv parse s \<longleftrightarrow>
     bucket_ok (bucket_requests (sy_state s)) \<and> bucket_parses parse (sy_state s) \<and>
     (\<forall>t. \<forall>c \<in> set (requests_of (de_by_tenant (sy_state s)) t). held_request parse (sy_state s) (sy_tasks s) t c) \<and>
     (\<forall>x \<in> set (sy_tasks s). task_ok parse (sy_state s) x) \<and>
     distinct (pending (sy_tasks s)) \<and>
     set (pending (sy_tasks s)) \<inter> (memory_ids (de_by_tenant (sy_state s)) \<union> cancel_ids (sy_tasks s)) = {} \<and>
     memory_ids (de_by_tenant (sy_state s)) \<union> cancel_ids (sy_tasks s) \<union> set (pending (sy_tasks s)) \<subseteq> sy_ids s \<and>
     finite (dom (de_by_tenant (sy_state s))) \<and> de_outstanding (sy_state s) = requests_held (de_by_tenant (sy_state s))"

lemma pending_append [simp]: "pending (a @ b) = pending a @ pending b"
  by (induction a rule: pending.induct) auto

lemma pending_stored: "Stored c \<in> set xs \<Longrightarrow> request_id c \<in> set (pending xs)"
  by (induction xs rule: pending.induct) auto

lemma cancel_ids_simps [simp]:
  "cancel_ids [] = {}"
  "cancel_ids (a @ b) = cancel_ids a \<union> cancel_ids b"
  "cancel_ids (Checked c # b) = cancel_ids b"
  "cancel_ids (Stored c # b) = cancel_ids b"
  "cancel_ids (Cancelling t i # b) = insert i (cancel_ids b)"
  "cancel_ids (Unstored t i # b) = insert i (cancel_ids b)"
  "cancel_ids (Removed t i # b) = insert i (cancel_ids b)"
  by (auto simp: cancel_ids_def)

lemma requests_of_update [simp]:
  "requests_of (m(t \<mapsto> cs)) u = (if u = t then cs else requests_of m u)"
  by (simp add: requests_of_def)

lemma memory_ids_split:
  "memory_ids m = request_id ` set (requests_of m t) \<union> (\<Union>u \<in> - {t}. request_id ` set (requests_of m u))"
  unfolding memory_ids_def by blast

lemma memory_ids_update:
  "memory_ids (m(t \<mapsto> cs)) = request_id ` set cs \<union> (\<Union>u \<in> - {t}. request_id ` set (requests_of m u))"
  by (subst memory_ids_split [of _ t]) simp

lemma memory_ids_add [simp]: "memory_ids (m(t \<mapsto> requests_of m t @ [c])) = insert (request_id c) (memory_ids m)"
  unfolding memory_ids_update memory_ids_split [of m t] by simp

lemma memory_ids_keep:
  assumes "set cs \<subseteq> set (requests_of m t)"
  shows "memory_ids (m(t \<mapsto> cs)) \<subseteq> memory_ids m"
  unfolding memory_ids_update memory_ids_split [of m t] using assms by blast

lemma memory_idI: "c \<in> set (requests_of m t) \<Longrightarrow> request_id c \<in> memory_ids m"
  unfolding memory_ids_def by blast

lemma memory_ids_map:
  assumes "\<And>t. map request_id (requests_of m' t) = map request_id (requests_of m t)"
  shows "memory_ids m' = memory_ids m"
proof -
  have "request_id ` set (requests_of m' t) = request_id ` set (requests_of m t)" for t
    using assms [of t] by (metis list.set_map)
  then show ?thesis by (simp add: memory_ids_def)
qed

lemma requests_held_update:
  assumes "finite (dom m)"
  shows "requests_held (m(t \<mapsto> cs)) + length (requests_of m t) = requests_held m + length cs"
proof -
  have e: "requests_held (m(t \<mapsto> cs)) = length cs + (\<Sum>u \<in> dom m - {t}. length (requests_of m u))"
  proof -
    have "dom (m(t \<mapsto> cs)) = insert t (dom m - {t})" by auto
    then have "requests_held (m(t \<mapsto> cs)) = (\<Sum>u \<in> insert t (dom m - {t}). length (requests_of (m(t \<mapsto> cs)) u))"
      by (simp only: requests_held_def)
    also have "\<dots> = length cs + (\<Sum>u \<in> dom m - {t}. length (requests_of (m(t \<mapsto> cs)) u))"
      using assms by (subst sum.insert) auto
    also have "(\<Sum>u \<in> dom m - {t}. length (requests_of (m(t \<mapsto> cs)) u)) = (\<Sum>u \<in> dom m - {t}. length (requests_of m u))"
      by (rule sum.cong) auto
    finally show ?thesis .
  qed
  show ?thesis
  proof (cases "t \<in> dom m")
    case True
    then have "requests_held m = length (requests_of m t) + (\<Sum>u \<in> dom m - {t}. length (requests_of m u))"
      unfolding requests_held_def using assms by (rule sum.remove [rotated])
    then show ?thesis using e by simp
  next
    case False
    then have "requests_of m t = []" "dom m - {t} = dom m" by (auto simp: requests_of_def dom_def)
    then show ?thesis using e by (simp add: requests_held_def)
  qed
qed

lemma requests_of_length_le:
  assumes "finite (dom m)"
  shows "length (requests_of m t) \<le> requests_held m"
  using requests_held_update [OF assms, of t "requests_of m t"] requests_held_update [OF assms, of t "[]"] by simp

subsection \<open>Every step keeps it\<close>

lemma bucket_requests_cong: "de_bucket ds' = de_bucket ds \<Longrightarrow> bucket_requests ds' = bucket_requests ds"
  by (simp add: bucket_requests_def)

lemma durable_cong: "de_bucket ds' = de_bucket ds \<Longrightarrow> durable ds' c = durable ds c"
  by (simp add: durable_def bucket_requests_def)

lemma held_request_cong:
  "de_bucket ds' = de_bucket ds \<Longrightarrow> held_request parse ds' tasks t c = held_request parse ds tasks t c"
  by (simp add: held_request_def durable_def bucket_requests_def)

lemma task_ok_cong: "de_bucket ds' = de_bucket ds \<Longrightarrow> task_ok parse ds' x = task_ok parse ds x"
  by (cases x) (simp_all add: durable_def bucket_requests_def)

lemma bucket_requests_some [simp]: "de_bucket ds = Some bucket \<Longrightarrow> bucket_requests ds = bucket"
  by (simp add: bucket_requests_def)

lemma bucket_requests_unstores [simp]: "bucket_requests (cancel_unstores t i ds) = AList.delete (t, i) (bucket_requests ds)"
  by (simp add: cancel_unstores_def bucket_requests_def split: option.splits)

lemma unstores_same [simp]:
  "de_by_tenant (cancel_unstores t i ds) = de_by_tenant ds" "de_outstanding (cancel_unstores t i ds) = de_outstanding ds"
  "de_bucket (cancel_unstores t i ds) = None \<longleftrightarrow> de_bucket ds = None"
  by (simp_all add: cancel_unstores_def split: option.splits)

lemma stored_state:
  assumes "submit_stores True c ds0 = (Inr (), ds)"
  shows "de_by_tenant ds = de_by_tenant ds0" and "de_outstanding ds = de_outstanding ds0"
    and "de_bucket ds = None \<longleftrightarrow> de_bucket ds0 = None"
    and "bucket_requests ds = (if de_bucket ds0 = None then [] else AList.update (dr_tenant (cr_request c), request_id c) (cr_request c) (bucket_requests ds0))"
  using assms by (auto simp: submit_stores_def bucket_requests_def split: option.splits)

lemma durable_store:
  assumes "submit_stores True c ds0 = (Inr (), ds)" and "request_id c' \<noteq> request_id c" and "durable ds0 c'"
  shows "durable ds c'"
  using assms(2,3) by (auto simp: durable_def stored_state [OF assms(1)] update_conv')

lemma durable_unstore:
  assumes "(dr_tenant (cr_request c), request_id c) \<noteq> (t, i)" and "durable ds c"
  shows "durable (cancel_unstores t i ds) c"
  using assms by (auto simp: durable_def delete_conv')

lemma set_update_subset: "set (AList.update k v al) \<subseteq> insert (k, v) (set al)"
  by (induction al) auto

lemma set_delete_subset: "set (AList.delete k al) \<subseteq> set al"
  by (induction al) auto

lemma bucket_ok_update:
  assumes "bucket_ok bucket" and "is_tenant (dr_tenant r)"
  shows "bucket_ok (AList.update (dr_tenant r, dr_id r) r bucket)"
  using assms set_update_subset [of "(dr_tenant r, dr_id r)" r bucket] unfolding bucket_ok_def
  by (auto intro!: distinct_update)

lemma bucket_ok_delete: "bucket_ok bucket \<Longrightarrow> bucket_ok (AList.delete k bucket)"
  using set_delete_subset [of k bucket] unfolding bucket_ok_def
  by (auto simp: delete_keys distinct_removeAll)

lemma bucket_parses_update:
  assumes "bucket_parses parse ds0" and "parse (dr_query (cr_request c)) \<noteq> None" and "submit_stores True c ds0 = (Inr (), ds)"
  shows "bucket_parses parse ds"
  using assms(1,2) set_update_subset [of "(dr_tenant (cr_request c), request_id c)" "cr_request c" "bucket_requests ds0"]
  unfolding bucket_parses_def stored_state(4) [OF assms(3)] by (cases "de_bucket ds0 = None") auto

lemma bucket_parses_delete: "bucket_parses parse ds \<Longrightarrow> bucket_parses parse (cancel_unstores t i ds)"
  using set_delete_subset [of "(t, i)" "bucket_requests ds"] unfolding bucket_parses_def by auto

text \<open>A step that leaves the bucket and the map alone.\<close>

lemma delete_inv_tasks:
  assumes "delete_inv parse s" and "de_bucket ds = de_bucket (sy_state s)" and "de_by_tenant ds = de_by_tenant (sy_state s)"
    and "de_outstanding ds = de_outstanding (sy_state s)" and "\<forall>x \<in> set tasks. task_ok parse (sy_state s) x"
    and "\<forall>t i. Unstored t i \<in> set (sy_tasks s) \<longrightarrow> Unstored t i \<in> set tasks"
    and "\<forall>t i. Removed t i \<in> set (sy_tasks s) \<longrightarrow> Removed t i \<in> set tasks"
    and "distinct (pending tasks)" and "set (pending tasks) \<inter> (memory_ids (de_by_tenant ds) \<union> cancel_ids tasks) = {}"
    and "cancel_ids tasks \<union> set (pending tasks) \<subseteq> ids" and "sy_ids s \<subseteq> ids"
  shows "delete_inv parse \<lparr>sy_state = ds, sy_tasks = tasks, sy_refused = refused, sy_ids = ids\<rparr>"
proof -
  have h: "held_request parse ds tasks t c" if "held_request parse (sy_state s) (sy_tasks s) t c" for t c
    using that assms(6,7) unfolding held_request_def durable_cong [OF assms(2)] by blast
  have b: "bucket_requests ds = bucket_requests (sy_state s)" using assms(2) by (simp add: bucket_requests_def)
  have p: "bucket_parses parse ds" using assms(1) b by (simp add: delete_inv_def bucket_parses_def)
  have k: "\<forall>x \<in> set tasks. task_ok parse ds x" using assms(5) task_ok_cong [OF assms(2)] by blast
  show ?thesis using assms(1,3,4,8-11) p k h unfolding delete_inv_def b by (simp add: b assms(3,4)) blast
qed

lemma submit_checks_results:
  assumes "submit_checks parse uuid t query start_ns end_ns now ds0 = (res, ds)"
  shows "de_bucket ds = de_bucket ds0" and "de_by_tenant ds = de_by_tenant ds0" and "de_outstanding ds = de_outstanding ds0"
    and "res = Inr c \<Longrightarrow> dr_id (cr_request c) = uuid \<and> dr_tenant (cr_request c) = t \<and>
      parse (dr_query (cr_request c)) = Some (cr_selector c)"
  using assms by (auto simp: submit_checks_def split: if_splits option.splits)

lemma delete_inv_check:
  assumes "delete_inv parse s" and "submit_checks parse uuid t query start_ns end_ns now (sy_state s) = (Inr c, ds)"
    and "is_tenant t" and "uuid \<notin> sy_ids s"
  shows "delete_inv parse (s\<lparr>sy_state := ds, sy_tasks := sy_tasks s @ [Checked c], sy_ids := insert uuid (sy_ids s)\<rparr>)"
proof -
  note r = submit_checks_results [OF assms(2)]
  have c: "request_id c = uuid" "compiled_ok parse c" using r(4) [OF refl] assms(3) by (auto simp: compiled_ok_def)
  have i: "uuid \<notin> memory_ids (de_by_tenant (sy_state s))" "uuid \<notin> cancel_ids (sy_tasks s)" "uuid \<notin> set (pending (sy_tasks s))"
    using assms(1,4) by (auto simp: delete_inv_def)
  have "delete_inv parse \<lparr>sy_state = ds, sy_tasks = sy_tasks s @ [Checked c], sy_refused = sy_refused s, sy_ids = insert uuid (sy_ids s)\<rparr>"
    by (rule delete_inv_tasks [OF assms(1) r(1-3)])
      (use assms(1) c i in \<open>auto simp: delete_inv_def r(2)\<close>)
  then show ?thesis by (cases s) simp
qed

lemma delete_inv_store:
  assumes "delete_inv parse s" and "sy_tasks s = a @ Checked c # b" and "submit_stores True c (sy_state s) = (Inr (), ds')"
  shows "delete_inv parse (s\<lparr>sy_state := ds', sy_tasks := a @ Stored c # b\<rparr>)"
proof -
  note e = stored_state [OF assms(3)]
  note inv = assms(1) [unfolded delete_inv_def assms(2)]
  have c: "compiled_ok parse c" using inv by simp
  have keep: "durable ds' c'" if "request_id c' \<noteq> request_id c" "durable (sy_state s) c'" for c'
    by (rule durable_store [OF assms(3) that])
  have new: "durable ds' c" by (auto simp: durable_def e update_conv' intro: exI [of _ "dr_status (cr_request c)"])
  have n: "request_id c \<notin> memory_ids (de_by_tenant (sy_state s))" "request_id c \<notin> set (pending a)" "request_id c \<notin> set (pending b)"
    using inv by auto
  have held: "held_request parse ds' (a @ Stored c # b) t c'" if "c' \<in> set (requests_of (de_by_tenant (sy_state s)) t)" for t c'
  proof -
    have "request_id c' \<noteq> request_id c" using n(1) memory_idI [OF that] by auto
    moreover have "held_request parse (sy_state s) (a @ Checked c # b) t c'" using inv that by blast
    ultimately show ?thesis using keep [of c'] by (auto simp: held_request_def)
  qed
  have tasks: "task_ok parse ds' x" if x: "x \<in> set a \<union> set b" for x
  proof -
    have k: "task_ok parse (sy_state s) x" using inv x by auto
    show ?thesis
    proof (cases x)
      case (Stored c')
      have "request_id c' \<in> set (pending a) \<union> set (pending b)" using x Stored pending_stored by blast
      then have "request_id c' \<noteq> request_id c" using n by auto
      then show ?thesis using k Stored keep [of c'] by simp
    qed (use k in simp_all)
  qed
  have "bucket_ok (bucket_requests ds')"
    using inv c bucket_ok_update [of "bucket_requests (sy_state s)" "cr_request c"]
    by (cases "de_bucket (sy_state s) = None") (simp_all add: e(4) compiled_ok_def bucket_ok_def [of "[]"])
  moreover have "bucket_parses parse ds'"
    by (rule bucket_parses_update [OF _ _ assms(3)]) (use inv c in \<open>simp_all add: compiled_ok_def\<close>)
  ultimately show ?thesis using inv c held tasks new unfolding delete_inv_def by (simp add: e(1,2))
qed

lemma delete_inv_drop:
  assumes "delete_inv parse s" and "sy_tasks s = a @ x # b" and "\<forall>t i. x \<noteq> Unstored t i" and "\<forall>t i. x \<noteq> Removed t i"
  shows "delete_inv parse (s\<lparr>sy_tasks := a @ b\<rparr>)"
proof -
  note inv = assms(1) [unfolded delete_inv_def assms(2)]
  have p: "pending (x # b) = pending b \<or> (\<exists>i. pending (x # b) = i # pending b)" by (cases x) auto
  have c: "cancel_ids b \<subseteq> cancel_ids (x # b)" by (auto simp: cancel_ids_def)
  have "delete_inv parse \<lparr>sy_state = sy_state s, sy_tasks = a @ b, sy_refused = sy_refused s, sy_ids = sy_ids s\<rparr>"
    by (rule delete_inv_tasks [OF assms(1) refl refl refl])
      (use inv p c assms(2-4) in \<open>auto dest: sym\<close>)
  then show ?thesis by (cases s) simp
qed

lemma delete_inv_entry:
  assumes "delete_inv parse s"
  shows "delete_inv parse (s\<lparr>sy_state := (sy_state s)\<lparr>de_by_tenant := (de_by_tenant (sy_state s))(t \<mapsto> requests_of (de_by_tenant (sy_state s)) t),
    de_rejected := n\<rparr>, sy_refused := rs\<rparr>)"
proof -
  define m where "m = de_by_tenant (sy_state s)"
  define m' where "m' = m(t \<mapsto> requests_of m t)"
  define ds where "ds = (sy_state s)\<lparr>de_by_tenant := m', de_rejected := n\<rparr>"
  note inv = assms [unfolded delete_inv_def, folded m_def]
  have r: "requests_of m' u = requests_of m u" for u by (simp add: m'_def)
  have i: "memory_ids m' = memory_ids m" by (rule memory_ids_map) (simp add: r)
  have q: "requests_held m' = requests_held m" "finite (dom m')"
    using inv requests_held_update [of m t "requests_of m t"] by (simp_all add: m'_def)
  have e: "de_bucket ds = de_bucket (sy_state s)" "de_by_tenant ds = m'" "de_outstanding ds = de_outstanding (sy_state s)" by (simp_all add: ds_def)
  have p: "bucket_parses parse ds = bucket_parses parse (sy_state s)" by (simp add: bucket_parses_def bucket_requests_cong [OF e(1)])
  have "delete_inv parse (s\<lparr>sy_state := ds, sy_refused := rs\<rparr>)"
    using inv unfolding delete_inv_def by (simp add: e r i q p held_request_cong [OF e(1)] task_ok_cong [OF e(1)] bucket_requests_cong [OF e(1)])
  then show ?thesis by (simp add: ds_def m'_def m_def)
qed

lemma delete_inv_enter:
  assumes "delete_inv parse s" and "sy_tasks s = a @ Stored c # b" and "submit_enters c (sy_state s) = (Inr r, ds)"
  shows "delete_inv parse (s\<lparr>sy_state := ds, sy_tasks := a @ b\<rparr>)"
proof -
  define m t where "m = de_by_tenant (sy_state s)" and "t = dr_tenant (cr_request c)"
  define m' where "m' = m(t \<mapsto> requests_of m t @ [c])"
  note inv = assms(1) [unfolded delete_inv_def assms(2), folded m_def]
  have e: "de_bucket ds = de_bucket (sy_state s)" "de_by_tenant ds = m'" "de_outstanding ds = de_outstanding (sy_state s) + 1"
    using assms(3) by (auto simp: submit_enters_def Let_def m'_def m_def t_def split: if_splits)
  have i: "memory_ids m' = insert (request_id c) (memory_ids m)" by (simp add: m'_def)
  have q: "requests_held m' = requests_held m + 1" "finite (dom m')"
    using inv requests_held_update [of m t "requests_of m t @ [c]"] by (simp_all add: m'_def)
  have p: "bucket_parses parse ds = bucket_parses parse (sy_state s)" by (simp add: bucket_parses_def bucket_requests_cong [OF e(1)])
  have c: "held_request parse (sy_state s) (a @ b) t c" using inv by (simp add: held_request_def t_def)
  have h: "held_request parse (sy_state s) (a @ b) u c'" if "c' \<in> set (requests_of m' u)" for u c'
  proof (cases "u = t \<and> c' = c")
    case False
    then have "c' \<in> set (requests_of m u)" using that by (auto simp: m'_def split: if_splits)
    then have "held_request parse (sy_state s) (a @ Stored c # b) u c'" using inv by blast
    then show ?thesis by (simp add: held_request_def)
  qed (use c in simp)
  show ?thesis using inv h q unfolding delete_inv_def
    by (simp add: e i p held_request_cong [OF e(1)] task_ok_cong [OF e(1)] bucket_requests_cong [OF e(1)])
qed

lemma delete_inv_cancel:
  assumes "delete_inv parse s" and "cancel_checks t i (sy_state s) = Inr ()"
  shows "delete_inv parse (s\<lparr>sy_tasks := sy_tasks s @ [Cancelling t i]\<rparr>)"
proof -
  obtain c where "c \<in> set (requests_of (de_by_tenant (sy_state s)) t)" "request_id c = i"
    using assms(2) by (auto simp: cancel_checks_def find_Some_iff split: option.splits if_splits dest: nth_mem)
  then have i: "i \<in> memory_ids (de_by_tenant (sy_state s))" using memory_idI by metis
  have "delete_inv parse \<lparr>sy_state = sy_state s, sy_tasks = sy_tasks s @ [Cancelling t i], sy_refused = sy_refused s, sy_ids = sy_ids s\<rparr>"
    by (rule delete_inv_tasks [OF assms(1) refl refl refl])
      (use assms(1) i in \<open>auto simp: delete_inv_def\<close>)
  then show ?thesis by (cases s) simp
qed

lemma delete_inv_unstore:
  assumes "delete_inv parse s" and "sy_tasks s = a @ Cancelling t i # b" and "x = Unstored t i \<or> x = Removed t i"
  shows "delete_inv parse (s\<lparr>sy_state := cancel_unstores t i (sy_state s), sy_tasks := a @ x # b\<rparr>)"
proof -
  define ds where "ds = cancel_unstores t i (sy_state s)"
  note inv = assms(1) [unfolded delete_inv_def assms(2)]
  have x: "pending (x # b) = pending b" "cancel_ids (x # b) = insert i (cancel_ids b)" "task_ok parse ds x" using assms(3) by auto
  have e: "de_by_tenant ds = de_by_tenant (sy_state s)" "de_outstanding ds = de_outstanding (sy_state s)" by (simp_all add: ds_def)
  have b: "bucket_ok (bucket_requests ds)" "bucket_parses parse ds"
    using inv bucket_ok_delete bucket_parses_delete by (auto simp: ds_def)
  have keep: "durable ds c" if "(dr_tenant (cr_request c), request_id c) \<noteq> (t, i)" "durable (sy_state s) c" for c
    unfolding ds_def by (rule durable_unstore [OF that])
  have held: "held_request parse ds (a @ x # b) u c" if "held_request parse (sy_state s) (a @ Cancelling t i # b) u c" for u c
    using that keep [of c] assms(3) by (auto simp: held_request_def)
  have tasks: "task_ok parse ds y" if y: "y \<in> set a \<union> set b" for y
  proof -
    have k: "task_ok parse (sy_state s) y" using inv y by auto
    show ?thesis
    proof (cases y)
      case (Stored c)
      have "request_id c \<in> set (pending a) \<union> set (pending b)" using y Stored pending_stored by blast
      then have "request_id c \<noteq> i" using inv by auto
      then show ?thesis using k Stored keep [of c] by simp
    qed (use k in simp_all)
  qed
  have "\<forall>y \<in> set (a @ x # b). task_ok parse ds y" using tasks x(3) by auto
  then show ?thesis using inv b held x(1,2) unfolding ds_def [symmetric] delete_inv_def by (simp add: e)
qed

lemma delete_inv_leave:
  assumes "delete_inv parse s" and "sy_tasks s = a @ Unstored t i # b"
  shows "delete_inv parse (s\<lparr>sy_state := cancel_leaves t i (sy_state s), sy_tasks := a @ b\<rparr>)"
proof -
  define m where "m = de_by_tenant (sy_state s)"
  define kept where "kept = filter (\<lambda>c. request_id c \<noteq> i) (requests_of m t)"
  define ds where "ds = cancel_leaves t i (sy_state s)"
  define m' where "m' = de_by_tenant ds"
  note inv = assms(1) [unfolded delete_inv_def assms(2), folded m_def]
  have bucket: "de_bucket ds = de_bucket (sy_state s)"
    by (simp add: ds_def cancel_leaves_def Let_def split: option.splits)
  have r: "requests_of m' u = (if u = t then kept else requests_of m u)" for u
    by (auto simp: m'_def ds_def cancel_leaves_def Let_def kept_def m_def requests_of_def split: option.splits)
  have fin: "finite (dom m')" using inv
    by (auto simp: m'_def ds_def cancel_leaves_def Let_def m_def split: option.splits)
  have out: "de_outstanding ds = requests_held m'"
  proof (cases "m t")
    case None
    then show ?thesis using inv by (simp add: m'_def ds_def cancel_leaves_def m_def)
  next
    case (Some requests)
    then have k: "m' = m(t \<mapsto> kept)" "requests_of m t = requests"
      by (simp_all add: m'_def ds_def cancel_leaves_def Let_def m_def kept_def requests_of_def)
    have "requests_held m' + length requests = requests_held m + length kept"
      using requests_held_update [of m t kept] inv k by simp
    moreover have "length kept \<le> length requests" by (simp add: kept_def k(2))
    moreover have "de_outstanding ds = de_outstanding (sy_state s) - (length requests - length kept)"
      using Some by (simp add: ds_def cancel_leaves_def Let_def m_def kept_def requests_of_def)
    ultimately show ?thesis using inv by simp
  qed
  have "set (requests_of m' u) \<subseteq> set (requests_of m u)" for u by (auto simp: r kept_def)
  then have ids: "memory_ids m' \<subseteq> memory_ids m" unfolding memory_ids_def by blast
  have held: "held_request parse ds (a @ b) u c" if "c \<in> set (requests_of m' u)" for u c
  proof -
    have "c \<in> set (requests_of m u)" "u = t \<Longrightarrow> request_id c \<noteq> i" using that by (auto simp: r kept_def split: if_splits)
    moreover from this have "held_request parse (sy_state s) (a @ Unstored t i # b) u c" using inv by blast
    ultimately show ?thesis by (auto simp: held_request_def durable_cong [OF bucket])
  qed
  have p: "bucket_parses parse ds = bucket_parses parse (sy_state s)" by (simp add: bucket_parses_def bucket_requests_cong [OF bucket])
  show ?thesis using inv fin out ids held unfolding ds_def [symmetric] delete_inv_def
    by (simp add: m'_def [symmetric] bucket p task_ok_cong [OF bucket] bucket_requests_cong [OF bucket]) blast
qed

lemma process_request_simps [simp]:
  "request_id (process_request metas t c) = request_id c"
  "dr_tenant (cr_request (process_request metas t c)) = dr_tenant (cr_request c)"
  "dr_query (cr_request (process_request metas t c)) = dr_query (cr_request c)"
  "cr_selector (process_request metas t c) = cr_selector c"
  "durable ds (process_request metas t c) = durable ds c"
  "request_covers (process_request metas t c) = request_covers c"
  by (simp_all add: process_request_def durable_def request_covers_def fun_eq_iff)

lemma delete_inv_process:
  assumes "delete_inv parse s"
  shows "delete_inv parse (s\<lparr>sy_state := mark_processed metas (sy_state s)\<rparr>)"
proof -
  define m where "m = de_by_tenant (sy_state s)"
  define ds where "ds = mark_processed metas (sy_state s)"
  define m' where "m' = de_by_tenant ds"
  note inv = assms [unfolded delete_inv_def, folded m_def]
  have e: "de_bucket ds = de_bucket (sy_state s)" "de_outstanding ds = de_outstanding (sy_state s)"
    by (simp_all add: ds_def mark_processed_def)
  have d: "dom m' = dom m" by (auto simp: m'_def ds_def mark_processed_def m_def)
  have r: "requests_of m' t = requests_of m t \<or> requests_of m' t = map (process_request metas t) (requests_of m t)" for t
    by (auto simp: m'_def ds_def mark_processed_def m_def requests_of_def split: option.splits)
  have "map request_id (requests_of m' t) = map request_id (requests_of m t)" for t using r [of t] by auto
  then have i: "memory_ids m' = memory_ids m" by (rule memory_ids_map)
  have "length (requests_of m' t) = length (requests_of m t)" for t using r [of t] by auto
  then have h: "requests_held m' = requests_held m" by (simp add: requests_held_def d)
  have held: "held_request parse ds (sy_tasks s) t c" if c: "c \<in> set (requests_of m' t)" for t c
  proof -
    obtain c' where "c' \<in> set (requests_of m t)" "c = c' \<or> c = process_request metas t c'" using r [of t] c by auto
    moreover from this have "held_request parse (sy_state s) (sy_tasks s) t c'" using inv by blast
    ultimately show ?thesis by (auto simp: held_request_def compiled_ok_def durable_cong [OF e(1)])
  qed
  have p: "bucket_parses parse ds = bucket_parses parse (sy_state s)" by (simp add: bucket_parses_def bucket_requests_cong [OF e(1)])
  show ?thesis using inv held unfolding ds_def [symmetric] delete_inv_def
    by (simp add: m'_def [symmetric] e p i h d task_ok_cong [OF e(1)] bucket_requests_cong [OF e(1)])
qed

subsection \<open>A start\<close>

definition compile_request :: "(string \<Rightarrow> selector option) \<Rightarrow> delete_request \<Rightarrow> compiled_request" where
  "compile_request parse r = \<lparr>cr_request = r, cr_selector = the (parse (dr_query r))\<rparr>"

lemma load_requests_cons:
  assumes "is_tenant (dr_tenant r)" and "parse (dr_query r) \<noteq> None"
  shows "load_requests parse (r # rs) m n =
    load_requests parse rs (m(dr_tenant r \<mapsto> requests_of m (dr_tenant r) @ [compile_request parse r])) (n + 1)"
proof -
  have "tenant_parse (dr_tenant r) = Inr (dr_tenant r)" using assms(1) by (simp add: tenant_parse_Inr_iff)
  then show ?thesis using assms(2) by (auto simp: compile_request_def)
qed

lemma load_requests_all:
  assumes "\<forall>r \<in> set rs. is_tenant (dr_tenant r) \<and> parse (dr_query r) \<noteq> None" and "finite (dom m)"
  shows "\<exists>m'. load_requests parse rs m n = Some (m', n + length rs) \<and> finite (dom m') \<and>
    requests_held m' = requests_held m + length rs \<and>
    (\<forall>t. requests_of m' t = requests_of m t @ map (compile_request parse) (filter (\<lambda>r. dr_tenant r = t) rs))"
  using assms
proof (induction rs arbitrary: m n)
  case (Cons r rs)
  define m1 where "m1 = m(dr_tenant r \<mapsto> requests_of m (dr_tenant r) @ [compile_request parse r])"
  have h: "requests_held m1 = requests_held m + 1" "finite (dom m1)"
    using requests_held_update [OF Cons.prems(2), of "dr_tenant r" "requests_of m (dr_tenant r) @ [compile_request parse r]"] Cons.prems(2)
    by (simp_all add: m1_def)
  have l: "load_requests parse (r # rs) m n = load_requests parse rs m1 (n + 1)"
    unfolding m1_def by (rule load_requests_cons) (use Cons.prems(1) in simp_all)
  obtain m' where m': "load_requests parse rs m1 (n + 1) = Some (m', n + 1 + length rs)" "finite (dom m')"
    "requests_held m' = requests_held m1 + length rs"
    "\<forall>t. requests_of m' t = requests_of m1 t @ map (compile_request parse) (filter (\<lambda>r. dr_tenant r = t) rs)"
    using Cons.IH [OF _ h(2), of "n + 1"] Cons.prems(1) by auto
  show ?case unfolding l using m' h by (auto simp: m1_def)
qed simp

lemma load_requests_some:
  assumes "load_requests parse rs m n = Some x"
  shows "\<forall>r \<in> set rs. parse (dr_query r) \<noteq> None"
  using assms by (induction rs arbitrary: m n) (auto split: sum.splits option.splits)

lemma deletes_load_all:
  assumes "bucket_ok bucket" and "\<forall>(k, r) \<in> set bucket. parse (dr_query r) \<noteq> None"
  shows "\<exists>ds. deletes_load parse (Some bucket) = Some ds \<and> de_bucket ds = Some bucket \<and> de_outstanding ds = length bucket \<and>
    finite (dom (de_by_tenant ds)) \<and> requests_held (de_by_tenant ds) = length bucket \<and>
    (\<forall>t. requests_of (de_by_tenant ds) t = map (compile_request parse) (filter (\<lambda>r. dr_tenant r = t) (map snd bucket)))"
proof -
  have "\<forall>r \<in> set (map snd bucket). is_tenant (dr_tenant r) \<and> parse (dr_query r) \<noteq> None"
    using assms by (fastforce simp: bucket_ok_def)
  from load_requests_all [OF this, of "\<lambda>_. None" 0] show ?thesis
    by (auto simp: deletes_load_def requests_held_def requests_of_def)
qed

lemma deletes_load_none:
  "deletes_load parse None = Some ds \<longleftrightarrow>
     ds = \<lparr>de_by_tenant = (\<lambda>_. None), de_outstanding = 0, de_bucket = None, de_accepted = 0, de_rejected = 0, de_cancelled = 0\<rparr>"
  by (auto simp: deletes_load_def)

lemma deletes_load_parses:
  "deletes_load parse (Some bucket) = Some ds \<Longrightarrow> \<forall>(k, r) \<in> set bucket. parse (dr_query r) \<noteq> None"
  using load_requests_some [of parse "map snd bucket"] by (fastforce simp: deletes_load_def)

text \<open>What any start leaves, with a bucket or without.\<close>

lemma deletes_load_state:
  assumes "deletes_load parse storage = Some ds" and "bucket_ok (bucket_requests ds)"
  shows "de_bucket ds = storage" and "de_outstanding ds = length (bucket_requests ds)" and "finite (dom (de_by_tenant ds))"
    and "requests_held (de_by_tenant ds) = length (bucket_requests ds)"
    and "requests_of (de_by_tenant ds) t = map (compile_request parse) (filter (\<lambda>r. dr_tenant r = t) (map snd (bucket_requests ds)))"
    and "\<forall>(k, r) \<in> set (bucket_requests ds). parse (dr_query r) \<noteq> None"
proof -
  show s: "de_bucket ds = storage" using assms(1) by (auto simp: deletes_load_def)
  have "de_outstanding ds = length (bucket_requests ds) \<and> finite (dom (de_by_tenant ds)) \<and>
    requests_held (de_by_tenant ds) = length (bucket_requests ds) \<and>
    (\<forall>t. requests_of (de_by_tenant ds) t = map (compile_request parse) (filter (\<lambda>r. dr_tenant r = t) (map snd (bucket_requests ds)))) \<and>
    (\<forall>(k, r) \<in> set (bucket_requests ds). parse (dr_query r) \<noteq> None)"
  proof (cases storage)
    case None
    then show ?thesis using assms(1) by (auto simp: deletes_load_none requests_held_def requests_of_def bucket_requests_def)
  next
    case (Some bucket)
    then have b: "bucket_requests ds = bucket" using s by simp
    have p: "\<forall>(k, r) \<in> set bucket. parse (dr_query r) \<noteq> None" using assms(1) deletes_load_parses unfolding Some by blast
    from deletes_load_all [OF _ p] assms p show ?thesis unfolding b Some by auto
  qed
  then show "de_outstanding ds = length (bucket_requests ds)" "finite (dom (de_by_tenant ds))"
    "requests_held (de_by_tenant ds) = length (bucket_requests ds)"
    "requests_of (de_by_tenant ds) t = map (compile_request parse) (filter (\<lambda>r. dr_tenant r = t) (map snd (bucket_requests ds)))"
    "\<forall>(k, r) \<in> set (bucket_requests ds). parse (dr_query r) \<noteq> None" by blast+
qed

lemma delete_inv_start:
  assumes "deletes_load parse storage = Some ds" and "bucket_ok (bucket_requests ds)"
  shows "delete_inv parse \<lparr>sy_state = ds, sy_tasks = [], sy_refused = [], sy_ids = (\<lambda>((t, i), r). i) ` set (bucket_requests ds)\<rparr>"
proof -
  define bucket where "bucket = bucket_requests ds"
  note d = deletes_load_state [OF assms, folded bucket_def]
  note p = d(6) and ok = assms(2) [folded bucket_def]
  have r: "held_request parse ds [] t (compile_request parse r)" "request_id (compile_request parse r) \<in> (\<lambda>((t, i), r). i) ` set bucket"
    if m: "(k, r) \<in> set bucket" "dr_tenant r = t" for k r t
  proof -
    have k: "k = (dr_tenant r, dr_id r)" "is_tenant t"
      using ok m(1) unfolding m(2) [symmetric] bucket_ok_def by (cases k; blast)+
    have m': "map_of bucket (dr_tenant r, dr_id r) = Some r"
      by (rule map_of_is_SomeI [OF _ m(1) [unfolded k(1)]]) (use ok in \<open>unfold bucket_ok_def, blast\<close>)
    have u: "durable ds (compile_request parse r)"
      unfolding durable_def by (rule disjI2, rule exI [of _ "dr_status r"]) (simp add: compile_request_def bucket_def [symmetric] m')
    have "parse (dr_query r) \<noteq> None" using p m(1) by blast
    then have "parse (dr_query r) = Some (the (parse (dr_query r)))" by simp
    then show "held_request parse ds [] t (compile_request parse r)"
      using k(2) m(2) u by (simp add: held_request_def compiled_ok_def) (simp add: compile_request_def)
    show "request_id (compile_request parse r) \<in> (\<lambda>((t, i), r). i) ` set bucket"
      using m(1) unfolding k(1) by (force simp: compile_request_def)
  qed
  have held: "held_request parse ds [] t c" "request_id c \<in> (\<lambda>((t, i), r). i) ` set bucket"
    if "c \<in> set (requests_of (de_by_tenant ds) t)" for t c
    using that r unfolding d(5) by auto
  have ids: "memory_ids (de_by_tenant ds) \<subseteq> (\<lambda>((t, i), r). i) ` set bucket"
    using held(2) unfolding memory_ids_def by blast
  have b: "bucket_parses parse ds" using p by (simp add: bucket_parses_def bucket_def [symmetric])
  show ?thesis using ok b d(2-4) held(1) ids by (simp add: delete_inv_def bucket_def [symmetric])
qed

lemma delete_step_inv:
  assumes "delete_step parse s s'" and "delete_inv parse s"
  shows "delete_inv parse s'"
  using assms(1)
proof cases
  case (check uuid t query start_ns end_ns now c ds)
  then show ?thesis using delete_inv_check assms(2) by simp
next
  case (check_fails uuid t query start_ns end_ns now e ds)
  note r = submit_checks_results [OF check_fails(2)]
  have "delete_inv parse \<lparr>sy_state = ds, sy_tasks = sy_tasks s, sy_refused = sy_refused s, sy_ids = sy_ids s\<rparr>"
    by (rule delete_inv_tasks [OF assms(2) r(1-3)]) (use assms(2) in \<open>auto simp: delete_inv_def r(2)\<close>)
  then show ?thesis unfolding check_fails(1) by (cases s) simp
next
  case (refuse a c b e ds)
  have d: "ds = (sy_state s)\<lparr>de_by_tenant := (de_by_tenant (sy_state s))(dr_tenant (cr_request c) \<mapsto>
      requests_of (de_by_tenant (sy_state s)) (dr_tenant (cr_request c))), de_rejected := de_rejected (sy_state s) + 1\<rparr>"
    using refuse(3) by (simp add: submit_enters_def Let_def split: if_splits)
  have "delete_inv parse (s\<lparr>sy_tasks := a @ b\<rparr>)" by (rule delete_inv_drop [OF assms(2) refuse(2)]) simp_all
  from delete_inv_entry [OF this, where t = "dr_tenant (cr_request c)" and n = "de_rejected (sy_state s) + 1" and rs = "sy_refused s @ [cr_request c]"]
  show ?thesis unfolding refuse(1) d by (cases s) simp
next
  case (store_unknown a c b ds)
  have "delete_inv parse (s\<lparr>sy_state := ds, sy_tasks := a @ Stored c # b\<rparr>)"
    by (rule delete_inv_store [OF assms(2) store_unknown(2,3)])
  from delete_inv_drop [OF this, of a "Stored c" b] show ?thesis unfolding store_unknown(1) by simp
qed (use assms(2) in \<open>auto intro: delete_inv_store delete_inv_enter delete_inv_cancel delete_inv_unstore
        delete_inv_leave delete_inv_process delete_inv_drop\<close>)

lemma delete_reachable_inv: "delete_reachable parse s \<Longrightarrow> delete_inv parse s"
  by (induction rule: delete_reachable.induct) (blast intro: delete_inv_start delete_step_inv)+

subsection \<open>What the requests promise\<close>

lemma hides_row_iff: "hides_row masks t ts line metadata \<longleftrightarrow> (\<exists>c \<in> set (requests_of masks t). request_covers c metadata ts line)"
  by (auto simp: hides_row_def requests_of_def list_ex_iff split: option.splits)

lemma requests_of_empty: "requests_of (\<lambda>_. None) t = []"
  by (simp add: requests_of_def)

lemma mask_hides_iff:
  assumes "finite (dom (de_by_tenant ds))" and "de_outstanding ds = requests_held (de_by_tenant ds)"
  shows "mask_hides (mask_for ds t) metadata ts line \<longleftrightarrow> (\<exists>c \<in> set (requests_of (de_by_tenant ds) t). request_covers c metadata ts line)"
    and "hides_row (delete_masks ds) t ts line metadata \<longleftrightarrow> (\<exists>c \<in> set (requests_of (de_by_tenant ds) t). request_covers c metadata ts line)"
proof -
  have z: "requests_of (de_by_tenant ds) t = []" if "de_outstanding ds = 0"
    using requests_of_length_le [OF assms(1), of t] that assms(2) by simp
  then show "mask_hides (mask_for ds t) metadata ts line \<longleftrightarrow> (\<exists>c \<in> set (requests_of (de_by_tenant ds) t). request_covers c metadata ts line)"
    by (auto simp: mask_hides_def mask_for_def list_ex_iff)
  show "hides_row (delete_masks ds) t ts line metadata \<longleftrightarrow> (\<exists>c \<in> set (requests_of (de_by_tenant ds) t). request_covers c metadata ts line)"
    using z by (cases "de_outstanding ds = 0") (simp_all add: hides_row_iff delete_masks_def requests_of_empty)
qed

text \<open>A request that was answered hides its rows from there on.\<close>

lemma entered_hides:
  assumes "delete_inv parse s" and "sy_tasks s = a @ Stored c # b" and "submit_enters c (sy_state s) = (Inr r, ds)"
    and "request_covers c metadata ts line"
  shows "mask_hides (mask_for ds (dr_tenant r)) metadata ts line" and "hides_row (delete_masks ds) (dr_tenant r) ts line metadata"
proof -
  have i: "finite (dom (de_by_tenant ds))" "de_outstanding ds = requests_held (de_by_tenant ds)"
    using delete_inv_enter [OF assms(1-3)] by (simp_all add: delete_inv_def)
  have "c \<in> set (requests_of (de_by_tenant ds) (dr_tenant r))"
    using assms(3) by (auto simp: submit_enters_def Let_def split: if_splits)
  then show "mask_hides (mask_for ds (dr_tenant r)) metadata ts line" "hides_row (delete_masks ds) (dr_tenant r) ts line metadata"
    using assms(4) unfolding mask_hides_iff [OF i] by blast+
qed

lemma stored_hides_after_restart:
  assumes "delete_inv parse s" and "((t, i), r) \<in> set (bucket_requests (sy_state s))"
    and "request_covers (compile_request parse r) metadata ts line"
  shows "\<exists>ds. deletes_load parse (de_bucket (sy_state s)) = Some ds \<and> hides_row (delete_masks ds) t ts line metadata \<and>
    mask_hides (mask_for ds t) metadata ts line"
proof -
  note inv = assms(1) [unfolded delete_inv_def]
  obtain bucket where b: "de_bucket (sy_state s) = Some bucket" "bucket_requests (sy_state s) = bucket"
    using assms(2) by (cases "de_bucket (sy_state s)") (auto simp: bucket_requests_def)
  obtain ds where ds: "deletes_load parse (Some bucket) = Some ds" "de_outstanding ds = requests_held (de_by_tenant ds)"
    "finite (dom (de_by_tenant ds))"
    "\<forall>t. requests_of (de_by_tenant ds) t = map (compile_request parse) (filter (\<lambda>r. dr_tenant r = t) (map snd bucket))"
    using deletes_load_all [of bucket parse] inv b(2) unfolding bucket_parses_def by auto
  have "dr_tenant r = t" using inv assms(2) unfolding bucket_ok_def by blast
  then have "r \<in> set (filter (\<lambda>r. dr_tenant r = t) (map snd bucket))" using assms(2) b(2) by force
  then have "compile_request parse r \<in> set (requests_of (de_by_tenant ds) t)" unfolding ds(4) [rule_format] by simp
  then have "hides_row (delete_masks ds) t ts line metadata" "mask_hides (mask_for ds t) metadata ts line"
    using assms(3) unfolding mask_hides_iff [OF ds(3,2)] by blast+
  then show ?thesis using ds(1) b(1) by auto
qed

text \<open>C11: durable before visible, on a node with a bucket: in every interleaving of submissions,
  cancellations and merge ticks, whether a call of the bucket works, fails or fails with its work done,
  a row that a rewrite would drop is hidden from queries too, and it is again both after a restart,
  which loads every stored request, while no cancellation of its tenant has taken a request from the
  bucket and not from memory (one still under way, or one that was answered with a failure).\<close>

theorem hidden_rows_survive_restart:
  assumes "delete_reachable parse s" and "hides_row (delete_masks (sy_state s)) t ts line metadata"
    and "de_bucket (sy_state s) \<noteq> None" and "\<forall>i. Unstored t i \<notin> set (sy_tasks s) \<and> Removed t i \<notin> set (sy_tasks s)"
  shows "mask_hides (mask_for (sy_state s) t) metadata ts line \<and>
    (\<exists>ds. deletes_load parse (de_bucket (sy_state s)) = Some ds \<and> hides_row (delete_masks ds) t ts line metadata \<and>
       mask_hides (mask_for ds t) metadata ts line)"
proof -
  note inv = delete_reachable_inv [OF assms(1), unfolded delete_inv_def]
  have i: "finite (dom (de_by_tenant (sy_state s)))" "de_outstanding (sy_state s) = requests_held (de_by_tenant (sy_state s))"
    using inv by simp_all
  obtain c where c: "c \<in> set (requests_of (de_by_tenant (sy_state s)) t)" "request_covers c metadata ts line"
    using assms(2) unfolding mask_hides_iff [OF i] by blast
  have "held_request parse (sy_state s) (sy_tasks s) t c" using inv c(1) by blast
  then have h: "dr_tenant (cr_request c) = t" "parse (dr_query (cr_request c)) = Some (cr_selector c)" "durable (sy_state s) c"
    using assms(4) by (auto simp: held_request_def compiled_ok_def)
  then obtain st where st: "map_of (bucket_requests (sy_state s)) (t, request_id c) = Some ((cr_request c)\<lparr>dr_status := st\<rparr>)"
    using assms(3) by (auto simp: durable_def)
  define r where "r = (cr_request c)\<lparr>dr_status := st\<rparr>"
  have r: "((t, request_id c), r) \<in> set (bucket_requests (sy_state s))"
    using map_of_SomeD [OF st] by (simp_all add: r_def)
  have "request_covers (compile_request parse r) metadata ts line = request_covers c metadata ts line"
    using h(2) by (simp add: request_covers_def compile_request_def r_def)
  then have cover: "request_covers (compile_request parse r) metadata ts line" using c(2) by simp
  have "mask_hides (mask_for (sy_state s) t) metadata ts line" using c unfolding mask_hides_iff [OF i] by blast
  then show ?thesis using stored_hides_after_restart [OF delete_reachable_inv [OF assms(1)] r cover] by blast
qed

text \<open>A selector that names every row, and a tenant whose bucket has 99 requests.\<close>

definition any_row :: "string \<Rightarrow> selector option" where
  "any_row q = Some \<lparr>sl_matchers = [], sl_line_filters = []\<rparr>"

definition sample_request :: "string \<Rightarrow> int \<Rightarrow> delete_request" where
  "sample_request i start_ns = \<lparr>dr_id = i, dr_tenant = [97], dr_query = ''{}'', dr_start = start_ns, dr_end = start_ns + 1,
     dr_created_at = 0, dr_status = Received\<rparr>"

definition sample_bucket :: "nat \<Rightarrow> delete_bucket" where
  "sample_bucket n = map (\<lambda>i. (([97], replicate i CHR ''x''), sample_request (replicate i CHR ''x'') 0)) [0..<n]"

lemma sample_bucket_ok: "bucket_ok (sample_bucket n)"
proof -
  have "distinct (map fst (sample_bucket n))"
    by (auto simp: sample_bucket_def distinct_map intro!: inj_onI dest: arg_cong [of _ _ length])
  moreover have "is_tenant [97]"
    by (simp add: is_tenant_def tenant_char_def is_ascii_alphanumeric_def max_tenant_id_bytes_def)
  ultimately show ?thesis by (auto simp: bucket_ok_def sample_bucket_def sample_request_def)
qed

lemma sample_bucket_load:
  "\<exists>ds. deletes_load any_row (Some (sample_bucket n)) = Some ds \<and> de_bucket ds = Some (sample_bucket n) \<and> de_outstanding ds = n \<and>
     requests_of (de_by_tenant ds) [97] = map (compile_request any_row) (map snd (sample_bucket n))"
proof -
  have "filter (\<lambda>r. dr_tenant r = [97]) (map snd (sample_bucket n)) = map snd (sample_bucket n)"
    by (rule filter_True) (auto simp: sample_bucket_def sample_request_def)
  moreover have "length (sample_bucket n) = n" by (simp add: sample_bucket_def)
  moreover have "\<forall>(k, r) \<in> set (sample_bucket n). any_row (dr_query r) \<noteq> None" by (auto simp: any_row_def)
  ultimately show ?thesis using deletes_load_all [OF sample_bucket_ok, of n any_row] by auto
qed

lemma sample_bucket_start:
  assumes "deletes_load any_row (Some (sample_bucket n)) = Some ds" and "de_bucket ds = Some (sample_bucket n)"
  shows "delete_reachable any_row \<lparr>sy_state = ds, sy_tasks = [], sy_refused = [], sy_ids = (\<lambda>((t, i), r). i) ` set (sample_bucket n)\<rparr>"
  using delete_reachable.start [OF assms(1)] sample_bucket_ok [of n] assms(2) by simp

lemma sample_bucket_hides:
  assumes "de_outstanding ds = 1" and "requests_of (de_by_tenant ds) [97] = map (compile_request any_row) (map snd (sample_bucket 1))"
  shows "hides_row (delete_masks ds) [97] 0 ''secret'' []"
  by (simp add: hides_row_iff delete_masks_def assms)
    (simp add: sample_bucket_def request_covers_def compile_request_def any_row_def sample_request_def)

theorem hidden_rows_survive_restart_witness:
  "\<exists>ds. deletes_load any_row (Some (sample_bucket 1)) = Some ds \<and> hides_row (delete_masks ds) [97] 0 ''secret'' [] \<and>
       mask_hides (mask_for ds [97]) [] 0 ''secret''"
proof -
  obtain ds where ds: "deletes_load any_row (Some (sample_bucket 1)) = Some ds" "de_bucket ds = Some (sample_bucket 1)" "de_outstanding ds = 1"
    "requests_of (de_by_tenant ds) [97] = map (compile_request any_row) (map snd (sample_bucket 1))"
    using sample_bucket_load by blast
  show ?thesis
    using hidden_rows_survive_restart [OF sample_bucket_start [OF ds(1,2)], of "[97]" 0 "''secret''" "[]"] sample_bucket_hides [OF ds(3,4)] ds(2) by simp
qed

text \<open>Without a bucket nothing is hidden after a start.\<close>

lemma local_start_hides_nothing:
  assumes "deletes_load parse None = Some ds"
  shows "\<not> hides_row (delete_masks ds) t ts line metadata"
  using assms by (simp add: deletes_load_none delete_masks_def hides_row_def)

text \<open>A cancellation that is answered with a failure can still have taken the request from the bucket:
  its rows are hidden until the next start and served after it.\<close>

lemma failed_cancellation_forgets_at_restart:
  "\<exists>s ds. delete_reachable any_row s \<and> sy_tasks s = [Removed [97] ''''] \<and>
     hides_row (delete_masks (sy_state s)) [97] 0 ''secret'' [] \<and>
     deletes_load any_row (de_bucket (sy_state s)) = Some ds \<and> \<not> hides_row (delete_masks ds) [97] 0 ''secret'' []"
proof -
  obtain ds where ds: "deletes_load any_row (Some (sample_bucket 1)) = Some ds" "de_bucket ds = Some (sample_bucket 1)" "de_outstanding ds = 1"
    "requests_of (de_by_tenant ds) [97] = map (compile_request any_row) (map snd (sample_bucket 1))"
    using sample_bucket_load by blast
  define s0 where "s0 = \<lparr>sy_state = ds, sy_tasks = [], sy_refused = [], sy_ids = (\<lambda>((t, i), r). i) ` set (sample_bucket 1)\<rparr>"
  define s1 where "s1 = s0\<lparr>sy_tasks := [Cancelling [97] '''']\<rparr>"
  define s2 where "s2 = s1\<lparr>sy_state := cancel_unstores [97] '''' ds, sy_tasks := [Removed [97] '''']\<rparr>"
  have r0: "delete_reachable any_row s0" unfolding s0_def by (rule sample_bucket_start [OF ds(1,2)])
  have "cancel_checks [97] '''' ds = Inr ()"
    by (simp add: cancel_checks_def ds(4)) (simp add: sample_bucket_def compile_request_def sample_request_def)
  then have "delete_step any_row s0 s1" using delete_step.cancel [of "[97]" "''''" s0] by (simp add: s0_def s1_def)
  then have r1: "delete_reachable any_row s1" by (rule delete_reachable.step [OF r0])
  have "delete_step any_row s1 s2"
    using delete_step.unstore_unknown [of s1 "[]" "[97]" "''''" "[]"] by (simp add: s0_def s1_def s2_def)
  then have r2: "delete_reachable any_row s2" by (rule delete_reachable.step [OF r1])
  have b: "de_bucket (sy_state s2) = Some []" by (simp add: s2_def cancel_unstores_def ds(2) sample_bucket_def)
  have h: "hides_row (delete_masks (sy_state s2)) [97] 0 ''secret'' []"
    by (rule sample_bucket_hides) (simp_all add: s2_def ds(3,4))
  have "deletes_load any_row (Some []) =
    Some \<lparr>de_by_tenant = (\<lambda>_. None), de_outstanding = 0, de_bucket = Some [], de_accepted = 0, de_rejected = 0, de_cancelled = 0\<rparr>"
    by (simp add: deletes_load_def)
  then show ?thesis using r2 h unfolding b [symmetric]
    by (intro exI [of _ s2] exI conjI) (auto simp: s2_def delete_masks_def hides_row_def)
qed

subsection \<open>Where the limit bites\<close>

text \<open>Two submissions side by side both pass the first check; the one that comes second to the memory
  is refused there although it is in the bucket.\<close>

definition late_request :: compiled_request where
  "late_request = compile_request any_row (sample_request ''late'' 5)"

definition early_request :: compiled_request where
  "early_request = compile_request any_row (sample_request ''early'' 7)"

lemma late_run:
  "\<exists>s. delete_reachable any_row s \<and> sy_tasks s = [] \<and> sy_refused s = [cr_request late_request] \<and>
     requests_of (de_by_tenant (sy_state s)) [97] = map (compile_request any_row) (map snd (sample_bucket 99)) @ [early_request] \<and>
     map_of (bucket_requests (sy_state s)) ([97], ''late'') = Some (cr_request late_request)"
proof -
  obtain ds0 where ds0: "deletes_load any_row (Some (sample_bucket 99)) = Some ds0" "de_bucket ds0 = Some (sample_bucket 99)" "de_outstanding ds0 = 99"
    "requests_of (de_by_tenant ds0) [97] = map (compile_request any_row) (map snd (sample_bucket 99))"
    using sample_bucket_load by blast
  define m where "m = de_by_tenant ds0"
  have rm: "requests_of m [97] = map (compile_request any_row) (map snd (sample_bucket 99))" by (simp add: m_def ds0(4))
  have len: "length (requests_of m [97]) = 99" by (simp add: rm sample_bucket_def)
  define ids where "ids = (\<lambda>((t, i), r). i) ` set (sample_bucket 99)"
  have "set i \<subseteq> {CHR ''x''}" if "i \<in> ids" for i using that by (auto simp: ids_def sample_bucket_def)
  from this [of "''early''"] this [of "''late''"] have fresh: "''early'' \<notin> ids" "''late'' \<notin> ids" by auto
  define s0 where "s0 = \<lparr>sy_state = ds0, sy_tasks = [], sy_refused = [], sy_ids = ids\<rparr>"
  define s1 where "s1 = \<lparr>sy_state = ds0, sy_tasks = [Checked early_request], sy_refused = [], sy_ids = insert ''early'' ids\<rparr>"
  define s2 where "s2 = \<lparr>sy_state = ds0, sy_tasks = [Checked early_request, Checked late_request], sy_refused = [],
    sy_ids = insert ''late'' (insert ''early'' ids)\<rparr>"
  define ds3 where "ds3 = ds0\<lparr>de_bucket := Some (AList.update ([97], ''early'') (cr_request early_request) (sample_bucket 99))\<rparr>"
  define s3 where "s3 = s2\<lparr>sy_state := ds3, sy_tasks := [Stored early_request, Checked late_request]\<rparr>"
  define ds4 where "ds4 = ds3\<lparr>de_bucket := Some (AList.update ([97], ''late'') (cr_request late_request) (bucket_requests ds3))\<rparr>"
  define s4 where "s4 = s3\<lparr>sy_state := ds4, sy_tasks := [Stored early_request, Stored late_request]\<rparr>"
  define m5 where "m5 = m([97] \<mapsto> requests_of m [97] @ [early_request])"
  define ds5 where "ds5 = ds4\<lparr>de_by_tenant := m5, de_outstanding := 100, de_accepted := de_accepted ds4 + 1\<rparr>"
  define s5 where "s5 = s4\<lparr>sy_state := ds5, sy_tasks := [Stored late_request]\<rparr>"
  define ds6 where "ds6 = ds5\<lparr>de_by_tenant := m5([97] \<mapsto> requests_of m5 [97]), de_rejected := de_rejected ds5 + 1\<rparr>"
  define s6 where "s6 = s5\<lparr>sy_state := ds6, sy_tasks := [], sy_refused := [cr_request late_request]\<rparr>"
  have t: "is_tenant [97]"
    by (simp add: is_tenant_def tenant_char_def is_ascii_alphanumeric_def max_tenant_id_bytes_def)
  note defs = late_request_def early_request_def compile_request_def sample_request_def
  have r0: "delete_reachable any_row s0"
    unfolding s0_def ids_def by (rule sample_bucket_start [OF ds0(1,2)])
  have checks: "submit_checks any_row ''early'' [97] ''{}'' 7 8 0 ds0 = (Inr early_request, ds0)"
    "submit_checks any_row ''late'' [97] ''{}'' 5 6 0 ds0 = (Inr late_request, ds0)"
    using len by (simp_all add: submit_checks_def any_row_def max_delete_requests_per_tenant_def m_def defs)
  have "delete_step any_row s0 s1"
    using delete_step.check [of any_row "''early''" "[97]" "''{}''" 7 8 0 s0 early_request ds0] checks fresh t by (simp add: s0_def s1_def)
  then have r1: "delete_reachable any_row s1" by (rule delete_reachable.step [OF r0])
  have "delete_step any_row s1 s2"
    using delete_step.check [of any_row "''late''" "[97]" "''{}''" 5 6 0 s1 late_request ds0] checks fresh t by (simp add: s1_def s2_def)
  then have r2: "delete_reachable any_row s2" by (rule delete_reachable.step [OF r1])
  have "delete_step any_row s2 s3"
    using delete_step.store [of s2 "[]" early_request "[Checked late_request]" ds3] ds0(2)
    by (simp add: s2_def s3_def ds3_def submit_stores_def defs)
  then have r3: "delete_reachable any_row s3" by (rule delete_reachable.step [OF r2])
  have "delete_step any_row s3 s4"
    using delete_step.store [of s3 "[Stored early_request]" late_request "[]" ds4]
    by (simp add: s3_def s4_def ds4_def ds3_def bucket_requests_def submit_stores_def defs)
  then have r4: "delete_reachable any_row s4" by (rule delete_reachable.step [OF r3])
  have b4: "de_by_tenant ds4 = m" "de_outstanding ds4 = 99" by (simp_all add: ds4_def ds3_def m_def ds0(3))
  have "submit_enters early_request ds4 = (Inr (cr_request early_request), ds5)"
    using len by (simp add: submit_enters_def Let_def b4 max_delete_requests_per_tenant_def ds5_def m5_def defs)
  then have "delete_step any_row s4 s5"
    using delete_step.enter [of s4 "[]" early_request "[Stored late_request]" "cr_request early_request" ds5]
    by (simp add: s4_def s5_def)
  then have r5: "delete_reachable any_row s5" by (rule delete_reachable.step [OF r4])
  have len5: "length (requests_of m5 [97]) = 100" by (simp add: m5_def len)
  have "submit_enters late_request ds5 = (Inl TooManyDeletes, ds6)"
    using len5 by (simp add: submit_enters_def Let_def max_delete_requests_per_tenant_def ds6_def ds5_def defs)
  then have "delete_step any_row s5 s6"
    using delete_step.refuse [of s5 "[]" late_request "[]" TooManyDeletes ds6]
    by (simp add: s5_def s6_def s4_def s3_def s2_def)
  then have r6: "delete_reachable any_row s6" by (rule delete_reachable.step [OF r5])
  have "sy_tasks s6 = []" "sy_refused s6 = [cr_request late_request]" by (simp_all add: s6_def)
  moreover have "requests_of (de_by_tenant (sy_state s6)) [97] = map (compile_request any_row) (map snd (sample_bucket 99)) @ [early_request]"
    by (simp add: s6_def ds6_def m5_def rm)
  moreover have "map_of (bucket_requests (sy_state s6)) ([97], ''late'') = Some (cr_request late_request)"
    by (simp add: s6_def ds6_def ds5_def ds4_def bucket_requests_def update_conv')
  ultimately show ?thesis using r6 by blast
qed

text \<open>C29: a refused deletion can hide rows: with 99 requests of a tenant, the second of two
  submissions under way is refused as one too many, hides nothing, and is applied by the next
  start.\<close>

theorem refused_delete_applies_after_restart:
  "\<exists>s ds. delete_reachable any_row s \<and> sy_tasks s = [] \<and> cr_request late_request \<in> set (sy_refused s) \<and>
     \<not> hides_row (delete_masks (sy_state s)) [97] 5 ''secret'' [] \<and>
     deletes_load any_row (de_bucket (sy_state s)) = Some ds \<and> hides_row (delete_masks ds) [97] 5 ''secret'' []"
proof -
  obtain s where s: "delete_reachable any_row s" "sy_tasks s = []" "sy_refused s = [cr_request late_request]"
    "requests_of (de_by_tenant (sy_state s)) [97] = map (compile_request any_row) (map snd (sample_bucket 99)) @ [early_request]"
    "map_of (bucket_requests (sy_state s)) ([97], ''late'') = Some (cr_request late_request)"
    using late_run by blast
  note inv = delete_reachable_inv [OF s(1)]
  have i: "finite (dom (de_by_tenant (sy_state s)))" "de_outstanding (sy_state s) = requests_held (de_by_tenant (sy_state s))"
    using inv by (simp_all add: delete_inv_def)
  have "\<not> hides_row (delete_masks (sy_state s)) [97] 5 ''secret'' []"
    unfolding mask_hides_iff [OF i] s(4)
    by (auto simp: request_covers_def sample_bucket_def early_request_def compile_request_def sample_request_def)
  moreover have "request_covers (compile_request any_row (cr_request late_request)) [] 5 ''secret''"
    by (simp add: request_covers_def late_request_def compile_request_def sample_request_def any_row_def)
  from stored_hides_after_restart [OF inv map_of_SomeD [OF s(5)] this]
  obtain ds where "deletes_load any_row (de_bucket (sy_state s)) = Some ds" "hides_row (delete_masks ds) [97] 5 ''secret'' []" by blast
  ultimately show ?thesis using s(1-3) by (intro exI [of _ s] exI [of _ ds]) simp
qed

text \<open>A request that was applied cannot be withdrawn and is never let go, so the limit is one on all the
  requests a tenant ever has applied.\<close>

definition applied_full :: "tenant_id \<Rightarrow> delete_system \<Rightarrow> bool" where
  "applied_full t s \<longleftrightarrow> length (requests_of (de_by_tenant (sy_state s)) t) \<ge> max_delete_requests_per_tenant \<and>
     (\<forall>c \<in> set (requests_of (de_by_tenant (sy_state s)) t). dr_status (cr_request c) = Processed) \<and>
     (\<forall>i. Cancelling t i \<notin> set (sy_tasks s) \<and> Unstored t i \<notin> set (sy_tasks s))"

lemma applied_full_step:
  assumes "delete_step parse s s'" and "applied_full t s"
  shows "applied_full t s'"
  using assms(1)
proof cases
  case (check uuid t' query start_ns end_ns now c ds)
  then show ?thesis using assms(2) by (auto simp: applied_full_def submit_checks_results(2) [OF check(2)])
next
  case (check_fails uuid t' query start_ns end_ns now e ds)
  then show ?thesis using assms(2) by (auto simp: applied_full_def submit_checks_results(2) [OF check_fails(2)])
next
  case (cancel t' i)
  have "t' \<noteq> t"
    using assms(2) cancel(2)
    by (auto simp: applied_full_def cancel_checks_def find_Some_iff split: option.splits if_splits dest: nth_mem)
  then show ?thesis using assms(2) cancel(1) by (auto simp: applied_full_def)
next
  case (process metas)
  have "process_request metas t c = c" if "dr_status (cr_request c) = Processed" for c
    using that by (simp add: process_request_def)
  then show ?thesis using assms(2) process
    by (auto simp: applied_full_def mark_processed_def requests_of_def split: option.splits)
next
  case (leave a t' i b)
  have "t' \<noteq> t" using assms(2) leave(2) by (auto simp: applied_full_def)
  then have "requests_of (de_by_tenant (cancel_leaves t' i (sy_state s))) t = requests_of (de_by_tenant (sy_state s)) t"
    by (simp add: cancel_leaves_def Let_def split: option.splits)
  then show ?thesis using assms(2) leave by (auto simp: applied_full_def)
qed (use assms(2) in \<open>auto simp: applied_full_def submit_stores_def submit_enters_def Let_def stored_state(1) split: if_splits\<close>)

lemma applied_requests_fill_the_limit:
  assumes "(delete_step parse)\<^sup>*\<^sup>* s s'" and "applied_full t s" and "start_ns < end_ns" and "parse query \<noteq> None"
  shows "fst (submit_checks parse uuid t query start_ns end_ns now (sy_state s')) = Inl TooManyDeletes"
proof -
  have "applied_full t s'" using assms(1,2) by (induction rule: rtranclp_induct) (auto intro: applied_full_step)
  then show ?thesis using assms(3,4) by (auto simp: submit_checks_def applied_full_def)
qed

text \<open>The status is decided by the parts alone: with the rows of a request still in memory and no
  part for them, the request is reported as applied.\<close>

lemma processed_without_parts:
  assumes "de_outstanding ds \<noteq> 0" and "c \<in> set (requests_of (de_by_tenant (mark_processed [] ds)) t)"
  shows "dr_status (cr_request c) = Processed"
  using assms by (auto simp: mark_processed_def requests_of_def process_request_def split: option.splits if_splits)

end
