(* ===== verification/Tier.thy ===== *)
theory Tier
  imports Parts "HOL-Library.Product_Lexorder"
begin

text \<open>
  \<open>signy/src/compaction_tier.rs\<close>: which parts of a partition are rewritten together. A number of bytes
  is a natural number below \<open>2 ^ 64\<close>; the keys of the tiers are walked in their order, as the map the
  code keeps them in does.
\<close>

subsection \<open>The band of a size\<close>

definition tier_ratio :: nat where "tier_ratio = 8"

definition tier_zero_max_bytes :: nat where "tier_zero_max_bytes = 4 * 1024"

definition idle_partition_age :: int where "idle_partition_age = 60 * 60 * 1000000000"

partial_function (option) tier_loop :: "nat \<Rightarrow> nat \<Rightarrow> nat \<Rightarrow> nat option" where
  "tier_loop nbytes tier ceiling =
     (if nbytes \<ge> ceiling then
        (if ceiling * tier_ratio \<ge> 2 ^ 64 then Some (tier + 1)
         else tier_loop nbytes (tier + 1) (ceiling * tier_ratio))
      else Some tier)"

definition tier_of :: "nat \<Rightarrow> nat option" where
  "tier_of nbytes = tier_loop nbytes 0 tier_zero_max_bytes"

text \<open>The band a size is in by the numbers: tier \<open>t\<close> ends at \<open>4096 * 8 ^ t\<close>, and the last one has no end.\<close>

definition in_band :: "nat \<Rightarrow> nat \<Rightarrow> bool" where
  "in_band nbytes t \<longleftrightarrow> t \<le> 18 \<and> (t = 0 \<or> 2 ^ (9 + 3 * t) \<le> nbytes) \<and> (t \<le> 17 \<longrightarrow> nbytes < 2 ^ (12 + 3 * t))"

lemma tier_loop_band:
  assumes "t \<le> 17" and "t = 0 \<or> 2 ^ (9 + 3 * t) \<le> nbytes"
  shows "\<exists>r. tier_loop nbytes t (2 ^ (12 + 3 * t)) = Some r \<and> in_band nbytes r"
  using assms
proof (induction "17 - t" arbitrary: t)
  case 0
  have e: "(2 :: nat) ^ (12 + 3 * t) * tier_ratio = 2 ^ 66" using 0 by (simp add: tier_ratio_def)
  show ?case
  proof (cases "2 ^ (12 + 3 * t) \<le> nbytes")
    case True
    then show ?thesis using 0 e by (subst tier_loop.simps) (simp add: in_band_def)
  next
    case False
    then show ?thesis using 0 by (subst tier_loop.simps) (auto simp: in_band_def)
  qed
next
  case (Suc d)
  have e: "(2 :: nat) ^ (12 + 3 * t) * tier_ratio = 2 ^ (12 + 3 * (t + 1))" by (simp add: tier_ratio_def power_add)
  have "(2 :: nat) ^ (12 + 3 * (t + 1)) < 2 ^ 64" by (rule power_strict_increasing) (use Suc.hyps(2) in simp_all)
  then have lt: "\<not> (2 :: nat) ^ (12 + 3 * t) * tier_ratio \<ge> 2 ^ 64" by (simp only: e not_le)
  show ?case
  proof (cases "2 ^ (12 + 3 * t) \<le> nbytes")
    case True
    then have "tier_loop nbytes t (2 ^ (12 + 3 * t)) = tier_loop nbytes (t + 1) (2 ^ (12 + 3 * (t + 1)))"
      using lt by (subst tier_loop.simps) (simp only: e if_True if_False)
    moreover have "\<exists>r. tier_loop nbytes (t + 1) (2 ^ (12 + 3 * (t + 1))) = Some r \<and> in_band nbytes r"
      by (rule Suc.hyps(1)) (use Suc.hyps(2) True in simp_all)
    ultimately show ?thesis by simp
  next
    case False
    then show ?thesis using Suc.prems by (subst tier_loop.simps) (auto simp: in_band_def)
  qed
qed

lemma in_band_unique:
  assumes "in_band nbytes t" and "in_band nbytes u"
  shows "t = u"
proof -
  have "\<not> a < b" if "in_band nbytes a" "in_band nbytes b" for a b
  proof
    assume l: "a < b"
    have "(2 :: nat) ^ (12 + 3 * a) \<le> 2 ^ (9 + 3 * b)" by (rule power_increasing) (use l in simp_all)
    moreover have "nbytes < 2 ^ (12 + 3 * a)" "2 ^ (9 + 3 * b) \<le> nbytes" using that l by (simp_all add: in_band_def)
    ultimately show False by linarith
  qed
  then show ?thesis using assms by (meson linorder_neqE_nat)
qed

text \<open>C24: the search for the tier of a size ends for every size, and its answer is the one band the size
  is in.\<close>

theorem tier_of_total: "\<exists>t. \<forall>u. (tier_of nbytes = Some u \<longleftrightarrow> u = t) \<and> (in_band nbytes u \<longleftrightarrow> u = t)"
proof -
  obtain t where t: "tier_of nbytes = Some t" "in_band nbytes t"
    using tier_loop_band [of 0 nbytes] by (auto simp: tier_of_def tier_zero_max_bytes_def)
  then show ?thesis using in_band_unique by (metis option.inject)
qed

lemma tier_of_band: "tier_of nbytes = Some t \<longleftrightarrow> in_band nbytes t"
  using tier_loop_band [of 0 nbytes] in_band_unique by (auto simp: tier_of_def tier_zero_max_bytes_def)

text \<open>A full tier merges into the next one: eight sizes of one band above the lowest add up to a size
  of the band above it.\<close>

lemma full_tier_climbs:
  assumes "length sizes = tier_ratio" and "\<forall>b \<in> set sizes. tier_of b = Some t" and "0 < t" and "t < 18"
  shows "tier_of (sum_list sizes) = Some (t + 1)"
proof -
  have b: "2 ^ (9 + 3 * t) \<le> b \<and> b < 2 ^ (12 + 3 * t)" if "b \<in> set sizes" for b
    using assms(2-4) that by (auto simp: tier_of_band in_band_def)
  have "(\<Sum>b \<leftarrow> sizes. 2 ^ (9 + 3 * t)) \<le> (\<Sum>b \<leftarrow> sizes. b)" by (rule sum_list_mono) (use b in blast)
  then have lo: "8 * 2 ^ (9 + 3 * t) \<le> sum_list sizes"
    using assms(1) by (simp add: tier_ratio_def sum_list_triv)
  have "(\<Sum>b \<leftarrow> sizes. b) \<le> (\<Sum>b \<leftarrow> sizes. 2 ^ (12 + 3 * t) - 1)" by (rule sum_list_mono) (use b in fastforce)
  then have "sum_list sizes \<le> 8 * (2 ^ (12 + 3 * t) - 1)"
    using assms(1) by (simp add: tier_ratio_def sum_list_triv)
  moreover have "(0 :: nat) < 2 ^ (12 + 3 * t)" by simp
  ultimately have hi: "sum_list sizes < 8 * 2 ^ (12 + 3 * t)" by linarith
  show ?thesis unfolding tier_of_band in_band_def
    using lo hi assms(4) by (simp add: power_add)
qed

subsection \<open>The tier of a pass\<close>

record tier_policy =
  ti_max_part_bytes :: nat
  ti_min_parts :: nat
  ti_max_parts :: nat
  ti_max_input_bytes :: nat

record tier_candidate =
  tc_partition :: string
  tc_bytes :: nat
  tc_max_ts :: int

type_synonym tier_key = "string \<times> nat"

text \<open>\<open>tier_of\<close> always answers (\<open>tier_of_total\<close>).\<close>

definition tier_key_of :: "tier_candidate \<Rightarrow> tier_key" where
  "tier_key_of c = (tc_partition c, case tier_of (tc_bytes c) of Some t \<Rightarrow> t | None \<Rightarrow> 0)"

definition newest_by_partition :: "tier_candidate list \<Rightarrow> (string \<rightharpoonup> int)" where
  "newest_by_partition cs =
     fold (\<lambda>c m. m(tc_partition c \<mapsto> max (case m (tc_partition c) of None \<Rightarrow> i64_min | Some n \<Rightarrow> n) (tc_max_ts c))) cs (\<lambda>_. None)"

definition tier_keys :: "tier_policy \<Rightarrow> tier_candidate list \<Rightarrow> tier_key list" where
  "tier_keys policy cs = sort (remdups (map tier_key_of (filter (\<lambda>c. tc_bytes c < ti_max_part_bytes policy) cs)))"

definition tier_members :: "tier_policy \<Rightarrow> tier_candidate list \<Rightarrow> tier_key \<Rightarrow> nat list" where
  "tier_members policy cs key =
     filter (\<lambda>i. tc_bytes (cs ! i) < ti_max_part_bytes policy \<and> tier_key_of (cs ! i) = key) [0..<length cs]"

fun take_tier :: "tier_policy \<Rightarrow> tier_candidate list \<Rightarrow> nat list \<Rightarrow> nat list \<Rightarrow> nat \<Rightarrow> nat list" where
  "take_tier policy cs [] selected selected_bytes = selected"
| "take_tier policy cs (i # is) selected selected_bytes =
     (if length selected = ti_max_parts policy \<or>
         selected \<noteq> [] \<and> selected_bytes + tc_bytes (cs ! i) > ti_max_input_bytes policy
      then selected
      else take_tier policy cs is (selected @ [i]) (selected_bytes + tc_bytes (cs ! i)))"

fun first_tier :: "tier_policy \<Rightarrow> tier_candidate list \<Rightarrow> int \<Rightarrow> tier_key list \<Rightarrow> nat list option" where
  "first_tier policy cs idle_before [] = None"
| "first_tier policy cs idle_before (key # keys) =
     (let tier = tier_members policy cs key;
          idle = (case newest_by_partition cs (fst key) of None \<Rightarrow> False | Some newest \<Rightarrow> newest < idle_before)
      in if length tier < ti_min_parts policy \<and> \<not> (idle \<and> length tier \<ge> 2) then first_tier policy cs idle_before keys
         else
           (let selected = take_tier policy cs (sort_key (\<lambda>i. (tc_bytes (cs ! i), i)) tier) [] 0
            in if length selected \<ge> 2 then Some selected else first_tier policy cs idle_before keys))"

definition select_tier :: "tier_candidate list \<Rightarrow> tier_policy \<Rightarrow> int \<Rightarrow> nat list option" where
  "select_tier cs policy now = first_tier policy cs (saturating_sub_i64 now idle_partition_age) (tier_keys policy cs)"

subsection \<open>What a pass takes\<close>

abbreviation tier_bytes :: "tier_candidate list \<Rightarrow> nat list \<Rightarrow> nat" where
  "tier_bytes cs is \<equiv> (\<Sum>i \<leftarrow> is. tc_bytes (cs ! i))"

lemma take_tier_prefix:
  "\<exists>k. take_tier policy cs is sel b = sel @ take k is"
proof (induction policy cs "is" sel b rule: take_tier.induct)
  case (2 policy cs i "is" sel b)
  show ?case
  proof (cases "length sel = ti_max_parts policy \<or> sel \<noteq> [] \<and> b + tc_bytes (cs ! i) > ti_max_input_bytes policy")
    case True
    then show ?thesis by (intro exI [of _ 0]) simp
  next
    case False
    then obtain k where "take_tier policy cs is (sel @ [i]) (b + tc_bytes (cs ! i)) = (sel @ [i]) @ take k is" using 2 by blast
    then show ?thesis using False by (intro exI [of _ "Suc k"]) auto
  qed
qed simp

lemma take_tier_bounds:
  assumes "b = tier_bytes cs sel" and "length sel \<le> ti_max_parts policy" and "length sel \<ge> 2 \<longrightarrow> b \<le> ti_max_input_bytes policy"
  shows "length (take_tier policy cs is sel b) \<le> ti_max_parts policy \<and>
    (length (take_tier policy cs is sel b) \<ge> 2 \<longrightarrow> tier_bytes cs (take_tier policy cs is sel b) \<le> ti_max_input_bytes policy)"
  using assms
proof (induction policy cs "is" sel b rule: take_tier.induct)
  case (2 policy cs i "is" sel b)
  show ?case
  proof (cases "length sel = ti_max_parts policy \<or> sel \<noteq> [] \<and> b + tc_bytes (cs ! i) > ti_max_input_bytes policy")
    case True
    then show ?thesis using "2.prems" by auto
  next
    case False
    then have "sel \<noteq> [] \<longrightarrow> b + tc_bytes (cs ! i) \<le> ti_max_input_bytes policy" "length sel < ti_max_parts policy"
      using "2.prems"(2) by auto
    moreover from this have "length (sel @ [i]) \<ge> 2 \<longrightarrow> b + tc_bytes (cs ! i) \<le> ti_max_input_bytes policy" by (cases sel) simp_all
    ultimately have "length (take_tier policy cs is (sel @ [i]) (b + tc_bytes (cs ! i))) \<le> ti_max_parts policy \<and>
      (length (take_tier policy cs is (sel @ [i]) (b + tc_bytes (cs ! i))) \<ge> 2 \<longrightarrow>
        tier_bytes cs (take_tier policy cs is (sel @ [i]) (b + tc_bytes (cs ! i))) \<le> ti_max_input_bytes policy)"
      by (intro "2.IH" [OF False]) (use "2.prems"(1) in simp_all)
    moreover have "take_tier policy cs (i # is) sel b = take_tier policy cs is (sel @ [i]) (b + tc_bytes (cs ! i))" using False by auto
    ultimately show ?thesis by presburger
  qed
qed simp

lemma newest_fold:
  fixes cs :: "tier_candidate list"
  defines "upd \<equiv> \<lambda>c m. m(tc_partition c \<mapsto> max (case m (tc_partition c) of None \<Rightarrow> i64_min | Some n \<Rightarrow> n) (tc_max_ts c))"
  shows "fold upd cs m p = Some n \<Longrightarrow> (\<forall>k. m p = Some k \<longrightarrow> k \<le> n) \<and> (\<forall>c \<in> set cs. tc_partition c = p \<longrightarrow> tc_max_ts c \<le> n)"
proof (induction cs arbitrary: m)
  case (Cons c cs)
  have "fold upd cs (upd c m) p = Some n" using Cons.prems by simp
  from Cons.IH [OF this] show ?case by (cases "tc_partition c = p") (auto simp: upd_def)
qed simp

lemma newest_by_partition_bound:
  assumes "newest_by_partition cs p = Some n" and "c \<in> set cs" and "tc_partition c = p"
  shows "tc_max_ts c \<le> n"
  using newest_fold [of cs "\<lambda>_. None" p n] assms unfolding newest_by_partition_def by blast

lemma first_tier_some:
  assumes "first_tier policy cs idle_before keys = Some sel"
  shows "\<exists>key \<in> set keys. sel = take_tier policy cs (sort_key (\<lambda>i. (tc_bytes (cs ! i), i)) (tier_members policy cs key)) [] 0 \<and>
    length sel \<ge> 2 \<and>
    (length (tier_members policy cs key) \<ge> ti_min_parts policy \<or>
      (\<exists>n. newest_by_partition cs (fst key) = Some n \<and> n < idle_before))"
  using assms
proof (induction policy cs idle_before keys rule: first_tier.induct)
  case (2 policy cs idle_before key keys)
  then show ?case by (force simp: Let_def split: if_splits option.splits)
qed simp

lemma take_sorted_key:
  assumes "distinct xs" and "i \<in> set (take k (sort_key f xs))" and "j \<in> set xs - set (take k (sort_key f xs))" and "inj_on f (set xs)"
  shows "f i < f j"
proof -
  have "sorted (map f (sort_key f xs))" by simp
  then have s: "sorted (map f (take k (sort_key f xs) @ drop k (sort_key f xs)))" by simp
  have "set (sort_key f xs) = set (take k (sort_key f xs)) \<union> set (drop k (sort_key f xs))"
    by (metis append_take_drop_id set_append)
  then have j: "j \<in> set (drop k (sort_key f xs))" using assms(3) by auto
  then have "f i \<le> f j" using s assms(2) unfolding map_append sorted_append by auto
  moreover have "i \<in> set xs" using assms(2) by (metis in_set_takeD set_sort)
  then have "f i \<noteq> f j" using assms(2-4) unfolding inj_on_def by (metis DiffD1 DiffD2)
  ultimately show ?thesis by simp
qed

text \<open>C23: what a pass rewrites together: at least two parts and at most as many as the policy allows,
  each once, all of one tier of one partition, within the input budget, the smallest of that tier
  first; and the tier was full, or nothing newer than the idle age is in its partition.\<close>

theorem select_tier_sound:
  assumes "select_tier cs policy now = Some sel"
  shows "2 \<le> length sel \<and> length sel \<le> ti_max_parts policy \<and> tier_bytes cs sel \<le> ti_max_input_bytes policy \<and> distinct sel \<and>
    (\<exists>key. set sel \<subseteq> set (tier_members policy cs key) \<and>
      (\<forall>i \<in> set sel. \<forall>j \<in> set (tier_members policy cs key) - set sel. (tc_bytes (cs ! i), i) < (tc_bytes (cs ! j), j)) \<and>
      (length (tier_members policy cs key) \<ge> ti_min_parts policy \<or>
       (\<forall>c \<in> set cs. tc_partition c = fst key \<longrightarrow> tc_max_ts c < saturating_sub_i64 now idle_partition_age)))"
proof -
  define f where "f = (\<lambda>i. (tc_bytes (cs ! i), i))"
  obtain key where key: "sel = take_tier policy cs (sort_key f (tier_members policy cs key)) [] 0" "length sel \<ge> 2"
    "length (tier_members policy cs key) \<ge> ti_min_parts policy \<or>
     (\<exists>n. newest_by_partition cs (fst key) = Some n \<and> n < saturating_sub_i64 now idle_partition_age)"
    using first_tier_some assms unfolding select_tier_def f_def by blast
  obtain k where k: "sel = take k (sort_key f (tier_members policy cs key))"
    using take_tier_prefix [of policy cs "sort_key f (tier_members policy cs key)" "[]" 0] key(1) by auto
  have d: "distinct (tier_members policy cs key)" by (simp add: tier_members_def)
  have b: "length sel \<le> ti_max_parts policy \<and> (length sel \<ge> 2 \<longrightarrow> tier_bytes cs sel \<le> ti_max_input_bytes policy)"
    unfolding key(1) by (rule take_tier_bounds) simp_all
  have i: "inj_on f (set (tier_members policy cs key))" by (simp add: f_def inj_on_def)
  have "\<forall>i \<in> set sel. \<forall>j \<in> set (tier_members policy cs key) - set sel. f i < f j"
    unfolding k using take_sorted_key [OF d _ _ i] by blast
  moreover have "set sel \<subseteq> set (tier_members policy cs key)" unfolding k using set_take_subset by fastforce
  moreover have "distinct sel" unfolding k using d by simp
  moreover have "length (tier_members policy cs key) \<ge> ti_min_parts policy \<or>
       (\<forall>c \<in> set cs. tc_partition c = fst key \<longrightarrow> tc_max_ts c < saturating_sub_i64 now idle_partition_age)"
    using key(3) newest_by_partition_bound by (metis order_le_less_trans)
  ultimately show ?thesis using b key(2) unfolding f_def by blast
qed

text \<open>A tier that is due is never passed by: with a full tier whose parts fit two by two, a pass has
  something to do.\<close>

lemma first_tier_finds:
  assumes "key \<in> set keys" and "length (tier_members policy cs key) \<ge> ti_min_parts policy" and "2 \<le> length (tier_members policy cs key)"
    and "2 \<le> ti_max_parts policy"
    and "\<forall>i \<in> set (tier_members policy cs key). \<forall>j \<in> set (tier_members policy cs key). tc_bytes (cs ! i) + tc_bytes (cs ! j) \<le> ti_max_input_bytes policy"
  shows "first_tier policy cs idle_before keys \<noteq> None"
  using assms(1)
proof (induction keys)
  case (Cons key' keys)
  show ?case
  proof (cases "key' = key")
    case True
    define tier where "tier = sort_key (\<lambda>i. (tc_bytes (cs ! i), i)) (tier_members policy cs key)"
    have "length tier \<ge> 2" "set tier = set (tier_members policy cs key)" using assms(3) by (simp_all add: tier_def)
    moreover from this obtain i j rest where t: "tier = i # j # rest" by (cases tier; cases "tl tier") auto
    ultimately have "i \<in> set (tier_members policy cs key)" "j \<in> set (tier_members policy cs key)" by auto
    then have "tc_bytes (cs ! i) + tc_bytes (cs ! j) \<le> ti_max_input_bytes policy" using assms(5) by blast
    moreover have "1 \<noteq> ti_max_parts policy" "0 \<noteq> ti_max_parts policy" using assms(4) by simp_all
    ultimately have "take_tier policy cs tier [] 0 = take_tier policy cs rest [i, j] (tc_bytes (cs ! i) + tc_bytes (cs ! j))"
      by (simp add: t)
    moreover obtain k where "take_tier policy cs rest [i, j] (tc_bytes (cs ! i) + tc_bytes (cs ! j)) = [i, j] @ take k rest"
      using take_tier_prefix by blast
    ultimately have "length (take_tier policy cs tier [] 0) \<ge> 2" by simp
    then show ?thesis using assms(2) True by (simp add: Let_def tier_def)
  next
    case False
    then have "first_tier policy cs idle_before keys \<noteq> None" using Cons by simp
    then show ?thesis by (auto simp: Let_def)
  qed
qed simp

definition sample_candidates :: "tier_candidate list" where
  "sample_candidates = [\<lparr>tc_partition = ''p'', tc_bytes = 200, tc_max_ts = 0\<rparr>, \<lparr>tc_partition = ''p'', tc_bytes = 100, tc_max_ts = 0\<rparr>]"

definition sample_tier_policy :: tier_policy where
  "sample_tier_policy = \<lparr>ti_max_part_bytes = 1000, ti_min_parts = 8, ti_max_parts = 16, ti_max_input_bytes = 1000\<rparr>"

lemma sample_selection: "select_tier sample_candidates sample_tier_policy 10000000000000 = Some [1, 0]"
proof -
  have t: "tier_of 200 = Some 0" "tier_of 100 = Some 0" by (simp_all add: tier_of_band in_band_def)
  have k: "tier_keys sample_tier_policy sample_candidates = [(''p'', 0)]"
    by (simp add: tier_keys_def sample_candidates_def sample_tier_policy_def tier_key_of_def t)
  have m: "tier_members sample_tier_policy sample_candidates (''p'', 0) = [0, 1]"
    by (simp add: tier_members_def sample_candidates_def sample_tier_policy_def tier_key_of_def t upt_rec)
  have n: "newest_by_partition sample_candidates ''p'' = Some 0"
    by (simp add: newest_by_partition_def sample_candidates_def i64_min_def)
  show ?thesis
    by (simp add: select_tier_def k m n Let_def saturating_sub_i64_def i64_max_def i64_min_def idle_partition_age_def)
      (simp add: sample_candidates_def sample_tier_policy_def)
qed

theorem select_tier_sound_witness:
  "tier_bytes sample_candidates [1, 0] \<le> ti_max_input_bytes sample_tier_policy \<and> distinct [1, 0 :: nat]"
  using select_tier_sound [OF sample_selection] by blast

end
