(* ===== verification/RowMerge.thy ===== *)
theory RowMerge
  imports Parts "HOL-Library.Product_Lexorder" "HOL-Library.Multiset"
begin

text \<open>
  \<open>signy/src/part/row_stream.rs\<close> and \<open>sort_rows\<close> of \<open>format.rs\<close>: the rows of several parts as one
  sorted sequence, page by page. The heap of the standard library is a list of heads together with
  \<open>pick\<close>, the place of the head it pops, which is any of the least ones: equal heads come out in an
  order the library does not promise.
\<close>

subsection \<open>Rows in order\<close>

definition row_key :: "log_row \<Rightarrow> tenant_id \<times> int \<times> string \<times> (string \<times> string) list" where
  "row_key r = (ro_tenant r, ro_ts r, ro_line r, ro_metadata r)"

definition sort_rows :: "log_row list \<Rightarrow> log_row list" where
  "sort_rows rows = remdups_adj (sort_key row_key rows)"

text \<open>The rows of a part, row group by row group, and how far they were read.\<close>

record row_stream =
  rs_groups :: "log_row list list"
  rs_next :: nat
  rs_per_page :: nat
  rs_page :: "log_row list"

definition row_stream_new :: "part_meta \<Rightarrow> log_row list list \<Rightarrow> nat \<Rightarrow> row_stream" where
  "row_stream_new m groups page_bytes =
     (let group_count = length groups;
          rows_per_group = max (pm_row_count m div max group_count 1) 1;
          bytes_per_row = max (pm_bytes m div max (pm_row_count m) 1) 1;
          bytes_per_group = max (min (rows_per_group * bytes_per_row) (2 ^ 64 - 1)) 1
      in \<lparr>rs_groups = groups, rs_next = 0, rs_per_page = min (max (page_bytes div bytes_per_group) 1) (max group_count 1), rs_page = []\<rparr>)"

partial_function (option) stream_next :: "row_stream \<Rightarrow> (log_row option \<times> row_stream) option" where
  "stream_next s =
     (case rs_page s of
        row # page \<Rightarrow> Some (Some row, s\<lparr>rs_page := page\<rparr>)
      | [] \<Rightarrow>
          if rs_next s \<ge> length (rs_groups s) then Some (None, s)
          else
            (let upto = min (rs_next s + rs_per_page s) (length (rs_groups s));
                 rows = concat (take (upto - rs_next s) (drop (rs_next s) (rs_groups s)))
             in stream_next (s\<lparr>rs_next := upto, rs_page := rows\<rparr>)))"

type_synonym head_heap = "(log_row \<times> nat) list"

record merged_rows =
  mr_streams :: "row_stream list"
  mr_heap :: head_heap
  mr_primed :: bool

definition merged_rows_new :: "row_stream list \<Rightarrow> merged_rows" where
  "merged_rows_new streams = \<lparr>mr_streams = streams, mr_heap = [], mr_primed = False\<rparr>"

definition push_from :: "nat \<Rightarrow> merged_rows \<Rightarrow> merged_rows option" where
  "push_from i m =
     (case stream_next (mr_streams m ! i) of
        None \<Rightarrow> None
      | Some (None, s) \<Rightarrow> Some (m\<lparr>mr_streams := (mr_streams m)[i := s]\<rparr>)
      | Some (Some row, s) \<Rightarrow> Some (m\<lparr>mr_streams := (mr_streams m)[i := s], mr_heap := (row, i) # mr_heap m\<rparr>))"

fun push_all :: "nat list \<Rightarrow> merged_rows \<Rightarrow> merged_rows option" where
  "push_all [] m = Some m"
| "push_all (i # is) m = (case push_from i m of None \<Rightarrow> None | Some m' \<Rightarrow> push_all is m')"

definition pop_row :: "(head_heap \<Rightarrow> nat) \<Rightarrow> merged_rows \<Rightarrow> (log_row option \<times> merged_rows) option" where
  "pop_row pick m =
     (case (if mr_primed m then Some m
            else map_option (\<lambda>m'. m'\<lparr>mr_primed := True\<rparr>) (push_all [0..<length (mr_streams m)] m)) of
        None \<Rightarrow> None
      | Some m \<Rightarrow>
          if mr_heap m = [] then Some (None, m)
          else
            (let k = pick (mr_heap m); (row, i) = mr_heap m ! k
             in map_option (\<lambda>m'. (Some row, m')) (push_from i (m\<lparr>mr_heap := take k (mr_heap m) @ drop (k + 1) (mr_heap m)\<rparr>))))"

partial_function (option) drop_equal :: "(head_heap \<Rightarrow> nat) \<Rightarrow> log_row \<Rightarrow> merged_rows \<Rightarrow> merged_rows option" where
  "drop_equal pick row m =
     (if mr_heap m \<noteq> [] \<and> row_key (fst (mr_heap m ! pick (mr_heap m))) = row_key row
      then (case pop_row pick m of None \<Rightarrow> None | Some (_, m') \<Rightarrow> drop_equal pick row m')
      else Some m)"

definition next_row :: "(head_heap \<Rightarrow> nat) \<Rightarrow> merged_rows \<Rightarrow> (log_row option \<times> merged_rows) option" where
  "next_row pick m =
     (case pop_row pick m of
        None \<Rightarrow> None
      | Some (None, m') \<Rightarrow> Some (None, m')
      | Some (Some row, m') \<Rightarrow> map_option (\<lambda>m''. (Some row, m'')) (drop_equal pick row m'))"

text \<open>What its caller does: rows until there is none.\<close>

partial_function (option) read_all_rows :: "(head_heap \<Rightarrow> nat) \<Rightarrow> merged_rows \<Rightarrow> log_row list option" where
  "read_all_rows pick m =
     (case next_row pick m of
        None \<Rightarrow> None
      | Some (None, _) \<Rightarrow> Some []
      | Some (Some row, m') \<Rightarrow> Option.bind (read_all_rows pick m') (\<lambda>rows. Some (row # rows)))"

subsection \<open>One stream\<close>

definition stream_rest :: "row_stream \<Rightarrow> log_row list" where
  "stream_rest s = rs_page s @ concat (drop (rs_next s) (rs_groups s))"

lemma stream_next_rest:
  assumes "rs_per_page s > 0"
  shows "case stream_rest s of
      [] \<Rightarrow> \<exists>s'. stream_next s = Some (None, s') \<and> stream_rest s' = [] \<and> rs_per_page s' > 0
    | row # rest \<Rightarrow> \<exists>s'. stream_next s = Some (Some row, s') \<and> stream_rest s' = rest \<and> rs_per_page s' > 0"
  using assms
proof (induction "length (rs_groups s) - rs_next s" arbitrary: s rule: less_induct)
  case less
  show ?case
  proof (cases "rs_page s")
    case (Cons row page)
    then have "stream_next s = Some (Some row, s\<lparr>rs_page := page\<rparr>)" by (subst stream_next.simps) simp
    then show ?thesis using Cons less.prems by (simp add: stream_rest_def)
  next
    case Nil
    show ?thesis
    proof (cases "rs_next s \<ge> length (rs_groups s)")
      case True
      then have "stream_next s = Some (None, s)" using Nil by (subst stream_next.simps) simp
      then show ?thesis using Nil True less.prems by (simp add: stream_rest_def)
    next
      case False
      define upto where "upto = min (rs_next s + rs_per_page s) (length (rs_groups s))"
      define s' where "s' = s\<lparr>rs_next := upto, rs_page := concat (take (upto - rs_next s) (drop (rs_next s) (rs_groups s)))\<rparr>"
      have u: "rs_next s < upto" "upto \<le> length (rs_groups s)" using False less.prems by (auto simp: upto_def)
      have e: "stream_next s = stream_next s'" using Nil False by (subst stream_next.simps) (simp add: Let_def s'_def upto_def)
      have "drop (rs_next s) (rs_groups s) = take (upto - rs_next s) (drop (rs_next s) (rs_groups s)) @ drop upto (rs_groups s)"
        using u by (metis append_take_drop_id drop_drop le_add_diff_inverse2 less_imp_le)
      then have "concat (drop (rs_next s) (rs_groups s)) =
          concat (take (upto - rs_next s) (drop (rs_next s) (rs_groups s))) @ concat (drop upto (rs_groups s))"
        by (metis concat_append)
      then have r: "stream_rest s' = stream_rest s" using Nil by (simp add: stream_rest_def s'_def)
      have "length (rs_groups s') - rs_next s' < length (rs_groups s) - rs_next s" "rs_per_page s' > 0"
        using u less.prems by (simp_all add: s'_def)
      from less.hyps [OF this] show ?thesis unfolding e r .
    qed
  qed
qed

subsection \<open>The streams together\<close>

definition merged_ok :: "merged_rows \<Rightarrow> bool" where
  "merged_ok m \<longleftrightarrow>
     (\<forall>s \<in> set (mr_streams m). rs_per_page s > 0) \<and>
     (\<forall>i < length (mr_streams m). sorted (map row_key (stream_rest (mr_streams m ! i))))"

definition heap_ok :: "merged_rows \<Rightarrow> bool" where
  "heap_ok m \<longleftrightarrow> distinct (map snd (mr_heap m)) \<and>
     (\<forall>(r, i) \<in> set (mr_heap m). i < length (mr_streams m) \<and> (\<forall>x \<in> set (stream_rest (mr_streams m ! i)). row_key r \<le> row_key x))"

definition waiting :: "nat set \<Rightarrow> merged_rows \<Rightarrow> bool" where
  "waiting is m \<longleftrightarrow> (\<forall>i < length (mr_streams m). i \<notin> is \<longrightarrow> i \<in> snd ` set (mr_heap m) \<or> stream_rest (mr_streams m ! i) = [])"

definition all_rows :: "merged_rows \<Rightarrow> log_row multiset" where
  "all_rows m = mset (map fst (mr_heap m)) + (\<Sum>s \<leftarrow> mr_streams m. mset (stream_rest s))"

lemma set_mset_rests: "set_mset (\<Sum>s \<leftarrow> xs. mset (stream_rest s)) = (\<Union>s \<in> set xs. set (stream_rest s))"
  by (induction xs) auto

lemma sum_list_update_mset:
  fixes f :: "'a \<Rightarrow> 'b multiset"
  assumes "i < length xs"
  shows "(\<Sum>x \<leftarrow> xs[i := y]. f x) + f (xs ! i) = (\<Sum>x \<leftarrow> xs. f x) + f y"
  using assms
proof (induction xs arbitrary: i)
  case (Cons x xs)
  show ?case
  proof (cases i)
    case (Suc j)
    then have "(\<Sum>x \<leftarrow> xs[j := y]. f x) + f (xs ! j) = (\<Sum>x \<leftarrow> xs. f x) + f y" using Cons by simp
    then show ?thesis using Suc by (simp add: add.assoc)
  qed (simp add: ac_simps)
qed simp

lemma push_from_ok:
  assumes "merged_ok m" and "heap_ok m" and "i < length (mr_streams m)" and "i \<notin> snd ` set (mr_heap m)"
  shows "\<exists>m'. push_from i m = Some m' \<and> merged_ok m' \<and> heap_ok m' \<and> all_rows m' = all_rows m \<and> mr_primed m' = mr_primed m \<and>
    length (mr_streams m') = length (mr_streams m) \<and> (\<forall>is. waiting (insert i is) m \<longrightarrow> waiting is m') \<and>
    snd ` set (mr_heap m') \<subseteq> insert i (snd ` set (mr_heap m))"
proof -
  define s where "s = mr_streams m ! i"
  have s: "rs_per_page s > 0" "sorted (map row_key (stream_rest s))"
    using assms(1,3) by (simp_all add: merged_ok_def s_def)
  have n: "\<forall>r. (r, i) \<notin> set (mr_heap m)" using assms(4) by force
  note u = sum_list_update_mset [OF assms(3), where f = "\<lambda>s. mset (stream_rest s)", folded s_def]
  show ?thesis
  proof (cases "stream_rest s")
    case Nil
    then obtain s' where s': "stream_next s = Some (None, s')" "stream_rest s' = []" "rs_per_page s' > 0"
      using stream_next_rest [OF s(1)] by auto
    define m' where "m' = m\<lparr>mr_streams := (mr_streams m)[i := s']\<rparr>"
    have "push_from i m = Some m'" using s'(1) by (simp add: push_from_def s_def m'_def)
    moreover have "merged_ok m'" using assms(1,3) s' by (auto simp: merged_ok_def m'_def nth_list_update dest!: set_update_subset_insert [THEN subsetD])
    moreover have "heap_ok m'" using n assms(2-4) s'(2) by (auto simp: heap_ok_def m'_def nth_list_update)
    moreover have "all_rows m' = all_rows m" using u [where y = s'] Nil s'(2) by (simp add: all_rows_def m'_def)
    moreover have "\<forall>is. waiting (insert i is) m \<longrightarrow> waiting is m'" using assms(3) s'(2) by (auto simp: waiting_def m'_def nth_list_update)
    ultimately show ?thesis by (auto simp: m'_def)
  next
    case (Cons row rest)
    then obtain s' where s': "stream_next s = Some (Some row, s')" "stream_rest s' = rest" "rs_per_page s' > 0"
      using stream_next_rest [OF s(1)] by auto
    define m' where "m' = m\<lparr>mr_streams := (mr_streams m)[i := s'], mr_heap := (row, i) # mr_heap m\<rparr>"
    have "push_from i m = Some m'" using s'(1) by (simp add: push_from_def s_def m'_def)
    moreover have "merged_ok m'" using assms(1,3) s' s(2) Cons
      by (auto simp: merged_ok_def m'_def nth_list_update dest!: set_update_subset_insert [THEN subsetD])
    moreover have "heap_ok m'" using n assms(2-4) s'(2) s(2) Cons by (auto simp: heap_ok_def m'_def nth_list_update)
    moreover have "all_rows m' = all_rows m" using u [where y = s'] Cons s'(2) by (simp add: all_rows_def m'_def)
    moreover have "\<forall>is. waiting (insert i is) m \<longrightarrow> waiting is m'" by (auto simp: waiting_def m'_def nth_list_update)
    ultimately show ?thesis by (auto simp: m'_def)
  qed
qed

lemma push_all_ok:
  assumes "merged_ok m" and "heap_ok m" and "distinct is" and "\<forall>i \<in> set is. i < length (mr_streams m) \<and> i \<notin> snd ` set (mr_heap m)"
  shows "\<exists>m'. push_all is m = Some m' \<and> merged_ok m' \<and> heap_ok m' \<and> all_rows m' = all_rows m \<and> mr_primed m' = mr_primed m \<and>
    length (mr_streams m') = length (mr_streams m) \<and> (waiting (set is) m \<longrightarrow> waiting {} m')"
  using assms
proof (induction "is" arbitrary: m)
  case (Cons i "is")
  obtain m1 where m1: "push_from i m = Some m1" "merged_ok m1" "heap_ok m1" "all_rows m1 = all_rows m" "mr_primed m1 = mr_primed m"
    "length (mr_streams m1) = length (mr_streams m)" "\<forall>is. waiting (insert i is) m \<longrightarrow> waiting is m1"
    "snd ` set (mr_heap m1) \<subseteq> insert i (snd ` set (mr_heap m))"
    using push_from_ok [OF Cons.prems(1,2), of i] Cons.prems(4) by auto
  have p: "\<forall>j \<in> set is. j < length (mr_streams m1) \<and> j \<notin> snd ` set (mr_heap m1)"
  proof
    fix j assume "j \<in> set is"
    then have "j \<noteq> i" "j < length (mr_streams m)" "j \<notin> snd ` set (mr_heap m)" using Cons.prems(3,4) by auto
    then show "j < length (mr_streams m1) \<and> j \<notin> snd ` set (mr_heap m1)" using m1(6,8) by (metis insertE subsetD)
  qed
  have "distinct is" using Cons.prems(3) by simp
  from Cons.IH [OF m1(2,3) this p] show ?case using m1 by auto
qed simp

text \<open>The heap of the library: what is popped is a head of least key.\<close>

definition pops_least :: "(head_heap \<Rightarrow> nat) \<Rightarrow> bool" where
  "pops_least pick \<longleftrightarrow> (\<forall>h. h \<noteq> [] \<longrightarrow> pick h < length h \<and> (\<forall>x \<in> set h. row_key (fst (h ! pick h)) \<le> row_key (fst x)))"

definition primed_ok :: "merged_rows \<Rightarrow> bool" where
  "primed_ok m \<longleftrightarrow> merged_ok m \<and> heap_ok m \<and> mr_primed m \<and> waiting {} m"

lemma all_rows_least:
  assumes "primed_ok m" and "\<forall>x \<in> set (mr_heap m). k \<le> row_key (fst x)" and "r \<in># all_rows m"
  shows "k \<le> row_key r"
proof (cases "r \<in> fst ` set (mr_heap m)")
  case True
  then show ?thesis using assms(2) by auto
next
  case False
  have "r \<in> (\<Union>s \<in> set (mr_streams m). set (stream_rest s))"
    using assms(3) False unfolding all_rows_def set_mset_union set_mset_rests by auto
  then have "\<exists>i < length (mr_streams m). r \<in> set (stream_rest (mr_streams m ! i))" by (metis UN_E in_set_conv_nth)
  then obtain i where i: "i < length (mr_streams m)" "r \<in> set (stream_rest (mr_streams m ! i))" by blast
  then have "i \<in> snd ` set (mr_heap m)" using assms(1) by (auto simp: primed_ok_def waiting_def)
  then obtain h where h: "(h, i) \<in> set (mr_heap m)" by force
  then have "row_key h \<le> row_key r" using assms(1) i(2) unfolding primed_ok_def heap_ok_def by fast
  moreover have "k \<le> row_key h" using assms(2) h by force
  ultimately show ?thesis by (rule order_trans [rotated])
qed

lemma pop_row_primed:
  assumes "pops_least pick" and "primed_ok m"
  shows "if mr_heap m = [] then all_rows m = {#} \<and> pop_row pick m = Some (None, m)
    else \<exists>m'. pop_row pick m = Some (Some (fst (mr_heap m ! pick (mr_heap m))), m') \<and> primed_ok m' \<and>
      all_rows m = add_mset (fst (mr_heap m ! pick (mr_heap m))) (all_rows m') \<and>
      (\<forall>r \<in># all_rows m'. row_key (fst (mr_heap m ! pick (mr_heap m))) \<le> row_key r)"
proof (cases "mr_heap m = []")
  case True
  have "stream_rest s = []" if "s \<in> set (mr_streams m)" for s
    using assms(2) True that by (auto simp: primed_ok_def waiting_def set_conv_nth)
  then have "set_mset (all_rows m) = {}" unfolding all_rows_def set_mset_union set_mset_rests True by auto
  then have "all_rows m = {#}" by simp
  then show ?thesis using True assms(2) by (simp add: pop_row_def primed_ok_def)
next
  case False
  define k h where "k = pick (mr_heap m)" and "h = mr_heap m"
  have pick: "pick h = k" by (simp add: k_def h_def)
  obtain row i where ri: "h ! k = (row, i)" by (cases "h ! k")
  have k: "k < length h" "\<forall>x \<in> set h. row_key row \<le> row_key (fst x)"
    using assms(1) False ri unfolding pops_least_def k_def h_def by (metis, metis fst_conv)
  have split: "h = take k h @ (row, i) # drop (k + 1) h" using k(1) ri by (metis Suc_eq_plus1 id_take_nth_drop)
  define m1 where "m1 = m\<lparr>mr_heap := take k h @ drop (k + 1) h\<rparr>"
  have sub: "set (mr_heap m1) \<subseteq> set h" by (auto simp: m1_def dest: in_set_takeD in_set_dropD)
  have d: "distinct (map snd (take k h @ (row, i) # drop (k + 1) h))"
    using assms(2) split by (simp add: primed_ok_def heap_ok_def h_def)
  have m1: "merged_ok m1" "heap_ok m1" "i < length (mr_streams m1)" "i \<notin> snd ` set (mr_heap m1)"
  proof -
    show "merged_ok m1" using assms(2) by (simp add: primed_ok_def merged_ok_def m1_def)
    have "distinct (map snd (mr_heap m1))" using d by (simp add: m1_def)
    moreover have "\<forall>x \<in> set h. case x of (r, i) \<Rightarrow> i < length (mr_streams m1) \<and> (\<forall>y \<in> set (stream_rest (mr_streams m1 ! i)). row_key r \<le> row_key y)"
      using assms(2) by (simp add: primed_ok_def heap_ok_def h_def m1_def)
    then have "\<forall>x \<in> set (mr_heap m1). case x of (r, i) \<Rightarrow> i < length (mr_streams m1) \<and> (\<forall>y \<in> set (stream_rest (mr_streams m1 ! i)). row_key r \<le> row_key y)"
      using sub by blast
    ultimately show "heap_ok m1" unfolding heap_ok_def by blast
    have "(row, i) \<in> set h" by (subst split) simp
    then show "i < length (mr_streams m1)" using assms(2) by (auto simp: primed_ok_def heap_ok_def h_def m1_def)
    show "i \<notin> snd ` set (mr_heap m1)" using d by (auto simp: m1_def)
  qed
  obtain m' where m': "push_from i m1 = Some m'" "merged_ok m'" "heap_ok m'" "all_rows m' = all_rows m1" "mr_primed m' = mr_primed m1"
    "\<forall>is. waiting (insert i is) m1 \<longrightarrow> waiting is m'"
    using push_from_ok [OF m1] by blast
  have "waiting {i} m1" unfolding waiting_def
  proof (intro allI impI)
    fix j assume j: "j < length (mr_streams m1)" "j \<notin> {i}"
    then have "j \<in> snd ` set h \<or> stream_rest (mr_streams m ! j) = []"
      using assms(2) by (auto simp: primed_ok_def waiting_def h_def m1_def)
    moreover have "snd ` set h = insert i (snd ` set (mr_heap m1))" by (subst split) (auto simp: m1_def)
    ultimately show "j \<in> snd ` set (mr_heap m1) \<or> stream_rest (mr_streams m1 ! j) = []" using j(2) by (auto simp: m1_def)
  qed
  then have p: "primed_ok m'" using m' assms(2) by (simp add: primed_ok_def m1_def)
  have "mset (map fst h) = add_mset row (mset (map fst (take k h @ drop (k + 1) h)))" by (subst split) simp
  then have "all_rows m = add_mset row (all_rows m1)" by (simp add: all_rows_def m1_def h_def [symmetric])
  then have a: "all_rows m = add_mset row (all_rows m')" by (simp add: m'(4))
  have "row_key row \<le> row_key r" if "r \<in># all_rows m'" for r
    using all_rows_least [OF assms(2), of "row_key row" r] k(2) that a by (auto simp: h_def)
  moreover have "pop_row pick m = Some (Some row, m')"
    using False assms(2) ri m'(1) pick by (simp add: pop_row_def primed_ok_def Let_def h_def [symmetric] m1_def)
  ultimately show ?thesis using False a p ri by (simp add: k_def h_def)
qed

lemma row_key_inject: "row_key r = row_key r' \<longleftrightarrow> r = r'"
  by (cases r; cases r') (simp add: row_key_def)

lemma drop_equal_ok:
  assumes "pops_least pick" and "primed_ok m" and "\<forall>r \<in># all_rows m. row_key row \<le> row_key r"
  shows "\<exists>m' n. drop_equal pick row m = Some m' \<and> primed_ok m' \<and> all_rows m = replicate_mset n row + all_rows m' \<and>
    (\<forall>r \<in># all_rows m'. row_key row < row_key r)"
  using assms(2,3)
proof (induction "size (all_rows m)" arbitrary: m rule: less_induct)
  case less
  define top where "top = fst (mr_heap m ! pick (mr_heap m))"
  note pop = pop_row_primed [OF assms(1) less.prems(1), folded top_def]
  show ?case
  proof (cases "mr_heap m \<noteq> [] \<and> row_key top = row_key row")
    case True
    then obtain m1 where m1: "pop_row pick m = Some (Some top, m1)" "primed_ok m1" "all_rows m = add_mset top (all_rows m1)"
      using pop by auto
    have t: "top = row" using True by (simp add: row_key_inject)
    have "size (all_rows m1) < size (all_rows m)" "\<forall>r \<in># all_rows m1. row_key row \<le> row_key r"
      using m1(3) less.prems(2) by auto
    from less.hyps [OF this(1) m1(2) this(2)] obtain m' n where m': "drop_equal pick row m1 = Some m'" "primed_ok m'"
      "all_rows m1 = replicate_mset n row + all_rows m'" "\<forall>r \<in># all_rows m'. row_key row < row_key r" by blast
    have "drop_equal pick row m = drop_equal pick row m1"
      using True m1(1) by (subst drop_equal.simps) (simp add: top_def)
    moreover have "all_rows m = replicate_mset (Suc n) row + all_rows m'" using m1(3) m'(3) t by simp
    ultimately show ?thesis using m' by metis
  next
    case False
    then have e: "drop_equal pick row m = Some m" by (subst drop_equal.simps) (auto simp: top_def)
    have "row_key row < row_key r" if r: "r \<in># all_rows m" for r
    proof (cases "mr_heap m = []")
      case True
      then show ?thesis using pop r by simp
    next
      case heap: False
      then have "top \<in># all_rows m" "\<forall>r \<in># all_rows m. row_key top \<le> row_key r" using pop by auto
      moreover have "row_key top \<noteq> row_key row" using False heap by simp
      ultimately have "row_key row < row_key top" "row_key top \<le> row_key r" using less.prems(2) r by (auto simp: order_less_le)
      then show ?thesis by (rule order_less_le_trans)
    qed
    then show ?thesis using e less.prems(1) by (intro exI [of _ m] exI [of _ 0]) simp
  qed
qed

lemma next_row_ok:
  assumes "pops_least pick" and "primed_ok m"
  shows "if all_rows m = {#} then \<exists>m'. next_row pick m = Some (None, m')
    else \<exists>row m' n. next_row pick m = Some (Some row, m') \<and> primed_ok m' \<and>
      all_rows m = replicate_mset (Suc n) row + all_rows m' \<and> (\<forall>r \<in># all_rows m'. row_key row < row_key r)"
proof -
  define top where "top = fst (mr_heap m ! pick (mr_heap m))"
  note pop = pop_row_primed [OF assms, folded top_def]
  show ?thesis
  proof (cases "mr_heap m = []")
    case True
    then show ?thesis using pop by (simp add: next_row_def)
  next
    case False
    then obtain m1 where m1: "pop_row pick m = Some (Some top, m1)" "primed_ok m1" "all_rows m = add_mset top (all_rows m1)"
      "\<forall>r \<in># all_rows m1. row_key top \<le> row_key r"
      using pop by auto
    obtain m' n where m': "drop_equal pick top m1 = Some m'" "primed_ok m'" "all_rows m1 = replicate_mset n top + all_rows m'"
      "\<forall>r \<in># all_rows m'. row_key top < row_key r"
      using drop_equal_ok [OF assms(1) m1(2,4)] by blast
    have "next_row pick m = Some (Some top, m')" using m1(1) m'(1) by (simp add: next_row_def)
    moreover have "all_rows m = replicate_mset (Suc n) top + all_rows m'" using m1(3) m'(3) by simp
    moreover have "all_rows m \<noteq> {#}" using m1(3) by simp
    ultimately show ?thesis using m'(2,4) by auto
  qed
qed

lemma read_all_rows_ok:
  assumes "pops_least pick" and "primed_ok m"
  shows "\<exists>rows. read_all_rows pick m = Some rows \<and> sorted_wrt (<) (map row_key rows) \<and> set rows = set_mset (all_rows m)"
  using assms(2)
proof (induction "size (all_rows m)" arbitrary: m rule: less_induct)
  case less
  show ?case
  proof (cases "all_rows m = {#}")
    case True
    then obtain m' where "next_row pick m = Some (None, m')" using next_row_ok [OF assms(1) less.prems] by auto
    then show ?thesis using True by (subst read_all_rows.simps) simp
  next
    case False
    then obtain row m' n where m': "next_row pick m = Some (Some row, m')" "primed_ok m'"
      "all_rows m = replicate_mset (Suc n) row + all_rows m'" "\<forall>r \<in># all_rows m'. row_key row < row_key r"
      using next_row_ok [OF assms(1) less.prems] by auto
    have "size (all_rows m') < size (all_rows m)" using m'(3) by simp
    from less.hyps [OF this m'(2)] obtain rows where rows: "read_all_rows pick m' = Some rows"
      "sorted_wrt (<) (map row_key rows)" "set rows = set_mset (all_rows m')" by blast
    have "read_all_rows pick m = Some (row # rows)" using m'(1) rows(1) by (subst read_all_rows.simps) simp
    moreover have "sorted_wrt (<) (map row_key (row # rows))" using rows(2,3) m'(4) by simp
    moreover have "set (row # rows) = set_mset (all_rows m)" using rows(3) m'(3) by auto
    ultimately show ?thesis by blast
  qed
qed

lemma sorted_remdups_adj_strict: "sorted xs \<Longrightarrow> sorted_wrt (<) (remdups_adj (xs :: 'a :: linorder list))"
  by (induction xs rule: remdups_adj.induct) (auto simp: order_less_le)

lemma sort_rows_strict: "sorted_wrt (<) (map row_key (sort_rows rows))" and set_sort_rows: "set (sort_rows rows) = set rows"
proof -
  define ks where "ks = map row_key (sort_key row_key rows)"
  have i: "inj row_key" by (rule injI) (simp add: row_key_inject)
  then have "map row_key (sort_rows rows) = remdups_adj ks" by (simp add: sort_rows_def ks_def remdups_adj_map_injective)
  moreover have "sorted ks" by (simp add: ks_def)
  then have "sorted_wrt (<) (remdups_adj ks)" by (rule sorted_remdups_adj_strict)
  ultimately show "sorted_wrt (<) (map row_key (sort_rows rows))" by simp
  show "set (sort_rows rows) = set rows" by (simp add: sort_rows_def)
qed

lemma strictly_sorted_rows_unique:
  assumes "sorted_wrt (<) (map row_key xs)" and "sorted_wrt (<) (map row_key ys)" and "set xs = set ys"
  shows "xs = ys"
proof -
  have "map row_key xs = map row_key ys"
    by (rule strict_sorted_equal [OF assms(2,1)]) (simp add: assms(3))
  then show ?thesis by (rule map_injective) (auto intro: injI simp: row_key_inject)
qed

lemma merged_rows_are_sorted_rows_lemma:
  assumes "pops_least pick" and "list_all (\<lambda>(m, groups). sorted (map row_key (concat groups))) parts"
  shows "read_all_rows pick (merged_rows_new (map (\<lambda>(m, groups). row_stream_new m groups page_bytes) parts)) =
    Some (sort_rows (concat (map (\<lambda>(m, groups). concat groups) parts)))"
proof -
  define streams where "streams = map (\<lambda>(m, groups). row_stream_new m groups page_bytes) parts"
  define m where "m = merged_rows_new streams"
  have rest: "stream_rest (row_stream_new mt groups page_bytes) = concat groups" "rs_per_page (row_stream_new mt groups page_bytes) > 0"
    for mt groups
    unfolding stream_rest_def row_stream_new_def Let_def
    by (simp_all only: row_stream.simps drop_0 append_Nil min_less_iff_conj less_max_iff_disj zero_less_one simp_thms)
  have ms: "mr_streams m = streams" by (simp add: m_def merged_rows_new_def)
  have st: "sorted (map row_key (concat (snd (parts ! i))))" if "i < length parts" for i
    using assms(2) that by (simp add: list_all_length case_prod_unfold)
  have ok: "merged_ok m" unfolding merged_ok_def ms by (simp add: streams_def rest st case_prod_unfold)
  have h: "heap_ok m" by (simp add: heap_ok_def m_def merged_rows_new_def)
  obtain m1 where m1: "push_all [0..<length (mr_streams m)] m = Some m1" "merged_ok m1" "heap_ok m1" "all_rows m1 = all_rows m"
    "waiting (set [0..<length (mr_streams m)]) m \<longrightarrow> waiting {} m1"
    using push_all_ok [OF ok h, of "[0..<length (mr_streams m)]"] by (auto simp: m_def merged_rows_new_def)
  define m2 where "m2 = m1\<lparr>mr_primed := True\<rparr>"
  have p: "primed_ok m2" using m1 by (auto simp: primed_ok_def m2_def merged_ok_def heap_ok_def waiting_def)
  have "pop_row pick m = pop_row pick m2" using m1(1) by (simp add: pop_row_def m2_def m_def merged_rows_new_def)
  then have "next_row pick m = next_row pick m2" by (simp add: next_row_def)
  then have e: "read_all_rows pick m = read_all_rows pick m2" by (subst (1 2) read_all_rows.simps) simp
  obtain rows where rows: "read_all_rows pick m2 = Some rows" "sorted_wrt (<) (map row_key rows)" "set rows = set_mset (all_rows m2)"
    using read_all_rows_ok [OF assms(1) p] by blast
  have "set_mset (all_rows m2) = (\<Union>s \<in> set streams. set (stream_rest s))"
    using m1(4) by (simp add: all_rows_def m2_def m_def merged_rows_new_def set_mset_rests)
  also have "\<dots> = set (concat (map (\<lambda>(m, groups). concat groups) parts))" by (simp add: streams_def case_prod_unfold rest)
  finally have "rows = sort_rows (concat (map (\<lambda>(m, groups). concat groups) parts))"
    using strictly_sorted_rows_unique [OF rows(2) sort_rows_strict] by (simp add: rows(3) set_sort_rows)
  then show ?thesis using e rows(1) by (simp add: m_def streams_def)
qed

text \<open>C15: rows merged head by head, page by page, are the rows of all the parts sorted at once with the
  duplicates dropped: for parts that are sorted themselves, whatever the page size and whichever of
  equal heads the heap lets out first, the reading ends and gives exactly that.\<close>

theorem merged_rows_are_sorted_rows:
  assumes "pops_least pick" and "list_all (\<lambda>(m, groups). sorted (map row_key (concat groups))) parts"
  shows "read_all_rows pick (merged_rows_new (map (\<lambda>(m, groups). row_stream_new m groups page_bytes) parts)) =
    Some (sort_rows (concat (map (\<lambda>(m, groups). concat groups) parts)))"
  by (rule merged_rows_are_sorted_rows_lemma [OF assms])

text \<open>A heap that lets out the first of its least heads.\<close>

definition least_head :: "head_heap \<Rightarrow> nat" where
  "least_head h = length (takeWhile (\<lambda>x. list_ex (\<lambda>y. row_key (fst y) < row_key (fst x)) h) h)"

lemma least_head_pops: "pops_least least_head"
  unfolding pops_least_def
proof (intro allI impI)
  fix h :: head_heap assume "h \<noteq> []"
  define P where "P = (\<lambda>x :: log_row \<times> nat. list_ex (\<lambda>y. row_key (fst y) < row_key (fst x)) h)"
  obtain z where z: "z \<in> set h" "\<forall>y \<in> set h. row_key (fst z) \<le> row_key (fst y)"
    using ex_min_if_finite [of "(\<lambda>x. row_key (fst x)) ` set h"] \<open>h \<noteq> []\<close> by (force simp: not_less)
  then have "\<not> P z" by (auto simp: P_def list_ex_iff not_less)
  then have "takeWhile P h \<noteq> h" using z(1) set_takeWhileD [of z P h] by metis
  then have l: "length (takeWhile P h) < length h"
    by (metis length_takeWhile_le le_neq_implies_less takeWhile_eq_take take_all_iff order_refl)
  have "\<not> P (h ! length (takeWhile P h))" by (rule nth_length_takeWhile [OF l])
  then show "least_head h < length h \<and> (\<forall>x \<in> set h. row_key (fst (h ! least_head h)) \<le> row_key (fst x))"
    using l by (auto simp: least_head_def P_def list_ex_iff not_less)
qed

definition sample_row :: "int \<Rightarrow> log_row" where
  "sample_row ts = \<lparr>ro_tenant = [97], ro_ts = ts, ro_line = ''x'', ro_metadata = []\<rparr>"

theorem merged_rows_are_sorted_rows_witness:
  "read_all_rows least_head (merged_rows_new (map (\<lambda>(m, groups). row_stream_new m groups 100)
      [(sample_meta ''a'' 5, [[sample_row 1], [sample_row 3]]), (sample_meta ''b'' 5, [[sample_row 1, sample_row 2]])])) =
    Some (sort_rows [sample_row 1, sample_row 3, sample_row 1, sample_row 2])"
proof -
  have "list_all (\<lambda>(m, groups). sorted (map row_key (concat groups)))
      [(sample_meta ''a'' 5, [[sample_row 1], [sample_row 3]]), (sample_meta ''b'' 5, [[sample_row 1, sample_row 2]])]"
    by (simp add: sample_row_def row_key_def)
  from merged_rows_are_sorted_rows [OF least_head_pops this, of 100] show ?thesis by simp
qed

end
