(* ===== verification/Merge.thy ===== *)
theory Merge
  imports Deletes Tier RowMerge
begin

text \<open>
  \<open>signy/src/merge/selection.rs\<close>: which parts of a partition a tick merges and why, and what a rewrite
  keeps. A part is its meta; the share of expired rows at which a part is rewritten is compared as
  floats in the code and is the parameter \<open>rw_share\<close> here.
\<close>

subsection \<open>Groups within a tier\<close>

record merge_config =
  mc_min_part_count :: nat
  mc_target_part_rows :: nat
  mc_max_part_rows :: nat
  mc_max_input_bytes :: nat
  mc_max_memory_bytes :: nat
  mc_max_groups_per_tick :: nat

definition sat_add :: "nat \<Rightarrow> nat \<Rightarrow> nat" where
  "sat_add a b = min (a + b) (2 ^ 64 - 1)"

definition stream_page_bytes :: nat where "stream_page_bytes = 8 * 1024 * 1024"

definition min_stream_page_bytes :: nat where "min_stream_page_bytes = 2 * 1024 * 1024"

definition merge_paging_budget :: "nat \<Rightarrow> nat" where
  "merge_paging_budget max_memory_bytes = max (max_memory_bytes div 2) min_stream_page_bytes"

definition min_group_parts :: "merge_config \<Rightarrow> nat" where
  "min_group_parts cfg = max (mc_min_part_count cfg) 2"

definition max_group_parts :: "merge_config \<Rightarrow> nat" where
  "max_group_parts cfg = max (merge_paging_budget (mc_max_memory_bytes cfg) div min_stream_page_bytes) (min_group_parts cfg)"

text \<open>How much of each input a rewrite of \<open>n\<close> parts holds at a time.\<close>

definition rewrite_page_bytes :: "merge_config \<Rightarrow> nat \<Rightarrow> nat" where
  "rewrite_page_bytes cfg n =
     max (min (merge_paging_budget (mc_max_memory_bytes cfg) div n) stream_page_bytes) min_stream_page_bytes"

text \<open>The accumulators of the loop: closed groups, the open one, its rows and bytes.\<close>

type_synonym grouping = "part_meta list list \<times> part_meta list \<times> nat \<times> nat"

definition close_group :: "bool \<Rightarrow> grouping \<Rightarrow> grouping" where
  "close_group cond acc = (case acc of (groups, current, rows, nbytes) \<Rightarrow>
     if cond then (groups @ [current], [], 0, 0) else acc)"

definition group_step :: "merge_config \<Rightarrow> part_meta \<Rightarrow> grouping \<Rightarrow> grouping" where
  "group_step cfg r acc =
     (case acc of (_, current, rows, nbytes) \<Rightarrow>
       let next_rows = sat_add rows (pm_row_count r);
           next_bytes = sat_add nbytes (pm_bytes r);
           acc1 = close_group (length current \<ge> min_group_parts cfg \<and> next_bytes > mc_max_input_bytes cfg) acc;
           acc2 = (case acc1 of (_, current, _, _) \<Rightarrow> close_group (current \<noteq> [] \<and> next_rows > mc_max_part_rows cfg) acc1)
       in (case acc2 of (groups, current, rows, nbytes) \<Rightarrow>
            let rows = sat_add rows (pm_row_count r); nbytes = sat_add nbytes (pm_bytes r); current = current @ [r]
            in close_group (length current \<ge> max_group_parts cfg \<or>
                 length current \<ge> min_group_parts cfg \<and> rows \<ge> mc_target_part_rows cfg) (groups, current, rows, nbytes)))"

definition group_within_tier :: "merge_config \<Rightarrow> part_meta list \<Rightarrow> part_meta list list" where
  "group_within_tier cfg parts =
     (case fold (group_step cfg) parts ([], [], 0, 0) of (groups, current, _, _) \<Rightarrow>
        if current \<noteq> [] then groups @ [current] else groups)"

definition part_tier :: "part_meta \<Rightarrow> nat" where
  "part_tier r = (case tier_of (pm_bytes r) of Some t \<Rightarrow> t | None \<Rightarrow> 0)"

definition group_for_merge :: "merge_config \<Rightarrow> part_meta list \<Rightarrow> part_meta list list" where
  "group_for_merge cfg parts =
     (let small = filter (\<lambda>r. pm_row_count r < mc_max_part_rows cfg) parts
      in concat (map (\<lambda>t. group_within_tier cfg (filter (\<lambda>r. part_tier r = t) small))
           (sort (remdups (map part_tier small)))))"

subsection \<open>The groups of a tick\<close>

record merge_group =
  mg_parts :: "part_meta list"
  mg_retention_only :: bool

record rewrite_rules =
  rw_cutoffs :: "cutoffs option"
  rw_share :: "nat \<Rightarrow> nat \<Rightarrow> bool"
  rw_zero_reaches :: bool
  rw_tenants :: "tenant_id list"
  rw_masks :: delete_map

definition needs_rewrite :: "rewrite_rules \<Rightarrow> part_meta \<Rightarrow> bool" where
  "needs_rewrite rw m =
     (if may_cover_part (rw_tenants rw) (rw_masks rw) m then True
      else (case rw_cutoffs rw of
              None \<Rightarrow> False
            | Some cu \<Rightarrow> holds_zero_retention_rows cu m \<or> expired_share_reached (rw_share rw) (rw_zero_reaches rw) cu m))"

definition partition_is_idle :: "part_meta list \<Rightarrow> int \<Rightarrow> bool" where
  "partition_is_idle parts now = list_all (\<lambda>m. pm_max_ts m < saturating_sub_i64 now idle_partition_age) parts"

fun admit_groups :: "merge_config \<Rightarrow> rewrite_rules \<Rightarrow> bool \<Rightarrow> part_meta list list \<Rightarrow> merge_group list \<times> string list" where
  "admit_groups cfg rw idle [] = ([], [])"
| "admit_groups cfg rw idle (g # gs) =
     (let age_admits = idle \<and> length g \<ge> 2;
          (selected, grouped) = admit_groups cfg rw idle gs
      in if length g < min_group_parts cfg \<and> \<not> age_admits \<and> \<not> list_ex (needs_rewrite rw) g then (selected, grouped)
         else (\<lparr>mg_parts = g, mg_retention_only = length g < min_group_parts cfg \<and> \<not> age_admits\<rparr> # selected,
               map pm_id g @ grouped))"

definition select_groups :: "merge_config \<Rightarrow> rewrite_rules \<Rightarrow> int \<Rightarrow> part_meta list \<Rightarrow> merge_group list" where
  "select_groups cfg rw now parts =
     (case admit_groups cfg rw (partition_is_idle parts now) (group_for_merge cfg parts) of (selected, grouped) \<Rightarrow>
        selected @ map (\<lambda>m. \<lparr>mg_parts = [m], mg_retention_only = True\<rparr>)
          (filter (\<lambda>m. needs_rewrite rw m \<and> pm_id m \<notin> set grouped) parts))"

definition by_partition :: "part_meta list \<Rightarrow> string \<Rightarrow> part_meta list" where
  "by_partition parts p = sort_key pm_row_count (filter (\<lambda>m. pm_partition m = p) parts)"

definition merge_debt_part_count :: "merge_config \<Rightarrow> rewrite_rules \<Rightarrow> int \<Rightarrow> part_meta list \<Rightarrow> nat" where
  "merge_debt_part_count cfg rw now parts =
     (\<Sum>p \<leftarrow> remdups (map pm_partition parts). \<Sum>g \<leftarrow> select_groups cfg rw now (by_partition parts p). length (mg_parts g))"

subsection \<open>What a rewrite keeps\<close>

definition rewrite_keeps :: "rewrite_rules \<Rightarrow> log_row \<Rightarrow> bool" where
  "rewrite_keeps rw row =
     (if (case rw_cutoffs rw of None \<Rightarrow> False | Some cu \<Rightarrow> is_expired cu (ro_tenant row) PolicyLogs (ro_ts row)) then False
      else \<not> hides_row (rw_masks rw) (ro_tenant row) (ro_ts row) (ro_line row) (ro_metadata row))"

subsection \<open>Groups are made of the parts\<close>

lemma close_group_concat:
  assumes "close_group cond (groups, current, rows, nbytes) = (groups', current', rows', nbytes')"
  shows "concat groups' @ current' = concat groups @ current"
  using assms by (auto simp: close_group_def split: if_splits)

definition group_inv :: "merge_config \<Rightarrow> grouping \<Rightarrow> bool" where
  "group_inv cfg acc \<longleftrightarrow> (case acc of (groups, current, rows, nbytes) \<Rightarrow>
     rows = fold (\<lambda>m n. sat_add n (pm_row_count m)) current 0 \<and>
     length current < max_group_parts cfg \<and> (length current \<ge> 2 \<longrightarrow> rows \<le> mc_max_part_rows cfg) \<and>
     (\<forall>g \<in> set groups. g \<noteq> [] \<and> length g \<le> max_group_parts cfg \<and>
        (length g \<ge> 2 \<longrightarrow> fold (\<lambda>m n. sat_add n (pm_row_count m)) g 0 \<le> mc_max_part_rows cfg)))"

lemma max_group_parts_pos: "2 \<le> max_group_parts cfg"
  by (simp add: max_group_parts_def min_group_parts_def)

lemma group_step_inv:
  assumes "group_inv cfg acc"
  shows "group_inv cfg (group_step cfg r acc)"
proof -
  obtain gs cur rows nb where acc: "acc = (gs, cur, rows, nb)" by (cases acc) auto
  define next_rows where "next_rows = sat_add rows (pm_row_count r)"
  define cut where "cut \<longleftrightarrow> length cur \<ge> min_group_parts cfg \<and> sat_add nb (pm_bytes r) > mc_max_input_bytes cfg \<or>
    cur \<noteq> [] \<and> next_rows > mc_max_part_rows cfg"
  have m: "min_group_parts cfg \<ge> 2" by (simp add: min_group_parts_def)
  obtain gs2 cur2 rows2 nb2 where acc2: "(gs2, cur2, rows2, nb2) = (if cut then (gs @ [cur], [], 0, 0) else (gs, cur, rows, nb))"
    by (metis prod_cases4)
  have step: "group_step cfg r acc = close_group (length (cur2 @ [r]) \<ge> max_group_parts cfg \<or>
      length (cur2 @ [r]) \<ge> min_group_parts cfg \<and> sat_add rows2 (pm_row_count r) \<ge> mc_target_part_rows cfg)
      (gs2, cur2 @ [r], sat_add rows2 (pm_row_count r), sat_add nb2 (pm_bytes r))"
    using acc2 m by (auto simp: group_step_def acc close_group_def Let_def cut_def next_rows_def split: if_splits)
  have i2: "group_inv cfg (gs2, cur2, rows2, nb2)" "cur2 \<noteq> [] \<longrightarrow> sat_add rows2 (pm_row_count r) \<le> mc_max_part_rows cfg"
    using assms acc2 m max_group_parts_pos [of cfg] unfolding acc
    by (auto simp: group_inv_def cut_def next_rows_def split: if_splits)
  have "length (cur2 @ [r]) \<le> max_group_parts cfg" using i2(1) by (simp add: group_inv_def)
  moreover have "length (cur2 @ [r]) \<ge> 2 \<longrightarrow> sat_add rows2 (pm_row_count r) \<le> mc_max_part_rows cfg"
    using i2(2) by (cases cur2) simp_all
  ultimately show ?thesis using i2(1) max_group_parts_pos [of cfg] unfolding step
    by (auto simp: group_inv_def close_group_def)
qed

lemma group_step_concat:
  "(case group_step cfg r acc of (gs, cur, _, _) \<Rightarrow> concat gs @ cur) = (case acc of (gs, cur, _, _) \<Rightarrow> concat gs @ cur) @ [r]"
  by (cases acc) (auto simp: group_step_def close_group_def Let_def split: if_splits prod.splits)

lemma group_fold:
  assumes "group_inv cfg acc"
  shows "group_inv cfg (fold (group_step cfg) parts acc) \<and>
    (case fold (group_step cfg) parts acc of (gs, cur, _, _) \<Rightarrow> concat gs @ cur) = (case acc of (gs, cur, _, _) \<Rightarrow> concat gs @ cur) @ parts"
  using assms by (induction parts arbitrary: acc) (auto simp: group_step_inv group_step_concat)

definition group_bounded :: "merge_config \<Rightarrow> part_meta list \<Rightarrow> bool" where
  "group_bounded cfg g \<longleftrightarrow> g \<noteq> [] \<and> length g \<le> max_group_parts cfg \<and>
     (length g \<ge> 2 \<longrightarrow> fold (\<lambda>m n. sat_add n (pm_row_count m)) g 0 \<le> mc_max_part_rows cfg)"

lemma group_within_tier_ok:
  "concat (group_within_tier cfg parts) = parts" "g \<in> set (group_within_tier cfg parts) \<Longrightarrow> group_bounded cfg g"
proof -
  obtain gs cur rows nb where f: "fold (group_step cfg) parts ([], [], 0, 0) = (gs, cur, rows, nb)" by (metis prod_cases4)
  have "group_inv cfg ([], [], 0, 0)" using max_group_parts_pos [of cfg] by (simp add: group_inv_def)
  from group_fold [OF this, of parts] have i: "group_inv cfg (gs, cur, rows, nb)" "concat gs @ cur = parts" by (simp_all add: f)
  show "concat (group_within_tier cfg parts) = parts" using i(2) by (auto simp: group_within_tier_def f)
  assume "g \<in> set (group_within_tier cfg parts)"
  then show "group_bounded cfg g" using i(1) by (auto simp: group_within_tier_def f group_inv_def group_bounded_def split: if_splits)
qed

lemma filter_mset_insert:
  "t \<notin> S \<Longrightarrow> filter_mset (\<lambda>r. f r = t) M + filter_mset (\<lambda>r. f r \<in> S) M = filter_mset (\<lambda>r. f r \<in> insert t S) M"
  by (induction M) auto

lemma mset_by_keys:
  assumes "distinct ts"
  shows "mset (concat (map (\<lambda>t. filter (\<lambda>r. f r = t) xs) ts)) = filter_mset (\<lambda>r. f r \<in> set ts) (mset xs)"
  using assms
proof (induction ts)
  case (Cons t ts)
  then show ?case using filter_mset_insert [of t "set ts" f "mset xs"] by simp
qed simp

lemma mset_by_tier:
  "mset (concat (map (\<lambda>t. filter (\<lambda>r. part_tier r = t) xs) (sort (remdups (map part_tier xs))))) = mset xs"
proof -
  have "filter (\<lambda>r. part_tier r \<in> set (sort (remdups (map part_tier xs)))) xs = xs" by (rule filter_True) simp
  then show ?thesis by (subst mset_by_keys) (simp_all flip: mset_filter)
qed

lemma group_for_merge_ok:
  "mset (concat (group_for_merge cfg parts)) = mset (filter (\<lambda>r. pm_row_count r < mc_max_part_rows cfg) parts)"
  "g \<in> set (group_for_merge cfg parts) \<Longrightarrow> group_bounded cfg g \<and> (\<exists>t. \<forall>m \<in> set g. part_tier m = t \<and> pm_row_count m < mc_max_part_rows cfg)"
proof -
  define small where "small = filter (\<lambda>r. pm_row_count r < mc_max_part_rows cfg) parts"
  have "concat (concat (map (\<lambda>t. group_within_tier cfg (h t)) ts)) = concat (map h ts)" for h :: "nat \<Rightarrow> part_meta list" and ts
    by (induction ts) (simp_all add: group_within_tier_ok(1))
  then have e: "concat (group_for_merge cfg parts) = concat (map (\<lambda>t. filter (\<lambda>r. part_tier r = t) small) (sort (remdups (map part_tier small))))"
    by (simp add: group_for_merge_def Let_def small_def [symmetric])
  show "mset (concat (group_for_merge cfg parts)) = mset (filter (\<lambda>r. pm_row_count r < mc_max_part_rows cfg) parts)"
    unfolding e mset_by_tier small_def ..
  assume "g \<in> set (group_for_merge cfg parts)"
  then obtain t where t: "g \<in> set (group_within_tier cfg (filter (\<lambda>r. part_tier r = t) small))"
    by (auto simp: group_for_merge_def Let_def small_def)
  have "set g \<subseteq> set (concat (group_within_tier cfg (filter (\<lambda>r. part_tier r = t) small)))" using t by auto
  then have "\<forall>m \<in> set g. part_tier m = t \<and> pm_row_count m < mc_max_part_rows cfg"
    unfolding group_within_tier_ok(1) by (auto simp: small_def)
  then show "group_bounded cfg g \<and> (\<exists>t. \<forall>m \<in> set g. part_tier m = t \<and> pm_row_count m < mc_max_part_rows cfg)"
    using group_within_tier_ok(2) [OF t] by blast
qed

definition admits :: "merge_config \<Rightarrow> rewrite_rules \<Rightarrow> bool \<Rightarrow> part_meta list \<Rightarrow> bool" where
  "admits cfg rw idle g \<longleftrightarrow> length g \<ge> min_group_parts cfg \<or> idle \<and> length g \<ge> 2 \<or> list_ex (needs_rewrite rw) g"

lemma admit_groups_eq:
  "admit_groups cfg rw idle gs =
     (map (\<lambda>g. \<lparr>mg_parts = g, mg_retention_only = length g < min_group_parts cfg \<and> \<not> (idle \<and> length g \<ge> 2)\<rparr>) (filter (admits cfg rw idle) gs),
      concat (map (map pm_id) (filter (admits cfg rw idle) gs)))"
  by (induction gs) (auto simp: admits_def Let_def)

lemma select_groups_parts:
  "map mg_parts (select_groups cfg rw now parts) =
     filter (admits cfg rw (partition_is_idle parts now)) (group_for_merge cfg parts) @
     map (\<lambda>m. [m]) (filter (\<lambda>m. needs_rewrite rw m \<and>
       pm_id m \<notin> pm_id ` set (concat (filter (admits cfg rw (partition_is_idle parts now)) (group_for_merge cfg parts)))) parts)"
  by (simp add: select_groups_def admit_groups_eq comp_def flip: map_concat)

lemma distinct_concat_filter: "distinct (concat gs) \<Longrightarrow> distinct (concat (filter P gs))"
  by (induction gs) auto

text \<open>Where the smallest group there may be fits, every group does.\<close>

lemma pages_within_budget:
  assumes "g \<noteq> []" and "length g \<le> max_group_parts cfg"
    and "min_group_parts cfg * min_stream_page_bytes \<le> merge_paging_budget (mc_max_memory_bytes cfg)"
  shows "length g * rewrite_page_bytes cfg (length g) \<le> merge_paging_budget (mc_max_memory_bytes cfg)"
proof -
  define n b where "n = length g" and "b = merge_paging_budget (mc_max_memory_bytes cfg)"
  have n: "0 < n" using assms(1) by (simp add: n_def)
  have m: "0 < min_stream_page_bytes" by (simp add: min_stream_page_bytes_def)
  have "min_group_parts cfg \<le> b div min_stream_page_bytes" using assms(3) m by (simp add: b_def less_eq_div_iff_mult_less_eq)
  then have "n \<le> b div min_stream_page_bytes" using assms(2) by (simp add: n_def max_group_parts_def b_def)
  then have "n * min_stream_page_bytes \<le> b" using m by (simp add: less_eq_div_iff_mult_less_eq)
  then have "min_stream_page_bytes \<le> b div n" using n by (simp add: less_eq_div_iff_mult_less_eq mult.commute)
  then have "rewrite_page_bytes cfg n \<le> b div n" by (simp add: rewrite_page_bytes_def b_def)
  then have "n * rewrite_page_bytes cfg n \<le> n * (b div n)" by simp
  also have "\<dots> \<le> b" by simp
  finally show ?thesis by (simp add: n_def b_def)
qed

text \<open>C22: the groups of a tick. Each part is in at most one, and each part that is worth a rewrite of its
  own is in one whatever its size: one a deletion request may cover, one with rows of a tenant at zero
  retention, one whose share of expired rows reaches the threshold. A group is of one tier, of no more
  parts than it may have and of no more rows than a part may have unless it is a single part, and the
  pages its rewrite holds stay within the paging budget wherever the budget has room for the fewest
  parts a group must have. Its reason is recorded: reclaiming only, for one with a part worth a rewrite,
  or a group large enough, or a partition that is idle.\<close>

theorem select_groups_sound:
  assumes "distinct (map pm_id parts)"
  shows "distinct (concat (map mg_parts (select_groups cfg rw now parts))) \<and>
    set (concat (map mg_parts (select_groups cfg rw now parts))) \<subseteq> set parts \<and>
    (\<forall>m \<in> set parts. needs_rewrite rw m \<longrightarrow> m \<in> set (concat (map mg_parts (select_groups cfg rw now parts)))) \<and>
    (\<forall>g \<in> set (select_groups cfg rw now parts).
       group_bounded cfg (mg_parts g) \<and> (\<exists>t. \<forall>m \<in> set (mg_parts g). part_tier m = t) \<and>
       (min_group_parts cfg * min_stream_page_bytes \<le> merge_paging_budget (mc_max_memory_bytes cfg) \<longrightarrow>
          length (mg_parts g) * rewrite_page_bytes cfg (length (mg_parts g)) \<le> merge_paging_budget (mc_max_memory_bytes cfg)) \<and>
       (if mg_retention_only g then length (mg_parts g) < min_group_parts cfg \<and> list_ex (needs_rewrite rw) (mg_parts g)
        else length (mg_parts g) \<ge> min_group_parts cfg \<or> partition_is_idle parts now \<and> length (mg_parts g) \<ge> 2))"
proof -
  define idle where "idle = partition_is_idle parts now"
  define gs where "gs = filter (admits cfg rw idle) (group_for_merge cfg parts)"
  define alone where "alone = filter (\<lambda>m. needs_rewrite rw m \<and> pm_id m \<notin> pm_id ` set (concat gs)) parts"
  have p: "map mg_parts (select_groups cfg rw now parts) = gs @ map (\<lambda>m. [m]) alone"
    unfolding select_groups_parts gs_def idle_def alone_def by simp
  have dp: "distinct parts" using assms by (simp add: distinct_map)
  have "distinct (concat (group_for_merge cfg parts))"
    using dp group_for_merge_ok(1) [of cfg parts] by (metis distinct_filter mset_eq_imp_distinct_iff)
  then have d: "distinct (concat gs)" unfolding gs_def by (rule distinct_concat_filter)
  have "set (concat (group_for_merge cfg parts)) \<subseteq> set parts"
    using mset_eq_setD [OF group_for_merge_ok(1) [of cfg parts]] by auto
  then have sub: "set (concat gs) \<subseteq> set parts" by (auto simp: gs_def)
  have c: "concat (map mg_parts (select_groups cfg rw now parts)) = concat gs @ alone" by (simp add: p)
  have "distinct (concat gs @ alone)" using d dp by (auto simp: alone_def)
  moreover have "m \<in> set (concat gs @ alone)" if m: "m \<in> set parts" "needs_rewrite rw m" for m
  proof (cases "pm_id m \<in> pm_id ` set (concat gs)")
    case True
    then obtain m' where "m' \<in> set (concat gs)" "pm_id m' = pm_id m" by force
    moreover from this have "m' = m" using assms m(1) sub by (meson distinct_map inj_onD subsetD)
    ultimately show ?thesis by simp
  next
    case False
    then show ?thesis using m by (simp add: alone_def)
  qed
  moreover have groups: "group_bounded cfg (mg_parts g) \<and> (\<exists>t. \<forall>m \<in> set (mg_parts g). part_tier m = t) \<and>
       (if mg_retention_only g then length (mg_parts g) < min_group_parts cfg \<and> list_ex (needs_rewrite rw) (mg_parts g)
        else length (mg_parts g) \<ge> min_group_parts cfg \<or> idle \<and> length (mg_parts g) \<ge> 2)"
    if "g \<in> set (select_groups cfg rw now parts)" for g
  proof -
    have "(\<exists>h \<in> set gs. g = \<lparr>mg_parts = h, mg_retention_only = length h < min_group_parts cfg \<and> \<not> (idle \<and> length h \<ge> 2)\<rparr>) \<or>
      (\<exists>m. g = \<lparr>mg_parts = [m], mg_retention_only = True\<rparr> \<and> needs_rewrite rw m)"
      using that unfolding select_groups_def admit_groups_eq gs_def idle_def by auto
    then consider (group) "mg_parts g \<in> set gs" "mg_retention_only g \<longleftrightarrow> length (mg_parts g) < min_group_parts cfg \<and> \<not> (idle \<and> length (mg_parts g) \<ge> 2)"
      | (single) m where "g = \<lparr>mg_parts = [m], mg_retention_only = True\<rparr>" "needs_rewrite rw m"
      by auto
    then show ?thesis
    proof cases
      case group
      then have "admits cfg rw idle (mg_parts g)" "mg_parts g \<in> set (group_for_merge cfg parts)" by (simp_all add: gs_def)
      then show ?thesis using group(2) group_for_merge_ok(2) [of "mg_parts g" cfg parts] by (auto simp: admits_def)
    next
      case single
      then show ?thesis using max_group_parts_pos [of cfg] by (simp add: group_bounded_def min_group_parts_def)
    qed
  qed
  moreover have "min_group_parts cfg * min_stream_page_bytes \<le> merge_paging_budget (mc_max_memory_bytes cfg) \<longrightarrow>
      length (mg_parts g) * rewrite_page_bytes cfg (length (mg_parts g)) \<le> merge_paging_budget (mc_max_memory_bytes cfg)"
    if "g \<in> set (select_groups cfg rw now parts)" for g
    using groups [OF that] pages_within_budget [of "mg_parts g" cfg] by (simp add: group_bounded_def)
  ultimately show ?thesis using sub unfolding c idle_def by (auto simp: alone_def)
qed

definition sample_merge_config :: merge_config where
  "sample_merge_config = \<lparr>mc_min_part_count = 4, mc_target_part_rows = 1000000, mc_max_part_rows = 4000000,
     mc_max_input_bytes = 512 * 1024 * 1024, mc_max_memory_bytes = 1024 * 1024 * 1024, mc_max_groups_per_tick = 16\<rparr>"

definition sample_rules :: "nat \<Rightarrow> rewrite_rules" where
  "sample_rules retention = \<lparr>rw_cutoffs = Some \<lparr>cu_policies = sample_policies retention, cu_now = 100\<rparr>, rw_share = (\<lambda>a b. 2 * a \<ge> b),
     rw_zero_reaches = False, rw_tenants = [], rw_masks = (\<lambda>_. None)\<rparr>"

text \<open>A part of a tenant at zero retention is in a group although it is alone.\<close>

lemma sample_needs_rewrite: "needs_rewrite (sample_rules 0) (sample_meta ''a'' 5)"
  by (simp add: needs_rewrite_def sample_rules_def may_cover_part_def holds_zero_retention_rows_def is_zero_retention_def sample_meta_def
      sample_segment_def policy_signal_retention_def sample_policies_def retention_for_def signal_retentions_get_def)

theorem select_groups_sound_witness:
  "sample_meta ''a'' 5 \<in> set (concat (map mg_parts (select_groups sample_merge_config (sample_rules 0) 100 [sample_meta ''a'' 5])))"
proof -
  have "distinct (map pm_id [sample_meta ''a'' 5])" by simp
  from select_groups_sound [OF this] sample_needs_rewrite show ?thesis by (meson list.set_intros(1))
qed

end
