(* ===== verification/PartDirs.thy ===== *)
theory PartDirs
  imports Main
begin

text \<open>
  \<open>remove_part_dirs\<close> of \<open>signy/src/part/tombstone.rs\<close>, which every signal removes its parts with: the
  directories of a parts root are an association list, and a directory is removed as a whole or in
  part.
\<close>

text \<open>\<open>left d p\<close> is what the removal of a directory leaves of it: nothing, when it works.\<close>

definition remove_part_dirs ::
    "('d \<Rightarrow> 'p \<Rightarrow> 'p option) \<Rightarrow> 'd list \<Rightarrow> ('d \<times> 'p) list \<Rightarrow> bool \<times> ('d \<times> 'p) list" where
  "remove_part_dirs left dirs disk =
     (list_all (\<lambda>(d, p). d \<in> set dirs \<longrightarrow> left d p = None) disk,
      List.map_filter (\<lambda>(d, p). if d \<in> set dirs then map_option (Pair d) (left d p) else Some (d, p)) disk)"

abbreviation others :: "'d list \<Rightarrow> ('d \<times> 'p) list \<Rightarrow> ('d \<times> 'p) list" where
  "others grp disk \<equiv> filter (\<lambda>(e, _). e \<notin> set grp) disk"

lemma map_filter_Cons:
  "List.map_filter f (x # xs) = (case f x of None \<Rightarrow> List.map_filter f xs | Some y \<Rightarrow> y # List.map_filter f xs)"
  by (simp add: List.map_filter_def split: option.split)

lemma map_filter_Nil: "List.map_filter f [] = []"
  by (simp add: List.map_filter_def)

lemma map_filter_append: "List.map_filter f (xs @ ys) = List.map_filter f xs @ List.map_filter f ys"
  by (simp add: List.map_filter_def)

lemmas map_filter_rules = map_filter_Cons map_filter_Nil map_filter_append

lemma map_filter_none: "(\<And>x. x \<in> set xs \<Longrightarrow> f x = None) \<Longrightarrow> List.map_filter f xs = []"
  by (induction xs) (simp_all add: map_filter_rules)

lemma remove_nothing: "remove_part_dirs left [] disk = (True, disk)"
  unfolding remove_part_dirs_def by (induction disk) (auto simp: map_filter_rules list_all_def)

lemma removed_simps [simp]:
  "snd (remove_part_dirs left dirs []) = []"
  "snd (remove_part_dirs left dirs ((e, q) # disk)) =
     (if e \<in> set dirs then (case left e q of None \<Rightarrow> [] | Some q' \<Rightarrow> [(e, q')]) else [(e, q)]) @ snd (remove_part_dirs left dirs disk)"
  "fst (remove_part_dirs left dirs []) = True"
  "fst (remove_part_dirs left dirs ((e, q) # disk)) = ((e \<in> set dirs \<longrightarrow> left e q = None) \<and> fst (remove_part_dirs left dirs disk))"
  by (auto simp: remove_part_dirs_def map_filter_rules split: option.splits)

lemma removed_subset:
  assumes "(e, q) \<in> set (snd (remove_part_dirs left dirs disk))"
  shows "\<exists>q0. (e, q0) \<in> set disk \<and> (q = q0 \<and> e \<notin> set dirs \<or> left e q0 = Some q \<and> e \<in> set dirs)"
  using assms by (induction disk) (fastforce split: if_splits option.splits)+

lemma remove_cong: "set a = set b \<Longrightarrow> remove_part_dirs left a disk = remove_part_dirs left b disk"
  by (simp add: remove_part_dirs_def)

lemma remove_append:
  "remove_part_dirs left dirs (a @ b) =
     (fst (remove_part_dirs left dirs a) \<and> fst (remove_part_dirs left dirs b),
      snd (remove_part_dirs left dirs a) @ snd (remove_part_dirs left dirs b))"
  by (simp add: remove_part_dirs_def map_filter_append)

lemma remove_other: "d \<notin> set dirs \<Longrightarrow> remove_part_dirs left dirs [(d, p)] = (True, [(d, p)])"
  by (simp add: remove_part_dirs_def map_filter_rules)

lemma remove_twice:
  "snd (remove_part_dirs left2 dirs (snd (remove_part_dirs left dirs disk))) =
   snd (remove_part_dirs (\<lambda>e q. case left e q of None \<Rightarrow> None | Some q' \<Rightarrow> left2 e q') dirs disk)"
  by (induction disk) (auto split: option.splits)

lemma remove_complete:
  "fst (remove_part_dirs left dirs disk) \<Longrightarrow> snd (remove_part_dirs left dirs disk) = others dirs disk"
  by (induction disk) auto

lemma others_removed: "others dirs (snd (remove_part_dirs left dirs disk)) = others dirs disk"
  by (induction disk) (auto split: option.splits)

end
