(* ===== verification/MergeCommit.thy ===== *)
theory MergeCommit
  imports Merge PartDirs
begin

text \<open>
  How a merge replaces its inputs on a local store: \<open>merge_once\<close> of \<open>signy/src/merge/scheduler.rs\<close>, the
  markers of \<open>part/tombstone.rs\<close>, and \<open>discover_parts\<close> of \<open>part/metadata.rs\<close>, which finishes at a start
  what a crash left undone. The directories of the parts root are an association list; a directory
  is named by its partition and identifier. The writer of a part, \<open>StreamingPartWriter\<close>, is the
  parameter \<open>write\<close>: the directory it makes for the rows it is given, sealed and renamed into place.
\<close>

subsection \<open>Directories\<close>

datatype marker = NoMarker | Marker "string list" | BadMarker

text \<open>\<open>pd_meta\<close> is \<open>None\<close> when \<open>meta.json\<close> is gone; \<open>pd_loads\<close> and \<open>pd_opens\<close> say whether \<open>load_part\<close> and
  \<open>PartReader::open\<close> accept the files.\<close>

record part_dir =
  pd_meta :: "part_meta option"
  pd_groups :: "log_row list list"
  pd_loads :: bool
  pd_opens :: bool
  pd_marker :: marker

type_synonym parts_disk = "(string \<times> part_dir) list"

definition remove_merge_tombstone :: "string \<Rightarrow> parts_disk \<Rightarrow> parts_disk" where
  "remove_merge_tombstone dir disk = map (\<lambda>(d, p). if d = dir then (d, p\<lparr>pd_marker := NoMarker\<rparr>) else (d, p)) disk"

subsection \<open>A start\<close>

definition tombstone_edges :: "parts_disk \<Rightarrow> (string \<times> string list) list" where
  "tombstone_edges disk =
     List.map_filter (\<lambda>(d, p). case (pd_meta p, pd_marker p) of (Some _, Marker olds) \<Rightarrow> Some (d, olds) | _ \<Rightarrow> None) disk"

definition valid_replacements :: "parts_disk \<Rightarrow> string list" where
  "valid_replacements disk =
     List.map_filter (\<lambda>(d, p). case (pd_meta p, pd_marker p) of
       (Some _, Marker olds) \<Rightarrow> if pd_loads p \<and> pd_opens p then Some d else None | _ \<Rightarrow> None) disk"

definition invalid_merge_dirs :: "parts_disk \<Rightarrow> string list" where
  "invalid_merge_dirs disk =
     List.map_filter (\<lambda>(d, p). case (pd_meta p, pd_marker p) of
       (Some _, Marker olds) \<Rightarrow> if pd_loads p \<and> pd_opens p then None else Some d
     | (Some _, BadMarker) \<Rightarrow> Some d | _ \<Rightarrow> None) disk"

function tombstoned :: "(string \<times> string list) list \<Rightarrow> string list \<Rightarrow> string list \<Rightarrow> string list" where
  "tombstoned edges [] seen = seen"
| "tombstoned edges (old # todo) seen =
     (if old \<in> set seen then tombstoned edges todo seen
      else tombstoned edges (todo @ (case map_of edges old of None \<Rightarrow> [] | Some olds \<Rightarrow> olds)) (seen @ [old]))"
  by pat_completeness auto
termination
proof (relation "measures [\<lambda>(edges, todo, seen). card (fst ` set edges - set seen), \<lambda>(edges, todo, seen). length todo]", goal_cases)
  case (3 edges old todo seen)
  show ?case
  proof (cases "old \<in> fst ` set edges")
    case True
    then have "card (fst ` set edges - set (seen @ [old])) < card (fst ` set edges - set seen)"
      using 3 by (intro psubset_card_mono) auto
    then show ?thesis by simp
  next
    case False
    then have "map_of edges old = None" "fst ` set edges - set (seen @ [old]) = fst ` set edges - set seen"
      by (auto simp: map_of_eq_None_iff)
    then show ?thesis by simp
  qed
qed auto

fun load_visible :: "string list \<Rightarrow> string list \<Rightarrow> parts_disk \<Rightarrow> string + parts_disk" where
  "load_visible gone invalid [] = Inr []"
| "load_visible gone invalid ((d, p) # disk) =
     (if pd_meta p = None then Inl d
      else if d \<in> set gone \<or> d \<in> set invalid then load_visible gone invalid disk
      else if \<not> pd_loads p then Inl d
      else (case load_visible gone invalid disk of Inl e \<Rightarrow> Inl e | Inr parts \<Rightarrow> Inr ((d, p) # parts)))"

definition discover_parts ::
    "(string \<Rightarrow> part_dir \<Rightarrow> part_dir option) \<Rightarrow> (string \<Rightarrow> bool) \<Rightarrow> parts_disk \<Rightarrow> (string + parts_disk) \<times> parts_disk" where
  "discover_parts left unmarks disk =
     (let edges = tombstone_edges disk;
          valid = valid_replacements disk;
          gone = tombstoned edges (concat (map (\<lambda>d. case map_of edges d of None \<Rightarrow> [] | Some olds \<Rightarrow> olds) valid)) [];
          (removed, disk1) = remove_part_dirs left gone disk;
          disk2 = (if removed then fold (\<lambda>d disk. if unmarks d then remove_merge_tombstone d disk else disk) valid disk1 else disk1)
      in (load_visible gone (invalid_merge_dirs disk) disk2, disk2))"

subsection \<open>A group of a tick\<close>

record merge_store =
  me_disk :: parts_disk
  me_registered :: "string list"

text \<open>The rows it keeps and how many it dropped; \<open>None\<close> for the error of a group over two partitions.\<close>

definition rewrite_group ::
    "(head_heap \<Rightarrow> nat) \<Rightarrow> merge_config \<Rightarrow> rewrite_rules \<Rightarrow> (part_meta \<times> log_row list list) list \<Rightarrow> (log_row list \<times> nat) option" where
  "rewrite_group pick cfg rw readers =
     (case readers of
        [] \<Rightarrow> Some ([], 0)
      | (m, _) # _ \<Rightarrow>
          if list_ex (\<lambda>(m', _). pm_partition m' \<noteq> pm_partition m) readers then None
          else
            (case read_all_rows pick (merged_rows_new (map (\<lambda>(m, groups). row_stream_new m groups (rewrite_page_bytes cfg (length readers))) readers)) of
               None \<Rightarrow> None
             | Some rows \<Rightarrow> Some (filter (rewrite_keeps rw) rows, length (filter (\<lambda>r. \<not> rewrite_keeps rw r) rows))))"

definition readers_of :: "parts_disk \<Rightarrow> string list \<Rightarrow> (part_meta \<times> log_row list list) list" where
  "readers_of disk dirs =
     List.map_filter (\<lambda>d. case map_of disk d of None \<Rightarrow> None | Some p \<Rightarrow> map_option (\<lambda>m. (m, pd_groups p)) (pd_meta p)) dirs"

text \<open>The states a group goes through, the last the one it ends in. \<open>active\<close> is what is registered by
  the time the rewrite is done, \<open>verifies\<close> that the marker reads back and the new part opens.\<close>

definition merge_group_states ::
    "(head_heap \<Rightarrow> nat) \<Rightarrow> (log_row list \<Rightarrow> string \<times> part_dir) \<Rightarrow> merge_config \<Rightarrow> rewrite_rules \<Rightarrow>
     (string \<Rightarrow> part_dir \<Rightarrow> part_dir option) \<Rightarrow> bool \<Rightarrow> string list \<Rightarrow> string list \<Rightarrow> bool \<Rightarrow> merge_store \<Rightarrow> merge_store list" where
  "merge_group_states pick write cfg rw left verifies active grp retention_only st =
     (if retention_only \<and> (case rw_cutoffs rw of None \<Rightarrow> False
                             | Some cu \<Rightarrow> list_all (\<lambda>(m, _). expired_log_rows cu m = 0) (readers_of (me_disk st) grp))
      then [st]
      else
        (case rewrite_group pick cfg rw (readers_of (me_disk st) grp) of
           None \<Rightarrow> [st]
         | Some (kept, dropped) \<Rightarrow>
             if kept = [] then [st]
             else
               (let (d, p) = write kept;
                    st1 = st\<lparr>me_disk := me_disk st @ [(d, p\<lparr>pd_marker := Marker grp\<rparr>)]\<rparr>;
                    discarded = st\<lparr>me_disk := snd (remove_part_dirs left [d] (me_disk st1))\<rparr>
                in if dropped = 0 \<and> retention_only \<or> \<not> verifies \<or> \<not> list_all (\<lambda>i. i \<in> set active) grp
                   then [st, st1, discarded]
                   else
                     (let (removed, disk2) = remove_part_dirs left grp (me_disk st1);
                          st2 = st\<lparr>me_disk := disk2, me_registered := filter (\<lambda>i. i \<notin> set grp) (me_registered st) @ [d]\<rparr>
                      in if removed then [st, st1, st2, st2\<lparr>me_disk := remove_merge_tombstone d disk2\<rparr>] else [st, st1, st2]))))"

subsection \<open>What a crash can leave\<close>

text \<open>The removal of a directory takes files away, in any order.\<close>

definition removal_ok :: "(string \<Rightarrow> part_dir \<Rightarrow> part_dir option) \<Rightarrow> bool" where
  "removal_ok left \<longleftrightarrow> (\<forall>d p p'. left d p = Some p' \<longrightarrow> pd_marker p' = NoMarker \<or> pd_marker p' = pd_marker p)"


definition clean_disk :: "parts_disk \<Rightarrow> bool" where
  "clean_disk disk \<longleftrightarrow> distinct (map fst disk) \<and>
     (\<forall>(d, p) \<in> set disk. pd_meta p \<noteq> None \<and> pd_loads p \<and> pd_opens p \<and> pd_marker p = NoMarker)"


text \<open>A disk on which nothing carries a marker.\<close>

lemma no_markers:
  assumes "\<forall>(d, p) \<in> set disk. pd_marker p = NoMarker"
  shows "tombstone_edges disk = []" and "valid_replacements disk = []" and "invalid_merge_dirs disk = []"
  unfolding tombstone_edges_def valid_replacements_def invalid_merge_dirs_def
  by (rule map_filter_none; use assms in \<open>fastforce split: option.splits\<close>)+

lemma load_visible_all:
  assumes "\<forall>(d, p) \<in> set disk. pd_meta p \<noteq> None \<and> pd_loads p"
  shows "load_visible gone [] disk = Inr (filter (\<lambda>(d, _). d \<notin> set gone) disk)"
  using assms by (induction disk) auto

lemma discover_clean:
  assumes "clean_disk disk"
  shows "discover_parts left unmarks disk = (Inr disk, disk)"
proof -
  have n: "\<forall>(d, p) \<in> set disk. pd_marker p = NoMarker" and l: "\<forall>(d, p) \<in> set disk. pd_meta p \<noteq> None \<and> pd_loads p"
    using assms by (auto simp: clean_disk_def)
  show ?thesis by (simp add: discover_parts_def Let_def no_markers [OF n] remove_nothing load_visible_all [OF l])
qed








subsection \<open>What a merge makes of the rows\<close>

definition rows_of :: "parts_disk \<Rightarrow> log_row set" where
  "rows_of disk = (\<Union>(e, q) \<in> set disk. set (concat (pd_groups q)))"



lemma rewrite_group_rows:
  assumes "pops_least pick" and "list_all (\<lambda>(m, groups). sorted (map row_key (concat groups))) readers"
    and "rewrite_group pick cfg rw readers = Some (kept, dropped)"
  shows "set kept = {r \<in> (\<Union>(m, groups) \<in> set readers. set (concat groups)). rewrite_keeps rw r}"
proof (cases readers)
  case Nil
  then show ?thesis using assms(3) by (simp add: rewrite_group_def)
next
  case (Cons x xs)
  note m = merged_rows_are_sorted_rows_lemma [OF assms(1,2), of "rewrite_page_bytes cfg (length readers)"]
  obtain m0 g0 where x: "x = (m0, g0)" by (cases x)
  have u: "rewrite_group pick cfg rw readers =
    (if list_ex (\<lambda>(m', _). pm_partition m' \<noteq> pm_partition m0) readers then None
     else (case read_all_rows pick (merged_rows_new (map (\<lambda>(m, groups). row_stream_new m groups (rewrite_page_bytes cfg (length readers))) readers)) of
             None \<Rightarrow> None
           | Some rows \<Rightarrow> Some (filter (rewrite_keeps rw) rows, length (filter (\<lambda>r. \<not> rewrite_keeps rw r) rows))))"
    using Cons x by (simp only: rewrite_group_def list.case prod.case)
  have "kept = filter (rewrite_keeps rw) (sort_rows (concat (map (\<lambda>(m, groups). concat groups) readers)))"
    using assms(3) unfolding u m by (auto split: if_splits)
  then show ?thesis by (auto simp: set_sort_rows)
qed


lemma others_rows: "rows_of disk = rows_of (others grp disk) \<union> (\<Union>(e, q) \<in> {x \<in> set disk. fst x \<in> set grp}. set (concat (pd_groups q)))"
  unfolding rows_of_def by auto





definition sample_part :: "string \<Rightarrow> log_row list \<Rightarrow> part_dir" where
  "sample_part i rows = \<lparr>pd_meta = Some (sample_meta i 5), pd_groups = [rows], pd_loads = True, pd_opens = True, pd_marker = NoMarker\<rparr>"

definition sample_disk :: parts_disk where
  "sample_disk = [(''a'', sample_part ''a'' [sample_row 1, sample_row 99]), (''b'', sample_part ''b'' [sample_row 98])]"

definition sample_write :: "log_row list \<Rightarrow> string \<times> part_dir" where
  "sample_write rows = (''new'', sample_part ''new'' rows)"


subsection \<open>Where it goes wrong\<close>

text \<open>C30: rows of a deletion request stay for good in a part that nothing else makes worth rewriting: a
  part too large for a group, with no expired rows, is selected at every tick because of the request,
  and the tick, which knows only of expired rows when it looks again, leaves it as it is.\<close>

theorem deleted_rows_of_large_part_stay:
  assumes "may_cover_part (rw_tenants rw) (rw_masks rw) m" and "pm_row_count m \<ge> mc_max_part_rows cfg"
    and "rw_cutoffs rw = Some cu" and "expired_log_rows cu m = 0"
    and "map_of (me_disk st) d = Some p" and "pd_meta p = Some m"
  shows "select_groups cfg rw now [m] = [\<lparr>mg_parts = [m], mg_retention_only = True\<rparr>] \<and>
    merge_group_states pick write cfg rw left verifies active [d] True st = [st]"
proof -
  have "group_for_merge cfg [m] = []" using assms(2) by (simp add: group_for_merge_def)
  moreover have "needs_rewrite rw m" using assms(1) by (simp add: needs_rewrite_def)
  ultimately have "select_groups cfg rw now [m] = [\<lparr>mg_parts = [m], mg_retention_only = True\<rparr>]" by (simp add: select_groups_def)
  moreover have "readers_of (me_disk st) [d] = [(m, pd_groups p)]" using assms(5,6) by (simp add: readers_of_def map_filter_rules)
  ultimately show ?thesis using assms(3,4) by (simp add: merge_group_states_def)
qed

definition large_meta :: part_meta where
  "large_meta = (sample_meta ''a'' 99)\<lparr>pm_row_count := 5000000\<rparr>"

definition delete_rules :: rewrite_rules where
  "delete_rules = (sample_rules 10)\<lparr>rw_tenants := [[97]], rw_masks := [[97] \<mapsto> [compile_request any_row (sample_request ''r'' 99)]]\<rparr>"

theorem deleted_rows_of_large_part_stay_witness:
  "merge_group_states least_head sample_write sample_merge_config delete_rules (\<lambda>_ _. None) True [''a''] [''a''] True
     \<lparr>me_disk = [(''a'', (sample_part ''a'' [sample_row 99])\<lparr>pd_meta := Some large_meta\<rparr>)], me_registered = [''a'']\<rparr> =
   [\<lparr>me_disk = [(''a'', (sample_part ''a'' [sample_row 99])\<lparr>pd_meta := Some large_meta\<rparr>)], me_registered = [''a'']\<rparr>]"
proof -
  have a: "may_cover_part (rw_tenants delete_rules) (rw_masks delete_rules) large_meta"
    by (simp add: delete_rules_def may_cover_part_def requests_of_def may_be_held_by_def compile_request_def sample_request_def
        large_meta_def sample_meta_def sample_segment_def)
  have b: "mc_max_part_rows sample_merge_config \<le> pm_row_count large_meta" by (simp add: sample_merge_config_def large_meta_def)
  have c: "rw_cutoffs delete_rules = Some \<lparr>cu_policies = sample_policies 10, cu_now = 100\<rparr>" by (simp add: delete_rules_def sample_rules_def)
  have e: "expired_log_rows \<lparr>cu_policies = sample_policies 10, cu_now = 100\<rparr> large_meta = 0"
    by (simp add: expired_log_rows_def large_meta_def sample_meta_def sample_segment_def is_expired_def cutoff_ns_def
        policy_signal_retention_def retention_for_def signal_retentions_get_def sample_policies_def saturating_sub_i64_def i64_max_def i64_min_def)
  show ?thesis using deleted_rows_of_large_part_stay [OF a b c e, of _ "''a''"] by simp
qed

text \<open>A directory whose removal was cut short behind its \<open>meta.json\<close>, as a crash during a retention pass
  leaves it, makes every start fail.\<close>

lemma half_removed_part_stops_start:
  assumes "pd_meta p = None" and "clean_disk disk" and "d \<notin> fst ` set disk"
  shows "\<exists>e. fst (discover_parts left unmarks (disk @ [(d, p)])) = Inl e"
proof -
  have n: "\<forall>(e, q) \<in> set disk. pd_marker q = NoMarker" using assms(2) by (auto simp: clean_disk_def)
  have "tombstone_edges (disk @ [(d, p)]) = []" "valid_replacements (disk @ [(d, p)]) = []" "invalid_merge_dirs (disk @ [(d, p)]) = []"
    using no_markers [OF n] assms(1) unfolding tombstone_edges_def valid_replacements_def invalid_merge_dirs_def
    by (simp_all add: map_filter_rules)
  then have "fst (discover_parts left unmarks (disk @ [(d, p)])) = load_visible [] [] (disk @ [(d, p)])"
    by (simp add: discover_parts_def remove_nothing)
  moreover have "\<exists>e. load_visible [] [] (xs @ [(d, p)]) = Inl e" for xs using assms(1) by (induction xs) (auto split: sum.splits)
  ultimately show ?thesis by simp
qed

text \<open>A discard that takes the marker first and is cut short there leaves a part that is served beside its
  inputs: what is given up is a whole part, and nothing tells a start that it is not one.\<close>

lemma discard_cut_short_serves_twice:
  "\<exists>left st p. removal_ok left \<and>
     st \<in> set (merge_group_states least_head sample_write sample_merge_config (sample_rules 10) left False [''a'', ''b''] [''a'', ''b''] False
       \<lparr>me_disk = sample_disk, me_registered = [''a'', ''b'']\<rparr>) \<and>
     fst (discover_parts (\<lambda>_ _. None) unmarks (me_disk st)) = Inr (sample_disk @ [(''new'', p)]) \<and> sample_row 99 \<in> set (concat (pd_groups p))"
proof -
  have readers: "readers_of sample_disk [''a'', ''b''] =
      [(sample_meta ''a'' 5, [[sample_row 1, sample_row 99]]), (sample_meta ''b'' 5, [[sample_row 98]])]"
    by (simp add: readers_of_def map_filter_rules sample_disk_def sample_part_def)
  have part: "pm_partition (sample_meta ''b'' 5) = pm_partition (sample_meta ''a'' 5)" by (simp add: sample_meta_def)
  have srt: "list_all (\<lambda>(m, groups). sorted (map row_key (concat groups))) (readers_of sample_disk [''a'', ''b''])"
    by (simp add: readers sample_row_def row_key_def)
  obtain kept dropped where k: "rewrite_group least_head sample_merge_config (sample_rules 10) (readers_of sample_disk [''a'', ''b'']) = Some (kept, dropped)"
    using merged_rows_are_sorted_rows_lemma [OF least_head_pops srt, of "rewrite_page_bytes sample_merge_config (Suc (Suc 0))"]
    by (simp add: rewrite_group_def readers part)
  have keeps: "rewrite_keeps (sample_rules 10) (sample_row 99)"
    by (simp add: rewrite_keeps_def sample_rules_def sample_row_def sample_policies_def hides_row_def is_expired_def cutoff_ns_def
        policy_signal_retention_def retention_for_def signal_retentions_get_def saturating_sub_i64_def i64_max_def i64_min_def)
  then have kept: "sample_row 99 \<in> set kept" using rewrite_group_rows [OF least_head_pops srt k] by (simp add: readers)
  let ?left = "\<lambda>(d :: string) p. Some (p\<lparr>pd_marker := NoMarker\<rparr>)"
  let ?st = "\<lparr>me_disk = sample_disk @ [(''new'', sample_part ''new'' kept)], me_registered = [''a'', ''b'']\<rparr>"
  have "sample_part ''new'' kept\<lparr>pd_marker := NoMarker\<rparr> = sample_part ''new'' kept" by (simp add: sample_part_def)
  moreover have "kept \<noteq> []" using kept by auto
  ultimately have "?st \<in> set (merge_group_states least_head sample_write sample_merge_config (sample_rules 10) ?left False [''a'', ''b''] [''a'', ''b''] False
       \<lparr>me_disk = sample_disk, me_registered = [''a'', ''b'']\<rparr>)"
    using k by (simp add: merge_group_states_def sample_write_def remove_append sample_disk_def Let_def)
  moreover have "clean_disk (me_disk ?st)" by (simp add: clean_disk_def sample_disk_def sample_part_def)
  moreover have "removal_ok ?left" by (simp add: removal_ok_def)
  moreover have "sample_row 99 \<in> set (concat (pd_groups (sample_part ''new'' kept)))" using kept by (simp add: sample_part_def)
  ultimately show ?thesis
    using discover_clean [of "me_disk ?st"] by (intro exI [of _ ?left] exI [of _ ?st] exI [of _ "sample_part ''new'' kept"]) simp
qed

text \<open>The marker of a part goes with the part: a directory \<open>a\<close> that could not be removed when \<open>b\<close> replaced
  it is served again, beside \<open>c\<close>, once \<open>c\<close> has replaced \<open>b\<close>.\<close>

definition two_generations :: parts_disk where
  "two_generations =
     (let disk1 = snd (remove_part_dirs (\<lambda>_ p. Some p) [''a'']
            [(''a'', sample_part ''a'' [sample_row 1]), (''b'', (sample_part ''b'' [sample_row 1])\<lparr>pd_marker := Marker [''a'']\<rparr>)])
      in remove_merge_tombstone ''c'' (snd (remove_part_dirs (\<lambda>_ _. None) [''b'']
           (disk1 @ [(''c'', (sample_part ''c'' [sample_row 1])\<lparr>pd_marker := Marker [''b'']\<rparr>)]))))"

lemma dropped_marker_shows_inputs_again:
  "fst (discover_parts left unmarks two_generations) = Inr [(''a'', sample_part ''a'' [sample_row 1]), (''c'', sample_part ''c'' [sample_row 1])]"
proof -
  have e: "two_generations = [(''a'', sample_part ''a'' [sample_row 1]), (''c'', sample_part ''c'' [sample_row 1])]"
    by (simp add: two_generations_def remove_merge_tombstone_def remove_append Let_def) (simp add: sample_part_def)
  have "clean_disk two_generations" by (simp add: e clean_disk_def) (simp add: sample_part_def)
  from discover_clean [OF this] show ?thesis by (simp add: e)
qed

end
