(* ===== verification/SeriesCompaction.thy ===== *)
theory SeriesCompaction
  imports Tier PartDirs "HOL-Library.AList"
begin

text \<open>
  \<open>signy/src/series_merge.rs\<close>: the compaction of metric parts on a local store, the record it commits
  by, and \<open>recover_local_compactions\<close>, which replays the records at a start. A directory is named by
  its partition and identifier; a part is its samples and whether \<open>load_series_part\<close> accepts it. The
  streaming writer is the parameter \<open>merge\<close>.
\<close>

subsection \<open>Inputs\<close>

definition compact_min_parts :: nat where "compact_min_parts = 8"

definition series_tier_policy :: tier_policy where
  "series_tier_policy = \<lparr>ti_max_part_bytes = 256 * 1024 * 1024, ti_min_parts = compact_min_parts, ti_max_parts = 16,
     ti_max_input_bytes = 256 * 1024 * 1024\<rparr>"

text \<open>A reader as the selection sees it: partition, the bytes of its segments, newest timestamp.\<close>

definition chunk_bytes :: "nat list \<Rightarrow> nat" where
  "chunk_bytes segments = sum_list segments"

definition select_inputs :: "((string \<times> nat list \<times> int) \<times> 'r) list \<Rightarrow> int \<Rightarrow> 'r list option" where
  "select_inputs readers now =
     map_option (map (\<lambda>i. snd (readers ! i)))
       (select_tier (map (\<lambda>((partition, segments, max_ts), _). \<lparr>tc_partition = partition, tc_bytes = chunk_bytes segments, tc_max_ts = max_ts\<rparr>) readers)
          series_tier_policy now)"

subsection \<open>Records\<close>

datatype path_component = RootDir | CurDir | ParentDir | Normal string

fun split_slash :: "string \<Rightarrow> string list" where
  "split_slash [] = [[]]"
| "split_slash (c # cs) =
     (if c = CHR ''/'' then [] # split_slash cs
      else (case split_slash cs of [] \<Rightarrow> [[c]] | p # ps \<Rightarrow> (c # p) # ps))"

text \<open>\<open>Path::components\<close>: repeated slashes and inner dots vanish, a dot in front stays.\<close>

definition inner_component :: "string \<Rightarrow> path_component option" where
  "inner_component piece =
     (if piece = [] \<or> piece = ''.'' then None else if piece = ''..'' then Some ParentDir else Some (Normal piece))"

definition path_components :: "string \<Rightarrow> path_component list" where
  "path_components raw =
     (case split_slash raw of
        [] \<Rightarrow> []
      | p # ps \<Rightarrow>
          (if raw \<noteq> [] \<and> p = [] then [RootDir] else if p = ''.'' then [CurDir] else List.map_filter inner_component [p]) @
          List.map_filter inner_component ps)"

type_synonym metric_dir = "string \<times> string"

definition record_dir :: "string \<Rightarrow> metric_dir option" where
  "record_dir relative = (case path_components relative of [Normal a, Normal b] \<Rightarrow> Some (a, b) | _ \<Rightarrow> None)"

definition relative_dir :: "metric_dir \<Rightarrow> string" where
  "relative_dir dir = fst dir @ ''/'' @ snd dir"

record compact_record =
  co_new :: "string list"
  co_inputs :: "string list"

record 's metric_part =
  mt_samples :: 's
  mt_loads :: bool

text \<open>\<open>mx_temps\<close> are the temporary records, \<open>mx_registered\<close> what the queries see.\<close>

record 's metric_store =
  mx_parts :: "(metric_dir \<times> 's metric_part) list"
  mx_records :: "(string \<times> compact_record) list"
  mx_temps :: "string list"
  mx_registered :: "metric_dir list"

subsection \<open>A start\<close>

type_synonym 's removal = "metric_dir \<Rightarrow> 's metric_part \<Rightarrow> 's metric_part option"

definition replacement_durable :: "compact_record \<Rightarrow> (metric_dir \<times> 's metric_part) list \<Rightarrow> bool" where
  "replacement_durable rec parts =
     list_all (\<lambda>relative. case record_dir relative of None \<Rightarrow> False
        | Some dir \<Rightarrow> (case map_of parts dir of None \<Rightarrow> False | Some p \<Rightarrow> mt_loads p)) (co_new rec)"

fun replay_records ::
    "'s removal \<Rightarrow> (string \<Rightarrow> bool) \<Rightarrow> (string \<times> compact_record) list \<Rightarrow> 's metric_store \<Rightarrow> bool \<times> 's metric_store" where
  "replay_records left drops [] st = (True, st)"
| "replay_records left drops ((path, rec) # recs) st =
     (case those (map record_dir (if replacement_durable rec (mx_parts st) then co_inputs rec else co_new rec)) of
        None \<Rightarrow> (False, st)
      | Some dirs \<Rightarrow>
          (let (removed, parts) = remove_part_dirs left dirs (mx_parts st); st1 = st\<lparr>mx_parts := parts\<rparr>
           in if \<not> removed \<or> \<not> drops path then (False, st1)
              else replay_records left drops recs (st1\<lparr>mx_records := AList.delete path (mx_records st1)\<rparr>)))"

definition recover_local_compactions ::
    "'s removal \<Rightarrow> (string \<Rightarrow> bool) \<Rightarrow> 's metric_store \<Rightarrow> bool \<times> 's metric_store" where
  "recover_local_compactions left drops st =
     (let temps = filter (\<lambda>t. \<not> drops t) (mx_temps st); st1 = st\<lparr>mx_temps := temps\<rparr>
      in if temps \<noteq> [] then (False, st1) else replay_records left drops (mx_records st1) st1)"

definition discover_series_parts :: "'s metric_store \<Rightarrow> (metric_dir \<times> 's metric_part) list option" where
  "discover_series_parts st = (if list_all (\<lambda>(_, p). mt_loads p) (mx_parts st) then Some (mx_parts st) else None)"

subsection \<open>A pass\<close>

text \<open>The states a pass goes through, the last the one it ends in. \<open>new\<close> is the output directory, \<open>tmp\<close>
  the temporary record; \<open>merge\<close> is \<open>None\<close> when the writer fails, \<open>opens\<close> whether the new part opens,
  \<open>drops\<close> whether a record can be removed.\<close>

definition compact_once_states ::
    "('s list \<Rightarrow> 's option) \<Rightarrow> bool \<Rightarrow> 's removal \<Rightarrow> bool \<Rightarrow> string \<Rightarrow> metric_dir \<Rightarrow> metric_dir list \<Rightarrow> 's metric_store \<Rightarrow> 's metric_store list" where
  "compact_once_states merge opens left drops tmp new inputs st =
     (let rec = \<lparr>co_new = [relative_dir new], co_inputs = map relative_dir inputs\<rparr>;
          path = snd new;
          st1 = st\<lparr>mx_temps := mx_temps st @ [tmp]\<rparr>;
          st2 = st\<lparr>mx_records := mx_records st @ [(path, rec)]\<rparr>
      in case merge (List.map_filter (\<lambda>d. map_option mt_samples (map_of (mx_parts st) d)) inputs) of
           None \<Rightarrow> if drops then [st, st1, st2, st] else [st, st1, st2]
         | Some samples \<Rightarrow>
             (let st3 = st2\<lparr>mx_parts := mx_parts st @ [(new, \<lparr>mt_samples = samples, mt_loads = True\<rparr>)]\<rparr>
              in if \<not> opens then [st, st1, st2, st3]
                 else
                   (let (removed, parts) = remove_part_dirs left inputs (mx_parts st3);
                        st4 = st3\<lparr>mx_parts := parts, mx_registered := filter (\<lambda>d. d \<notin> set inputs) (mx_registered st @ [new])\<rparr>;
                        st5 = st4\<lparr>mx_records := mx_records st\<rparr>
                    in if removed \<and> drops then [st, st1, st2, st3, st4, st5] else [st, st1, st2, st3, st4])))"

subsection \<open>Paths round trip\<close>

definition plain_name :: "string \<Rightarrow> bool" where
  "plain_name a \<longleftrightarrow> a \<noteq> [] \<and> a \<noteq> ''.'' \<and> a \<noteq> ''..'' \<and> CHR ''/'' \<notin> set a"

lemma split_slash_plain: "CHR ''/'' \<notin> set a \<Longrightarrow> split_slash a = [a]"
  by (induction a) auto

lemma split_slash_join: "CHR ''/'' \<notin> set a \<Longrightarrow> split_slash (a @ CHR ''/'' # b) = a # split_slash b"
  by (induction a) auto

lemma record_dir_relative_dir:
  assumes "plain_name a" and "plain_name b"
  shows "record_dir (relative_dir (a, b)) = Some (a, b)"
  using assms
  by (simp add: record_dir_def relative_dir_def path_components_def split_slash_join split_slash_plain plain_name_def
      map_filter_rules inner_component_def)

lemma those_relative:
  assumes "\<forall>d \<in> set dirs. plain_name (fst d) \<and> plain_name (snd d)"
  shows "those (map record_dir (map relative_dir dirs)) = Some dirs"
  using assms by (induction dirs) (auto simp: record_dir_relative_dir)

subsection \<open>What a crash can leave\<close>

definition settled :: "'s metric_store \<Rightarrow> bool" where
  "settled st \<longleftrightarrow> mx_records st = [] \<and> mx_temps st = [] \<and> distinct (map fst (mx_parts st)) \<and> (\<forall>(d, p) \<in> set (mx_parts st). mt_loads p)"

definition pass_record :: "metric_dir \<Rightarrow> metric_dir list \<Rightarrow> string \<times> compact_record" where
  "pass_record new inputs = (snd new, \<lparr>co_new = [relative_dir new], co_inputs = map relative_dir inputs\<rparr>)"

definition in_pass :: "(metric_dir \<times> 's metric_part) list \<Rightarrow> metric_dir \<Rightarrow> 's metric_part \<Rightarrow> metric_dir list \<Rightarrow> 's metric_store \<Rightarrow> bool" where
  "in_pass base new out inputs st \<longleftrightarrow>
     mx_parts st = base \<and> mx_records st \<in> {[], [pass_record new inputs]} \<or>
     (\<exists>left. mx_parts st = snd (remove_part_dirs left inputs base) @ [(new, out)]) \<and> mx_records st = [pass_record new inputs] \<or>
     mx_parts st = others inputs base @ [(new, out)] \<and> mx_records st = []"

definition compacting :: "(metric_dir \<times> 's metric_part) list \<Rightarrow> metric_dir \<Rightarrow> 's metric_part \<Rightarrow> metric_dir list \<Rightarrow> bool" where
  "compacting base new out inputs \<longleftrightarrow> new \<notin> fst ` set base \<and> set inputs \<subseteq> fst ` set base \<and> mt_loads out \<and>
     (\<forall>d \<in> set (new # inputs). plain_name (fst d) \<and> plain_name (snd d))"

lemma remove_absent: "set dirs \<inter> fst ` set disk = {} \<Longrightarrow> remove_part_dirs left dirs disk = (True, disk)"
  by (rule prod_eqI; induction disk) auto

lemma remove_gone: "fst (remove_part_dirs (\<lambda>_ _. None) dirs disk)"
  by (induction disk) auto

lemma replay_in_pass:
  assumes "compacting base new out inputs" and "in_pass base new out inputs st" and "replay_records left drops (mx_records st) st = (ok, st')"
  shows "in_pass base new out inputs st' \<and> mx_temps st' = mx_temps st \<and>
    (ok \<longrightarrow> mx_records st' = [] \<and> (mx_parts st' = base \<or> mx_parts st' = others inputs base @ [(new, out)])) \<and>
    ((\<forall>d p. left d p = None) \<and> (\<forall>f. drops f) \<longrightarrow> ok)"
proof -
  obtain path rec where pr: "pass_record new inputs = (path, rec)" by (cases "pass_record new inputs")
  have names: "record_dir (relative_dir new) = Some new" "those (map record_dir (co_inputs rec)) = Some inputs"
    "co_new rec = [relative_dir new]"
    using assms(1) those_relative [of inputs] record_dir_relative_dir [of "fst new" "snd new"] pr
    by (auto simp: compacting_def pass_record_def)
  have fresh: "new \<notin> fst ` set base" "new \<notin> set inputs" and loads: "mt_loads out" using assms(1) by (auto simp: compacting_def)
  from assms(2) consider (no_record) "mx_records st = []" "mx_parts st = base \<or> mx_parts st = others inputs base @ [(new, out)]"
    | (intent) "mx_parts st = base" "mx_records st = [(path, rec)]"
    | (written) left0 where "mx_parts st = snd (remove_part_dirs left0 inputs base) @ [(new, out)]" "mx_records st = [(path, rec)]"
    unfolding in_pass_def pr by blast
  then show ?thesis
  proof cases
    case no_record
    then show ?thesis using assms(2,3) by auto
  next
    case intent
    have "map_of base new = None" using fresh(1) by (simp add: map_of_eq_None_iff)
    then have "\<not> replacement_durable rec base" by (simp add: replacement_durable_def names)
    moreover have "remove_part_dirs left [new] base = (True, base)" by (rule remove_absent) (use fresh in simp)
    ultimately have "(ok, st') = (if \<not> drops path then (False, st\<lparr>mx_parts := base\<rparr>) else (True, st\<lparr>mx_parts := base, mx_records := []\<rparr>))"
      using assms(3) intent names by (auto simp: Let_def split: if_splits)
    then show ?thesis using assms(2) intent by (auto simp: in_pass_def pr split: if_splits)
  next
    case written
    define rest where "rest = snd (remove_part_dirs left0 inputs base)"
    have "new \<notin> fst ` set rest" using removed_subset [of _ _ left0 inputs base] fresh unfolding rest_def by force
    then have "map_of (rest @ [(new, out)]) new = Some out" by (simp add: map_add_def map_of_eq_None_iff [THEN iffD2])
    then have d: "replacement_durable rec (rest @ [(new, out)])" by (simp add: replacement_durable_def names loads)
    define gone rest2 where "gone = fst (remove_part_dirs left inputs rest)" and "rest2 = snd (remove_part_dirs left inputs rest)"
    have rm: "remove_part_dirs left inputs (rest @ [(new, out)]) = (gone, rest2 @ [(new, out)])"
      by (simp add: remove_append remove_other [OF fresh(2)] gone_def rest2_def)
    have twice: "rest2 = snd (remove_part_dirs (\<lambda>e q. case left0 e q of None \<Rightarrow> None | Some q' \<Rightarrow> left e q') inputs base)"
      by (simp add: rest2_def rest_def remove_twice)
    have all: "rest2 = others inputs base" if gone
      using that remove_complete [of left inputs rest] by (simp add: gone_def rest2_def rest_def others_removed)
    have st': "(ok, st') = (if \<not> gone \<or> \<not> drops path then (False, st\<lparr>mx_parts := rest2 @ [(new, out)]\<rparr>)
        else (True, st\<lparr>mx_parts := rest2 @ [(new, out)], mx_records := []\<rparr>))"
      using assms(3) written d rm names by (auto simp: rest_def [symmetric] Let_def split: if_splits)
    have g: gone if "\<forall>d p. left d p = None"
    proof -
      have "left = (\<lambda>_ _. None)" by (intro ext) (use that in blast)
      then show ?thesis by (simp add: gone_def remove_gone)
    qed
    show ?thesis
    proof (cases "gone \<and> drops path")
      case True
      then show ?thesis using st' all by (auto simp: in_pass_def)
    next
      case False
      then have "ok = False" "st' = st\<lparr>mx_parts := rest2 @ [(new, out)]\<rparr>" using st' by (auto split: if_splits)
      then show ?thesis using twice written(2) g False by (auto simp: in_pass_def pr)
    qed
  qed
qed

lemma recover_in_pass:
  assumes "compacting base new out inputs" and "in_pass base new out inputs st"
    and "recover_local_compactions left drops st = (ok, st')"
  shows "in_pass base new out inputs st' \<and>
    (ok \<longrightarrow> mx_records st' = [] \<and> mx_temps st' = [] \<and> (mx_parts st' = base \<or> mx_parts st' = others inputs base @ [(new, out)])) \<and>
    ((\<forall>d p. left d p = None) \<and> (\<forall>f. drops f) \<longrightarrow> ok)"
proof (cases "filter (\<lambda>t. \<not> drops t) (mx_temps st) = []")
  case True
  define st1 where "st1 = st\<lparr>mx_temps := []\<rparr>"
  have i: "in_pass base new out inputs st1" using assms(2) by (simp add: in_pass_def st1_def)
  have r: "replay_records left drops (mx_records st1) st1 = (ok, st')"
    using assms(3) True by (simp add: recover_local_compactions_def Let_def st1_def)
  have t: "mx_temps st1 = []" by (simp add: st1_def)
  show ?thesis using replay_in_pass [OF assms(1) i r] unfolding t by blast
next
  case False
  then have "ok = False" "st' = st\<lparr>mx_temps := filter (\<lambda>t. \<not> drops t) (mx_temps st)\<rparr>"
    using assms(3) by (auto simp: recover_local_compactions_def Let_def split: if_splits)
  moreover have "\<not> (\<forall>f. drops f)" using False by (auto simp: filter_empty_conv)
  ultimately show ?thesis using assms(2) by (simp add: in_pass_def)
qed

lemma pass_states_in_pass:
  assumes "settled st0" and "compacting (mx_parts st0) new out inputs"
    and "\<forall>samples. merge (List.map_filter (\<lambda>d. map_option mt_samples (map_of (mx_parts st0) d)) inputs) = Some samples \<longrightarrow>
      out = \<lparr>mt_samples = samples, mt_loads = True\<rparr>"
    and "st \<in> set (compact_once_states merge opens left drops tmp new inputs st0)"
  shows "in_pass (mx_parts st0) new out inputs st"
proof -
  define base where "base = mx_parts st0"
  have keep: "snd (remove_part_dirs (\<lambda>_ p. Some p) inputs base) = base" by (induction base) auto
  have fresh: "new \<notin> set inputs" using assms(2) by (auto simp: compacting_def)
  have w: "\<exists>left. base @ [(new, out)] = snd (remove_part_dirs left inputs base) @ [(new, out)]" using keep by metis
  have r: "mx_records st0 = []" "mx_temps st0 = []" using assms(1) by (simp_all add: settled_def)
  show ?thesis
  proof (cases "merge (List.map_filter (\<lambda>d. map_option mt_samples (map_of (mx_parts st0) d)) inputs)")
    case None
    then show ?thesis using assms(4) r
      by (auto simp: compact_once_states_def Let_def in_pass_def pass_record_def split: if_splits)
  next
    case (Some samples)
    have out: "out = \<lparr>mt_samples = samples, mt_loads = True\<rparr>" using assms(3) Some by blast
    define parts where "parts = snd (remove_part_dirs left inputs base)"
    have rm: "remove_part_dirs left inputs (base @ [(new, out)]) = (fst (remove_part_dirs left inputs base), parts @ [(new, out)])"
      by (simp add: remove_append remove_other [OF fresh] parts_def)
    have complete: "parts = others inputs base" if "fst (remove_part_dirs left inputs base)"
      using remove_complete [OF that] by (simp add: parts_def)
    have cases: "mx_parts st = base \<and> mx_records st \<in> {[], [pass_record new inputs]} \<or>
        mx_parts st = base @ [(new, out)] \<and> mx_records st = [pass_record new inputs] \<or>
        mx_parts st = parts @ [(new, out)] \<and> mx_records st = [pass_record new inputs] \<or>
        mx_parts st = parts @ [(new, out)] \<and> mx_records st = [] \<and> fst (remove_part_dirs left inputs base)"
    proof (cases opens)
      case False
      then show ?thesis using assms(4) Some r out
        by (simp add: compact_once_states_def Let_def pass_record_def base_def [symmetric]) (elim disjE; simp add: base_def [symmetric])
    next
      case True
      obtain removed where rd: "remove_part_dirs left inputs (base @ [(new, \<lparr>mt_samples = samples, mt_loads = True\<rparr>)]) = (removed, parts @ [(new, out)])"
        "fst (remove_part_dirs left inputs base) = removed" using rm by (simp add: out)
      consider "removed" "drops" | "\<not> removed" | "\<not> drops" by blast
      then show ?thesis
        by cases ((use assms(4) Some r out \<open>opens\<close> rd in
          \<open>simp add: compact_once_states_def Let_def pass_record_def base_def [symmetric]; elim disjE; simp add: base_def [symmetric]\<close>)+)
    qed
    have "\<exists>left. parts @ [(new, out)] = snd (remove_part_dirs left inputs base) @ [(new, out)]" using parts_def by blast
    then show ?thesis using cases w complete unfolding in_pass_def base_def [symmetric] by (elim disjE conjE) simp_all
  qed
qed

text \<open>C10: a metric compaction interrupted anywhere is either done or not done: from any state of a pass,
  over any starts that were cut short or could not remove a file, a start that can succeeds, leaves no
  record and no temporary, and serves either every input and no replacement or the replacement and no
  input, all of them loadable and everything else untouched.\<close>

theorem metric_compaction_crash_safe:
  assumes "settled st0" and "compacting (mx_parts st0) new out inputs"
    and "\<forall>samples. merge (List.map_filter (\<lambda>d. map_option mt_samples (map_of (mx_parts st0) d)) inputs) = Some samples \<longrightarrow>
      out = \<lparr>mt_samples = samples, mt_loads = True\<rparr>"
    and "st \<in> set (compact_once_states merge opens left drops tmp new inputs st0)"
  shows "\<exists>st'. recover_local_compactions (\<lambda>_ _. None) (\<lambda>_. True)
      (fold (\<lambda>(left, drops) st. snd (recover_local_compactions left drops st)) restarts st) = (True, st') \<and>
    settled st' \<and> discover_series_parts st' = Some (mx_parts st') \<and>
    (mx_parts st' = mx_parts st0 \<or> mx_parts st' = others inputs (mx_parts st0) @ [(new, out)])"
proof -
  define base st1 where "base = mx_parts st0"
    and "st1 = fold (\<lambda>(left, drops) st. snd (recover_local_compactions left drops st)) restarts st"
  note c = assms(2) [folded base_def]
  have i0: "in_pass base new out inputs st" using pass_states_in_pass [OF assms] by (simp add: base_def)
  have "in_pass base new out inputs (fold (\<lambda>(left, drops) st. snd (recover_local_compactions left drops st)) restarts st)"
    if "in_pass base new out inputs st" for st
    using that
  proof (induction restarts arbitrary: st)
    case (Cons x restarts)
    obtain left drops where x: "x = (left, drops)" by (cases x)
    obtain ok st2 where r: "recover_local_compactions left drops st = (ok, st2)" by (meson surj_pair)
    have "in_pass base new out inputs st2" using recover_in_pass [OF c Cons.prems r] by blast
    then show ?case using Cons.IH r x by simp
  qed simp
  then have i1: "in_pass base new out inputs st1" using i0 by (simp add: st1_def)
  obtain ok st' where r: "recover_local_compactions (\<lambda>_ _. None) (\<lambda>_. True) st1 = (ok, st')" by (meson surj_pair)
  note f = recover_in_pass [OF c i1 r]
  then have ok: "ok" "mx_records st' = []" "mx_temps st' = []" "mx_parts st' = base \<or> mx_parts st' = others inputs base @ [(new, out)]" by simp_all
  have b: "distinct (map fst base)" "\<forall>(d, p) \<in> set base. mt_loads p" using assms(1) by (simp_all add: settled_def base_def)
  then have "distinct (map fst (others inputs base))" by (simp add: distinct_map_filter)
  then have "distinct (map fst (others inputs base @ [(new, out)]))" "\<forall>(d, p) \<in> set (others inputs base @ [(new, out)]). mt_loads p"
    using b(2) c by (auto simp: compacting_def)
  then have "settled st'" using ok b unfolding settled_def by metis
  moreover from this have "discover_series_parts st' = Some (mx_parts st')"
    by (auto simp: discover_series_parts_def settled_def list_all_iff)
  moreover have "recover_local_compactions (\<lambda>_ _. None) (\<lambda>_. True) st1 = (True, st')" using r ok(1) by simp
  ultimately show ?thesis using ok(4) unfolding st1_def base_def by blast
qed

definition sample_store :: "int list metric_store" where
  "sample_store = \<lparr>mx_parts = [((''d'', ''a''), \<lparr>mt_samples = [1], mt_loads = True\<rparr>), ((''d'', ''b''), \<lparr>mt_samples = [2], mt_loads = True\<rparr>)],
     mx_records = [], mx_temps = [], mx_registered = [(''d'', ''a''), (''d'', ''b'')]\<rparr>"

definition stuck :: "string \<Rightarrow> int list removal" where
  "stuck i d p = (if snd d = i then Some p else None)"

abbreviation sample_pass :: "bool \<Rightarrow> int list removal \<Rightarrow> string \<Rightarrow> string list \<Rightarrow> int list metric_store \<Rightarrow> int list metric_store" where
  "sample_pass opens left new inputs st \<equiv>
     last (compact_once_states (\<lambda>ss. Some (concat ss)) opens left True ''t'' (''d'', new) (map (Pair ''d'') inputs) st)"

theorem metric_compaction_crash_safe_witness:
  "\<exists>st'. recover_local_compactions (\<lambda>_ _. None) (\<lambda>_. True) (sample_pass True (stuck ''a'') ''n'' [''a'', ''b''] sample_store) = (True, st') \<and>
    settled st'"
proof -
  have s: "settled sample_store" by (simp add: settled_def sample_store_def)
  have c: "compacting (mx_parts sample_store) (''d'', ''n'') \<lparr>mt_samples = [1, 2], mt_loads = True\<rparr> (map (Pair ''d'') [''a'', ''b''])"
    by (simp add: compacting_def sample_store_def plain_name_def)
  have m: "\<forall>samples. Some (concat (List.map_filter (\<lambda>d. map_option mt_samples (map_of (mx_parts sample_store) d)) (map (Pair ''d'') [''a'', ''b'']))) = Some samples \<longrightarrow>
      \<lparr>mt_samples = [1, 2], mt_loads = True\<rparr> = \<lparr>mt_samples = samples, mt_loads = True\<rparr>"
    by (simp add: sample_store_def map_filter_rules)
  have "compact_once_states (\<lambda>ss. Some (concat ss)) True (stuck ''a'') True ''t'' (''d'', ''n'') (map (Pair ''d'') [''a'', ''b'']) sample_store \<noteq> []"
    by (simp add: compact_once_states_def Let_def split: prod.splits)
  from metric_compaction_crash_safe [OF s c m last_in_set [OF this], of "[]"] show ?thesis by auto
qed

subsection \<open>Where it goes wrong\<close>

text \<open>An input that could not be removed is served again once the part that replaced it was compacted
  further: the record that would have removed it names a replacement that is gone.\<close>

lemma stale_record_keeps_inputs:
  "map (\<lambda>(d, p). (snd d, mt_samples p)) (mx_parts (snd (recover_local_compactions (\<lambda>_ _. None) (\<lambda>_. True)
     (sample_pass True (\<lambda>_ _. None) ''n2'' [''n1''] (sample_pass True (stuck ''a'') ''n1'' [''a'', ''b''] sample_store))))) =
   [(''a'', [1]), (''n2'', [1, 2])]"
proof -
  have p1: "sample_pass True (stuck ''a'') ''n1'' [''a'', ''b''] sample_store =
    \<lparr>mx_parts = [((''d'', ''a''), \<lparr>mt_samples = [1], mt_loads = True\<rparr>), ((''d'', ''n1''), \<lparr>mt_samples = [1, 2], mt_loads = True\<rparr>)],
     mx_records = [pass_record (''d'', ''n1'') [(''d'', ''a''), (''d'', ''b'')]], mx_temps = [], mx_registered = [(''d'', ''n1'')]\<rparr>"
    by (simp add: compact_once_states_def Let_def case_prod_unfold map_filter_rules stuck_def sample_store_def pass_record_def)
  have p2: "sample_pass True (\<lambda>_ _. None) ''n2'' [''n1''] (sample_pass True (stuck ''a'') ''n1'' [''a'', ''b''] sample_store) =
    \<lparr>mx_parts = [((''d'', ''a''), \<lparr>mt_samples = [1], mt_loads = True\<rparr>), ((''d'', ''n2''), \<lparr>mt_samples = [1, 2], mt_loads = True\<rparr>)],
     mx_records = [pass_record (''d'', ''n1'') [(''d'', ''a''), (''d'', ''b'')]], mx_temps = [], mx_registered = [(''d'', ''n2'')]\<rparr>"
    unfolding p1 by (simp add: compact_once_states_def Let_def case_prod_unfold map_filter_rules)
  have n: "record_dir (relative_dir (''d'', ''n1'')) = Some (''d'', ''n1'')" by (rule record_dir_relative_dir) (simp_all add: plain_name_def)
  show ?thesis unfolding p2
    by (simp add: recover_local_compactions_def pass_record_def replacement_durable_def n Let_def case_prod_unfold)
qed

text \<open>A pass whose new part does not open leaves it behind with its record; the next pass compacts the
  same inputs again, and the start behind it serves both results.\<close>

lemma failed_open_doubles_samples:
  "map (\<lambda>(d, p). (snd d, mt_samples p)) (mx_parts (snd (recover_local_compactions (\<lambda>_ _. None) (\<lambda>_. True)
     (sample_pass True (\<lambda>_ _. None) ''n2'' [''a'', ''b''] (sample_pass False (\<lambda>_ _. None) ''n1'' [''a'', ''b''] sample_store))))) =
   [(''n1'', [1, 2]), (''n2'', [1, 2])]"
proof -
  have p1: "sample_pass False (\<lambda>_ _. None) ''n1'' [''a'', ''b''] sample_store =
    \<lparr>mx_parts = [((''d'', ''a''), \<lparr>mt_samples = [1], mt_loads = True\<rparr>), ((''d'', ''b''), \<lparr>mt_samples = [2], mt_loads = True\<rparr>),
       ((''d'', ''n1''), \<lparr>mt_samples = [1, 2], mt_loads = True\<rparr>)],
     mx_records = [pass_record (''d'', ''n1'') [(''d'', ''a''), (''d'', ''b'')]], mx_temps = [], mx_registered = [(''d'', ''a''), (''d'', ''b'')]\<rparr>"
    by (simp add: compact_once_states_def Let_def case_prod_unfold map_filter_rules sample_store_def pass_record_def)
  have p2: "sample_pass True (\<lambda>_ _. None) ''n2'' [''a'', ''b''] (sample_pass False (\<lambda>_ _. None) ''n1'' [''a'', ''b''] sample_store) =
    \<lparr>mx_parts = [((''d'', ''n1''), \<lparr>mt_samples = [1, 2], mt_loads = True\<rparr>), ((''d'', ''n2''), \<lparr>mt_samples = [1, 2], mt_loads = True\<rparr>)],
     mx_records = [pass_record (''d'', ''n1'') [(''d'', ''a''), (''d'', ''b'')]], mx_temps = [], mx_registered = [(''d'', ''n2'')]\<rparr>"
    unfolding p1 by (simp add: compact_once_states_def Let_def case_prod_unfold map_filter_rules)
  have n: "record_dir (relative_dir (''d'', ''n1'')) = Some (''d'', ''n1'')" "record_dir (relative_dir (''d'', ''a'')) = Some (''d'', ''a'')"
    "record_dir (relative_dir (''d'', ''b'')) = Some (''d'', ''b'')"
    by (rule record_dir_relative_dir; simp add: plain_name_def)+
  show ?thesis unfolding p2
    by (simp add: recover_local_compactions_def pass_record_def replacement_durable_def n Let_def case_prod_unfold)
qed

end
