(* ===== verification/Admission.thy ===== *)
theory Admission
  imports Policy
begin

text \<open>
  What work in flight is held to: the memory account of \<open>signy/src/memory_budget.rs\<close> and the limits a
  tenant was given, \<open>signy/src/tenant_quota.rs\<close>. A number of bytes is a natural number below \<open>2 ^ 64\<close>;
  the atomic operations of a call are steps other tasks can come between.
\<close>

subsection \<open>The memory account\<close>

text \<open>A charge is the bytes it stands for and, between the two halves of \<open>reconcile\<close>, the bytes the
  account still has for it.\<close>

record memory_charge =
  ch_bytes :: nat
  ch_held :: "nat option"

record memory_account =
  ma_budget :: nat
  ma_in_use :: nat
  ma_exhausted :: nat
  ma_deferred :: nat

definition memory_account_new :: "nat \<Rightarrow> memory_account" where
  "memory_account_new budget = \<lparr>ma_budget = budget, ma_in_use = 0, ma_exhausted = 0, ma_deferred = 0\<rparr>"

datatype memory_refusal = OverBudget nat nat | Exhausted nat nat nat

definition take_bytes_of :: "nat \<Rightarrow> memory_account \<Rightarrow> memory_charge option \<times> memory_account" where
  "take_bytes_of nbytes a =
     (let upto = saturating_add_u64 (ma_in_use a) nbytes
      in if upto \<le> ma_budget a then (Some \<lparr>ch_bytes = nbytes, ch_held = None\<rparr>, a\<lparr>ma_in_use := upto\<rparr>) else (None, a))"

definition memory_admit :: "nat \<Rightarrow> memory_account \<Rightarrow> (memory_refusal + memory_charge) \<times> memory_account" where
  "memory_admit nbytes a =
     (if nbytes > ma_budget a then (Inl (OverBudget nbytes (ma_budget a)), a)
      else (case take_bytes_of nbytes a of
              (Some c, a') \<Rightarrow> (Inr c, a')
            | (None, a') \<Rightarrow> (Inl (Exhausted (ma_budget a) (ma_in_use a) nbytes), a'\<lparr>ma_exhausted := ma_exhausted a' + 1\<rparr>)))"

definition memory_try_admit :: "nat \<Rightarrow> memory_account \<Rightarrow> memory_charge option \<times> memory_account" where
  "memory_try_admit nbytes a =
     (case take_bytes_of nbytes a of
        (Some c, a') \<Rightarrow> (Some c, a')
      | (None, a') \<Rightarrow> (None, a'\<lparr>ma_deferred := ma_deferred a' + 1\<rparr>))"

definition reconcile_swaps :: "nat \<Rightarrow> memory_charge \<Rightarrow> memory_charge" where
  "reconcile_swaps resident c = \<lparr>ch_bytes = resident, ch_held = Some (ch_bytes c)\<rparr>"

definition reconcile_updates :: "memory_charge \<Rightarrow> memory_account \<Rightarrow> memory_charge \<times> memory_account" where
  "reconcile_updates c a =
     (case ch_held c of
        None \<Rightarrow> (c, a)
      | Some held \<Rightarrow> (c\<lparr>ch_held := None\<rparr>, a\<lparr>ma_in_use := saturating_add_u64 (ma_in_use a - held) (ch_bytes c)\<rparr>))"

definition charge_drop :: "memory_charge \<Rightarrow> memory_account \<Rightarrow> memory_account" where
  "charge_drop c a = a\<lparr>ma_in_use := ma_in_use a - ch_bytes c\<rparr>"

text \<open>The account with the charges alive. A charge is reconciled by the one task that has it, and not
  dropped in between; what a process holds fits in 64 bits.\<close>

definition accounted :: "memory_charge \<Rightarrow> nat" where
  "accounted c = (case ch_held c of None \<Rightarrow> ch_bytes c | Some held \<Rightarrow> held)"

inductive account_reachable :: "nat \<Rightarrow> memory_account \<Rightarrow> memory_charge list \<Rightarrow> bool" for budget where
  start: "account_reachable budget (memory_account_new budget) []"
| admit: "account_reachable budget a cs \<Longrightarrow> memory_admit nbytes a = (Inr c, a') \<Longrightarrow> account_reachable budget a' (c # cs)"
| refuse: "account_reachable budget a cs \<Longrightarrow> memory_admit nbytes a = (Inl e, a') \<Longrightarrow> account_reachable budget a' cs"
| try_admit: "account_reachable budget a cs \<Longrightarrow> memory_try_admit nbytes a = (Some c, a') \<Longrightarrow> account_reachable budget a' (c # cs)"
| postpone: "account_reachable budget a cs \<Longrightarrow> memory_try_admit nbytes a = (None, a') \<Longrightarrow> account_reachable budget a' cs"
| swap: "account_reachable budget a (xs @ c # ys) \<Longrightarrow> ch_held c = None \<Longrightarrow>
    account_reachable budget a (xs @ reconcile_swaps resident c # ys)"
| update: "account_reachable budget a (xs @ c # ys) \<Longrightarrow> reconcile_updates c a = (c', a') \<Longrightarrow>
    (\<Sum>x \<leftarrow> xs @ ys. accounted x) + ch_bytes c < 2 ^ 64 \<Longrightarrow> account_reachable budget a' (xs @ c' # ys)"
| release: "account_reachable budget a (xs @ c # ys) \<Longrightarrow> ch_held c = None \<Longrightarrow> account_reachable budget (charge_drop c a) (xs @ ys)"

lemma take_some: "take_bytes_of nbytes a = (Some c, a') \<Longrightarrow>
  c = \<lparr>ch_bytes = nbytes, ch_held = None\<rparr> \<and> a' = a\<lparr>ma_in_use := saturating_add_u64 (ma_in_use a) nbytes\<rparr> \<and>
  saturating_add_u64 (ma_in_use a) nbytes \<le> ma_budget a"
  and take_none: "take_bytes_of nbytes a = (None, a') \<Longrightarrow> a' = a \<and> ma_budget a < saturating_add_u64 (ma_in_use a) nbytes"
  by (auto simp: take_bytes_of_def Let_def split: if_splits)

lemma saturating_fits: "saturating_add_u64 a b \<le> budget \<Longrightarrow> budget < 2 ^ 64 - 1 \<Longrightarrow> saturating_add_u64 a b = a + b"
  by (auto simp: saturating_add_u64_def u64_max_def min_def split: if_splits)

text \<open>What the account has in use is what the live charges are accounted for.\<close>

lemma account_exact:
  assumes "account_reachable budget a cs" and "budget < 2 ^ 64 - 1"
  shows "ma_budget a = budget \<and> ma_in_use a = (\<Sum>c \<leftarrow> cs. accounted c)"
  using assms(1)
proof (induction rule: account_reachable.induct)
  case start
  then show ?case by (simp add: memory_account_new_def)
next
  case (admit a cs nbytes c a')
  then show ?case using saturating_fits [of "ma_in_use a" nbytes budget] assms(2)
    by (auto simp: memory_admit_def accounted_def split: if_splits prod.splits option.splits dest!: take_some)
next
  case (refuse a cs nbytes e a')
  then show ?case by (auto simp: memory_admit_def split: if_splits prod.splits option.splits dest!: take_none)
next
  case (try_admit a cs nbytes c a')
  then show ?case using saturating_fits [of "ma_in_use a" nbytes budget] assms(2)
    by (auto simp: memory_try_admit_def accounted_def split: prod.splits option.splits dest!: take_some)
next
  case (postpone a cs nbytes a')
  then show ?case by (auto simp: memory_try_admit_def split: prod.splits option.splits dest!: take_none)
next
  case (swap a xs c ys resident)
  then show ?case by (simp add: accounted_def reconcile_swaps_def)
next
  case (update a xs c ys c' a')
  then show ?case by (auto simp: reconcile_updates_def accounted_def saturating_add_u64_def u64_max_def min_def split: option.splits)
next
  case (release a xs c ys)
  then show ?case by (simp add: charge_drop_def accounted_def)
qed

text \<open>C20: the memory account tells the truth: in every interleaving of admissions, reconciliations and
  releases it has in use what the live charges are accounted for, an admission that succeeds stays
  within the budget, a request larger than the whole budget is refused for that reason, and a request
  that fits beside what is in use is admitted, so with nothing in flight anything up to the budget is.\<close>

theorem memory_account_exact:
  assumes "account_reachable budget a cs" and "budget < 2 ^ 64 - 1"
  shows "ma_in_use a = (\<Sum>c \<leftarrow> cs. accounted c) \<and>
    (case memory_admit nbytes a of
       (Inr c, a') \<Rightarrow> ch_bytes c = nbytes \<and> ma_in_use a' = ma_in_use a + nbytes \<and> ma_in_use a' \<le> budget
     | (Inl (OverBudget n b), a') \<Rightarrow> n = nbytes \<and> b = budget \<and> budget < nbytes \<and> a' = a
     | (Inl (Exhausted b u n), a') \<Rightarrow> nbytes \<le> budget \<and> budget < ma_in_use a + nbytes \<and> ma_in_use a' = ma_in_use a \<and>
         ma_exhausted a' = ma_exhausted a + 1 \<and> cs \<noteq> [])"
proof -
  have e: "ma_budget a = budget" "ma_in_use a = (\<Sum>c \<leftarrow> cs. accounted c)" using account_exact [OF assms] by simp_all
  consider (over) "nbytes > budget" | (room) "nbytes \<le> budget" "ma_in_use a + nbytes \<le> budget"
    | (full) "nbytes \<le> budget" "ma_in_use a + nbytes > budget" by linarith
  then show ?thesis
  proof cases
    case over
    then show ?thesis using e by (simp add: memory_admit_def)
  next
    case room
    then have "saturating_add_u64 (ma_in_use a) nbytes = ma_in_use a + nbytes" using assms(2) by (simp add: saturating_add_u64_def u64_max_def)
    then show ?thesis using e room by (simp add: memory_admit_def take_bytes_of_def)
  next
    case full
    then have "\<not> saturating_add_u64 (ma_in_use a) nbytes \<le> budget" using assms(2) by (simp add: saturating_add_u64_def u64_max_def)
    moreover have "cs \<noteq> []" using full e by auto
    ultimately show ?thesis using e full by (simp add: memory_admit_def take_bytes_of_def)
  qed
qed

theorem memory_account_exact_witness:
  "case memory_admit 60 (snd (memory_admit 50 (memory_account_new 100))) of
     (Inr c, a') \<Rightarrow> False | (Inl (OverBudget n b), a') \<Rightarrow> False | (Inl (Exhausted b u n), a') \<Rightarrow> ma_exhausted a' = 1"
proof -
  have a: "memory_admit 50 (memory_account_new 100) =
    (Inr \<lparr>ch_bytes = 50, ch_held = None\<rparr>, \<lparr>ma_budget = 100, ma_in_use = 50, ma_exhausted = 0, ma_deferred = 0\<rparr>)"
    by (simp add: memory_admit_def memory_account_new_def take_bytes_of_def saturating_add_u64_def u64_max_def)
  have r: "account_reachable 100 \<lparr>ma_budget = 100, ma_in_use = 50, ma_exhausted = 0, ma_deferred = 0\<rparr> [\<lparr>ch_bytes = 50, ch_held = None\<rparr>]"
    by (rule account_reachable.admit [OF account_reachable.start a])
  have "memory_admit 60 \<lparr>ma_budget = 100, ma_in_use = 50, ma_exhausted = 0, ma_deferred = 0\<rparr> =
    (Inl (Exhausted 100 50 60), \<lparr>ma_budget = 100, ma_in_use = 50, ma_exhausted = 1, ma_deferred = 0\<rparr>)"
    by (simp add: memory_admit_def take_bytes_of_def saturating_add_u64_def u64_max_def)
  then show ?thesis using memory_account_exact [OF r, of 60] a by simp
qed

subsection \<open>The limits of a tenant\<close>

type_synonym in_flight_map = "tenant_id \<rightharpoonup> nat"

text \<open>The limit is cut to 32 bits.\<close>

definition query_limit :: "nat \<Rightarrow> nat" where
  "query_limit max_concurrent = max_concurrent mod 2 ^ 32"

definition begin_query :: "nat \<Rightarrow> tenant_id \<Rightarrow> in_flight_map \<Rightarrow> (nat + unit) \<times> in_flight_map" where
  "begin_query max_concurrent t m =
     (let count = (case m t of None \<Rightarrow> 0 | Some n \<Rightarrow> n); m1 = m(t \<mapsto> count)
      in if count \<ge> query_limit max_concurrent then (Inl count, m1) else (Inr (), m1(t \<mapsto> count + 1)))"

definition slot_drop :: "tenant_id \<Rightarrow> in_flight_map \<Rightarrow> in_flight_map" where
  "slot_drop t m =
     (case m t of
        None \<Rightarrow> m
      | Some count \<Rightarrow> (if count - 1 = 0 then m(t := None) else m(t \<mapsto> count - 1)))"

definition resolve_storage_limit :: "policy_map \<Rightarrow> tenant_id \<Rightarrow> storage_limit" where
  "resolve_storage_limit policies t = (case policy_max_stored_bytes policies t of None \<Rightarrow> Unlimited | Some l \<Rightarrow> l)"

definition max_stored_bytes_for :: "policy_map \<Rightarrow> tenant_id \<Rightarrow> nat option" where
  "max_stored_bytes_for policies t = (case resolve_storage_limit policies t of Unlimited \<Rightarrow> None | Bytes n \<Rightarrow> Some n)"

text \<open>The three registries' census of the tenant.\<close>

definition tenant_stored_bytes :: "nat \<Rightarrow> nat \<Rightarrow> nat \<Rightarrow> nat" where
  "tenant_stored_bytes logs traces metrics = saturating_add_u64 (saturating_add_u64 logs traces) metrics"

definition storage_limit_retry_after :: nat where "storage_limit_retry_after = 60"

text \<open>A refusal is its status and the seconds to wait.\<close>

definition admit_storage :: "policy_map \<Rightarrow> tenant_id \<Rightarrow> nat \<Rightarrow> nat \<Rightarrow> (nat \<times> nat) + unit" where
  "admit_storage policies t stored rejected =
     (case resolve_storage_limit policies t of
        Unlimited \<Rightarrow> Inr ()
      | Bytes limit \<Rightarrow> if stored < limit then Inr () else Inl (429, storage_limit_retry_after))"

text \<open>The map with the slots alive.\<close>

inductive quota_reachable :: "nat \<Rightarrow> in_flight_map \<Rightarrow> tenant_id list \<Rightarrow> bool" for max_concurrent where
  idle: "quota_reachable max_concurrent (\<lambda>_. None) []"
| begins: "quota_reachable max_concurrent m ts \<Longrightarrow> begin_query max_concurrent t m = (Inr (), m') \<Longrightarrow> quota_reachable max_concurrent m' (t # ts)"
| refused: "quota_reachable max_concurrent m ts \<Longrightarrow> begin_query max_concurrent t m = (Inl n, m') \<Longrightarrow> quota_reachable max_concurrent m' ts"
| ends: "quota_reachable max_concurrent m (xs @ t # ys) \<Longrightarrow> quota_reachable max_concurrent (slot_drop t m) (xs @ ys)"

lemma quota_counts:
  assumes "quota_reachable max_concurrent m ts"
  shows "(case m t of None \<Rightarrow> 0 | Some n \<Rightarrow> n) = count_list ts t \<and> count_list ts t \<le> query_limit max_concurrent"
  using assms
proof (induction arbitrary: t rule: quota_reachable.induct)
  case (begins m ts u m')
  have m': "m' = m(u \<mapsto> (case m u of None \<Rightarrow> 0 | Some n \<Rightarrow> n) + 1)"
    and lt: "(case m u of None \<Rightarrow> 0 | Some n \<Rightarrow> n) < query_limit max_concurrent"
    using begins.hyps(2) by (auto simp: begin_query_def Let_def split: if_splits)
  show ?case
  proof (cases "u = t")
    case True
    then show ?thesis using begins.IH [of t] lt by (simp add: m')
  next
    case False
    then show ?thesis using begins.IH [of t] by (simp add: m')
  qed
next
  case (refused m ts u n m')
  have m': "m' = m(u \<mapsto> (case m u of None \<Rightarrow> 0 | Some n \<Rightarrow> n))"
    using refused.hyps(2) by (auto simp: begin_query_def Let_def split: if_splits)
  show ?case by (cases "u = t") (use refused.IH [of t] in \<open>simp_all add: m'\<close>)
next
  case (ends m xs u ys)
  show ?case
  proof (cases "u = t")
    case True
    then show ?thesis using ends.IH [of t] by (cases "m t") (auto simp: slot_drop_def)
  next
    case False
    then have "slot_drop u m t = m t" by (auto simp: slot_drop_def split: option.splits)
    then show ?thesis using False ends.IH [of t] by simp
  qed
qed simp

text \<open>C21: however queries of all tenants begin, are refused and end, a tenant never has more in flight
  than the limit, the count kept is that of its live slots, so none leaks, and a query is refused
  exactly when the tenant already has as many in flight as the limit allows.\<close>

theorem query_slots_exact:
  assumes "quota_reachable max_concurrent m slots"
  shows "count_list slots t \<le> query_limit max_concurrent \<and>
    (\<exists>m'. begin_query max_concurrent t m =
       (if count_list slots t = query_limit max_concurrent then Inl (count_list slots t) else Inr (), m'))"
  using quota_counts [OF assms, of t] by (auto simp: begin_query_def Let_def)

theorem query_slots_exact_witness:
  "fst (begin_query 1 [97] (snd (begin_query 1 [97] (\<lambda>_. None)))) = Inl 1"
proof -
  have b: "begin_query 1 [97] (\<lambda>_. None) = (Inr (), [[97] \<mapsto> 1])" by (simp add: begin_query_def query_limit_def)
  have "quota_reachable 1 [[97] \<mapsto> 1] [[97]]" by (rule quota_reachable.begins [OF quota_reachable.idle b])
  from query_slots_exact [OF this, of "[97]"] show ?thesis by (auto simp: b query_limit_def simp flip: One_nat_def)
qed

end
