(* ===== verification/Spec2Isabelle.thy ===== *)
theory Spec2Isabelle
  imports LogScan QueueProps Spool Delivery WalProps HistogramChunk Bloom Parts MergeCommit SeriesCompaction Admission
begin

text \<open>
  obsy is two Rust programs. \<open>collecty\<close> runs beside applications: it takes OTLP exports over HTTP,
  queues them on disk per signal and sends the closed segments of the queue to \<open>signy\<close>. \<open>signy\<close> is the
  storage engine: its collect route reads the records of a segment, journals and buffers them, and
  answers up to which segment it has everything; flushes turn buffers into immutable parts, merges,
  compactions and retention rewrite and drop parts, and queries read buffers and parts.

  A record travels \<open>route\<close> (Intake), \<open>append_chunks\<close> (DiskQueue), \<open>deliver\<close> (Sender), \<open>collect_inner\<close>
  (Collect), \<open>write_batch\<close> (WalWriter), a part (Parts), a merge (MergeCommit). The theories follow it.

  \<^bold>\<open>collecty.\<close>
  Prelude (machine types, byte encodings, decimal text, operations with errors), Strings.
  Wire: \<open>wire.rs\<close>, record framing. Segment: \<open>signal.rs\<close> and \<open>queue/segment.rs\<close>, the files of a
  signal. DiskQueue: \<open>queue/mod.rs\<close>, state \<open>queue\<close> with one \<open>signal_queue\<close> per signal, one
  definition per function. QueueInv states its invariant and the abstract queue (\<open>queue_abs\<close>),
  QueueOps, QueueWrite and QueueRetire refine each operation against it, QueueRecover starts over what a
  crash leaves, QueueProps holds the properties. Identity: \<open>queue/identity.rs\<close>. Spool:
  \<open>queue/spool.rs\<close>, the two worker lanes as a step relation. Sender and Transport: \<open>send/mod.rs\<close>,
  \<open>send/transport.rs\<close>. Intake: \<open>receive/mod.rs\<close> with its in-flight gate as a step relation, which hands permits to the first in line
  as they come free, the way the semaphore of the runtime does.

  \<^bold>\<open>signy, from the wire to the log.\<close>
  Tenant: \<open>tenant.rs\<close>. Marks: \<open>journal/marks.rs\<close>, positions per sender and signal. WalFormat, Replay,
  WalCompaction, WalWriter: \<open>journal/\<close>, the records, the replay, the compaction as the list of its
  durable steps and the writer task round by round; WalLaws relates a batch to what it replays to,
  WalProps holds the properties. Gate: \<open>backpressure.rs\<close>. Collect, CollectLaws, CollectProps:
  \<open>collect.rs\<close>. Delivery joins the sender of the one program with the route of the other.

  \<^bold>\<open>signy, storage.\<close>
  Gorilla and HistogramChunk: the two sample formats. Bloom: \<open>bloom.rs\<close>. Policy: \<open>tenant_policy.rs\<close>.
  Parts: what a part says of itself and the retention pass. Deletes: \<open>delete_requests.rs\<close>, with the
  awaits of each operation as points where others run, on a node with a bucket (\<open>de_bucket\<close>) or without. Tier: \<open>compaction_tier.rs\<close>. RowMerge:
  \<open>part/row_stream.rs\<close>. Merge: \<open>merge/selection.rs\<close>. PartDirs and MergeCommit: \<open>part/tombstone.rs\<close>,
  \<open>merge/scheduler.rs\<close>, \<open>discover_parts\<close>. SeriesCompaction: \<open>series_merge.rs\<close>. Admission:
  \<open>memory_budget.rs\<close> and \<open>tenant_quota.rs\<close>.

  \<^bold>\<open>signy, queries.\<close>
  Sink: \<open>part/sink.rs\<close>, what a scan puts its rows in. LogQL: \<open>logql/\<close>, the pipeline on one row and the
  equalities handed down to the storage; LogQLLaws shows that these hold of the rows it accepts.
  Pushdown: \<open>part/indexes.rs\<close> and the index and columns in \<open>part/format.rs\<close> and \<open>part/reader.rs\<close>, as
  bytes written and read back. Memtable: \<open>memtable.rs\<close>, the rows not in a part yet, pushes and flush
  passes as a step relation, and the scan over the buffers. PartScan: \<open>part/reader.rs\<close> and \<open>part_registry.rs\<close>, the selection and
  reading of rows of parts; RegexLiterals: the texts a line filter requires of a line
  (\<open>logql/pipeline.rs\<close>). PartScanLaws shows that a scan offers every row the sink would take, of parts as
  they are written; MergedParts that a merge writes such parts as a flush does (columns from the counts
  of its inputs, \<open>merge/selection.rs\<close>, the index made by \<open>part/stream_writer.rs\<close>). LogScan:
  \<open>log_scan.rs\<close>, a whole log query; \<open>log_scan_exact\<close> says what it answers.

  \<^bold>\<open>How code becomes definitions.\<close> A struct is a record, an enum a datatype, an error a value. A
  \<open>String\<close> is the bytes of its UTF-8 text. Counters the program keeps in 64 bits are natural numbers
  with the saturation or the test of the source written out; sample encodings are machine words, and
  whether the build checks for overflow (and panics) or wraps is an argument of the histogram codec. A
  directory is an association list; a device is an argument that says which call fails and what it
  leaves; an operation that can be cut short is the list of the states it goes through. Tasks that
  interleave are the steps of an inductive relation, one step between two awaits. Loops that need not
  end are partial functions into \<open>option\<close>; that they end is part of the theorem (\<open>tier_of_total\<close>,
  \<open>merged_rows_are_sorted_rows\<close>, \<open>append_chunks_stores\<close>). There is no fuel.

  \<^bold>\<open>Interfaces.\<close> \<open>refined_ops\<close> (QueueInv) is what a queue operation owes the abstract queue,
  \<open>drains\<close> (Sender) what a turn owes a loop that empties the queue, \<open>approximate_set\<close> (Bloom) what a
  filter owes its readers, \<open>sink\<close> (Sink) what a scan relies on of where it puts its rows; each is interpreted on the model's operations.

  \<^bold>\<open>Parameters.\<close> zstd (\<open>z_emit\<close> and its inverse, output that only grows), CRC and hash functions of
  libraries, the tables of Unicode, serde's codecs, the protobuf decoders, the part and chunk writers
  of the columnar format, the clock and random identifiers. What is relied on of them stands as a
  hypothesis where it is used.

  \<^bold>\<open>Where the model is coarser than the code.\<close> A write of the queue that fails has written nothing, and a
  segment file that cannot be created is not there. In a metric compaction a failure of the writer behind its
  rename whose rollback fails too is one with the failure before it. The discard of a merged part that
  was given up is taken to leave the marker while it leaves anything (\<open>discard_ok\<close>);
  \<open>discard_cut_short_serves_twice\<close> shows what happens otherwise. Retention and merges act on a local store.

  \<^bold>\<open>What is not modelled.\<close> The start-up, configuration and self-observation of both programs and the
  HTTP plumbing are I/O around what is modelled. The columnar layout of part files is the parquet
  crate's. The series index and its query engine, the trace store and the remote object store with its
  manifest are large components of their own; of them the sample formats, the local compaction record
  and the retention decisions are modelled. Load generators, benches and reports are tools.
\<close>

end
